(* ===== verification/Prelude.thy ===== *)
theory Prelude
  imports Complex_Main "HOL-Library.Word" "HOL-Library.Log_Nat"
begin

text \<open>
  Shared vocabulary of the development: the faults a C++ operation can run into, the
  result type of operations that may hit one, and generic facts about words and lists.
\<close>

unbundle bit_operations_syntax

subsection \<open>Names for machine types\<close>

type_synonym u8 = "8 word"
type_synonym u16 = "16 word"
type_synonym u32 = "32 word"
type_synonym s32 = "32 word"

subsection \<open>Faults and results\<close>

text \<open>
  Behaviour the C++ standard leaves undefined, as values: using an object after its
  destruction, reading a member nothing has written, converting a floating point value to
  an integer type that cannot hold it, indexing outside an array, using a null pointer,
  a loop that never reaches its exit, and overflow of signed arithmetic.
\<close>

datatype fault = UseAfterFree | Uninitialised | BadConversion | OutOfBounds | NullPointer | Diverges
  | SignedOverflow

type_synonym 'a res = "fault + 'a"

definition bind_res :: "'e + 'a \<Rightarrow> ('a \<Rightarrow> 'e + 'b) \<Rightarrow> 'e + 'b" where
  "bind_res r f = (case r of Inl e \<Rightarrow> Inl e | Inr x \<Rightarrow> f x)"

lemma bind_res_simps [simp]:
  "bind_res (Inl e) f = Inl e" "bind_res (Inr x) f = f x"
  by (simp_all add: bind_res_def)

lemma bind_res_eq_Inr:
  "bind_res r f = Inr y \<longleftrightarrow> (\<exists>x. r = Inr x \<and> f x = Inr y)"
  by (cases r) auto

lemma bind_res_assoc: "bind_res (bind_res r f) g = bind_res r (\<lambda>x. bind_res (f x) g)"
  by (cases r) auto

fun map_res :: "('a \<Rightarrow> 'e + 'b) \<Rightarrow> 'a list \<Rightarrow> 'e + 'b list" where
  "map_res f [] = Inr []"
| "map_res f (x # xs) =
     bind_res (f x) (\<lambda>y. bind_res (map_res f xs) (\<lambda>ys. Inr (y # ys)))"

lemma map_res_Inr: "(\<And>x. x \<in> set xs \<Longrightarrow> f x = Inr (g x)) \<Longrightarrow> map_res f xs = Inr (map g xs)"
  by (induction xs) auto

lemma map_res_eq_InrD:
  "map_res f xs = Inr ys \<Longrightarrow> list_all2 (\<lambda>x y. f x = Inr y) xs ys"
  by (induction xs arbitrary: ys) (auto simp: bind_res_eq_Inr)

lemma map_res_length: "map_res f xs = Inr ys \<Longrightarrow> length ys = length xs"
  by (drule map_res_eq_InrD) (simp add: list_all2_lengthD)

subsection \<open>Lists\<close>

lemma list_split:
  assumes "i < length xs"
  obtains as bs where "xs = as @ xs ! i # bs" "\<And>x. xs[i := x] = as @ x # bs"
  using assms by (metis id_take_nth_drop upd_conv_take_nth_drop)

lemma sum_list_map_update:
  "i < length xs \<Longrightarrow> sum_list (map f (xs[i := x])) + f (xs ! i) = sum_list (map f xs) + (f x :: 'a::comm_monoid_add)"
proof -
  assume "i < length xs"
  then obtain as bs where "xs = as @ xs ! i # bs" "xs[i := x] = as @ x # bs" using list_split by metis
  then have "sum_list (map f xs) = sum_list (map f as) + (f (xs ! i) + sum_list (map f bs))"
    "sum_list (map f (xs[i := x])) = sum_list (map f as) + (f x + sum_list (map f bs))"
    by (metis list.simps(9) map_append sum_list.Cons sum_list.append)+
  then show ?thesis by (simp add: ac_simps)
qed

lemma concat_map_length_const:
  "(\<And>x. x \<in> set xs \<Longrightarrow> length (f x) = k) \<Longrightarrow> length (concat (map f xs)) = k * length xs"
  by (induction xs) auto

lemma nth_concat_const:
  assumes "\<And>x. x \<in> set xs \<Longrightarrow> length (f x) = k" and "i < length xs" and "j < k"
  shows "concat (map f xs) ! (k * i + j) = f (xs ! i) ! j"
  using assms
proof (induction xs arbitrary: i)
  case Nil
  then show ?case by simp
next
  case (Cons x xs)
  show ?case
  proof (cases i)
    case 0
    with Cons.prems show ?thesis by (simp add: nth_append)
  next
    case (Suc i')
    have "length (f x) = k" using Cons.prems(1) by simp
    then have "concat (map f (x # xs)) ! (k * i + j) = concat (map f xs) ! (k * i' + j)"
      using Suc by (simp add: nth_append)
    also have "\<dots> = f (xs ! i') ! j"
      using Cons.IH [of i'] Cons.prems Suc by auto
    finally show ?thesis using Suc by simp
  qed
qed

lemma foldl_inv:
  assumes "P a" and "\<And>a x. P a \<Longrightarrow> x \<in> set xs \<Longrightarrow> P (f a x)"
  shows "P (foldl f a xs)"
  using assms by (induction xs arbitrary: a) auto

subsection \<open>Words\<close>

lemma unat_u8_less [simp]: "unat (w :: u8) < 256"
  using unsigned_less [of w] by simp

lemma unat_u8_le [simp]: "unat (w :: u8) \<le> 255"
  using unat_u8_less [of w] by linarith

lemma u8_eqI: "(\<And>i. i < 8 \<Longrightarrow> bit v i = bit w i) \<Longrightarrow> v = (w :: u8)"
  by (rule bit_word_eqI) simp

lemma bit_u8_high [simp]: "8 \<le> n \<Longrightarrow> \<not> bit (w :: u8) n"
  using bit_imp_le_length [of w n] by auto

end
