(* ===== verification/Float32.thy ===== *)
theory Float32
  imports Prelude
begin

text \<open>
  The single precision arithmetic of the animations. A finite \<^verbatim>\<open>float\<close> is the rational
  number it denotes, and each arithmetic operation of the source rounds its exact result
  to the nearest representable value, ties to even (IEEE 754 binary32, 24 bits of
  precision, gradual underflow below \<open>2 ^ (-126)\<close>), as a target with
  \<^verbatim>\<open>FLT_EVAL_METHOD == 0\<close> does. Comparisons and conversions to integers are exact.
  No operation of the arena code leaves the finite range: its operands are bounded by the
  clock (below \<open>2 ^ 34\<close> seconds), so infinities, NaN and the sign of zero play no part.
\<close>

subsection \<open>Binary exponents\<close>

text \<open>\<open>lg x\<close> is the exponent \<open>e\<close> with \<open>2 ^ e \<le> x < 2 ^ (e + 1)\<close>.\<close>

function lg :: "rat \<Rightarrow> int" where
  "lg x = (if x \<le> 0 then 0
           else if x < 1 then lg (2 * x) - 1
           else if 2 \<le> x then lg (x / 2) + 1
           else 0)"
  by pat_completeness auto

lemma nat_ceiling_double_less:
  fixes y :: rat
  assumes "1 < y"
  shows "nat \<lceil>y / 2\<rceil> < nat \<lceil>y\<rceil>"
proof -
  have "\<lceil>y / 2\<rceil> < \<lceil>y\<rceil>"
  proof (cases "y \<le> 2")
    case True
    then have "\<lceil>y / 2\<rceil> \<le> 1" by (simp add: ceiling_le_iff)
    moreover have "1 < \<lceil>y\<rceil>" using assms by (simp add: less_ceiling_iff)
    ultimately show ?thesis by linarith
  next
    case False
    then have "y / 2 + 1 \<le> y" by simp
    then have "\<lceil>y / 2 + 1\<rceil> \<le> \<lceil>y\<rceil>" by (rule ceiling_mono)
    then show ?thesis by simp
  qed
  moreover have "0 < \<lceil>y\<rceil>" using assms by (simp add: less_ceiling_iff)
  ultimately show ?thesis by linarith
qed

termination lg
proof (relation "measures [\<lambda>x. if x < 1 then nat \<lceil>1 / x\<rceil> else 0, \<lambda>x. nat \<lceil>x\<rceil>]", goal_cases)
  case 1
  show ?case by simp
next
  case (2 x)
  then have "1 < 1 / x" by simp
  then have "nat \<lceil>1 / x / 2\<rceil> < nat \<lceil>1 / x\<rceil>" by (rule nat_ceiling_double_less)
  moreover have "1 / x / 2 = 1 / (2 * x)" by simp
  ultimately show ?case using 2 by (auto simp: mult.commute)
next
  case (3 x)
  then have "nat \<lceil>x / 2\<rceil> < nat \<lceil>x\<rceil>" by (intro nat_ceiling_double_less) simp
  with 3 show ?case by simp
qed

declare lg.simps [simp del]

lemma lg_bounds:
  assumes "0 < x"
  shows "2 powi lg x \<le> x" and "x < 2 powi (lg x + 1)"
proof -
  have "2 powi lg x \<le> x \<and> x < 2 powi (lg x + 1)" using assms
  proof (induction x rule: lg.induct)
    case (1 x)
    consider "x < 1" | "2 \<le> x" | "1 \<le> x" "x < 2" by linarith
    then show ?case
    proof cases
      case 1
      have e: "lg x = lg (2 * x) - 1" using 1 "1.prems" by (simp add: lg.simps [of x])
      have ih: "2 powi lg (2 * x) \<le> 2 * x" "2 * x < 2 powi (lg (2 * x) + 1)"
        using "1.IH"(1) 1 "1.prems" by simp_all
      have "(2 :: rat) powi lg (2 * x) = 2 * 2 powi (lg x)"
           "(2 :: rat) powi (lg (2 * x) + 1) = 2 * 2 powi (lg x + 1)"
        by (simp_all add: e power_int_add_1 power_int_diff)
      with ih show ?thesis by linarith
    next
      case 2
      have e: "lg x = lg (x / 2) + 1" using 2 by (simp add: lg.simps [of x])
      have ih: "2 powi lg (x / 2) \<le> x / 2" "x / 2 < 2 powi (lg (x / 2) + 1)"
        using "1.IH"(2) 2 "1.prems" by simp_all
      have "(2 :: rat) powi lg x = 2 * 2 powi (lg (x / 2))"
           "(2 :: rat) powi (lg x + 1) = 2 * 2 powi (lg (x / 2) + 1)"
        by (simp_all add: e power_int_add_1 power_int_add)
      with ih show ?thesis by linarith
    next
      case 3
      then show ?thesis by (simp add: lg.simps [of x])
    qed
  qed
  then show "2 powi lg x \<le> x" and "x < 2 powi (lg x + 1)" by auto
qed

lemma powi2_less_iff [simp]: "(2 :: rat) powi a < 2 powi b \<longleftrightarrow> a < b"
  by (metis linorder_neqE_linordered_idom order_less_asym power_int_strict_increasing
      less_irrefl one_less_numeral_iff semiring_norm(76))

lemma powi2_le_iff [simp]: "(2 :: rat) powi a \<le> 2 powi b \<longleftrightarrow> a \<le> b"
  using powi2_less_iff [of b a] by linarith

lemma powi2_pos [simp]: "0 < (2 :: rat) powi e"
  by (simp add: zero_less_power_int)

lemma powi2_nz [simp]: "(2 :: rat) powi e \<noteq> 0"
  by simp

lemma lg_mono:
  assumes "0 < x" "x \<le> y"
  shows "lg x \<le> lg y"
proof -
  have "2 powi lg x < (2 :: rat) powi (lg y + 1)"
    using lg_bounds(1) [of x] lg_bounds(2) [of y] assms by linarith
  then show ?thesis by simp
qed

lemma lg_le_iff: "0 < x \<Longrightarrow> lg x \<le> e \<longleftrightarrow> x < 2 powi (e + 1)"
proof
  assume "0 < x" "lg x \<le> e"
  then have "x < 2 powi (lg x + 1)" "(2 :: rat) powi (lg x + 1) \<le> 2 powi (e + 1)"
    using lg_bounds(2) by auto
  then show "x < 2 powi (e + 1)" by linarith
next
  assume "0 < x" "x < 2 powi (e + 1)"
  then have "(2 :: rat) powi lg x < 2 powi (e + 1)" using lg_bounds(1) [of x] by linarith
  then show "lg x \<le> e" by simp
qed

lemma lg_eqI: "2 powi e \<le> x \<Longrightarrow> x < 2 powi (e + 1) \<Longrightarrow> lg x = e"
proof -
  assume a: "2 powi e \<le> x" "x < 2 powi (e + 1)"
  then have "0 < x" using powi2_pos [of e] by linarith
  then have "lg x \<le> e" "\<not> lg x \<le> e - 1" using a lg_le_iff [of x e] lg_le_iff [of x "e - 1"] by auto
  then show ?thesis by simp
qed

subsection \<open>Rounding to nearest, ties to even\<close>

definition rne :: "rat \<Rightarrow> int" where
  "rne y = (let f = \<lfloor>y\<rfloor>; d = y - of_int f in
     if d < 1 / 2 then f else if 1 / 2 < d then f + 1
     else if even f then f else f + 1)"

lemma rne_cases:
  obtains "rne y = \<lfloor>y\<rfloor>" "y - of_int \<lfloor>y\<rfloor> \<le> 1 / 2"
    | "rne y = \<lfloor>y\<rfloor> + 1" "1 / 2 \<le> y - of_int \<lfloor>y\<rfloor>"
  by (cases "y - of_int \<lfloor>y\<rfloor> < 1 / 2"; cases "1 / 2 < y - of_int \<lfloor>y\<rfloor>"; cases "even \<lfloor>y\<rfloor>")
     (simp_all add: rne_def Let_def)

lemma rne_err: "\<bar>of_int (rne y) - y\<bar> \<le> 1 / 2"
proof -
  have "of_int \<lfloor>y\<rfloor> \<le> y" "y < of_int \<lfloor>y\<rfloor> + 1" 
    using floor_less_iff [of y "\<lfloor>y\<rfloor> + 1"] by simp_all
  then show ?thesis by (cases y rule: rne_cases) auto
qed

lemma rne_of_int [simp]: "rne (of_int n) = n"
  by (simp add: rne_def)

lemma rne_mono:
  assumes "x \<le> y"
  shows "rne x \<le> rne y"
proof -
  have f: "\<lfloor>x\<rfloor> \<le> \<lfloor>y\<rfloor>" using assms by (rule floor_mono)
  show ?thesis
  proof (cases "\<lfloor>x\<rfloor> = \<lfloor>y\<rfloor>")
    case True
    with assms show ?thesis by (auto simp: rne_def Let_def)
  next
    case False
    with f have "\<lfloor>x\<rfloor> + 1 \<le> \<lfloor>y\<rfloor>" by simp
    moreover have "rne x \<le> \<lfloor>x\<rfloor> + 1" by (cases x rule: rne_cases) simp_all
    moreover have "\<lfloor>y\<rfloor> \<le> rne y" by (cases y rule: rne_cases) simp_all
    ultimately show ?thesis by linarith
  qed
qed

lemma rne_minus [simp]: "rne (- y) = - rne y"
proof (cases "y \<in> \<int>")
  case True
  then obtain n where "y = of_int n" by (auto elim: Ints_cases)
  then show ?thesis using rne_of_int [of "- n"] by simp
next
  case False
  then have fl: "\<lfloor>- y\<rfloor> = - \<lfloor>y\<rfloor> - 1"
    by (metis Ints_of_int ceiling_altdef floor_minus minus_diff_commute diff_minus_eq_add
        uminus_add_conv_diff minus_add_distrib)
  show ?thesis by (simp add: rne_def Let_def fl)
qed

lemma rne_le_of_int: "y \<le> of_int n \<Longrightarrow> rne y \<le> n"
  using rne_mono [of y "of_int n"] by simp

lemma rne_ge_of_int: "of_int n \<le> y \<Longrightarrow> n \<le> rne y"
  using rne_mono [of "of_int n" y] by simp

subsection \<open>Binary32\<close>

text \<open>
  The spacing of the binary32 numbers around \<open>x\<close>: 24 significant bits, and never finer
  than the smallest subnormal \<open>2 ^ (-149)\<close>.
\<close>

definition ulp_exp :: "rat \<Rightarrow> int" where
  "ulp_exp x = max (lg \<bar>x\<bar> - 23) (-149)"

definition fl :: "rat \<Rightarrow> rat" where
  "fl x = (if x = 0 then 0 else let u = 2 powi ulp_exp x in of_int (rne (x / u)) * u)"

lemma fl_0 [simp]: "fl 0 = 0"
  by (simp add: fl_def)

lemma fl_minus [simp]: "fl (- x) = - fl x"
  by (simp add: fl_def ulp_exp_def Let_def)

lemma fl_alt: "fl x = of_int (rne (x / 2 powi ulp_exp x)) * 2 powi ulp_exp x"
  using rne_of_int [of 0] by (auto simp: fl_def Let_def)

lemma fl_err: "\<bar>fl x - x\<bar> \<le> 2 powi ulp_exp x / 2"
proof -
  let ?u = "2 powi ulp_exp x :: rat"
  have "fl x - x = (of_int (rne (x / ?u)) - x / ?u) * ?u"
    by (simp add: fl_alt field_simps)
  also have "\<bar>\<dots>\<bar> = \<bar>of_int (rne (x / ?u)) - x / ?u\<bar> * ?u"
    by (simp add: abs_mult)
  also have "\<dots> \<le> 1 / 2 * ?u"
    by (rule mult_right_mono [OF rne_err]) simp
  finally show ?thesis by simp
qed

text \<open>A multiple of the local spacing is not changed.\<close>

lemma powi2_of_nat: "0 \<le> e \<Longrightarrow> (2 :: rat) powi e = of_int (2 ^ nat e)"
  by (simp add: power_int_def)

lemma powi2_split: "e \<le> f \<Longrightarrow> (2 :: rat) powi f = of_int (2 ^ nat (f - e)) * 2 powi e"
  using powi2_of_nat [of "f - e"] by (simp add: power_int_diff field_simps)

lemma fl_multiple:
  assumes "x = of_int m * 2 powi e" and "ulp_exp x \<le> e"
  shows "fl x = x"
proof -
  have "x / 2 powi ulp_exp x = of_int m * 2 powi (e - ulp_exp x)"
    using assms(1) by (simp add: power_int_diff)
  also have "\<dots> = of_int (m * 2 ^ nat (e - ulp_exp x))"
    using assms(2) by (simp add: powi2_of_nat)
  finally have "rne (x / 2 powi ulp_exp x) = m * 2 ^ nat (e - ulp_exp x)"
    by (metis rne_of_int)
  then have "fl x = of_int (m * 2 ^ nat (e - ulp_exp x)) * 2 powi ulp_exp x"
    by (simp add: fl_alt)
  also have "\<dots> = of_int m * (2 powi (e - ulp_exp x) * 2 powi ulp_exp x)"
    using assms(2) by (simp add: powi2_of_nat)
  also have "\<dots> = x"
    using assms(1) by (simp flip: power_int_add)
  finally show ?thesis .
qed

lemma fl_repr:
  assumes x: "x = of_int m * 2 powi e" and m: "\<bar>m\<bar> < 2 ^ 24" and e: "-149 \<le> e"
  shows "fl x = x"
proof (cases "m = 0")
  case True
  then show ?thesis by (simp add: x)
next
  case False
  have "\<bar>x\<bar> = of_int \<bar>m\<bar> * 2 powi e" by (simp add: x abs_mult)
  also have "\<dots> < 2 ^ 24 * 2 powi e"
    using m by (intro mult_strict_right_mono) (simp_all flip: of_int_abs add: of_int_less_numeral_iff)
  also have "\<dots> = 2 powi ((e + 23) + 1)"
    by (simp add: power_int_add)
  finally have "lg \<bar>x\<bar> \<le> e + 23"
    using False by (subst lg_le_iff) (simp_all add: x)
  then have "ulp_exp x \<le> e" using e by (simp add: ulp_exp_def)
  with x show ?thesis by (rule fl_multiple)
qed

lemma fl_of_int: "\<bar>n\<bar> < 2 ^ 24 \<Longrightarrow> fl (of_int n) = of_int n"
  by (rule fl_repr [of _ n 0]) simp_all

lemma fl_powi2: "-149 \<le> e \<Longrightarrow> fl (2 powi e) = 2 powi e"
  by (rule fl_repr [of _ 1 e]) simp_all

text \<open>Rounding is monotone: within one binade because \<open>rne\<close> is, across binades because
  the power of two between them is representable.\<close>

lemma fl_mono_pos:
  assumes "0 < x" "x \<le> y"
  shows "fl x \<le> fl y"
proof -
  have lg: "lg x \<le> lg y" using assms by (rule lg_mono)
  have abs: "\<bar>x\<bar> = x" "\<bar>y\<bar> = y" using assms by simp_all
  let ?u = "2 powi ulp_exp x :: rat" and ?v = "2 powi ulp_exp y :: rat"
  show ?thesis
  proof (cases "ulp_exp x = ulp_exp y")
    case True
    then have "rne (x / ?u) \<le> rne (y / ?v)"
      using assms(2) by (intro rne_mono) (simp add: divide_right_mono)
    with True show ?thesis by (simp add: fl_alt)
  next
    case False
    with lg have lt: "lg x < lg y" and ux: "ulp_exp x \<le> lg y" and uy: "ulp_exp y = lg y - 23"
      by (auto simp: ulp_exp_def abs max_def split: if_splits)
    let ?p = "2 powi lg y :: rat"
    have px: "?p = of_int (2 ^ nat (lg y - ulp_exp x)) * ?u"
      using ux by (rule powi2_split)
    have "x \<le> ?p"
      using lt assms(1) lg_le_iff [of x "lg y - 1"] by simp
    then have "x / ?u \<le> of_int (2 ^ nat (lg y - ulp_exp x))"
      by (subst pos_divide_le_eq) (simp_all add: px)
    then have "fl x \<le> ?p"
      unfolding px fl_alt by (intro mult_right_mono of_int_le_iff [THEN iffD2] rne_le_of_int) simp_all
    also have py: "?p = of_int (2 ^ 23) * ?v"
      by (simp add: uy power_int_diff)
    have "?p \<le> y" using lg_bounds(1) [of y] assms by simp
    then have "of_int (2 ^ 23) \<le> y / ?v"
      by (subst pos_le_divide_eq) (simp_all only: py powi2_pos)
    then have "?p \<le> fl y"
      unfolding py fl_alt by (intro mult_right_mono of_int_le_iff [THEN iffD2] rne_ge_of_int) simp_all
    finally show ?thesis .
  qed
qed

lemma fl_nonneg: "0 \<le> x \<Longrightarrow> 0 \<le> fl x"
  using rne_ge_of_int [of 0 "x / 2 powi ulp_exp x"] by (simp add: fl_alt)

lemma fl_mono: "x \<le> y \<Longrightarrow> fl x \<le> fl y"
proof -
  assume xy: "x \<le> y"
  consider "0 < x" | "y < 0" | "x \<le> 0" "0 \<le> y" by linarith
  then show ?thesis
  proof cases
    case 1
    then show ?thesis using xy by (rule fl_mono_pos)
  next
    case 2
    then show ?thesis using xy fl_mono_pos [of "- y" "- x"] by simp
  next
    case 3
    then show ?thesis using fl_nonneg [of y] fl_nonneg [of "- x"] by simp
  qed
qed


subsection \<open>The operations of the source\<close>

definition fadd :: "rat \<Rightarrow> rat \<Rightarrow> rat" where "fadd x y = fl (x + y)"
definition fsub :: "rat \<Rightarrow> rat \<Rightarrow> rat" where "fsub x y = fl (x - y)"
definition fmul :: "rat \<Rightarrow> rat \<Rightarrow> rat" where "fmul x y = fl (x * y)"
definition fdiv :: "rat \<Rightarrow> rat \<Rightarrow> rat" where "fdiv x y = fl (x / y)"

text \<open>Conversion towards zero, as \<^verbatim>\<open>static_cast\<close> from floating point to integer.\<close>

definition trunc :: "rat \<Rightarrow> int" where
  "trunc x = (if 0 \<le> x then \<lfloor>x\<rfloor> else \<lceil>x\<rceil>)"

lemma trunc_bounds: "0 \<le> x \<Longrightarrow> 0 \<le> trunc x" "0 \<le> x \<Longrightarrow> x \<le> of_int n \<Longrightarrow> trunc x \<le> n"
  by (simp_all add: trunc_def floor_le_iff)

lemma trunc_mono: "0 \<le> x \<Longrightarrow> x \<le> y \<Longrightarrow> trunc x \<le> trunc y"
  by (simp add: trunc_def floor_mono)

text \<open>To \<^verbatim>\<open>uint8_t\<close> the conversion is undefined when the truncated value does not fit.\<close>

definition to_uint8 :: "rat \<Rightarrow> u8 res" where
  "to_uint8 x = (if 0 \<le> trunc x \<and> trunc x \<le> 255 then Inr (word_of_int (trunc x))
                 else Inl BadConversion)"

text \<open>\<^verbatim>\<open>std::fmod\<close> is exact: the remainder has the sign of the dividend.\<close>

definition ffmod :: "rat \<Rightarrow> rat \<Rightarrow> rat" where
  "ffmod x y = x - of_int (trunc (x / y)) * y"

subsection \<open>Rounding as an interface\<close>

text \<open>
  The animations rely on three laws of the rounding only: it is monotone, it keeps the
  integers a \<^verbatim>\<open>float\<close> holds exactly, and it is odd. What follows from them is proved
  once here.
\<close>

locale rounding =
  fixes rd :: "rat \<Rightarrow> rat"
  assumes rd_mono: "x \<le> y \<Longrightarrow> rd x \<le> rd y"
    and rd_int: "\<bar>n\<bar> < 2 ^ 24 \<Longrightarrow> rd (of_int n) = of_int n"
    and rd_minus: "rd (- x) = - rd x"
begin

lemma rd_le_int: "x \<le> of_int n \<Longrightarrow> \<bar>n\<bar> < 2 ^ 24 \<Longrightarrow> rd x \<le> of_int n"
  using rd_mono [of x "of_int n"] by (simp add: rd_int)

lemma rd_ge_int: "of_int n \<le> x \<Longrightarrow> \<bar>n\<bar> < 2 ^ 24 \<Longrightarrow> of_int n \<le> rd x"
  using rd_mono [of "of_int n" x] by (simp add: rd_int)

lemma rd_numeral: "(numeral k :: int) < 2 ^ 24 \<Longrightarrow> rd (numeral k) = numeral k"
  using rd_int [of "numeral k"] by simp

lemma rd_0: "rd 0 = 0" and rd_1: "rd 1 = 1"
  using rd_int [of 0] rd_int [of 1] by simp_all

lemma rd_le_numeral: "x \<le> numeral k \<Longrightarrow> (numeral k :: int) < 2 ^ 24 \<Longrightarrow> rd x \<le> numeral k"
  using rd_le_int [of x "numeral k"] by simp

lemma rd_ge_numeral: "numeral k \<le> x \<Longrightarrow> (numeral k :: int) < 2 ^ 24 \<Longrightarrow> numeral k \<le> rd x"
  using rd_ge_int [of "numeral k" x] by simp

lemma rd_nonneg: "0 \<le> x \<Longrightarrow> 0 \<le> rd x"
  using rd_ge_int [of 0 x] by simp

lemma rd_le_1: "x \<le> 1 \<Longrightarrow> rd x \<le> 1"
  using rd_le_int [of x 1] by simp

lemma rd_gt_intD: "of_int n < rd x \<Longrightarrow> \<bar>n\<bar> < 2 ^ 24 \<Longrightarrow> of_int n < x"
  using rd_le_int [of x n] by (meson not_le)

lemma rd_gt_numeralD: "numeral k < rd x \<Longrightarrow> (numeral k :: int) < 2 ^ 24 \<Longrightarrow> numeral k < x"
  using rd_gt_intD [of "numeral k" x] by simp

lemma rd_pos_D: "0 < rd x \<Longrightarrow> 0 < x"
  using rd_gt_intD [of 0 x] by simp

text \<open>A level between 0 and 1 scaled by the number of light steps stays within them.\<close>

lemma rd_scale_bounds:
  assumes "0 \<le> x" "x \<le> 1" "0 \<le> k" "k < 2 ^ 24"
  shows "0 \<le> rd (x * of_int k)" "rd (x * of_int k) \<le> of_int k"
proof -
  have "x * of_int k \<le> 1 * of_int k"
    using assms by (intro mult_right_mono) simp_all
  then show "rd (x * of_int k) \<le> of_int k"
    using assms by (intro rd_le_int) simp_all
  show "0 \<le> rd (x * of_int k)"
    using assms by (intro rd_nonneg) simp
qed

end

interpretation binary32: rounding fl
  by unfold_locales (simp_all add: fl_mono fl_of_int)

lemmas float_ops = fadd_def fsub_def fmul_def fdiv_def

text \<open>\<open>std::clamp\<close> of \<^verbatim>\<open>ArenaStates.cpp\<close>, with \<^verbatim>\<open>std::min\<close> and \<^verbatim>\<open>std::max\<close> on floats.\<close>

definition clamp :: "rat \<Rightarrow> rat \<Rightarrow> rat \<Rightarrow> rat" where
  "clamp x lower upper = min upper (max x lower)"

lemma clamp_unit [simp]: "0 \<le> clamp x 0 1" "clamp x 0 1 \<le> 1"
  by (simp_all add: clamp_def)

text \<open>A level in \<open>[0, 1]\<close> times a number of light steps converts to \<^verbatim>\<open>uint8_t\<close>.\<close>

lemma to_uint8_scaled:
  assumes "0 \<le> x" "x \<le> 1" "0 \<le> k" "k \<le> 255"
  shows "\<exists>v. to_uint8 (fmul x (of_int k)) = Inr v \<and> uint v \<le> k
             \<and> uint v = trunc (fmul x (of_int k))"
proof -
  let ?y = "fmul x (of_int k)" and ?v = "word_of_int (trunc (fmul x (of_int k))) :: u8"
  have y: "0 \<le> ?y" "?y \<le> of_int k"
    using assms binary32.rd_scale_bounds [of x k] by (simp_all add: fmul_def)
  then have t: "0 \<le> trunc ?y" "trunc ?y \<le> k"
    by (simp_all add: trunc_bounds)
  then have "uint ?v = trunc ?y"
    using assms(4) by (simp add: uint_word_of_int)
  with t assms(4) show ?thesis by (simp add: to_uint8_def)
qed

text \<open>Evaluation of closed terms, for the simplifier.\<close>

lemma floor_rat_div_numeral [simp]:
  "\<lfloor>numeral a / numeral b :: rat\<rfloor> = numeral a div numeral b"
  using floor_divide_of_int_eq [of "numeral a" "numeral b", where ?'a = rat] by simp

lemma floor_rat_minus_div_numeral [simp]:
  "\<lfloor>- (numeral a / numeral b) :: rat\<rfloor> = (- numeral a) div numeral b"
  using floor_divide_of_int_eq [of "- numeral a" "numeral b", where ?'a = rat] by simp

lemma floor_rat_one_div_numeral [simp]:
  "\<lfloor>1 / numeral b :: rat\<rfloor> = 1 div numeral b"
  using floor_divide_of_int_eq [of 1 "numeral b", where ?'a = rat] by simp

lemma powi2_eval:
  "(2 :: rat) powi numeral k = 2 ^ numeral k"
  "(2 :: rat) powi (- numeral k) = 1 / 2 ^ numeral k"
  "(2 :: rat) powi 0 = 1" "(2 :: rat) powi 1 = 2" "(2 :: rat) powi (- 1) = 1 / 2"
  by (simp_all add: power_int_def power_one_over)

lemmas float_eval = float_ops fl_def ulp_exp_def rne_def lg.simps trunc_def clamp_def
  powi2_eval Let_def

end
