(* ===== verification/Chrono.thy ===== *)
theory Chrono
  imports Float32 "HOL-Library.Signed_Division"
begin

text \<open>
  \<^verbatim>\<open>std::chrono\<close> as the animations use it. A \<^verbatim>\<open>steady_clock\<close> time point is its 64 bit count
  of nanoseconds, kept as an integer in that range; converting a difference to
  \<^verbatim>\<open>duration<float>\<close> rounds the count to \<^verbatim>\<open>float\<close> and divides by \<^verbatim>\<open>1e9f\<close>. The lemmas say how
  sharply a comparison of such a duration with a constant cuts in nanoseconds.
\<close>

subsection \<open>Time points\<close>

definition time_max :: int where "time_max = 2 ^ 63 - 1"

definition valid_time :: "int \<Rightarrow> bool" where
  "valid_time t \<longleftrightarrow> 0 \<le> t \<and> t < time_max"

lemma time_diff_in_range:
  "valid_time t \<Longrightarrow> 0 \<le> s \<Longrightarrow> s \<le> time_max \<Longrightarrow> - (2 ^ 63) \<le> t - s \<and> t - s < 2 ^ 63"
  by (auto simp: valid_time_def time_max_def)

definition to_secs :: "int \<Rightarrow> rat" where
  "to_secs d = fdiv (fl (of_int d)) (fl 1000000000)"

lemma fl_1e9 [simp]: "fl 1000000000 = 1000000000"
  using fl_repr [of 1000000000 1953125 9] by (simp add: power_int_def)

lemma to_secs_mono: "a \<le> b \<Longrightarrow> to_secs a \<le> to_secs b"
  by (auto simp: to_secs_def fdiv_def intro!: fl_mono divide_right_mono)

text \<open>
  A count that \<^verbatim>\<open>float\<close> holds exactly, \<open>m * 2 ^ e\<close> nanoseconds with \<open>m\<close> of 24 bits, is a sharp
  threshold for a representable value \<open>g\<close>: the duration does not exceed \<open>g\<close> while the count
  is at most \<open>g\<close> seconds, and is at least \<open>g\<close> once the count has reached them.
\<close>

lemma fl_grid: "\<bar>m\<bar> < 2 ^ 24 \<Longrightarrow> fl (of_int (m * 2 ^ e)) = of_int (m * 2 ^ e)"
  by (rule fl_repr [of _ m "int e"]) (simp_all add: power_int_def)

lemma to_secs_le:
  assumes "d \<le> m * 2 ^ e" "\<bar>m\<bar> < 2 ^ 24" "of_int (m * 2 ^ e) \<le> g * 1000000000" "fl g = g"
  shows "to_secs d \<le> g"
proof -
  have "fl (of_int d) \<le> fl (of_int (m * 2 ^ e))"
    using assms(1) by (intro fl_mono) (simp only: of_int_le_iff)
  then have "fl (of_int d) / 1000000000 \<le> g"
    using assms(3) fl_grid [OF assms(2), of e] by (simp add: pos_divide_le_eq)
  then have "fl (fl (of_int d) / 1000000000) \<le> fl g" by (rule fl_mono)
  then show ?thesis by (simp add: to_secs_def fdiv_def assms(4))
qed

lemma to_secs_ge:
  assumes "m * 2 ^ e \<le> d" "\<bar>m\<bar> < 2 ^ 24" "g * 1000000000 \<le> of_int (m * 2 ^ e)" "fl g = g"
  shows "g \<le> to_secs d"
proof -
  have "fl (of_int (m * 2 ^ e)) \<le> fl (of_int d)"
    using assms(1) by (intro fl_mono) (simp only: of_int_le_iff)
  then have "g \<le> fl (of_int d) / 1000000000"
    using assms(3) fl_grid [OF assms(2), of e] by (simp add: pos_le_divide_eq)
  then have "fl g \<le> fl (fl (of_int d) / 1000000000)" by (rule fl_mono)
  then show ?thesis by (simp add: to_secs_def fdiv_def assms(4))
qed

text \<open>
  The thresholds of the arena: a test \<^verbatim>\<open>duration > g\<close> is false up to and including the exact
  time and true from 1024 nanoseconds later on.
\<close>

lemma fl_dyadic: "\<bar>m\<bar> < 2 ^ 24 \<Longrightarrow> e \<le> 149 \<Longrightarrow> fl (of_int m / 2 ^ e) = of_int m / 2 ^ e"
  by (rule fl_repr [of _ m "- int e"]) (simp_all add: power_int_minus field_simps)

lemma to_secs_cut:
  assumes "\<bar>m\<bar> < 2 ^ 24" "\<bar>m'\<bar> < 2 ^ 24" "m' * 2 ^ e = m * 2 ^ e + 1024"
    and "of_int (m * 2 ^ e) = of_int k / 2 ^ 20 * (1000000000 :: rat)" "\<bar>k\<bar> < 2 ^ 24 - 1"
  shows "of_int k / 2 ^ 20 < to_secs d \<Longrightarrow> m * 2 ^ e < d"
    and "m * 2 ^ e + 1024 \<le> d \<Longrightarrow> of_int k / 2 ^ 20 < to_secs d"
proof -
  have g: "fl (of_int k / 2 ^ 20) = of_int k / 2 ^ 20"
    using assms(5) by (intro fl_dyadic) simp_all
  show "of_int k / 2 ^ 20 < to_secs d \<Longrightarrow> m * 2 ^ e < d"
    using to_secs_le [OF _ assms(1) _ g, of d e] assms(4) by fastforce
  have "\<bar>k + 1\<bar> < 2 ^ 24" using assms(5) by simp
  then have g': "fl (of_int (k + 1) / 2 ^ 20) = of_int (k + 1) / 2 ^ 20"
    by (rule fl_dyadic) simp
  have "of_int (k + 1) / 2 ^ 20 * 1000000000 \<le> (of_int (m * 2 ^ e) + 1024 :: rat)"
    unfolding assms(4) by simp
  also have "\<dots> = of_int (m' * 2 ^ e)"
    unfolding assms(3) by simp
  finally have le: "of_int (k + 1) / 2 ^ 20 * 1000000000 \<le> (of_int (m' * 2 ^ e) :: rat)" .
  assume "m * 2 ^ e + 1024 \<le> d"
  then have "of_int (k + 1) / 2 ^ 20 \<le> to_secs d"
    using assms(3) by (intro to_secs_ge [OF _ assms(2) le g']) simp
  then show "of_int k / 2 ^ 20 < to_secs d" by (simp add: field_simps)
qed

lemma to_secs_7: "7 < to_secs d \<Longrightarrow> 7000000000 < d" "7000001024 \<le> d \<Longrightarrow> 7 < to_secs d"
  using to_secs_cut [of 13671875 13671877 9 7340032 d] by simp_all

lemma to_secs_7_2: "7 / 2 < to_secs d \<Longrightarrow> 3500000000 < d" "3500001024 \<le> d \<Longrightarrow> 7 / 2 < to_secs d"
  using to_secs_cut [of 13671875 13671879 8 3670016 d] by simp_all

lemma to_secs_3: "3 < to_secs d \<Longrightarrow> 3000000000 < d" "3000001024 \<le> d \<Longrightarrow> 3 < to_secs d"
  using to_secs_cut [of 11718750 11718754 8 3145728 d] by simp_all

lemma to_secs_3_2: "3 / 2 < to_secs d \<Longrightarrow> 1500000000 < d" "1500001024 \<le> d \<Longrightarrow> 3 / 2 < to_secs d"
  using to_secs_cut [of 5859375 5859379 8 1572864 d] by simp_all

lemma to_secs_2: "2 < to_secs d \<Longrightarrow> 2000000000 < d" "2000001024 \<le> d \<Longrightarrow> 2 < to_secs d"
  using to_secs_cut [of 7812500 7812504 8 2097152 d] by simp_all

lemma to_secs_1: "1 < to_secs d \<Longrightarrow> 1000000000 < d" "1000001024 \<le> d \<Longrightarrow> 1 < to_secs d"
  using to_secs_cut [of 3906250 3906254 8 1048576 d] by simp_all

lemma to_secs_0 [simp]: "to_secs 0 = 0"
  by (simp add: to_secs_def fdiv_def)

lemma to_secs_nonneg: "0 \<le> d \<Longrightarrow> 0 \<le> to_secs d"
  using to_secs_mono [of 0 d] by simp

text \<open>
  How far the conversion can be off: for differences below \<open>2 ^ 37\<close> nanoseconds, which is more
  than a match of two minutes, the two roundings cost less than 12 microseconds.
\<close>

lemma fl_near:
  assumes "\<bar>x\<bar> < 2 powi e" "- 125 \<le> e"
  shows "\<bar>fl x - x\<bar> \<le> 2 powi (e - 25)"
proof (cases "x = 0")
  case True
  then show ?thesis by simp
next
  case False
  have "lg \<bar>x\<bar> \<le> e - 1" using lg_le_iff [of "\<bar>x\<bar>" "e - 1"] assms(1) False by simp
  then have "ulp_exp x \<le> e - 24" using assms(2) by (simp add: ulp_exp_def)
  then have "2 powi ulp_exp x \<le> (2 :: rat) powi (e - 24)" by simp
  moreover have "(2 :: rat) powi (e - 24) / 2 = 2 powi (e - 25)"
    by (simp add: power_int_diff)
  ultimately show ?thesis using fl_err [of x] by linarith
qed

lemma to_secs_near:
  assumes "0 \<le> d" "d < 2 ^ 37"
  shows "\<bar>to_secs d * 1000000000 - of_int d\<bar> \<le> 12000"
proof -
  have lt: "of_int d < (of_int (2 ^ 37) :: rat)" using assms(2) by (simp only: of_int_less_iff)
  have nn: "0 \<le> (of_int d :: rat)" using assms(1) by simp
  have d: "\<bar>of_int d :: rat\<bar> < 2 powi 37"
    using lt nn by (simp add: power_int_def)
  let ?a = "fl (of_int d)" let ?b = "to_secs d"
  have a: "\<bar>?a - of_int d\<bar> \<le> 4096"
    using fl_near [OF d] by (simp add: power_int_def)
  have "of_int d < (137438953472 :: rat)" using lt by simp
  then have "\<bar>?a / 1000000000\<bar> < 2 powi 8"
    using a nn by (simp add: power_int_def abs_le_iff abs_less_iff field_simps)
  from fl_near [OF this] have "\<bar>?b - ?a / 1000000000\<bar> \<le> 1 / 131072"
    by (simp add: to_secs_def fdiv_def powi2_eval power_int_minus)
  then have "\<bar>?b * 1000000000 - ?a\<bar> \<le> 7630"
    by (simp add: field_simps)
  with a show ?thesis by (simp add: abs_le_iff)
qed

end
