(* ===== verification/Color.thy ===== *)
theory Color
  imports Prelude
begin

text \<open>
  \<^verbatim>\<open>ColorTriplet.h\<close>: an RGB colour and the integer conversion from hue, saturation and
  value. The operands are \<^verbatim>\<open>uint8_t\<close> promoted to \<^verbatim>\<open>int\<close>, so the products are computed
  without wrap-around and the casts back to \<^verbatim>\<open>unsigned char\<close> truncate.
\<close>

record ColorTriplet =
  ct_r :: u8
  ct_g :: u8
  ct_b :: u8

definition rgb :: "u8 \<Rightarrow> u8 \<Rightarrow> u8 \<Rightarrow> ColorTriplet" where
  "rgb x y z = \<lparr>ct_r = x, ct_g = y, ct_b = z\<rparr>"

lemma rgb_sel [simp]: "ct_r (rgb x y z) = x" "ct_g (rgb x y z) = y" "ct_b (rgb x y z) = z"
  by (simp_all add: rgb_def)

text \<open>The cast \<^verbatim>\<open>(uint8_t)\<close> of a non-negative \<^verbatim>\<open>int\<close>.\<close>

definition cast_u8 :: "nat \<Rightarrow> u8" where
  "cast_u8 n = word_of_nat n"

text \<open>The \<^verbatim>\<open>switch (region)\<close>.\<close>

definition hsv_switch :: "u8 \<Rightarrow> u8 \<Rightarrow> u8 \<Rightarrow> u8 \<Rightarrow> u8 \<Rightarrow> ColorTriplet" where
  "hsv_switch region v p q t =
     (if region = 0 then rgb v t p
      else if region = 1 then rgb q v p
      else if region = 2 then rgb p v t
      else if region = 3 then rgb p q v
      else if region = 4 then rgb t p v
      else rgb v p q)"

definition FromHsv :: "u8 \<Rightarrow> u8 \<Rightarrow> u8 \<Rightarrow> ColorTriplet" where
  "FromHsv h s v =
     (if s = 0 then rgb v v v
      else
        let region = cast_u8 (unat h div 43);
            remainder = cast_u8 ((unat h - unat region * 43) * 6);
            p = cast_u8 (unat v * (255 - unat s) div 2 ^ 8);
            q = cast_u8 (unat v * (255 - (unat s * unat remainder) div 2 ^ 8) div 2 ^ 8);
            t = cast_u8 (unat v * (255 - (unat s * (255 - unat remainder)) div 2 ^ 8) div 2 ^ 8)
        in hsv_switch region v p q t)"

text \<open>The largest and the smallest channel.\<close>

definition channel_max :: "ColorTriplet \<Rightarrow> nat" where
  "channel_max c = max (unat (ct_r c)) (max (unat (ct_g c)) (unat (ct_b c)))"

definition channel_min :: "ColorTriplet \<Rightarrow> nat" where
  "channel_min c = min (unat (ct_r c)) (min (unat (ct_g c)) (unat (ct_b c)))"

subsection \<open>Arithmetic of the conversion\<close>

lemma cast_u8_small: "n < 256 \<Longrightarrow> unat (cast_u8 n) = n"
  by (simp add: cast_u8_def unat_of_nat take_bit_nat_eq_self_iff)

lemma region_le_5: "unat (cast_u8 (unat (h :: u8) div 43)) = unat h div 43" "unat h div 43 \<le> 5"
proof -
  have "unat h div 43 \<le> 255 div 43" by (rule div_le_mono) simp
  then show "unat h div 43 \<le> 5" by simp
  then show "unat (cast_u8 (unat h div 43)) = unat h div 43" by (simp add: cast_u8_small)
qed

lemma remainder_no_wrap:
  "unat (cast_u8 ((unat (h :: u8) - unat h div 43 * 43) * 6)) = (unat h mod 43) * 6"
  "unat h mod 43 * 6 \<le> 252"
proof -
  have "unat h mod 43 < 43" by simp
  then show le: "unat h mod 43 * 6 \<le> 252" by linarith
  have "unat h - unat h div 43 * 43 = unat h mod 43"
    by (simp add: minus_div_mult_eq_mod)
  with le show "unat (cast_u8 ((unat h - unat h div 43 * 43) * 6)) = unat h mod 43 * 6"
    by (simp add: cast_u8_small)
qed

text \<open>A channel scaled down by \<open>a / 256\<close> with \<open>a \<le> 255\<close> does not exceed the value.\<close>

lemma scaled_le: "a \<le> 255 \<Longrightarrow> v * a div 2 ^ 8 \<le> (v :: nat)"
proof -
  assume "a \<le> 255"
  then have "v * a \<le> v * 256" by simp
  then have "v * a div 256 \<le> v * 256 div 256" by (rule div_le_mono)
  then show ?thesis by simp
qed

lemma unat_scaled:
  "a \<le> 255 \<Longrightarrow> unat (cast_u8 (unat (v :: u8) * a div 2 ^ 8)) = unat v * a div 2 ^ 8"
  using scaled_le [of a "unat v"] unat_u8_less [of v] by (intro cast_u8_small) linarith

lemma saturation_share_le: "x \<le> 255 \<Longrightarrow> s * x div 2 ^ 8 \<le> (s :: nat)"
  by (rule scaled_le)

lemma scaled_mono: "a \<le> c \<Longrightarrow> (v :: nat) * a div 2 ^ 8 \<le> v * c div 2 ^ 8"
  by (intro div_le_mono mult_le_mono2)

text \<open>Every region assigns \<open>v\<close>, \<open>p\<close> and one channel between them.\<close>

lemma FromHsv_channels:
  assumes "s \<noteq> 0"
  obtains m p where "unat p = unat v * (255 - unat s) div 2 ^ 8"
    and "p \<le> m" and "m \<le> v"
    and "{ct_r (FromHsv h s v), ct_g (FromHsv h s v), ct_b (FromHsv h s v)} = {v, m, p}"
proof -
  define rm where "rm = unat h mod 43 * 6"
  define p where "p = cast_u8 (unat v * (255 - unat s) div 2 ^ 8)"
  define q where "q = cast_u8 (unat v * (255 - (unat s * rm) div 2 ^ 8) div 2 ^ 8)"
  define t where "t = cast_u8 (unat v * (255 - (unat s * (255 - rm)) div 2 ^ 8) div 2 ^ 8)"
  have rm: "rm \<le> 255" using remainder_no_wrap(2) [of h] by (simp add: rm_def)
  have p: "unat p = unat v * (255 - unat s) div 2 ^ 8"
    unfolding p_def by (rule unat_scaled) simp
  have q: "unat q = unat v * (255 - (unat s * rm) div 2 ^ 8) div 2 ^ 8"
    unfolding q_def by (rule unat_scaled) simp
  have t: "unat t = unat v * (255 - (unat s * (255 - rm)) div 2 ^ 8) div 2 ^ 8"
    unfolding t_def by (rule unat_scaled) simp
  have "p \<le> q" "p \<le> t"
    unfolding word_le_nat_alt p q t
    using rm by (intro scaled_mono diff_le_mono2 saturation_share_le; simp)+
  moreover have "q \<le> v" "t \<le> v"
    unfolding word_le_nat_alt q t by (intro scaled_le; simp)+
  moreover have "FromHsv h s v = hsv_switch (cast_u8 (unat h div 43)) v p q t"
    using assms by (simp only: FromHsv_def Let_def region_le_5 remainder_no_wrap
        p_def q_def t_def rm_def if_False)
  then have "\<exists>m \<in> {q, t}. {ct_r (FromHsv h s v), ct_g (FromHsv h s v), ct_b (FromHsv h s v)} = {v, m, p}"
    by (auto simp: hsv_switch_def)
  ultimately show ?thesis using p that by blast
qed

lemma channel_max_Max: "channel_max c = Max (unat ` {ct_r c, ct_g c, ct_b c})"
  by (simp add: channel_max_def)

lemma channel_min_Min: "channel_min c = Min (unat ` {ct_r c, ct_g c, ct_b c})"
  by (simp add: channel_min_def)

lemma FromHsv_extremes:
  assumes "s \<noteq> 0"
  shows "channel_max (FromHsv h s v) = unat v"
    and "channel_min (FromHsv h s v) = unat v * (255 - unat s) div 2 ^ 8"
proof -
  obtain m p where p: "unat p = unat v * (255 - unat s) div 2 ^ 8"
    and le: "p \<le> m" "m \<le> v"
    and ch: "{ct_r (FromHsv h s v), ct_g (FromHsv h s v), ct_b (FromHsv h s v)} = {v, m, p}"
    using FromHsv_channels [OF assms] by metis
  from le have "unat p \<le> unat m" "unat m \<le> unat v" by (simp_all add: word_le_nat_alt)
  then have "channel_max (FromHsv h s v) = unat v" "channel_min (FromHsv h s v) = unat p"
    by (auto simp: channel_max_Max channel_min_Min ch max_def min_def)
  with p show "channel_max (FromHsv h s v) = unat v"
    and "channel_min (FromHsv h s v) = unat v * (255 - unat s) div 2 ^ 8"
    by simp_all
qed

text \<open>
  The colour conversion keeps the value as its brightest channel for every hue and
  saturation, and its darkest channel is the value scaled by the unsaturated share, so the
  result is grey exactly by the share \<^verbatim>\<open>255 - s\<close> and never brighter than asked for.
\<close>

theorem FromHsv_value_and_saturation:
  "channel_max (FromHsv h s v) = unat v
   \<and> channel_min (FromHsv h s v) =
       (if s = 0 then unat v else unat v * (255 - unat s) div 2 ^ 8)"
proof (cases "s = 0")
  case True
  then show ?thesis by (simp add: FromHsv_def channel_max_def channel_min_def)
qed (simp add: FromHsv_extremes)

end
