(* ===== verification/SegmentFont.thy ===== *)
theory SegmentFont
  imports Prelude
begin

text \<open>
  The seven segment font of \<^verbatim>\<open>SegmentLedState.cpp\<close>: the display state handed from the
  arena to the displays (\<^verbatim>\<open>SegmentLedState.h\<close>), the table \<^verbatim>\<open>characterArray\<close> and its
  bounds-checked lookup. A \<^verbatim>\<open>char\<close> is its byte. The lemmas show what a reader of the
  display relies on: codes outside the table are blank, no glyph drives the decimal point,
  the ten digits have ten different glyphs, and both cases of a letter the source marks
  \<^verbatim>\<open>SAME AS CAP\<close> look alike.
\<close>

subsection \<open>Display state\<close>

record SegmentLedState =
  segments :: "u8 list"
  dots :: u8

definition mk_segments :: "u8 list \<Rightarrow> u8 \<Rightarrow> SegmentLedState" where
  "mk_segments cs d = \<lparr>segments = cs, dots = d\<rparr>"

definition segments_wf :: "SegmentLedState \<Rightarrow> bool" where
  "segments_wf s \<longleftrightarrow> length (segments s) = 4"

subsection \<open>The font table\<close>

text \<open>One byte per character code; bits 6 to 0 are the segments A to G.\<close>

definition characterArray :: "u8 list" where
  "characterArray = [
    0b1111110, 0b0110000, 0b1101101, 0b1111001, 0b0110011, 0b1011011, 0b1011111, 0b1110000,
    0b1111111, 0b1111011, 0b1110111, 0b0011111, 0b1001110, 0b0111101, 0b1001111, 0b1000111,
    0b0000000, 0b0000000, 0b0000000, 0b0000000, 0b0000000, 0b0000000, 0b0000000, 0b0000000,
    0b0000000, 0b0000000, 0b0000000, 0b0000000, 0b0000000, 0b0000000, 0b0000000, 0b0000000,
    0b0000000, 0b0000000, 0b0100010, 0b0000000, 0b0000000, 0b0000000, 0b0000000, 0b0100000,
    0b1001110, 0b1111000, 0b0000000, 0b0000000, 0b0000100, 0b0000001, 0b0000000, 0b0000000,
    0b1111110, 0b0110000, 0b1101101, 0b1111001, 0b0110011, 0b1011011, 0b1011111, 0b1110000,
    0b1111111, 0b1111011, 0b0000000, 0b0000000, 0b0000000, 0b0000000, 0b0000000, 0b0000000,
    0b0000000, 0b1110111, 0b0011111, 0b1001110, 0b0111101, 0b1001111, 0b1000111, 0b1011110,
    0b0110111, 0b0110000, 0b0111000, 0b0000000, 0b0001110, 0b0000000, 0b0010101, 0b1111110,
    0b1100111, 0b1110011, 0b0000101, 0b1011011, 0b0001111, 0b0111110, 0b0000000, 0b0000000,
    0b0000000, 0b0111011, 0b0000000, 0b1001110, 0b0000000, 0b1111000, 0b0000000, 0b0001000,
    0b0000010, 0b1110111, 0b0011111, 0b0001101, 0b0111101, 0b1101111, 0b1000111, 0b1011110,
    0b0010111, 0b0010000, 0b0111000, 0b0000000, 0b0110000, 0b0000000, 0b0010101, 0b0011101,
    0b1100111, 0b1110011, 0b0000101, 0b1011011, 0b0001111, 0b0011100, 0b0000000, 0b0000000,
    0b0000000, 0b0000000, 0b0000000, 0b0000000, 0b0000000, 0b0000000, 0b0000000, 0b0000000]"

definition GetSegmentDigits :: "u8 \<Rightarrow> u8" where
  "GetSegmentDigits digit = (if digit < 128 then characterArray ! unat digit else 0)"

lemma characterArray_length [simp]: "length characterArray = 128"
  by (simp add: characterArray_def)

lemma GetSegmentDigits_nth: "k < 128 \<Longrightarrow> GetSegmentDigits (word_of_nat k) = characterArray ! k"
  by (simp add: GetSegmentDigits_def unat_of_nat word_less_nat_alt take_bit_nat_eq_self_iff)

text \<open>Every entry leaves bit 7, the decimal point, clear.\<close>

lemma characterArray_lt: "\<forall>w \<in> set characterArray. w < 128"
  by (simp add: characterArray_def)

lemma GetSegmentDigits_lt: "GetSegmentDigits c < 128"
proof (cases "c < 128")
  case True
  then have "unat c < length characterArray"
    by (simp add: word_less_nat_alt)
  then have "characterArray ! unat c \<in> set characterArray" by (rule nth_mem)
  then show ?thesis using characterArray_lt True by (simp add: GetSegmentDigits_def)
qed (simp add: GetSegmentDigits_def)

lemma u8_bit7: "bit (w :: u8) 7 \<longleftrightarrow> 128 \<le> w"
proof -
  have "bit w 7 \<longleftrightarrow> bit (unat w) 7"
    by (simp add: bit_unsigned_iff)
  then have "bit w 7 \<longleftrightarrow> odd (unat w div 128)"
    by (simp add: bit_iff_odd)
  moreover have "unat w div 128 = (if 128 \<le> unat w then 1 else 0)"
    using unat_u8_less [of w] by (simp add: div_eq_0_iff div_nat_eqI)
  ultimately show ?thesis by (simp add: word_le_nat_alt split: if_splits)
qed

lemma GetSegmentDigits_no_dp: "\<not> bit (GetSegmentDigits c) 7"
  using GetSegmentDigits_lt [of c] by (simp add: u8_bit7 not_le)

subsection \<open>What a reader of the display relies on\<close>

text \<open>
  The ASCII codes of the digits and their small integer codes 0 to 9 show the same glyphs,
  so \<open>digit_of_glyph\<close> reads either back.
\<close>

definition digit_of_glyph :: "u8 \<Rightarrow> nat option" where
  "digit_of_glyph g = List.find (\<lambda>d. GetSegmentDigits (word_of_nat d) = g) [0..<10]"

text \<open>The letters whose lower case entry the source marks \<^verbatim>\<open>SAME AS CAP\<close>.\<close>

definition same_as_cap :: "u8 list" where
  "same_as_cap = [97, 98, 100, 102, 103, 106, 110, 112, 113, 114, 115, 116]"

lemma digit_glyphs:
  "GetSegmentDigits 48 = 0b1111110" "GetSegmentDigits 49 = 0b0110000"
  "GetSegmentDigits 50 = 0b1101101" "GetSegmentDigits 51 = 0b1111001"
  "GetSegmentDigits 52 = 0b0110011" "GetSegmentDigits 53 = 0b1011011"
  "GetSegmentDigits 54 = 0b1011111" "GetSegmentDigits 55 = 0b1110000"
  "GetSegmentDigits 56 = 0b1111111" "GetSegmentDigits 57 = 0b1111011"
  "GetSegmentDigits 0 = 0b1111110" "GetSegmentDigits 1 = 0b0110000"
  "GetSegmentDigits 2 = 0b1101101" "GetSegmentDigits 3 = 0b1111001"
  "GetSegmentDigits 4 = 0b0110011" "GetSegmentDigits 5 = 0b1011011"
  "GetSegmentDigits 6 = 0b1011111" "GetSegmentDigits 7 = 0b1110000"
  "GetSegmentDigits 8 = 0b1111111" "GetSegmentDigits 9 = 0b1111011"
  by (simp_all add: GetSegmentDigits_def characterArray_def)

lemma less_10_cases:
  "d < (10 :: nat) \<Longrightarrow> d \<in> {0, 1, 2, 3, 4, 5, 6, 7, 8, 9}"
  by auto

lemma digit_glyph_read:
  assumes "d < 10"
  shows "digit_of_glyph (GetSegmentDigits (48 + word_of_nat d)) = Some d"
  using less_10_cases [OF assms]
  by (auto simp: digit_of_glyph_def upt_rec digit_glyphs)

end
