(* ===== verification/Animation.thy ===== *)
theory Animation
  imports Chrono Color SegmentFont
begin

text \<open>
  What the animations of \<^verbatim>\<open>ArenaStates.cpp\<close> share: the shape of the LED field and the state
  of the world (\<^verbatim>\<open>ArenaStates.h\<close>), \<^verbatim>\<open>tween\<close>, and the conversion of brightness levels to
  light steps. The last is where an out-of-range \<^verbatim>\<open>float\<close> would be undefined behaviour; the
  lemmas bound it once for all animations.
\<close>

subsection \<open>Constants and the world\<close>

definition MaxLightCounts :: int where "MaxLightCounts = 120"
definition MidLightCounts :: int where "MidLightCounts = 60"
definition NumVertical :: nat where "NumVertical = 48"
definition NumHorizontal :: nat where "NumHorizontal = 8"
definition N :: nat where "N = NumVertical * NumHorizontal"

lemmas field_shape = NumVertical_def NumHorizontal_def N_def

lemma N_eq: "N = 384"
  by (simp add: field_shape)

record WorldState =
  redButton :: bool
  blueButton :: bool
  refButton :: bool
  resetButton :: bool
  timeRemaining :: rat

type_synonym colors = "ColorTriplet list"
type_synonym button_leds = "bool \<times> bool"

subsection \<open>Levels\<close>

text \<open>\<^verbatim>\<open>float tween(float t, float start, float end)\<close>\<close>

definition tween :: "rat \<Rightarrow> rat \<Rightarrow> rat \<Rightarrow> rat" where
  "tween t start end = clamp (fdiv (fsub t start) (fsub end start)) 0 1"

definition in_unit :: "rat \<Rightarrow> bool" where
  "in_unit x \<longleftrightarrow> 0 \<le> x \<and> x \<le> 1"

lemma in_unit_clamp [simp]: "in_unit (clamp x 0 1)"
  by (simp add: in_unit_def)

lemma in_unit_tween [simp]: "in_unit (tween t a b)"
  by (simp add: tween_def)

lemma in_unit_complement [simp]: "in_unit x \<Longrightarrow> in_unit (fsub 1 x)"
  by (auto simp: in_unit_def fsub_def intro: binary32.rd_nonneg binary32.rd_le_1)

lemma in_unit_fmul: "in_unit x \<Longrightarrow> in_unit y \<Longrightarrow> in_unit (fmul x y)"
  by (auto simp: in_unit_def fmul_def intro: binary32.rd_nonneg binary32.rd_le_1 mult_le_one)

lemma in_unit_fl: "in_unit x \<Longrightarrow> in_unit (fl x)"
  by (auto simp: in_unit_def intro: binary32.rd_nonneg binary32.rd_le_1)

lemma in_unit_min [simp]: "in_unit x \<Longrightarrow> in_unit y \<Longrightarrow> in_unit (min x y)"
  by (simp add: in_unit_def min_def)

lemma in_unit_max [simp]: "in_unit x \<Longrightarrow> in_unit y \<Longrightarrow> in_unit (max x y)"
  by (simp add: in_unit_def max_def)

lemma in_unit_01 [simp]: "in_unit 0" "in_unit 1"
  by (simp_all add: in_unit_def)

text \<open>
  \<^verbatim>\<open>static_cast<uint8_t>(level * MaxLightCounts)\<close>, the \<^verbatim>\<open>int\<close> constant converted to
  \<^verbatim>\<open>float\<close>.
\<close>

definition light :: "rat \<Rightarrow> int \<Rightarrow> u8 res" where
  "light level counts = to_uint8 (fmul level (fl (of_int counts)))"

lemma light_ok:
  assumes "in_unit x" "0 \<le> k" "k \<le> 255"
  obtains v where "light x k = Inr v" "uint v \<le> k" "uint v = trunc (fmul x (of_int k))"
  using to_uint8_scaled [of x k] assms by (auto simp: light_def in_unit_def fl_of_int)

lemma light_mono:
  assumes "in_unit x" "in_unit y" "x \<le> y" "0 \<le> k" "k \<le> 255" "light x k = Inr v" "light y k = Inr w"
  shows "v \<le> w"
proof -
  have "uint v = trunc (fmul x (of_int k))" "uint w = trunc (fmul y (of_int k))"
    using assms light_ok [of x k] light_ok [of y k] by (metis sum.inject(2))+
  moreover have "fmul x (of_int k) \<le> fmul y (of_int k)"
    using assms by (auto simp: fmul_def in_unit_def intro!: fl_mono mult_right_mono)
  moreover have "0 \<le> fmul x (of_int k)"
    using assms by (auto simp: fmul_def in_unit_def intro!: fl_nonneg)
  ultimately show ?thesis by (simp add: word_le_def trunc_mono)
qed

lemma light_0 [simp]: "0 \<le> k \<Longrightarrow> light 0 k = Inr 0"
  by (simp add: light_def fmul_def to_uint8_def trunc_def)

lemma light_1 [simp]: "light 1 MaxLightCounts = Inr 120"
  using fl_of_int [of 120] by (simp add: light_def fmul_def to_uint8_def trunc_def MaxLightCounts_def)

text \<open>The power budget of a frame: no channel above the given number of light steps.\<close>

definition frame_within :: "int \<Rightarrow> colors \<Rightarrow> bool" where
  "frame_within k cs \<longleftrightarrow> length cs = N
     \<and> (\<forall>c \<in> set cs. uint (ct_r c) \<le> k \<and> uint (ct_g c) \<le> k \<and> uint (ct_b c) \<le> k)"

text \<open>A frame computed pixel by pixel from levels.\<close>

lemma frame_from_levels:
  assumes "\<And>i. i < N \<Longrightarrow> in_unit (lv i)" "0 \<le> k" "k \<le> 255"
    and "\<And>v c. uint v \<le> k \<Longrightarrow> c = mk v \<Longrightarrow>
           uint (ct_r c) \<le> k \<and> uint (ct_g c) \<le> k \<and> uint (ct_b c) \<le> k"
  shows "\<exists>cs. map_res (\<lambda>i. bind_res (light (lv i) k) (\<lambda>v. Inr (mk v))) [0..<N] = Inr cs
           \<and> frame_within k cs
           \<and> (\<forall>i < N. \<exists>v. light (lv i) k = Inr v \<and> cs ! i = mk v)"
proof -
  have "\<exists>v. light (lv i) k = Inr v \<and> uint v \<le> k" if "i < N" for i
    using light_ok [OF assms(1) [OF that] assms(2,3)] by metis
  then obtain f where f: "\<And>i. i < N \<Longrightarrow> light (lv i) k = Inr (f i) \<and> uint (f i) \<le> k"
    by metis
  then have "map_res (\<lambda>i. bind_res (light (lv i) k) (\<lambda>v. Inr (mk v))) [0..<N]
      = Inr (map (\<lambda>i. mk (f i)) [0..<N])"
    by (intro map_res_Inr) simp
  moreover have "frame_within k (map (\<lambda>i. mk (f i)) [0..<N])"
    using f assms(4) by (auto simp: frame_within_def)
  ultimately show ?thesis using f by auto
qed

subsection \<open>Conversions to int and char\<close>

text \<open>\<^verbatim>\<open>static_cast<int>\<close> of a \<^verbatim>\<open>float\<close> is undefined when the value does not fit.\<close>

definition to_int32 :: "rat \<Rightarrow> int res" where
  "to_int32 x = (if - (2 ^ 31) \<le> trunc x \<and> trunc x < 2 ^ 31 then Inr (trunc x)
                 else Inl BadConversion)"

text \<open>\<^verbatim>\<open>static_cast<char>\<close> of an \<^verbatim>\<open>int\<close>: 8 bits, two's complement.\<close>

definition to_char :: "int \<Rightarrow> int" where
  "to_char n = (n + 128) mod 256 - 128"

lemma to_char_small: "- 128 \<le> n \<Longrightarrow> n < 128 \<Longrightarrow> to_char n = n"
  by (simp add: to_char_def)

text \<open>
  The minutes and seconds the match displays show, \<^verbatim>\<open>'0' + ...\<close> narrowed to \<^verbatim>\<open>char\<close>; the
  division and remainder truncate towards zero.
\<close>

definition clock_digits :: "int \<Rightarrow> SegmentLedState" where
  "clock_digits remTime = mk_segments
     [word_of_int (48 + to_char (remTime sdiv 60)),
      word_of_int (48 + to_char (remTime smod 60) sdiv 10),
      word_of_int (48 + to_char (remTime smod 10)),
      32] 1"

text \<open>What the three digits say, read back through the font.\<close>

definition read_clock :: "SegmentLedState \<Rightarrow> int option" where
  "read_clock s =
     (case (digit_of_glyph (GetSegmentDigits (segments s ! 0)),
            digit_of_glyph (GetSegmentDigits (segments s ! 1)),
            digit_of_glyph (GetSegmentDigits (segments s ! 2))) of
        (Some m, Some t, Some u) \<Rightarrow> Some (60 * int m + 10 * int t + int u)
      | _ \<Rightarrow> None)"

lemma clock_digits_eq:
  assumes "0 \<le> t" "t < 600"
  shows "clock_digits t = mk_segments (map (\<lambda>k. 48 + word_of_nat k)
      [nat (t div 60), nat (t mod 60 div 10), nat (t mod 10)] @ [32]) 1"
    and "nat (t div 60) < 10" "nat (t mod 60 div 10) < 10" "nat (t mod 10) < 10"
proof -
  have m: "t sdiv 60 = t div 60" "t smod 60 = t mod 60" "t smod 10 = t mod 10"
    "(t mod 60) sdiv 10 = (t mod 60) div 10"
    using assms by (simp_all add: signed_divide_int_def signed_modulo_int_def minus_div_mult_eq_mod sgn_if)
  show "nat (t div 60) < 10" "nat (t mod 60 div 10) < 10" "nat (t mod 10) < 10"
    using assms by (auto simp: nat_less_iff)
  have d: "word_of_int (48 + int k) = (48 + word_of_nat k :: u8)" for k by simp
  have c: "to_char (t div 60) = int (nat (t div 60))" "to_char (t mod 60) = t mod 60"
    "to_char (t mod 10) = int (nat (t mod 10))" "t mod 60 div 10 = int (nat (t mod 60 div 10))"
  proof -
    have b: "0 \<le> t div 60" "t div 60 < 10" "0 \<le> t mod 60" "t mod 60 < 60" "0 \<le> t mod 10" "t mod 10 < 10"
      "0 \<le> t mod 60 div 10"
      using assms by (simp_all add: pos_imp_zdiv_nonneg_iff)
    have g: "to_char x = int (nat x)" if "0 \<le> x" "x < 60" for x
      using that by (simp add: to_char_small)
    have ten: "t div 60 < 60" "t mod 10 < 60" by (rule less_trans [OF b(2)], simp, rule less_trans [OF b(6)], simp)
    show "to_char (t div 60) = int (nat (t div 60))" "to_char (t mod 60) = t mod 60"
      "to_char (t mod 10) = int (nat (t mod 10))" "t mod 60 div 10 = int (nat (t mod 60 div 10))"
      using g [OF b(1) ten(1)] g [OF b(5) ten(2)] g [OF b(3,4)] nat_0_le [OF b(3)] nat_0_le [OF b(7)]
      by (auto intro: trans)
  qed
  have "word_of_int (48 + to_char (t sdiv 60)) = (48 + word_of_nat (nat (t div 60)) :: u8)"
    by (simp only: m c(1) d)
  moreover have "word_of_int (48 + to_char (t smod 60) sdiv 10)
      = (48 + word_of_nat (nat (t mod 60 div 10)) :: u8)"
    unfolding m(2) c(2) m(4) using c(4) d by metis
  moreover have "word_of_int (48 + to_char (t smod 10)) = (48 + word_of_nat (nat (t mod 10)) :: u8)"
    by (simp only: m c(3) d)
  ultimately show "clock_digits t = mk_segments (map (\<lambda>k. 48 + word_of_nat k)
      [nat (t div 60), nat (t mod 60 div 10), nat (t mod 10)] @ [32]) 1"
    by (simp only: clock_digits_def list.map append.simps)
qed

lemma clock_digits_read:
  assumes "0 \<le> t" "t < 600"
  shows "read_clock (clock_digits t) = Some t"
proof -
  have "60 * int (nat (t div 60)) + 10 * int (nat (t mod 60 div 10)) + int (nat (t mod 10)) = t"
  proof -
    have "0 \<le> t div 60" "0 \<le> t mod 60 div 10"
      using assms by (simp_all add: pos_imp_zdiv_nonneg_iff)
    moreover have "60 * (t div 60) + 10 * (t mod 60 div 10) + t mod 10 = t"
    proof -
      have "t mod 60 mod 10 = t mod 10" by (rule mod_mod_cancel) simp
      then show ?thesis
        using mult_div_mod_eq [of 60 t] mult_div_mod_eq [of 10 "t mod 60"] by linarith
    qed
    ultimately show ?thesis by simp
  qed
  then show ?thesis
    using digit_glyph_read [OF clock_digits_eq(2) [OF assms]] digit_glyph_read [OF clock_digits_eq(3) [OF assms]]
      digit_glyph_read [OF clock_digits_eq(4) [OF assms]]
    by (simp only: clock_digits_eq(1) [OF assms] read_clock_def mk_segments_def SegmentLedState.simps list.map
        append.simps nth_Cons_0 nth_Cons_Suc One_nat_def numeral_2_eq_2 prod.case option.case)
qed

end
