(* ===== verification/Staging.thy ===== *)
theory Staging
  imports Animation
begin

text \<open>
  The animations around a match: \<^verbatim>\<open>PreStagingAnim\<close>, \<^verbatim>\<open>StagingAnim\<close> and \<^verbatim>\<open>End\<close> of
  \<^verbatim>\<open>ArenaStates.cpp\<close>, without their \<^verbatim>\<open>Tick\<close>, which needs the whole state machine. Each
  operation takes the reading of the clock it makes. A start time that has not happened is
  \<^verbatim>\<open>time_point::max()\<close>.
\<close>

subsection \<open>PreStagingAnim\<close>

record PreStagingAnim =
  ps_start :: int
  ps_startingTime :: int

definition new_PreStagingAnim :: "int \<Rightarrow> PreStagingAnim" where
  "new_PreStagingAnim now = \<lparr>ps_start = now, ps_startingTime = time_max\<rparr>"

definition ps_fadeOutStart :: rat where "ps_fadeOutStart = 3 / 2"

definition ps_dootiness :: "int \<Rightarrow> PreStagingAnim \<Rightarrow> rat" where
  "ps_dootiness now a =
     (let curTime = to_secs (now - ps_start a);
          timeSinceDoot = fdiv curTime 3;
          dootiness = clamp (fdiv timeSinceDoot ps_fadeOutStart) 0 1;
          startingTime = to_secs (now - ps_startingTime a)
      in if startingTime > 0 then clamp (fsub 1 (fdiv startingTime ps_fadeOutStart)) 0 1
         else dootiness)"

definition ps_GetColors :: "int \<Rightarrow> PreStagingAnim \<Rightarrow> colors res" where
  "ps_GetColors now a =
     map_res (\<lambda>i. bind_res (light (ps_dootiness now a) MidLightCounts) (\<lambda>v. Inr (rgb v v v))) [0..<N]"

definition blank_segments :: SegmentLedState where
  "blank_segments = mk_segments [0, 0, 0, 0] 0"

definition ps_GetSegmentLed :: "PreStagingAnim \<Rightarrow> SegmentLedState" where
  "ps_GetSegmentLed a = blank_segments"

definition ps_GetButtonLeds :: "PreStagingAnim \<Rightarrow> button_leds" where
  "ps_GetButtonLeds a = (False, False)"

subsection \<open>StagingAnim\<close>

record StagingAnim =
  st_start :: int
  st_blueStart :: int
  st_redStart :: int

definition new_StagingAnim :: "int \<Rightarrow> StagingAnim" where
  "new_StagingAnim now = \<lparr>st_start = now, st_blueStart = time_max, st_redStart = time_max\<rparr>"

definition st_fadeOutStart :: rat where "st_fadeOutStart = 3 / 2"
definition st_fadeOutDuration :: rat where "st_fadeOutDuration = 3 / 2"
definition st_totalAnimFromLastButton :: rat where "st_totalAnimFromLastButton = 7 / 2"

text \<open>The level of one half of the field, \<open>t\<close> seconds after its team's button.\<close>

definition st_level :: "rat \<Rightarrow> rat \<Rightarrow> rat" where
  "st_level t maxValue =
     (let s = (if t > 0 then fadd (fmul (clamp (fmul t t) 0 1) (fl (9 / 10))) (fl (1 / 10))
               else fl (1 / 10))
      in min s maxValue)"

definition st_GetColors :: "int \<Rightarrow> StagingAnim \<Rightarrow> colors res" where
  "st_GetColors now a =
     (let redTime = to_secs (now - st_redStart a);
          blueTime = to_secs (now - st_blueStart a);
          minTime = min redTime blueTime;
          maxValue = clamp (fsub 1 (fdiv (fsub minTime st_fadeOutStart) st_fadeOutDuration)) 0 1
      in bind_res (map_res (\<lambda>i. bind_res (light (st_level redTime maxValue) MaxLightCounts)
                                  (\<lambda>v. Inr (rgb v 0 0))) [0..<N div 2]) (\<lambda>reds.
         bind_res (map_res (\<lambda>i. bind_res (light (st_level blueTime maxValue) MaxLightCounts)
                                  (\<lambda>v. Inr (rgb 0 0 v))) [N div 2..<N]) (\<lambda>blues.
         Inr (reds @ blues))))"

text \<open>\<^verbatim>\<open>'s','t','r','t'\<close>\<close>

definition st_GetSegmentLed :: "StagingAnim \<Rightarrow> SegmentLedState" where
  "st_GetSegmentLed a = mk_segments [115, 116, 114, 116] 0"

definition st_GetButtonLeds :: "StagingAnim \<Rightarrow> button_leds" where
  "st_GetButtonLeds a = (st_redStart a = time_max, st_blueStart a = time_max)"

subsection \<open>End\<close>

record EndAnim =
  end_start :: int

definition new_End :: "int \<Rightarrow> EndAnim" where
  "new_End now = \<lparr>end_start = now\<rparr>"

text \<open>A three second fade, shared in form by \<^verbatim>\<open>Fighting\<close>, \<^verbatim>\<open>PausedAnim\<close> and \<^verbatim>\<open>End\<close>.\<close>

definition fade3 :: "int \<Rightarrow> int \<Rightarrow> rat" where
  "fade3 now start =
     (let curTime = to_secs (now - start); timeSinceDoot = fdiv curTime 3
      in clamp (fsub 1 timeSinceDoot) 0 1)"

definition end_GetColors :: "int \<Rightarrow> EndAnim \<Rightarrow> colors res" where
  "end_GetColors now a =
     map_res (\<lambda>i. bind_res (light (fade3 now (end_start a)) MaxLightCounts)
                    (\<lambda>v. Inr (rgb v v 0))) [0..<N]"

definition end_GetSegmentLed :: "EndAnim \<Rightarrow> SegmentLedState" where
  "end_GetSegmentLed a = blank_segments"

definition end_GetButtonLeds :: "EndAnim \<Rightarrow> button_leds" where
  "end_GetButtonLeds a = (False, False)"

subsection \<open>Levels and frames\<close>

lemma ps_dootiness_unit [simp]: "in_unit (ps_dootiness now a)"
  by (simp add: ps_dootiness_def Let_def)

lemma fade3_unit [simp]: "in_unit (fade3 now s)"
  by (simp add: fade3_def Let_def)

lemma nine_tenths_and_one: "fadd (fmul 1 (fl (9 / 10))) (fl (1 / 10)) = 1"
  by (simp add: float_eval)

lemma st_level_unit:
  assumes "in_unit m"
  shows "in_unit (st_level t m)"
proof -
  let ?c = "clamp (fmul t t) 0 1"
  have c: "0 \<le> ?c" "?c \<le> 1" by simp_all
  have "fadd (fmul ?c (fl (9 / 10))) (fl (1 / 10)) \<le> fadd (fmul 1 (fl (9 / 10))) (fl (1 / 10))"
    unfolding fadd_def fmul_def using c fl_nonneg [of "9 / 10"]
    by (intro fl_mono add_right_mono mult_right_mono) simp_all
  moreover have "0 \<le> fadd (fmul ?c (fl (9 / 10))) (fl (1 / 10))"
    unfolding fadd_def fmul_def using c fl_nonneg by (intro fl_nonneg add_nonneg_nonneg mult_nonneg_nonneg) simp_all
  ultimately have "in_unit (fadd (fmul ?c (fl (9 / 10))) (fl (1 / 10)))"
    by (simp add: in_unit_def nine_tenths_and_one)
  moreover have "in_unit (fl (1 / 10))" by (rule in_unit_fl) (simp add: in_unit_def)
  ultimately show ?thesis using assms by (simp add: st_level_def Let_def)
qed

lemma ps_GetColors_ok:
  "\<exists>cs. ps_GetColors now a = Inr cs \<and> frame_within MidLightCounts cs"
  using frame_from_levels [of "\<lambda>_. ps_dootiness now a" MidLightCounts "\<lambda>v. rgb v v v"]
  by (auto simp: ps_GetColors_def MidLightCounts_def)

lemma end_GetColors_ok:
  "\<exists>cs. end_GetColors now a = Inr cs \<and> frame_within MaxLightCounts cs"
  using frame_from_levels [of "\<lambda>_. fade3 now (end_start a)" MaxLightCounts "\<lambda>v. rgb v v 0"]
  by (auto simp: end_GetColors_def MaxLightCounts_def)

lemma st_GetColors_frame:
  fixes now a
  defines "rt \<equiv> to_secs (now - st_redStart a)" and "bt \<equiv> to_secs (now - st_blueStart a)"
  defines "m \<equiv> clamp (fsub 1 (fdiv (fsub (min rt bt) st_fadeOutStart) st_fadeOutDuration)) 0 1"
  shows "\<exists>v w. light (st_level rt m) MaxLightCounts = Inr v
     \<and> light (st_level bt m) MaxLightCounts = Inr w
     \<and> uint v \<le> MaxLightCounts \<and> uint w \<le> MaxLightCounts
     \<and> st_GetColors now a
         = Inr (replicate (N div 2) (rgb v 0 0) @ replicate (N - N div 2) (rgb 0 0 w))"
proof -
  have m: "in_unit m" by (simp add: m_def)
  obtain v where v: "light (st_level rt m) MaxLightCounts = Inr v" "uint v \<le> MaxLightCounts"
    by (rule light_ok [OF st_level_unit [OF m, of rt], of MaxLightCounts]) (simp_all add: MaxLightCounts_def)
  obtain w where w: "light (st_level bt m) MaxLightCounts = Inr w" "uint w \<le> MaxLightCounts"
    by (rule light_ok [OF st_level_unit [OF m, of bt], of MaxLightCounts]) (simp_all add: MaxLightCounts_def)
  have "map_res (\<lambda>i. bind_res (light (st_level rt m) MaxLightCounts) (\<lambda>v. Inr (rgb v 0 0)))
      [0..<N div 2] = Inr (map (\<lambda>_. rgb v 0 0) [0..<N div 2])"
    "map_res (\<lambda>i. bind_res (light (st_level bt m) MaxLightCounts) (\<lambda>v. Inr (rgb 0 0 v)))
      [N div 2..<N] = Inr (map (\<lambda>_. rgb 0 0 w) [N div 2..<N])"
    by (rule map_res_Inr, simp add: v w)+
  then have "st_GetColors now a
      = Inr (replicate (N div 2) (rgb v 0 0) @ replicate (N - N div 2) (rgb 0 0 w))"
    by (simp add: st_GetColors_def Let_def rt_def bt_def m_def map_replicate_const)
  with v w show ?thesis by blast
qed

lemma st_GetColors_ok:
  "\<exists>cs. st_GetColors now a = Inr cs \<and> frame_within MaxLightCounts cs"
  using st_GetColors_frame [of now a]
  by (auto simp: frame_within_def MaxLightCounts_def N_eq)

end
