(* ===== verification/Match.thy ===== *)
theory Match
  imports Staging
begin

text \<open>
  The animations of the match itself: \<^verbatim>\<open>XmasTree\<close> (the countdown), \<^verbatim>\<open>Fighting\<close> and
  \<^verbatim>\<open>PausedAnim\<close> of \<^verbatim>\<open>ArenaStates.cpp\<close>, without their \<^verbatim>\<open>Tick\<close>. Every operation takes the
  reading of the clock it makes. The lemmas say what the field and the clock display show.
\<close>

subsection \<open>XmasTree\<close>

text \<open>
  The constructor numbers three bars of every column 3, 2, 1. The integer divisions are of
  non-negative numbers.
\<close>

definition regionPadding :: nat where "regionPadding = 3"
definition outSizeSpacing :: nat where "outSizeSpacing = 5"
definition numRegions :: nat where "numRegions = 3"

definition regionSize :: nat where
  "regionSize = (NumVertical - outSizeSpacing - (numRegions - 1) * regionPadding) div numRegions"

definition firstRegion :: nat where
  "firstRegion = NumVertical div 2 - (regionSize * numRegions + regionPadding * (numRegions - 1)) div 2"

text \<open>Region \<open>i\<close> starts \<open>i\<close> times \<^verbatim>\<open>regionSize + regionPadding\<close> pixels after the first.\<close>

definition fill_region :: "nat \<Rightarrow> int list \<Rightarrow> nat \<Rightarrow> nat \<Rightarrow> int list" where
  "fill_region x region startPx i =
     foldl (\<lambda>r j. r[x * NumVertical + startPx + j := 3 - int i]) region [0..<regionSize]"

definition fill_column :: "int list \<Rightarrow> nat \<Rightarrow> int list" where
  "fill_column region x =
     fst (foldl (\<lambda>(r, startPx) i. (fill_region x r startPx i, startPx + (regionSize + regionPadding)))
            (region, firstRegion) [0..<numRegions])"

definition dootRegions :: "int list" where
  "dootRegions = foldl fill_column (replicate N 0) [0..<NumHorizontal]"

record XmasTree =
  xt_start :: int
  xt_dootRegion :: "int list"

definition new_XmasTree :: "int \<Rightarrow> XmasTree" where
  "new_XmasTree now = \<lparr>xt_start = now, xt_dootRegion = dootRegions\<rparr>"

definition xt_dootiness :: "rat \<Rightarrow> rat" where
  "xt_dootiness curTime =
     (let timeSinceDoot = fmul (ffmod curTime 1) (fl (6 / 5))
      in clamp (fsub (fl (6 / 5)) (fmul timeSinceDoot timeSinceDoot)) 0 1)"

definition xt_pixel :: "rat \<Rightarrow> int \<Rightarrow> ColorTriplet res" where
  "xt_pixel curTime region =
     (if fl (of_int region) > curTime
      then bind_res (light (xt_dootiness curTime) MaxLightCounts) (\<lambda>v. Inr (rgb v v 0))
      else bind_res (light 0 MaxLightCounts) (\<lambda>v. Inr (rgb v v (v div 4))))"

definition xt_GetColors :: "int \<Rightarrow> XmasTree \<Rightarrow> colors res" where
  "xt_GetColors now a =
     (let curTime = to_secs (now - xt_start a)
      in map_res (\<lambda>i. xt_pixel curTime (xt_dootRegion a ! i)) [0..<N])"

text \<open>\<^verbatim>\<open>' ',' ','1',' '\<close>, \<^verbatim>\<open>' ','2',' ',' '\<close> and \<^verbatim>\<open>'3',' ',' ',' '\<close>\<close>

definition xt_GetSegmentLed :: "int \<Rightarrow> XmasTree \<Rightarrow> SegmentLedState" where
  "xt_GetSegmentLed now a =
     (let curTime = to_secs (now - xt_start a)
      in if curTime > 2 then mk_segments [32, 32, 49, 32] 0
         else if curTime > 1 then mk_segments [32, 50, 32, 32] 0
         else mk_segments [51, 32, 32, 32] 0)"

definition xt_GetButtonLeds :: "XmasTree \<Rightarrow> button_leds" where
  "xt_GetButtonLeds a = (False, False)"

subsection \<open>Fighting\<close>

record Fighting =
  fg_start :: int
  fg_end :: int

text \<open>\<^verbatim>\<open>_end = _start + std::chrono::milliseconds(static_cast<int>(world.timeRemaining * 1000))\<close>\<close>

definition new_Fighting :: "int \<Rightarrow> WorldState \<Rightarrow> Fighting res" where
  "new_Fighting now world =
     bind_res (to_int32 (fmul (timeRemaining world) (fl 1000))) (\<lambda>ms.
       Inr \<lparr>fg_start = now, fg_end = now + ms * 1000000\<rparr>)"

definition fg_GetColors :: "int \<Rightarrow> Fighting \<Rightarrow> colors res" where
  "fg_GetColors now a =
     map_res (\<lambda>i. bind_res (light (fade3 now (fg_start a)) MaxLightCounts)
                    (\<lambda>v. Inr (rgb 0 v 0))) [0..<N]"

text \<open>The clock, and \<^verbatim>\<open>'E','n','d',' '\<close> once the time is up.\<close>

definition fg_GetSegmentLed :: "int \<Rightarrow> Fighting \<Rightarrow> SegmentLedState res" where
  "fg_GetSegmentLed now a =
     bind_res (to_int32 (of_int \<lceil>to_secs (fg_end a - now)\<rceil>)) (\<lambda>remTime.
       Inr (if remTime > 0 then clock_digits remTime else mk_segments [69, 110, 100, 32] 0))"

definition fg_GetButtonLeds :: "Fighting \<Rightarrow> button_leds" where
  "fg_GetButtonLeds a = (True, True)"

subsection \<open>PausedAnim\<close>

text \<open>The constructor leaves \<^verbatim>\<open>_remTime\<close> unset; the first \<^verbatim>\<open>Tick\<close> sets it.\<close>

record PausedAnim =
  pa_start :: int
  pa_releasedPause :: bool
  pa_remTime :: "int option"

definition new_PausedAnim :: "int \<Rightarrow> PausedAnim" where
  "new_PausedAnim now = \<lparr>pa_start = now, pa_releasedPause = False, pa_remTime = None\<rparr>"

definition pa_GetColors :: "int \<Rightarrow> PausedAnim \<Rightarrow> colors res" where
  "pa_GetColors now a =
     map_res (\<lambda>i. bind_res (light (fade3 now (pa_start a)) MaxLightCounts)
                    (\<lambda>v. Inr (rgb v v 0))) [0..<N]"

definition pa_GetSegmentLed :: "PausedAnim \<Rightarrow> SegmentLedState res" where
  "pa_GetSegmentLed a =
     (case pa_remTime a of None \<Rightarrow> Inl Uninitialised | Some t \<Rightarrow> Inr (clock_digits t))"

definition pa_GetButtonLeds :: "PausedAnim \<Rightarrow> button_leds" where
  "pa_GetButtonLeds a = (False, False)"

subsection \<open>The bars of the countdown\<close>

definition bar :: "nat \<Rightarrow> int" where
  "bar row = (if 3 \<le> row \<and> row < 15 then 3 else if 18 \<le> row \<and> row < 30 then 2
              else if 33 \<le> row \<and> row < 45 then 1 else 0)"

lemma foldl_update_range:
  "foldl (\<lambda>r j. r[s + j := v]) r [0..<n] = map (\<lambda>k. if s \<le> k \<and> k < s + n then v else r ! k) [0..<length r]"
proof (induction n)
  case 0
  have "(\<lambda>k. if s \<le> k \<and> k < s then v else r ! k) = (!) r" by (rule ext) auto
  then show ?case by (simp add: map_nth)
next
  case (Suc n)
  show ?case
    by (rule nth_equalityI) (use Suc in \<open>auto simp: nth_list_update less_Suc_eq\<close>)
qed

lemma fill_region_eq:
  "fill_region x r s i = map (\<lambda>k. if x * NumVertical + s \<le> k \<and> k < x * NumVertical + s + regionSize
      then 3 - int i else r ! k) [0..<length r]"
  unfolding fill_region_def by (rule foldl_update_range)

lemma regions_eval: "regionSize = 12" "firstRegion = 3" "regionPadding = 3" "numRegions = 3"
  by (simp_all add: regionSize_def firstRegion_def regionPadding_def numRegions_def
      outSizeSpacing_def NumVertical_def)

lemma fill_column_three:
  "fill_column r x = fill_region x (fill_region x (fill_region x r 3 0) 18 1) 33 2"
  by (simp add: fill_column_def regions_eval numeral_3_eq_3)
    (simp add: numeral_2_eq_2)

lemma fill_column_eq:
  "fill_column r x = map (\<lambda>k. if x * NumVertical \<le> k \<and> k < Suc x * NumVertical \<and> bar (k - x * NumVertical) \<noteq> 0
      then bar (k - x * NumVertical) else r ! k) [0..<length r]"
proof (rule nth_equalityI)
  fix k
  assume "k < length (fill_column r x)"
  then have k: "k < length r" by (simp add: fill_column_three fill_region_eq)
  obtain b where b: "x * NumVertical = b" by blast
  show "fill_column r x ! k = map (\<lambda>k. if x * NumVertical \<le> k \<and> k < Suc x * NumVertical
        \<and> bar (k - x * NumVertical) \<noteq> 0 then bar (k - x * NumVertical) else r ! k) [0..<length r] ! k"
    using k by (simp add: fill_column_three fill_region_eq b regions_eval)
      (simp add: NumVertical_def bar_def, arith)
qed (simp add: fill_column_three fill_region_eq)

lemma length_fill_columns: "length (foldl fill_column r cs) = length r"
  by (induction cs arbitrary: r) (simp_all add: fill_column_eq)

lemma fill_columns_nth:
  assumes "k < N"
  shows "foldl fill_column (replicate N 0) [0..<c] ! k = (if k < c * NumVertical then bar (k mod NumVertical) else 0)"
    (is "?f c ! k = _")
proof (induction c)
  case 0
  with assms show ?case by simp
next
  case (Suc c)
  have "k mod NumVertical = k - c * NumVertical" if "c * NumVertical \<le> k" "k < Suc c * NumVertical"
    using that mod_nat_eqI [of "k - c * NumVertical" NumVertical k] by simp
  moreover have "?f (Suc c) = fill_column (?f c) c" by simp
  ultimately show ?case using Suc assms
    by (simp add: fill_column_eq [of "?f c"] length_fill_columns del: upt_Suc)
qed

lemma dootRegions_bar: "dootRegions = map (\<lambda>i. bar (i mod NumVertical)) [0..<N]"
  by (rule nth_equalityI)
    (simp_all add: dootRegions_def length_fill_columns fill_columns_nth,
     simp add: N_def mult.commute)

subsection \<open>What the match shows\<close>

lemma light_dark [simp]: "light 0 MaxLightCounts = Inr 0"
  by (simp add: MaxLightCounts_def)

lemma xt_dootiness_unit [simp]: "in_unit (xt_dootiness t)"
  by (simp add: xt_dootiness_def Let_def)

lemma fl_bar [simp]: "fl (of_int (bar row)) = of_int (bar row)"
  by (rule fl_of_int) (simp add: bar_def)

text \<open>The bars whose number exceeds the seconds gone are yellow, everything else is dark.\<close>

lemma xt_GetColors_frame:
  assumes "xt_dootRegion a = dootRegions"
  shows "\<exists>v. uint v \<le> MaxLightCounts \<and> xt_GetColors now a
    = Inr (map (\<lambda>i. if to_secs (now - xt_start a) < of_int (bar (i mod NumVertical)) then rgb v v 0
                    else rgb 0 0 0) [0..<N])"
proof -
  let ?t = "to_secs (now - xt_start a)"
  obtain v where v: "light (xt_dootiness ?t) MaxLightCounts = Inr v" "uint v \<le> MaxLightCounts"
    by (rule light_ok [OF xt_dootiness_unit [of ?t], of MaxLightCounts]) (simp_all add: MaxLightCounts_def)
  have "xt_GetColors now a = Inr (map (\<lambda>i. if ?t < of_int (bar (i mod NumVertical)) then rgb v v 0
      else rgb 0 0 0) [0..<N])"
    unfolding xt_GetColors_def Let_def
    by (rule map_res_Inr) (auto simp: xt_pixel_def assms dootRegions_bar v)
  with v(2) show ?thesis by blast
qed

lemma xt_GetColors_ok:
  assumes "xt_dootRegion a = dootRegions"
  shows "\<exists>cs. xt_GetColors now a = Inr cs \<and> frame_within MaxLightCounts cs"
proof -
  have "uint (0 :: u8) \<le> MaxLightCounts" by (simp add: MaxLightCounts_def)
  then show ?thesis
    using xt_GetColors_frame [OF assms, of now] by (auto simp: frame_within_def)
qed

lemma fg_GetColors_ok: "\<exists>cs. fg_GetColors now a = Inr cs \<and> frame_within MaxLightCounts cs"
  using frame_from_levels [of "\<lambda>_. fade3 now (fg_start a)" MaxLightCounts "\<lambda>v. rgb 0 v 0"]
  by (auto simp: fg_GetColors_def MaxLightCounts_def)

lemma pa_GetColors_ok: "\<exists>cs. pa_GetColors now a = Inr cs \<and> frame_within MaxLightCounts cs"
  using frame_from_levels [of "\<lambda>_. fade3 now (pa_start a)" MaxLightCounts "\<lambda>v. rgb v v 0"]
  by (auto simp: pa_GetColors_def MaxLightCounts_def)

subsection \<open>The match clock\<close>

lemma to_int32_of_int [simp]: "- (2 ^ 31) \<le> n \<Longrightarrow> n < 2 ^ 31 \<Longrightarrow> to_int32 (of_int n) = Inr n"
  by (simp add: to_int32_def trunc_def)

lemma new_Fighting_full:
  "timeRemaining w = 120 \<Longrightarrow> new_Fighting now w = Inr \<lparr>fg_start = now, fg_end = now + 120000000000\<rparr>"
  by (simp add: new_Fighting_def to_int32_def float_eval)

text \<open>The seconds shown when \<open>d\<close> nanoseconds remain.\<close>

definition shown_seconds :: "int \<Rightarrow> int" where
  "shown_seconds d = \<lceil>to_secs d\<rceil>"

lemma shown_seconds_near:
  assumes "0 \<le> d" "d < 2 ^ 37"
  shows "d \<le> shown_seconds d * 1000000000 + 12000"
    and "(shown_seconds d - 1) * 1000000000 < d + 12000"
    and "0 \<le> shown_seconds d" "shown_seconds d < 200"
proof -
  let ?s = "to_secs d"
  have s: "?s \<le> of_int (shown_seconds d)" "of_int (shown_seconds d) - 1 < ?s"
    unfolding shown_seconds_def by linarith+
  have near: "\<bar>?s * 1000000000 - of_int d\<bar> \<le> 12000" using assms by (rule to_secs_near)
  have "(of_int d :: rat) \<le> of_int (shown_seconds d * 1000000000 + 12000)"
    using s(1) near by (simp add: abs_le_iff)
  then show 1: "d \<le> shown_seconds d * 1000000000 + 12000" by (simp only: of_int_le_iff)
  have "of_int ((shown_seconds d - 1) * 1000000000) < (of_int (d + 12000) :: rat)"
    using s(2) near by (simp add: abs_le_iff)
  then show 2: "(shown_seconds d - 1) * 1000000000 < d + 12000" by (simp only: of_int_less_iff)
  show "0 \<le> shown_seconds d" "shown_seconds d < 200" using 1 2 assms by simp_all
qed

lemma fg_GetSegmentLed_eq:
  assumes "- (2 ^ 37) < fg_end a - now" "fg_end a - now < 2 ^ 37"
  shows "fg_GetSegmentLed now a = Inr (if 0 < shown_seconds (fg_end a - now)
    then clock_digits (shown_seconds (fg_end a - now)) else mk_segments [69, 110, 100, 32] 0)"
proof -
  let ?d = "fg_end a - now"
  have "to_secs ?d \<le> 138" "- 138 \<le> to_secs ?d"
    using assms to_secs_le [of ?d 1 37 138] to_secs_ge [of "- 1" 37 ?d "- 138"]
      binary32.rd_numeral [of "num.Bit0 (num.Bit1 (num.Bit0 (num.Bit1 (num.Bit0 (num.Bit0 (num.Bit0 num.One))))))"]
    by simp_all
  then have "- (2 ^ 31) \<le> shown_seconds ?d" "shown_seconds ?d < 2 ^ 31"
    unfolding shown_seconds_def using ceiling_mono [of "to_secs ?d" "of_int 138"]
      ceiling_mono [of "of_int (- 138)" "to_secs ?d"] unfolding ceiling_of_int by simp_all
  then show ?thesis
    unfolding fg_GetSegmentLed_def shown_seconds_def [symmetric] by (simp only: to_int32_of_int bind_res_simps)
qed

text \<open>Pausing stores the time left as \<^verbatim>\<open>float\<close> seconds; the next \<^verbatim>\<open>Fighting\<close> starts from it.\<close>

lemma new_Fighting_resume:
  assumes "0 \<le> d" "d < 2 ^ 37" "timeRemaining w = to_secs d"
  shows "\<exists>r. new_Fighting now w = Inr \<lparr>fg_start = now, fg_end = now + r\<rparr>
     \<and> 0 \<le> r \<and> d - 1020000 < r \<and> r \<le> d + 20000"
proof -
  let ?x = "to_secs d" let ?y = "fmul ?x (fl 1000)"
  have x: "0 \<le> ?x" using assms(1) by (rule to_secs_nonneg)
  have near: "\<bar>?x * 1000000000 - of_int d\<bar> \<le> 12000" using assms(1,2) by (rule to_secs_near)
  have "(of_int d :: rat) < of_int (2 ^ 37)" using assms(2) by (simp only: of_int_less_iff)
  then have d: "(of_int d :: rat) < 137438953472" by simp
  have y: "?y = fl (?x * 1000)" by (simp add: fmul_def binary32.rd_numeral)
  have "\<bar>?x * 1000\<bar> < 2 powi 18" using near d x by (simp add: power_int_def abs_le_iff)
  from fl_near [OF this] have err: "\<bar>?y - ?x * 1000\<bar> \<le> 1 / 128" by (simp add: y powi2_eval)
  then have err': "?y \<le> ?x * 1000 + 1 / 128" "?x * 1000 \<le> ?y + 1 / 128"
    unfolding abs_le_iff by linarith+
  have y0: "0 \<le> ?y" unfolding y using x by (simp add: fl_nonneg)
  obtain ms where ms: "ms = trunc ?y" by blast
  have t: "of_int ms \<le> ?y" "?y < of_int ms + 1" using y0 floor_correct [of ?y] unfolding ms trunc_def by auto
  have "of_int (ms * 1000000) \<le> (of_int (d + 20000) :: rat)"
    using t(1) near err' by (simp add: abs_le_iff)
  then have 1: "ms * 1000000 \<le> d + 20000" by (simp only: of_int_le_iff)
  have "of_int (d - 1020000) < (of_int (ms * 1000000) :: rat)"
    using t(2) near err' by (simp add: abs_le_iff)
  then have 2: "d - 1020000 < ms * 1000000" by (simp only: of_int_less_iff)
  have 3: "0 \<le> ms" using y0 by (simp add: ms trunc_bounds)
  then have "to_int32 ?y = Inr ms" using 1 assms(2) by (simp add: to_int32_def flip: ms)
  then show ?thesis using 1 2 3 by (simp add: new_Fighting_def assms(3))
qed

end
