(* ===== verification/Loops.thy ===== *)
theory Loops
  imports Prelude "HOL-Library.While_Combinator"
begin

text \<open>
  Loops whose end is not obvious. A loop is iterated by \<^verbatim>\<open>while_option\<close>; one that never
  reaches its exit is the fault \<open>Diverges\<close>, and a fault of its body ends it. The rule at the
  end gives, from an invariant and a measure, that the loop returns and what holds then.
\<close>

definition res_while :: "('s \<Rightarrow> bool) \<Rightarrow> ('s \<Rightarrow> 's res) \<Rightarrow> 's \<Rightarrow> 's res" where
  "res_while b c s =
     (case while_option (\<lambda>r. case r of Inl _ \<Rightarrow> False | Inr s \<Rightarrow> b s) (\<lambda>r. bind_res r c) (Inr s) of
        None \<Rightarrow> Inl Diverges
      | Some r \<Rightarrow> r)"

lemma res_while_unfold: "res_while b c s = (if b s then bind_res (c s) (res_while b c) else Inr s)"
proof (cases "c s")
  case (Inl e)
  then show ?thesis by (simp add: res_while_def while_option_unfold [of _ _ "Inr s"])
      (simp add: while_option_unfold [of _ _ "Inl e"])
next
  case (Inr s')
  then show ?thesis by (simp add: res_while_def while_option_unfold [of _ _ "Inr s"])
qed

theorem res_while_total:
  fixes f :: "'s \<Rightarrow> nat"
  assumes "P s"
    and "\<And>s. P s \<Longrightarrow> b s \<Longrightarrow> \<exists>s'. c s = Inr s' \<and> P s' \<and> f s' < f s"
  shows "\<exists>t. res_while b c s = Inr t \<and> P t \<and> \<not> b t"
  using assms(1)
proof (induction "f s" arbitrary: s rule: less_induct)
  case less
  show ?case
  proof (cases "b s")
    case True
    then obtain s' where "c s = Inr s'" "P s'" "f s' < f s" using assms(2) less.prems by blast
    then show ?thesis using less.hyps [of s'] True by (simp add: res_while_unfold [of b c s])
  next
    case False
    with less.prems show ?thesis by (simp add: res_while_unfold)
  qed
qed

end
