(* ===== verification/Particles.thy ===== *)
theory Particles
  imports Animation Loops
begin

text \<open>
  The two animations of \<^verbatim>\<open>ArenaStates.cpp\<close> that keep a history of the field: \<^verbatim>\<open>WooWoosha\<close>, a
  point that runs up and down the strip, and \<^verbatim>\<open>PreCountdownAnimation\<close>, a rain of particles
  that gives way to a white field and then darkness. Both catch up with the clock in loops
  that add a \<^verbatim>\<open>float\<close> step to a \<^verbatim>\<open>float\<close> time; the lemmas show that they end while the times
  are below \<open>2 ^ 13\<close> seconds, and that every pixel they write exists.
\<close>

subsection \<open>The glow of a pixel\<close>

definition fadeUpStart :: rat where "fadeUpStart = 3"
definition fadeUpEnd :: rat where "fadeUpEnd = 9 / 2"
definition fadeDownStart :: rat where "fadeDownStart = 5"
definition fadeDownEnd :: rat where "fadeDownEnd = 6"
definition animEnd :: rat where "animEnd = 7"

lemmas fade_times = fadeUpStart_def fadeUpEnd_def fadeDownStart_def fadeDownEnd_def animEnd_def

definition glow_level :: "rat \<Rightarrow> rat \<Rightarrow> rat" where
  "glow_level curTime lastColorTime =
     (let minBrightness = tween curTime fadeUpStart fadeUpEnd;
          maxBrightness = fsub 1 (tween curTime fadeDownStart fadeDownEnd);
          timeSince = fsub curTime lastColorTime;
          juice = fmul (clamp (fsub 1 (fadd timeSince (fl (1 / 10)))) 0 1) (fl (9 / 10))
      in min (max juice minBrightness) maxBrightness)"

definition glow_frame :: "rat \<Rightarrow> rat list \<Rightarrow> colors res" where
  "glow_frame curTime lastColorTimes =
     map_res (\<lambda>i. bind_res (light (glow_level curTime (lastColorTimes ! i)) MaxLightCounts)
                    (\<lambda>v. Inr (rgb v v v))) [0..<N]"

text \<open>\<^verbatim>\<open>_lastColorTime[i] = t\<close> on a \<^verbatim>\<open>std::array\<close> of \<^verbatim>\<open>N\<close> elements.\<close>

definition set_color_time :: "rat list \<Rightarrow> int \<Rightarrow> rat \<Rightarrow> rat list res" where
  "set_color_time ts i t = (if 0 \<le> i \<and> i < int N then Inr (ts[nat i := t]) else Inl OutOfBounds)"

subsection \<open>WooWoosha\<close>

record WooWoosha =
  ww_start :: int
  ww_lastSegmentIdx :: int
  ww_lastSegmentTime :: rat
  ww_speed :: rat
  ww_dir :: int
  ww_lastColorTime :: "rat list"

definition new_WooWoosha :: "int \<Rightarrow> WooWoosha" where
  "new_WooWoosha now = \<lparr>ww_start = now, ww_lastSegmentIdx = 0, ww_lastSegmentTime = 0,
     ww_speed = fl (1 / 25), ww_dir = 1, ww_lastColorTime = replicate N (- 100)\<rparr>"

definition ww_advance :: "WooWoosha \<Rightarrow> WooWoosha res" where
  "ww_advance a =
     (let idx = ww_lastSegmentIdx a + ww_dir a;
          dir = (if idx = 0 \<or> idx = int N - 1 then - ww_dir a else ww_dir a);
          t = fadd (ww_lastSegmentTime a) (ww_speed a);
          speed = (if ww_speed a > fl (1 / 500) then fmul (ww_speed a) (fl (99 / 100)) else ww_speed a)
      in bind_res (set_color_time (ww_lastColorTime a) idx t) (\<lambda>ts.
           Inr (a\<lparr>ww_lastSegmentIdx := idx, ww_dir := dir, ww_lastSegmentTime := t,
                  ww_speed := speed, ww_lastColorTime := ts\<rparr>)))"

definition ww_GetColors :: "int \<Rightarrow> WooWoosha \<Rightarrow> (colors \<times> WooWoosha) res" where
  "ww_GetColors now a =
     (let curTime = to_secs (now - ww_start a)
      in bind_res (res_while (\<lambda>a. curTime > fadd (ww_lastSegmentTime a) (ww_speed a)) ww_advance a) (\<lambda>a'.
         bind_res (glow_frame curTime (ww_lastColorTime a')) (\<lambda>cs. Inr (cs, a'))))"

definition ww_GetSegmentLed :: "WooWoosha \<Rightarrow> SegmentLedState" where
  "ww_GetSegmentLed a = mk_segments [32, 32, 32, 32] 0"

definition ww_GetButtonLeds :: "WooWoosha \<Rightarrow> button_leds" where
  "ww_GetButtonLeds a = (False, False)"

subsection \<open>PreCountdownAnimation\<close>

record Particle =
  p_x :: int
  p_y :: int
  p_startTime :: rat
  p_age :: rat
  p_speed :: rat

text \<open>
  The random engine is seeded by \<^verbatim>\<open>std::random_device\<close>, outside the program: the \<open>n\<close>-th draw of
  \<^verbatim>\<open>std::uniform_int_distribution<int>(lo, hi)\<close> is \<open>uniform n lo hi\<close>, and \<open>pc_draws\<close> counts
  the draws made. The library promises a value between \<open>lo\<close> and \<open>hi\<close>.
\<close>

type_synonym uniform = "nat \<Rightarrow> int \<Rightarrow> int \<Rightarrow> int"

definition uniform_ok :: "uniform \<Rightarrow> bool" where
  "uniform_ok uniform \<longleftrightarrow> (\<forall>n lo hi. lo \<le> hi \<longrightarrow> lo \<le> uniform n lo hi \<and> uniform n lo hi \<le> hi)"

record PreCountdown =
  pc_start :: int
  pc_lastSegmentTime :: rat
  pc_speed :: rat
  pc_lastColorTime :: "rat list"
  pc_particles :: "Particle list"
  pc_draws :: nat

definition new_PreCountdown :: "int \<Rightarrow> PreCountdown" where
  "new_PreCountdown now = \<lparr>pc_start = now, pc_lastSegmentTime = 0, pc_speed = fl (7 / 10),
     pc_lastColorTime = replicate N (- 100), pc_particles = [], pc_draws = 0\<rparr>"

definition particleSpeed :: rat where "particleSpeed = fl (1 / 50)"

definition pc_spawn :: "uniform \<Rightarrow> PreCountdown \<Rightarrow> PreCountdown" where
  "pc_spawn uniform a =
     (let x = uniform (pc_draws a) 0 (int NumHorizontal - 1);
          y = uniform (Suc (pc_draws a)) ((- int NumVertical) sdiv 4) (int NumVertical sdiv 2 - 1);
          p = \<lparr>p_x = x, p_y = y, p_startTime = pc_lastSegmentTime a, p_age = 0,
               p_speed = max (fmul (pc_speed a) (fl (1 / 10))) particleSpeed\<rparr>
      in a\<lparr>pc_particles := pc_particles a @ [p],
           pc_draws := pc_draws a + 2,
           pc_lastSegmentTime := fadd (pc_lastSegmentTime a) (pc_speed a),
           pc_speed := (if pc_speed a > fl (1 / 10) then fmul (pc_speed a) (fl (7 / 10)) else pc_speed a)\<rparr>)"

definition p_fall :: "Particle \<Rightarrow> Particle" where
  "p_fall p = p\<lparr>p_y := p_y p + 1, p_startTime := fadd (p_startTime p) (p_speed p),
                p_age := fadd (p_age p) (p_speed p)\<rparr>"

definition p_catch_up :: "rat \<Rightarrow> Particle \<Rightarrow> Particle res" where
  "p_catch_up curTime p =
     res_while (\<lambda>p. curTime > fadd (p_startTime p) (p_speed p)) (\<lambda>p. Inr (p_fall p)) p"

text \<open>One turn of \<^verbatim>\<open>for (auto& particle : _particles)\<close>, and the whole loop.\<close>

definition p_turn :: "rat \<Rightarrow> Particle \<Rightarrow> rat list \<Rightarrow> (Particle \<times> rat list) res" where
  "p_turn curTime p ts =
     bind_res (p_catch_up curTime p) (\<lambda>p'.
       if p_y p' < int NumVertical \<and> 0 \<le> p_y p'
       then bind_res (set_color_time ts (p_y p' + p_x p' * int NumVertical)
                        (fsub curTime (fmul (p_age p') (fl (3 / 10)))))
              (\<lambda>ts'. Inr (p', ts'))
       else Inr (p', ts))"

fun p_turns :: "rat \<Rightarrow> Particle list \<Rightarrow> rat list \<Rightarrow> (Particle list \<times> rat list) res" where
  "p_turns curTime [] ts = Inr ([], ts)"
| "p_turns curTime (p # ps) ts =
     bind_res (p_turn curTime p ts) (\<lambda>(p', ts').
       bind_res (p_turns curTime ps ts') (\<lambda>(ps', ts''). Inr (p' # ps', ts'')))"

definition pc_GetColors :: "uniform \<Rightarrow> int \<Rightarrow> PreCountdown \<Rightarrow> (colors \<times> PreCountdown) res" where
  "pc_GetColors uniform now a =
     (let curTime = to_secs (now - pc_start a)
      in bind_res (res_while (\<lambda>a. curTime > pc_lastSegmentTime a) (\<lambda>a. Inr (pc_spawn uniform a)) a) (\<lambda>a1.
         bind_res (p_turns curTime (pc_particles a1) (pc_lastColorTime a1)) (\<lambda>(ps, ts).
         bind_res (glow_frame curTime ts) (\<lambda>cs.
           Inr (cs, a1\<lparr>pc_particles := ps, pc_lastColorTime := ts\<rparr>)))))"

definition pc_GetSegmentLed :: "PreCountdown \<Rightarrow> SegmentLedState" where
  "pc_GetSegmentLed a = mk_segments [32, 32, 32, 32] 0"

definition pc_GetButtonLeds :: "PreCountdown \<Rightarrow> button_leds" where
  "pc_GetButtonLeds a = (False, False)"

subsection \<open>Adding a step to a time\<close>

text \<open>
  Below \<open>2 ^ 13\<close> seconds a step of at least \<open>1 / 1024\<close> second advances a time by at least half of
  it. Above, a \<^verbatim>\<open>float\<close> time can stop advancing.
\<close>

lemma fadd_progress:
  assumes "0 \<le> a" "a \<le> 2 ^ 13" "1 / 1024 \<le> s" "s \<le> 1"
  shows "a + 1 / 2048 \<le> fadd a s"
proof -
  have "\<bar>a + s\<bar> < 2 powi 14" using assms by (simp add: power_int_def)
  from fl_near [OF this] have "\<bar>fadd a s - (a + s)\<bar> \<le> 1 / 2048" by (simp add: fadd_def powi2_eval)
  then show ?thesis using assms(3) unfolding abs_le_iff by linarith
qed

text \<open>The number of steps still possible before \<open>a\<close> reaches \<open>T\<close>.\<close>

definition steps_left :: "rat \<Rightarrow> rat \<Rightarrow> nat" where
  "steps_left T a = nat \<lceil>(T - a) * 2048\<rceil>"

lemma steps_left_less:
  assumes "0 \<le> a" "a < T" "T \<le> 2 ^ 13" "1 / 1024 \<le> s" "s \<le> 1"
  shows "steps_left T (fadd a s) < steps_left T a"
proof -
  have p: "a + 1 / 2048 \<le> fadd a s" using assms by (intro fadd_progress) simp_all
  then have "(T - fadd a s) * 2048 \<le> (T - a) * 2048 - 1" by simp
  then have "\<lceil>(T - fadd a s) * 2048\<rceil> \<le> \<lceil>(T - a) * 2048\<rceil> - 1"
    using ceiling_mono [of "(T - fadd a s) * 2048" "(T - a) * 2048 - 1"] by simp
  moreover have "0 < \<lceil>(T - a) * 2048\<rceil>" using assms(2) by simp
  ultimately show ?thesis by (simp add: steps_left_def)
qed

lemma fadd_nonneg: "0 \<le> a \<Longrightarrow> 0 \<le> s \<Longrightarrow> 0 \<le> fadd a s"
  by (simp add: fadd_def fl_nonneg)

lemma fadd_guard: "0 \<le> a \<Longrightarrow> 1 / 1024 \<le> s \<Longrightarrow> s \<le> 1 \<Longrightarrow> T \<le> 2 ^ 13 \<Longrightarrow> fadd a s < T \<Longrightarrow> a < T"
proof (cases "a \<le> 2 ^ 13")
  case True
  assume "0 \<le> a" "1 / 1024 \<le> s" "s \<le> 1" "fadd a s < T"
  then show ?thesis using fadd_progress [of a s] True by linarith
next
  case False
  assume *: "1 / 1024 \<le> s" "T \<le> 2 ^ 13" "fadd a s < T"
  have "fl (of_int 8192) \<le> fadd a s" unfolding fadd_def using False * by (intro fl_mono) simp
  then show ?thesis using * fl_of_int [of 8192] by simp
qed

text \<open>A speed that shrinks by a factor while it is above a bound keeps above a lower one.\<close>

lemma shrink_bounds:
  assumes "lo \<le> s" "s \<le> 1" "0 \<le> lo" "fl lo = lo" "0 \<le> k" "k \<le> 1" "lo \<le> b * k" "0 \<le> b"
  shows "lo \<le> (if b < s then fmul s k else s)" "(if b < s then fmul s k else s) \<le> 1"
proof -
  have "fl lo \<le> fmul s k" if "b < s"
  proof -
    have "b * k \<le> s * k" using that assms by (intro mult_right_mono) simp_all
    then show ?thesis unfolding fmul_def using assms by (intro fl_mono) simp
  qed
  then show "lo \<le> (if b < s then fmul s k else s)" using assms by simp
  have "fmul s k \<le> 1" unfolding fmul_def using assms
    by (intro binary32.rd_le_1 mult_le_one) simp_all
  then show "(if b < s then fmul s k else s) \<le> 1" using assms by simp
qed

subsection \<open>The glow\<close>

lemma glow_level_unit [simp]: "in_unit (glow_level t l)"
  by (simp add: glow_level_def Let_def in_unit_fmul in_unit_fl in_unit_def [of "9 / 10"])

lemma glow_frame_ok:
  "\<exists>cs. glow_frame t ts = Inr cs \<and> frame_within MaxLightCounts cs"
  using frame_from_levels [of "\<lambda>i. glow_level t (ts ! i)" MaxLightCounts "\<lambda>v. rgb v v v"]
  by (auto simp: glow_frame_def MaxLightCounts_def)

lemma fl_nonpos: "x \<le> 0 \<Longrightarrow> fl x \<le> 0"
  using fl_mono [of x 0] by simp

lemma tween_before:
  assumes "t \<le> a" "a \<le> b"
  shows "tween t a b = 0"
proof -
  have "fdiv (fsub t a) (fsub b a) \<le> 0"
    unfolding fdiv_def fsub_def using assms
    by (intro fl_nonpos divide_nonpos_nonneg fl_nonneg) simp_all
  then show ?thesis by (simp add: tween_def clamp_def)
qed

lemma tween_after:
  assumes "b \<le> t" "a + 1 \<le> b"
  shows "tween t a b = 1"
proof -
  have "1 \<le> fsub b a" "fsub b a \<le> fsub t a"
    using assms binary32.rd_ge_int [of 1 "b - a"] by (simp_all add: fsub_def fl_mono)
  then have "1 \<le> fsub t a / fsub b a" by simp
  then have "1 \<le> fdiv (fsub t a) (fsub b a)"
    using binary32.rd_ge_int [of 1 "fsub t a / fsub b a"] by (simp add: fdiv_def)
  then show ?thesis by (simp add: tween_def clamp_def)
qed

text \<open>From one and a half seconds into the white field until the fade the field is fully white.\<close>

lemma glow_level_white:
  assumes "9 / 2 \<le> t" "t \<le> 5"
  shows "glow_level t l = 1"
proof -
  have 1: "tween t fadeUpStart fadeUpEnd = 1" "tween t fadeDownStart fadeDownEnd = 0"
    using assms by (simp_all add: fade_times tween_after tween_before)
  have "in_unit (fmul (clamp (fsub 1 (fadd (fsub t l) (fl (1 / 10)))) 0 1) (fl (9 / 10)))"
    by (simp add: in_unit_fmul in_unit_fl in_unit_def [of "9 / 10"])
  then show ?thesis by (simp add: glow_level_def Let_def 1 fsub_def binary32.rd_1 in_unit_def)
qed

lemma glow_level_dark:
  assumes "6 \<le> t"
  shows "glow_level t l = 0"
proof -
  have 1: "tween t fadeUpStart fadeUpEnd = 1" "tween t fadeDownStart fadeDownEnd = 1"
    using assms by (simp_all add: fade_times tween_after)
  show ?thesis by (simp add: glow_level_def Let_def 1 fsub_def)
qed

subsection \<open>WooWoosha stays on the strip\<close>

definition ww_wf :: "WooWoosha \<Rightarrow> bool" where
  "ww_wf a \<longleftrightarrow> 0 \<le> ww_lastSegmentIdx a \<and> ww_lastSegmentIdx a \<le> int N - 1
     \<and> (ww_dir a = 1 \<and> ww_lastSegmentIdx a \<noteq> int N - 1 \<or> ww_dir a = - 1 \<and> ww_lastSegmentIdx a \<noteq> 0)
     \<and> 0 \<le> ww_lastSegmentTime a \<and> 1 / 1024 \<le> ww_speed a \<and> ww_speed a \<le> 1
     \<and> length (ww_lastColorTime a) = N"

lemma fl_frac_bounds:
  "1 / 1024 \<le> fl (1 / 500) * fl (99 / 100)" "0 \<le> fl (99 / 100)" "fl (99 / 100) \<le> 1" "0 \<le> fl (1 / 500)"
  "1 / 16 \<le> fl (1 / 10) * fl (7 / 10)" "0 \<le> fl (7 / 10)" "fl (7 / 10) \<le> 1" "0 \<le> fl (1 / 10)"
  "fl (1 / 1024) = 1 / 1024" "fl (1 / 16) = 1 / 16" "1 / 1024 \<le> fl (1 / 25)" "fl (1 / 25) \<le> 1"
  "1 / 16 \<le> fl (7 / 10)" "1 / 1024 \<le> particleSpeed" "particleSpeed \<le> 1" "fl (1 / 10) \<le> 1"
  by (simp_all add: float_eval particleSpeed_def)

lemma new_WooWoosha_wf: "ww_wf (new_WooWoosha now)"
  using fl_frac_bounds by (simp add: ww_wf_def new_WooWoosha_def N_eq)

lemma ww_advance_wf:
  assumes "ww_wf a"
  shows "\<exists>a'. ww_advance a = Inr a' \<and> ww_wf a' \<and> ww_start a' = ww_start a
     \<and> ww_lastSegmentTime a' = fadd (ww_lastSegmentTime a) (ww_speed a)
     \<and> \<bar>ww_lastSegmentIdx a' - ww_lastSegmentIdx a\<bar> = 1"
proof -
  have "0 \<le> fadd (ww_lastSegmentTime a) (ww_speed a)"
    using assms by (intro fadd_nonneg) (simp_all add: ww_wf_def)
  moreover have "1 / 1024 \<le> (if fl (1 / 500) < ww_speed a then fmul (ww_speed a) (fl (99 / 100)) else ww_speed a)"
    "(if fl (1 / 500) < ww_speed a then fmul (ww_speed a) (fl (99 / 100)) else ww_speed a) \<le> 1"
    using shrink_bounds [of "1 / 1024" "ww_speed a" "fl (99 / 100)" "fl (1 / 500)"] assms
    by (simp_all only: ww_wf_def fl_frac_bounds)
  ultimately show ?thesis using assms
    by (auto simp: ww_wf_def ww_advance_def Let_def set_color_time_def N_eq)
qed

lemma ww_loop_total:
  assumes "ww_wf a" "T \<le> 2 ^ 13"
  shows "\<exists>a'. res_while (\<lambda>a. T > fadd (ww_lastSegmentTime a) (ww_speed a)) ww_advance a = Inr a'
           \<and> ww_wf a' \<and> T \<le> fadd (ww_lastSegmentTime a') (ww_speed a')"
proof -
  have "\<exists>a'. ww_advance a = Inr a' \<and> ww_wf a'
      \<and> steps_left T (ww_lastSegmentTime a') < steps_left T (ww_lastSegmentTime a)"
    if "ww_wf a" "fadd (ww_lastSegmentTime a) (ww_speed a) < T" for a
    using ww_advance_wf [OF that(1)] that(1) assms(2) that(2)
      steps_left_less [of "ww_lastSegmentTime a" T "ww_speed a"]
      fadd_guard [of "ww_lastSegmentTime a" "ww_speed a" T]
    by (auto simp: ww_wf_def)
  from res_while_total [of ww_wf, OF assms(1) this] show ?thesis by fastforce
qed

lemma ww_GetColors_ok:
  assumes "ww_wf a" "to_secs (now - ww_start a) \<le> 2 ^ 13"
  shows "\<exists>cs a'. ww_GetColors now a = Inr (cs, a') \<and> ww_wf a' \<and> frame_within MaxLightCounts cs"
  using ww_loop_total [OF assms] glow_frame_ok
  by (simp add: ww_GetColors_def Let_def) (metis bind_res_simps(2))

subsection \<open>The rain stays on the field\<close>

definition p_wf :: "Particle \<Rightarrow> bool" where
  "p_wf p \<longleftrightarrow> 0 \<le> p_x p \<and> p_x p < int NumHorizontal \<and> - int (NumVertical div 4) \<le> p_y p
     \<and> 0 \<le> p_startTime p \<and> 1 / 1024 \<le> p_speed p \<and> p_speed p \<le> 1"

definition pc_wf :: "PreCountdown \<Rightarrow> bool" where
  "pc_wf a \<longleftrightarrow> 0 \<le> pc_lastSegmentTime a \<and> 1 / 16 \<le> pc_speed a \<and> pc_speed a \<le> 1
     \<and> length (pc_lastColorTime a) = N \<and> (\<forall>p \<in> set (pc_particles a). p_wf p)"

lemma new_PreCountdown_wf: "pc_wf (new_PreCountdown now)"
  using fl_frac_bounds by (simp add: pc_wf_def new_PreCountdown_def)

lemma pc_spawn_wf:
  assumes "uniform_ok u" "pc_wf a"
  shows "pc_wf (pc_spawn u a)"
proof -
  let ?s = "if fl (1 / 10) < pc_speed a then fmul (pc_speed a) (fl (7 / 10)) else pc_speed a"
  have s: "1 / 16 \<le> ?s" "?s \<le> 1"
    using shrink_bounds [of "1 / 16" "pc_speed a" "fl (7 / 10)" "fl (1 / 10)"] assms(2)
    by (simp_all only: pc_wf_def fl_frac_bounds)
  have "fmul (pc_speed a) (fl (1 / 10)) \<le> 1"
    unfolding fmul_def using assms(2) fl_frac_bounds
    by (intro binary32.rd_le_1 mult_le_one) (simp_all add: pc_wf_def)
  moreover have "0 \<le> u n 0 7" "u n 0 7 < 8" "- 12 \<le> u n (- 12) 23" for n
    using assms(1) [unfolded uniform_ok_def, rule_format, of 0 7 n]
      assms(1) [unfolded uniform_ok_def, rule_format, of "- 12" 23 n] by simp_all
  moreover have "- int 48 sdiv 4 = - 12" "int 48 sdiv 2 - 1 = 23" by code_simp+
  ultimately show ?thesis
    using assms(2) s fl_frac_bounds(14,15)
    by (auto simp: pc_wf_def pc_spawn_def Let_def p_wf_def NumHorizontal_def NumVertical_def
        intro: fadd_nonneg)
qed

lemma pc_spawn_start [simp]: "pc_start (pc_spawn u a) = pc_start a"
  by (simp add: pc_spawn_def Let_def)

lemma pc_spawn_total:
  assumes "uniform_ok u" "pc_wf a" "T \<le> 2 ^ 13"
  shows "\<exists>a'. res_while (\<lambda>a. T > pc_lastSegmentTime a) (\<lambda>a. Inr (pc_spawn u a)) a = Inr a'
           \<and> (pc_wf a' \<and> pc_start a' = pc_start a) \<and> \<not> T > pc_lastSegmentTime a'"
proof (rule res_while_total [where f = "\<lambda>a. steps_left T (pc_lastSegmentTime a)"])
  fix b
  assume b: "pc_wf b \<and> pc_start b = pc_start a" "pc_lastSegmentTime b < T"
  have "steps_left T (pc_lastSegmentTime (pc_spawn u b)) < steps_left T (pc_lastSegmentTime b)"
    using steps_left_less [of "pc_lastSegmentTime b" T "pc_speed b"] b assms(3)
    by (simp add: pc_wf_def pc_spawn_def Let_def)
  then show "\<exists>b'. Inr (pc_spawn u b) = (Inr b' :: PreCountdown res)
      \<and> (pc_wf b' \<and> pc_start b' = pc_start a)
      \<and> steps_left T (pc_lastSegmentTime b') < steps_left T (pc_lastSegmentTime b)"
    using pc_spawn_wf [OF assms(1)] b(1) by simp
qed (use assms(2) in simp)

lemma p_catch_up_total:
  assumes "p_wf p" "T \<le> 2 ^ 13"
  shows "\<exists>p'. p_catch_up T p = Inr p' \<and> p_wf p' \<and> T \<le> fadd (p_startTime p') (p_speed p')"
proof -
  have "\<exists>p'. Inr (p_fall p) = (Inr p' :: Particle res) \<and> p_wf p'
      \<and> steps_left T (p_startTime p') < steps_left T (p_startTime p)"
    if "p_wf p" "T > fadd (p_startTime p) (p_speed p)" for p
    using steps_left_less [of "p_startTime p" T "p_speed p"] that assms(2)
      fadd_guard [of "p_startTime p" "p_speed p" T]
    by (auto simp: p_wf_def p_fall_def intro: fadd_nonneg)
  from res_while_total [of p_wf, OF assms(1) this] show ?thesis
    unfolding p_catch_up_def by fastforce
qed

lemma p_turn_ok:
  assumes "p_wf p" "T \<le> 2 ^ 13" "length ts = N"
  shows "\<exists>p' ts'. p_turn T p ts = Inr (p', ts') \<and> p_wf p' \<and> length ts' = N"
proof -
  obtain p' where p': "p_catch_up T p = Inr p'" "p_wf p'" using p_catch_up_total assms(1,2) by blast
  have "p_y p' + p_x p' * int NumVertical < int N" if "p_y p' < int NumVertical"
    using that p'(2) by (simp add: p_wf_def field_shape)
  moreover have "0 \<le> p_y p' + p_x p' * int NumVertical" if "0 \<le> p_y p'"
    using that p'(2) by (simp add: p_wf_def)
  ultimately show ?thesis using p' assms(3) by (auto simp: p_turn_def set_color_time_def)
qed

lemma p_turns_ok:
  assumes "\<forall>p \<in> set ps. p_wf p" "T \<le> 2 ^ 13" "length ts = N"
  shows "\<exists>ps' ts'. p_turns T ps ts = Inr (ps', ts') \<and> (\<forall>p \<in> set ps'. p_wf p)
           \<and> length ps' = length ps \<and> length ts' = N"
  using assms
proof (induction ps arbitrary: ts)
  case Nil
  then show ?case by simp
next
  case (Cons p ps)
  obtain p' ts' where 1: "p_turn T p ts = Inr (p', ts')" "p_wf p'" "length ts' = N"
    using p_turn_ok [of p T ts] Cons.prems by auto
  obtain ps' ts'' where "p_turns T ps ts' = Inr (ps', ts'')" "\<forall>p \<in> set ps'. p_wf p"
    "length ps' = length ps" "length ts'' = N"
    using Cons.IH [of ts'] Cons.prems 1(3) by auto
  with 1 show ?case by auto
qed

lemma pc_GetColors_ok:
  assumes "uniform_ok u" "pc_wf a" "to_secs (now - pc_start a) \<le> 2 ^ 13"
  shows "\<exists>cs ts a'. pc_GetColors u now a = Inr (cs, a') \<and> pc_wf a' \<and> pc_start a' = pc_start a
     \<and> frame_within MaxLightCounts cs \<and> glow_frame (to_secs (now - pc_start a)) ts = Inr cs"
proof -
  let ?T = "to_secs (now - pc_start a)"
  obtain a1 where a1: "res_while (\<lambda>a. ?T > pc_lastSegmentTime a) (\<lambda>a. Inr (pc_spawn u a)) a = Inr a1"
    "pc_wf a1" "pc_start a1 = pc_start a"
    using pc_spawn_total [OF assms] by blast
  obtain ps ts where ps: "p_turns ?T (pc_particles a1) (pc_lastColorTime a1) = Inr (ps, ts)"
    "\<forall>p \<in> set ps. p_wf p" "length ts = N"
    using p_turns_ok [of "pc_particles a1" ?T "pc_lastColorTime a1"] a1(2) assms(3)
    by (auto simp: pc_wf_def)
  obtain cs where cs: "glow_frame ?T ts = Inr cs" "frame_within MaxLightCounts cs"
    using glow_frame_ok by blast
  have "pc_GetColors u now a = Inr (cs, a1\<lparr>pc_particles := ps, pc_lastColorTime := ts\<rparr>)"
    by (simp add: pc_GetColors_def Let_def a1(1) ps(1) cs(1))
  moreover have "pc_wf (a1\<lparr>pc_particles := ps, pc_lastColorTime := ts\<rparr>)"
    using a1(2) ps(2,3) by (simp add: pc_wf_def)
  ultimately show ?thesis using cs a1(3) by auto
qed

lemma glow_frame_const:
  assumes "\<And>l. glow_level t l = x" "light x MaxLightCounts = Inr v"
  shows "glow_frame t ts = Inr (replicate N (rgb v v v))"
proof -
  have "glow_frame t ts = Inr (map (\<lambda>_. rgb v v v) [0..<N])"
    unfolding glow_frame_def by (rule map_res_Inr) (simp add: assms)
  then show ?thesis by (simp add: map_replicate_const)
qed

end
