(* ===== verification/Arena.thy ===== *)
theory Arena
  imports Match Particles
begin

text \<open>
  The state machine of \<^verbatim>\<open>ArenaStates.cpp\<close> and \<^verbatim>\<open>ArenaStates.h\<close>: the \<^verbatim>\<open>Tick\<close> of every animation,
  \<^verbatim>\<open>ChangeState\<close> and \<^verbatim>\<open>GetAnimation\<close>, and the queries the machine passes on. The readings of
  the clock an operation makes are \<open>clk 0, clk 1, ...\<close> in program order. The \<^verbatim>\<open>unique_ptr\<close> that
  holds the current animation destroys it in \<^verbatim>\<open>ChangeState\<close>; a \<^verbatim>\<open>Tick\<close> that then touches a
  member of the animation it runs in has the fault \<open>UseAfterFree\<close>.
\<close>

subsection \<open>States and animations\<close>

datatype ArenaState = PreStaging | Staging | PreCountdown | Countdown | Fighting | Paused | End

datatype animation =
    APreStaging PreStagingAnim
  | AStaging StagingAnim
  | APreCountdown PreCountdown
  | ACountdown XmasTree
  | AFighting Fighting
  | APaused PausedAnim
  | AEnd EndAnim

definition GetAnimation :: "ArenaState \<Rightarrow> int \<Rightarrow> WorldState \<Rightarrow> animation res" where
  "GetAnimation state now world =
     (case state of
        PreStaging \<Rightarrow> Inr (APreStaging (new_PreStagingAnim now))
      | Staging \<Rightarrow> Inr (AStaging (new_StagingAnim now))
      | PreCountdown \<Rightarrow> Inr (APreCountdown (new_PreCountdown now))
      | Countdown \<Rightarrow> Inr (ACountdown (new_XmasTree now))
      | Fighting \<Rightarrow> bind_res (new_Fighting now world) (\<lambda>f. Inr (AFighting f))
      | Paused \<Rightarrow> Inr (APaused (new_PausedAnim now))
      | End \<Rightarrow> Inr (AEnd (new_End now)))"

text \<open>\<^verbatim>\<open>void StateMachine::ChangeState\<close>: the new owner of the animation, given the old one.\<close>

record StateMachine =
  sm_state :: "animation option"

definition ChangeState :: "ArenaState \<Rightarrow> int \<Rightarrow> WorldState \<Rightarrow> StateMachine \<Rightarrow> StateMachine res" where
  "ChangeState state now world m =
     bind_res (GetAnimation state now world) (\<lambda>a. Inr (m\<lparr>sm_state := Some a\<rparr>))"

subsection \<open>The ticks\<close>

type_synonym clock = "nat \<Rightarrow> int"

definition ps_Tick :: "clock \<Rightarrow> PreStagingAnim \<Rightarrow> WorldState \<Rightarrow> (animation \<times> WorldState) res" where
  "ps_Tick clk a world =
     (let a' = (if clk 0 < ps_startingTime a \<and> refButton world then a\<lparr>ps_startingTime := clk 0\<rparr> else a);
          startingDuration = to_secs (clk 1 - ps_startingTime a')
      in if startingDuration > ps_fadeOutStart
         then bind_res (GetAnimation Staging (clk 2) world) (\<lambda>n. Inr (n, world\<lparr>timeRemaining := 120\<rparr>))
         else Inr (APreStaging a', world))"

definition st_Tick :: "clock \<Rightarrow> StagingAnim \<Rightarrow> WorldState \<Rightarrow> (animation \<times> WorldState) res" where
  "st_Tick clk a world =
     (let a1 = (if clk 0 < st_redStart a \<and> redButton world then a\<lparr>st_redStart := clk 0\<rparr> else a);
          a2 = (if clk 0 < st_blueStart a1 \<and> blueButton world then a1\<lparr>st_blueStart := clk 0\<rparr> else a1);
          redDuration = to_secs (clk 1 - st_redStart a2);
          blueDuration = to_secs (clk 2 - st_blueStart a2)
      in if redDuration > st_totalAnimFromLastButton \<and> blueDuration > st_totalAnimFromLastButton
         then bind_res (GetAnimation PreCountdown (clk 3) world) (\<lambda>n. Inr (n, world))
         else Inr (AStaging a2, world))"

definition pc_Tick :: "clock \<Rightarrow> PreCountdown \<Rightarrow> WorldState \<Rightarrow> (animation \<times> WorldState) res" where
  "pc_Tick clk a world =
     (if to_secs (clk 0 - pc_start a) > animEnd
      then bind_res (GetAnimation Countdown (clk 1) world) (\<lambda>n. Inr (n, world))
      else Inr (APreCountdown a, world))"

definition xt_Tick :: "clock \<Rightarrow> XmasTree \<Rightarrow> WorldState \<Rightarrow> (animation \<times> WorldState) res" where
  "xt_Tick clk a world =
     (if to_secs (clk 0 - xt_start a) > 3
      then bind_res (GetAnimation Fighting (clk 1) world) (\<lambda>n. Inr (n, world))
      else Inr (ACountdown a, world))"

text \<open>
  The second test of \<^verbatim>\<open>Fighting::Tick\<close> is not an \<^verbatim>\<open>else\<close>: after the change to \<^verbatim>\<open>End\<close> it reads
  \<^verbatim>\<open>_end\<close> of the destroyed animation.
\<close>

definition fg_Tick :: "clock \<Rightarrow> Fighting \<Rightarrow> WorldState \<Rightarrow> (animation \<times> WorldState) res" where
  "fg_Tick clk a world =
     (if redButton world \<or> blueButton world
      then bind_res (GetAnimation End (clk 0) world) (\<lambda>n.
             if refButton world then Inl UseAfterFree else Inr (n, world))
      else if refButton world
      then (let world' = world\<lparr>timeRemaining := to_secs (fg_end a - clk 0)\<rparr>
            in bind_res (GetAnimation Paused (clk 1) world') (\<lambda>n. Inr (n, world')))
      else Inr (AFighting a, world))"

text \<open>
  Likewise \<^verbatim>\<open>PausedAnim::Tick\<close> reads \<^verbatim>\<open>_releasedPause\<close> after the change to \<^verbatim>\<open>Countdown\<close> when the
  reset button is down.
\<close>

definition pa_Tick :: "clock \<Rightarrow> PausedAnim \<Rightarrow> WorldState \<Rightarrow> (animation \<times> WorldState) res" where
  "pa_Tick clk a world =
     bind_res (to_int32 (of_int \<lceil>timeRemaining world\<rceil>)) (\<lambda>rem.
       let a1 = a\<lparr>pa_remTime := Some rem\<rparr>;
           a2 = (if \<not> refButton world then a1\<lparr>pa_releasedPause := True\<rparr> else a1)
       in if refButton world \<and> pa_releasedPause a2
          then bind_res (GetAnimation Countdown (clk 0) world) (\<lambda>n.
                 if resetButton world then Inl UseAfterFree else Inr (n, world))
          else if resetButton world \<and> pa_releasedPause a2
          then bind_res (GetAnimation PreStaging (clk 0) world) (\<lambda>n. Inr (n, world))
          else Inr (APaused a2, world))"

definition end_Tick :: "clock \<Rightarrow> EndAnim \<Rightarrow> WorldState \<Rightarrow> (animation \<times> WorldState) res" where
  "end_Tick clk a world =
     (if resetButton world
      then bind_res (GetAnimation PreStaging (clk 0) world) (\<lambda>n. Inr (n, world))
      else Inr (AEnd a, world))"

fun animation_Tick :: "clock \<Rightarrow> animation \<Rightarrow> WorldState \<Rightarrow> (animation \<times> WorldState) res" where
  "animation_Tick clk (APreStaging a) world = ps_Tick clk a world"
| "animation_Tick clk (AStaging a) world = st_Tick clk a world"
| "animation_Tick clk (APreCountdown a) world = pc_Tick clk a world"
| "animation_Tick clk (ACountdown a) world = xt_Tick clk a world"
| "animation_Tick clk (AFighting a) world = fg_Tick clk a world"
| "animation_Tick clk (APaused a) world = pa_Tick clk a world"
| "animation_Tick clk (AEnd a) world = end_Tick clk a world"

subsection \<open>The machine\<close>

definition with_state :: "StateMachine \<Rightarrow> (animation \<Rightarrow> 'a res) \<Rightarrow> 'a res" where
  "with_state m f = (case sm_state m of None \<Rightarrow> Inl NullPointer | Some a \<Rightarrow> f a)"

definition sm_Tick :: "clock \<Rightarrow> StateMachine \<Rightarrow> WorldState \<Rightarrow> (StateMachine \<times> WorldState) res" where
  "sm_Tick clk m world =
     with_state m (\<lambda>a. bind_res (animation_Tick clk a world) (\<lambda>(a', world').
       Inr (m\<lparr>sm_state := Some a'\<rparr>, world')))"

text \<open>\<^verbatim>\<open>GetColors\<close> also advances the particles of the pre-countdown.\<close>

fun animation_GetColors :: "uniform \<Rightarrow> clock \<Rightarrow> animation \<Rightarrow> (colors \<times> animation) res" where
  "animation_GetColors u clk (APreStaging a) = bind_res (ps_GetColors (clk 0) a) (\<lambda>c. Inr (c, APreStaging a))"
| "animation_GetColors u clk (AStaging a) = bind_res (st_GetColors (clk 0) a) (\<lambda>c. Inr (c, AStaging a))"
| "animation_GetColors u clk (APreCountdown a) =
     bind_res (pc_GetColors u (clk 0) a) (\<lambda>(c, a'). Inr (c, APreCountdown a'))"
| "animation_GetColors u clk (ACountdown a) = bind_res (xt_GetColors (clk 0) a) (\<lambda>c. Inr (c, ACountdown a))"
| "animation_GetColors u clk (AFighting a) = bind_res (fg_GetColors (clk 0) a) (\<lambda>c. Inr (c, AFighting a))"
| "animation_GetColors u clk (APaused a) = bind_res (pa_GetColors (clk 0) a) (\<lambda>c. Inr (c, APaused a))"
| "animation_GetColors u clk (AEnd a) = bind_res (end_GetColors (clk 0) a) (\<lambda>c. Inr (c, AEnd a))"

text \<open>\<^verbatim>\<open>Fighting\<close> reads the clock twice and uses the second reading.\<close>

fun animation_GetSegmentLed :: "clock \<Rightarrow> animation \<Rightarrow> SegmentLedState res" where
  "animation_GetSegmentLed clk (APreStaging a) = Inr (ps_GetSegmentLed a)"
| "animation_GetSegmentLed clk (AStaging a) = Inr (st_GetSegmentLed a)"
| "animation_GetSegmentLed clk (APreCountdown a) = Inr (pc_GetSegmentLed a)"
| "animation_GetSegmentLed clk (ACountdown a) = Inr (xt_GetSegmentLed (clk 0) a)"
| "animation_GetSegmentLed clk (AFighting a) = fg_GetSegmentLed (clk 1) a"
| "animation_GetSegmentLed clk (APaused a) = pa_GetSegmentLed a"
| "animation_GetSegmentLed clk (AEnd a) = Inr (end_GetSegmentLed a)"

fun animation_GetButtonLeds :: "animation \<Rightarrow> button_leds" where
  "animation_GetButtonLeds (APreStaging a) = ps_GetButtonLeds a"
| "animation_GetButtonLeds (AStaging a) = st_GetButtonLeds a"
| "animation_GetButtonLeds (APreCountdown a) = pc_GetButtonLeds a"
| "animation_GetButtonLeds (ACountdown a) = xt_GetButtonLeds a"
| "animation_GetButtonLeds (AFighting a) = fg_GetButtonLeds a"
| "animation_GetButtonLeds (APaused a) = pa_GetButtonLeds a"
| "animation_GetButtonLeds (AEnd a) = end_GetButtonLeds a"

definition sm_GetColors :: "uniform \<Rightarrow> clock \<Rightarrow> StateMachine \<Rightarrow> (colors \<times> StateMachine) res" where
  "sm_GetColors u clk m =
     with_state m (\<lambda>a. bind_res (animation_GetColors u clk a) (\<lambda>(c, a'). Inr (c, m\<lparr>sm_state := Some a'\<rparr>)))"

definition sm_GetSegmentLed :: "clock \<Rightarrow> StateMachine \<Rightarrow> SegmentLedState res" where
  "sm_GetSegmentLed clk m = with_state m (animation_GetSegmentLed clk)"

definition sm_GetButtonLeds :: "StateMachine \<Rightarrow> button_leds res" where
  "sm_GetButtonLeds m = with_state m (\<lambda>a. Inr (animation_GetButtonLeds a))"

end
