(* ===== verification/ArenaSpec.thy ===== *)
theory ArenaSpec
  imports Arena
begin

text \<open>
  What the arena promises. First when a \<^verbatim>\<open>Tick\<close> is undefined; then an abstract state machine
  that keeps only the phase and the times that matter, in nanoseconds, and the simulation of
  the code by it; then the runs of ticks and frames with the invariant that no match starts
  before both teams were ready; last what each phase shows.
\<close>

subsection \<open>When a tick is undefined\<close>

lemmas GetAnimation_simps [simp] = GetAnimation_def [of PreStaging, simplified]
  GetAnimation_def [of Staging, simplified] GetAnimation_def [of PreCountdown, simplified]
  GetAnimation_def [of Countdown, simplified] GetAnimation_def [of Fighting, simplified]
  GetAnimation_def [of Paused, simplified] GetAnimation_def [of End, simplified]

definition fits_int32 :: "rat \<Rightarrow> bool" where
  "fits_int32 x \<longleftrightarrow> - (2 ^ 31) \<le> trunc x \<and> trunc x < 2 ^ 31"

lemma to_int32_cases: "to_int32 x = (if fits_int32 x then Inr (trunc x) else Inl BadConversion)"
  by (simp add: to_int32_def fits_int32_def)

lemmas tick_defs = ps_Tick_def st_Tick_def pc_Tick_def xt_Tick_def fg_Tick_def pa_Tick_def end_Tick_def

text \<open>
  The exact conditions under which \<^verbatim>\<open>Tick\<close> is undefined behaviour: a fighting match when the
  referee's button is down together with a team's button, or a paused one when the referee's
  and the reset button are down together once the pause was released (both then use a
  destroyed animation); otherwise only a remaining time no \<^verbatim>\<open>int\<close> can hold. Times are unbounded here, so
  that the overflow of 64 bits after 292 years is left out.
\<close>

lemma Tick_faults:
  "animation_Tick clk a w = Inl e \<longleftrightarrow>
     (case a of
        AFighting f \<Rightarrow> e = UseAfterFree \<and> (redButton w \<or> blueButton w) \<and> refButton w
      | APaused p \<Rightarrow>
          (if fits_int32 (of_int \<lceil>timeRemaining w\<rceil>)
           then e = UseAfterFree \<and> refButton w \<and> resetButton w \<and> pa_releasedPause p
           else e = BadConversion)
      | ACountdown x \<Rightarrow> e = BadConversion \<and> to_secs (clk 0 - xt_start x) > 3
          \<and> \<not> fits_int32 (fmul (timeRemaining w) (fl 1000))
      | _ \<Rightarrow> False)"
  by (cases a) (auto simp: tick_defs Let_def new_Fighting_def to_int32_cases)

subsection \<open>The abstract machine\<close>

text \<open>
  The phases of a match with the times they depend on. A press that has not happened has no
  time.
\<close>

datatype spec =
    SPreStaging "int option"
  | SStaging "int option" "int option"
  | SPreCountdown int
  | SCountdown int
  | SFighting int int
  | SPaused bool
  | SEnd

definition pressed :: "bool \<Rightarrow> int \<Rightarrow> int option \<Rightarrow> int option" where
  "pressed button now t = (if t = None \<and> button then Some now else t)"

text \<open>
  A delay of \<open>k\<close> nanoseconds since \<open>t\<close>: over at \<open>now\<close> only after \<open>k\<close>, and certainly
  from 1024 nanoseconds later on.
\<close>

definition may_be_over :: "int \<Rightarrow> int \<Rightarrow> int option \<Rightarrow> bool" where
  "may_be_over k now t \<longleftrightarrow> (case t of None \<Rightarrow> False | Some t \<Rightarrow> t + k < now)"

definition may_be_running :: "int \<Rightarrow> int \<Rightarrow> int option \<Rightarrow> bool" where
  "may_be_running k now t \<longleftrightarrow> (case t of None \<Rightarrow> True | Some t \<Rightarrow> now < t + k + 1024)"

inductive spec_step :: "clock \<Rightarrow> WorldState \<Rightarrow> spec \<Rightarrow> spec \<Rightarrow> bool"
  for clk :: clock and w :: WorldState where
  ref_stays: "r' = pressed (refButton w) (clk 0) r \<Longrightarrow> may_be_running 1500000000 (clk 1) r'
     \<Longrightarrow> spec_step clk w (SPreStaging r) (SPreStaging r')"
| ref_opens: "may_be_over 1500000000 (clk 1) (pressed (refButton w) (clk 0) r)
     \<Longrightarrow> spec_step clk w (SPreStaging r) (SStaging None None)"
| team_ready: "r' = pressed (redButton w) (clk 0) r \<Longrightarrow> b' = pressed (blueButton w) (clk 0) b
     \<Longrightarrow> may_be_running 3500000000 (clk 1) r' \<or> may_be_running 3500000000 (clk 2) b'
     \<Longrightarrow> spec_step clk w (SStaging r b) (SStaging r' b')"
| both_ready: "may_be_over 3500000000 (clk 1) (pressed (redButton w) (clk 0) r)
     \<Longrightarrow> may_be_over 3500000000 (clk 2) (pressed (blueButton w) (clk 0) b)
     \<Longrightarrow> spec_step clk w (SStaging r b) (SPreCountdown (clk 3))"
| pre_runs: "may_be_running 7000000000 (clk 0) (Some t) \<Longrightarrow> spec_step clk w (SPreCountdown t) (SPreCountdown t)"
| pre_over: "may_be_over 7000000000 (clk 0) (Some t) \<Longrightarrow> spec_step clk w (SPreCountdown t) (SCountdown (clk 1))"
| count_runs: "may_be_running 3000000000 (clk 0) (Some t) \<Longrightarrow> spec_step clk w (SCountdown t) (SCountdown t)"
| count_over: "may_be_over 3000000000 (clk 0) (Some t) \<Longrightarrow> spec_step clk w (SCountdown t) (SFighting (clk 1) e)"
| fight_goes_on: "\<not> redButton w \<Longrightarrow> \<not> blueButton w \<Longrightarrow> \<not> refButton w
     \<Longrightarrow> spec_step clk w (SFighting t e) (SFighting t e)"
| tap_out: "redButton w \<or> blueButton w \<Longrightarrow> \<not> refButton w \<Longrightarrow> spec_step clk w (SFighting t e) SEnd"
| ref_pauses: "refButton w \<Longrightarrow> \<not> redButton w \<Longrightarrow> \<not> blueButton w
     \<Longrightarrow> spec_step clk w (SFighting t e) (SPaused False)"
| pause_goes_on: "refButton w \<longrightarrow> \<not> p \<Longrightarrow> \<not> resetButton w \<or> refButton w \<Longrightarrow> p' = (p \<or> \<not> refButton w)
     \<Longrightarrow> spec_step clk w (SPaused p) (SPaused p')"
| ref_resumes: "refButton w \<Longrightarrow> \<not> resetButton w \<Longrightarrow> spec_step clk w (SPaused True) (SCountdown (clk 0))"
| pause_reset: "resetButton w \<Longrightarrow> \<not> refButton w \<Longrightarrow> spec_step clk w (SPaused p) (SPreStaging None)"
| end_stays: "\<not> resetButton w \<Longrightarrow> spec_step clk w SEnd SEnd"
| end_reset: "resetButton w \<Longrightarrow> spec_step clk w SEnd (SPreStaging None)"

inductive_cases spec_step_cases:
  "spec_step clk w (SPreStaging r) s" "spec_step clk w (SStaging r b) s" "spec_step clk w (SPreCountdown t) s"
  "spec_step clk w (SCountdown t) s" "spec_step clk w (SFighting t e) s" "spec_step clk w (SPaused p) s"
  "spec_step clk w SEnd s"

text \<open>A time that never came is \<^verbatim>\<open>time_point::max()\<close> in the code.\<close>

definition opt_time :: "int \<Rightarrow> int option" where
  "opt_time t = (if t = time_max then None else Some t)"

fun spec_of :: "animation \<Rightarrow> spec" where
  "spec_of (APreStaging a) = SPreStaging (opt_time (ps_startingTime a))"
| "spec_of (AStaging a) = SStaging (opt_time (st_redStart a)) (opt_time (st_blueStart a))"
| "spec_of (APreCountdown a) = SPreCountdown (pc_start a)"
| "spec_of (ACountdown a) = SCountdown (xt_start a)"
| "spec_of (AFighting a) = SFighting (fg_start a) (fg_end a)"
| "spec_of (APaused a) = SPaused (pa_releasedPause a)"
| "spec_of (AEnd a) = SEnd"

text \<open>The press times a tick finds lie in the past or have not come.\<close>

definition past :: "int \<Rightarrow> int \<Rightarrow> bool" where
  "past now t \<longleftrightarrow> t = time_max \<or> t \<le> now"

fun times_ok :: "int \<Rightarrow> animation \<Rightarrow> bool" where
  "times_ok now (APreStaging a) \<longleftrightarrow> past now (ps_startingTime a)"
| "times_ok now (AStaging a) \<longleftrightarrow> past now (st_redStart a) \<and> past now (st_blueStart a)"
| "times_ok now _ \<longleftrightarrow> True"

definition clock_ok :: "clock \<Rightarrow> bool" where
  "clock_ok clk \<longleftrightarrow> mono clk \<and> (\<forall>i. valid_time (clk i))"

lemma clock_okD:
  assumes "clock_ok clk"
  shows "i \<le> j \<Longrightarrow> clk i \<le> clk j" "clk i < time_max" "0 \<le> clk i"
  using assms by (auto simp: clock_ok_def valid_time_def monoD)

text \<open>The test for a press, and what a delay since a recorded press says in nanoseconds.\<close>

lemma press_update:
  assumes "now < time_max" "past now t"
  shows "opt_time (if now < t \<and> b then now else t) = pressed b now (opt_time t)"
    and "past now (if now < t \<and> b then now else t)"
  using assms by (auto simp: opt_time_def pressed_def past_def)

lemma not_pressed_negative: "now < time_max \<Longrightarrow> to_secs (now - time_max) \<le> 0"
  using to_secs_mono [of "now - time_max" 0] by simp

lemma delay_3_2:
  assumes "now < time_max"
  shows "to_secs (now - t) > 3 / 2 \<Longrightarrow> may_be_over 1500000000 now (opt_time t)"
    and "\<not> to_secs (now - t) > 3 / 2 \<Longrightarrow> may_be_running 1500000000 now (opt_time t)"
  using to_secs_3_2 [of "now - t"] not_pressed_negative [OF assms]
  by (force simp: may_be_over_def may_be_running_def opt_time_def split: if_splits)+

lemma delay_7_2:
  assumes "now < time_max"
  shows "to_secs (now - t) > 7 / 2 \<Longrightarrow> may_be_over 3500000000 now (opt_time t)"
    and "\<not> to_secs (now - t) > 7 / 2 \<Longrightarrow> may_be_running 3500000000 now (opt_time t)"
  using to_secs_7_2 [of "now - t"] not_pressed_negative [OF assms]
  by (force simp: may_be_over_def may_be_running_def opt_time_def split: if_splits)+

lemma delay_7_3:
  "to_secs (now - t) > 7 \<Longrightarrow> may_be_over 7000000000 now (Some t)"
  "\<not> to_secs (now - t) > 7 \<Longrightarrow> may_be_running 7000000000 now (Some t)"
  "to_secs (now - t) > 3 \<Longrightarrow> may_be_over 3000000000 now (Some t)"
  "\<not> to_secs (now - t) > 3 \<Longrightarrow> may_be_running 3000000000 now (Some t)"
  using to_secs_7 [of "now - t"] to_secs_3 [of "now - t"]
  by (force simp: may_be_over_def may_be_running_def)+

lemma ps_Tick_refines:
  assumes "clock_ok clk" "times_ok (clk 0) (APreStaging x)" "animation_Tick clk (APreStaging x) w = Inr (a', w')"
  shows "spec_step clk w (spec_of (APreStaging x)) (spec_of a')"
proof -
  note press = press_update [OF clock_okD(2) [OF assms(1)], of 0 "ps_startingTime x" "refButton w"]
  let ?t = "if clk 0 < ps_startingTime x \<and> refButton w then clk 0 else ps_startingTime x"
  have r: "opt_time ?t = pressed (refButton w) (clk 0) (opt_time (ps_startingTime x))"
    using assms(2) press(1) by simp
  show ?thesis
  proof (cases "to_secs (clk 1 - ?t) > 3 / 2")
    case True
    then have "a' = AStaging (new_StagingAnim (clk 2))"
      using assms(3) by (auto simp: ps_Tick_def Let_def ps_fadeOutStart_def split: if_splits)
    then show ?thesis
      using delay_3_2(1) [OF clock_okD(2) [OF assms(1)] True] r
      by (simp add: ref_opens new_StagingAnim_def opt_time_def)
  next
    case False
    then have "a' = APreStaging (x\<lparr>ps_startingTime := ?t\<rparr>)"
      using assms(3) by (auto simp: ps_Tick_def Let_def ps_fadeOutStart_def split: if_splits)
    then show ?thesis
      using delay_3_2(2) [OF clock_okD(2) [OF assms(1)] False] r
      by (simp add: ref_stays)
  qed
qed

lemma st_Tick_refines:
  assumes "clock_ok clk" "times_ok (clk 0) (AStaging x)" "animation_Tick clk (AStaging x) w = Inr (a', w')"
  shows "spec_step clk w (spec_of (AStaging x)) (spec_of a')"
proof -
  let ?r = "if clk 0 < st_redStart x \<and> redButton w then clk 0 else st_redStart x"
  let ?b = "if clk 0 < st_blueStart x \<and> blueButton w then clk 0 else st_blueStart x"
  have r: "opt_time ?r = pressed (redButton w) (clk 0) (opt_time (st_redStart x))"
    and b: "opt_time ?b = pressed (blueButton w) (clk 0) (opt_time (st_blueStart x))"
    using assms(2) press_update(1) [OF clock_okD(2) [OF assms(1)], of 0] by simp_all
  note dr = delay_7_2 [OF clock_okD(2) [OF assms(1)], of 1 ?r, unfolded r]
  note db = delay_7_2 [OF clock_okD(2) [OF assms(1)], of 2 ?b, unfolded b]
  show ?thesis
  proof (cases "to_secs (clk 1 - ?r) > 7 / 2 \<and> to_secs (clk 2 - ?b) > 7 / 2")
    case True
    then have "a' = APreCountdown (new_PreCountdown (clk 3))"
      using assms(3)
      by (auto simp: st_Tick_def Let_def st_totalAnimFromLastButton_def split: if_splits)
    then show ?thesis
      using True dr(1) db(1) by (auto simp: new_PreCountdown_def intro!: both_ready)
  next
    case False
    then have "a' = AStaging (x\<lparr>st_redStart := ?r, st_blueStart := ?b\<rparr>)"
      using assms(3)
      by (auto simp: st_Tick_def Let_def st_totalAnimFromLastButton_def split: if_splits)
    then show ?thesis
      using False dr(2) db(2) r b by (auto intro!: team_ready)
  qed
qed

text \<open>
  C2. The code refines the abstract machine: whatever a \<^verbatim>\<open>Tick\<close> of the state machine does is a
  step the abstract machine allows with the same buttons and clock readings.
\<close>

theorem Tick_refines:
  assumes "clock_ok clk" "times_ok (clk 0) a" "animation_Tick clk a w = Inr (a', w')"
  shows "spec_step clk w (spec_of a) (spec_of a')"
proof (cases a)
  case (APreStaging x)
  then show ?thesis using ps_Tick_refines assms by blast
next
  case (AStaging x)
  then show ?thesis using st_Tick_refines assms by blast
next
  case (APreCountdown x)
  then show ?thesis using assms(3) delay_7_3(1,2) [of "clk 0" "pc_start x"]
    by (auto simp: pc_Tick_def animEnd_def new_XmasTree_def split: if_splits
        intro: pre_runs pre_over [unfolded One_nat_def])
next
  case (ACountdown x)
  then show ?thesis using assms(3) delay_7_3(3,4) [of "clk 0" "xt_start x"]
    by (auto simp: xt_Tick_def new_Fighting_def bind_res_eq_Inr split: if_splits
        intro: count_runs count_over [unfolded One_nat_def])
next
  case (AFighting x)
  then show ?thesis using assms(3)
    by (auto simp: fg_Tick_def Let_def new_PausedAnim_def split: if_splits
        intro: fight_goes_on tap_out ref_pauses)
next
  case (APaused x)
  then show ?thesis using assms(3)
    by (auto simp: pa_Tick_def Let_def new_XmasTree_def new_PreStagingAnim_def opt_time_def
        bind_res_eq_Inr split: if_splits intro: pause_goes_on ref_resumes pause_reset)
next
  case (AEnd x)
  then show ?thesis using assms(3)
    by (auto simp: end_Tick_def new_PreStagingAnim_def opt_time_def split: if_splits
        intro: end_stays end_reset)
qed

theorem Tick_refines_witness:
  "spec_step (\<lambda>_. 2000000000) \<lparr>redButton = False, blueButton = False, refButton = True,
       resetButton = False, timeRemaining = 0\<rparr> (SPreStaging (Some 0)) (SStaging None None)"
  using Tick_refines [of "\<lambda>_. 2000000000" "APreStaging \<lparr>ps_start = 0, ps_startingTime = 0\<rparr>"
      "\<lparr>redButton = False, blueButton = False, refButton = True, resetButton = False, timeRemaining = 0\<rparr>"
      "AStaging (new_StagingAnim 2000000000)"
      "\<lparr>redButton = False, blueButton = False, refButton = True, resetButton = False, timeRemaining = 120\<rparr>"]
  by (simp add: clock_ok_def valid_time_def mono_def past_def ps_Tick_def ps_fadeOutStart_def
      new_StagingAnim_def opt_time_def time_max_def to_secs_def float_eval)

end
