(* ===== verification/ArenaRuns.thy ===== *)
theory ArenaRuns
  imports ArenaSpec
begin

text \<open>
  Runs of the arena: ticks with arbitrary buttons and frames drawn in between, under a clock
  that does not go back. Ghost fields record when each team signalled ready in the current
  staging and whether the match was paused since. The invariant gives the safety of a match
  start, the length of a match and the power budget of every frame of a run.
\<close>

subsection \<open>Runs\<close>

record arena =
  ar_anim :: animation
  ar_world :: WorldState
  ar_now :: int
  ar_red :: "int option"
  ar_blue :: "int option"
  ar_paused :: bool

definition read_buttons :: "bool \<Rightarrow> bool \<Rightarrow> bool \<Rightarrow> bool \<Rightarrow> WorldState \<Rightarrow> WorldState" where
  "read_buttons r b f z w =
     w\<lparr>redButton := r, blueButton := b, refButton := f, resetButton := z\<rparr>"

definition note_ready :: "animation \<Rightarrow> bool \<Rightarrow> int \<Rightarrow> int option \<Rightarrow> int option" where
  "note_ready a button now t =
     (case a of APreStaging _ \<Rightarrow> None | AStaging _ \<Rightarrow> pressed button now t | _ \<Rightarrow> t)"

definition note_pause :: "animation \<Rightarrow> bool \<Rightarrow> bool" where
  "note_pause a p = (case a of AStaging _ \<Rightarrow> False | APaused _ \<Rightarrow> True | _ \<Rightarrow> p)"

text \<open>
  A frame of the pre-countdown is drawn within \<open>2 ^ 13\<close> seconds of its start; the main loop ticks
  before every frame, and the tick leaves the pre-countdown after seven.
\<close>

fun frame_in_time :: "int \<Rightarrow> animation \<Rightarrow> bool" where
  "frame_in_time now (APreCountdown a) \<longleftrightarrow> to_secs (now - pc_start a) \<le> 2 ^ 13"
| "frame_in_time now _ \<longleftrightarrow> True"

inductive arena_step :: "uniform \<Rightarrow> arena \<Rightarrow> arena \<Rightarrow> bool" for u :: uniform where
  tick: "clock_ok clk \<Longrightarrow> ar_now s \<le> clk 0 \<Longrightarrow> w = read_buttons r b f z (ar_world s)
    \<Longrightarrow> animation_Tick clk (ar_anim s) w = Inr (a', w')
    \<Longrightarrow> arena_step u s \<lparr>ar_anim = a', ar_world = w', ar_now = clk 4,
          ar_red = note_ready (ar_anim s) r (clk 0) (ar_red s),
          ar_blue = note_ready (ar_anim s) b (clk 0) (ar_blue s),
          ar_paused = note_pause a' (ar_paused s)\<rparr>"
| frame: "valid_time (clk 0) \<Longrightarrow> ar_now s \<le> clk 0 \<Longrightarrow> frame_in_time (clk 0) (ar_anim s)
    \<Longrightarrow> animation_GetColors u clk (ar_anim s) = Inr (cs, a')
    \<Longrightarrow> arena_step u s (s\<lparr>ar_anim := a', ar_now := clk 0\<rparr>)"

definition arena_start :: "int \<Rightarrow> WorldState \<Rightarrow> arena" where
  "arena_start now w = \<lparr>ar_anim = APreStaging (new_PreStagingAnim now), ar_world = w, ar_now = now,
     ar_red = None, ar_blue = None, ar_paused = False\<rparr>"

inductive reachable :: "uniform \<Rightarrow> arena \<Rightarrow> bool" for u :: uniform where
  start: "valid_time now \<Longrightarrow> reachable u (arena_start now w)"
| step: "reachable u s \<Longrightarrow> arena_step u s s' \<Longrightarrow> reachable u s'"

subsection \<open>The invariant\<close>

text \<open>Both teams signalled ready before a time.\<close>

definition ready_before :: "int \<Rightarrow> int option \<Rightarrow> int option \<Rightarrow> bool" where
  "ready_before T r b \<longleftrightarrow> (\<exists>tr tb. r = Some tr \<and> b = Some tb \<and> tr < T \<and> tb < T)"

definition phase_inv :: "animation \<Rightarrow> rat \<Rightarrow> int option \<Rightarrow> int option \<Rightarrow> bool \<Rightarrow> bool" where
  "phase_inv a remaining r b p \<longleftrightarrow>
     (case a of
        AStaging x \<Rightarrow> r = opt_time (st_redStart x) \<and> b = opt_time (st_blueStart x) \<and> remaining = 120 \<and> \<not> p
      | APreCountdown x \<Rightarrow> ready_before (pc_start x - 3500000000) r b \<and> remaining = 120 \<and> \<not> p \<and> pc_wf x
      | ACountdown x \<Rightarrow> ready_before (xt_start x - 10500000000) r b \<and> (\<not> p \<longrightarrow> remaining = 120)
          \<and> xt_dootRegion x = dootRegions
      | AFighting x \<Rightarrow> ready_before (fg_start x - 13500000000) r b
          \<and> (\<not> p \<longrightarrow> fg_end x = fg_start x + 120000000000)
      | APaused x \<Rightarrow> p \<and> ready_before (pa_start x - 13500000000) r b
      | _ \<Rightarrow> True)"

fun started_by :: "int \<Rightarrow> animation \<Rightarrow> bool" where
  "started_by now (APreCountdown a) \<longleftrightarrow> pc_start a \<le> now"
| "started_by now (ACountdown a) \<longleftrightarrow> xt_start a \<le> now"
| "started_by now (AFighting a) \<longleftrightarrow> fg_start a \<le> now"
| "started_by now (APaused a) \<longleftrightarrow> pa_start a \<le> now"
| "started_by now _ \<longleftrightarrow> True"

definition arena_inv :: "arena \<Rightarrow> bool" where
  "arena_inv s \<longleftrightarrow> times_ok (ar_now s) (ar_anim s) \<and> started_by (ar_now s) (ar_anim s)
     \<and> phase_inv (ar_anim s) (timeRemaining (ar_world s)) (ar_red s) (ar_blue s) (ar_paused s)"

lemma arena_start_inv: "arena_inv (arena_start now w)"
  by (simp add: arena_inv_def arena_start_def new_PreStagingAnim_def phase_inv_def past_def)

lemma ready_before_mono: "ready_before T r b \<Longrightarrow> T \<le> T' \<Longrightarrow> ready_before T' r b"
  by (force simp: ready_before_def)

lemma past_mono: "past now t \<Longrightarrow> now \<le> now' \<Longrightarrow> past now' t"
  by (auto simp: past_def)

lemma times_ok_mono: "times_ok now a \<Longrightarrow> now \<le> now' \<Longrightarrow> times_ok now' a"
  by (cases a) (auto intro: past_mono)

lemma started_by_mono: "started_by now a \<Longrightarrow> now \<le> now' \<Longrightarrow> started_by now' a"
  by (cases a) auto

text \<open>One lemma per phase: the tick of the phase keeps the invariant.\<close>

lemma st_Tick_inv:
  assumes clk: "clock_ok clk" and ok: "times_ok (clk 0) (AStaging x)"
    and inv: "phase_inv (AStaging x) (timeRemaining w) rd bl p"
    and tick: "st_Tick clk x w = Inr (a', w')"
  shows "times_ok (clk 4) a' \<and> started_by (clk 4) a'
    \<and> phase_inv a' (timeRemaining w') (pressed (redButton w) (clk 0) rd)
         (pressed (blueButton w) (clk 0) bl) (note_pause a' p)"
proof -
  let ?r = "if clk 0 < st_redStart x \<and> redButton w then clk 0 else st_redStart x"
  let ?b = "if clk 0 < st_blueStart x \<and> blueButton w then clk 0 else st_blueStart x"
  have r: "opt_time ?r = pressed (redButton w) (clk 0) rd" "past (clk 0) ?r"
    and b: "opt_time ?b = pressed (blueButton w) (clk 0) bl" "past (clk 0) ?b"
    using ok inv press_update [OF clock_okD(2) [OF clk], of 0] by (simp_all add: phase_inv_def)
  have c: "clk 0 \<le> clk 4" "clk 3 \<le> clk 4" "clk 1 \<le> clk 3" "clk 2 \<le> clk 3"
    by (rule clock_okD(1) [OF clk], simp)+
  show ?thesis
  proof (cases "to_secs (clk 1 - ?r) > 7 / 2 \<and> to_secs (clk 2 - ?b) > 7 / 2")
    case True
    then have a': "a' = APreCountdown (new_PreCountdown (clk 3))" "w' = w"
      using tick by (auto simp: st_Tick_def Let_def st_totalAnimFromLastButton_def split: if_splits)
    have "may_be_over 3500000000 (clk 1) (pressed (redButton w) (clk 0) rd)"
      "may_be_over 3500000000 (clk 2) (pressed (blueButton w) (clk 0) bl)"
      using True delay_7_2(1) [OF clock_okD(2) [OF clk]] r(1) b(1) by metis+
    then have "ready_before (clk 3 - 3500000000) (pressed (redButton w) (clk 0) rd)
        (pressed (blueButton w) (clk 0) bl)"
      using c by (auto simp: may_be_over_def ready_before_def split: option.splits)
    then show ?thesis
      using inv c new_PreCountdown_wf [of "clk 3"]
      by (simp add: a' phase_inv_def note_pause_def) (simp add: new_PreCountdown_def)
  next
    case False
    then have a': "a' = AStaging (x\<lparr>st_redStart := ?r, st_blueStart := ?b\<rparr>)" "w' = w"
      using tick by (auto simp: st_Tick_def Let_def st_totalAnimFromLastButton_def split: if_splits)
    show ?thesis
      using inv r b past_mono [OF r(2) c(1)] past_mono [OF b(2) c(1)]
      by (simp add: a' phase_inv_def note_pause_def)
  qed
qed

lemma ps_Tick_inv:
  assumes clk: "clock_ok clk" and ok: "times_ok (clk 0) (APreStaging x)"
    and tick: "ps_Tick clk x w = Inr (a', w')"
  shows "times_ok (clk 4) a' \<and> started_by (clk 4) a'
    \<and> phase_inv a' (timeRemaining w') None None (note_pause a' p)"
  using tick ok clock_okD(1) [OF clk, of 0 4]
  by (auto simp: ps_Tick_def Let_def new_StagingAnim_def past_def phase_inv_def note_pause_def opt_time_def
      split: if_splits)

lemma late_Tick_inv:
  assumes clk: "clock_ok clk" and "started_by (clk 0) a"
    and inv: "phase_inv a (timeRemaining w) rd bl p"
    and tick: "animation_Tick clk a w = Inr (a', w')"
    and late: "\<And>x. a \<noteq> APreStaging x" "\<And>x. a \<noteq> AStaging x"
  shows "times_ok (clk 4) a' \<and> started_by (clk 4) a'
    \<and> phase_inv a' (timeRemaining w') rd bl (note_pause a' p)"
proof -
  have c: "clk 0 \<le> clk 1" "clk 1 \<le> clk 4" "clk 0 \<le> clk 4"
    by (rule clock_okD(1) [OF clk], simp)+
  show ?thesis
  proof (cases a)
    case (APreCountdown x)
    then show ?thesis using tick inv assms(2) c to_secs_7(1) [of "clk 0 - pc_start x"]
      by (auto simp: pc_Tick_def animEnd_def phase_inv_def note_pause_def new_XmasTree_def
          split: if_splits elim!: ready_before_mono)
  next
    case (ACountdown x)
    then show ?thesis using tick inv assms(2) c to_secs_3(1) [of "clk 0 - xt_start x"]
      by (auto simp: xt_Tick_def phase_inv_def note_pause_def bind_res_eq_Inr new_Fighting_full
          split: if_splits elim!: ready_before_mono) 
        (auto simp: new_Fighting_def bind_res_eq_Inr elim!: ready_before_mono)
  next
    case (AFighting x)
    then show ?thesis using tick inv assms(2) c
      by (auto simp: fg_Tick_def Let_def phase_inv_def note_pause_def new_PausedAnim_def
          split: if_splits elim!: ready_before_mono)
  next
    case (APaused x)
    then show ?thesis using tick inv assms(2) c
      by (auto simp: pa_Tick_def Let_def phase_inv_def note_pause_def new_XmasTree_def
          new_PreStagingAnim_def past_def bind_res_eq_Inr split: if_splits elim!: ready_before_mono)
  next
    case (AEnd x)
    then show ?thesis using tick
      by (auto simp: end_Tick_def phase_inv_def new_PreStagingAnim_def past_def split: if_splits)
  qed (use late in auto)
qed

lemma tick_inv:
  assumes "arena_inv s" "clock_ok clk" "ar_now s \<le> clk 0" "w = read_buttons r b f z (ar_world s)"
    and tick: "animation_Tick clk (ar_anim s) w = Inr (a', w')"
  shows "arena_inv \<lparr>ar_anim = a', ar_world = w', ar_now = clk 4,
          ar_red = note_ready (ar_anim s) r (clk 0) (ar_red s),
          ar_blue = note_ready (ar_anim s) b (clk 0) (ar_blue s),
          ar_paused = note_pause a' (ar_paused s)\<rparr>"
proof -
  have ok: "times_ok (clk 0) (ar_anim s)" "started_by (clk 0) (ar_anim s)"
    "phase_inv (ar_anim s) (timeRemaining w) (ar_red s) (ar_blue s) (ar_paused s)"
    using assms(1,3,4) by (auto simp: arena_inv_def read_buttons_def intro: times_ok_mono started_by_mono)
  have w: "redButton w = r" "blueButton w = b" using assms(4) by (simp_all add: read_buttons_def)
  show ?thesis
  proof (cases "ar_anim s")
    case (APreStaging x)
    then show ?thesis using ps_Tick_inv [OF assms(2), of x w a' w'] tick ok
      by (simp add: arena_inv_def note_ready_def)
  next
    case (AStaging x)
    then show ?thesis using st_Tick_inv [OF assms(2), of x w "ar_red s" "ar_blue s" _ a' w'] tick ok
      by (simp add: arena_inv_def note_ready_def w)
  qed (use late_Tick_inv [OF assms(2) ok(2,3) tick] in \<open>simp_all add: arena_inv_def note_ready_def\<close>)
qed

text \<open>Drawing a frame keeps the animation up to the history of the particles.\<close>

lemma GetColors_inv:
  assumes "uniform_ok u" "phase_inv a t rd bl p" "frame_in_time (clk 0) a"
  shows "\<exists>cs a'. animation_GetColors u clk a = Inr (cs, a') \<and> frame_within MaxLightCounts cs
     \<and> phase_inv a' t rd bl p
     \<and> (times_ok now a \<longrightarrow> times_ok now a') \<and> (started_by now a \<longrightarrow> started_by now a')"
proof (cases a)
  case (APreStaging x)
  have "frame_within MaxLightCounts cs" if "frame_within MidLightCounts cs" for cs
    using that by (force simp: frame_within_def MaxLightCounts_def MidLightCounts_def)
  then show ?thesis using ps_GetColors_ok [of "clk 0" x] assms(2) APreStaging by auto
next
  case (AStaging x)
  then show ?thesis using st_GetColors_ok [of "clk 0" x] assms(2) by auto
next
  case (APreCountdown x)
  then have "pc_wf x" "to_secs (clk 0 - pc_start x) \<le> 2 ^ 13"
    using assms(2,3) by (simp_all add: phase_inv_def)
  from pc_GetColors_ok [OF assms(1) this] show ?thesis
    using assms(2) APreCountdown by (auto simp: phase_inv_def)
next
  case (ACountdown x)
  then show ?thesis using xt_GetColors_ok [of x "clk 0"] assms(2) by (auto simp: phase_inv_def)
next
  case (AFighting x)
  then show ?thesis using fg_GetColors_ok [of "clk 0" x] assms(2) by auto
next
  case (APaused x)
  then show ?thesis using pa_GetColors_ok [of "clk 0" x] assms(2) by auto
next
  case (AEnd x)
  then show ?thesis using end_GetColors_ok [of "clk 0" x] assms(2) by auto
qed

lemma arena_step_inv:
  assumes "uniform_ok u" "arena_step u s s'" "arena_inv s"
  shows "arena_inv s'"
  using assms(2)
proof (cases rule: arena_step.cases)
  case (tick clk w r b f z a' w')
  with tick_inv [OF assms(3)] show ?thesis by blast
next
  case (frame clk cs a')
  have ok: "times_ok (clk 0) (ar_anim s)" "started_by (clk 0) (ar_anim s)"
    "phase_inv (ar_anim s) (timeRemaining (ar_world s)) (ar_red s) (ar_blue s) (ar_paused s)"
    using assms(3) frame(3) by (auto simp: arena_inv_def intro: times_ok_mono started_by_mono)
  from GetColors_inv [where clk = clk and now = "clk 0", OF assms(1) ok(3) frame(4)] ok show ?thesis
    unfolding frame(1) using frame(5) by (auto simp: arena_inv_def)
qed

lemma reachable_inv:
  assumes "uniform_ok u" "reachable u s"
  shows "arena_inv s"
  using assms(2)
proof induction
  case (start now w)
  show ?case by (rule arena_start_inv)
next
  case (step s s')
  then show ?case using arena_step_inv [OF assms(1)] by blast
qed

subsection \<open>Concrete runs\<close>

text \<open>Ticks with a still clock: the time of each, and the buttons red, blue, referee, reset.\<close>

definition tick_at :: "int \<times> bool \<times> bool \<times> bool \<times> bool \<Rightarrow> arena \<Rightarrow> arena res" where
  "tick_at e s = (case e of (t, r, b, f, z) \<Rightarrow>
     bind_res (animation_Tick (\<lambda>_. t) (ar_anim s) (read_buttons r b f z (ar_world s))) (\<lambda>(a', w').
       Inr \<lparr>ar_anim = a', ar_world = w', ar_now = t,
            ar_red = note_ready (ar_anim s) r t (ar_red s),
            ar_blue = note_ready (ar_anim s) b t (ar_blue s),
            ar_paused = note_pause a' (ar_paused s)\<rparr>))"

fun ticks_at :: "(int \<times> bool \<times> bool \<times> bool \<times> bool) list \<Rightarrow> arena \<Rightarrow> arena res" where
  "ticks_at [] s = Inr s"
| "ticks_at (e # es) s =
     (if valid_time (fst e) \<and> ar_now s \<le> fst e then bind_res (tick_at e s) (ticks_at es)
      else Inl Diverges)"

lemma ticks_at_reachable: "reachable u s \<Longrightarrow> ticks_at es s = Inr s' \<Longrightarrow> reachable u s'"
proof (induction es arbitrary: s)
  case Nil
  then show ?case by simp
next
  case (Cons e es)
  obtain t r b f z where e: "e = (t, r, b, f, z)" by (cases e)
  obtain s1 where s1: "tick_at e s = Inr s1" "ticks_at es s1 = Inr s'" "valid_time t" "ar_now s \<le> t"
    using Cons.prems(2) by (auto simp: bind_res_eq_Inr e split: if_splits)
  have "clock_ok (\<lambda>_. t)" using s1(3) by (simp add: clock_ok_def mono_def)
  then have "arena_step u s s1"
    using s1(1,4) arena_step.tick [of "\<lambda>_. t" s _ r b f z]
    by (auto simp: tick_at_def e bind_res_eq_Inr)
  then show ?case using Cons.IH s1(2) Cons.prems(1) reachable.step by blast
qed

text \<open>A first match: the referee opens, both teams press, and the fight begins.\<close>

definition sample_world :: WorldState where
  "sample_world = \<lparr>redButton = False, blueButton = False, refButton = False, resetButton = False,
     timeRemaining = 0\<rparr>"

definition sample_opening :: "(int \<times> bool \<times> bool \<times> bool \<times> bool) list" where
  "sample_opening = [(1000000000, False, False, True, False), (3000000000, False, False, False, False),
     (4000000000, True, True, False, False), (8000000000, False, False, False, False),
     (16000000000, False, False, False, False), (20000000000, False, False, False, False)]"

definition sample_fight :: arena where
  "sample_fight = \<lparr>ar_anim = AFighting \<lparr>fg_start = 20000000000, fg_end = 140000000000\<rparr>,
     ar_world = sample_world\<lparr>timeRemaining := 120\<rparr>, ar_now = 20000000000,
     ar_red = Some 4000000000, ar_blue = Some 4000000000, ar_paused = False\<rparr>"

lemmas sample_ticks = tick_at_def tick_defs Let_def read_buttons_def note_ready_def
  note_pause_def new_PreStagingAnim_def new_StagingAnim_def new_PreCountdown_def new_XmasTree_def
  new_Fighting_def to_int32_def pressed_def ps_fadeOutStart_def st_totalAnimFromLastButton_def animEnd_def
  time_max_def to_secs_def valid_time_def float_eval

lemma sample_opening_run: "ticks_at sample_opening (arena_start 0 sample_world) = Inr sample_fight"
  by (simp add: sample_opening_def arena_start_def sample_fight_def sample_world_def sample_ticks)

lemma sample_fight_reachable: "reachable u sample_fight"
  using ticks_at_reachable [OF reachable.start sample_opening_run] by (simp add: valid_time_def time_max_def)

definition sample_uniform :: uniform where
  "sample_uniform n lo hi = lo"

lemma sample_uniform_ok [simp]: "uniform_ok sample_uniform"
  by (simp add: uniform_ok_def sample_uniform_def)

subsection \<open>What holds in every run\<close>

text \<open>
  C1. No match starts before both teams signalled ready: in every run, while the match is
  fighting each team has pressed its button in this staging, more than 13.5 seconds
  (3.5 of staging, 7 of pre-countdown and 3 of countdown) before the fight began.
\<close>

theorem fight_needs_both_teams:
  assumes "uniform_ok u" "reachable u s" "ar_anim s = AFighting f"
  shows "\<exists>tr tb. ar_red s = Some tr \<and> ar_blue s = Some tb
           \<and> tr + 13500000000 < fg_start f \<and> tb + 13500000000 < fg_start f \<and> fg_start f \<le> ar_now s"
  using reachable_inv [OF assms(1,2)] assms(3)
  by (auto simp: arena_inv_def phase_inv_def ready_before_def)

theorem fight_needs_both_teams_witness:
  "\<exists>tr tb. ar_red sample_fight = Some tr \<and> ar_blue sample_fight = Some tb
     \<and> tr + 13500000000 < (20000000000 :: int) \<and> tb + 13500000000 < (20000000000 :: int)"
  using fight_needs_both_teams [OF sample_uniform_ok sample_fight_reachable,
      of "\<lparr>fg_start = 20000000000, fg_end = 140000000000\<rparr>"]
  by (simp add: sample_fight_def)

text \<open>
  An unpaused match lasts exactly two minutes: in every run, the end of a fight that was
  not paused since its staging is 120 seconds after its start, to the nanosecond.
\<close>

theorem fight_lasts_two_minutes:
  assumes "uniform_ok u" "reachable u s" "ar_anim s = AFighting f" "\<not> ar_paused s"
  shows "fg_end f = fg_start f + 120 * 1000000000"
  using reachable_inv [OF assms(1,2)] assms(3,4) by (auto simp: arena_inv_def phase_inv_def)

theorem fight_lasts_two_minutes_witness:
  "ar_anim sample_fight = AFighting \<lparr>fg_start = 20000000000, fg_end = 20000000000 + 120 * 1000000000\<rparr>"
  using fight_lasts_two_minutes [OF sample_uniform_ok sample_fight_reachable,
      of "\<lparr>fg_start = 20000000000, fg_end = 140000000000\<rparr>"]
  by (simp add: sample_fight_def)

text \<open>
  C4. Every frame of every run can be drawn and keeps to the power budget: no index leaves the
  field, no level leaves \<^verbatim>\<open>uint8_t\<close>, every loop ends, and no channel exceeds 120 light steps.
\<close>

theorem every_frame_in_budget:
  assumes "uniform_ok u" "reachable u s" "frame_in_time (clk 0) (ar_anim s)"
  shows "\<exists>cs a'. animation_GetColors u clk (ar_anim s) = Inr (cs, a') \<and> frame_within MaxLightCounts cs"
  using reachable_inv [OF assms(1,2)] GetColors_inv [where clk = clk, OF assms(1) _ assms(3)]
  unfolding arena_inv_def by blast

theorem every_frame_in_budget_witness:
  "\<exists>cs a'. animation_GetColors sample_uniform (\<lambda>_. 0) (ar_anim sample_fight) = Inr (cs, a')
     \<and> frame_within MaxLightCounts cs"
  by (rule every_frame_in_budget [OF sample_uniform_ok sample_fight_reachable])
    (simp add: sample_fight_def)

text \<open>
  In a run a \<^verbatim>\<open>Tick\<close> is undefined only for the double presses of a fighting or paused match
  or after a pause; in particular an unpaused match can always be ticked while at most one of
  the referee's and the teams' buttons is down.
\<close>

theorem unpaused_run_ticks:
  assumes "uniform_ok u" "reachable u s" "\<not> ar_paused s"
    and "\<not> (f \<and> (r \<or> b))" "\<And>x. ar_anim s \<noteq> APaused x"
  shows "\<exists>a' w'. animation_Tick clk (ar_anim s) (read_buttons r b f z (ar_world s)) = Inr (a', w')"
proof -
  let ?w = "read_buttons r b f z (ar_world s)"
  have "fits_int32 (fmul 120 (fl 1000))"
    by (simp add: fits_int32_def float_eval)
  moreover have "timeRemaining ?w = 120" if "ar_anim s = ACountdown x" for x
    using reachable_inv [OF assms(1,2)] assms(3) that
    by (auto simp: arena_inv_def phase_inv_def read_buttons_def)
  moreover have "redButton ?w = r" "blueButton ?w = b" "refButton ?w = f"
    by (simp_all add: read_buttons_def)
  ultimately show ?thesis using assms(4,5)
    by (cases "ar_anim s") (auto simp: tick_defs Let_def new_Fighting_def to_int32_cases)
qed

theorem unpaused_run_ticks_witness:
  "\<exists>a' w'. animation_Tick (\<lambda>_. 0) (ar_anim sample_fight)
     (read_buttons True False False False (ar_world sample_fight)) = Inr (a', w')"
  by (rule unpaused_run_ticks [OF sample_uniform_ok sample_fight_reachable]) (simp_all add: sample_fight_def)

end
