(* ===== verification/ArenaShow.thy ===== *)
theory ArenaShow
  imports ArenaRuns
begin

text \<open>
  What the spectators see: the properties of the light field, the clock display and the
  button lights in each phase of a match.
\<close>

subsection \<open>Staging and pre-countdown\<close>

lemma fade_not_begun:
  assumes "t \<le> 0"
  shows "clamp (fsub 1 (fdiv (fsub t st_fadeOutStart) st_fadeOutDuration)) 0 1 = 1"
proof -
  have c: "fl (- 3 / 2) = - 3 / 2" "fl (- 1) = - 1" "fl 2 = (2 :: rat)" by (simp_all add: float_eval)
  have "fsub t (3 / 2) \<le> - 3 / 2"
    unfolding fsub_def using fl_mono [of "t - 3 / 2" "- 3 / 2"] assms c(1) by simp
  then have "fdiv (fsub t (3 / 2)) (3 / 2) \<le> - 1"
    unfolding fdiv_def using fl_mono [of "fsub t (3 / 2) / (3 / 2)" "- 1"] c(2) by simp
  then have "2 \<le> fsub 1 (fdiv (fsub t (3 / 2)) (3 / 2))"
    unfolding fsub_def [of 1] using fl_mono [of 2 "1 - fdiv (fsub t (3 / 2)) (3 / 2)"] c(3) by simp
  then show ?thesis by (simp add: clamp_def st_fadeOutStart_def st_fadeOutDuration_def)
qed

lemma st_level_full:
  assumes "1 < t"
  shows "st_level t 1 = 1"
proof -
  have "1 * 1 \<le> t * t" using assms by (intro mult_mono) simp_all
  then have "1 \<le> fmul t t" unfolding fmul_def using binary32.rd_ge_int [of 1 "t * t"] by simp
  then have "clamp (fmul t t) 0 1 = 1" by (simp add: clamp_def)
  then show ?thesis using assms by (simp add: st_level_def Let_def nine_tenths_and_one)
qed

lemma st_level_unset: "t \<le> 0 \<Longrightarrow> st_level t 1 = fl (1 / 10)"
  using in_unit_fl [of "1 / 10"] by (simp add: st_level_def in_unit_def min_def)

lemma light_tenth: "light (fl (1 / 10)) MaxLightCounts = Inr 12"
  by (simp add: light_def MaxLightCounts_def to_uint8_def float_eval)

text \<open>
  During staging each half of the field tells whether its team is ready: when red pressed
  more than a second ago and blue has not pressed, the red half is at full brightness, the
  blue half glows at a tenth, and only blue's button is lit.
\<close>

theorem staging_shows_who_is_ready:
  assumes "clk 0 < time_max" "st_blueStart a = time_max" "st_redStart a + 1000001024 \<le> clk 0"
  shows "animation_GetColors u clk (AStaging a)
           = Inr (replicate 192 (rgb 120 0 0) @ replicate 192 (rgb 0 0 12), AStaging a)
       \<and> animation_GetButtonLeds (AStaging a) = (False, True)"
proof -
  let ?r = "to_secs (clk 0 - st_redStart a)" and ?b = "to_secs (clk 0 - st_blueStart a)"
  have b: "?b \<le> 0" using not_pressed_negative [OF assms(1)] assms(2) by simp
  have r: "1 < ?r" using assms(3) to_secs_1(2) [of "clk 0 - st_redStart a"] by simp
  have "min ?r ?b \<le> 0" using b by simp
  then have fade: "clamp (fsub 1 (fdiv (fsub (min ?r ?b) st_fadeOutStart) st_fadeOutDuration)) 0 1 = 1"
    by (rule fade_not_begun)
  have "st_GetColors (clk 0) a = Inr (replicate 192 (rgb 120 0 0) @ replicate 192 (rgb 0 0 12))"
    using st_GetColors_frame [of "clk 0" a]
    by (simp add: fade st_level_full [OF r] st_level_unset [OF b] light_tenth N_eq)
  then show ?thesis using assms by (simp add: st_GetButtonLeds_def)
qed

definition sample_staging :: StagingAnim where
  "sample_staging = \<lparr>st_start = 0, st_blueStart = time_max, st_redStart = 0\<rparr>"

theorem staging_shows_who_is_ready_witness:
  "animation_GetButtonLeds (AStaging sample_staging) = (False, True)"
  using staging_shows_who_is_ready [of "\<lambda>_. 2000000000" sample_staging "\<lambda>_ lo _. lo"]
  by (simp add: sample_staging_def time_max_def)

text \<open>
  The pre-countdown ends in the dark: between four and a half and five seconds the whole
  field is white at the maximal level, from six seconds on it is black, whatever the particles.
\<close>

theorem precountdown_white_then_dark:
  assumes "uniform_ok u" "pc_wf a" "to_secs (clk 0 - pc_start a) \<le> 2 ^ 13"
    and "9 / 2 \<le> to_secs (clk 0 - pc_start a)"
    and "to_secs (clk 0 - pc_start a) \<le> 5 \<or> 6 \<le> to_secs (clk 0 - pc_start a)"
  shows "\<exists>a'. animation_GetColors u clk (APreCountdown a)
    = Inr (replicate N (if to_secs (clk 0 - pc_start a) \<le> 5 then rgb 120 120 120 else rgb 0 0 0), APreCountdown a')"
proof -
  let ?t = "to_secs (clk 0 - pc_start a)"
  obtain cs ts a' where c: "pc_GetColors u (clk 0) a = Inr (cs, a')" "glow_frame ?t ts = Inr cs"
    using pc_GetColors_ok [OF assms(1,2,3)] by blast
  have "glow_frame ?t ts = Inr (replicate N (if ?t \<le> 5 then rgb 120 120 120 else rgb 0 0 0))"
  proof (cases "?t \<le> 5")
    case True
    with assms(4) show ?thesis using glow_frame_const [of ?t 1 120] by (simp add: glow_level_white)
  next
    case False
    with assms(5) show ?thesis using glow_frame_const [of ?t 0 0] by (simp add: glow_level_dark MaxLightCounts_def)
  qed
  with c show ?thesis by simp
qed

theorem precountdown_white_then_dark_witness:
  "\<exists>a'. animation_GetColors (\<lambda>_ lo _. lo) (\<lambda>_. 6500000000) (APreCountdown (new_PreCountdown 0))
     = Inr (replicate N (rgb 0 0 0), APreCountdown a')"
  using precountdown_white_then_dark [OF _ new_PreCountdown_wf, of "\<lambda>_ lo _. lo" "\<lambda>_. 6500000000" 0]
  by (simp add: uniform_ok_def new_PreCountdown_def to_secs_def float_eval)

subsection \<open>The countdown\<close>

lemma lit_bars:
  assumes "of_int m \<le> t" "t < of_int m + (1 :: rat)"
  shows "t < of_int b \<longleftrightarrow> m < b"
  using assms by (metis floor_eq_iff floor_less_iff less_floor_iff linorder_not_le of_int_le_iff le_floor_iff)

text \<open>
  The countdown goes out bar by bar with the digits: at any moment of its three seconds but
  the exact ends of the first two, the display shows a digit 3, 2 or 1, and just the bars numbered
  more than three minus the digit are lit, all in one shade of yellow.
\<close>

theorem countdown_bars_match_digit:
  assumes "xt_dootRegion a = dootRegions" "xt_start a \<le> clk 0"
    and "to_secs (clk 0 - xt_start a) < 3" "to_secs (clk 0 - xt_start a) \<notin> {1, 2}"
  shows "\<exists>d v. d \<in> {1, 2, 3}
    \<and> animation_GetSegmentLed clk (ACountdown a)
        = Inr (mk_segments ((replicate 4 32)[3 - d := 48 + word_of_nat d]) 0)
    \<and> animation_GetColors u clk (ACountdown a)
        = Inr (map (\<lambda>i. if 3 - int d < bar (i mod NumVertical) then rgb v v 0 else rgb 0 0 0) [0..<N],
               ACountdown a)"
proof -
  let ?t = "to_secs (clk 0 - xt_start a)"
  obtain v where v: "xt_GetColors (clk 0) a
    = Inr (map (\<lambda>i. if ?t < of_int (bar (i mod NumVertical)) then rgb v v 0 else rgb 0 0 0) [0..<N])"
    using xt_GetColors_frame [OF assms(1), of "clk 0"] by blast
  have t0: "0 \<le> ?t" using assms(2) by (simp add: to_secs_nonneg)
  consider "?t < 1" | "1 < ?t" "?t < 2" | "2 < ?t" "?t < 3"
    using assms(3,4) by fastforce
  then show ?thesis
  proof cases
    case 1
    then show ?thesis using v lit_bars [of 0 ?t] t0
      by (intro exI [of _ 3] exI [of _ v]) (simp add: xt_GetSegmentLed_def numeral_nat)
  next
    case 2
    then show ?thesis using v lit_bars [of 1 ?t] t0
      by (intro exI [of _ 2] exI [of _ v]) (simp add: xt_GetSegmentLed_def numeral_nat)
  next
    case 3
    then show ?thesis using v lit_bars [of 2 ?t] t0
      by (intro exI [of _ 1] exI [of _ v]) (simp add: xt_GetSegmentLed_def numeral_nat)
  qed
qed

theorem countdown_bars_match_digit_witness:
  "\<exists>d v. d \<in> {1, 2, 3}
    \<and> animation_GetSegmentLed (\<lambda>_. 1500000000) (ACountdown (new_XmasTree 0))
        = Inr (mk_segments ((replicate 4 32)[3 - d := 48 + word_of_nat d]) 0)
    \<and> animation_GetColors (\<lambda>_ lo _. lo) (\<lambda>_. 1500000000) (ACountdown (new_XmasTree 0))
        = Inr (map (\<lambda>i. if 3 - int d < bar (i mod NumVertical) then rgb v v 0 else rgb 0 0 0) [0..<N],
               ACountdown (new_XmasTree 0))"
  by (rule countdown_bars_match_digit) (simp_all add: new_XmasTree_def to_secs_def float_eval)

subsection \<open>The match clock\<close>

lemma to_secs_pos: "0 < d \<Longrightarrow> 0 < to_secs d"
proof -
  assume "0 < d"
  then have "to_secs 1 \<le> to_secs d" by (intro to_secs_mono) simp
  moreover have "0 < to_secs 1" by (simp add: to_secs_def float_eval)
  ultimately show ?thesis by linarith
qed

text \<open>
  While time remains the match clock can be read back from its digits: the number of seconds
  shown is the remaining time rounded up, up to 12 microseconds of rounding; when the time is
  up the display says End.
\<close>

theorem fight_clock_reads_back:
  assumes "- (2 ^ 37) < fg_end a - clk 1" "fg_end a - clk 1 < 2 ^ 37"
  shows "\<exists>s. animation_GetSegmentLed clk (AFighting a) = Inr s
    \<and> (if 0 < fg_end a - clk 1
       then (\<exists>n. read_clock s = Some n \<and> fg_end a - clk 1 \<le> n * 1000000000 + 12000
                  \<and> (n - 1) * 1000000000 < fg_end a - clk 1 + 12000)
       else s = mk_segments [69, 110, 100, 32] 0)"
proof (cases "0 < fg_end a - clk 1")
  case True
  let ?n = "shown_seconds (fg_end a - clk 1)"
  have "0 < ?n" using to_secs_pos [OF True] by (simp add: shown_seconds_def)
  then show ?thesis
    using True fg_GetSegmentLed_eq [OF assms] shown_seconds_near [OF _ assms(2)] clock_digits_read [of ?n]
    by simp
next
  case False
  then have "to_secs (fg_end a - clk 1) \<le> 0" using to_secs_mono [of "fg_end a - clk 1" 0] by simp
  then have "\<not> 0 < shown_seconds (fg_end a - clk 1)" by (simp add: shown_seconds_def)
  then show ?thesis using False fg_GetSegmentLed_eq [OF assms] by simp
qed

theorem fight_clock_reads_back_witness:
  "\<exists>s n. animation_GetSegmentLed (\<lambda>_. 0) (AFighting \<lparr>fg_start = 0, fg_end = 90000000000\<rparr>) = Inr s
     \<and> read_clock s = Some n \<and> 90000000000 \<le> n * 1000000000 + 12000"
  using fight_clock_reads_back [of "\<lparr>fg_start = 0, fg_end = 90000000000\<rparr>" "\<lambda>_. 0"] by auto

text \<open>
  The clock never counts up during a fight: a later look shows at most as many seconds.
\<close>

theorem fight_clock_counts_down:
  assumes "clk 1 \<le> clk' 1" "fg_end a - clk 1 < 2 ^ 37" "clk' 1 < fg_end a"
  shows "\<exists>s s' n n'. animation_GetSegmentLed clk (AFighting a) = Inr s
    \<and> animation_GetSegmentLed clk' (AFighting a) = Inr s'
    \<and> read_clock s = Some n \<and> read_clock s' = Some n' \<and> 0 < n' \<and> n' \<le> n"
proof -
  let ?d = "fg_end a - clk 1" and ?d' = "fg_end a - clk' 1"
  have d: "0 < ?d" "0 < ?d'" "- (2 ^ 37) < ?d" "- (2 ^ 37) < ?d'" "?d' < 2 ^ 37" "?d' \<le> ?d"
    using assms by simp_all
  have n: "0 < shown_seconds ?d'" "shown_seconds ?d' \<le> shown_seconds ?d"
    using to_secs_pos [OF d(2)] to_secs_mono [OF d(6)] by (simp_all add: shown_seconds_def ceiling_mono)
  then show ?thesis
    using fg_GetSegmentLed_eq [OF d(3) assms(2)] fg_GetSegmentLed_eq [OF d(4,5)]
      shown_seconds_near(4) [of ?d] shown_seconds_near(4) [of ?d'] d assms(2)
      clock_digits_read [of "shown_seconds ?d"] clock_digits_read [of "shown_seconds ?d'"]
    by auto
qed

theorem fight_clock_counts_down_witness:
  "\<exists>s s' n n'. animation_GetSegmentLed (\<lambda>_. 0) (AFighting \<lparr>fg_start = 0, fg_end = 90000000000\<rparr>) = Inr s
    \<and> animation_GetSegmentLed (\<lambda>_. 5000000000) (AFighting \<lparr>fg_start = 0, fg_end = 90000000000\<rparr>) = Inr s'
    \<and> read_clock s = Some n \<and> read_clock s' = Some n' \<and> 0 < n' \<and> n' \<le> n"
  by (rule fight_clock_counts_down) simp_all

subsection \<open>Pausing\<close>

text \<open>
  The remaining time of the world changes in two places only: the opening of the staging sets
  two minutes, and pausing a fight stores the time its clock has left. Every other tick, in
  particular every tick of a pause and of the countdown after it, leaves it alone, and no tick
  touches the buttons.
\<close>

theorem Tick_changes_world:
  assumes "animation_Tick clk a w = Inr (a', w')"
  shows "w' = (case (a, a') of
      (APreStaging _, AStaging _) \<Rightarrow> w\<lparr>timeRemaining := 120\<rparr>
    | (AFighting f, APaused _) \<Rightarrow> w\<lparr>timeRemaining := to_secs (fg_end f - clk 0)\<rparr>
    | _ \<Rightarrow> w)"
  using assms
  by (cases a) (auto simp: tick_defs Let_def bind_res_eq_Inr split: if_splits)

theorem Tick_changes_world_witness:
  "sample_world\<lparr>refButton := True, timeRemaining := to_secs 5\<rparr>
     = (sample_world\<lparr>refButton := True\<rparr>)\<lparr>timeRemaining := to_secs 5\<rparr>"
  using Tick_changes_world [of "\<lambda>_. 0" "AFighting \<lparr>fg_start = 0, fg_end = 5\<rparr>"
      "sample_world\<lparr>refButton := True\<rparr>" "APaused (new_PausedAnim 0)"
      "sample_world\<lparr>refButton := True, timeRemaining := to_secs 5\<rparr>"]
  by (simp add: fg_Tick_def sample_world_def)

text \<open>
  A pause keeps the time that remains: pausing a fight with \<open>d\<close> nanoseconds left stores a time
  from which the next fight has between \<open>d\<close> less 1.02 milliseconds and \<open>d\<close> plus 20 microseconds
  left, counted from its start.
\<close>

theorem pause_keeps_remaining_time:
  assumes "refButton w" "\<not> redButton w" "\<not> blueButton w"
    and "0 \<le> fg_end a - clk 0" "fg_end a - clk 0 < 2 ^ 37"
  shows "\<exists>p w' f. animation_Tick clk (AFighting a) w = Inr (APaused p, w')
    \<and> GetAnimation Fighting now (read_buttons r b g z w') = Inr (AFighting f) \<and> fg_start f = now
    \<and> fg_end a - clk 0 - 1020000 < fg_end f - now \<and> fg_end f - now \<le> fg_end a - clk 0 + 20000"
proof -
  let ?w = "w\<lparr>timeRemaining := to_secs (fg_end a - clk 0)\<rparr>"
  have "animation_Tick clk (AFighting a) w = Inr (APaused (new_PausedAnim (clk 1)), ?w)"
    using assms(1-3) by (simp add: fg_Tick_def)
  then show ?thesis
    using new_Fighting_resume [OF assms(4,5), of "read_buttons r b g z ?w" now]
    by (auto simp: read_buttons_def)
qed

theorem pause_keeps_remaining_time_witness:
  "\<exists>p w' f. animation_Tick (\<lambda>_. 0) (AFighting \<lparr>fg_start = 0, fg_end = 90000000000\<rparr>)
        (sample_world\<lparr>refButton := True\<rparr>) = Inr (APaused p, w')
    \<and> GetAnimation Fighting 7 (read_buttons False False False False w') = Inr (AFighting f) \<and> fg_start f = 7
    \<and> 90000000000 - 1020000 < fg_end f - 7 \<and> fg_end f - 7 \<le> 90000000000 + 20000"
  using pause_keeps_remaining_time [of "sample_world\<lparr>refButton := True\<rparr>"
      "\<lparr>fg_start = 0, fg_end = 90000000000\<rparr>" "\<lambda>_. 0" 7 False False False False]
  by (simp add: sample_world_def)

text \<open>
  The first display after a pause reads memory nothing has written; from the next tick on, with
  the referee's button still down, it shows the seconds that remain, rounded up.
\<close>

theorem pause_display:
  assumes "refButton w" "\<not> redButton w" "\<not> blueButton w"
    and "0 \<le> fg_end a - clk 0" "fg_end a - clk 0 < 2 ^ 37"
  shows "\<exists>p w' p'. animation_Tick clk (AFighting a) w = Inr (APaused p, w')
    \<and> animation_GetSegmentLed clk' (APaused p) = Inl Uninitialised
    \<and> animation_Tick clk' (APaused p) w' = Inr (APaused p', w')
    \<and> (\<exists>s n. animation_GetSegmentLed clk' (APaused p') = Inr s \<and> read_clock s = Some n
         \<and> fg_end a - clk 0 \<le> n * 1000000000 + 12000 \<and> (n - 1) * 1000000000 < fg_end a - clk 0 + 12000)"
proof -
  let ?d = "fg_end a - clk 0"
  let ?w = "w\<lparr>timeRemaining := to_secs ?d\<rparr>" and ?p = "new_PausedAnim (clk 1)"
  note n = shown_seconds_near [OF assms(4,5)]
  have "animation_Tick clk (AFighting a) w = Inr (APaused ?p, ?w)"
    using assms(1-3) by (simp add: fg_Tick_def)
  moreover have "animation_GetSegmentLed clk' (APaused ?p) = Inl Uninitialised"
    by (simp add: pa_GetSegmentLed_def new_PausedAnim_def)
  moreover have "animation_Tick clk' (APaused ?p) ?w
      = Inr (APaused (?p\<lparr>pa_remTime := Some (shown_seconds ?d)\<rparr>), ?w)"
    using n assms(1) by (simp add: pa_Tick_def new_PausedAnim_def flip: shown_seconds_def)
  ultimately show ?thesis
    using n clock_digits_read [of "shown_seconds ?d"] by (simp add: pa_GetSegmentLed_def)
qed

theorem pause_display_witness:
  "\<exists>p w' p'. animation_Tick (\<lambda>_. 0) (AFighting \<lparr>fg_start = 0, fg_end = 90000000000\<rparr>)
        (sample_world\<lparr>refButton := True\<rparr>) = Inr (APaused p, w')
    \<and> animation_GetSegmentLed (\<lambda>_. 0) (APaused p) = Inl Uninitialised
    \<and> animation_Tick (\<lambda>_. 0) (APaused p) w' = Inr (APaused p', w')"
  using pause_display [of "sample_world\<lparr>refButton := True\<rparr>"
      "\<lparr>fg_start = 0, fg_end = 90000000000\<rparr>" "\<lambda>_. 0" "\<lambda>_. 0"]
  by (auto simp: sample_world_def)

end
