(* ===== verification/Fifo.thy ===== *)
theory Fifo
  imports Prelude
begin

text \<open>
  The contract of a bounded first-in first-out buffer that drops what it has no room for,
  and of an unbounded one, with what clients may conclude from it. The ring buffer of the
  segment controller implements the first.
\<close>

locale bounded_fifo =
  fixes put :: "'a \<Rightarrow> 'q \<Rightarrow> 'q"
    and take_out :: "'q \<Rightarrow> 'a \<times> 'q"
    and is_empty :: "'q \<Rightarrow> bool"
    and items :: "'q \<Rightarrow> 'a list"
    and ok :: "'q \<Rightarrow> bool"
    and capacity :: nat
  assumes ok_put: "ok q \<Longrightarrow> ok (put x q)"
    and ok_take: "ok q \<Longrightarrow> items q \<noteq> [] \<Longrightarrow> ok (snd (take_out q))"
    and items_put: "ok q \<Longrightarrow>
          items (put x q) = (if length (items q) < capacity then items q @ [x] else items q)"
    and items_take: "ok q \<Longrightarrow> items q \<noteq> [] \<Longrightarrow>
          items q = fst (take_out q) # items (snd (take_out q))"
    and is_empty: "ok q \<Longrightarrow> is_empty q \<longleftrightarrow> items q = []"
    and within: "ok q \<Longrightarrow> length (items q) \<le> capacity"
begin

definition put_all :: "'a list \<Rightarrow> 'q \<Rightarrow> 'q" where
  "put_all xs q = foldl (\<lambda>q x. put x q) q xs"

lemma put_all_simps [simp]:
  "put_all [] q = q" "put_all (x # xs) q = put_all xs (put x q)"
  by (simp_all add: put_all_def)

lemma ok_put_all: "ok q \<Longrightarrow> ok (put_all xs q)"
  by (induction xs arbitrary: q) (simp_all add: ok_put)

text \<open>Filling keeps order and drops exactly the excess at the end.\<close>

lemma items_put_all: "ok q \<Longrightarrow> items (put_all xs q) = take capacity (items q @ xs)"
proof (induction xs arbitrary: q)
  case Nil
  then show ?case by (simp add: within)
next
  case (Cons x xs)
  then have "items (put_all (x # xs) q) = take capacity (items (put x q) @ xs)"
    by (simp add: ok_put)
  also have "\<dots> = take capacity (items q @ x # xs)"
    using within [OF Cons.prems] Cons.prems by (auto simp: items_put take_Cons')
  finally show ?case .
qed

fun take_n :: "nat \<Rightarrow> 'q \<Rightarrow> 'a list \<times> 'q" where
  "take_n 0 q = ([], q)"
| "take_n (Suc n) q =
     (if is_empty q then ([], q)
      else let (x, q') = take_out q; (xs, q'') = take_n n q' in (x # xs, q''))"

lemma take_n_items:
  "ok q \<Longrightarrow> fst (take_n n q) = take n (items q) \<and> items (snd (take_n n q)) = drop n (items q)
     \<and> ok (snd (take_n n q))"
proof (induction n arbitrary: q)
  case 0
  then show ?case by simp
next
  case (Suc n)
  show ?case
  proof (cases "items q = []")
    case True
    with Suc.prems show ?thesis by (simp add: is_empty)
  next
    case False
    obtain x q' where xq: "take_out q = (x, q')" by fastforce
    have "items q = x # items q'" "ok q'"
      using items_take ok_take Suc.prems False xq by fastforce+
    with Suc.IH [of q'] False Suc.prems xq show ?thesis
      by (auto simp: is_empty split: prod.split)
  qed
qed

text \<open>What goes in while there is room comes out, complete and in order.\<close>

lemma no_loss:
  assumes "ok q" "length (items q) + length xs \<le> capacity"
  shows "fst (take_n (length (items q) + length xs) (put_all xs q)) = items q @ xs"
  using assms take_n_items [of "put_all xs q"] by (simp add: ok_put_all items_put_all)

end

end
