(* ===== verification/RingBuffer.thy ===== *)
theory RingBuffer
  imports Fifo
begin

text \<open>
  The constants of the segment controller (\<^verbatim>\<open>settings.h\<close>) and the ring buffer of
  \<^verbatim>\<open>large_segment_controller.ino\<close> between its I2C receive interrupt and its timer
  interrupt. The lemmas show that it is a bounded first-in first-out buffer of 63 bytes.
\<close>

subsection \<open>settings.h\<close>

definition TWI_ADDRESS_DEFAULT :: u8 where "TWI_ADDRESS_DEFAULT = 0x61"
definition TWI_ADDRESS_ADDRESS :: u8 where "TWI_ADDRESS_ADDRESS = 2"
definition RESET_CMD :: u8 where "RESET_CMD = 0x76"
definition DECIMAL_CMD :: u8 where "DECIMAL_CMD = 0x77"
definition BLANK_CMD :: u8 where "BLANK_CMD = 0x78"
definition CURSOR_CMD :: u8 where "CURSOR_CMD = 0x79"
definition DIGIT1_CMD :: u8 where "DIGIT1_CMD = 0x7B"
definition DIGIT2_CMD :: u8 where "DIGIT2_CMD = 0x7C"
definition DIGIT3_CMD :: u8 where "DIGIT3_CMD = 0x7D"
definition DIGIT4_CMD :: u8 where "DIGIT4_CMD = 0x7E"
definition TWI_ADDRESS_CMD :: u8 where "TWI_ADDRESS_CMD = 0x80"
definition FACTORY_RESET_CMD :: u8 where "FACTORY_RESET_CMD = 0x81"
definition BUFFER_SIZE :: nat where "BUFFER_SIZE = 64"

lemmas settings = TWI_ADDRESS_DEFAULT_def TWI_ADDRESS_ADDRESS_def RESET_CMD_def DECIMAL_CMD_def
  BLANK_CMD_def CURSOR_CMD_def DIGIT1_CMD_def DIGIT2_CMD_def DIGIT3_CMD_def DIGIT4_CMD_def
  TWI_ADDRESS_CMD_def FACTORY_RESET_CMD_def

subsection \<open>The ring buffer\<close>

record dataBuffer =
  buf_data :: "u8 list"
  buf_head :: nat
  buf_tail :: nat

definition buffer_wf :: "dataBuffer \<Rightarrow> bool" where
  "buffer_wf q \<longleftrightarrow> length (buf_data q) = BUFFER_SIZE \<and> buf_head q < BUFFER_SIZE
     \<and> buf_tail q < BUFFER_SIZE"

text \<open>One pass of the receive loop of \<^verbatim>\<open>twiReceive\<close>.\<close>

definition ring_put :: "u8 \<Rightarrow> dataBuffer \<Rightarrow> dataBuffer" where
  "ring_put c q =
     (let i = (buf_head q + 1) mod BUFFER_SIZE in
      if i \<noteq> buf_tail q then q\<lparr>buf_data := (buf_data q)[buf_head q := c], buf_head := i\<rparr> else q)"

text \<open>\<^verbatim>\<open>while (Wire.available())\<close>: the argument lists the bytes \<^verbatim>\<open>Wire.read()\<close> returns.\<close>

fun twiReceive :: "u8 list \<Rightarrow> dataBuffer \<Rightarrow> dataBuffer" where
  "twiReceive [] q = q"
| "twiReceive (c # cs) q = twiReceive cs (ring_put c q)"

text \<open>The first two statements of \<^verbatim>\<open>updateBufferData\<close>.\<close>

definition ring_take :: "dataBuffer \<Rightarrow> u8 \<times> dataBuffer" where
  "ring_take q = (buf_data q ! buf_tail q, q\<lparr>buf_tail := (buf_tail q + 1) mod BUFFER_SIZE\<rparr>)"

definition ring_empty :: "dataBuffer \<Rightarrow> bool" where
  "ring_empty q \<longleftrightarrow> buf_head q = buf_tail q"

text \<open>The bytes waiting, oldest first.\<close>

definition ring_count :: "dataBuffer \<Rightarrow> nat" where
  "ring_count q = (buf_head q + BUFFER_SIZE - buf_tail q) mod BUFFER_SIZE"

definition ring_items :: "dataBuffer \<Rightarrow> u8 list" where
  "ring_items q = map (\<lambda>i. buf_data q ! ((buf_tail q + i) mod BUFFER_SIZE)) [0..<ring_count q]"

lemma ring_count_less: "ring_count q < BUFFER_SIZE"
  by (simp add: ring_count_def BUFFER_SIZE_def)

lemma ring_count_cases:
  assumes "h < (64 :: nat)" "t < 64"
  shows "(h + 64 - t) mod 64 = (if t \<le> h then h - t else h + 64 - t)"
proof (cases "t \<le> h")
  case True
  then have "h + 64 - t = (h - t) + 64" by simp
  then have "(h + 64 - t) mod 64 = (h - t) mod 64" by (simp only: mod_add_self2)
  with True assms show ?thesis by simp
qed (use assms in simp)

lemma ring_head_pos:
  assumes "h < (64 :: nat)" "t < 64"
  shows "(t + (h + 64 - t) mod 64) mod 64 = h"
  using assms by (auto simp: ring_count_cases)

lemma mod64_inj:
  assumes "i < (64 :: nat)" "j < 64" "t < 64" "(t + i) mod 64 = (t + j) mod 64"
  shows "i = j"
  using assms mod_if [of "t + i" 64] mod_if [of "t + j" 64] by (auto split: if_splits)

lemma ring_next_count:
  assumes "h < (64 :: nat)" "t < 64"
  shows "(h + 64 - t) mod 64 < 63 \<Longrightarrow> ((h + 1) mod 64 + 64 - t) mod 64 = Suc ((h + 64 - t) mod 64)"
    and "(h + 1) mod 64 = t \<longleftrightarrow> \<not> (h + 64 - t) mod 64 < 63"
    and "(h + 64 - t) mod 64 \<noteq> 0 \<Longrightarrow> Suc ((h + 64 - (t + 1) mod 64) mod 64) = (h + 64 - t) mod 64"
proof -
  have h: "(h + 1) mod 64 = (if h = 63 then 0 else h + 1)" using assms by simp
  have t: "(t + 1) mod 64 = (if t = 63 then 0 else t + 1)" using assms by simp
  have "(h + 1) mod 64 < 64" "(t + 1) mod 64 < 64" by simp_all
  note c = ring_count_cases [OF assms] ring_count_cases [OF \<open>(h + 1) mod 64 < 64\<close> assms(2)]
    ring_count_cases [OF assms(1) \<open>(t + 1) mod 64 < 64\<close>]
  show "(h + 64 - t) mod 64 < 63 \<Longrightarrow> ((h + 1) mod 64 + 64 - t) mod 64 = Suc ((h + 64 - t) mod 64)"
    unfolding c unfolding h using assms by (simp split: if_splits) arith+
  show "(h + 1) mod 64 = t \<longleftrightarrow> \<not> (h + 64 - t) mod 64 < 63"
    unfolding c unfolding h using assms by (simp split: if_splits) linarith
  show "(h + 64 - t) mod 64 \<noteq> 0 \<Longrightarrow> Suc ((h + 64 - (t + 1) mod 64) mod 64) = (h + 64 - t) mod 64"
    unfolding c unfolding t using assms by (simp split: if_splits) arith+
qed

lemma ring_put_room:
  assumes "buffer_wf q" "ring_count q < 63"
  shows "ring_items (ring_put c q) = ring_items q @ [c]"
    and "ring_count (ring_put c q) = Suc (ring_count q)"
proof -
  let ?n = "ring_count q" and ?t = "buf_tail q" and ?h = "buf_head q"
  have wf: "length (buf_data q) = 64" "?h < 64" "?t < 64"
    using assms(1) by (auto simp: buffer_wf_def BUFFER_SIZE_def)
  have n: "?n = (?h + 64 - ?t) mod 64" by (simp add: ring_count_def BUFFER_SIZE_def)
  have h: "(?t + ?n) mod 64 = ?h" unfolding n by (rule ring_head_pos [OF wf(2,3)])
  have room: "(?h + 1) mod 64 \<noteq> ?t"
    using assms(2) ring_next_count(2) [OF wf(2,3)] n by simp
  have put: "ring_put c q = q\<lparr>buf_data := (buf_data q)[?h := c], buf_head := (?h + 1) mod 64\<rparr>"
    using room by (simp add: ring_put_def BUFFER_SIZE_def)
  show cnt: "ring_count (ring_put c q) = Suc ?n"
    using assms(2) ring_next_count(1) [OF wf(2,3)] n by (simp add: put ring_count_def BUFFER_SIZE_def)
  have old: "(buf_data q)[?h := c] ! ((?t + i) mod 64) = buf_data q ! ((?t + i) mod 64)"
    if "i < ?n" for i
  proof -
    have "(?t + i) mod 64 \<noteq> ?h"
      using mod64_inj [of i ?n ?t] that ring_count_less [of q] wf h
      by (auto simp: BUFFER_SIZE_def)
    then show ?thesis by simp
  qed
  have new: "(buf_data q)[?h := c] ! ((?t + ?n) mod 64) = c"
    using wf by (simp add: h)
  show "ring_items (ring_put c q) = ring_items q @ [c]"
    unfolding ring_items_def cnt using old new by (simp add: put BUFFER_SIZE_def)
qed

lemma ring_put_full:
  assumes "buffer_wf q" "\<not> ring_count q < 63"
  shows "ring_put c q = q"
proof -
  have wf: "buf_head q < 64" "buf_tail q < 64"
    using assms(1) by (auto simp: buffer_wf_def BUFFER_SIZE_def)
  then have "(buf_head q + 1) mod 64 = buf_tail q"
    using assms(2) ring_next_count(2) by (simp add: ring_count_def BUFFER_SIZE_def)
  then show ?thesis by (simp add: ring_put_def BUFFER_SIZE_def)
qed

lemma ring_items_length [simp]: "length (ring_items q) = ring_count q"
  by (simp add: ring_items_def)

lemma ring_put_wf: "buffer_wf q \<Longrightarrow> buffer_wf (ring_put c q)"
  by (simp add: buffer_wf_def ring_put_def BUFFER_SIZE_def Let_def)

lemma ring_take_wf: "buffer_wf q \<Longrightarrow> buffer_wf (snd (ring_take q))"
  by (simp add: buffer_wf_def ring_take_def BUFFER_SIZE_def)

lemma ring_empty_iff: "buffer_wf q \<Longrightarrow> ring_empty q \<longleftrightarrow> ring_items q = []"
  by (auto simp: ring_items_def ring_empty_def buffer_wf_def BUFFER_SIZE_def ring_count_def
      ring_count_cases split: if_splits)

lemma ring_take_items:
  assumes "buffer_wf q" "ring_items q \<noteq> []"
  shows "ring_items q = fst (ring_take q) # ring_items (snd (ring_take q))"
proof -
  let ?n = "ring_count q" and ?t = "buf_tail q"
  have wf: "buf_head q < 64" "?t < 64"
    using assms(1) by (auto simp: buffer_wf_def BUFFER_SIZE_def)
  have n0: "?n \<noteq> 0" using assms(2) by (simp add: ring_items_def)
  have cnt: "Suc (ring_count (snd (ring_take q))) = ?n"
    using n0 ring_next_count(3) [OF wf] by (simp add: ring_take_def ring_count_def BUFFER_SIZE_def)
  have "((?t + 1) mod 64 + i) mod 64 = (?t + Suc i) mod 64" for i
    by (simp add: mod_add_left_eq)
  then show ?thesis
    using wf by (simp add: ring_items_def ring_take_def BUFFER_SIZE_def upt_conv_Cons
        map_Suc_upt [symmetric] comp_def flip: cnt del: upt_Suc)
qed

interpretation ring: bounded_fifo ring_put ring_take ring_empty ring_items buffer_wf 63
proof unfold_locales
  fix q :: dataBuffer and x
  assume q: "buffer_wf q"
  show "buffer_wf (ring_put x q)" using q by (rule ring_put_wf)
  show "ring_items (ring_put x q) =
      (if length (ring_items q) < 63 then ring_items q @ [x] else ring_items q)"
    using q ring_put_room ring_put_full by simp
  show "ring_empty q = (ring_items q = [])" using q by (rule ring_empty_iff)
  show "length (ring_items q) \<le> 63"
    using ring_count_less [of q] by (simp add: BUFFER_SIZE_def)
  assume ne: "ring_items q \<noteq> []"
  show "buffer_wf (snd (ring_take q))" using q by (rule ring_take_wf)
  show "ring_items q = fst (ring_take q) # ring_items (snd (ring_take q))"
    using q ne by (rule ring_take_items)
qed

lemma twiReceive_put_all: "twiReceive cs q = ring.put_all cs q"
  by (induction cs arbitrary: q) simp_all

text \<open>The bytes the next \<open>n\<close> timer interrupts read.\<close>

fun ring_drain :: "nat \<Rightarrow> dataBuffer \<Rightarrow> u8 list" where
  "ring_drain 0 q = []"
| "ring_drain (Suc n) q =
     (if ring_empty q then [] else fst (ring_take q) # ring_drain n (snd (ring_take q)))"

lemma ring_drain_take_n: "ring_drain n q = fst (ring.take_n n q)"
  by (induction n arbitrary: q) (simp_all add: case_prod_beta)

text \<open>
  C10. The receive interrupt keeps the ring buffer well formed, and whatever is waiting when
  it runs, the buffer afterwards holds the waiting bytes followed by the received ones in
  order, cut off at 63: bytes are only ever lost at the end and only when it is full.
\<close>

theorem twiReceive_fifo:
  assumes "buffer_wf q"
  shows "buffer_wf (twiReceive cs q)
    \<and> ring_items (twiReceive cs q) = take (BUFFER_SIZE - 1) (ring_items q @ cs)"
  using assms by (simp add: twiReceive_put_all ring.ok_put_all ring.items_put_all BUFFER_SIZE_def)

theorem twiReceive_fifo_witness:
  "buffer_wf (twiReceive [7, 8] \<lparr>buf_data = replicate 64 0, buf_head = 63, buf_tail = 62\<rparr>)
   \<and> ring_items (twiReceive [7, 8] \<lparr>buf_data = replicate 64 0, buf_head = 63, buf_tail = 62\<rparr>)
     = [0, 7, 8]"
  using twiReceive_fifo [of "\<lparr>buf_data = replicate 64 0, buf_head = 63, buf_tail = 62\<rparr>" "[7, 8]"]
  by (simp add: buffer_wf_def BUFFER_SIZE_def ring_items_def ring_count_def)

text \<open>
  Taking bytes out returns them in the order they came in: after any number of bytes
  that fit, the timer interrupt reads exactly those bytes, none lost and none repeated.
\<close>

theorem ring_no_loss:
  assumes "buffer_wf q" and "ring_items q = []" and "length cs \<le> BUFFER_SIZE - 1"
  shows "ring_drain (length cs) (twiReceive cs q) = cs"
  using assms ring.no_loss [of q cs]
  by (simp add: ring_drain_take_n twiReceive_put_all BUFFER_SIZE_def)

theorem ring_no_loss_witness:
  "ring_drain 2 (twiReceive [7, 8] \<lparr>buf_data = replicate 64 0, buf_head = 63, buf_tail = 63\<rparr>)
   = [7, 8]"
  using ring_no_loss [of "\<lparr>buf_data = replicate 64 0, buf_head = 63, buf_tail = 63\<rparr>" "[7, 8]"]
  by (simp add: buffer_wf_def BUFFER_SIZE_def ring_items_def ring_count_def numeral_2_eq_2)

end
