(* ===== verification/ShiftRegister.thy ===== *)
theory ShiftRegister
  imports Prelude
begin

text \<open>
  The three wire serial interface both digit drivers talk to: \<^verbatim>\<open>LargeDigitDriver.cpp\<close> on the
  host and \<^verbatim>\<open>postSegment\<close> in the segment controller. A driver is the sequence of pin writes
  it performs; the register chain is the specification they are measured against, with the
  two rules the controller's comments give: data moves into the register on the rising edge
  of the clock, and the register moves to the outputs on the rising edge of the latch.
\<close>

datatype pin = Latch | Clock | Data

datatype gpio_event = Write pin bool | Sleep nat

text \<open>The chain holds the oldest bit first; the sleeps are microseconds.\<close>

record register =
  latch_level :: bool
  clock_level :: bool
  data_level :: bool
  chain :: "bool list"
  outputs :: "bool list"

fun register_step :: "register \<Rightarrow> gpio_event \<Rightarrow> register" where
  "register_step s (Write Data v) = s\<lparr>data_level := v\<rparr>"
| "register_step s (Write Clock v) =
     s\<lparr>clock_level := v,
       chain := if v \<and> \<not> clock_level s then tl (chain s) @ [data_level s] else chain s\<rparr>"
| "register_step s (Write Latch v) =
     s\<lparr>latch_level := v,
       outputs := if v \<and> \<not> latch_level s then chain s else outputs s\<rparr>"
| "register_step s (Sleep n) = s"

definition register_run :: "register \<Rightarrow> gpio_event list \<Rightarrow> register" where
  "register_run s es = foldl register_step s es"

lemma register_run_simps [simp]:
  "register_run s [] = s"
  "register_run s (e # es) = register_run (register_step s e) es"
  "register_run s (es @ fs) = register_run (register_run s es) fs"
  by (simp_all add: register_run_def)

subsection \<open>Drivers of the chain\<close>

text \<open>
  What a driver's way of sending one bit has to achieve, and what follows for whole frames:
  clocking out as many bits as the chain is long replaces its contents, and a rising latch
  then shows them. The two drivers order the latch pulse differently.
\<close>

locale bit_sender =
  fixes send :: "bool \<Rightarrow> gpio_event list"
  assumes send_chain: "chain s \<noteq> [] \<Longrightarrow> chain (register_run s (send v)) = tl (chain s) @ [v]"
    and send_latch: "latch_level (register_run s (send v)) = latch_level s"
    and send_outputs: "outputs (register_run s (send v)) = outputs s"
begin

lemma send_all_frame:
  "latch_level (register_run s (concat (map send bs))) = latch_level s"
  "outputs (register_run s (concat (map send bs))) = outputs s"
  by (induction bs arbitrary: s) (simp_all add: send_latch send_outputs)

lemma send_all_chain:
  assumes "length bs \<le> length (chain s)"
  shows "chain (register_run s (concat (map send bs))) = drop (length bs) (chain s) @ bs"
  using assms
proof (induction bs arbitrary: s)
  case Nil
  then show ?case by simp
next
  case (Cons v bs)
  then have ne: "chain s \<noteq> []" by auto
  let ?s = "register_run s (send v)"
  have c: "chain ?s = tl (chain s) @ [v]" using ne by (rule send_chain)
  then have "length bs \<le> length (chain ?s)" using Cons.prems by simp
  then have "chain (register_run ?s (concat (map send bs))) = drop (length bs) (chain ?s) @ bs"
    by (rule Cons.IH)
  also have "drop (length bs) (chain ?s) = drop (length (v # bs)) (chain s) @ [v]"
    using Cons.prems by (simp add: c drop_Suc)
  finally show ?case by simp
qed

lemma latch_around_shows:
  assumes "length (chain s) = length bs"
  shows "outputs (register_run s (Write Latch False # concat (map send bs) @ [Write Latch True])) = bs"
  using assms send_all_chain [of bs "register_step s (Write Latch False)"]
    send_all_frame(1) [of "register_step s (Write Latch False)" bs]
  by simp

lemma latch_after_shows:
  assumes "length (chain s) = length bs"
  shows "outputs (register_run s (concat (map send bs) @ [Write Latch False, Write Latch True])) = bs"
  using assms send_all_chain [of bs s] by simp

end

end
