(* ===== verification/NeoPixel.thy ===== *)
theory NeoPixel
  imports Color
begin

text \<open>
  The WS2812 driver of \<^verbatim>\<open>LedSegment.h\<close>. A frame of \<open>N\<close> colours is expanded into the SPI
  buffer three bits per colour bit (\<^verbatim>\<open>110\<close> for one, \<^verbatim>\<open>100\<close> for zero), most significant bit
  first and in the order green, red, blue, followed by 16 padding bits. The buffer is the
  byte list the code writes with \<^verbatim>\<open>|=\<close>; an index outside it is a fault. The abstract view
  is the sequence of bits the bus shifts out. The template parameter \<^verbatim>\<open>N\<close> is a
  \<open>nat\<close>.
\<close>

subsection \<open>Constants of the template\<close>

definition SpiBitsPerPixel :: nat where "SpiBitsPerPixel = 3"
definition ColorBitsPerPixel :: nat where "ColorBitsPerPixel = 24"
definition PaddingBits :: nat where "PaddingBits = 16"

definition DataLen :: "nat \<Rightarrow> nat" where
  "DataLen N = (N * ColorBitsPerPixel * SpiBitsPerPixel) div 8 + PaddingBits div 8"

lemma DataLen_eq: "DataLen N = 9 * N + 2"
  by (simp add: DataLen_def ColorBitsPerPixel_def SpiBitsPerPixel_def PaddingBits_def)

subsection \<open>Encoding\<close>

text \<open>
  \<^verbatim>\<open>_spiBuf[bitNum / 8] |= (uint8_t)(v << (7 - (bitNum % 8))); bitNum++;\<close>
  The state is the buffer and \<^verbatim>\<open>bitNum\<close>.
\<close>

type_synonym spi_state = "u8 list \<times> nat"

definition emit_bit :: "u8 \<Rightarrow> spi_state \<Rightarrow> spi_state res" where
  "emit_bit v st = (case st of (buf, bitNum) \<Rightarrow>
     if bitNum div 8 < length buf
     then Inr (buf[bitNum div 8 := buf ! (bitNum div 8) OR push_bit (7 - bitNum mod 8) v],
               Suc bitNum)
     else Inl OutOfBounds)"

definition emit_symbol :: "bool \<Rightarrow> spi_state \<Rightarrow> spi_state res" where
  "emit_symbol s st =
     (if s then bind_res (bind_res (emit_bit 1 st) (emit_bit 1)) (emit_bit 0)
      else bind_res (bind_res (emit_bit 1 st) (emit_bit 0)) (emit_bit 0))"

text \<open>\<^verbatim>\<open>uint32_t fullColorBits = ((c.g << 16) | (c.r << 8) | (c.b))\<close>\<close>

definition fullColorBits :: "ColorTriplet \<Rightarrow> u32" where
  "fullColorBits c = push_bit 16 (ucast (ct_g c)) OR push_bit 8 (ucast (ct_r c)) OR ucast (ct_b c)"

fun emit_color_bits :: "u32 \<Rightarrow> nat list \<Rightarrow> spi_state \<Rightarrow> spi_state res" where
  "emit_color_bits full [] st = Inr st"
| "emit_color_bits full (i # is) st =
     bind_res (emit_symbol ((drop_bit (23 - i) full) AND 1 = 1) st) (emit_color_bits full is)"

fun emit_colors :: "ColorTriplet list \<Rightarrow> spi_state \<Rightarrow> spi_state res" where
  "emit_colors [] st = Inr st"
| "emit_colors (c # cs) st =
     bind_res (emit_color_bits (fullColorBits c) [0..<24] st) (emit_colors cs)"

definition ConvertNeoToSpi :: "ColorTriplet list \<Rightarrow> u8 list \<Rightarrow> u8 list res" where
  "ConvertNeoToSpi data spiBuf =
     bind_res (emit_colors data (replicate (length spiBuf) 0, 0)) (\<lambda>(buf, _). Inr buf)"

text \<open>
  The object: its buffer and what \<^verbatim>\<open>_spi.transfer\<close> has sent. \<^verbatim>\<open>Refresh\<close> is called with an
  \<^verbatim>\<open>std::array\<close> of exactly \<^verbatim>\<open>N\<close> colours; the destructor sends a value-initialised frame.
\<close>

record LedSegment =
  spiBuf :: "u8 list"
  transfers :: "u8 list list"

definition Refresh :: "ColorTriplet list \<Rightarrow> LedSegment \<Rightarrow> LedSegment res" where
  "Refresh data seg =
     bind_res (ConvertNeoToSpi data (spiBuf seg))
       (\<lambda>buf. Inr (seg\<lparr>spiBuf := buf, transfers := transfers seg @ [buf]\<rparr>))"

definition destroy_LedSegment :: "nat \<Rightarrow> LedSegment \<Rightarrow> LedSegment res" where
  "destroy_LedSegment N seg = Refresh (replicate N (rgb 0 0 0)) seg"

subsection \<open>The bits on the wire\<close>

definition byte_bits :: "u8 \<Rightarrow> bool list" where
  "byte_bits w = map (\<lambda>i. bit w (7 - i)) [0..<8]"

definition wire_bits :: "u8 list \<Rightarrow> bool list" where
  "wire_bits buf = concat (map byte_bits buf)"

definition ws_symbol :: "bool \<Rightarrow> bool list" where
  "ws_symbol s = [True, s, False]"

definition color_bits :: "ColorTriplet \<Rightarrow> bool list" where
  "color_bits c = byte_bits (ct_g c) @ byte_bits (ct_r c) @ byte_bits (ct_b c)"

definition ws_frame :: "ColorTriplet list \<Rightarrow> bool list" where
  "ws_frame cs = concat (map ws_symbol (concat (map color_bits cs)))"

lemma byte_bits_length [simp]: "length (byte_bits w) = 8"
  by (simp add: byte_bits_def)

lemma color_bits_length [simp]: "length (color_bits c) = 24"
  by (simp add: color_bits_def)

lemma wire_bits_length [simp]: "length (wire_bits buf) = 8 * length buf"
  by (simp add: wire_bits_def concat_map_length_const)

lemma ws_frame_length [simp]: "length (ws_frame cs) = 72 * length cs"
proof -
  have "length (concat (map ws_symbol bs)) = 3 * length bs" for bs
    by (rule concat_map_length_const) (simp add: ws_symbol_def)
  moreover have "length (concat (map color_bits cs)) = 24 * length cs"
    by (rule concat_map_length_const) simp
  ultimately show ?thesis by (simp add: ws_frame_def)
qed

lemma wire_bits_nth:
  "i < 8 * length buf \<Longrightarrow> wire_bits buf ! i = bit (buf ! (i div 8)) (7 - i mod 8)"
  using nth_concat_const [of buf byte_bits 8 "i div 8" "i mod 8"]
  by (simp add: wire_bits_def byte_bits_def)

lemma wire_bits_zero [simp]: "wire_bits (replicate n 0) = replicate (8 * n) False"
  by (induction n) (simp_all add: wire_bits_def byte_bits_def upt_rec replicate_add numeral_eq_Suc)

subsection \<open>The encoder appends to the wire\<close>

text \<open>
  \<open>emitted L st xs\<close>: with a buffer of \<open>L\<close> bytes, the bits written so far are \<open>xs\<close> and the
  rest of the buffer is still zero. \<open>appends L f ys\<close>: from any such state with room for it,
  \<open>f\<close> does not fault and adds exactly \<open>ys\<close>.
\<close>

definition emitted :: "nat \<Rightarrow> spi_state \<Rightarrow> bool list \<Rightarrow> bool" where
  "emitted L st xs \<longleftrightarrow> length (fst st) = L \<and> snd st = length xs \<and> length xs \<le> 8 * L
     \<and> wire_bits (fst st) = xs @ replicate (8 * L - length xs) False"

definition appends :: "nat \<Rightarrow> (spi_state \<Rightarrow> spi_state res) \<Rightarrow> bool list \<Rightarrow> bool" where
  "appends L f ys \<longleftrightarrow> (\<forall>st xs. emitted L st xs \<longrightarrow> length xs + length ys \<le> 8 * L \<longrightarrow>
     (\<exists>st'. f st = Inr st' \<and> emitted L st' (xs @ ys)))"

lemma appendsI:
  "(\<And>st xs. emitted L st xs \<Longrightarrow> length xs + length ys \<le> 8 * L \<Longrightarrow>
     \<exists>st'. f st = Inr st' \<and> emitted L st' (xs @ ys)) \<Longrightarrow> appends L f ys"
  by (simp add: appends_def)

lemma appendsE:
  assumes "appends L f ys" "emitted L st xs" "length xs + length ys \<le> 8 * L"
  obtains st' where "f st = Inr st'" "emitted L st' (xs @ ys)"
  using assms unfolding appends_def by blast

lemma appends_skip: "appends L Inr []"
  by (simp add: appends_def)

lemma appends_bind:
  assumes "appends L f ys" and "appends L k zs"
  shows "appends L (\<lambda>st. bind_res (f st) k) (ys @ zs)"
proof (rule appendsI)
  fix st xs
  assume st: "emitted L st xs" and len: "length xs + length (ys @ zs) \<le> 8 * L"
  obtain st1 where "f st = Inr st1" and st1: "emitted L st1 (xs @ ys)"
    using assms(1) st by (rule appendsE) (use len in simp)
  moreover obtain st2 where "k st1 = Inr st2" "emitted L st2 ((xs @ ys) @ zs)"
    using assms(2) st1 by (rule appendsE) (use len in simp)
  ultimately show "\<exists>st'. bind_res (f st) k = Inr st' \<and> emitted L st' (xs @ ys @ zs)" by simp
qed

lemma bit_push_unit:
  "a < 8 \<Longrightarrow> c < 8 \<Longrightarrow> v \<in> {0, 1} \<Longrightarrow>
   bit (push_bit (7 - c) (v :: u8)) (7 - a) \<longleftrightarrow> v = 1 \<and> a = c"
  by (elim insertE emptyE) (auto simp: bit_simps)

lemma wire_bits_set:
  assumes "n < 8 * length buf" and "\<not> wire_bits buf ! n" and "v \<in> {0, 1}"
  shows "wire_bits (buf[n div 8 := buf ! (n div 8) OR push_bit (7 - n mod 8) v])
         = (wire_bits buf)[n := (v = 1)]"
proof (rule nth_equalityI)
  fix i
  assume "i < length (wire_bits (buf[n div 8 := buf ! (n div 8) OR push_bit (7 - n mod 8) v]))"
  then have i: "i < 8 * length buf" by simp
  have nf: "\<not> bit (buf ! (n div 8)) (7 - n mod 8)"
    using assms(1,2) by (simp add: wire_bits_nth)
  have pb: "bit (push_bit (7 - n mod 8) v) (7 - i mod 8) \<longleftrightarrow> v = 1 \<and> i mod 8 = n mod 8"
    using assms(3) by (intro bit_push_unit) simp_all
  show "wire_bits (buf[n div 8 := buf ! (n div 8) OR push_bit (7 - n mod 8) v]) ! i
        = (wire_bits buf)[n := (v = 1)] ! i"
  proof (cases "i div 8 = n div 8")
    case True
    then have "i = n \<longleftrightarrow> i mod 8 = n mod 8" by (metis div_mult_mod_eq)
    moreover have "wire_bits (buf[n div 8 := buf ! (n div 8) OR push_bit (7 - n mod 8) v]) ! i
        = (bit (buf ! (n div 8)) (7 - i mod 8) \<or> (v = 1 \<and> i mod 8 = n mod 8))"
      using True i by (simp only: wire_bits_nth length_list_update)
        (simp add: bit_or_iff pb less_mult_imp_div_less mult.commute)
    moreover have "(wire_bits buf)[n := (v = 1)] ! i
        = (if i = n then v = 1 else bit (buf ! (n div 8)) (7 - i mod 8))"
      using True i by (simp add: nth_list_update wire_bits_nth)
    ultimately show ?thesis using nf by auto
  next
    case False
    then have "i \<noteq> n" by auto
    with False i assms(1) show ?thesis
      by (simp add: wire_bits_nth)
  qed
qed simp

lemma emit_bit_appends:
  assumes "v \<in> {0, 1}"
  shows "appends L (emit_bit v) [v = 1]"
proof (rule appendsI)
  fix st :: spi_state and xs
  assume st: "emitted L st xs" and len: "length xs + length [v = 1] \<le> 8 * L"
  obtain buf n where bn: "st = (buf, n)" by fastforce
  have n: "n = length xs" "length buf = L" and w: "wire_bits buf = xs @ replicate (8 * L - n) False"
    using st by (auto simp: emitted_def bn)
  have room: "n < 8 * length buf" using len n by simp
  have "8 * L - n = Suc (8 * L - Suc n)" using room n by simp
  then have rep: "replicate (8 * L - n) False = False # replicate (8 * L - Suc n) False" by simp
  have "\<not> wire_bits buf ! n" using w n rep by (simp add: nth_append)
  from wire_bits_set [OF room this assms]
  have "wire_bits (buf[n div 8 := buf ! (n div 8) OR push_bit (7 - n mod 8) v])
        = (xs @ [v = 1]) @ replicate (8 * L - Suc n) False"
    unfolding w rep using n by (simp add: list_update_append)
  then show "\<exists>st'. emit_bit v st = Inr st' \<and> emitted L st' (xs @ [v = 1])"
    using room n by (simp add: bn emit_bit_def emitted_def less_mult_imp_div_less mult.commute)
qed

lemma emit_symbol_appends: "appends L (emit_symbol s) (ws_symbol s)"
proof -
  have one: "appends L (emit_bit 1) [True]" and zero: "appends L (emit_bit 0) [False]"
    using emit_bit_appends [of 1 L] emit_bit_appends [of 0 L] by simp_all
  show ?thesis
    using appends_bind [OF appends_bind [OF one one] zero]
      appends_bind [OF appends_bind [OF one zero] zero]
    by (cases s) (simp_all add: emit_symbol_def [abs_def] ws_symbol_def)
qed

lemma emit_color_bits_appends:
  "appends L (emit_color_bits full is)
     (concat (map ws_symbol (map (\<lambda>i. bit full (23 - i)) is)))"
proof (induction "is")
  case Nil
  then show ?case using appends_skip by (simp add: appends_def)
next
  case (Cons i "is")
  have "(drop_bit (23 - i) full AND 1 = 1) = bit full (23 - i)"
    by (simp add: and_one_eq odd_iff_mod_2_eq_one bit_iff_odd_drop_bit)
  then show ?case
    using appends_bind [OF emit_symbol_appends Cons.IH] by (simp add: appends_def)
qed

lemma fullColorBits_bits: "map (\<lambda>i. bit (fullColorBits c) (23 - i)) [0..<24] = color_bits c"
  by (simp add: fullColorBits_def color_bits_def byte_bits_def upt_rec bit_simps)

lemma emit_colors_appends: "appends L (emit_colors cs) (ws_frame cs)"
proof (induction cs)
  case Nil
  then show ?case by (simp add: appends_def ws_frame_def)
next
  case (Cons c cs)
  have "ws_frame (c # cs) = concat (map ws_symbol (color_bits c)) @ ws_frame cs"
    by (simp add: ws_frame_def)
  moreover have "appends L (emit_color_bits (fullColorBits c) [0..<24])
      (concat (map ws_symbol (color_bits c)))"
    using emit_color_bits_appends [of L "fullColorBits c" "[0..<24]"]
    by (simp only: fullColorBits_bits)
  ultimately show ?case using appends_bind [OF _ Cons.IH] by (fastforce simp: appends_def)
qed

lemma ConvertNeoToSpi_ok:
  assumes "72 * length cs \<le> 8 * length buf"
  obtains buf' where "ConvertNeoToSpi cs buf = Inr buf'" and "length buf' = length buf"
    and "wire_bits buf' = ws_frame cs @ replicate (8 * length buf - 72 * length cs) False"
proof -
  have "emitted (length buf) (replicate (length buf) 0, 0) []"
    by (simp add: emitted_def)
  with emit_colors_appends [of "length buf" cs] assms
  obtain st where "emit_colors cs (replicate (length buf) 0, 0) = Inr st"
    and "emitted (length buf) st (ws_frame cs)"
    by (fastforce simp: appends_def)
  then show ?thesis
    using that [of "fst st"] by (cases st) (auto simp: ConvertNeoToSpi_def emitted_def)
qed

subsection \<open>Decoding\<close>

text \<open>What a WS2812 chain reads: the level in the middle of every three bit slot.\<close>

fun slot_levels :: "bool list \<Rightarrow> bool list" where
  "slot_levels (x # y # z # rest) = y # slot_levels rest"
| "slot_levels _ = []"

definition byte_of_bits :: "bool list \<Rightarrow> u8" where
  "byte_of_bits bs = horner_sum of_bool 2 (rev bs)"

fun read_colors :: "nat \<Rightarrow> bool list \<Rightarrow> ColorTriplet list" where
  "read_colors 0 bs = []"
| "read_colors (Suc n) bs =
     rgb (byte_of_bits (take 8 (drop 8 bs))) (byte_of_bits (take 8 bs))
         (byte_of_bits (take 8 (drop 16 bs))) # read_colors n (drop 24 bs)"

definition decode_frame :: "nat \<Rightarrow> bool list \<Rightarrow> ColorTriplet list" where
  "decode_frame n ws = read_colors n (slot_levels ws)"

lemma slot_levels_symbols:
  "slot_levels (concat (map ws_symbol bs) @ rest) = bs @ slot_levels rest"
  by (induction bs) (simp_all add: ws_symbol_def)

lemma byte_of_bits_inverse [simp]: "byte_of_bits (byte_bits w) = w"
proof -
  have "rev (byte_bits w) = map (bit w) [0..<8]"
    by (simp add: byte_bits_def upt_rec numeral_eq_Suc)
  then show ?thesis
    by (simp add: byte_of_bits_def horner_sum_bit_eq_take_bit take_bit_word_eq_self)
qed

lemma read_colors_bits: "read_colors (length cs) (concat (map color_bits cs) @ rest) = cs"
proof (induction cs)
  case Nil
  then show ?case by simp
next
  case (Cons c cs)
  have "drop 24 (color_bits c @ xs) = xs" for xs by simp
  moreover have "take 8 (color_bits c @ xs) = byte_bits (ct_g c)"
    "take 8 (drop 8 (color_bits c @ xs)) = byte_bits (ct_r c)"
    "take 8 (drop 16 (color_bits c @ xs)) = byte_bits (ct_b c)" for xs
    by (simp_all add: color_bits_def)
  ultimately show ?case using Cons.IH by (simp add: rgb_def)
qed

lemma decode_ws_frame: "decode_frame (length cs) (ws_frame cs @ rest) = cs"
  by (simp add: decode_frame_def ws_frame_def slot_levels_symbols read_colors_bits)

subsection \<open>Properties\<close>

lemma Refresh_ok:
  assumes "length (spiBuf seg) = DataLen (length cs)"
  obtains buf where "Refresh cs seg = Inr (seg\<lparr>spiBuf := buf, transfers := transfers seg @ [buf]\<rparr>)"
    and "length buf = DataLen (length cs)" and "wire_bits buf = ws_frame cs @ replicate 16 False"
proof -
  have "72 * length cs \<le> 8 * length (spiBuf seg)" using assms by (simp add: DataLen_eq)
  then obtain buf where "ConvertNeoToSpi cs (spiBuf seg) = Inr buf"
    and "length buf = DataLen (length cs)" and "wire_bits buf = ws_frame cs @ replicate 16 False"
    by (rule ConvertNeoToSpi_ok) (use assms in \<open>simp add: DataLen_eq\<close>)
  then show ?thesis using that by (simp add: Refresh_def)
qed

text \<open>
  C7. Refreshing a chain of \<^verbatim>\<open>N\<close> LEDs never writes outside the SPI buffer, and what goes
  out on the wire is, whatever the buffer held before, the WS2812 waveform of the frame
  (three slots per bit, green-red-blue, most significant bit first) and 16 low padding
  bits.
\<close>

theorem Refresh_sends_frame:
  assumes "length (spiBuf seg) = DataLen N" and "length cs = N"
  shows "\<exists>seg' buf. Refresh cs seg = Inr seg' \<and> transfers seg' = transfers seg @ [buf]
           \<and> spiBuf seg' = buf \<and> length buf = DataLen N
           \<and> wire_bits buf = ws_frame cs @ replicate PaddingBits False"
  using assms by (auto simp: PaddingBits_def elim!: Refresh_ok)

theorem Refresh_sends_frame_witness:
  "\<exists>seg' buf. Refresh [rgb 255 1 0] \<lparr>spiBuf = replicate 11 170, transfers = []\<rparr> = Inr seg'
     \<and> transfers seg' = [buf] \<and> spiBuf seg' = buf \<and> length buf = DataLen 1
     \<and> wire_bits buf = ws_frame [rgb 255 1 0] @ replicate PaddingBits False"
  using Refresh_sends_frame [of "\<lparr>spiBuf = replicate 11 170, transfers = []\<rparr>" 1 "[rgb 255 1 0]"]
  by (simp add: DataLen_eq)

text \<open>
  C8. The encoding loses nothing: reading the middle slot of every symbol of the transmitted
  buffer gives back exactly the colours of the frame, so two different frames never look
  the same on the wire.
\<close>

theorem ConvertNeoToSpi_roundtrip:
  assumes "length buf = DataLen (length cs)"
  shows "\<exists>buf'. ConvertNeoToSpi cs buf = Inr buf' \<and> decode_frame (length cs) (wire_bits buf') = cs"
proof -
  have "72 * length cs \<le> 8 * length buf" using assms by (simp add: DataLen_eq)
  then show ?thesis by (rule ConvertNeoToSpi_ok) (auto simp: decode_ws_frame)
qed

theorem ConvertNeoToSpi_roundtrip_witness:
  "\<exists>buf'. ConvertNeoToSpi [rgb 1 2 3, rgb 0 128 255] (replicate 20 0) = Inr buf'
     \<and> decode_frame 2 (wire_bits buf') = [rgb 1 2 3, rgb 0 128 255]"
  using ConvertNeoToSpi_roundtrip [of "replicate 20 0" "[rgb 1 2 3, rgb 0 128 255]"]
  by (simp add: DataLen_eq numeral_2_eq_2)

text \<open>
  Destroying the driver turns the chain off: its last transfer decodes to \<^verbatim>\<open>N\<close> black
  pixels.
\<close>

theorem destroy_LedSegment_blanks:
  assumes "length (spiBuf seg) = DataLen N"
  shows "\<exists>seg'. destroy_LedSegment N seg = Inr seg'
           \<and> decode_frame N (wire_bits (last (transfers seg'))) = replicate N (rgb 0 0 0)"
proof -
  have "length (spiBuf seg) = DataLen (length (replicate N (rgb 0 0 0)))" using assms by simp
  then show ?thesis
    by (rule Refresh_ok)
      (use decode_ws_frame [of "replicate N (rgb 0 0 0)"] in \<open>auto simp: destroy_LedSegment_def\<close>)
qed

theorem destroy_LedSegment_blanks_witness:
  "\<exists>seg'. destroy_LedSegment 2 \<lparr>spiBuf = replicate 20 255, transfers = []\<rparr> = Inr seg'
     \<and> decode_frame 2 (wire_bits (last (transfers seg'))) = replicate 2 (rgb 0 0 0)"
  using destroy_LedSegment_blanks [of "\<lparr>spiBuf = replicate 20 255, transfers = []\<rparr>" 2]
  by (simp add: DataLen_eq)

end
