(* ===== verification/LargeDigit.thy ===== *)
theory LargeDigit
  imports ShiftRegister SegmentFont NeoPixel
begin

text \<open>
  \<^verbatim>\<open>LargeDigitDriver.cpp\<close>: the host's own driver of the three large digits. The object's
  pins are references to \<^verbatim>\<open>mraa::Gpio\<close>; the model keeps the writes made on them. Updating
  bit-bangs the glyphs of digits 2, 1 and 0 into the register chain.
\<close>

subsection \<open>The driver\<close>

text \<open>One pass of the \<^verbatim>\<open>for (int x = 0; x < 8; x++)\<close> loop.\<close>

definition host_send :: "bool \<Rightarrow> gpio_event list" where
  "host_send v = [Write Clock False, Write Data v, Sleep 10, Write Clock True]"

definition shift_out :: "u8 \<Rightarrow> gpio_event list" where
  "shift_out seg = concat (map (\<lambda>x. host_send (drop_bit (7 - x) seg AND 1 \<noteq> 0)) [0..<8])"

definition UpdateLeds :: "SegmentLedState \<Rightarrow> gpio_event list" where
  "UpdateLeds state =
     [Write Latch False]
     @ shift_out (GetSegmentDigits (segments state ! 2))
     @ shift_out (GetSegmentDigits (segments state ! 1))
     @ shift_out (GetSegmentDigits (segments state ! 0))
     @ [Write Latch True]"

record LargeDigitDriver =
  end_flag :: bool
  shown_state :: SegmentLedState
  pin_writes :: "gpio_event list"

text \<open>The constructor leaves \<^verbatim>\<open>_state\<close> unset; \<open>s0\<close> is whatever it holds.\<close>

definition construct_LargeDigitDriver :: "SegmentLedState \<Rightarrow> LargeDigitDriver" where
  "construct_LargeDigitDriver s0 =
     \<lparr>end_flag = False, shown_state = s0,
      pin_writes = [Write Clock False, Write Data False, Write Latch False]\<rparr>"

definition destroy_LargeDigitDriver :: "LargeDigitDriver \<Rightarrow> LargeDigitDriver" where
  "destroy_LargeDigitDriver d = d\<lparr>end_flag := True\<rparr>"

definition UpdateSegments :: "SegmentLedState \<Rightarrow> LargeDigitDriver \<Rightarrow> LargeDigitDriver" where
  "UpdateSegments state d =
     d\<lparr>shown_state := state, pin_writes := pin_writes d @ UpdateLeds state\<rparr>"

text \<open>
  \<^verbatim>\<open>ThreadProc\<close> samples \<^verbatim>\<open>_end\<close> and \<^verbatim>\<open>_state\<close> on every pass; the argument lists the samples
  the loop sees. \<^verbatim>\<open>lastState\<close> is never initialised and never assigned, so it is one value
  \<open>lastState\<close> for the whole run.
\<close>

fun ThreadProc :: "SegmentLedState \<Rightarrow> (bool \<times> SegmentLedState) list \<Rightarrow> gpio_event list" where
  "ThreadProc lastState [] = []"
| "ThreadProc lastState ((ended, state) # samples) =
     (if ended then []
      else (if lastState \<noteq> state then UpdateLeds state else []) @ [Sleep 100000]
           @ ThreadProc lastState samples)"

subsection \<open>What it shows\<close>

interpretation host: bit_sender host_send
proof unfold_locales
  fix s :: register and v
  show "chain s \<noteq> [] \<Longrightarrow> chain (register_run s (host_send v)) = tl (chain s) @ [v]"
    "latch_level (register_run s (host_send v)) = latch_level s"
    "outputs (register_run s (host_send v)) = outputs s"
    by (simp_all add: host_send_def)
qed

lemma shift_out_bits: "shift_out seg = concat (map host_send (byte_bits seg))"
proof -
  have "(drop_bit (7 - x) seg AND 1 \<noteq> 0) = bit seg (7 - x)" for x
    by (simp add: and_one_eq odd_iff_mod_2_eq_one bit_iff_odd_drop_bit)
  then show ?thesis by (simp add: shift_out_def byte_bits_def comp_def)
qed

definition digit_frame :: "u8 list \<Rightarrow> bool list" where
  "digit_frame ds = concat (map (\<lambda>d. byte_bits (GetSegmentDigits d)) ds)"

lemma digit_frame_length [simp]: "length (digit_frame ds) = 8 * length ds"
  by (simp add: digit_frame_def concat_map_length_const)

lemma UpdateLeds_alt:
  "UpdateLeds st = Write Latch False # concat (map host_send
     (digit_frame [segments st ! 2, segments st ! 1, segments st ! 0])) @ [Write Latch True]"
  by (simp add: UpdateLeds_def shift_out_bits digit_frame_def)

text \<open>
  Whatever levels the pins had and whatever the 24 stage register held, one update of the
  large digits ends with the register's outputs showing the glyphs of digits 2, 1 and 0,
  eight bits each, most significant bit first.
\<close>

theorem UpdateSegments_shows:
  assumes "length (chain reg) = 24"
  shows "\<exists>new. pin_writes (UpdateSegments st d) = pin_writes d @ new
    \<and> outputs (register_run reg new)
        = digit_frame [segments st ! 2, segments st ! 1, segments st ! 0]
    \<and> shown_state (UpdateSegments st d) = st"
proof (intro exI conjI)
  show "pin_writes (UpdateSegments st d) = pin_writes d @ UpdateLeds st"
    by (simp add: UpdateSegments_def)
  show "outputs (register_run reg (UpdateLeds st))
      = digit_frame [segments st ! 2, segments st ! 1, segments st ! 0]"
    unfolding UpdateLeds_alt using assms by (intro host.latch_around_shows) simp
  show "shown_state (UpdateSegments st d) = st" by (simp add: UpdateSegments_def)
qed

theorem UpdateSegments_shows_witness:
  "\<exists>new. pin_writes (UpdateSegments (mk_segments [49, 50, 51, 32] 0)
       (construct_LargeDigitDriver (mk_segments [] 0)))
     = pin_writes (construct_LargeDigitDriver (mk_segments [] 0)) @ new
   \<and> outputs (register_run \<lparr>latch_level = True, clock_level = True, data_level = False,
        chain = replicate 24 True, outputs = []\<rparr> new) = digit_frame [51, 50, 49]
   \<and> shown_state (UpdateSegments (mk_segments [49, 50, 51, 32] 0)
       (construct_LargeDigitDriver (mk_segments [] 0))) = mk_segments [49, 50, 51, 32] 0"
  using UpdateSegments_shows [of "\<lparr>latch_level = True, clock_level = True, data_level = False,
        chain = replicate 24 True, outputs = []\<rparr>" "mk_segments [49, 50, 51, 32] 0"
        "construct_LargeDigitDriver (mk_segments [] 0)"]
  by (simp add: mk_segments_def)

end
