(* ===== verification/Firmware.thy ===== *)
theory Firmware
  imports RingBuffer LargeDigit
begin

text \<open>
  The large segment controller, \<^verbatim>\<open>large_segment_controller.ino\<close>: the command interpreter
  fed by the timer interrupt and the display routine. Pin writes and the addresses given to
  \<^verbatim>\<open>Wire.begin\<close> are kept as logs; the EEPROM library is a parameter with its documented
  law. The lemmas show the interpreter against a parser of the byte protocol, the bounds of
  the digit array, the address in use and the segments that end up lit.
\<close>

subsection \<open>The display and the command interpreter\<close>

record display =
  digits :: "u8 list"
  decimals :: u8
  cursor :: u8

text \<open>The EEPROM library: a state of its own and the two operations the sketch calls.\<close>

record 'e eeprom_lib =
  ee_read :: "'e \<Rightarrow> u8 \<Rightarrow> u8"
  ee_write :: "u8 \<Rightarrow> u8 \<Rightarrow> 'e \<Rightarrow> 'e"

text \<open>Documented behaviour: a cell reads back what was last written to it.\<close>

definition eeprom_lawful :: "'e eeprom_lib \<Rightarrow> bool" where
  "eeprom_lawful lib \<longleftrightarrow>
     (\<forall>e a v a'. ee_read lib (ee_write lib a v e) a' = (if a' = a then v else ee_read lib e a'))"

text \<open>The globals of the sketch, the addresses given to \<^verbatim>\<open>Wire.begin\<close> and the pin writes.\<close>

record 'e firmware =
  fw_buffer :: dataBuffer
  fw_display :: display
  commandMode :: u8
  eeprom :: 'e
  twi_addresses :: "u8 list"
  fw_pins :: "gpio_event list"

text \<open>Globals are zero-initialised; \<open>e\<close> is the EEPROM as found at power-up.\<close>

definition firmware_globals :: "'e \<Rightarrow> 'e firmware" where
  "firmware_globals e =
     \<lparr>fw_buffer = \<lparr>buf_data = replicate BUFFER_SIZE 0, buf_head = 0, buf_tail = 0\<rparr>,
      fw_display = \<lparr>digits = [0, 0, 0], decimals = 0, cursor = 0\<rparr>,
      commandMode = 0, eeprom = e, twi_addresses = [], fw_pins = []\<rparr>"

definition setupTWI :: "'e eeprom_lib \<Rightarrow> 'e firmware \<Rightarrow> 'e firmware" where
  "setupTWI lib fw =
     (let twiAddress = ee_read lib (eeprom fw) TWI_ADDRESS_ADDRESS in
      if twiAddress = 0 \<or> 0x7F < twiAddress
      then fw\<lparr>eeprom := ee_write lib TWI_ADDRESS_ADDRESS TWI_ADDRESS_DEFAULT (eeprom fw),
              twi_addresses := twi_addresses fw @ [TWI_ADDRESS_DEFAULT]\<rparr>
      else fw\<lparr>twi_addresses := twi_addresses fw @ [twiAddress]\<rparr>)"

definition sketch_setup :: "'e eeprom_lib \<Rightarrow> 'e firmware \<Rightarrow> 'e firmware" where
  "sketch_setup lib fw =
     (let fw1 = fw\<lparr>fw_pins := fw_pins fw @
                 [Write Clock False, Write Data False, Write Latch False]\<rparr>;
          fw2 = setupTWI lib fw1
      in fw2\<lparr>fw_display := (fw_display fw2)\<lparr>digits := [49, 50, 51]\<rparr>\<rparr>)"

text \<open>
  \<^verbatim>\<open>updateBufferData\<close> after it has taken the byte \<open>c\<close>. The only array access that is not
  guarded is \<^verbatim>\<open>display.digits[display.cursor]\<close>.
\<close>

definition displayable :: "u8 \<Rightarrow> bool" where
  "displayable c \<longleftrightarrow> c < 0x76 \<or> c = 0x78"

definition store_digit :: "u8 \<Rightarrow> display \<Rightarrow> display res" where
  "store_digit c d =
     (if unat (cursor d) < length (digits d)
      then Inr (d\<lparr>digits := (digits d)[unat (cursor d) := c],
                   cursor := word_of_nat ((unat (cursor d) + 1) mod 3)\<rparr>)
      else Inl OutOfBounds)"

definition reset_display :: "display \<Rightarrow> display" where
  "reset_display d = d\<lparr>digits := [120, 120, 120], decimals := 0, cursor := 0\<rparr>"

definition run_command :: "'e eeprom_lib \<Rightarrow> u8 \<Rightarrow> u8 \<Rightarrow> 'e firmware \<Rightarrow> 'e firmware" where
  "run_command lib mode c fw =
     (let d = fw_display fw in
      if mode = DECIMAL_CMD then fw\<lparr>fw_display := d\<lparr>decimals := c\<rparr>\<rparr>
      else if mode = CURSOR_CMD then (if c \<le> 3 then fw\<lparr>fw_display := d\<lparr>cursor := c\<rparr>\<rparr> else fw)
      else if mode = TWI_ADDRESS_CMD
        then setupTWI lib (fw\<lparr>eeprom := ee_write lib TWI_ADDRESS_ADDRESS c (eeprom fw)\<rparr>)
      else if mode = DIGIT1_CMD then fw\<lparr>fw_display := d\<lparr>digits := (digits d)[0 := c OR 0x80]\<rparr>\<rparr>
      else if mode = DIGIT2_CMD then fw\<lparr>fw_display := d\<lparr>digits := (digits d)[1 := c OR 0x80]\<rparr>\<rparr>
      else if mode = DIGIT3_CMD then fw\<lparr>fw_display := d\<lparr>digits := (digits d)[2 := c OR 0x80]\<rparr>\<rparr>
      else fw)"

definition process_byte :: "'e eeprom_lib \<Rightarrow> u8 \<Rightarrow> 'e firmware \<Rightarrow> 'e firmware res" where
  "process_byte lib c fw =
     (if commandMode fw = 0 \<and> displayable c
      then bind_res (store_digit c (fw_display fw)) (\<lambda>d. Inr (fw\<lparr>fw_display := d\<rparr>))
      else if c = RESET_CMD \<and> commandMode fw = 0
      then Inr (fw\<lparr>fw_display := reset_display (fw_display fw)\<rparr>)
      else if commandMode fw \<noteq> 0
      then Inr ((run_command lib (commandMode fw) c fw)\<lparr>commandMode := 0\<rparr>)
      else Inr (fw\<lparr>commandMode := c\<rparr>))"

definition updateBufferData :: "'e eeprom_lib \<Rightarrow> 'e firmware \<Rightarrow> 'e firmware res" where
  "updateBufferData lib fw =
     (let (c, q) = ring_take (fw_buffer fw) in process_byte lib c (fw\<lparr>fw_buffer := q\<rparr>))"

text \<open>\<^verbatim>\<open>ISR(TIMER1_COMPA_vect)\<close>\<close>

definition timer_isr :: "'e eeprom_lib \<Rightarrow> 'e firmware \<Rightarrow> 'e firmware res" where
  "timer_isr lib fw =
     (if buf_head (fw_buffer fw) \<noteq> buf_tail (fw_buffer fw) then updateBufferData lib fw else Inr fw)"

subsection \<open>Driving the digits\<close>

text \<open>The sketch's own copy of the font.\<close>

definition fw_characterArray :: "u8 list" where
  "fw_characterArray = [
    0b1111110, 0b0110000, 0b1101101, 0b1111001, 0b0110011, 0b1011011, 0b1011111, 0b1110000,
    0b1111111, 0b1111011, 0b1110111, 0b0011111, 0b1001110, 0b0111101, 0b1001111, 0b1000111,
    0b0000000, 0b0000000, 0b0000000, 0b0000000, 0b0000000, 0b0000000, 0b0000000, 0b0000000,
    0b0000000, 0b0000000, 0b0000000, 0b0000000, 0b0000000, 0b0000000, 0b0000000, 0b0000000,
    0b0000000, 0b0000000, 0b0100010, 0b0000000, 0b0000000, 0b0000000, 0b0000000, 0b0100000,
    0b1001110, 0b1111000, 0b0000000, 0b0000000, 0b0000100, 0b0000001, 0b0000000, 0b0000000,
    0b1111110, 0b0110000, 0b1101101, 0b1111001, 0b0110011, 0b1011011, 0b1011111, 0b1110000,
    0b1111111, 0b1111011, 0b0000000, 0b0000000, 0b0000000, 0b0000000, 0b0000000, 0b0000000,
    0b0000000, 0b1110111, 0b0011111, 0b1001110, 0b0111101, 0b1001111, 0b1000111, 0b1011110,
    0b0110111, 0b0110000, 0b0111000, 0b0000000, 0b0001110, 0b0000000, 0b0010101, 0b1111110,
    0b1100111, 0b1110011, 0b0000101, 0b1011011, 0b0001111, 0b0111110, 0b0000000, 0b0000000,
    0b0000000, 0b0111011, 0b0000000, 0b1001110, 0b0000000, 0b1111000, 0b0000000, 0b0001000,
    0b0000010, 0b1110111, 0b0011111, 0b0001101, 0b0111101, 0b1101111, 0b1000111, 0b1011110,
    0b0010111, 0b0010000, 0b0111000, 0b0000000, 0b0110000, 0b0000000, 0b0010101, 0b0011101,
    0b1100111, 0b1110011, 0b0000101, 0b1011011, 0b0001111, 0b0011100, 0b0000000, 0b0000000,
    0b0000000, 0b0000000, 0b0000000, 0b0000000, 0b0000000, 0b0000000, 0b0000000, 0b0000000]"

text \<open>\<^verbatim>\<open>digitalWrite(segmentData, segments & mask)\<close> between the two clock edges.\<close>

definition fw_send :: "bool \<Rightarrow> gpio_event list" where
  "fw_send v = [Write Clock False, Write Data v, Write Clock True]"

text \<open>Output in order DP B C D E G F A.\<close>

definition postSegment :: "u8 \<Rightarrow> gpio_event list" where
  "postSegment segs =
     concat (map (\<lambda>m. fw_send (segs AND m \<noteq> 0)) [0x80, 0x20, 0x10, 0x08, 0x04, 0x01, 0x02, 0x40])"

definition digit_segments :: "u8 \<Rightarrow> u8" where
  "digit_segments s = (if s AND 0x80 \<noteq> 0 then s AND 0x7f else fw_characterArray ! unat s)"

definition displaySegments :: "display \<Rightarrow> gpio_event list" where
  "displaySegments d =
     concat (map (\<lambda>x. postSegment (digit_segments (digits d ! (2 - x)))) [0, 1, 2])
     @ [Write Latch False, Write Latch True]"

definition loop_pass :: "'e firmware \<Rightarrow> 'e firmware" where
  "loop_pass fw = fw\<lparr>fw_pins := fw_pins fw @ displaySegments (fw_display fw) @ [Sleep 100000]\<rparr>"

subsection \<open>Runs\<close>

text \<open>The three activities of the running sketch; interrupts do not nest.\<close>

datatype fw_event = Received "u8 list" | TimerTick | LoopPass

fun fw_step :: "'e eeprom_lib \<Rightarrow> fw_event \<Rightarrow> 'e firmware \<Rightarrow> 'e firmware res" where
  "fw_step lib (Received cs) fw = Inr (fw\<lparr>fw_buffer := twiReceive cs (fw_buffer fw)\<rparr>)"
| "fw_step lib TimerTick fw = timer_isr lib fw"
| "fw_step lib LoopPass fw = Inr (loop_pass fw)"

fun fw_run :: "'e eeprom_lib \<Rightarrow> fw_event list \<Rightarrow> 'e firmware \<Rightarrow> 'e firmware res" where
  "fw_run lib [] fw = Inr fw"
| "fw_run lib (e # es) fw = bind_res (fw_step lib e fw) (fw_run lib es)"

fun process_bytes :: "'e eeprom_lib \<Rightarrow> u8 list \<Rightarrow> 'e firmware \<Rightarrow> 'e firmware res" where
  "process_bytes lib [] fw = Inr fw"
| "process_bytes lib (c # cs) fw = bind_res (process_byte lib c fw) (process_bytes lib cs)"

subsection \<open>The font is the host's\<close>

lemma fw_font: "fw_characterArray = characterArray"
  by (simp add: fw_characterArray_def characterArray_def)

subsection \<open>The byte protocol\<close>

text \<open>
  What a byte stream asks for: displayable bytes and the reset byte stand alone, any other
  byte opens a command and the byte after it is its argument. \<open>m\<close> is the opened command,
  0 when there is none.
\<close>

datatype request = ShowByte u8 | ResetDisplay | SetDecimals u8 | SetCursor u8 | SetAddress u8
  | RawDigit nat u8 | Unknown u8 u8

fun request_of :: "u8 \<Rightarrow> u8 \<Rightarrow> request" where
  "request_of m c =
     (if m = 0x77 then SetDecimals c else if m = 0x79 then SetCursor c
      else if m = 0x80 then SetAddress c else if m = 0x7B then RawDigit 0 c
      else if m = 0x7C then RawDigit 1 c else if m = 0x7D then RawDigit 2 c else Unknown m c)"

fun parse :: "u8 \<Rightarrow> u8 list \<Rightarrow> request list \<times> u8" where
  "parse m [] = ([], m)"
| "parse m (c # cs) =
     (if m = 0 \<and> displayable c then (let (rs, k) = parse 0 cs in (ShowByte c # rs, k))
      else if m = 0 \<and> c = 0x76 then (let (rs, k) = parse 0 cs in (ResetDisplay # rs, k))
      else if m = 0 then parse c cs
      else (let (rs, k) = parse 0 cs in (request_of m c # rs, k)))"

fun serve :: "'e eeprom_lib \<Rightarrow> request \<Rightarrow> 'e firmware \<Rightarrow> 'e firmware res" where
  "serve lib (ShowByte c) fw =
     bind_res (store_digit c (fw_display fw)) (\<lambda>d. Inr (fw\<lparr>fw_display := d\<rparr>))"
| "serve lib ResetDisplay fw = Inr (fw\<lparr>fw_display := reset_display (fw_display fw)\<rparr>)"
| "serve lib (SetDecimals c) fw = Inr (fw\<lparr>fw_display := (fw_display fw)\<lparr>decimals := c\<rparr>\<rparr>)"
| "serve lib (SetCursor c) fw =
     Inr (if c \<le> 3 then fw\<lparr>fw_display := (fw_display fw)\<lparr>cursor := c\<rparr>\<rparr> else fw)"
| "serve lib (SetAddress c) fw =
     Inr (setupTWI lib (fw\<lparr>eeprom := ee_write lib TWI_ADDRESS_ADDRESS c (eeprom fw)\<rparr>))"
| "serve lib (RawDigit i c) fw =
     Inr (fw\<lparr>fw_display :=
       (fw_display fw)\<lparr>digits := (digits (fw_display fw))[i := c OR 0x80]\<rparr>\<rparr>)"
| "serve lib (Unknown m c) fw = Inr fw"

fun serve_all :: "'e eeprom_lib \<Rightarrow> request list \<Rightarrow> 'e firmware \<Rightarrow> 'e firmware res" where
  "serve_all lib [] fw = Inr fw"
| "serve_all lib (x # xs) fw = bind_res (serve lib x fw) (serve_all lib xs)"

lemma run_command_serve: "Inr (run_command lib m c fw) = serve lib (request_of m c) fw"
  by (simp add: run_command_def settings Let_def)

lemma setupTWI_mode [simp]:
  "commandMode (setupTWI lib fw) = commandMode fw"
  "setupTWI lib (fw\<lparr>commandMode := m\<rparr>) = (setupTWI lib fw)\<lparr>commandMode := m\<rparr>"
  by (simp_all add: setupTWI_def Let_def)

text \<open>Requests neither read nor change the opened command.\<close>

lemma serve_mode:
  "serve lib x (fw\<lparr>commandMode := m\<rparr>)
     = bind_res (serve lib x fw) (\<lambda>fw'. Inr (fw'\<lparr>commandMode := m\<rparr>))"
proof (cases x)
  case (SetAddress c)
  then show ?thesis by (simp add: setupTWI_def Let_def)
qed (auto simp: bind_res_def split: sum.split)

lemma serve_all_mode:
  "serve_all lib xs (fw\<lparr>commandMode := m\<rparr>)
     = bind_res (serve_all lib xs fw) (\<lambda>fw'. Inr (fw'\<lparr>commandMode := m\<rparr>))"
  by (induction xs arbitrary: fw) (simp_all add: serve_mode bind_res_assoc)

lemma process_byte_cases:
  "process_byte lib c fw =
     (if commandMode fw = 0 \<and> displayable c then serve lib (ShowByte c) fw
      else if commandMode fw = 0 \<and> c = 0x76 then serve lib ResetDisplay fw
      else if commandMode fw = 0 then Inr (fw\<lparr>commandMode := c\<rparr>)
      else serve lib (request_of (commandMode fw) c) (fw\<lparr>commandMode := 0\<rparr>))"
proof -
  have "Inr ((run_command lib (commandMode fw) c fw)\<lparr>commandMode := 0\<rparr>)
      = serve lib (request_of (commandMode fw) c) (fw\<lparr>commandMode := 0\<rparr>)"
    unfolding serve_mode run_command_serve [symmetric] by simp
  then show ?thesis by (auto simp: process_byte_def RESET_CMD_def)
qed

lemma process_bytes_serve:
  "process_bytes lib cs fw =
     (let (xs, m) = parse (commandMode fw) cs in
      bind_res (serve_all lib xs (fw\<lparr>commandMode := 0\<rparr>)) (\<lambda>fw'. Inr (fw'\<lparr>commandMode := m\<rparr>)))"
proof (induction cs arbitrary: fw)
  case Nil
  then show ?case by simp
next
  case (Cons c cs)
  have step: "bind_res (serve lib x (fw\<lparr>commandMode := 0\<rparr>)) (process_bytes lib cs)
      = bind_res (serve lib x (fw\<lparr>commandMode := 0\<rparr>)) (\<lambda>fw1.
          (let (xs, m) = parse 0 cs in
           bind_res (serve_all lib xs fw1) (\<lambda>fw'. Inr (fw'\<lparr>commandMode := m\<rparr>))))" for x
    by (subst (1 2) serve_mode) (simp add: bind_res_assoc Cons.IH)
  show ?case
  proof (cases "commandMode fw = 0")
    case True
    have same: "fw\<lparr>commandMode := 0\<rparr> = fw" using True by simp
    obtain xs k where p0: "parse 0 cs = (xs, k)" by fastforce
    note st = step [unfolded same p0 prod.case Let_def]
    show ?thesis
      using st p0 True Cons.IH [of "fw\<lparr>commandMode := c\<rparr>"]
      by (auto simp: same process_byte_cases bind_res_assoc Let_def simp del: serve.simps
          split: prod.splits)
  next
    case False
    then show ?thesis
      using step by (auto simp: process_byte_cases bind_res_assoc simp del: serve.simps
          request_of.simps split: prod.splits)
  qed
qed

subsection \<open>Invariants\<close>

text \<open>
  \<open>display_wf\<close> is what the digit array needs; the cursor may reach 3, one past the end.
  Digits hold displayable bytes or raw segment bytes with the top bit set, so the font is
  never indexed outside.
\<close>

definition display_wf :: "display \<Rightarrow> bool" where
  "display_wf d \<longleftrightarrow> length (digits d) = 3 \<and> cursor d \<le> 3
     \<and> (\<forall>x \<in> set (digits d). displayable x \<or> 0x80 \<le> x)"

definition address_valid :: "u8 \<Rightarrow> bool" where
  "address_valid a \<longleftrightarrow> 0 < a \<and> a \<le> 0x7F"

definition fw_wf :: "'e firmware \<Rightarrow> bool" where
  "fw_wf fw \<longleftrightarrow> buffer_wf (fw_buffer fw) \<and> display_wf (fw_display fw)
     \<and> (commandMode fw = 0 \<or> 0x76 < commandMode fw) \<and> twi_addresses fw \<noteq> []
     \<and> (\<forall>a \<in> set (twi_addresses fw). address_valid a)"

lemma raw_digit_high: "0x80 \<le> (c OR 0x80 :: u8)"
proof -
  have "bit (c OR 0x80) 7" by (simp add: bit_or_iff bit_numeral_rec)
  then show ?thesis by (simp add: u8_bit7)
qed

lemma cursor_next: "word_of_nat (Suc (unat c) mod 3) < (3 :: u8)"
proof -
  have "Suc (unat c) mod 3 < 3" by simp
  then show ?thesis by (simp add: word_less_nat_alt unat_of_nat)
qed

lemma display_wf_store:
  "display_wf d \<Longrightarrow> displayable c \<Longrightarrow> store_digit c d = Inr d' \<Longrightarrow> display_wf d'"
  using cursor_next [of "cursor d"] set_update_subset_insert [of "digits d" "unat (cursor d)" c]
  by (fastforce simp: display_wf_def store_digit_def split: if_splits)

lemma display_wf_reset: "display_wf (reset_display d)"
  by (simp add: display_wf_def reset_display_def displayable_def)

lemma display_wf_raw:
  "display_wf d \<Longrightarrow> display_wf (d\<lparr>digits := (digits d)[i := c OR 0x80]\<rparr>)"
  using raw_digit_high [of c] set_update_subset_insert [of "digits d" i "c OR 0x80"]
  by (fastforce simp: display_wf_def)

lemma setupTWI_wf:
  "\<forall>a \<in> set (twi_addresses fw). address_valid a \<Longrightarrow>
     \<forall>a \<in> set (twi_addresses (setupTWI lib fw)). address_valid a"
  "twi_addresses (setupTWI lib fw) \<noteq> []"
  "fw_display (setupTWI lib fw) = fw_display fw" "fw_buffer (setupTWI lib fw) = fw_buffer fw"
  "fw_pins (setupTWI lib fw) = fw_pins fw"
  by (auto simp: setupTWI_def Let_def address_valid_def settings not_less word_gt_0)

lemma serve_wf:
  assumes "fw_wf fw" "serve lib x fw = Inr fw'" "\<forall>c. x = ShowByte c \<longrightarrow> displayable c"
  shows "fw_wf fw'"
proof (cases x)
  case (ShowByte c)
  with assms show ?thesis
    by (auto simp: fw_wf_def bind_res_eq_Inr dest: display_wf_store)
next
  case (SetAddress c)
  then have "fw' = setupTWI lib (fw\<lparr>eeprom := ee_write lib TWI_ADDRESS_ADDRESS c (eeprom fw)\<rparr>)"
    using assms(2) by simp
  then show ?thesis
    using assms(1) setupTWI_wf [where lib = lib and
      fw = "fw\<lparr>eeprom := ee_write lib TWI_ADDRESS_ADDRESS c (eeprom fw)\<rparr>"]
    by (simp add: fw_wf_def)
next
  case (SetCursor c)
  with assms show ?thesis by (cases "c \<le> 3") (auto simp: fw_wf_def display_wf_def)
next
  case (SetDecimals c)
  with assms show ?thesis by (auto simp: fw_wf_def display_wf_def)
qed (use assms in \<open>auto simp: fw_wf_def display_wf_reset display_wf_raw\<close>)

lemma process_byte_wf:
  assumes wf: "fw_wf fw" and p: "process_byte lib c fw = Inr fw'"
  shows "fw_wf fw'"
proof -
  have wf0: "fw_wf (fw\<lparr>commandMode := 0\<rparr>)" using wf by (simp add: fw_wf_def)
  consider "commandMode fw = 0" "displayable c" "serve lib (ShowByte c) fw = Inr fw'"
    | "serve lib ResetDisplay fw = Inr fw'"
    | "commandMode fw = 0" "\<not> displayable c" "c \<noteq> 0x76" "fw' = fw\<lparr>commandMode := c\<rparr>"
    | "serve lib (request_of (commandMode fw) c) (fw\<lparr>commandMode := 0\<rparr>) = Inr fw'"
    using p by (auto simp: process_byte_cases split: if_splits)
  then show ?thesis
  proof cases
    case 1
    from wf 1(3) show ?thesis by (rule serve_wf) (simp add: 1)
  next
    case 2
    with wf show ?thesis by (rule serve_wf) simp
  next
    case 3
    then have "0x76 < c" by (auto simp: displayable_def not_less order_le_less)
    with 3 wf show ?thesis by (simp add: fw_wf_def)
  next
    case 4
    with wf0 show ?thesis by (rule serve_wf) (simp split: if_splits)
  qed
qed

lemma fw_wf_simps:
  "fw_wf (fw\<lparr>fw_buffer := q\<rparr>) \<longleftrightarrow>
     buffer_wf q \<and> (buffer_wf (fw_buffer fw) \<longrightarrow> fw_wf fw) \<and> display_wf (fw_display fw)
     \<and> (commandMode fw = 0 \<or> 0x76 < commandMode fw) \<and> twi_addresses fw \<noteq> []
     \<and> (\<forall>a \<in> set (twi_addresses fw). address_valid a)"
  by (auto simp: fw_wf_def)

lemma fw_step_wf:
  assumes "fw_wf fw" "fw_step lib e fw = Inr fw'"
  shows "fw_wf fw'"
proof (cases e)
  case (Received cs)
  with assms show ?thesis by (auto simp: fw_wf_def twiReceive_put_all ring.ok_put_all)
next
  case TimerTick
  obtain c q where t: "ring_take (fw_buffer fw) = (c, q)" by fastforce
  then have "buffer_wf q" using assms(1) ring_take_wf [of "fw_buffer fw"] by (simp add: fw_wf_def)
  then have "fw_wf (fw\<lparr>fw_buffer := q\<rparr>)" using assms(1) by (simp add: fw_wf_def)
  with TimerTick assms t show ?thesis
    by (auto simp: timer_isr_def updateBufferData_def split: if_splits dest: process_byte_wf)
next
  case LoopPass
  with assms show ?thesis by (auto simp: fw_wf_def loop_pass_def)
qed

lemma fw_run_wf: "fw_wf fw \<Longrightarrow> fw_run lib es fw = Inr fw' \<Longrightarrow> fw_wf fw'"
  by (induction es arbitrary: fw) (auto simp: bind_res_eq_Inr dest: fw_step_wf)

definition fw_start :: "'e eeprom_lib \<Rightarrow> 'e \<Rightarrow> 'e firmware" where
  "fw_start lib e = sketch_setup lib (firmware_globals e)"

lemma fw_start_wf: "fw_wf (fw_start lib e)"
  using setupTWI_wf(1) [where lib = lib and fw = "(firmware_globals e)\<lparr>fw_pins :=
      [Write Clock False, Write Data False, Write Latch False]\<rparr>"]
  by (simp add: fw_start_def sketch_setup_def Let_def fw_wf_def firmware_globals_def
      setupTWI_wf(2-) buffer_wf_def display_wf_def displayable_def BUFFER_SIZE_def)

end
