(* ===== verification/FirmwareSpec.thy ===== *)
theory FirmwareSpec
  imports Firmware
begin

text \<open>
  What the segment controller guarantees: the protocol it implements, when its digit array
  is written out of bounds, which address it answers to, and what its outputs show.
\<close>

subsection \<open>Protocol\<close>

text \<open>
  C6. Feeding bytes to the interpreter one interrupt at a time is the same as parsing the byte
  stream into requests and serving those: commands with their argument byte may be split
  anywhere, an unknown command swallows one argument and changes nothing, and the opened
  command left over is the one the parser reports.
\<close>

theorem process_bytes_refines_protocol:
  "process_bytes lib cs fw =
     (let (xs, m) = parse (commandMode fw) cs in
      bind_res (serve_all lib xs (fw\<lparr>commandMode := 0\<rparr>)) (\<lambda>fw'. Inr (fw'\<lparr>commandMode := m\<rparr>)))"
  by (rule process_bytes_serve)

subsection \<open>The digit array\<close>

lemma cursor_at_3: "cursor d \<le> 3 \<Longrightarrow> unat (cursor d) < 3 \<longleftrightarrow> cursor d \<noteq> 3"
proof -
  assume "cursor d \<le> 3"
  then have "cursor d < 3 \<longleftrightarrow> cursor d \<noteq> 3" by auto
  then show ?thesis by (simp add: word_less_nat_alt)
qed

text \<open>
  C9. In a well-formed state a byte is written outside \<^verbatim>\<open>display.digits\<close> exactly when it is
  displayable, no command is open and the cursor stands at 3, which \<^verbatim>\<open>CURSOR_CMD\<close> accepts
  although there are only three digits. Every other byte is processed without a fault and
  leads to a well-formed state again.
\<close>

theorem process_byte_safe_iff:
  assumes "fw_wf fw"
  shows "case process_byte lib c fw of
           Inl f \<Rightarrow> f = OutOfBounds \<and> commandMode fw = 0 \<and> displayable c
                      \<and> cursor (fw_display fw) = 3
         | Inr fw' \<Rightarrow> \<not> (commandMode fw = 0 \<and> displayable c \<and> cursor (fw_display fw) = 3)
                      \<and> fw_wf fw'"
proof -
  have d: "length (digits (fw_display fw)) = 3" "cursor (fw_display fw) \<le> 3"
    using assms by (auto simp: fw_wf_def display_wf_def)
  show ?thesis
  proof (cases "process_byte lib c fw")
    case (Inl f)
    then show ?thesis
      using d cursor_at_3 [OF d(2)] by (auto simp: process_byte_def store_digit_def split: if_splits)
  next
    case (Inr fw')
    then have "fw_wf fw'" using process_byte_wf [OF assms] by simp
    with Inr show ?thesis using d by (auto simp: process_byte_def store_digit_def split: if_splits)
  qed
qed

text \<open>A lawful EEPROM to instantiate the parameter with: an array of cells.\<close>

definition cell_lib :: "(u8 \<Rightarrow> u8) eeprom_lib" where
  "cell_lib = \<lparr>ee_read = (\<lambda>e a. e a), ee_write = (\<lambda>a v e. e(a := v))\<rparr>"

lemma cell_lib_lawful: "eeprom_lawful cell_lib"
  by (simp add: eeprom_lawful_def cell_lib_def)

theorem process_byte_safe_iff_witness:
  "case process_byte cell_lib 49 (fw_start cell_lib (\<lambda>_. 255)) of
     Inl f \<Rightarrow> f = OutOfBounds \<and> commandMode (fw_start cell_lib (\<lambda>_. 255)) = 0 \<and> displayable 49
                \<and> cursor (fw_display (fw_start cell_lib (\<lambda>_. 255))) = 3
   | Inr fw' \<Rightarrow> \<not> (commandMode (fw_start cell_lib (\<lambda>_. 255)) = 0 \<and> displayable 49
                    \<and> cursor (fw_display (fw_start cell_lib (\<lambda>_. 255))) = 3) \<and> fw_wf fw'"
  using process_byte_safe_iff [OF fw_start_wf [of cell_lib "\<lambda>_. 255"],
      where lib = cell_lib and c = 49] by simp

lemma process_byte_buffer:
  "process_byte lib c (fw\<lparr>fw_buffer := q\<rparr>)
     = bind_res (process_byte lib c fw) (\<lambda>fw'. Inr (fw'\<lparr>fw_buffer := q\<rparr>))"
  by (auto simp: process_byte_def run_command_def setupTWI_def bind_res_def Let_def
      split: sum.split)

lemma process_bytes_buffer:
  "process_bytes lib cs (fw\<lparr>fw_buffer := q\<rparr>)
     = bind_res (process_bytes lib cs fw) (\<lambda>fw'. Inr (fw'\<lparr>fw_buffer := q\<rparr>))"
  by (induction cs arbitrary: fw) (simp_all add: process_byte_buffer bind_res_assoc)

definition drained :: "nat \<Rightarrow> dataBuffer \<Rightarrow> dataBuffer" where
  "drained n = ((\<lambda>q. snd (ring_take q)) ^^ n)"

text \<open>As many timer interrupts as bytes are waiting process exactly those bytes.\<close>

lemma ticks_process:
  assumes "buffer_wf (fw_buffer fw)" "ring_items (fw_buffer fw) = cs"
  shows "fw_run lib (replicate (length cs) TimerTick) fw
     = bind_res (process_bytes lib cs fw)
         (\<lambda>fw'. Inr (fw'\<lparr>fw_buffer := drained (length cs) (fw_buffer fw)\<rparr>))"
  using assms
proof (induction cs arbitrary: fw)
  case Nil
  have "fw_run lib [] fw = Inr (fw\<lparr>fw_buffer := fw_buffer fw\<rparr>)" by simp
  then show ?case by (simp add: drained_def)
next
  case (Cons c cs)
  let ?q = "snd (ring_take (fw_buffer fw))"
  have it: "fst (ring_take (fw_buffer fw)) = c" "ring_items ?q = cs"
    using ring_take_items [of "fw_buffer fw"] Cons.prems by simp_all
  have wf: "buffer_wf ?q" using Cons.prems(1) by (rule ring_take_wf)
  have ne: "buf_head (fw_buffer fw) \<noteq> buf_tail (fw_buffer fw)"
    using ring_empty_iff [OF Cons.prems(1)] Cons.prems(2) by (simp add: ring_empty_def)
  have keep: "fw_buffer fw' = ?q" if "process_byte lib c (fw\<lparr>fw_buffer := ?q\<rparr>) = Inr fw'" for fw'
    using that by (auto simp: process_byte_buffer bind_res_eq_Inr)
  have d: "drained (length (c # cs)) (fw_buffer fw) = drained (length cs) ?q"
    by (simp add: drained_def funpow_Suc_right del: funpow.simps)
  have "fw_run lib (replicate (length (c # cs)) TimerTick) fw
      = bind_res (process_byte lib c (fw\<lparr>fw_buffer := ?q\<rparr>))
          (fw_run lib (replicate (length cs) TimerTick))"
    using ne it(1) by (simp add: timer_isr_def updateBufferData_def case_prod_beta)
  also have "\<dots> = bind_res (process_byte lib c (fw\<lparr>fw_buffer := ?q\<rparr>))
      (\<lambda>fw1. bind_res (process_bytes lib cs fw1)
         (\<lambda>fw'. Inr (fw'\<lparr>fw_buffer := drained (length cs) ?q\<rparr>)))"
    using keep Cons.IH wf it(2)
    by (cases "process_byte lib c (fw\<lparr>fw_buffer := ?q\<rparr>)") simp_all
  also have "\<dots> = bind_res (process_bytes lib (c # cs) fw)
      (\<lambda>fw'. Inr (fw'\<lparr>fw_buffer := drained (length cs) ?q\<rparr>))"
    by (simp add: process_byte_buffer process_bytes_buffer bind_res_assoc)
  finally show ?case by (simp only: d)
qed

lemma run_received:
  assumes "buffer_wf (fw_buffer fw)" "ring_items (fw_buffer fw) = []" "length cs \<le> 63"
  obtains q where "fw_run lib (Received cs # replicate (length cs) TimerTick) fw
    = bind_res (process_bytes lib cs fw) (\<lambda>fw'. Inr (fw'\<lparr>fw_buffer := q\<rparr>))"
    and "buffer_wf q" and "ring_items q = []"
proof -
  let ?q = "twiReceive cs (fw_buffer fw)"
  have q: "buffer_wf ?q" "ring_items ?q = cs"
    using assms by (simp_all add: twiReceive_put_all ring.ok_put_all ring.items_put_all)
  have dr: "buffer_wf (drained n p) \<and> ring_items (drained n p) = drop n (ring_items p)"
    if "buffer_wf p" "n \<le> length (ring_items p)" for n p
    using that
  proof (induction n)
    case (Suc n)
    then have "ring_items (drained n p) \<noteq> []" "buffer_wf (drained n p)" by simp_all
    moreover have "drop (Suc n) (ring_items p) = tl (drop n (ring_items p))"
      by (simp add: drop_Suc tl_drop)
    ultimately show ?case
      using ring_take_items [of "drained n p"] ring_take_wf [of "drained n p"] Suc
      by (metis (no_types, lifting) Suc_leD comp_apply drained_def funpow.simps(2) list.sel(3))
  qed (simp add: drained_def)
  have "fw_run lib (Received cs # replicate (length cs) TimerTick) fw
      = bind_res (process_bytes lib cs fw)
          (\<lambda>fw'. Inr (fw'\<lparr>fw_buffer := drained (length cs) ?q\<rparr>))"
    using ticks_process [of "fw\<lparr>fw_buffer := ?q\<rparr>" cs lib] q
    by (simp add: process_bytes_buffer bind_res_assoc)
  then show ?thesis using that dr [of ?q "length cs"] q by simp
qed

lemma fw_start_simps:
  "fw_buffer (fw_start lib e) = fw_buffer (firmware_globals e)"
  "commandMode (fw_start lib e) = 0"
  "fw_display (fw_start lib e) = \<lparr>digits = [49, 50, 51], decimals = 0, cursor = 0\<rparr>"
  by (simp_all add: fw_start_def sketch_setup_def setupTWI_def firmware_globals_def Let_def)

lemma fw_start_empty: "ring_items (fw_buffer (fw_start lib e)) = []"
  by (simp add: fw_start_simps firmware_globals_def ring_items_def ring_count_def)

text \<open>
  The write past the array is reachable from power-up, whatever the EEPROM holds: the
  three bytes "cursor, 3, '1'" received over I2C and handled by three timer interrupts.
\<close>

theorem cursor_3_overflows:
  "fw_run lib [Received [CURSOR_CMD, 3, 49], TimerTick, TimerTick, TimerTick] (fw_start lib e)
   = Inl OutOfBounds"
proof -
  have "process_bytes lib [CURSOR_CMD, 3, 49] (fw_start lib e) = Inl OutOfBounds"
    by (simp add: process_byte_def displayable_def run_command_def store_digit_def settings
        fw_start_simps)
  moreover obtain q where
    "fw_run lib (Received [CURSOR_CMD, 3, 49] # replicate 3 TimerTick) (fw_start lib e)
     = bind_res (process_bytes lib [CURSOR_CMD, 3, 49] (fw_start lib e))
         (\<lambda>fw'. Inr (fw'\<lparr>fw_buffer := q\<rparr>))"
    using run_received [of "fw_start lib e" "[CURSOR_CMD, 3, 49]" lib] fw_start_wf [of lib e]
      fw_start_empty [of lib e] by (auto simp: fw_wf_def numeral_3_eq_3)
  ultimately show ?thesis by (simp add: numeral_3_eq_3)
qed

lemma setupTWI_display: "fw_display (setupTWI lib fw) = fw_display fw"
  by (rule setupTWI_wf)

lemma serve_cursor:
  assumes "fw_wf fw" "cursor (fw_display fw) < 3" "x \<noteq> SetCursor 3"
    "\<forall>c. x = ShowByte c \<longrightarrow> displayable c"
  obtains fw' where "serve lib x fw = Inr fw'" "fw_wf fw'" "cursor (fw_display fw') < 3"
proof -
  have d: "length (digits (fw_display fw)) = 3" using assms(1) by (simp add: fw_wf_def display_wf_def)
  have "unat (cursor (fw_display fw)) < 3" using assms(2) by (simp add: word_less_nat_alt)
  moreover have "c \<le> 3 \<Longrightarrow> c < 3" if "x = SetCursor c" for c
    using assms(3) that by auto
  ultimately have "\<exists>fw'. serve lib x fw = Inr fw' \<and> cursor (fw_display fw') < 3"
    using assms(2) d cursor_next [of "cursor (fw_display fw)"]
    by (cases x) (auto simp: store_digit_def reset_display_def setupTWI_display)
  then show ?thesis using that serve_wf [OF assms(1) _ assms(4)] by blast
qed

lemma serve_all_cursor:
  assumes "fw_wf fw" "cursor (fw_display fw) < 3" "SetCursor 3 \<notin> set xs"
    "\<forall>c. ShowByte c \<in> set xs \<longrightarrow> displayable c"
  obtains fw' where "serve_all lib xs fw = Inr fw'" "cursor (fw_display fw') < 3" "fw_wf fw'"
  using assms
proof (induction xs arbitrary: fw thesis)
  case Nil
  then show ?case by simp
next
  case (Cons x xs)
  obtain fw1 where "serve lib x fw = Inr fw1" "fw_wf fw1" "cursor (fw_display fw1) < 3"
    using serve_cursor [OF Cons.prems(2,3), of x lib] Cons.prems(4,5) by auto
  moreover from this obtain fw2 where "serve_all lib xs fw1 = Inr fw2"
    "cursor (fw_display fw2) < 3" "fw_wf fw2"
    using Cons.IH Cons.prems(4,5) by (metis list.set_intros(2))
  ultimately show ?case using Cons.prems(1) by simp
qed

lemma parse_displayable: "ShowByte c \<in> set (fst (parse m cs)) \<Longrightarrow> displayable c"
  by (induction m cs rule: parse.induct) (auto split: if_splits prod.splits)

text \<open>
  Hosts that keep the cursor within the three digits are safe: from a well-formed state
  with the cursor below 3, a byte stream whose cursor commands all ask for a position other
  than 3 is processed without a fault and leaves the cursor below 3.
\<close>

theorem cursor_below_3_safe:
  assumes "fw_wf fw" and "cursor (fw_display fw) < 3"
    and "SetCursor 3 \<notin> set (fst (parse (commandMode fw) cs))"
  shows "\<exists>fw'. process_bytes lib cs fw = Inr fw' \<and> cursor (fw_display fw') < 3"
proof -
  obtain xs m where p: "parse (commandMode fw) cs = (xs, m)" by fastforce
  have "fw_wf (fw\<lparr>commandMode := 0\<rparr>)" using assms(1) by (simp add: fw_wf_def)
  then obtain fw' where "serve_all lib xs (fw\<lparr>commandMode := 0\<rparr>) = Inr fw'"
    "cursor (fw_display fw') < 3"
    using serve_all_cursor [of "fw\<lparr>commandMode := 0\<rparr>" xs lib] assms(2,3)
      parse_displayable [of _ "commandMode fw" cs] p by auto
  then show ?thesis by (simp add: process_bytes_serve p)
qed

theorem cursor_below_3_safe_witness:
  "\<exists>fw'. process_bytes cell_lib [0x79, 0, 49, 50, 51, 52] (fw_start cell_lib (\<lambda>_. 0)) = Inr fw'
     \<and> cursor (fw_display fw') < 3"
proof -
  let ?fw = "fw_start cell_lib (\<lambda>_. 0)"
  have "cursor (fw_display ?fw) < 3" "commandMode ?fw = 0"
    by (simp_all add: fw_start_def sketch_setup_def setupTWI_display firmware_globals_def Let_def)
  then show ?thesis
    using cursor_below_3_safe [OF fw_start_wf, of cell_lib "\<lambda>_. 0" "[0x79, 0, 49, 50, 51, 52]"]
    by (simp add: displayable_def)
qed

subsection \<open>The I2C address\<close>

text \<open>What the EEPROM holds is the address last given to \<^verbatim>\<open>Wire.begin\<close>.\<close>

definition address_synced :: "'e eeprom_lib \<Rightarrow> 'e firmware \<Rightarrow> bool" where
  "address_synced lib fw \<longleftrightarrow> ee_read lib (eeprom fw) TWI_ADDRESS_ADDRESS = last (twi_addresses fw)"

lemma setupTWI_synced: "eeprom_lawful lib \<Longrightarrow> address_synced lib (setupTWI lib fw)"
  by (auto simp: address_synced_def setupTWI_def eeprom_lawful_def Let_def)

lemma address_synced_cong:
  "eeprom fw' = eeprom fw \<Longrightarrow> twi_addresses fw' = twi_addresses fw \<Longrightarrow>
   address_synced lib fw' = address_synced lib fw"
  by (simp add: address_synced_def)

lemma serve_synced:
  assumes "eeprom_lawful lib" "address_synced lib fw" "serve lib x fw = Inr fw'"
  shows "address_synced lib fw'"
proof (cases x)
  case (SetAddress c)
  with assms show ?thesis by (auto simp: setupTWI_synced)
qed (use assms in \<open>auto simp: bind_res_eq_Inr address_synced_def split: if_splits\<close>)

lemma address_synced_mode [simp]:
  "address_synced lib (fw\<lparr>commandMode := m\<rparr>) = address_synced lib fw"
  by (rule address_synced_cong) simp_all

lemma process_byte_synced:
  assumes "eeprom_lawful lib" "address_synced lib fw" "process_byte lib c fw = Inr fw'"
  shows "address_synced lib fw'"
proof -
  consider "serve lib (ShowByte c) fw = Inr fw'" | "serve lib ResetDisplay fw = Inr fw'"
    | "fw\<lparr>commandMode := c\<rparr> = fw'"
    | "serve lib (request_of (commandMode fw) c) (fw\<lparr>commandMode := 0\<rparr>) = Inr fw'"
    using assms(3) unfolding process_byte_cases
    by (metis (full_types) sum.inject(2))
  then show ?thesis
  proof cases
    case 1
    then show ?thesis by (rule serve_synced [OF assms(1,2)])
  next
    case 2
    then show ?thesis by (rule serve_synced [OF assms(1,2)])
  next
    case 3
    then show ?thesis using assms(2) by (metis address_synced_mode)
  next
    case 4
    then show ?thesis by (rule serve_synced [OF assms(1), rotated]) (simp add: assms(2))
  qed
qed

lemma fw_step_synced:
  assumes "eeprom_lawful lib" "address_synced lib fw" "fw_step lib ev fw = Inr fw'"
  shows "address_synced lib fw'"
proof (cases ev)
  case (Received cs)
  with assms show ?thesis by (auto simp: address_synced_def)
next
  case TimerTick
  have "address_synced lib (fw\<lparr>fw_buffer := q\<rparr>)" for q
    using assms(2) by (simp add: address_synced_def)
  with TimerTick assms show ?thesis
    by (auto simp: timer_isr_def updateBufferData_def case_prod_beta split: if_splits
        intro: process_byte_synced)
next
  case LoopPass
  with assms show ?thesis by (auto simp: address_synced_def loop_pass_def)
qed

lemma fw_run_synced:
  "eeprom_lawful lib \<Longrightarrow> address_synced lib fw \<Longrightarrow> fw_run lib es fw = Inr fw' \<Longrightarrow>
   address_synced lib fw'"
  by (induction es arbitrary: fw) (auto simp: bind_res_eq_Inr dest: fw_step_synced)

text \<open>
  Whatever the EEPROM held at power-up and whatever is received, the controller only ever
  listens on I2C addresses 1 to 127, and the address it listens on is the one stored: an
  invalid address is replaced by the default both in the EEPROM and on the bus.
\<close>

theorem twi_address_valid:
  assumes "eeprom_lawful lib" and "fw_run lib es (fw_start lib e) = Inr fw"
  shows "(\<forall>a \<in> set (twi_addresses fw). address_valid a)
    \<and> ee_read lib (eeprom fw) TWI_ADDRESS_ADDRESS = last (twi_addresses fw)"
proof -
  have "fw_wf fw" using fw_run_wf [OF fw_start_wf assms(2)] .
  moreover have "address_synced lib (fw_start lib e)"
    using setupTWI_synced [OF assms(1)] by (simp add: fw_start_def sketch_setup_def Let_def
        address_synced_def)
  ultimately show ?thesis
    using fw_run_synced [OF assms(1) _ assms(2)] by (auto simp: fw_wf_def address_synced_def)
qed

theorem twi_address_valid_witness:
  "list_all address_valid (twi_addresses (fw_start cell_lib (\<lambda>_. 255)))
   \<and> ee_read cell_lib (eeprom (fw_start cell_lib (\<lambda>_. 255))) TWI_ADDRESS_ADDRESS
     = last (twi_addresses (fw_start cell_lib (\<lambda>_. 255)))"
  using twi_address_valid [OF cell_lib_lawful, of "[]" "\<lambda>_. 255"] by (simp add: list_all_iff)

subsection \<open>What the digits show\<close>

text \<open>
  The sketch and the host use the same font: for every byte below 128, which is all the
  sketch looks up, its table holds the glyph the host's lookup returns.
\<close>

theorem fw_font_is_host_font:
  "length fw_characterArray = 128
   \<and> map (\<lambda>k. fw_characterArray ! k) [0..<128]
     = map (\<lambda>k. GetSegmentDigits (word_of_nat k)) [0..<128]"
  by (simp add: fw_font GetSegmentDigits_nth)

interpretation sketch: bit_sender fw_send
proof unfold_locales
  fix s :: register and v
  show "chain s \<noteq> [] \<Longrightarrow> chain (register_run s (fw_send v)) = tl (chain s) @ [v]"
    "latch_level (register_run s (fw_send v)) = latch_level s"
    "outputs (register_run s (fw_send v)) = outputs s"
    by (simp_all add: fw_send_def)
qed

text \<open>The order in which the board wires the outputs: DP B C D E G F A.\<close>

definition wired_bits :: "u8 \<Rightarrow> bool list" where
  "wired_bits w = [bit w 7, bit w 5, bit w 4, bit w 3, bit w 2, bit w 0, bit w 1, bit w 6]"

lemma wired_bits_length [simp]: "length (wired_bits w) = 8"
  by (simp add: wired_bits_def)

lemma and_bit_iff: "n < 8 \<Longrightarrow> (w AND 2 ^ n \<noteq> (0 :: u8)) = bit w n"
  by (simp add: and_exp_eq_0_iff_not_bit)

lemma postSegment_wired: "postSegment w = concat (map fw_send (wired_bits w))"
  using and_bit_iff [of 0 w] and_bit_iff [of 1 w] and_bit_iff [of 2 w] and_bit_iff [of 3 w]
    and_bit_iff [of 4 w] and_bit_iff [of 5 w] and_bit_iff [of 6 w] and_bit_iff [of 7 w]
  by (simp add: postSegment_def wired_bits_def)

lemma displaySegments_alt:
  "displaySegments d = concat (map fw_send
     (wired_bits (digit_segments (digits d ! 2)) @ wired_bits (digit_segments (digits d ! 1))
      @ wired_bits (digit_segments (digits d ! 0)))) @ [Write Latch False, Write Latch True]"
  by (simp add: displaySegments_def postSegment_wired numeral_2_eq_2)

lemma digit_segments_no_dp:
  assumes "displayable s \<or> 0x80 \<le> s"
  shows "\<not> bit (digit_segments s) 7"
proof (cases "bit s 7")
  case True
  then have "s AND 0x80 \<noteq> 0" using and_bit_iff [of 7 s] by simp
  then have "digit_segments s = s AND 0x7f" by (simp add: digit_segments_def)
  then show ?thesis by (simp add: bit_and_iff bit_numeral_rec)
next
  case False
  then have s: "s < 128" "s AND 0x80 = 0"
    using and_bit_iff [of 7 s] u8_bit7 [of s] by (auto simp: not_le)
  then have "digit_segments s = GetSegmentDigits s"
    by (simp add: digit_segments_def fw_font GetSegmentDigits_def)
  then show ?thesis by (simp add: GetSegmentDigits_no_dp)
qed

definition sample_display :: display where
  "sample_display = \<lparr>digits = [49, 50, 0xFF], decimals = 7, cursor = 0\<rparr>"

definition sample_register :: register where
  "sample_register = \<lparr>latch_level = False, clock_level = True, data_level = True,
     chain = replicate 24 True, outputs = []\<rparr>"

text \<open>
  One pass of the main loop leaves the 24 outputs of the register showing digits 2, 1
  and 0 in wiring order, and on a well-formed display no decimal point output is ever
  driven, whatever \<^verbatim>\<open>DECIMAL_CMD\<close> stored in \<^verbatim>\<open>decimals\<close>.
\<close>

theorem displaySegments_outputs:
  assumes "display_wf d" and "length (chain reg) = 24"
  shows "outputs (register_run reg (displaySegments d))
      = concat (map (\<lambda>i. wired_bits (digit_segments (digits d ! i))) [2, 1, 0])
    \<and> (\<forall>k \<in> {0, 8, 16}. \<not> outputs (register_run reg (displaySegments d)) ! k)"
proof -
  let ?bs = "concat (map (\<lambda>i. wired_bits (digit_segments (digits d ! i))) [2, 1, 0])"
  have "outputs (register_run reg (displaySegments d)) = ?bs"
    unfolding displaySegments_alt using assms(2)
    by (subst sketch.latch_after_shows) simp_all
  moreover have "\<not> bit (digit_segments (digits d ! i)) 7" if "i < 3" for i
    using assms(1) that by (intro digit_segments_no_dp) (auto simp: display_wf_def)
  then have "\<forall>k \<in> {0, 8, 16}. \<not> ?bs ! k"
    by (simp add: wired_bits_def)
  ultimately show ?thesis by metis
qed

theorem displaySegments_outputs_witness:
  "outputs (register_run sample_register (displaySegments sample_display))
      = concat (map (\<lambda>i. wired_bits (digit_segments (digits sample_display ! i))) [2, 1, 0])
    \<and> \<not> outputs (register_run sample_register (displaySegments sample_display)) ! 8"
proof -
  have "display_wf sample_display" "length (chain sample_register) = 24"
    by (simp_all add: sample_display_def sample_register_def display_wf_def displayable_def)
  from displaySegments_outputs [OF this] show ?thesis by blast
qed

end
