(* ===== verification/HostMain.thy ===== *)
theory HostMain
  imports ArenaRuns FirmwareSpec
begin

text \<open>
  \<^verbatim>\<open>main.cpp\<close>: setting up the pins and the displays, and the loop that reads the buttons,
  ticks the state machine and sends the result to the button lights, the three displays and
  the light field. The \<^verbatim>\<open>mraa\<close> library is outside the repository: whether a call to \<^verbatim>\<open>dir\<close>
  succeeds and what \<^verbatim>\<open>read\<close> returns are arguments, and the calls that act on the hardware are
  kept as a trace of events in program order.
\<close>

subsection \<open>The hardware\<close>

datatype direction = DirIn | DirOut

datatype host_event =
    GpioDir int direction
  | GpioPulldown int
  | GpioWrite int int
  | I2cFast
  | I2cAddress int
  | I2cWrite "u8 list"
  | SpiTransfer "u8 list"
  | SleepMs int

text \<open>\<^verbatim>\<open>i2c.writeReg(reg, value)\<close> sends the two bytes.\<close>

definition writeReg :: "u8 \<Rightarrow> u8 \<Rightarrow> host_event" where
  "writeReg reg value = I2cWrite [reg, value]"

definition BlueSegmentLedI2cAddress :: int where "BlueSegmentLedI2cAddress = 0x74"
definition RedSegmentLedI2cAddress :: int where "RedSegmentLedI2cAddress = 0x75"
definition BigSegmentLedI2cAddress :: int where "BigSegmentLedI2cAddress = 0x61"

lemmas i2c_addresses = BlueSegmentLedI2cAddress_def RedSegmentLedI2cAddress_def
  BigSegmentLedI2cAddress_def

subsection \<open>Setting up\<close>

text \<open>
  The pins in the order \<^verbatim>\<open>main\<close> configures them: red, blue and referee button, reset button, red
  and blue light. For the reset button the code calls \<^verbatim>\<open>refButton->dir\<close> a second time. Each entry has
  the event of the \<^verbatim>\<open>dir\<close> call and what follows when it succeeds.
\<close>

definition pin_setup :: "(host_event \<times> host_event list) list" where
  "pin_setup =
     [(GpioDir 2 DirIn, [GpioPulldown 2]),
      (GpioDir 3 DirIn, [GpioPulldown 3]),
      (GpioDir 4 DirIn, [GpioPulldown 4]),
      (GpioDir 4 DirIn, [GpioPulldown 7]),
      (GpioDir 5 DirOut, []),
      (GpioDir 6 DirOut, [])]"

text \<open>\<open>ok\<close> lists the results of the \<^verbatim>\<open>dir\<close> calls; a failure makes \<^verbatim>\<open>main\<close> return at once.\<close>

fun configure :: "bool list \<Rightarrow> (host_event \<times> host_event list) list \<Rightarrow> host_event list \<times> bool" where
  "configure oks [] = ([], True)"
| "configure [] (p # ps) = ([fst p], False)"
| "configure (ok # oks) ((call, after) # ps) =
     (if ok then (let (t, r) = configure oks ps in (call # after @ t, r)) else ([call], False))"

definition display_setup :: "host_event list" where
  "display_setup =
     [I2cFast,
      I2cAddress RedSegmentLedI2cAddress, writeReg 0x79 0, writeReg 0x77 0,
      I2cAddress BlueSegmentLedI2cAddress, writeReg 0x79 0, writeReg 0x77 0,
      I2cAddress BigSegmentLedI2cAddress, writeReg 0x79 0, writeReg 0x77 0]"

subsection \<open>The loop\<close>

record host =
  h_state :: StateMachine
  h_world :: WorldState
  h_leds :: LedSegment
  h_trace :: "host_event list"

text \<open>What one pass reads: the four buttons and the clock of each call into the state machine.\<close>

record pass_input =
  in_red :: bool
  in_blue :: bool
  in_ref :: bool
  in_reset :: bool
  in_tick :: clock
  in_segment :: clock
  in_colors :: clock

definition show_4 :: "int \<Rightarrow> SegmentLedState \<Rightarrow> host_event list" where
  "show_4 addr s = [I2cAddress addr, writeReg 0x79 0, I2cWrite (take 4 (segments s)), writeReg 0x77 (dots s)]"

definition show_big :: "SegmentLedState \<Rightarrow> host_event list" where
  "show_big s = [I2cAddress BigSegmentLedI2cAddress, writeReg 0x79 0, I2cWrite (take 3 (segments s))]"

definition button_level :: "bool \<Rightarrow> int" where
  "button_level lit = (if lit then 0 else 1)"

text \<open>The calls one pass makes on the hardware, in order.\<close>

definition pass_events :: "bool \<Rightarrow> bool \<Rightarrow> SegmentLedState \<Rightarrow> u8 list \<Rightarrow> host_event list" where
  "pass_events redLed blueLed s frame =
     [GpioWrite 5 (button_level redLed), GpioWrite 6 (button_level blueLed)]
     @ show_4 BlueSegmentLedI2cAddress s @ show_4 RedSegmentLedI2cAddress s @ show_big s
     @ [SpiTransfer frame, SleepMs 10]"

definition main_pass :: "uniform \<Rightarrow> pass_input \<Rightarrow> host \<Rightarrow> host res" where
  "main_pass u i h =
     (let world = read_buttons (in_red i) (in_blue i) (in_ref i) (in_reset i) (h_world h)
      in bind_res (sm_Tick (in_tick i) (h_state h) world) (\<lambda>(m, world').
         bind_res (sm_GetButtonLeds m) (\<lambda>(redLed, blueLed).
         bind_res (sm_GetSegmentLed (in_segment i) m) (\<lambda>s.
         bind_res (sm_GetColors u (in_colors i) m) (\<lambda>(cs, m').
         bind_res (Refresh cs (h_leds h)) (\<lambda>leds'.
           Inr \<lparr>h_state = m', h_world = world', h_leds = leds',
                h_trace = h_trace h @ pass_events redLed blueLed s (last (transfers leds'))\<rparr>))))))"

text \<open>
  The loop ends when the handler of \<^verbatim>\<open>SIGTERM\<close> has set \<^verbatim>\<open>done\<close>; the list has an input for every
  pass made before. On the way out of \<^verbatim>\<open>main\<close> the destructor of \<^verbatim>\<open>leds\<close> runs.
\<close>

fun main_loop :: "uniform \<Rightarrow> pass_input list \<Rightarrow> host \<Rightarrow> host res" where
  "main_loop u [] h = Inr h"
| "main_loop u (i # is) h = bind_res (main_pass u i h) (main_loop u is)"

definition destroy_leds :: "host_event list \<Rightarrow> LedSegment \<Rightarrow> host_event list res" where
  "destroy_leds trace leds =
     bind_res (destroy_LedSegment N leds) (\<lambda>l. Inr (trace @ [SpiTransfer (last (transfers l))]))"

text \<open>
  The whole program: \<open>w0\<close> is the world as \<^verbatim>\<open>main\<close> declares it, with unset buttons and no time
  remaining, and \<open>spi0\<close> the unset transfer buffer of the light field. The result is the trace and
  whether the exit code is \<^verbatim>\<open>mraa::SUCCESS\<close>.
\<close>

definition host_main ::
    "uniform \<Rightarrow> bool list \<Rightarrow> int \<Rightarrow> u8 list \<Rightarrow> WorldState \<Rightarrow> pass_input list \<Rightarrow> (host_event list \<times> bool) res" where
  "host_main u oks now spi0 w0 is =
     (let leds = \<lparr>spiBuf = spi0, transfers = []\<rparr>; (t, ok) = configure oks pin_setup
      in if \<not> ok then bind_res (destroy_leds t leds) (\<lambda>t'. Inr (t', False))
         else bind_res (ChangeState PreStaging now w0 \<lparr>sm_state = None\<rparr>) (\<lambda>m.
              bind_res (main_loop u is \<lparr>h_state = m, h_world = w0, h_leds = leds,
                                        h_trace = t @ display_setup\<rparr>) (\<lambda>h.
              bind_res (destroy_leds (h_trace h) (h_leds h)) (\<lambda>t'. Inr (t', True)))))"

subsection \<open>Setting up: what is configured\<close>

lemma configure_events: "set (fst (configure oks ps)) \<subseteq> (\<Union>p \<in> set ps. insert (fst p) (set (snd p)))"
proof (induction oks ps rule: configure.induct)
  case (3 ok oks call after ps)
  then show ?case by (cases ok) (auto split: prod.splits)
qed auto

lemma configure_ok: "snd (configure oks ps) \<longleftrightarrow> take (length ps) oks = replicate (length ps) True"
  by (induction oks ps rule: configure.induct) (auto split: prod.splits)

text \<open>
  The reset button's pin is never given a direction: whatever the \<^verbatim>\<open>dir\<close> calls return, no call
  is made for pin 7; the setup is complete exactly when all six calls succeed, and it has then
  set pin 4 to input twice.
\<close>

theorem reset_pin_never_configured:
  "GpioDir 7 d \<notin> set (fst (configure oks pin_setup))
   \<and> (snd (configure oks pin_setup) \<longleftrightarrow> take 6 oks = replicate 6 True)
   \<and> length (filter ((=) (GpioDir 4 DirIn)) (fst (configure (replicate 6 True) pin_setup))) = 2"
proof (intro conjI)
  show "GpioDir 7 d \<notin> set (fst (configure oks pin_setup))"
    using configure_events [of oks pin_setup] by (auto simp: pin_setup_def)
  show "snd (configure oks pin_setup) \<longleftrightarrow> take 6 oks = replicate 6 True"
    using configure_ok [of oks pin_setup] by (simp add: pin_setup_def flip: numeral_eq_Suc) (simp add: numeral_eq_Suc)
  show "length (filter ((=) (GpioDir 4 DirIn)) (fst (configure (replicate 6 True) pin_setup))) = 2"
    by (simp add: pin_setup_def numeral_eq_Suc)
qed

subsection \<open>One pass\<close>

text \<open>The messages a device at \<open>addr\<close> on the bus receives; \<open>cur\<close> is the address selected.\<close>

fun messages_to :: "int \<Rightarrow> int option \<Rightarrow> host_event list \<Rightarrow> u8 list list" where
  "messages_to addr cur [] = []"
| "messages_to addr cur (I2cAddress a # es) = messages_to addr (Some a) es"
| "messages_to addr cur (I2cWrite bs # es) =
     (if cur = Some addr then bs # messages_to addr cur es else messages_to addr cur es)"
| "messages_to addr cur (e # es) = messages_to addr cur es"

fun spi_frames :: "host_event list \<Rightarrow> u8 list list" where
  "spi_frames [] = []"
| "spi_frames (SpiTransfer bs # es) = bs # spi_frames es"
| "spi_frames (e # es) = spi_frames es"

lemma Refresh_decodes:
  assumes "length (spiBuf leds) = DataLen N" "length cs = N" "Refresh cs leds = Inr leds'"
  shows "decode_frame N (wire_bits (last (transfers leds'))) = cs" "length (spiBuf leds') = DataLen N"
proof -
  have "length (spiBuf leds) = DataLen (length cs)" using assms by simp
  then obtain buf where "Refresh cs leds = Inr (leds\<lparr>spiBuf := buf, transfers := transfers leds @ [buf]\<rparr>)"
    "length buf = DataLen (length cs)" "wire_bits buf = ws_frame cs @ replicate 16 False"
    by (rule Refresh_ok)
  then show "decode_frame N (wire_bits (last (transfers leds'))) = cs" "length (spiBuf leds') = DataLen N"
    using decode_ws_frame [of cs] assms(2,3) by auto
qed

lemma map_res_upt_length: "map_res f [a..<b] = Inr cs \<Longrightarrow> length cs = b - a"
  by (drule map_res_length) simp

lemma animation_GetColors_length:
  assumes "animation_GetColors u clk a = Inr (cs, a')"
  shows "length cs = N"
  using assms
  by (cases a) (auto simp: bind_res_eq_Inr ps_GetColors_def st_GetColors_def pc_GetColors_def glow_frame_def
      xt_GetColors_def fg_GetColors_def pa_GetColors_def end_GetColors_def Let_def
      dest!: map_res_upt_length split: prod.splits)

lemma main_pass_cases:
  assumes "main_pass u i h = Inr h'"
  obtains m w' s cs leds' rl bl where
    "sm_Tick (in_tick i) (h_state h)
       (read_buttons (in_red i) (in_blue i) (in_ref i) (in_reset i) (h_world h)) = Inr (m, w')"
    "sm_GetButtonLeds m = Inr (rl, bl)" "sm_GetSegmentLed (in_segment i) m = Inr s"
    "sm_GetColors u (in_colors i) m = Inr (cs, h_state h')" "Refresh cs (h_leds h) = Inr leds'"
    "h_world h' = w'" "h_leds h' = leds'"
    "h_trace h' = h_trace h @ pass_events rl bl s (last (transfers leds'))"
  using assms by (auto simp: main_pass_def Let_def bind_res_eq_Inr)

lemma pass_messages:
  "messages_to BigSegmentLedI2cAddress c (pass_events rl bl s b) = [[0x79, 0], take 3 (segments s)]"
  "messages_to BlueSegmentLedI2cAddress c (pass_events rl bl s b)
     = [[0x79, 0], take 4 (segments s), [0x77, dots s]]"
  "messages_to RedSegmentLedI2cAddress c (pass_events rl bl s b)
     = [[0x79, 0], take 4 (segments s), [0x77, dots s]]"
  "spi_frames (pass_events rl bl s b) = [b]"
  by (simp_all add: pass_events_def show_4_def show_big_def writeReg_def i2c_addresses)

lemma sm_GetColors_length: "sm_GetColors u clk m = Inr (cs, m') \<Longrightarrow> length cs = N"
  by (auto simp: sm_GetColors_def with_state_def bind_res_eq_Inr dest: animation_GetColors_length
      split: option.splits)

text \<open>
  C5. Whatever was on the bus before, a pass that completes shows the state of the arena after its
  tick everywhere at once: both team displays and the large one are sent its characters with the
  cursor set to the first, the lights of the buttons are driven low exactly when lit, and the one
  frame sent to the field decodes to the colours of the state.
\<close>

theorem main_pass_shows_state:
  assumes "length (spiBuf (h_leds h)) = DataLen N" "main_pass u i h = Inr h'"
  shows "\<exists>m w' s cs m' rl bl t. sm_Tick (in_tick i) (h_state h)
        (read_buttons (in_red i) (in_blue i) (in_ref i) (in_reset i) (h_world h)) = Inr (m, w')
    \<and> sm_GetButtonLeds m = Inr (rl, bl) \<and> sm_GetSegmentLed (in_segment i) m = Inr s
    \<and> sm_GetColors u (in_colors i) m = Inr (cs, m') \<and> h_state h' = m' \<and> h_world h' = w'
    \<and> h_trace h' = h_trace h @ t
    \<and> take 2 t = [GpioWrite 5 (if rl then 0 else 1), GpioWrite 6 (if bl then 0 else 1)]
    \<and> messages_to BlueSegmentLedI2cAddress c t = [[0x79, 0], take 4 (segments s), [0x77, dots s]]
    \<and> messages_to RedSegmentLedI2cAddress c t = [[0x79, 0], take 4 (segments s), [0x77, dots s]]
    \<and> messages_to BigSegmentLedI2cAddress c t = [[0x79, 0], take 3 (segments s)]
    \<and> map (\<lambda>f. decode_frame N (wire_bits f)) (spi_frames t) = [cs]"
  using assms(2)
proof (cases rule: main_pass_cases)
  case (1 m w' s cs leds' rl bl)
  note frame = Refresh_decodes(1) [OF assms(1) sm_GetColors_length [OF 1(4)] 1(5)]
  have "take 2 (pass_events rl bl s b)
      = [GpioWrite 5 (if rl then 0 else 1), GpioWrite 6 (if bl then 0 else 1)]" for b
    by (simp add: pass_events_def button_level_def)
  with 1 frame show ?thesis
    by (intro exI [of _ m] exI [of _ w'] exI [of _ s] exI [of _ cs] exI [of _ "h_state h'"]
        exI [of _ rl] exI [of _ bl] exI [of _ "pass_events rl bl s (last (transfers leds'))"])
      (simp add: pass_messages)
qed

text \<open>A host that has just set up, and a pass without buttons at its start.\<close>

definition sample_host :: host where
  "sample_host = \<lparr>h_state = \<lparr>sm_state = Some (APreStaging (new_PreStagingAnim 0))\<rparr>,
     h_world = sample_world, h_leds = \<lparr>spiBuf = replicate (DataLen N) 0, transfers = []\<rparr>, h_trace = []\<rparr>"

definition sample_pass :: pass_input where
  "sample_pass = \<lparr>in_red = False, in_blue = False, in_ref = False, in_reset = False,
     in_tick = (\<lambda>_. 0), in_segment = (\<lambda>_. 0), in_colors = (\<lambda>_. 0)\<rparr>"

lemma sample_pass_runs: "\<exists>h'. main_pass sample_uniform sample_pass sample_host = Inr h'"
proof -
  obtain cs where cs: "ps_GetColors 0 (new_PreStagingAnim 0) = Inr cs"
    using ps_GetColors_ok [of 0 "new_PreStagingAnim 0"] by blast
  then have "length cs = N" by (auto simp: ps_GetColors_def dest: map_res_upt_length)
  then have "length (spiBuf \<lparr>spiBuf = replicate (DataLen N) 0, transfers = []\<rparr>) = DataLen (length cs)" by simp
  then obtain buf where "Refresh cs \<lparr>spiBuf = replicate (DataLen N) 0, transfers = []\<rparr>
    = Inr (\<lparr>spiBuf = buf, transfers = [] @ [buf]\<rparr>)"
    by (rule Refresh_ok) simp
  moreover have "\<not> 3 / 2 < to_secs (0 - time_max)"
    using not_pressed_negative [of 0] by (simp add: time_max_def)
  then have "ps_Tick (\<lambda>_. 0) (new_PreStagingAnim 0) (read_buttons False False False False sample_world)
      = Inr (APreStaging (new_PreStagingAnim 0), read_buttons False False False False sample_world)"
    by (simp add: ps_Tick_def new_PreStagingAnim_def ps_fadeOutStart_def read_buttons_def)
  ultimately show ?thesis using cs
    by (simp add: main_pass_def sample_host_def sample_pass_def sm_Tick_def with_state_def
        sm_GetButtonLeds_def sm_GetSegmentLed_def sm_GetColors_def ps_GetButtonLeds_def Let_def)
qed

theorem main_pass_shows_state_witness:
  "\<exists>h' (s :: SegmentLedState) t. main_pass sample_uniform sample_pass sample_host = Inr h'
    \<and> h_trace h' = h_trace sample_host @ t
    \<and> messages_to BigSegmentLedI2cAddress None t = [[0x79, 0], take 3 (segments s)]"
proof -
  obtain h' where h': "main_pass sample_uniform sample_pass sample_host = Inr h'"
    using sample_pass_runs by blast
  have "length (spiBuf (h_leds sample_host)) = DataLen N" by (simp add: sample_host_def)
  from main_pass_shows_state [OF this h', of None] show ?thesis
    by (elim exE conjE) (intro exI conjI, rule h', assumption+)
qed

subsection \<open>A pause\<close>

text \<open>
  Every pause runs into undefined behaviour: the pass in which the referee pauses a fight asks
  the new animation for its display before the animation has been ticked, and reads the
  remaining time nothing has set.
\<close>

theorem pausing_pass_undefined:
  assumes "h_state h = \<lparr>sm_state = Some (AFighting f)\<rparr>"
    and "in_ref i" "\<not> in_red i" "\<not> in_blue i"
  shows "main_pass u i h = Inl Uninitialised"
  using assms
  by (simp add: main_pass_def Let_def sm_Tick_def with_state_def fg_Tick_def read_buttons_def
      sm_GetButtonLeds_def sm_GetSegmentLed_def pa_GetSegmentLed_def new_PausedAnim_def pa_GetButtonLeds_def)

theorem pausing_pass_undefined_witness:
  "main_pass sample_uniform (sample_pass\<lparr>in_ref := True\<rparr>)
     (sample_host\<lparr>h_state := \<lparr>sm_state = Some (AFighting \<lparr>fg_start = 0, fg_end = 5\<rparr>)\<rparr>\<rparr>)
   = Inl Uninitialised"
  by (rule pausing_pass_undefined) (simp_all add: sample_pass_def sample_host_def)

subsection \<open>Leaving the program\<close>

lemma main_loop_leds:
  "length (spiBuf (h_leds h)) = DataLen N \<Longrightarrow> main_loop u is h = Inr h'
    \<Longrightarrow> length (spiBuf (h_leds h')) = DataLen N"
proof (induction "is" arbitrary: h)
  case (Cons i "is")
  then obtain h1 where h1: "main_pass u i h = Inr h1" "main_loop u is h1 = Inr h'"
    by (auto simp: bind_res_eq_Inr)
  from h1(1) have "length (spiBuf (h_leds h1)) = DataLen N"
  proof (cases rule: main_pass_cases)
    case (1 m w' s cs leds' rl bl)
    with Refresh_decodes(2) [OF Cons.prems(1) sm_GetColors_length [OF 1(4)] 1(5)] show ?thesis by simp
  qed
  with Cons.IH h1(2) show ?case by blast
qed simp

lemma destroy_leds_dark:
  assumes "length (spiBuf l) = DataLen N" "destroy_leds t l = Inr t'"
  shows "\<exists>buf. t' = t @ [SpiTransfer buf] \<and> decode_frame N (wire_bits buf) = replicate N (rgb 0 0 0)"
  using assms Refresh_decodes(1) [OF assms(1), of "replicate N (rgb 0 0 0)"]
  by (auto simp: destroy_leds_def destroy_LedSegment_def bind_res_eq_Inr)

text \<open>
  The program never leaves the field lit: whenever it returns, after a failed setup or after
  SIGTERM, its last act on the hardware is a frame of 384 black pixels.
\<close>

theorem main_leaves_field_dark:
  assumes "length spi0 = DataLen N" "host_main u oks now spi0 w0 is = Inr (t, ok)"
  shows "\<exists>t' buf. t = t' @ [SpiTransfer buf] \<and> decode_frame N (wire_bits buf) = replicate N (rgb 0 0 0)"
proof (cases "snd (configure oks pin_setup)")
  case True
  define h0 where "h0 = \<lparr>h_state = \<lparr>sm_state = Some (APreStaging (new_PreStagingAnim now))\<rparr>, h_world = w0,
    h_leds = \<lparr>spiBuf = spi0, transfers = []\<rparr>, h_trace = fst (configure oks pin_setup) @ display_setup\<rparr>"
  have "host_main u oks now spi0 w0 is = bind_res (main_loop u is h0) (\<lambda>h.
      bind_res (destroy_leds (h_trace h) (h_leds h)) (\<lambda>t'. Inr (t', True)))"
    using True by (cases "configure oks pin_setup") (simp add: host_main_def h0_def ChangeState_def)
  then have "bind_res (main_loop u is h0) (\<lambda>h.
      bind_res (destroy_leds (h_trace h) (h_leds h)) (\<lambda>t'. Inr (t', True))) = Inr (t, ok)"
    using assms(2) by simp
  then obtain h where h: "main_loop u is h0 = Inr h" "destroy_leds (h_trace h) (h_leds h) = Inr t"
    by (auto simp: bind_res_eq_Inr)
  have "length (spiBuf (h_leds h)) = DataLen N"
    using main_loop_leds [OF _ h(1)] assms(1) by (simp add: h0_def)
  from destroy_leds_dark [OF this h(2)] show ?thesis by blast
next
  case False
  then have "destroy_leds (fst (configure oks pin_setup)) \<lparr>spiBuf = spi0, transfers = []\<rparr> = Inr t"
    using assms by (auto simp: host_main_def Let_def bind_res_eq_Inr split: prod.splits)
  from destroy_leds_dark [OF _ this] show ?thesis using assms(1) by auto
qed

theorem main_leaves_field_dark_witness:
  "\<exists>t t' buf. host_main sample_uniform [True, False] 0 (replicate (DataLen N) 7) sample_world [] = Inr (t, False)
     \<and> t = t' @ [SpiTransfer buf] \<and> decode_frame N (wire_bits buf) = replicate N (rgb 0 0 0)"
proof -
  have c: "configure [True, False] pin_setup = ([GpioDir 2 DirIn, GpioPulldown 2, GpioDir 3 DirIn], False)"
    by (simp add: pin_setup_def)
  have "length (spiBuf \<lparr>spiBuf = replicate (DataLen N) 7, transfers = []\<rparr>) = DataLen (length (replicate N (rgb 0 0 0)))"
    by simp
  then obtain buf where "Refresh (replicate N (rgb 0 0 0)) \<lparr>spiBuf = replicate (DataLen N) 7, transfers = []\<rparr>
    = Inr (\<lparr>spiBuf = buf, transfers = [] @ [buf]\<rparr>)"
    by (rule Refresh_ok) simp
  then have r: "\<exists>t. host_main sample_uniform [True, False] 0 (replicate (DataLen N) 7) sample_world [] = Inr (t, False)"
    by (simp add: host_main_def c destroy_leds_def destroy_LedSegment_def)
  then show ?thesis
    using main_leaves_field_dark [of "replicate (DataLen N) 7" sample_uniform "[True, False]" 0 sample_world "[]"]
    by fastforce
qed

end
