(* ===== verification/EndToEnd.thy ===== *)
theory EndToEnd
  imports HostMain ArenaShow
begin

text \<open>
  The host and the controller of the large digits together: what a pass of \<^verbatim>\<open>main.cpp\<close> writes
  to the bus, received by \<^verbatim>\<open>large_segment_controller.ino\<close>, ends up on the outputs of its shift
  registers as the remaining time of the match.
\<close>

subsection \<open>From the bus to the outputs\<close>

text \<open>Every message is received and processed before the next one comes.\<close>

definition deliver :: "u8 list list \<Rightarrow> fw_event list" where
  "deliver msgs = concat (map (\<lambda>m. Received m # replicate (length m) TimerTick) msgs)"

definition fw_ready :: "'e firmware \<Rightarrow> bool" where
  "fw_ready fw \<longleftrightarrow> fw_wf fw \<and> commandMode fw = 0 \<and> ring_items (fw_buffer fw) = []"

lemma fw_run_append: "fw_run lib (xs @ ys) fw = bind_res (fw_run lib xs fw) (fw_run lib ys)"
proof (induction xs arbitrary: fw)
  case (Cons e es)
  then have "fw_run lib (es @ ys) = (\<lambda>fw. bind_res (fw_run lib es fw) (fw_run lib ys))" by blast
  then show ?case by (simp add: bind_res_assoc)
qed simp

text \<open>One message, from a ready controller to a ready controller.\<close>

lemma deliver_one:
  assumes "fw_ready fw" "length m \<le> 63" "process_bytes lib m fw = Inr fw1" "commandMode fw1 = 0"
  obtains q where "fw_run lib (Received m # replicate (length m) TimerTick) fw = Inr (fw1\<lparr>fw_buffer := q\<rparr>)"
    and "fw_ready (fw1\<lparr>fw_buffer := q\<rparr>)"
proof -
  have wf: "fw_wf fw" "buffer_wf (fw_buffer fw)" "ring_items (fw_buffer fw) = []"
    using assms(1) by (simp_all add: fw_ready_def fw_wf_def)
  obtain q where q: "fw_run lib (Received m # replicate (length m) TimerTick) fw
    = bind_res (process_bytes lib m fw) (\<lambda>fw'. Inr (fw'\<lparr>fw_buffer := q\<rparr>))" "ring_items q = []"
    by (rule run_received [OF wf(2,3) assms(2), of lib]) blast
  then have r: "fw_run lib (Received m # replicate (length m) TimerTick) fw = Inr (fw1\<lparr>fw_buffer := q\<rparr>)"
    using assms(3) by simp
  moreover have "fw_wf (fw1\<lparr>fw_buffer := q\<rparr>)" using wf(1) r by (rule fw_run_wf)
  ultimately show ?thesis using that q(2) assms(4) by (simp add: fw_ready_def)
qed

text \<open>Cursor home, then three displayable characters.\<close>

lemma deliver_characters:
  assumes ready: "fw_ready fw" and "displayable a" "displayable b" "displayable c"
  shows "\<exists>fw'. fw_run lib (deliver [[0x79, 0], [a, b, c]]) fw = Inr fw' \<and> fw_ready fw'
           \<and> digits (fw_display fw') = [a, b, c]"
proof -
  have m0: "commandMode fw = 0" and len: "length (digits (fw_display fw)) = 3"
    using ready by (simp_all add: fw_ready_def fw_wf_def display_wf_def)
  let ?f1 = "fw\<lparr>fw_display := (fw_display fw)\<lparr>cursor := 0\<rparr>, commandMode := 0\<rparr>"
  have p1: "process_bytes lib [0x79, 0] fw = Inr ?f1"
    using m0 by (simp add: process_byte_def displayable_def run_command_def settings Let_def)
  obtain q1 where q1: "fw_run lib (Received [0x79, 0] # replicate (length [0x79, 0 :: u8]) TimerTick) fw
      = Inr (?f1\<lparr>fw_buffer := q1\<rparr>)" "fw_ready (?f1\<lparr>fw_buffer := q1\<rparr>)"
    by (rule deliver_one [OF ready _ p1]) simp_all
  let ?f2 = "?f1\<lparr>fw_buffer := q1\<rparr>"
  let ?f3 = "?f2\<lparr>fw_display := (fw_display fw)\<lparr>digits := [a, b, c], cursor := 0\<rparr>\<rparr>"
  obtain x y z where d: "digits (fw_display fw) = [x, y, z]"
    using len by (auto simp: length_Suc_conv numeral_3_eq_3)
  have p2: "process_bytes lib [a, b, c] ?f2 = Inr ?f3"
    using assms(2-4) d by (simp add: process_byte_def store_digit_def)
  obtain q2 where q2: "fw_run lib (Received [a, b, c] # replicate (length [a, b, c]) TimerTick) ?f2
      = Inr (?f3\<lparr>fw_buffer := q2\<rparr>)" "fw_ready (?f3\<lparr>fw_buffer := q2\<rparr>)"
    by (rule deliver_one [OF q1(2) _ p2]) simp_all
  have "fw_run lib (deliver [[0x79, 0], [a, b, c]]) fw = Inr (?f3\<lparr>fw_buffer := q2\<rparr>)"
    unfolding deliver_def list.map concat.simps append_Nil2 fw_run_append q1(1) bind_res_simps q2(1) ..
  with q2(2) show ?thesis by simp
qed

subsection \<open>Reading the panel\<close>

text \<open>The glyph on eight register outputs in wiring order, and the number on the panel.\<close>

definition unwire :: "bool list \<Rightarrow> u8" where
  "unwire bs = horner_sum of_bool 2 [bs ! 5, bs ! 6, bs ! 4, bs ! 3, bs ! 2, bs ! 1, bs ! 7, bs ! 0]"

definition read_panel :: "bool list \<Rightarrow> int option" where
  "read_panel os =
     (case (digit_of_glyph (unwire (drop 16 os)), digit_of_glyph (unwire (take 8 (drop 8 os))),
            digit_of_glyph (unwire (take 8 os))) of
        (Some m, Some t, Some u) \<Rightarrow> Some (60 * int m + 10 * int t + int u)
      | _ \<Rightarrow> None)"

lemma unwire_wired: "unwire (wired_bits w) = w"
proof -
  have u: "[0..<8] = [0, 1, 2, 3, 4, 5, 6, 7 :: nat]" by (simp add: upt_rec numeral_nat)
  have "unwire (wired_bits w) = horner_sum of_bool 2 (map (bit w) [0..<8])"
    by (simp only: u list.map) (simp add: unwire_def wired_bits_def)
  then show ?thesis by (simp add: horner_sum_bit_eq_take_bit take_bit_word_eq_self)
qed

lemma panel_outputs:
  assumes "length (chain reg) = 24"
  shows "outputs (register_run reg (displaySegments d))
    = wired_bits (digit_segments (digits d ! 2)) @ wired_bits (digit_segments (digits d ! 1))
      @ wired_bits (digit_segments (digits d ! 0))"
  unfolding displaySegments_alt using assms by (subst sketch.latch_after_shows) simp_all

lemma digit_segments_displayable: "displayable c \<Longrightarrow> digit_segments c = GetSegmentDigits c"
proof -
  assume c: "displayable c"
  then have lt: "c < 128" by (auto simp: displayable_def elim: less_trans)
  then have "\<not> bit c 7" by (simp add: u8_bit7 not_le)
  then have "c AND 0x80 = 0" using and_exp_eq_0_iff_not_bit [of c 7] by simp
  with lt show ?thesis by (simp add: digit_segments_def fw_font GetSegmentDigits_def)
qed

lemma panel_reads_clock:
  assumes "length (chain reg) = 24" "digits d = [a, b, c]" "displayable a" "displayable b" "displayable c"
  shows "read_panel (outputs (register_run reg (displaySegments d))) = read_clock (mk_segments [a, b, c, e] k)"
  using assms by (simp add: panel_outputs read_panel_def unwire_wired read_clock_def mk_segments_def
      digit_segments_displayable numeral_2_eq_2)

subsection \<open>The remaining time on the wall\<close>

lemma displayable_digit: "k < 10 \<Longrightarrow> displayable (48 + word_of_nat k)"
proof -
  assume "k < 10"
  then have "k \<in> {0, 1, 2, 3, 4, 5, 6, 7, 8, 9}" by auto
  then show ?thesis by (auto simp: displayable_def)
qed

text \<open>
  C3. From the state machine to the lamps: in a pass of a running match with no button down, what
  the host writes to the bus makes a ready controller show, on the 24 outputs of its shift
  registers, the seconds that remain, rounded up, up to 12 microseconds of rounding; and the
  controller is ready for the next pass.
\<close>

theorem wall_clock_shows_remaining_time:
  assumes "h_state h = \<lparr>sm_state = Some (AFighting f)\<rparr>" "\<not> in_red i" "\<not> in_blue i" "\<not> in_ref i"
    and "0 < fg_end f - in_segment i 1" "fg_end f - in_segment i 1 < 2 ^ 37"
    and "main_pass u i h = Inr h'" "fw_ready fw" "length (chain reg) = 24"
  shows "\<exists>t fw' n. h_trace h' = h_trace h @ t
    \<and> fw_run lib (deliver (messages_to BigSegmentLedI2cAddress addr t)) fw = Inr fw' \<and> fw_ready fw'
    \<and> read_panel (outputs (register_run reg (displaySegments (fw_display fw')))) = Some n
    \<and> fg_end f - in_segment i 1 \<le> n * 1000000000 + 12000
    \<and> (n - 1) * 1000000000 < fg_end f - in_segment i 1 + 12000"
  using assms(7)
proof (cases rule: main_pass_cases)
  case (1 m w' s cs leds' rl bl)
  let ?d = "fg_end f - in_segment i 1" let ?n = "shown_seconds ?d"
  have n: "?d \<le> ?n * 1000000000 + 12000" "(?n - 1) * 1000000000 < ?d + 12000" "0 \<le> ?n" "?n < 600"
    using shown_seconds_near [of ?d] assms(5,6) by simp_all
  have "0 < ?n" using to_secs_pos [OF assms(5)] by (simp add: shown_seconds_def)
  have "m = \<lparr>sm_state = Some (AFighting f)\<rparr>"
    using 1(1) assms(1-4) by (simp add: sm_Tick_def with_state_def fg_Tick_def read_buttons_def)
  then have s: "s = clock_digits ?n"
    using 1(3) fg_GetSegmentLed_eq [of f "in_segment i 1"] assms(5,6) \<open>0 < ?n\<close>
    by (simp add: sm_GetSegmentLed_def with_state_def)
  note eq = clock_digits_eq [OF n(3,4)]
  let ?c = "\<lambda>k. 48 + word_of_nat k :: u8"
  let ?a = "?c (nat (?n div 60))" and ?b = "?c (nat (?n mod 60 div 10))" and ?e = "?c (nat (?n mod 10))"
  have chars: "take 3 (segments s) = [?a, ?b, ?e]" "s = mk_segments [?a, ?b, ?e, 32] 1"
    using eq(1) by (simp_all add: s mk_segments_def)
  note ok = displayable_digit [OF eq(2)] displayable_digit [OF eq(3)] displayable_digit [OF eq(4)]
  obtain fw' where fw': "fw_run lib (deliver [[0x79, 0], [?a, ?b, ?e]]) fw = Inr fw'" "fw_ready fw'"
    "digits (fw_display fw') = [?a, ?b, ?e]"
    using deliver_characters [OF assms(8) ok] by blast
  have "read_panel (outputs (register_run reg (displaySegments (fw_display fw')))) = Some ?n"
    using panel_reads_clock [OF assms(9) fw'(3) ok, of 32 1] chars(2) clock_digits_read [OF n(3,4)] s by simp
  with fw' n 1(8) show ?thesis
    by (intro exI [of _ "pass_events rl bl s (last (transfers leds'))"] exI [of _ fw'] exI [of _ ?n])
      (simp only: pass_messages chars(1))
qed

definition sample_fighting :: host where
  "sample_fighting = sample_host\<lparr>h_state :=
     \<lparr>sm_state = Some (AFighting \<lparr>fg_start = 0, fg_end = 90000000000\<rparr>)\<rparr>\<rparr>"

lemma sample_fighting_runs: "\<exists>h'. main_pass sample_uniform sample_pass sample_fighting = Inr h'"
proof -
  let ?f = "\<lparr>fg_start = 0, fg_end = 90000000000\<rparr>"
  obtain cs where cs: "fg_GetColors 0 ?f = Inr cs" using fg_GetColors_ok [of 0 ?f] by blast
  then have "length cs = N" by (auto simp: fg_GetColors_def dest: map_res_upt_length)
  then have "length (spiBuf \<lparr>spiBuf = replicate (DataLen N) 0, transfers = []\<rparr>) = DataLen (length cs)" by simp
  then obtain buf where "Refresh cs \<lparr>spiBuf = replicate (DataLen N) 0, transfers = []\<rparr>
    = Inr (\<lparr>spiBuf = buf, transfers = [] @ [buf]\<rparr>)"
    by (rule Refresh_ok) simp
  then show ?thesis using cs fg_GetSegmentLed_eq [of ?f 0]
    by (simp add: main_pass_def sample_fighting_def sample_host_def sample_pass_def sm_Tick_def with_state_def
        sm_GetButtonLeds_def sm_GetSegmentLed_def sm_GetColors_def fg_GetButtonLeds_def fg_Tick_def
        read_buttons_def Let_def)
qed

lemma fw_start_ready: "fw_ready (fw_start lib e)"
  unfolding fw_ready_def by (intro conjI fw_start_wf fw_start_empty fw_start_simps(2))

theorem wall_clock_shows_remaining_time_witness:
  "\<exists>t fw' n. fw_run cell_lib (deliver (messages_to BigSegmentLedI2cAddress None t)) (fw_start cell_lib (\<lambda>_. 0)) = Inr fw'
    \<and> read_panel (outputs (register_run sample_register (displaySegments (fw_display fw')))) = Some n
    \<and> 90000000000 \<le> n * 1000000000 + 12000 \<and> (n - 1) * 1000000000 < 90000000000 + (12000 :: int)"
proof -
  obtain h' where h': "main_pass sample_uniform sample_pass sample_fighting = Inr h'"
    using sample_fighting_runs by blast
  have p: "h_state sample_fighting = \<lparr>sm_state = Some (AFighting \<lparr>fg_start = 0, fg_end = 90000000000\<rparr>)\<rparr>"
    "\<not> in_red sample_pass" "\<not> in_blue sample_pass" "\<not> in_ref sample_pass" "in_segment sample_pass 1 = 0"
    "length (chain sample_register) = 24"
    by (simp_all add: sample_fighting_def sample_pass_def sample_register_def)
  show ?thesis
    using wall_clock_shows_remaining_time [OF p(1-4) _ _ h' fw_start_ready [of cell_lib "\<lambda>_. 0"] p(6),
        of cell_lib None] p(5) by auto
qed

end
