(* ===== verification/Receiver.thy ===== *)
theory Receiver
  imports Prelude
begin

text \<open>
  \<^verbatim>\<open>ReceiverComms.cpp\<close> and \<^verbatim>\<open>ReceiverComms.h\<close>: the UDP side channel that receives requests on port
  19443 and sends telemetry back to whoever asked last. The socket is \<^verbatim>\<open>asio\<close>'s: a completed
  receive has filled \<^verbatim>\<open>_buffer\<close> with the first 1024 bytes of a datagram and \<^verbatim>\<open>_remoteEndpoint\<close> with its
  sender, and runs its handler once. The theory models the handler, which starts the next
  receive, and the telemetry.
\<close>

subsection \<open>The object\<close>

text \<open>
  \<open>rc_pending\<close> counts the receives the socket has in progress; \<open>rc_handled\<close> and \<open>rc_sent\<close> are
  what \<^verbatim>\<open>_handlerFunc\<close> was called with and what was sent to whom.
\<close>

record 'ep ReceiverComms =
  rc_remoteEndpoint :: 'ep
  rc_receivedEndpoint :: bool
  rc_buffer :: "u8 list"
  rc_pending :: nat
  rc_handled :: "u8 list list"
  rc_sent :: "('ep \<times> u8 list) list"

definition buffer_size :: nat where "buffer_size = 1024"

definition Receive :: "'ep ReceiverComms \<Rightarrow> 'ep ReceiverComms" where
  "Receive rc = rc\<lparr>rc_pending := Suc (rc_pending rc)\<rparr>"

text \<open>The constructor: \<open>ep0\<close> is the default endpoint, \<open>buf0\<close> the unset buffer.\<close>

definition new_ReceiverComms :: "'ep \<Rightarrow> u8 list \<Rightarrow> 'ep ReceiverComms" where
  "new_ReceiverComms ep0 buf0 = Receive
     \<lparr>rc_remoteEndpoint = ep0, rc_receivedEndpoint = False, rc_buffer = buf0, rc_pending = 0,
      rc_handled = [], rc_sent = []\<rparr>"

text \<open>The completion handler, with \<open>ok\<close> for \<^verbatim>\<open>!ec\<close>.\<close>

definition on_receive :: "bool \<Rightarrow> nat \<Rightarrow> 'ep ReceiverComms \<Rightarrow> 'ep ReceiverComms" where
  "on_receive ok bytesRecv rc =
     Receive (if ok \<and> bytesRecv > 0
              then rc\<lparr>rc_receivedEndpoint := True,
                      rc_handled := rc_handled rc @ [take bytesRecv (rc_buffer rc)]\<rparr>
              else rc)"

definition SendTelemetry :: "u8 list \<Rightarrow> 'ep ReceiverComms \<Rightarrow> 'ep ReceiverComms" where
  "SendTelemetry str rc =
     (if \<not> rc_receivedEndpoint rc then rc
      else rc\<lparr>rc_sent := rc_sent rc @ [(rc_remoteEndpoint rc, str)]\<rparr>)"

subsection \<open>Runs\<close>

text \<open>
  What happens to the object: a datagram completes the pending receive, a receive fails, or the
  program sends telemetry. Nothing completes when no receive is pending.
\<close>

datatype 'ep comms_event = Datagram 'ep "u8 list" | ReceiveFails | Telemetry "u8 list"

definition cut :: "u8 list \<Rightarrow> u8 list" where
  "cut bytes = take buffer_size bytes"

definition fill_buffer :: "u8 list \<Rightarrow> u8 list \<Rightarrow> u8 list" where
  "fill_buffer bytes buf = cut bytes @ drop (length (cut bytes)) buf"

fun comms_step :: "'ep comms_event \<Rightarrow> 'ep ReceiverComms \<Rightarrow> 'ep ReceiverComms" where
  "comms_step (Datagram ep bytes) rc =
     (case rc_pending rc of 0 \<Rightarrow> rc
      | Suc k \<Rightarrow> on_receive True (length (cut bytes))
          (rc\<lparr>rc_pending := k, rc_remoteEndpoint := ep, rc_buffer := fill_buffer bytes (rc_buffer rc)\<rparr>))"
| "comms_step ReceiveFails rc =
     (case rc_pending rc of 0 \<Rightarrow> rc | Suc k \<Rightarrow> on_receive False 0 (rc\<lparr>rc_pending := k\<rparr>))"
| "comms_step (Telemetry str) rc = SendTelemetry str rc"

definition comms_run :: "'ep comms_event list \<Rightarrow> 'ep ReceiverComms \<Rightarrow> 'ep ReceiverComms" where
  "comms_run es rc = foldl (\<lambda>r e. comms_step e r) rc es"

subsection \<open>What was asked and who gets the answers\<close>

text \<open>The requests in a history, and the answers it makes: to the sender of the latest datagram.\<close>

definition requests :: "'ep comms_event list \<Rightarrow> u8 list list" where
  "requests es = filter (\<lambda>b. b \<noteq> []) (map (\<lambda>e. case e of Datagram _ b \<Rightarrow> cut b | _ \<Rightarrow> []) es)"

fun answers :: "'ep option \<Rightarrow> bool \<Rightarrow> 'ep comms_event list \<Rightarrow> ('ep \<times> u8 list) list" where
  "answers to_whom asked [] = []"
| "answers to_whom asked (Datagram ep b # es) = answers (Some ep) (asked \<or> b \<noteq> []) es"
| "answers to_whom asked (ReceiveFails # es) = answers to_whom asked es"
| "answers to_whom asked (Telemetry s # es) =
     (case (asked, to_whom) of (True, Some ep) \<Rightarrow> (ep, s) # answers to_whom asked es
      | _ \<Rightarrow> answers to_whom asked es)"

lemma cut_eq_Nil [simp]: "cut b = [] \<longleftrightarrow> b = []"
  by (simp add: cut_def buffer_size_def)

lemma fill_buffer_take [simp]: "take (length (cut b)) (fill_buffer b buf) = cut b"
  by (simp add: fill_buffer_def)

lemma datagram_step:
  assumes "rc_pending rc = 1" "comms_step (Datagram ep b) rc = rc'"
  shows "rc_pending rc' = 1" "rc_remoteEndpoint rc' = ep" "rc_sent rc' = rc_sent rc"
    "rc_receivedEndpoint rc' = (rc_receivedEndpoint rc \<or> b \<noteq> [])"
    "rc_handled rc' = rc_handled rc @ (if b = [] then [] else [cut b])"
  using assms by (auto simp: on_receive_def Receive_def)

lemma comms_run_simps: "comms_run [] rc = rc" "comms_run (e # es) rc = comms_run es (comms_step e rc)"
  by (simp_all add: comms_run_def)

lemma fails_step: "rc_pending rc = 1 \<Longrightarrow> comms_step ReceiveFails rc = rc"
  by (simp add: on_receive_def Receive_def)

lemma comms_run_spec:
  assumes "rc_pending rc = 1" "rc_receivedEndpoint rc \<longrightarrow> to_whom = Some (rc_remoteEndpoint rc)"
    "to_whom \<noteq> None \<longrightarrow> to_whom = Some (rc_remoteEndpoint rc)"
  shows "rc_pending (comms_run es rc) = 1
    \<and> rc_handled (comms_run es rc) = rc_handled rc @ requests es
    \<and> rc_sent (comms_run es rc) = rc_sent rc @ answers to_whom (rc_receivedEndpoint rc) es"
  using assms
proof (induction es arbitrary: rc to_whom)
  case Nil
  then show ?case by (simp add: comms_run_def requests_def)
next
  case (Cons e es)
  show ?case
  proof (cases e)
    case (Datagram ep b)
    obtain rc' where rc': "comms_step (Datagram ep b) rc = rc'" by blast
    have "requests (e # es) = (if b = [] then [] else [cut b]) @ requests es"
      by (simp add: requests_def Datagram)
    moreover note d = datagram_step [OF Cons.prems(1) rc']
    have "rc_pending (comms_run es rc') = 1
      \<and> rc_handled (comms_run es rc') = rc_handled rc' @ requests es
      \<and> rc_sent (comms_run es rc') = rc_sent rc' @ answers (Some ep) (rc_receivedEndpoint rc') es"
      by (rule Cons.IH) (simp_all only: d simp_thms)
    moreover have "comms_run (e # es) rc = comms_run es rc'"
      unfolding Datagram comms_run_simps rc' ..
    ultimately show ?thesis by (simp only: d Datagram answers.simps append_assoc simp_thms)
  next
    case ReceiveFails
    have "comms_run (e # es) rc = comms_run es rc"
      unfolding ReceiveFails comms_run_simps fails_step [OF Cons.prems(1)] ..
    moreover have "requests (e # es) = requests es" by (simp add: requests_def ReceiveFails)
    ultimately show ?thesis
      using Cons.IH [OF Cons.prems] by (simp only: ReceiveFails answers.simps simp_thms)
  next
    case (Telemetry s)
    have r: "requests (e # es) = requests es" by (simp add: requests_def Telemetry)
    obtain rc' where rc': "SendTelemetry s rc = rc'" by blast
    then have rc: "rc_pending rc' = 1" "rc_receivedEndpoint rc' = rc_receivedEndpoint rc"
      "rc_remoteEndpoint rc' = rc_remoteEndpoint rc" "rc_handled rc' = rc_handled rc"
      "rc_sent rc' = rc_sent rc @ (if rc_receivedEndpoint rc then [(rc_remoteEndpoint rc, s)] else [])"
      using Cons.prems(1) by (auto simp: SendTelemetry_def split: if_splits)
    have "rc_pending (comms_run es rc') = 1
      \<and> rc_handled (comms_run es rc') = rc_handled rc' @ requests es
      \<and> rc_sent (comms_run es rc') = rc_sent rc' @ answers to_whom (rc_receivedEndpoint rc') es"
      using Cons.prems by (intro Cons.IH) (simp_all only: rc)
    moreover have "comms_run (e # es) rc = comms_run es rc'"
      unfolding Telemetry comms_run_simps comms_step.simps rc' ..
    moreover have "answers to_whom (rc_receivedEndpoint rc) (e # es)
      = (if rc_receivedEndpoint rc then [(rc_remoteEndpoint rc, s)] else [])
        @ answers to_whom (rc_receivedEndpoint rc) es"
      using Cons.prems(2) by (cases to_whom) (auto simp: Telemetry)
    ultimately show ?thesis by (simp only: rc r append_assoc simp_thms)
  qed
qed

text \<open>
  The receiver answers exactly what it should, whatever comes: after any history of datagrams,
  failures and telemetry it has handed every non-empty datagram, cut to 1024 bytes, to the
  handler once and in order, has sent telemetry only once a non-empty datagram had come and then
  to the sender of the latest datagram, and is waiting in exactly one receive.
\<close>

theorem receiver_serves_history:
  fixes es :: "'ep comms_event list"
  shows "rc_handled (comms_run es (new_ReceiverComms ep0 buf0)) = requests es
    \<and> rc_sent (comms_run es (new_ReceiverComms ep0 buf0)) = answers None False es
    \<and> rc_pending (comms_run es (new_ReceiverComms ep0 buf0)) = 1"
  using comms_run_spec [of "new_ReceiverComms ep0 buf0" None es]
  by (simp add: new_ReceiverComms_def Receive_def)

end
