(* ===== verification/Simulator.thy ===== *)
theory Simulator
  imports Animation
begin

text \<open>
  \<^verbatim>\<open>test.cpp\<close>: the desktop simulator's drawing. OpenGL is outside the repository, so a drawing
  is the list of lines or coloured quads the code submits, in order; coordinates are the code's, in
  tenths for a glyph. The window loop is not modelled: the file predates the current
  \<^verbatim>\<open>StateMachine\<close> (it calls \<^verbatim>\<open>ChangeState\<close> and \<^verbatim>\<open>Tick\<close> with other arguments) and does not compile.
\<close>

subsection \<open>Keys\<close>

definition GLFW_PRESS :: int where "GLFW_PRESS = 1"
definition GLFW_KEY_ESCAPE :: int where "GLFW_KEY_ESCAPE = 256"

record keys =
  redDown :: bool
  blueDown :: bool
  should_close :: bool

text \<open>\<^verbatim>\<open>'R'\<close> and \<^verbatim>\<open>'B'\<close> are 82 and 66.\<close>

definition key_callback :: "int \<Rightarrow> int \<Rightarrow> keys \<Rightarrow> keys" where
  "key_callback key action k =
     (if key = GLFW_KEY_ESCAPE \<and> action = GLFW_PRESS then k\<lparr>should_close := True\<rparr>
      else if key = 82 then k\<lparr>redDown := (action = GLFW_PRESS)\<rparr>
      else if key = 66 then k\<lparr>blueDown := (action = GLFW_PRESS)\<rparr>
      else k)"

subsection \<open>Glyphs\<close>

type_synonym line = "(int \<times> int) \<times> (int \<times> int)"

definition draw_line :: "u8 \<Rightarrow> nat \<Rightarrow> line \<Rightarrow> line list" where
  "draw_line led n l = (if led AND push_bit n 1 \<noteq> 0 then [l] else [])"

definition draw_segment :: "u8 \<Rightarrow> line list" where
  "draw_segment segment =
     (let led = GetSegmentDigits segment
      in draw_line led 6 ((1, 1), (9, 1))
       @ draw_line led 1 ((1, 1), (1, 5))
       @ draw_line led 0 ((1, 5), (9, 5))
       @ draw_line led 2 ((1, 5), (1, 9))
       @ draw_line led 3 ((1, 9), (9, 9))
       @ draw_line led 4 ((9, 5), (9, 9))
       @ draw_line led 5 ((9, 1), (9, 5)))"

text \<open>\<^verbatim>\<open>DrawSegments\<close> and \<^verbatim>\<open>DrawLargeSegments\<close>: the glyphs with the number of cells they are moved.\<close>

definition DrawSegments :: "SegmentLedState \<Rightarrow> (nat \<times> line list) list" where
  "DrawSegments timer = map (\<lambda>i. (i, draw_segment (segments timer ! i))) [0..<4]"

definition DrawLargeSegments :: "SegmentLedState \<Rightarrow> (nat \<times> line list) list" where
  "DrawLargeSegments timer = map (\<lambda>i. (i, draw_segment (segments timer ! i))) [0..<3]"

subsection \<open>The field\<close>

text \<open>
  \<^verbatim>\<open>glColor3b\<close> takes signed bytes, so a channel above 127 arrives negative.
\<close>

definition draw_field :: "colors \<Rightarrow> ((nat \<times> nat) \<times> (int \<times> int \<times> int)) list" where
  "draw_field colors =
     concat (map (\<lambda>x. map (\<lambda>y. let color = colors ! (y + x * NumVertical)
       in ((x, y), (sint (ct_r color), sint (ct_g color), sint (ct_b color)))) [0..<NumVertical])
     [0..<NumHorizontal])"

subsection \<open>What is drawn\<close>

text \<open>The seven places, and the bit of the glyph each shows.\<close>

definition places :: "(line \<times> nat) list" where
  "places = [(((1, 1), (9, 1)), 6), (((1, 1), (1, 5)), 1), (((1, 5), (9, 5)), 0), (((1, 5), (1, 9)), 2),
     (((1, 9), (9, 9)), 3), (((9, 5), (9, 9)), 4), (((9, 1), (9, 5)), 5)]"

lemma draw_line_bit: "n < 8 \<Longrightarrow> draw_line led n l = (if bit led n then [l] else [])"
  using and_exp_eq_0_iff_not_bit [of led n] by (simp add: draw_line_def push_bit_of_1)

lemma draw_segment_places:
  "draw_segment c = concat (map (\<lambda>p. draw_line (GetSegmentDigits c) (snd p) (fst p)) places)"
  by (simp add: draw_segment_def Let_def places_def)

lemma places_inj: "p \<in> set places \<Longrightarrow> q \<in> set places \<Longrightarrow> fst p = fst q \<Longrightarrow> p = q"
  by (auto simp: places_def)

lemma drawn_iff:
  assumes "p \<in> set places"
  shows "fst p \<in> set (draw_segment c) \<longleftrightarrow> bit (GetSegmentDigits c) (snd p)"
proof -
  have "snd q < 8" if "q \<in> set places" for q using that by (auto simp: places_def)
  then have "fst p \<in> set (draw_segment c)
      \<longleftrightarrow> (\<exists>q \<in> set places. bit (GetSegmentDigits c) (snd q) \<and> fst p = fst q)"
    by (auto simp: draw_segment_places draw_line_bit split: if_splits)
  then show ?thesis using assms places_inj by blast
qed

text \<open>
  The drawing shows exactly the glyph: two characters are drawn with the same lines just when
  the font gives them the same segments, so the drawing of every digit can be read back.
\<close>

theorem draw_segment_faithful:
  "draw_segment c = draw_segment d \<longleftrightarrow> GetSegmentDigits c = GetSegmentDigits d"
proof
  assume same: "draw_segment c = draw_segment d"
  show "GetSegmentDigits c = GetSegmentDigits d"
  proof (rule u8_eqI)
    fix i :: nat
    assume "i < 8"
    then have "i \<in> {0, 1, 2, 3, 4, 5, 6, 7}" by auto
    then consider "i = 7" | "i \<in> snd ` set places" by (force simp: places_def)
    then show "bit (GetSegmentDigits c) i = bit (GetSegmentDigits d) i"
    proof cases
      case 1
      then show ?thesis by (simp add: GetSegmentDigits_no_dp)
    next
      case 2
      then obtain p where "p \<in> set places" "i = snd p" by blast
      then show ?thesis using drawn_iff [of p c] drawn_iff [of p d] same by simp
    qed
  qed
qed (simp add: draw_segment_places)

lemma sint_small:
  assumes "uint (w :: u8) \<le> 127"
  shows "sint w = uint w"
proof -
  have "\<not> bit w 7" using assms by (simp add: u8_bit7 word_le_def)
  then show ?thesis using assms
    by (simp add: sint_uint signed_take_bit_eq_if_positive bit_uint_iff take_bit_int_eq_self)
qed

text \<open>
  A frame within the power budget is drawn in its own colours: since no channel exceeds 120,
  none is read as a negative byte, and every pixel of the field is drawn once.
\<close>

theorem draw_field_true_colors:
  assumes "frame_within MaxLightCounts cs"
  shows "draw_field cs = concat (map (\<lambda>x. map (\<lambda>y. ((x, y),
      (uint (ct_r (cs ! (y + x * NumVertical))), uint (ct_g (cs ! (y + x * NumVertical))),
       uint (ct_b (cs ! (y + x * NumVertical)))))) [0..<NumVertical]) [0..<NumHorizontal])"
proof -
  have "y + x * NumVertical < length cs" if "x < NumHorizontal" "y < NumVertical" for x y
    using assms that by (simp add: frame_within_def field_shape)
  then have c: "cs ! (y + x * NumVertical) \<in> set cs" if "x < NumHorizontal" "y < NumVertical" for x y
    using that by simp
  have "sint (ct_r p) = uint (ct_r p) \<and> sint (ct_g p) = uint (ct_g p) \<and> sint (ct_b p) = uint (ct_b p)"
    if "p \<in> set cs" for p
    using assms that by (force simp: frame_within_def MaxLightCounts_def intro!: sint_small)
  with c show ?thesis
    unfolding draw_field_def Let_def by (intro arg_cong [where f = concat] map_cong refl) simp
qed

theorem draw_field_true_colors_witness:
  "draw_field (replicate N (rgb 120 0 7)) = concat (map (\<lambda>x. map (\<lambda>y. ((x, y),
      (uint (ct_r (replicate N (rgb 120 0 7) ! (y + x * NumVertical))),
       uint (ct_g (replicate N (rgb 120 0 7) ! (y + x * NumVertical))),
       uint (ct_b (replicate N (rgb 120 0 7) ! (y + x * NumVertical)))))) [0..<NumVertical]) [0..<NumHorizontal])"
  by (rule draw_field_true_colors) (simp add: frame_within_def MaxLightCounts_def N_eq)

end
