(* ===== verification/ByteOrder.thy ===== *)
theory ByteOrder
  imports Prelude
begin

text \<open>
  The byte order of network integers (\<^verbatim>\<open>detail/impl/socket_ops.ipp\<close>, \<^verbatim>\<open>network_to_host_*\<close> and
  \<^verbatim>\<open>host_to_network_*\<close>) on a little-endian host such as the Raspberry Pi. The bytes an integer
  has in memory are \<open>mem32\<close> and \<open>mem16\<close>; the four functions are the code of the branch that
  spells the conversion out, which is what \<^verbatim>\<open>ntohl\<close> and its sisters do on the other branch.
\<close>

type_synonym u64 = "64 word"

definition byte :: "nat \<Rightarrow> 'a::len word \<Rightarrow> u8" where
  "byte k w = ucast (drop_bit (8 * k) w)"

text \<open>Memory of an integer, lowest address first, and the integer some bytes stand for.\<close>

definition mem32 :: "u32 \<Rightarrow> u8 list" where
  "mem32 w = [byte 0 w, byte 1 w, byte 2 w, byte 3 w]"

definition of_mem32 :: "u8 list \<Rightarrow> u32" where
  "of_mem32 b = ucast (b ! 0) OR push_bit 8 (ucast (b ! 1)) OR push_bit 16 (ucast (b ! 2))
     OR push_bit 24 (ucast (b ! 3))"

definition mem16 :: "u16 \<Rightarrow> u8 list" where
  "mem16 w = [byte 0 w, byte 1 w]"

definition of_mem16 :: "u8 list \<Rightarrow> u16" where
  "of_mem16 b = ucast (b ! 0) OR push_bit 8 (ucast (b ! 1))"

definition network_to_host_long :: "u32 \<Rightarrow> u32" where
  "network_to_host_long value =
     (let value_p = mem32 value in
      push_bit 24 (ucast (value_p ! 0)) OR push_bit 16 (ucast (value_p ! 1))
        OR push_bit 8 (ucast (value_p ! 2)) OR ucast (value_p ! 3))"

definition host_to_network_long :: "u32 \<Rightarrow> u32" where
  "host_to_network_long value =
     of_mem32 [ucast (drop_bit 24 value AND 0xFF), ucast (drop_bit 16 value AND 0xFF),
               ucast (drop_bit 8 value AND 0xFF), ucast (value AND 0xFF)]"

definition network_to_host_short :: "u16 \<Rightarrow> u16" where
  "network_to_host_short value =
     (let value_p = mem16 value in push_bit 8 (ucast (value_p ! 0)) OR ucast (value_p ! 1))"

definition host_to_network_short :: "u16 \<Rightarrow> u16" where
  "host_to_network_short value =
     of_mem16 [ucast (drop_bit 8 value AND 0xFF), ucast (value AND 0xFF)]"

subsection \<open>Bits of bytes\<close>

named_theorems byte_defs

lemmas [byte_defs] = byte_def mem32_def of_mem32_def mem16_def of_mem16_def
  network_to_host_long_def host_to_network_long_def
  network_to_host_short_def host_to_network_short_def

lemma and_FF [simp]: "(x :: 'a::len word) AND 0xFF = take_bit 8 x"
  by (simp add: take_bit_eq_mask mask_eq_exp_minus_1)

lemma ball_nat_32:
  assumes "n < (32 :: nat)" and "\<And>k. k < 8 \<Longrightarrow> P k" "\<And>k. k < 8 \<Longrightarrow> P (k + 8)"
    "\<And>k. k < 8 \<Longrightarrow> P (k + 16)" "\<And>k. k < 8 \<Longrightarrow> P (k + 24)"
  shows "P n"
proof -
  consider "n < 8" | "8 \<le> n" "n < 16" | "16 \<le> n" "n < 24" | "24 \<le> n" by linarith
  then show ?thesis
  proof cases
    case 1
    then show ?thesis by (rule assms(2))
  next
    case 2
    then show ?thesis using assms(3) [of "n - 8"] by simp
  next
    case 3
    then show ?thesis using assms(4) [of "n - 16"] by simp
  next
    case 4
    then show ?thesis using assms(1) assms(5) [of "n - 24"] by simp
  qed
qed

lemma word_by_bytes:
  assumes "\<And>k n. k < 4 \<Longrightarrow> n < 8 \<Longrightarrow> bit v (8 * k + n) = bit w (8 * k + n)"
  shows "v = (w :: u32)"
proof (rule bit_word_eqI)
  fix n assume "n < LENGTH(32)"
  then have "n < 32" by simp
  then show "bit v n = bit w n"
    by (rule ball_nat_32)
      (use assms [of 0] assms [of 1] assms [of 2] assms [of 3] in \<open>simp_all add: add.commute\<close>)
qed

lemma word_by_bytes_16:
  assumes "\<And>n. n < 8 \<Longrightarrow> bit v n = bit w n" and "\<And>n. n < 8 \<Longrightarrow> bit v (8 + n) = bit w (8 + n)"
  shows "v = (w :: u16)"
proof (rule bit_word_eqI)
  fix n assume "n < LENGTH(16)"
  then show "bit v n = bit w n"
    using assms(1) [of n] assms(2) [of "n - 8"] by (cases "n < 8") auto
qed

subsection \<open>Conversions and their inverses\<close>

lemma bit_mem32:
  "n < 8 \<Longrightarrow> bit (byte k w) n \<longleftrightarrow> bit w (8 * k + n)"
  by (simp add: byte_def bit_simps)

lemma of_mem32_bytes:
  assumes "n < 8"
  shows "bit (of_mem32 [a, b, c, d]) n \<longleftrightarrow> bit a n"
    and "bit (of_mem32 [a, b, c, d]) (8 + n) \<longleftrightarrow> bit b n"
    and "bit (of_mem32 [a, b, c, d]) (16 + n) \<longleftrightarrow> bit c n"
    and "bit (of_mem32 [a, b, c, d]) (24 + n) \<longleftrightarrow> bit d n"
  using assms by (auto simp: of_mem32_def bit_simps)

lemma less_four: "k < 4 \<Longrightarrow> k = 0 \<or> k = 1 \<or> k = 2 \<or> k = (3 :: nat)" by auto

lemma of_mem32_mem32 [simp]: "of_mem32 (mem32 w) = w"
  by (rule word_by_bytes) (auto dest!: less_four simp: mem32_def of_mem32_bytes bit_mem32)

lemma mem32_of_mem32 [simp]: "length b = 4 \<Longrightarrow> mem32 (of_mem32 b) = b"
proof -
  assume "length b = 4"
  then obtain a0 a1 a2 a3 where b: "b = [a0, a1, a2, a3]"
    by (auto simp: numeral_eq_Suc length_Suc_conv)
  have "byte 0 (of_mem32 b) = a0" "byte 1 (of_mem32 b) = a1" "byte 2 (of_mem32 b) = a2"
    "byte 3 (of_mem32 b) = a3"
    by (auto intro!: u8_eqI simp: b bit_mem32 of_mem32_bytes)
  then show "mem32 (of_mem32 b) = b" by (simp add: mem32_def b)
qed

lemma mem32_length [simp]: "length (mem32 w) = 4" by (simp add: mem32_def)

lemma byte_and_mask: "ucast (drop_bit (8 * k) w AND 0xFF) = byte k w"
  by (rule u8_eqI) (auto simp: byte_def bit_simps dest: bit_imp_le_length)

lemma host_to_network_long_mem: "mem32 (host_to_network_long w) = rev (mem32 w)"
proof -
  have "host_to_network_long w = of_mem32 (rev (mem32 w))"
    using byte_and_mask [of 3 w] byte_and_mask [of 2 w] byte_and_mask [of 1 w] byte_and_mask [of 0 w]
    by (simp add: host_to_network_long_def mem32_def)
  then show ?thesis by simp
qed

lemma network_to_host_long_mem: "network_to_host_long w = of_mem32 (rev (mem32 w))"
  by (simp add: network_to_host_long_def mem32_def of_mem32_def or.commute or.left_commute)

lemma ntohl_htonl [simp]: "network_to_host_long (host_to_network_long w) = w"
  by (simp add: network_to_host_long_mem host_to_network_long_mem)

lemma htonl_ntohl [simp]: "host_to_network_long (network_to_host_long w) = w"
  by (metis host_to_network_long_mem network_to_host_long_mem mem32_of_mem32 of_mem32_mem32
      mem32_length length_rev rev_rev_ident)

lemma ntohl_inj: "network_to_host_long v = network_to_host_long w \<longleftrightarrow> v = w"
  by (metis htonl_ntohl)

lemma ntohs_htons [simp]: "network_to_host_short (host_to_network_short w) = w"
  by (rule word_by_bytes_16)
    (auto simp: network_to_host_short_def host_to_network_short_def mem16_def of_mem16_def byte_def
      bit_simps)

lemma htons_ntohs [simp]: "host_to_network_short (network_to_host_short w) = w"
  by (rule word_by_bytes_16)
    (auto simp: network_to_host_short_def host_to_network_short_def mem16_def of_mem16_def byte_def
      bit_simps)

end
