(* ===== verification/AsioError.thy ===== *)
theory AsioError
  imports Prelude
begin

text \<open>
  The error codes of asio (\<^verbatim>\<open>error.hpp\<close>, \<^verbatim>\<open>error_code.hpp\<close>, \<^verbatim>\<open>impl/error.ipp\<close>,
  \<^verbatim>\<open>impl/error_code.ipp\<close>, \<^verbatim>\<open>system_error.hpp\<close>): the enumerations with their values on Linux, an
  error code as a value in a category, the text of each code, and the exception
  \<^verbatim>\<open>system_error\<close>, which composes its text on first use and keeps it. The numbers behind
  \<^verbatim>\<open>E...\<close>, \<^verbatim>\<open>EAI_...\<close> and the netdb macros are those of the Linux headers; \<^verbatim>\<open>strerror_r\<close> is
  a parameter.
\<close>

subsection \<open>The enumerations\<close>

datatype basic_errors =
    access_denied | address_family_not_supported | address_in_use | already_connected
  | already_started | broken_pipe | connection_aborted | connection_refused | connection_reset
  | bad_descriptor | bad_address | host_unreachable | in_progress | interrupted | invalid_argument
  | message_size | name_too_long | network_down | network_reset | network_unreachable
  | no_descriptors | no_buffer_space | no_memory | no_permission | no_protocol_option
  | no_such_device | not_connected | not_socket | operation_aborted | operation_not_supported
  | shut_down | timed_out | try_again | would_block

fun errno :: "basic_errors \<Rightarrow> int" where
  "errno access_denied = 13"
| "errno address_family_not_supported = 97"
| "errno address_in_use = 98"
| "errno already_connected = 106"
| "errno already_started = 114"
| "errno broken_pipe = 32"
| "errno connection_aborted = 103"
| "errno connection_refused = 111"
| "errno connection_reset = 104"
| "errno bad_descriptor = 9"
| "errno bad_address = 14"
| "errno host_unreachable = 113"
| "errno in_progress = 115"
| "errno interrupted = 4"
| "errno invalid_argument = 22"
| "errno message_size = 90"
| "errno name_too_long = 36"
| "errno network_down = 100"
| "errno network_reset = 102"
| "errno network_unreachable = 101"
| "errno no_descriptors = 24"
| "errno no_buffer_space = 105"
| "errno no_memory = 12"
| "errno no_permission = 1"
| "errno no_protocol_option = 92"
| "errno no_such_device = 19"
| "errno not_connected = 107"
| "errno not_socket = 88"
| "errno operation_aborted = 125"
| "errno operation_not_supported = 95"
| "errno shut_down = 108"
| "errno timed_out = 110"
| "errno try_again = 11"
| "errno would_block = 11"

datatype netdb_errors = host_not_found | host_not_found_try_again | no_data | no_recovery

fun netdb_value :: "netdb_errors \<Rightarrow> int" where
  "netdb_value host_not_found = 1"
| "netdb_value host_not_found_try_again = 2"
| "netdb_value no_recovery = 3"
| "netdb_value no_data = 4"

datatype addrinfo_errors = service_not_found | socket_type_not_supported

fun addrinfo_value :: "addrinfo_errors \<Rightarrow> int" where
  "addrinfo_value service_not_found = - 8"
| "addrinfo_value socket_type_not_supported = - 7"

datatype misc_errors = already_open | eof | not_found | fd_set_failure

fun misc_value :: "misc_errors \<Rightarrow> int" where
  "misc_value already_open = 1"
| "misc_value eof = 2"
| "misc_value not_found = 3"
| "misc_value fd_set_failure = 4"

subsection \<open>Error codes\<close>

datatype error_category = system_category | netdb_category | addrinfo_category | misc_category

datatype error_code = Error_code (ec_value: int) (category: error_category)

definition no_error :: error_code where
  "no_error = Error_code 0 system_category"

definition is_error :: "error_code \<Rightarrow> bool" where
  "is_error ec \<longleftrightarrow> \<not> ec_value ec = 0"

definition error_code_eq :: "error_code \<Rightarrow> error_code \<Rightarrow> bool" where
  "error_code_eq e1 e2 \<longleftrightarrow> ec_value e1 = ec_value e2 \<and> category e1 = category e2"

definition error_code_neq :: "error_code \<Rightarrow> error_code \<Rightarrow> bool" where
  "error_code_neq e1 e2 \<longleftrightarrow> ec_value e1 \<noteq> ec_value e2 \<or> category e1 \<noteq> category e2"

definition basic_error :: "basic_errors \<Rightarrow> error_code" where
  "basic_error e = Error_code (errno e) system_category"

definition netdb_error :: "netdb_errors \<Rightarrow> error_code" where
  "netdb_error e = Error_code (netdb_value e) netdb_category"

definition addrinfo_error :: "addrinfo_errors \<Rightarrow> error_code" where
  "addrinfo_error e = Error_code (addrinfo_value e) addrinfo_category"

definition misc_error :: "misc_errors \<Rightarrow> error_code" where
  "misc_error e = Error_code (misc_value e) misc_category"

subsection \<open>Texts\<close>

definition netdb_message :: "int \<Rightarrow> string" where
  "netdb_message v =
     (if v = netdb_value host_not_found then ''Host not found (authoritative)''
      else if v = netdb_value host_not_found_try_again
        then ''Host not found (non-authoritative), try again later''
      else if v = netdb_value no_data
        then ''The query is valid, but it does not have associated data''
      else if v = netdb_value no_recovery
        then ''A non-recoverable error occurred during database lookup''
      else ''asio.netdb error'')"

definition addrinfo_message :: "int \<Rightarrow> string" where
  "addrinfo_message v =
     (if v = addrinfo_value service_not_found then ''Service not found''
      else if v = addrinfo_value socket_type_not_supported then ''Socket type not supported''
      else ''asio.addrinfo error'')"

definition misc_message :: "int \<Rightarrow> string" where
  "misc_message v =
     (if v = misc_value already_open then ''Already open''
      else if v = misc_value eof then ''End of file''
      else if v = misc_value not_found then ''Element not found''
      else if v = misc_value fd_set_failure
        then ''The descriptor does not fit into the select call's fd_set''
      else ''asio.misc error'')"

definition system_message :: "(int \<Rightarrow> string) \<Rightarrow> int \<Rightarrow> string" where
  "system_message strerror v =
     (if v = errno operation_aborted then ''Operation aborted.'' else strerror v)"

fun category_name :: "error_category \<Rightarrow> string" where
  "category_name system_category = ''asio.system''"
| "category_name netdb_category = ''asio.netdb''"
| "category_name addrinfo_category = ''asio.addrinfo''"
| "category_name misc_category = ''asio.misc''"

definition message :: "(int \<Rightarrow> string) \<Rightarrow> error_code \<Rightarrow> string" where
  "message strerror ec =
     (case category ec of
        system_category \<Rightarrow> system_message strerror (ec_value ec)
      | netdb_category \<Rightarrow> netdb_message (ec_value ec)
      | addrinfo_category \<Rightarrow> addrinfo_message (ec_value ec)
      | misc_category \<Rightarrow> misc_message (ec_value ec))"

subsection \<open>The exception\<close>

record system_error =
  se_code :: error_code
  se_context :: string
  se_what :: "string option"

definition new_system_error :: "error_code \<Rightarrow> string \<Rightarrow> system_error" where
  "new_system_error ec context = \<lparr>se_code = ec, se_context = context, se_what = None\<rparr>"

definition copy_system_error :: "system_error \<Rightarrow> system_error" where
  "copy_system_error other =
     \<lparr>se_code = se_code other, se_context = se_context other, se_what = None\<rparr>"

definition assign_system_error :: "system_error \<Rightarrow> system_error \<Rightarrow> system_error" where
  "assign_system_error this e =
     this \<lparr>se_context := se_context e, se_code := se_code e, se_what := None\<rparr>"

definition se_text :: "(int \<Rightarrow> string) \<Rightarrow> system_error \<Rightarrow> string" where
  "se_text strerror e =
     (let tmp = se_context e; tmp = (if tmp = '''' then tmp else tmp @ '': '') in
      tmp @ message strerror (se_code e))"

definition se_what_call :: "(int \<Rightarrow> string) \<Rightarrow> system_error \<Rightarrow> string \<times> system_error" where
  "se_what_call strerror e =
     (case se_what e of
        None \<Rightarrow> (let s = se_text strerror e in (s, e \<lparr>se_what := Some s\<rparr>))
      | Some s \<Rightarrow> (s, e))"

text \<open>What an asio function may throw: \<^verbatim>\<open>throw_error\<close> throws a \<^verbatim>\<open>system_error\<close> when the code is
  one of failure.\<close>

datatype exn = System_error error_code | Out_of_range string | Bad_cast | Length_error

definition throw_error :: "error_code \<Rightarrow> exn + unit" where
  "throw_error err = (if is_error err then Inl (System_error err) else Inr ())"

subsection \<open>Facts\<close>

lemma errno_nonzero: "errno e \<noteq> 0" by (cases e) simp_all

lemma netdb_value_nonzero: "netdb_value n \<noteq> 0" by (cases n) simp_all

lemma addrinfo_value_nonzero: "addrinfo_value a \<noteq> 0" by (cases a) simp_all

lemma misc_value_nonzero: "misc_value m \<noteq> 0" by (cases m) simp_all

lemma is_error_simps [simp]:
  "\<not> is_error no_error" "is_error (basic_error e)" "is_error (netdb_error n)"
  "is_error (addrinfo_error a)" "is_error (misc_error m)"
  by (simp_all add: is_error_def no_error_def basic_error_def netdb_error_def addrinfo_error_def
      misc_error_def errno_nonzero netdb_value_nonzero addrinfo_value_nonzero misc_value_nonzero)

lemma throw_error_simps [simp]:
  "throw_error no_error = Inr ()" "is_error e \<Longrightarrow> throw_error e = Inl (System_error e)"
  by (simp_all add: throw_error_def)

lemma error_code_eq_iff [simp]: "error_code_eq e1 e2 \<longleftrightarrow> e1 = e2"
  by (auto simp: error_code_eq_def error_code.expand)

lemma error_code_neq_iff [simp]: "error_code_neq e1 e2 \<longleftrightarrow> e1 \<noteq> e2"
  by (auto simp: error_code_neq_def error_code.expand)

text \<open>The position of an error in its enumeration tells two of them apart by their number.\<close>

lemma errno_eq_iff:
  "errno e1 = errno e2 \<longleftrightarrow> e1 = e2 \<or> {e1, e2} = {try_again, would_block}"
  by (cases e1; cases e2) (simp_all add: doubleton_eq_iff)

lemma basic_error_eq_iff [simp]:
  "basic_error e1 = basic_error e2 \<longleftrightarrow> e1 = e2 \<or> {e1, e2} = {try_again, would_block}"
  by (simp add: basic_error_def errno_eq_iff)

lemma netdb_value_inj: "netdb_value e1 = netdb_value e2 \<longleftrightarrow> e1 = e2"
  by (cases e1; cases e2; simp)

lemma addrinfo_value_inj: "addrinfo_value e1 = addrinfo_value e2 \<longleftrightarrow> e1 = e2"
  by (cases e1; cases e2; simp)

lemma misc_value_inj: "misc_value e1 = misc_value e2 \<longleftrightarrow> e1 = e2"
  by (cases e1; cases e2; simp)

lemma error_kinds_differ [simp]:
  "basic_error e \<noteq> netdb_error n" "basic_error e \<noteq> addrinfo_error a" "basic_error e \<noteq> misc_error m"
  "netdb_error n \<noteq> addrinfo_error a" "netdb_error n \<noteq> misc_error m"
  "addrinfo_error a \<noteq> misc_error m" "misc_error m \<noteq> basic_error e"
  by (simp_all add: basic_error_def netdb_error_def addrinfo_error_def misc_error_def)

lemma misc_error_inj [simp]: "misc_error a = misc_error b \<longleftrightarrow> a = b"
  by (simp add: misc_error_def misc_value_inj)

text \<open>A \<^verbatim>\<open>system_error\<close> whose kept text, if any, is the text of its code and context.\<close>

definition se_ok :: "(int \<Rightarrow> string) \<Rightarrow> system_error \<Rightarrow> bool" where
  "se_ok strerror e \<longleftrightarrow> (case se_what e of None \<Rightarrow> True | Some s \<Rightarrow> s = se_text strerror e)"

lemma se_ok_steps [simp]:
  "se_ok st (new_system_error ec c)" "se_ok st (copy_system_error e)"
  "se_ok st (assign_system_error e e')"
  by (simp_all add: se_ok_def new_system_error_def copy_system_error_def assign_system_error_def)

lemma se_what_call_ok:
  assumes "se_ok st e"
  shows "fst (se_what_call st e) = se_text st e" "se_ok st (snd (se_what_call st e))"
    "se_text st (snd (se_what_call st e)) = se_text st e"
  using assms by (auto simp: se_ok_def se_what_call_def se_text_def Let_def split: option.splits)

text \<open>
  Every error asio enumerates is a failure (it is true as a condition), and two of them
  are the same code only where Linux gives two names one number, \<^verbatim>\<open>EAGAIN\<close> and
  \<^verbatim>\<open>EWOULDBLOCK\<close>: a test against one of them never answers for another.\<close>

theorem error_codes_distinct:
  "is_error (basic_error e) \<and> is_error (misc_error m) \<and> basic_error e \<noteq> misc_error m \<and>
   (basic_error e = basic_error e' \<longleftrightarrow> e = e' \<or> {e, e'} = {try_again, would_block}) \<and>
   (misc_error m = misc_error m' \<longleftrightarrow> m = m') \<and>
   (netdb_error n = netdb_error n' \<longleftrightarrow> n = n') \<and>
   (addrinfo_error a = addrinfo_error a' \<longleftrightarrow> a = a')"
  by (simp add: netdb_error_def addrinfo_error_def netdb_value_inj addrinfo_value_inj)

end
