(* ===== verification/IpAddress.thy ===== *)
theory IpAddress
  imports ByteOrder AsioError "HOL-Library.List_Lexorder"
begin

text \<open>
  IP addresses of asio (\<^verbatim>\<open>ip/address_v4.hpp\<close>, \<^verbatim>\<open>ip/impl/address_v4.ipp\<close>,
  \<^verbatim>\<open>ip/impl/address_v6.ipp\<close>, \<^verbatim>\<open>ip/impl/address.ipp\<close>). A v4 address holds its four bytes as a
  32 bit word in network order; a v6 address holds sixteen bytes and a scope id; an address is
  a tag and one of each. \<^verbatim>\<open>unsigned long\<close> has 64 bits, as on the desktop and the 64 bit Pi.
  The comparison operators are those of the code; a locale states what they are for, and the
  three kinds of address interpret it.
\<close>

subsection \<open>A contract for comparison operators\<close>

locale cpp_order =
  fixes valid :: "'a \<Rightarrow> bool" and eq :: "'a \<Rightarrow> 'a \<Rightarrow> bool" and lt :: "'a \<Rightarrow> 'a \<Rightarrow> bool"
  assumes eq_iff: "valid a \<Longrightarrow> valid b \<Longrightarrow> eq a b \<longleftrightarrow> a = b"
    and lt_irrefl: "valid a \<Longrightarrow> \<not> lt a a"
    and lt_trans: "valid a \<Longrightarrow> valid b \<Longrightarrow> valid c \<Longrightarrow> lt a b \<Longrightarrow> lt b c \<Longrightarrow> lt a c"
    and lt_total: "valid a \<Longrightarrow> valid b \<Longrightarrow> a \<noteq> b \<Longrightarrow> lt a b \<or> lt b a"
begin

lemma lt_asym: "valid a \<Longrightarrow> valid b \<Longrightarrow> lt a b \<Longrightarrow> \<not> lt b a"
  using lt_trans lt_irrefl by blast

lemma trichotomy:
  assumes "valid a" "valid b"
  shows "(lt a b \<and> \<not> eq a b \<and> \<not> lt b a) \<or> (\<not> lt a b \<and> eq a b \<and> \<not> lt b a)
    \<or> (\<not> lt a b \<and> \<not> eq a b \<and> lt b a)"
  using assms eq_iff lt_asym lt_total lt_irrefl by blast

text \<open>The derived operators \<^verbatim>\<open><=\<close> (not greater) and \<^verbatim>\<open>>=\<close> are the order with its ends.\<close>

lemma not_lt: "valid a \<Longrightarrow> valid b \<Longrightarrow> \<not> lt b a \<longleftrightarrow> lt a b \<or> eq a b"
  using trichotomy by blast

end

text \<open>Comparing pairs by a first component and then by a second is such an order again.\<close>

lemma cpp_order_lex:
  assumes "cpp_order v1 e1 l1" "cpp_order v2 e2 l2"
  shows "cpp_order (\<lambda>p. v1 (fst p) \<and> v2 (snd p)) (\<lambda>p q. e1 (fst p) (fst q) \<and> e2 (snd p) (snd q))
    (\<lambda>p q. l1 (fst p) (fst q) \<or> e1 (fst p) (fst q) \<and> l2 (snd p) (snd q))"
proof -
  note o1 = cpp_order.eq_iff [OF assms(1)] cpp_order.lt_irrefl [OF assms(1)]
    cpp_order.lt_total [OF assms(1)]
  note o2 = cpp_order.eq_iff [OF assms(2)] cpp_order.lt_irrefl [OF assms(2)]
    cpp_order.lt_total [OF assms(2)]
  show ?thesis
  proof (unfold_locales, goal_cases)
    case (1 a b)
    then show ?case using o1 o2 by (auto simp: prod_eq_iff)
  next
    case (2 a)
    then show ?case using o1 o2 by auto
  next
    case (3 a b c)
    then show ?case
      using o1(1) cpp_order.lt_trans [OF assms(1), of "fst a" "fst b" "fst c"]
        cpp_order.lt_trans [OF assms(2), of "snd a" "snd b" "snd c"] by auto
  next
    case (4 a b)
    then show ?case using o1 o2 by (metis prod_eq_iff)
  qed
qed

text \<open>Reading values through an injective view keeps the contract.\<close>

lemma cpp_order_view:
  assumes "cpp_order v e l" and "\<And>a. valid a \<Longrightarrow> v (f a)"
    and "\<And>a b. valid a \<Longrightarrow> valid b \<Longrightarrow> f a = f b \<Longrightarrow> a = b"
    and "\<And>a b. valid a \<Longrightarrow> valid b \<Longrightarrow> eq a b \<longleftrightarrow> e (f a) (f b)"
    and "\<And>a b. valid a \<Longrightarrow> valid b \<Longrightarrow> lt a b \<longleftrightarrow> l (f a) (f b)"
  shows "cpp_order valid eq lt"
proof (unfold_locales, goal_cases)
  case (1 a b)
  then show ?case using assms(2-4) cpp_order.eq_iff [OF assms(1)] by metis
next
  case (2 a)
  then show ?case using assms(2,5) cpp_order.lt_irrefl [OF assms(1)] by metis
next
  case (3 a b c)
  then show ?case using assms(2,5) cpp_order.lt_trans [OF assms(1)] by metis
next
  case (4 a b)
  then show ?case using assms(2,3,5) cpp_order.lt_total [OF assms(1)] by metis
qed

lemma cpp_order_linorder: "cpp_order (\<lambda>_. True) (=) ((<) :: 'a::linorder \<Rightarrow> _)"
  by unfold_locales auto

subsection \<open>Version 4\<close>

datatype address_v4 = Address_v4 (s_addr: u32)

definition v4_default :: address_v4 where
  "v4_default = Address_v4 0"

definition v4_from_bytes :: "u8 list \<Rightarrow> address_v4" where
  "v4_from_bytes bytes = Address_v4 (of_mem32 bytes)"

definition v4_from_ulong :: "u64 \<Rightarrow> exn + address_v4" where
  "v4_from_ulong addr =
     (if addr > 0xFFFFFFFF then Inl (Out_of_range ''address_v4 from unsigned long'')
      else Inr (Address_v4 (host_to_network_long (ucast addr))))"

definition v4_to_bytes :: "address_v4 \<Rightarrow> u8 list" where
  "v4_to_bytes a = mem32 (s_addr a)"

definition to_ulong :: "address_v4 \<Rightarrow> u64" where
  "to_ulong a = ucast (network_to_host_long (s_addr a))"

definition v4_copy :: "address_v4 \<Rightarrow> address_v4" where
  "v4_copy other = Address_v4 (s_addr other)"

definition v4_is_loopback :: "address_v4 \<Rightarrow> bool" where
  "v4_is_loopback a \<longleftrightarrow> to_ulong a AND 0xFF000000 = 0x7F000000"

definition v4_is_unspecified :: "address_v4 \<Rightarrow> bool" where
  "v4_is_unspecified a \<longleftrightarrow> to_ulong a = 0"

definition is_class_a :: "address_v4 \<Rightarrow> bool" where
  "is_class_a a \<longleftrightarrow> to_ulong a AND 0x80000000 = 0"

definition is_class_b :: "address_v4 \<Rightarrow> bool" where
  "is_class_b a \<longleftrightarrow> to_ulong a AND 0xC0000000 = 0x80000000"

definition is_class_c :: "address_v4 \<Rightarrow> bool" where
  "is_class_c a \<longleftrightarrow> to_ulong a AND 0xE0000000 = 0xC0000000"

definition v4_is_multicast :: "address_v4 \<Rightarrow> bool" where
  "v4_is_multicast a \<longleftrightarrow> to_ulong a AND 0xF0000000 = 0xE0000000"

definition v4_broadcast :: "address_v4 \<Rightarrow> address_v4 \<Rightarrow> exn + address_v4" where
  "v4_broadcast addr netmask = v4_from_ulong (to_ulong addr OR (to_ulong netmask XOR 0xFFFFFFFF))"

definition v4_netmask :: "address_v4 \<Rightarrow> exn + address_v4" where
  "v4_netmask addr =
     (if is_class_a addr then v4_from_ulong 0xFF000000
      else if is_class_b addr then v4_from_ulong 0xFFFF0000
      else if is_class_c addr then v4_from_ulong 0xFFFFFF00
      else v4_from_ulong 0xFFFFFFFF)"

definition v4_any :: address_v4 where
  "v4_any = v4_default"

definition v4_loopback :: "exn + address_v4" where
  "v4_loopback = v4_from_ulong 0x7F000001"

definition v4_broadcast_all :: "exn + address_v4" where
  "v4_broadcast_all = v4_from_ulong 0xFFFFFFFF"

definition v4_eq :: "address_v4 \<Rightarrow> address_v4 \<Rightarrow> bool" where
  "v4_eq a1 a2 \<longleftrightarrow> s_addr a1 = s_addr a2"

definition v4_neq :: "address_v4 \<Rightarrow> address_v4 \<Rightarrow> bool" where
  "v4_neq a1 a2 \<longleftrightarrow> s_addr a1 \<noteq> s_addr a2"

definition v4_gt :: "address_v4 \<Rightarrow> address_v4 \<Rightarrow> bool" where
  "v4_gt a1 a2 \<longleftrightarrow> to_ulong a1 > to_ulong a2"

definition v4_ge :: "address_v4 \<Rightarrow> address_v4 \<Rightarrow> bool" where
  "v4_ge a1 a2 \<longleftrightarrow> to_ulong a1 \<ge> to_ulong a2"

lemma to_ulong_inj [simp]: "to_ulong a = to_ulong b \<longleftrightarrow> a = b"
proof
  assume "to_ulong a = to_ulong b"
  from arg_cong [OF this, of "ucast :: u64 \<Rightarrow> u32"]
  show "a = b" by (simp add: to_ulong_def ucast_up_ucast_id is_up ntohl_inj address_v4.expand)
qed simp

definition v4_less :: "address_v4 \<Rightarrow> address_v4 \<Rightarrow> bool" where
  "v4_less a1 a2 \<longleftrightarrow> to_ulong a1 < to_ulong a2"

definition v4_le :: "address_v4 \<Rightarrow> address_v4 \<Rightarrow> bool" where
  "v4_le a1 a2 \<longleftrightarrow> to_ulong a1 \<le> to_ulong a2"

text \<open>The operators \<^verbatim>\<open><\<close> and \<^verbatim>\<open><=\<close> of the class are the order of the type.\<close>

instantiation address_v4 :: linorder
begin

definition less_address_v4 :: "address_v4 \<Rightarrow> address_v4 \<Rightarrow> bool" where
  "less_address_v4 = v4_less"

definition less_eq_address_v4 :: "address_v4 \<Rightarrow> address_v4 \<Rightarrow> bool" where
  "less_eq_address_v4 = v4_le"

instance
proof
  fix x y :: address_v4
  show "x < y \<longleftrightarrow> x \<le> y \<and> \<not> y \<le> x"
    unfolding less_address_v4_def less_eq_address_v4_def v4_less_def v4_le_def by (rule less_le_not_le)
  show "x \<le> y \<Longrightarrow> y \<le> x \<Longrightarrow> x = y"
    by (metis less_eq_address_v4_def v4_le_def order_antisym to_ulong_inj)
qed (auto simp: less_eq_address_v4_def v4_le_def)

end

lemma v4_eq_iff [simp]: "v4_eq a b \<longleftrightarrow> a = b" "v4_neq a b \<longleftrightarrow> a \<noteq> b"
  by (auto simp: v4_eq_def v4_neq_def address_v4.expand)

lemma v4_gt_iff [simp]: "v4_gt a b \<longleftrightarrow> b < a" "v4_ge a b \<longleftrightarrow> b \<le> a"
  by (simp_all add: v4_gt_def v4_ge_def less_address_v4_def less_eq_address_v4_def v4_less_def v4_le_def)

interpretation v4: cpp_order "\<lambda>_. True" v4_eq "(<) :: address_v4 \<Rightarrow> address_v4 \<Rightarrow> bool"
  by unfold_locales auto

subsubsection \<open>What the class predicates test\<close>

definition v4_nat :: "address_v4 \<Rightarrow> nat" where
  "v4_nat a = unat (to_ulong a)"

lemma v4_nat_eq: "v4_nat a = unat (network_to_host_long (s_addr a))"
  using unsigned_less [of "network_to_host_long (s_addr a)", where 'a = nat]
  by (simp add: v4_nat_def to_ulong_def unsigned_ucast_eq take_bit_nat_eq_self)

lemma v4_nat_less: "v4_nat a < 2 ^ 32"
  using unsigned_less [of "network_to_host_long (s_addr a)", where 'a = nat]
  by (simp add: v4_nat_eq)

lemma and_high_bits:
  fixes x :: u64
  assumes "unat x < 2 ^ 32" and "k < 32"
  shows "unat (x AND push_bit k (mask (32 - k))) = 2 ^ k * (unat x div 2 ^ k)"
proof -
  have x: "\<not> bit x n" if "32 \<le> n" for n
  proof -
    have "take_bit 32 (unat x) = unat x" using assms(1) by (simp add: take_bit_nat_eq_self)
    then have "\<not> bit (unat x) n" using that by (metis bit_take_bit_iff not_less)
    then show ?thesis by (simp add: bit_unsigned_iff)
  qed
  have "x AND push_bit k (mask (32 - k)) = push_bit k (drop_bit k x)"
  proof (rule bit_word_eqI)
    fix n assume "n < LENGTH(64)"
    then show "bit (x AND push_bit k (mask (32 - k))) n = bit (push_bit k (drop_bit k x)) n"
      using x [of n] assms(2) by (cases "n < 32") (auto simp: bit_simps)
  qed
  moreover have "2 ^ k * (unat x div 2 ^ k) < 2 ^ 64"
    using assms(1) by (rule le_less_trans [OF times_div_less_eq_dividend less_le_trans]) simp
  moreover have "take_bit 64 (unat x) = unat x" using assms(1) by (simp add: take_bit_nat_eq_self)
  then have "unat (push_bit k (drop_bit k x)) = take_bit 64 (2 ^ k * (unat x div 2 ^ k))"
    by (simp only: unsigned_push_bit_eq unsigned_drop_bit_eq)
      (simp add: push_bit_eq_mult drop_bit_eq_div mult.commute)
  ultimately show ?thesis by (simp only: take_bit_nat_eq_self)
qed

lemma v4_and_eq:
  assumes "k < 32"
  shows "to_ulong a AND push_bit k (mask (32 - k)) = c \<longleftrightarrow> 2 ^ k * (v4_nat a div 2 ^ k) = unat c"
  using and_high_bits [of "to_ulong a" k] v4_nat_less [of a] assms
  by (auto simp: v4_nat_def simp flip: word_unat_eq_iff)

lemma v4_ranges:
  "v4_is_loopback a \<longleftrightarrow> v4_nat a div 2 ^ 24 = 127"
  "is_class_a a \<longleftrightarrow> v4_nat a div 2 ^ 31 = 0"
  "is_class_b a \<longleftrightarrow> v4_nat a div 2 ^ 30 = 2"
  "is_class_c a \<longleftrightarrow> v4_nat a div 2 ^ 29 = 6"
  "v4_is_multicast a \<longleftrightarrow> v4_nat a div 2 ^ 28 = 14"
  "v4_is_unspecified a \<longleftrightarrow> v4_nat a = 0"
  using v4_and_eq [of 24 a] v4_and_eq [of 31 a] v4_and_eq [of 30 a] v4_and_eq [of 29 a]
    v4_and_eq [of 28 a]
  by (simp_all add: v4_is_loopback_def is_class_a_def is_class_b_def is_class_c_def
      v4_is_multicast_def v4_is_unspecified_def mask_eq_exp_minus_1 push_bit_eq_mult)
    (auto simp: v4_nat_def unat_eq_zero)

lemma div_nat_eqI_iff: "0 < d \<Longrightarrow> n div d = q \<longleftrightarrow> q * d \<le> n \<and> n < Suc q * d" for n :: nat
  by (metis div_nat_eqI div_less_iff_less_mult less_Suc_eq_le less_eq_div_iff_mult_less_eq
      mult.commute order_refl lessI)

lemma v4_of_nat: "to_ulong a = of_nat (v4_nat a)"
  by (simp add: v4_nat_def)

lemma v4_from_ulong_ok: "n < 2 ^ 32 \<Longrightarrow> \<exists>a. v4_from_ulong (of_nat n) = Inr a \<and> v4_nat a = n"
proof -
  assume n: "n < 2 ^ 32"
  then have "unat (of_nat n :: u64) = n" by (simp add: unat_of_nat take_bit_nat_eq_self)
  moreover from this n have "\<not> (of_nat n :: u64) > 0xFFFFFFFF" by (simp add: word_less_nat_alt)
  ultimately show ?thesis
    using n by (simp add: v4_from_ulong_def v4_nat_eq unsigned_ucast_eq take_bit_nat_eq_self)
qed

lemma v4_from_ulong_nat:
  "n < 2 ^ 32 \<Longrightarrow> map_sum id v4_nat (v4_from_ulong (of_nat n)) = Inr n"
  using v4_from_ulong_ok [of n] by auto

lemma v4_from_ulong_error: "2 ^ 32 \<le> unat w \<Longrightarrow> v4_from_ulong w = Inl (Out_of_range ''address_v4 from unsigned long'')"
  by (simp add: v4_from_ulong_def word_less_nat_alt)

lemma v4_from_to_ulong [simp]: "v4_from_ulong (to_ulong a) = Inr a"
  using v4_from_ulong_ok [OF v4_nat_less, of a]
  by (auto simp: v4_of_nat) (auto simp: v4_nat_def simp flip: word_unat_eq_iff)

lemma v4_bytes_roundtrip [simp]: "v4_from_bytes (v4_to_bytes a) = a"
  "length b = 4 \<Longrightarrow> v4_to_bytes (v4_from_bytes b) = b"
  by (simp_all add: v4_from_bytes_def v4_to_bytes_def)

lemma v4_to_bytes_length [simp]: "length (v4_to_bytes a) = 4"
  by (simp add: v4_to_bytes_def)

text \<open>
  Every v4 address is in exactly one of the classes A, B, C, multicast and the reserved
  rest, whatever its bytes; \<^verbatim>\<open>netmask\<close> then gives the mask of that class and never throws.\<close>

theorem v4_classes_partition:
  "(if is_class_a a then \<not> is_class_b a \<and> \<not> is_class_c a \<and> \<not> v4_is_multicast a
    else if is_class_b a then \<not> is_class_c a \<and> \<not> v4_is_multicast a
    else if is_class_c a then \<not> v4_is_multicast a
    else v4_is_multicast a = (v4_nat a < 0xF0000000) \<and> 0xE0000000 \<le> v4_nat a) \<and>
   map_sum id v4_nat (v4_netmask a) =
     Inr (if v4_nat a < 2 ^ 31 then 0xFF000000
          else if v4_nat a < 0xC0000000 then 0xFFFF0000
          else if v4_nat a < 0xE0000000 then 0xFFFFFF00 else 0xFFFFFFFF)"
proof -
  define n where "n = v4_nat a"
  have n: "n < 4294967296" using v4_nat_less [of a] by (simp add: n_def)
  have c: "n div 2147483648 = 0 \<longleftrightarrow> n < 2147483648"
    "n div 1073741824 = 2 \<longleftrightarrow> 2147483648 \<le> n \<and> n < 3221225472"
    "n div 536870912 = 6 \<longleftrightarrow> 3221225472 \<le> n \<and> n < 3758096384"
    "n div 268435456 = 14 \<longleftrightarrow> 3758096384 \<le> n \<and> n < 4026531840"
    by (simp_all add: div_nat_eqI_iff del: div_eq_0_iff)
  note r = v4_ranges [of a, folded n_def, simplified, unfolded c]
  note mm = v4_from_ulong_nat [of "0xFF000000", simplified] v4_from_ulong_nat [of "0xFFFF0000", simplified]
    v4_from_ulong_nat [of "0xFFFFFF00", simplified] v4_from_ulong_nat [of "0xFFFFFFFF", simplified]
  consider "n < 2147483648" | "2147483648 \<le> n" "n < 3221225472"
    | "3221225472 \<le> n" "n < 3758096384" | "3758096384 \<le> n" by linarith
  then show ?thesis by cases (simp_all add: v4_netmask_def r mm flip: n_def)
qed

lemma to_ulong_bits [simp]: "bit (to_ulong a) n \<longleftrightarrow> n < 32 \<and> bit (network_to_host_long (s_addr a)) n"
  by (auto simp: to_ulong_def bit_simps dest: bit_imp_le_length)

lemma v4_from_ulong_bits:
  assumes "\<And>n. 32 \<le> n \<Longrightarrow> \<not> bit w n"
  shows "\<exists>b. v4_from_ulong w = Inr b \<and> to_ulong b = w"
proof -
  have "take_bit 32 w = w"
    by (rule bit_word_eqI) (use assms in \<open>auto simp: bit_simps simp: linorder_not_less [symmetric] intro: ccontr\<close>)
  then have "take_bit 32 (unat w) = unat w" by (metis unsigned_take_bit_eq)
  then have "unat w < 2 ^ 32" by (metis take_bit_nat_less_exp)
  from v4_from_ulong_ok [OF this] show ?thesis
    by (auto simp: v4_of_nat)
qed

text \<open>\<^verbatim>\<open>broadcast\<close> of an address and a netmask never throws: the address it gives keeps the
  bits the netmask selects and has every other bit set, and is never below the address.\<close>

theorem v4_broadcast_sets_host_part:
  "case v4_broadcast a m of
     Inl _ \<Rightarrow> False
   | Inr b \<Rightarrow> to_ulong b AND to_ulong m = to_ulong a AND to_ulong m \<and>
       to_ulong b OR to_ulong m = 0xFFFFFFFF \<and> a \<le> b"
proof -
  define w where "w = to_ulong a OR (to_ulong m XOR 0xFFFFFFFF)"
  have ff: "(0xFFFFFFFF :: u64) = mask 32" by (simp add: mask_eq_exp_minus_1)
  obtain b where b: "v4_from_ulong w = Inr b" "to_ulong b = w"
    using v4_from_ulong_bits [of w] by (auto simp: w_def ff bit_simps)
  have "w AND to_ulong m = to_ulong a AND to_ulong m" "w OR to_ulong m = mask 32"
    "to_ulong a OR w = w"
    unfolding w_def ff by (rule bit_word_eqI; auto simp: bit_simps)+
  moreover from this(3) have "to_ulong a \<le> w" by (metis le_word_or2 or.commute)
  ultimately show ?thesis
    by (simp add: v4_broadcast_def b flip: w_def) (simp add: ff less_eq_address_v4_def v4_le_def b)
qed

end
