(* ===== verification/CText.thy ===== *)
theory CText
  imports Prelude
begin

text \<open>
  The C library's conversions between numbers and text that the program's libraries use:
  \<^verbatim>\<open>sprintf\<close> with \<^verbatim>\<open>%u\<close>, \<^verbatim>\<open>%lu\<close> and \<^verbatim>\<open>%x\<close>, and \<^verbatim>\<open>atoi\<close>. Strings are lists of characters
  without the terminating zero.
\<close>

definition digit_char :: "nat \<Rightarrow> char" where
  "digit_char d = char_of (if d < 10 then 48 + d else 87 + d)"

definition isdigit :: "char \<Rightarrow> bool" where
  "isdigit c \<longleftrightarrow> 48 \<le> (of_char c :: nat) \<and> (of_char c :: nat) \<le> 57"

definition digit_value :: "char \<Rightarrow> nat" where
  "digit_value c = of_char c - 48"

fun numeral_text :: "nat \<Rightarrow> nat \<Rightarrow> string" where
  "numeral_text b n =
     (if n < b \<or> b < 2 then [digit_char n]
      else numeral_text b (n div b) @ [digit_char (n mod b)])"

declare numeral_text.simps [simp del]

abbreviation decimal :: "nat \<Rightarrow> string" where
  "decimal \<equiv> numeral_text 10"

abbreviation hexadecimal :: "nat \<Rightarrow> string" where
  "hexadecimal \<equiv> numeral_text 16"

definition decimal_value :: "string \<Rightarrow> nat" where
  "decimal_value s = foldl (\<lambda>v c. 10 * v + digit_value c) 0 (takeWhile isdigit s)"

definition isspace :: "char \<Rightarrow> bool" where
  "isspace c \<longleftrightarrow> (of_char c :: nat) = 32 \<or> 9 \<le> (of_char c :: nat) \<and> (of_char c :: nat) \<le> 13"

text \<open>A sign is read after white space; a text with no digits is 0.\<close>

definition atoi :: "string \<Rightarrow> int" where
  "atoi s =
     (case dropWhile isspace s of
        [] \<Rightarrow> 0
      | c # r \<Rightarrow>
          if c = CHR ''-'' then - int (decimal_value r)
          else if c = CHR ''+'' then int (decimal_value r)
          else int (decimal_value (c # r)))"

lemma of_char_digit [simp]: "d < 16 \<Longrightarrow> (of_char (digit_char d) :: nat) = (if d < 10 then 48 + d else 87 + d)"
  by (simp add: digit_char_def)

lemma numeral_text_digits: "1 < b \<Longrightarrow> c \<in> set (numeral_text b n) \<Longrightarrow> \<exists>d < b. c = digit_char d"
proof (induction b n rule: numeral_text.induct)
  case (1 b n)
  show ?case
  proof (cases "n < b")
    case True
    then show ?thesis using 1(3) by (auto simp: numeral_text.simps [of b n])
  next
    case False
    then have e: "numeral_text b n = numeral_text b (n div b) @ [digit_char (n mod b)]"
      using 1(2) by (simp add: numeral_text.simps [of b n])
    have "n mod b < b" using 1(2) by simp
    moreover have "c \<in> set (numeral_text b (n div b)) \<or> c = digit_char (n mod b)"
      using 1(3) by (auto simp: e)
    ultimately show ?thesis using 1(1) [OF _ 1(2)] False 1(2) by fastforce
  qed
qed

lemma numeral_text_nonempty [simp]: "numeral_text b n \<noteq> []"
  by (simp add: numeral_text.simps [of b n])

lemma decimal_isdigit: "c \<in> set (decimal n) \<Longrightarrow> isdigit c"
  by (drule numeral_text_digits [rotated]) (auto simp: isdigit_def)

lemma takeWhile_decimal [simp]: "takeWhile isdigit (decimal n) = decimal n"
  by (simp add: decimal_isdigit takeWhile_eq_all_conv)

lemma foldl_decimal: "foldl (\<lambda>v c. 10 * v + digit_value c) 0 (decimal n) = n"
proof (induction n rule: less_induct)
  case (less n)
  show ?case
  proof (cases "n < 10")
    case True
    then show ?thesis by (simp add: numeral_text.simps digit_value_def)
  next
    case False
    with less.IH [of "n div 10"] show ?thesis
      by (simp add: numeral_text.simps [of 10 n] digit_value_def)
  qed
qed

lemma decimal_value_decimal [simp]: "decimal_value (decimal n) = n"
  by (simp add: decimal_value_def foldl_decimal)

lemma atoi_decimal [simp]: "atoi (decimal n) = int n"
proof -
  obtain c r where d: "decimal n = c # r" by (cases "decimal n") auto
  then have "isdigit c" using decimal_isdigit [of c n] by simp
  then have "\<not> isspace c" "c \<noteq> CHR ''-''" "c \<noteq> CHR ''+''"
    by (auto simp: isdigit_def isspace_def)
  then show ?thesis
    using decimal_value_decimal [of n] by (simp add: atoi_def d)
qed

lemma decimal_no_char: "\<not> isdigit c \<Longrightarrow> c \<notin> set (decimal n)"
  using decimal_isdigit by blast

end
