(* ===== verification/IpAddress6.thy ===== *)
theory IpAddress6
  imports IpAddress CText
begin

text \<open>
  Version 6 addresses and the address that is either (\<^verbatim>\<open>ip/impl/address_v6.ipp\<close>,
  \<^verbatim>\<open>ip/address_v6.hpp\<close>, \<^verbatim>\<open>ip/impl/address.ipp\<close>, \<^verbatim>\<open>ip/address.hpp\<close>), with their text forms
  through \<^verbatim>\<open>socket_ops::inet_ntop\<close> and \<^verbatim>\<open>inet_pton\<close> as they are on POSIX, where the scope id
  is appended and read by asio and the rest is the system's. The system calls are the fields
  of a record, a parameter of the definitions that use them.
\<close>

subsection \<open>Version 6\<close>

datatype address_v6 = Address_v6 (s6_addr: "u8 list") (scope_id: u64)

text \<open>The array has sixteen elements.\<close>

definition v6_ok :: "address_v6 \<Rightarrow> bool" where
  "v6_ok a \<longleftrightarrow> length (s6_addr a) = 16"

definition v6_default :: address_v6 where
  "v6_default = Address_v6 (replicate 16 0) 0"

definition v6_from_bytes :: "u8 list \<Rightarrow> u64 \<Rightarrow> address_v6" where
  "v6_from_bytes bytes scope = Address_v6 (take 16 bytes) scope"

definition v6_copy :: "address_v6 \<Rightarrow> address_v6" where
  "v6_copy other = Address_v6 (s6_addr other) (scope_id other)"

definition v6_assign :: "address_v6 \<Rightarrow> address_v6 \<Rightarrow> address_v6" where
  "v6_assign this other = Address_v6 (s6_addr other) (scope_id other)"

definition v6_set_scope_id :: "address_v6 \<Rightarrow> u64 \<Rightarrow> address_v6" where
  "v6_set_scope_id a new_id = Address_v6 (s6_addr a) new_id"

definition v6_to_bytes :: "address_v6 \<Rightarrow> u8 list" where
  "v6_to_bytes a = take 16 (s6_addr a)"

definition zeros :: "nat \<Rightarrow> u8 list \<Rightarrow> bool" where
  "zeros k b \<longleftrightarrow> list_all (\<lambda>i. b ! i = 0) [0..<k]"

definition v6_is_loopback :: "address_v6 \<Rightarrow> bool" where
  "v6_is_loopback a \<longleftrightarrow> zeros 15 (s6_addr a) \<and> s6_addr a ! 15 = 1"

definition v6_is_unspecified :: "address_v6 \<Rightarrow> bool" where
  "v6_is_unspecified a \<longleftrightarrow> zeros 16 (s6_addr a)"

definition is_link_local :: "address_v6 \<Rightarrow> bool" where
  "is_link_local a \<longleftrightarrow> s6_addr a ! 0 = 0xfe \<and> s6_addr a ! 1 AND 0xc0 = 0x80"

definition is_site_local :: "address_v6 \<Rightarrow> bool" where
  "is_site_local a \<longleftrightarrow> s6_addr a ! 0 = 0xfe \<and> s6_addr a ! 1 AND 0xc0 = 0xc0"

definition is_v4_mapped :: "address_v6 \<Rightarrow> bool" where
  "is_v4_mapped a \<longleftrightarrow> zeros 10 (s6_addr a) \<and> s6_addr a ! 10 = 0xff \<and> s6_addr a ! 11 = 0xff"

definition is_v4_compatible :: "address_v6 \<Rightarrow> bool" where
  "is_v4_compatible a \<longleftrightarrow> zeros 12 (s6_addr a) \<and>
     \<not> (s6_addr a ! 12 = 0 \<and> s6_addr a ! 13 = 0 \<and> s6_addr a ! 14 = 0 \<and>
        (s6_addr a ! 15 = 0 \<or> s6_addr a ! 15 = 1))"

definition v6_is_multicast :: "address_v6 \<Rightarrow> bool" where
  "v6_is_multicast a \<longleftrightarrow> s6_addr a ! 0 = 0xff"

definition is_multicast_global :: "address_v6 \<Rightarrow> bool" where
  "is_multicast_global a \<longleftrightarrow> s6_addr a ! 0 = 0xff \<and> s6_addr a ! 1 AND 0x0f = 0x0e"

definition is_multicast_link_local :: "address_v6 \<Rightarrow> bool" where
  "is_multicast_link_local a \<longleftrightarrow> s6_addr a ! 0 = 0xff \<and> s6_addr a ! 1 AND 0x0f = 0x02"

definition is_multicast_node_local :: "address_v6 \<Rightarrow> bool" where
  "is_multicast_node_local a \<longleftrightarrow> s6_addr a ! 0 = 0xff \<and> s6_addr a ! 1 AND 0x0f = 0x01"

definition is_multicast_org_local :: "address_v6 \<Rightarrow> bool" where
  "is_multicast_org_local a \<longleftrightarrow> s6_addr a ! 0 = 0xff \<and> s6_addr a ! 1 AND 0x0f = 0x08"

definition is_multicast_site_local :: "address_v6 \<Rightarrow> bool" where
  "is_multicast_site_local a \<longleftrightarrow> s6_addr a ! 0 = 0xff \<and> s6_addr a ! 1 AND 0x0f = 0x05"

definition v6_to_v4 :: "address_v6 \<Rightarrow> exn + address_v4" where
  "v6_to_v4 a =
     (if \<not> is_v4_mapped a \<and> \<not> is_v4_compatible a then Inl Bad_cast
      else Inr (v4_from_bytes [s6_addr a ! 12, s6_addr a ! 13, s6_addr a ! 14, s6_addr a ! 15]))"

definition v6_any :: address_v6 where
  "v6_any = v6_default"

definition v6_loopback :: address_v6 where
  "v6_loopback = (let tmp = v6_default in Address_v6 ((s6_addr tmp)[15 := 1]) (scope_id tmp))"

definition v4_mapped :: "address_v4 \<Rightarrow> address_v6" where
  "v4_mapped addr =
     (let v4_bytes = v4_to_bytes addr in
      v6_from_bytes [0, 0, 0, 0, 0, 0, 0, 0, 0, 0, 0xFF, 0xFF,
        v4_bytes ! 0, v4_bytes ! 1, v4_bytes ! 2, v4_bytes ! 3] 0)"

definition v4_compatible :: "address_v4 \<Rightarrow> address_v6" where
  "v4_compatible addr =
     (let v4_bytes = v4_to_bytes addr in
      v6_from_bytes [0, 0, 0, 0, 0, 0, 0, 0, 0, 0, 0, 0,
        v4_bytes ! 0, v4_bytes ! 1, v4_bytes ! 2, v4_bytes ! 3] 0)"

text \<open>\<^verbatim>\<open>memcmp\<close>: the sign of the first difference, bytes compared as unsigned.\<close>

fun memcmp :: "u8 list \<Rightarrow> u8 list \<Rightarrow> int" where
  "memcmp (x # xs) (y # ys) = (if x < y then -1 else if y < x then 1 else memcmp xs ys)"
| "memcmp _ _ = 0"

definition v6_eq :: "address_v6 \<Rightarrow> address_v6 \<Rightarrow> bool" where
  "v6_eq a1 a2 \<longleftrightarrow> memcmp (s6_addr a1) (s6_addr a2) = 0 \<and> scope_id a1 = scope_id a2"

definition v6_less :: "address_v6 \<Rightarrow> address_v6 \<Rightarrow> bool" where
  "v6_less a1 a2 =
     (let memcmp_result = memcmp (s6_addr a1) (s6_addr a2) in
      if memcmp_result < 0 then True
      else if memcmp_result > 0 then False
      else scope_id a1 < scope_id a2)"

definition v6_neq :: "address_v6 \<Rightarrow> address_v6 \<Rightarrow> bool" where
  "v6_neq a1 a2 \<longleftrightarrow> \<not> v6_eq a1 a2"

definition v6_gt :: "address_v6 \<Rightarrow> address_v6 \<Rightarrow> bool" where
  "v6_gt a1 a2 \<longleftrightarrow> v6_less a2 a1"

definition v6_le :: "address_v6 \<Rightarrow> address_v6 \<Rightarrow> bool" where
  "v6_le a1 a2 \<longleftrightarrow> \<not> v6_less a2 a1"

definition v6_ge :: "address_v6 \<Rightarrow> address_v6 \<Rightarrow> bool" where
  "v6_ge a1 a2 \<longleftrightarrow> \<not> v6_less a1 a2"

subsubsection \<open>The order of version 6 addresses\<close>

lemma memcmp_zero: "length xs = length ys \<Longrightarrow> memcmp xs ys = 0 \<longleftrightarrow> xs = ys"
  by (induction xs ys rule: memcmp.induct) auto

lemma memcmp_neg: "length xs = length ys \<Longrightarrow> memcmp xs ys < 0 \<longleftrightarrow> xs < ys"
  by (induction xs ys rule: memcmp.induct) (auto simp: Cons_less_Cons)

lemma memcmp_pos: "length xs = length ys \<Longrightarrow> memcmp xs ys > 0 \<longleftrightarrow> ys < xs"
  by (induction xs ys rule: memcmp.induct) (auto simp: Cons_less_Cons)

interpretation v6: cpp_order v6_ok v6_eq v6_less
proof (rule cpp_order_view [OF cpp_order_lex [OF cpp_order_linorder cpp_order_linorder],
    where f = "\<lambda>a. (s6_addr a, scope_id a)"], goal_cases)
  case (1 a)
  show ?case by simp
next
  case (2 a b)
  then show ?case by (auto intro: address_v6.expand)
next
  case (3 a b)
  then show ?case by (simp add: v6_eq_def v6_ok_def memcmp_zero)
next
  case (4 a b)
  then have "length (s6_addr a) = length (s6_addr b)" by (simp add: v6_ok_def)
  from memcmp_zero [OF this] memcmp_neg [OF this] memcmp_pos [OF this]
  show ?case by (auto simp: v6_less_def Let_def)
qed

lemma v6_derived_operators:
  assumes "v6_ok a" "v6_ok b"
  shows "v6_neq a b \<longleftrightarrow> a \<noteq> b" "v6_gt a b \<longleftrightarrow> v6_less b a"
    "v6_le a b \<longleftrightarrow> v6_less a b \<or> a = b" "v6_ge a b \<longleftrightarrow> v6_less b a \<or> a = b"
  using v6.not_lt [OF assms] v6.not_lt [OF assms(2,1)] v6.eq_iff [OF assms] v6.eq_iff [OF assms(2,1)]
  by (auto simp: v6_neq_def v6_gt_def v6_le_def v6_ge_def)

subsubsection \<open>Well-formedness and embeddings of version 4\<close>

lemma v6_ok_makers [simp]:
  "v6_ok v6_default" "16 \<le> length b \<Longrightarrow> v6_ok (v6_from_bytes b s)" "v6_ok v6_loopback"
  "v6_ok (v4_mapped a)" "v6_ok (v4_compatible a)"
  "v6_ok (v6_set_scope_id x s) = v6_ok x" "v6_ok (v6_copy x) = v6_ok x"
  "v6_ok (v6_assign y x) = v6_ok x"
  by (simp_all add: v6_ok_def v6_default_def v6_from_bytes_def v6_loopback_def v4_mapped_def
      v4_compatible_def v6_set_scope_id_def v6_copy_def v6_assign_def Let_def)

lemma v6_bytes_roundtrip [simp]:
  "v6_ok a \<Longrightarrow> v6_from_bytes (v6_to_bytes a) (scope_id a) = a"
  "length b = 16 \<Longrightarrow> v6_to_bytes (v6_from_bytes b s) = b"
  by (simp_all add: v6_ok_def v6_from_bytes_def v6_to_bytes_def)

lemma v4_bytes_list: "[v4_to_bytes a ! 0, v4_to_bytes a ! 1, v4_to_bytes a ! 2, v4_to_bytes a ! 3] = v4_to_bytes a"
  by (rule nth_equalityI) (auto simp: less_Suc_eq numeral_eq_Suc)

lemma zeros_take: "k \<le> length b \<Longrightarrow> zeros k b \<longleftrightarrow> take k b = replicate k 0"
  by (auto simp: zeros_def list_all_iff list_eq_iff_nth_eq)

text \<open>
  An IPv4 address survives the embeddings into IPv6: \<^verbatim>\<open>to_v4\<close> of its mapped form, and of
  its compatible form unless it is 0.0.0.0 or 0.0.0.1 (which are the IPv6 wildcard and loopback),
  gives it back; those two compatible forms are refused with \<^verbatim>\<open>bad_cast\<close>.\<close>

theorem v4_embedding_roundtrip:
  "v6_to_v4 (v4_mapped a) = Inr a \<and>
   v6_to_v4 (v4_compatible a) = (if v4_nat a \<le> 1 then Inl Bad_cast else Inr a) \<and>
   (v6_is_unspecified (v4_compatible a) \<longleftrightarrow> v4_nat a = 0) \<and>
   (v6_is_loopback (v4_compatible a) \<longleftrightarrow> v4_nat a = 1)"
proof -
  define b where "b = v4_to_bytes a"
  have l: "length b = 4" by (simp add: b_def)
  then obtain b0 b1 b2 b3 where b: "b = [b0, b1, b2, b3]"
    by (auto simp: numeral_eq_Suc length_Suc_conv)
  have a: "a = v4_from_bytes b" by (simp add: b_def)
  have w: "network_to_host_long (s_addr a) = of_mem32 [b3, b2, b1, b0]"
    using b by (simp add: network_to_host_long_mem b_def v4_to_bytes_def)
  have m: "[b3, b2, b1, b0] = mem32 w \<longleftrightarrow> of_mem32 [b3, b2, b1, b0] = w" for w
    using mem32_of_mem32 [of "[b3, b2, b1, b0]"] of_mem32_mem32 [of w] by auto
  have n0: "v4_nat a = 0 \<longleftrightarrow> b0 = 0 \<and> b1 = 0 \<and> b2 = 0 \<and> b3 = 0"
    using m [of 0] by (auto simp: v4_nat_eq w mem32_def byte_def unat_eq_zero)
  have n1: "v4_nat a = 1 \<longleftrightarrow> b0 = 0 \<and> b1 = 0 \<and> b2 = 0 \<and> b3 = 1"
    using m [of 1] by (auto simp: v4_nat_eq w mem32_def byte_def word_unat_eq_iff [of _ 1])
  have bs: "v4_to_bytes a = [b0, b1, b2, b3]" using b by (simp add: b_def)
  have sm: "s6_addr (v4_mapped a) = [0, 0, 0, 0, 0, 0, 0, 0, 0, 0, 0xFF, 0xFF, b0, b1, b2, b3]"
    and sc: "s6_addr (v4_compatible a) = [0, 0, 0, 0, 0, 0, 0, 0, 0, 0, 0, 0, b0, b1, b2, b3]"
    by (simp_all add: v4_mapped_def v4_compatible_def v6_from_bytes_def bs)
  have "is_v4_mapped (v4_mapped a)" "\<not> is_v4_mapped (v4_compatible a)"
    by (simp_all add: is_v4_mapped_def sm sc zeros_take) (simp add: numeral_eq_Suc)
  moreover have "is_v4_compatible (v4_compatible a) \<longleftrightarrow> \<not> v4_nat a \<le> 1"
    using n0 n1 by (auto simp: is_v4_compatible_def sc zeros_take numeral_eq_Suc le_Suc_eq)
  moreover have "v6_is_unspecified (v4_compatible a) \<longleftrightarrow> v4_nat a = 0"
    "v6_is_loopback (v4_compatible a) \<longleftrightarrow> v4_nat a = 1"
    by (simp_all add: v6_is_unspecified_def v6_is_loopback_def sc zeros_take numeral_eq_Suc n0
        n1 [unfolded One_nat_def])
  moreover have "v4_from_bytes [b0, b1, b2, b3] = a" using a b by simp
  ultimately show ?thesis by (simp add: v6_to_v4_def sm sc)
qed

end
