(* ===== verification/IpAddressText.thy ===== *)
theory IpAddressText
  imports IpAddress6
begin

text \<open>
  The text form of addresses. \<^verbatim>\<open>inet_ntop\<close> and \<^verbatim>\<open>inet_pton\<close> (\<^verbatim>\<open>detail/impl/socket_ops.ipp\<close>,
  the POSIX branch) add the scope id of a version 6 address after a percent sign, by the name
  of the interface for link-local addresses and in decimal otherwise; the calls of the system
  are the fields of \<open>os_net\<close>. \<open>inet_ntop\<close> is the code for scope ids of at most fifteen digits:
  a longer one overruns the seventeen characters of \<^verbatim>\<open>if_name\<close>. The class \<^verbatim>\<open>address\<close> (\<^verbatim>\<open>ip/impl/address.ipp\<close>) holds an address
  of either version.
\<close>

subsection \<open>The system and its wrappers\<close>

datatype family = AF_INET | AF_INET6

text \<open>\<open>os_ntop\<close> gives the text or nothing, \<open>os_pton\<close> the result (1 for success) and the bytes,
  each with the error number the call leaves; the last two map interface numbers to names and
  back (0 for an unknown name).\<close>

record os_net =
  os_ntop :: "family \<Rightarrow> u8 list \<Rightarrow> string option \<times> int"
  os_pton :: "family \<Rightarrow> string \<Rightarrow> int \<times> u8 list \<times> int"
  os_if_indextoname :: "u32 \<Rightarrow> string option"
  os_if_nametoindex :: "string \<Rightarrow> u32"

definition max_addr_v6_str_len :: nat where
  "max_addr_v6_str_len = 46 + 1 + 16"

definition error_wrapper :: "'a \<times> int \<Rightarrow> 'a \<times> error_code" where
  "error_wrapper r = (fst r, Error_code (snd r) system_category)"

definition link_scope :: "u8 list \<Rightarrow> bool" where
  "link_scope b \<longleftrightarrow> (b ! 0 = 0xfe \<and> b ! 1 AND 0xc0 = 0x80) \<or> (b ! 0 = 0xff \<and> b ! 1 AND 0x0f = 0x02)"

definition inet_ntop :: "os_net \<Rightarrow> family \<Rightarrow> u8 list \<Rightarrow> u64 \<Rightarrow> string option \<times> error_code" where
  "inet_ntop os af src scope =
     (let (result, ec) = error_wrapper (os_ntop os af src);
          ec = (if result = None \<and> \<not> is_error ec then basic_error invalid_argument else ec) in
      case result of
        None \<Rightarrow> (None, ec)
      | Some dest \<Rightarrow>
          if af = AF_INET6 \<and> scope \<noteq> 0
          then (let if_name =
                      (if \<not> link_scope src then decimal (unat scope)
                       else case os_if_indextoname os (ucast scope) of
                              None \<Rightarrow> decimal (unat scope)
                            | Some name \<Rightarrow> name)
                in (Some (dest @ ''%'' @ if_name), ec))
          else (Some dest, ec))"

text \<open>The new value of \<^verbatim>\<open>*scope_id\<close>, where the call stores one, is the last component but one.\<close>

definition inet_pton ::
    "os_net \<Rightarrow> family \<Rightarrow> string \<Rightarrow> u8 list \<Rightarrow> u64 option \<Rightarrow> int \<times> u8 list \<times> u64 option \<times> error_code" where
  "inet_pton os af src dest scope =
     (let is_v6 = (af = AF_INET6);
          src_ptr = takeWhile (\<lambda>c. c \<noteq> CHR ''%'') src;
          if_name = (if is_v6 \<and> length src_ptr < length src
                     then Some (drop (length src_ptr) src) else None) in
      if if_name \<noteq> None \<and> length src_ptr > max_addr_v6_str_len
      then (0, dest, scope, basic_error invalid_argument)
      else
        (let ((result, bytes), ec) =
               (let (r, b, e) = os_pton os af (if if_name = None then src else src_ptr)
                in error_wrapper ((r, b), e));
             ec = (if result \<le> 0 \<and> \<not> is_error ec then basic_error invalid_argument else ec);
             dest = (if result > 0 then bytes else dest) in
         if result > 0 \<and> is_v6 \<and> scope \<noteq> None
         then (result, dest,
               (case if_name of
                  None \<Rightarrow> Some 0
                | Some s \<Rightarrow>
                    (let id1 = (if link_scope dest then ucast (os_if_nametoindex os (tl s)) else 0) in
                     Some (if id1 = 0 then word_of_int (atoi (tl s)) else id1))), ec)
         else (result, dest, scope, ec)))"

subsection \<open>Text of version 4 and version 6\<close>

definition v4_to_string_ec :: "os_net \<Rightarrow> address_v4 \<Rightarrow> string \<times> error_code" where
  "v4_to_string_ec os a =
     (let (addr, ec) = inet_ntop os AF_INET (v4_to_bytes a) 0 in
      case addr of None \<Rightarrow> ('''', ec) | Some s \<Rightarrow> (s, ec))"

definition v4_to_string :: "os_net \<Rightarrow> address_v4 \<Rightarrow> exn + string" where
  "v4_to_string os a =
     (let (addr, ec) = v4_to_string_ec os a in bind_res (throw_error ec) (\<lambda>_. Inr addr))"

definition v4_from_string_ec :: "os_net \<Rightarrow> string \<Rightarrow> address_v4 \<times> error_code" where
  "v4_from_string_ec os str =
     (let (r, bytes, _, ec) = inet_pton os AF_INET str (v4_to_bytes v4_default) None in
      if r \<le> 0 then (v4_default, ec) else (v4_from_bytes bytes, ec))"

definition v4_from_string :: "os_net \<Rightarrow> string \<Rightarrow> exn + address_v4" where
  "v4_from_string os str =
     (let (addr, ec) = v4_from_string_ec os str in bind_res (throw_error ec) (\<lambda>_. Inr addr))"

definition v6_to_string_ec :: "os_net \<Rightarrow> address_v6 \<Rightarrow> string \<times> error_code" where
  "v6_to_string_ec os a =
     (let (addr, ec) = inet_ntop os AF_INET6 (s6_addr a) (scope_id a) in
      case addr of None \<Rightarrow> ('''', ec) | Some s \<Rightarrow> (s, ec))"

definition v6_to_string :: "os_net \<Rightarrow> address_v6 \<Rightarrow> exn + string" where
  "v6_to_string os a =
     (let (addr, ec) = v6_to_string_ec os a in bind_res (throw_error ec) (\<lambda>_. Inr addr))"

definition v6_from_string_ec :: "os_net \<Rightarrow> string \<Rightarrow> address_v6 \<times> error_code" where
  "v6_from_string_ec os str =
     (let (r, bytes, scope, ec) =
            inet_pton os AF_INET6 str (s6_addr v6_default) (Some (scope_id v6_default)) in
      if r \<le> 0 then (v6_default, ec) else (Address_v6 bytes (the scope), ec))"

definition v6_from_string :: "os_net \<Rightarrow> string \<Rightarrow> exn + address_v6" where
  "v6_from_string os str =
     (let (addr, ec) = v6_from_string_ec os str in bind_res (throw_error ec) (\<lambda>_. Inr addr))"

subsection \<open>An address of either version\<close>

datatype ip_type = ipv4 | ipv6

datatype address = Address (addr_type: ip_type) (ipv4_address: address_v4) (ipv6_address: address_v6)

definition address_default :: address where
  "address_default = Address ipv4 v4_default v6_default"

definition address_of_v4 :: "address_v4 \<Rightarrow> address" where
  "address_of_v4 a = Address ipv4 a v6_default"

definition address_of_v6 :: "address_v6 \<Rightarrow> address" where
  "address_of_v6 a = Address ipv6 v4_default a"

definition address_copy :: "address \<Rightarrow> address" where
  "address_copy other = Address (addr_type other) (ipv4_address other) (ipv6_address other)"

definition address_assign :: "address \<Rightarrow> address \<Rightarrow> address" where
  "address_assign this other = Address (addr_type other) (ipv4_address other) (ipv6_address other)"

definition address_assign_v4 :: "address \<Rightarrow> address_v4 \<Rightarrow> address" where
  "address_assign_v4 this a = Address ipv4 a v6_default"

definition address_assign_v6 :: "address \<Rightarrow> address_v6 \<Rightarrow> address" where
  "address_assign_v6 this a = Address ipv6 v4_default a"

definition address_to_v4 :: "address \<Rightarrow> exn + address_v4" where
  "address_to_v4 a = (if addr_type a \<noteq> ipv4 then Inl Bad_cast else Inr (ipv4_address a))"

definition address_to_v6 :: "address \<Rightarrow> exn + address_v6" where
  "address_to_v6 a = (if addr_type a \<noteq> ipv6 then Inl Bad_cast else Inr (ipv6_address a))"

definition address_to_string :: "os_net \<Rightarrow> address \<Rightarrow> exn + string" where
  "address_to_string os a =
     (if addr_type a = ipv6 then v6_to_string os (ipv6_address a) else v4_to_string os (ipv4_address a))"

definition address_to_string_ec :: "os_net \<Rightarrow> address \<Rightarrow> string \<times> error_code" where
  "address_to_string_ec os a =
     (if addr_type a = ipv6 then v6_to_string_ec os (ipv6_address a)
      else v4_to_string_ec os (ipv4_address a))"

definition address_from_string_ec :: "os_net \<Rightarrow> string \<Rightarrow> address \<times> error_code" where
  "address_from_string_ec os str =
     (let (ipv6_a, ec) = v6_from_string_ec os str in
      if \<not> is_error ec then (Address ipv6 (ipv4_address address_default) ipv6_a, ec)
      else
        (let (ipv4_a, ec) = v4_from_string_ec os str in
         if \<not> is_error ec then (Address ipv4 ipv4_a (ipv6_address address_default), ec)
         else (address_default, ec)))"

definition address_from_string :: "os_net \<Rightarrow> string \<Rightarrow> exn + address" where
  "address_from_string os str =
     (let (addr, ec) = address_from_string_ec os str in bind_res (throw_error ec) (\<lambda>_. Inr addr))"

definition address_is_loopback :: "address \<Rightarrow> bool" where
  "address_is_loopback a =
     (if addr_type a = ipv4 then v4_is_loopback (ipv4_address a) else v6_is_loopback (ipv6_address a))"

definition address_is_unspecified :: "address \<Rightarrow> bool" where
  "address_is_unspecified a =
     (if addr_type a = ipv4 then v4_is_unspecified (ipv4_address a)
      else v6_is_unspecified (ipv6_address a))"

definition address_is_multicast :: "address \<Rightarrow> bool" where
  "address_is_multicast a =
     (if addr_type a = ipv4 then v4_is_multicast (ipv4_address a) else v6_is_multicast (ipv6_address a))"

definition address_eq :: "address \<Rightarrow> address \<Rightarrow> bool" where
  "address_eq a1 a2 =
     (if addr_type a1 \<noteq> addr_type a2 then False
      else if addr_type a1 = ipv6 then v6_eq (ipv6_address a1) (ipv6_address a2)
      else v4_eq (ipv4_address a1) (ipv4_address a2))"

text \<open>The tags compare as the enumeration does, \<^verbatim>\<open>ipv4\<close> first.\<close>

fun type_number :: "ip_type \<Rightarrow> nat" where
  "type_number ipv4 = 0"
| "type_number ipv6 = 1"

definition address_less :: "address \<Rightarrow> address \<Rightarrow> bool" where
  "address_less a1 a2 =
     (if type_number (addr_type a1) < type_number (addr_type a2) then True
      else if type_number (addr_type a1) > type_number (addr_type a2) then False
      else if addr_type a1 = ipv6 then v6_less (ipv6_address a1) (ipv6_address a2)
      else ipv4_address a1 < ipv4_address a2)"

definition address_neq :: "address \<Rightarrow> address \<Rightarrow> bool" where
  "address_neq a1 a2 \<longleftrightarrow> \<not> address_eq a1 a2"

definition address_gt :: "address \<Rightarrow> address \<Rightarrow> bool" where
  "address_gt a1 a2 \<longleftrightarrow> address_less a2 a1"

definition address_le :: "address \<Rightarrow> address \<Rightarrow> bool" where
  "address_le a1 a2 \<longleftrightarrow> \<not> address_less a2 a1"

definition address_ge :: "address \<Rightarrow> address \<Rightarrow> bool" where
  "address_ge a1 a2 \<longleftrightarrow> \<not> address_less a1 a2"

subsection \<open>The invariant of an address\<close>

text \<open>Sixteen bytes, and the version that is not in use is the default: no operation leaves
  anything else, which is why equality may look at the version in use alone.\<close>

definition address_ok :: "address \<Rightarrow> bool" where
  "address_ok a \<longleftrightarrow> v6_ok (ipv6_address a) \<and>
     (case addr_type a of ipv4 \<Rightarrow> ipv6_address a = v6_default | ipv6 \<Rightarrow> ipv4_address a = v4_default)"

lemma address_ok_makers [simp]:
  "address_ok address_default" "address_ok (address_of_v4 a)"
  "address_ok (address_of_v6 b) = v6_ok b" "address_ok (address_copy x) = address_ok x"
  "address_ok (address_assign y x) = address_ok x" "address_ok (address_assign_v4 y a)"
  "address_ok (address_assign_v6 y b) = v6_ok b"
  by (simp_all add: address_ok_def address_default_def address_of_v4_def address_of_v6_def
      address_copy_def address_assign_def address_assign_v4_def address_assign_v6_def)

lemma address_ok_cases:
  assumes "address_ok a"
  obtains (v4) a4 where "a = address_of_v4 a4" | (v6) a6 where "a = address_of_v6 a6" "v6_ok a6"
  using assms
  by (cases a) (auto simp: address_ok_def address_of_v4_def address_of_v6_def split: ip_type.splits)

lemma address_of_inj [simp]:
  "address_of_v4 a = address_of_v4 b \<longleftrightarrow> a = b" "address_of_v6 x = address_of_v6 y \<longleftrightarrow> x = y"
  "address_of_v4 a \<noteq> address_of_v6 y" "address_of_v6 y \<noteq> address_of_v4 a"
  by (simp_all add: address_of_v4_def address_of_v6_def)

lemma address_compare [simp]:
  "address_eq (address_of_v4 a) (address_of_v4 b) \<longleftrightarrow> a = b"
  "address_eq (address_of_v6 x) (address_of_v6 y) \<longleftrightarrow> v6_eq x y"
  "\<not> address_eq (address_of_v4 a) (address_of_v6 y)" "\<not> address_eq (address_of_v6 y) (address_of_v4 a)"
  "address_less (address_of_v4 a) (address_of_v4 b) \<longleftrightarrow> a < b"
  "address_less (address_of_v6 x) (address_of_v6 y) \<longleftrightarrow> v6_less x y"
  "address_less (address_of_v4 a) (address_of_v6 y)" "\<not> address_less (address_of_v6 y) (address_of_v4 a)"
  by (simp_all add: address_eq_def address_less_def address_of_v4_def address_of_v6_def)

interpretation addr: cpp_order address_ok address_eq address_less
proof (unfold_locales, goal_cases)
  case (1 a b)
  then show ?case by (elim address_ok_cases) (auto simp: v6.eq_iff)
next
  case (2 a)
  then show ?case by (elim address_ok_cases) (auto simp: v6.lt_irrefl)
next
  case (3 a b c)
  then show ?case by (elim address_ok_cases) (auto dest: v6.lt_trans)
next
  case (4 a b)
  then show ?case by (elim address_ok_cases) (auto dest: v6.lt_total)
qed

text \<open>On addresses asio builds, exactly one of \<^verbatim>\<open><\<close>, \<^verbatim>\<open>==\<close> and \<^verbatim>\<open>>\<close> holds between two
  addresses, \<^verbatim>\<open>==\<close> is equality of the whole value, \<^verbatim>\<open><=\<close> and \<^verbatim>\<open>>=\<close> are what their names say,
  and every IPv4 address is before every IPv6 address.\<close>

theorem address_order_total:
  assumes "address_ok a" and "address_ok b"
  shows "(address_less a b \<and> a \<noteq> b \<and> \<not> address_gt a b \<or> \<not> address_less a b \<and> a = b \<and> \<not> address_gt a b
      \<or> \<not> address_less a b \<and> a \<noteq> b \<and> address_gt a b)
    \<and> (address_eq a b \<longleftrightarrow> a = b) \<and> (address_neq a b \<longleftrightarrow> a \<noteq> b)
    \<and> (address_le a b \<longleftrightarrow> address_less a b \<or> a = b) \<and> (address_ge a b \<longleftrightarrow> address_gt a b \<or> a = b)
    \<and> address_less (address_of_v4 x) (address_of_v6 y)"
  using addr.trichotomy [OF assms] addr.eq_iff [OF assms]
  unfolding address_gt_def address_neq_def address_le_def address_ge_def by auto

theorem address_order_total_witness:
  "address_less (address_of_v4 v4_default) (address_of_v6 v6_loopback)
     \<and> address_of_v4 v4_default \<noteq> address_of_v6 v6_loopback"
  using address_order_total [of "address_of_v4 v4_default" "address_of_v6 v6_loopback"
      v4_default v6_loopback] by simp

subsection \<open>Printing and reading back\<close>

text \<open>What the documentation of \<^verbatim>\<open>inet_ntop\<close>, \<^verbatim>\<open>inet_pton\<close>, \<^verbatim>\<open>if_indextoname\<close> and
  \<^verbatim>\<open>if_nametoindex\<close> promises for one address: the text is read back as the same bytes and has
  no percent sign, a text of version 4 is not one of version 6, and an interface has the number
  its name stands for.\<close>

definition os_reads_v4 :: "os_net \<Rightarrow> u8 list \<Rightarrow> bool" where
  "os_reads_v4 os b =
     (case os_ntop os AF_INET b of
        (Some t, e) \<Rightarrow> e = 0 \<and> CHR ''%'' \<notin> set t \<and> os_pton os AF_INET t = (1, b, 0) \<and>
          fst (os_pton os AF_INET6 t) \<le> 0
      | (None, _) \<Rightarrow> False)"

definition os_reads_v6 :: "os_net \<Rightarrow> u8 list \<Rightarrow> bool" where
  "os_reads_v6 os b =
     (case os_ntop os AF_INET6 b of
        (Some t, e) \<Rightarrow> e = 0 \<and> CHR ''%'' \<notin> set t \<and> length t < 46 \<and>
          os_pton os AF_INET6 t = (1, b, 0)
      | (None, _) \<Rightarrow> False)"

definition os_knows_scope :: "os_net \<Rightarrow> u64 \<Rightarrow> bool" where
  "os_knows_scope os scope =
     (case os_if_indextoname os (ucast scope) of
        Some name \<Rightarrow> os_if_nametoindex os name = ucast scope
      | None \<Rightarrow> os_if_nametoindex os (decimal (unat scope)) = 0)"

definition scope_readable :: "os_net \<Rightarrow> address_v6 \<Rightarrow> bool" where
  "scope_readable os a =
     (unat (scope_id a) < 2 ^ 31 \<and> (if link_scope (s6_addr a) then os_knows_scope os (scope_id a) else True))"

lemma takeWhile_percent: "CHR ''%'' \<notin> set t \<Longrightarrow> takeWhile (\<lambda>c. c \<noteq> CHR ''%'') t = t"
  by (simp add: takeWhile_eq_all_conv) blast

lemma takeWhile_percent_append:
  "CHR ''%'' \<notin> set t \<Longrightarrow> takeWhile (\<lambda>c. c \<noteq> CHR ''%'') (t @ ''%'' @ s) = t"
  by (subst takeWhile_append2) auto

lemma inet_pton_v4: 
  "inet_pton os AF_INET t d None =
     (let (r, b, e) = os_pton os AF_INET t; ec = Error_code e system_category in
      (r, if r > 0 then b else d, None,
       if r \<le> 0 \<and> \<not> is_error ec then basic_error invalid_argument else ec))"
  by (auto simp: inet_pton_def error_wrapper_def Let_def split: prod.splits)

lemma v4_text_roundtrip:
  assumes "os_reads_v4 os (v4_to_bytes a)"
  shows "\<exists>t. v4_to_string os a = Inr t \<and> v4_from_string_ec os t = (a, no_error) \<and>
    is_error (snd (v6_from_string_ec os t))"
proof -
  from assms obtain t where t: "os_ntop os AF_INET (v4_to_bytes a) = (Some t, 0)"
    "CHR ''%'' \<notin> set t" "os_pton os AF_INET t = (1, v4_to_bytes a, 0)"
    "fst (os_pton os AF_INET6 t) \<le> 0"
    by (auto simp: os_reads_v4_def split: prod.splits option.splits)
  have "v4_to_string os a = Inr t"
    by (simp add: v4_to_string_def v4_to_string_ec_def inet_ntop_def error_wrapper_def t Let_def
        is_error_def throw_error_def)
  moreover have "v4_from_string_ec os t = (a, no_error)"
    by (simp add: v4_from_string_ec_def inet_pton_v4 t is_error_def no_error_def)
  moreover have "is_error (snd (v6_from_string_ec os t))"
    using t(4) by (auto simp: v6_from_string_ec_def inet_pton_def takeWhile_percent [OF t(2)]
        error_wrapper_def Let_def split: prod.splits)
  ultimately show ?thesis by blast
qed

lemma u64_small: "unat (w :: u64) < 2 ^ 31 \<Longrightarrow> word_of_int (int (unat w)) = w \<and> ucast (ucast w :: u32) = w"
proof -
  assume "unat w < 2 ^ 31"
  then have "unat (ucast (ucast w :: u32) :: u64) = unat w"
    by (simp add: unsigned_ucast_eq unsigned_take_bit_eq take_bit_nat_eq_self)
  then show ?thesis by (simp add: word_unat_eq_iff)
qed

lemma v6_text_roundtrip:
  assumes "v6_ok a" and "os_reads_v6 os (s6_addr a)" and "scope_readable os a"
  shows "\<exists>t. v6_to_string os a = Inr t \<and> v6_from_string_ec os t = (a, no_error)"
proof -
  let ?b = "s6_addr a" and ?z = "scope_id a"
  from assms(2) obtain t where t: "os_ntop os AF_INET6 ?b = (Some t, 0)"
    "CHR ''%'' \<notin> set t" "length t < 46" "os_pton os AF_INET6 t = (1, ?b, 0)"
    by (auto simp: os_reads_v6_def split: prod.splits option.splits)
  have small: "unat ?z < 2 ^ 31" using assms(3) by (simp add: scope_readable_def)
  note z = u64_small [OF small]
  show ?thesis
  proof (cases "?z = 0")
    case True
    have "v6_to_string os a = Inr t"
      by (simp add: v6_to_string_def v6_to_string_ec_def inet_ntop_def error_wrapper_def t Let_def
          is_error_def throw_error_def True)
    moreover have "v6_from_string_ec os t = (a, no_error)"
      using True by (cases a) (simp add: v6_from_string_ec_def inet_pton_def t error_wrapper_def
          takeWhile_percent [OF t(2)] is_error_def no_error_def)
    ultimately show ?thesis by blast
  next
    case False
    define name where "name = (if \<not> link_scope ?b then decimal (unat ?z)
      else case os_if_indextoname os (ucast ?z) of None \<Rightarrow> decimal (unat ?z) | Some name \<Rightarrow> name)"
    have "v6_to_string os a = Inr (t @ ''%'' @ name)"
      using False by (simp add: v6_to_string_def v6_to_string_ec_def inet_ntop_def error_wrapper_def
          t Let_def is_error_def throw_error_def name_def)
    moreover
    have id: "(let id1 = (if link_scope ?b then ucast (os_if_nametoindex os name) else 0) in
        (if id1 = 0 then word_of_int (atoi name) else id1)) = ?z"
      using assms(3) z False
      by (auto simp: name_def scope_readable_def os_knows_scope_def Let_def split: option.splits if_splits)
    have len: "\<not> 63 < length t" using t(3) by simp
    have "v6_from_string_ec os (t @ ''%'' @ name) = (a, no_error)"
      using id len by (cases a) (simp add: v6_from_string_ec_def inet_pton_def error_wrapper_def t
          takeWhile_percent_append [OF t(2), simplified] max_addr_v6_str_len_def is_error_def
          no_error_def Let_def)
    ultimately show ?thesis by blast
  qed
qed

text \<open>
  C11. The text of an address is read back as that address. The system calls are assumed to
  read their own text for the bytes at hand, and the interface numbers to be consistent; then
  \<^verbatim>\<open>from_string\<close> of \<^verbatim>\<open>to_string\<close> gives the address, with its version, although the reader tries
  version 6 first, and with its scope id, which asio prints and parses itself.\<close>

theorem address_text_roundtrip:
  assumes "address_ok a"
    and "case addr_type a of ipv4 \<Rightarrow> os_reads_v4 os (v4_to_bytes (ipv4_address a))
      | ipv6 \<Rightarrow> os_reads_v6 os (s6_addr (ipv6_address a)) \<and> scope_readable os (ipv6_address a)"
  shows "bind_res (address_to_string os a) (address_from_string os) = Inr a"
  using assms(1)
proof (cases rule: address_ok_cases)
  case (v4 x)
  then have "os_reads_v4 os (v4_to_bytes x)" using assms(2) by (simp add: address_of_v4_def)
  from v4_text_roundtrip [OF this] obtain t where "v4_to_string os x = Inr t"
    "v4_from_string_ec os t = (x, no_error)" "is_error (snd (v6_from_string_ec os t))"
    by blast
  then show ?thesis
    by (auto simp: v4 address_to_string_def address_from_string_def address_from_string_ec_def
        address_of_v4_def address_default_def split: prod.splits)
next
  case (v6 x)
  then have "os_reads_v6 os (s6_addr x)" "scope_readable os x"
    using assms(2) by (simp_all add: address_of_v6_def)
  from v6_text_roundtrip [OF v6(2) this] obtain t where "v6_to_string os x = Inr t"
    "v6_from_string_ec os t = (x, no_error)" by blast
  then show ?thesis
    by (simp add: v6 address_to_string_def address_from_string_def address_from_string_ec_def
        address_of_v6_def address_default_def)
qed

text \<open>A system that knows one link-local address and one interface.\<close>

definition sample_v6 :: address_v6 where
  "sample_v6 = Address_v6 [0xfe, 0x80, 0, 0, 0, 0, 0, 0, 0, 0, 0, 0, 0, 0, 0, 1] 3"

definition sample_os :: os_net where
  "sample_os = \<lparr>os_ntop = \<lambda>af b. (if af = AF_INET6 \<and> b = s6_addr sample_v6 then Some ''fe80::1'' else None, 0),
     os_pton = \<lambda>af s. if af = AF_INET6 \<and> s = ''fe80::1'' then (1, s6_addr sample_v6, 0) else (0, [], 0),
     os_if_indextoname = \<lambda>i. if i = 3 then Some ''wlan0'' else None,
     os_if_nametoindex = \<lambda>s. if s = ''wlan0'' then 3 else 0\<rparr>"

theorem address_text_roundtrip_witness:
  "bind_res (address_to_string sample_os (address_of_v6 sample_v6)) (address_from_string sample_os)
     = Inr (address_of_v6 sample_v6)"
proof (rule address_text_roundtrip)
  show "address_ok (address_of_v6 sample_v6)" by (simp add: sample_v6_def v6_ok_def)
  have "os_reads_v6 sample_os (s6_addr sample_v6)"
    by (simp add: os_reads_v6_def sample_os_def sample_v6_def)
  moreover have "scope_readable sample_os sample_v6"
    by (simp add: scope_readable_def sample_v6_def os_knows_scope_def sample_os_def)
  ultimately show "case addr_type (address_of_v6 sample_v6) of
      ipv4 \<Rightarrow> os_reads_v4 sample_os (v4_to_bytes (ipv4_address (address_of_v6 sample_v6)))
    | ipv6 \<Rightarrow> os_reads_v6 sample_os (s6_addr (ipv6_address (address_of_v6 sample_v6))) \<and>
        scope_readable sample_os (ipv6_address (address_of_v6 sample_v6))"
    by (simp add: address_of_v6_def)
qed

end
