(* ===== verification/IpEndpoint.thy ===== *)
theory IpEndpoint
  imports IpAddressText
begin

text \<open>
  Endpoints (\<^verbatim>\<open>ip/detail/endpoint.hpp\<close>, \<^verbatim>\<open>ip/detail/impl/endpoint.ipp\<close>,
  \<^verbatim>\<open>ip/basic_endpoint.hpp\<close>, \<^verbatim>\<open>ip/udp.hpp\<close>), the addresses \<^verbatim>\<open>ReceiverComms\<close> sends to and
  receives from. The union of socket addresses is a datatype with the member its family
  selects; ports and IPv4 addresses are kept in network order. The sizes are those of Linux.
\<close>

datatype endpoint =
    Sockaddr_in (sin_port: u16) (sin_addr: u32)
  | Sockaddr_in6 (sin6_port: u16) (sin6_flowinfo: u32) (sin6_addr: "u8 list") (sin6_scope_id: u32)

definition ep_default :: endpoint where
  "ep_default = Sockaddr_in 0 0"

definition ep_of_family :: "family \<Rightarrow> u16 \<Rightarrow> endpoint" where
  "ep_of_family fam port_num =
     (if fam = AF_INET then Sockaddr_in (host_to_network_short port_num) 0
      else Sockaddr_in6 (host_to_network_short port_num) 0 (replicate 16 0) 0)"

definition address_is_v4 :: "address \<Rightarrow> bool" where
  "address_is_v4 a \<longleftrightarrow> addr_type a = ipv4"

definition ep_of_address :: "address \<Rightarrow> u16 \<Rightarrow> exn + endpoint" where
  "ep_of_address addr port_num =
     (if address_is_v4 addr
      then bind_res (address_to_v4 addr) (\<lambda>a.
             Inr (Sockaddr_in (host_to_network_short port_num)
                    (host_to_network_long (ucast (to_ulong a)))))
      else bind_res (address_to_v6 addr) (\<lambda>v6_addr.
             Inr (Sockaddr_in6 (host_to_network_short port_num) 0 (v6_to_bytes v6_addr)
                    (ucast (scope_id v6_addr)))))"

definition ep_is_v4 :: "endpoint \<Rightarrow> bool" where
  "ep_is_v4 e = (case e of Sockaddr_in _ _ \<Rightarrow> True | Sockaddr_in6 _ _ _ _ \<Rightarrow> False)"

definition ep_copy :: "endpoint \<Rightarrow> endpoint" where
  "ep_copy other = other"

definition ep_size :: "endpoint \<Rightarrow> nat" where
  "ep_size e = (if ep_is_v4 e then 16 else 28)"

definition ep_capacity :: nat where
  "ep_capacity = 28"

definition ep_resize :: "endpoint \<Rightarrow> nat \<Rightarrow> exn + endpoint" where
  "ep_resize e new_size =
     (if new_size > 128 then bind_res (throw_error (basic_error invalid_argument)) (\<lambda>_. Inr e)
      else Inr e)"

definition ep_port :: "endpoint \<Rightarrow> u16" where
  "ep_port e =
     (if ep_is_v4 e then network_to_host_short (sin_port e)
      else network_to_host_short (sin6_port e))"

definition ep_set_port :: "endpoint \<Rightarrow> u16 \<Rightarrow> endpoint" where
  "ep_set_port e port_num =
     (case e of
        Sockaddr_in _ a \<Rightarrow> Sockaddr_in (host_to_network_short port_num) a
      | Sockaddr_in6 _ f b s \<Rightarrow> Sockaddr_in6 (host_to_network_short port_num) f b s)"

definition ep_address :: "endpoint \<Rightarrow> exn + address" where
  "ep_address e =
     (case e of
        Sockaddr_in _ a \<Rightarrow>
          map_sum id address_of_v4 (v4_from_ulong (ucast (network_to_host_long a)))
      | Sockaddr_in6 _ _ b s \<Rightarrow> Inr (address_of_v6 (v6_from_bytes b (ucast s))))"

definition ep_set_address :: "endpoint \<Rightarrow> address \<Rightarrow> exn + endpoint" where
  "ep_set_address e addr = ep_of_address addr (ep_port e)"

text \<open>The comparisons call \<open>address()\<close>, which never throws on an endpoint; \<open>the_addr\<close> is its value.\<close>

definition the_addr :: "endpoint \<Rightarrow> address" where
  "the_addr e = (case ep_address e of Inr a \<Rightarrow> a | Inl _ \<Rightarrow> address_default)"

definition ep_eq :: "endpoint \<Rightarrow> endpoint \<Rightarrow> bool" where
  "ep_eq e1 e2 \<longleftrightarrow> address_eq (the_addr e1) (the_addr e2) \<and> ep_port e1 = ep_port e2"

definition ep_less :: "endpoint \<Rightarrow> endpoint \<Rightarrow> bool" where
  "ep_less e1 e2 =
     (if address_less (the_addr e1) (the_addr e2) then True
      else if address_neq (the_addr e1) (the_addr e2) then False
      else ep_port e1 < ep_port e2)"

definition ep_to_string :: "os_net \<Rightarrow> endpoint \<Rightarrow> string \<times> error_code" where
  "ep_to_string os e =
     (let (a, ec) = address_to_string_ec os (the_addr e) in
      if is_error ec then ('''', ec)
      else ((if ep_is_v4 e then a else ''['' @ a @ '']'') @ '':'' @ decimal (unat (ep_port e)), ec))"

subsection \<open>The protocol and its endpoints\<close>

datatype udp = Udp (udp_family: family)

definition udp_v4 :: udp where "udp_v4 = Udp AF_INET"

definition udp_v6 :: udp where "udp_v6 = Udp AF_INET6"

definition udp_type :: "udp \<Rightarrow> int" where "udp_type p = 2"

definition udp_protocol :: "udp \<Rightarrow> int" where "udp_protocol p = 17"

definition udp_eq :: "udp \<Rightarrow> udp \<Rightarrow> bool" where
  "udp_eq p1 p2 \<longleftrightarrow> udp_family p1 = udp_family p2"

definition udp_neq :: "udp \<Rightarrow> udp \<Rightarrow> bool" where
  "udp_neq p1 p2 \<longleftrightarrow> udp_family p1 \<noteq> udp_family p2"

datatype basic_endpoint = Basic_endpoint (impl: endpoint)

definition be_default :: basic_endpoint where
  "be_default = Basic_endpoint ep_default"

definition be_of_protocol :: "udp \<Rightarrow> u16 \<Rightarrow> basic_endpoint" where
  "be_of_protocol p port_num = Basic_endpoint (ep_of_family (udp_family p) port_num)"

definition be_of_address :: "address \<Rightarrow> u16 \<Rightarrow> exn + basic_endpoint" where
  "be_of_address addr port_num = map_sum id Basic_endpoint (ep_of_address addr port_num)"

definition be_copy :: "basic_endpoint \<Rightarrow> basic_endpoint" where
  "be_copy other = Basic_endpoint (ep_copy (impl other))"

definition be_protocol :: "basic_endpoint \<Rightarrow> udp" where
  "be_protocol e = (if ep_is_v4 (impl e) then udp_v4 else udp_v6)"

definition be_size :: "basic_endpoint \<Rightarrow> nat" where
  "be_size e = ep_size (impl e)"

definition be_resize :: "basic_endpoint \<Rightarrow> nat \<Rightarrow> exn + basic_endpoint" where
  "be_resize e n = map_sum id Basic_endpoint (ep_resize (impl e) n)"

definition be_port :: "basic_endpoint \<Rightarrow> u16" where
  "be_port e = ep_port (impl e)"

definition be_set_port :: "basic_endpoint \<Rightarrow> u16 \<Rightarrow> basic_endpoint" where
  "be_set_port e p = Basic_endpoint (ep_set_port (impl e) p)"

definition be_address :: "basic_endpoint \<Rightarrow> exn + address" where
  "be_address e = ep_address (impl e)"

definition be_set_address :: "basic_endpoint \<Rightarrow> address \<Rightarrow> exn + basic_endpoint" where
  "be_set_address e a = map_sum id Basic_endpoint (ep_set_address (impl e) a)"

definition be_eq :: "basic_endpoint \<Rightarrow> basic_endpoint \<Rightarrow> bool" where
  "be_eq e1 e2 \<longleftrightarrow> ep_eq (impl e1) (impl e2)"

definition be_neq :: "basic_endpoint \<Rightarrow> basic_endpoint \<Rightarrow> bool" where
  "be_neq e1 e2 \<longleftrightarrow> \<not> be_eq e1 e2"

definition be_less :: "basic_endpoint \<Rightarrow> basic_endpoint \<Rightarrow> bool" where
  "be_less e1 e2 \<longleftrightarrow> ep_less (impl e1) (impl e2)"

definition be_gt :: "basic_endpoint \<Rightarrow> basic_endpoint \<Rightarrow> bool" where
  "be_gt e1 e2 \<longleftrightarrow> ep_less (impl e2) (impl e1)"

definition be_le :: "basic_endpoint \<Rightarrow> basic_endpoint \<Rightarrow> bool" where
  "be_le e1 e2 \<longleftrightarrow> \<not> be_less e2 e1"

definition be_ge :: "basic_endpoint \<Rightarrow> basic_endpoint \<Rightarrow> bool" where
  "be_ge e1 e2 \<longleftrightarrow> \<not> be_less e1 e2"

text \<open>Writing an endpoint to a stream: the text is appended, or on an error the fail bit is set,
  which throws when the stream was told to.\<close>

record ostream =
  os_text :: string
  os_failbit :: bool
  os_throws :: bool

definition be_output :: "os_net \<Rightarrow> ostream \<Rightarrow> basic_endpoint \<Rightarrow> exn + ostream" where
  "be_output os out e =
     bind_res (be_address e) (\<lambda>a. bind_res (ep_of_address a (be_port e)) (\<lambda>tmp_ep.
       let (s, ec) = ep_to_string os tmp_ep in
       if is_error ec
       then (if os_throws out then bind_res (throw_error ec) (\<lambda>_. Inr out)
             else Inr (out \<lparr>os_failbit := True\<rparr>))
       else Inr (out \<lparr>os_text := os_text out @ s\<rparr>)))"

subsection \<open>Endpoints and the pairs they stand for\<close>

text \<open>An endpoint asio builds: the array has sixteen bytes and the flow label is zero.\<close>

definition ep_ok :: "endpoint \<Rightarrow> bool" where
  "ep_ok e = (case e of Sockaddr_in _ _ \<Rightarrow> True
     | Sockaddr_in6 _ f b _ \<Rightarrow> f = 0 \<and> length b = 16)"

text \<open>An address whose scope id the endpoint can hold.\<close>

definition fits_endpoint :: "address \<Rightarrow> bool" where
  "fits_endpoint a \<longleftrightarrow> address_ok a \<and> unat (scope_id (ipv6_address a)) < 2 ^ 32"

lemma ucast_u32_u64 [simp]: "ucast (ucast (w :: u32) :: u64) = w"
  by (simp add: ucast_up_ucast_id is_up)

lemma ucast_u64_u32: "unat (w :: u64) < 2 ^ 32 \<Longrightarrow> ucast (ucast w :: u32) = w"
proof -
  assume "unat w < 2 ^ 32"
  then have "unat (ucast (ucast w :: u32) :: u64) = unat w"
    by (simp add: unsigned_ucast_eq unsigned_take_bit_eq take_bit_nat_eq_self)
  then show ?thesis by (simp add: word_unat_eq_iff)
qed

lemma to_ulong_net: "host_to_network_long (ucast (to_ulong a)) = s_addr a"
  by (simp add: to_ulong_def)

lemma v4_from_net: "v4_from_ulong (ucast (network_to_host_long a)) = Inr (Address_v4 a)"
  using v4_from_to_ulong [of "Address_v4 a"] by (simp add: to_ulong_def del: v4_from_to_ulong)

lemma ep_of_address_v4 [simp]:
  "ep_of_address (address_of_v4 a) p = Inr (Sockaddr_in (host_to_network_short p) (s_addr a))"
  by (simp add: ep_of_address_def address_is_v4_def address_to_v4_def to_ulong_net)
    (simp add: address_of_v4_def to_ulong_net)

lemma ep_of_address_v6 [simp]:
  "v6_ok a \<Longrightarrow> ep_of_address (address_of_v6 a) p =
     Inr (Sockaddr_in6 (host_to_network_short p) 0 (s6_addr a) (ucast (scope_id a)))"
  by (simp add: ep_of_address_def address_is_v4_def address_to_v6_def address_of_v6_def v6_to_bytes_def
      v6_ok_def)

lemma ep_address_simps [simp]:
  "ep_address (Sockaddr_in p a) = Inr (address_of_v4 (Address_v4 a))"
  "length b = 16 \<Longrightarrow> ep_address (Sockaddr_in6 p f b s) = Inr (address_of_v6 (Address_v6 b (ucast s)))"
  by (simp_all add: ep_address_def v4_from_net v6_from_bytes_def)

lemma ep_port_simps [simp]:
  "ep_port (Sockaddr_in p a) = network_to_host_short p"
  "ep_port (Sockaddr_in6 p f b s) = network_to_host_short p"
  by (simp_all add: ep_port_def ep_is_v4_def)

lemma the_addr_ok: "ep_ok e \<Longrightarrow> address_ok (the_addr e)"
  by (auto simp: ep_ok_def the_addr_def v6_ok_def split: endpoint.splits)

lemma ntohs_inj: "network_to_host_short v = network_to_host_short w \<longleftrightarrow> v = w"
  by (metis htons_ntohs)

lemma ucast_u32_inj: "ucast (v :: u32) = (ucast w :: u64) \<longleftrightarrow> v = w"
  by (metis ucast_u32_u64)

lemma ep_view_inj:
  "ep_ok e \<Longrightarrow> ep_ok e' \<Longrightarrow> the_addr e = the_addr e' \<Longrightarrow> ep_port e = ep_port e' \<Longrightarrow> e = e'"
  by (cases e; cases e') (auto simp: ep_ok_def the_addr_def ntohs_inj ucast_u32_inj)

interpretation ep: cpp_order ep_ok ep_eq ep_less
proof (rule cpp_order_view [OF cpp_order_lex [OF addr.cpp_order_axioms
        cpp_order_linorder [where 'a = u16]], where f = "\<lambda>e. (the_addr e, ep_port e)"], goal_cases)
  case (1 e)
  then show ?case by (simp add: the_addr_ok)
next
  case (2 e e')
  then show ?case by (simp add: ep_view_inj)
next
  case (3 e e')
  then show ?case by (simp add: ep_eq_def)
next
  case (4 e e')
  then show ?case by (simp add: ep_less_def address_neq_def)
qed

lemma ep_ok_makers [simp]:
  "ep_ok ep_default" "ep_ok (ep_of_family fam p)" "ep_ok (ep_set_port e p) = ep_ok e"
  "ep_of_address a p = Inr e \<Longrightarrow> address_ok a \<Longrightarrow> ep_ok e"
  by (auto simp: ep_ok_def ep_default_def ep_of_family_def ep_set_port_def split: endpoint.splits
      elim!: address_ok_cases) (auto simp: v6_ok_def)

text \<open>
  An endpoint is its address and its port: building one from any address whose scope id
  has at most 32 bits succeeds and the two are read back; setting the port or the address changes
  that one only.\<close>

theorem endpoint_is_address_and_port:
  assumes "fits_endpoint a" and "fits_endpoint a'"
  shows "case ep_of_address a p of
      Inl _ \<Rightarrow> False
    | Inr e \<Rightarrow> ep_address e = Inr a \<and> ep_port e = p \<and> ep_is_v4 e = address_is_v4 a \<and>
        ep_address (ep_set_port e q) = Inr a \<and> ep_port (ep_set_port e q) = q \<and>
        ep_set_address e a' = ep_of_address a' p"
proof -
  have "address_ok a" "unat (scope_id (ipv6_address a)) < 2 ^ 32"
    using assms(1) by (simp_all add: fits_endpoint_def)
  then show ?thesis
  proof (cases rule: address_ok_cases)
    case (v4 x)
    then show ?thesis
      by (simp add: ep_set_port_def ep_set_address_def ep_is_v4_def address_is_v4_def)
        (simp add: address_of_v4_def)
  next
    case (v6 x)
    have "unat (scope_id x) < 2 ^ 32"
      using \<open>unat (scope_id (ipv6_address a)) < 2 ^ 32\<close> by (simp add: v6 address_of_v6_def)
    then have "ucast (ucast (scope_id x) :: u32) = scope_id x" by (rule ucast_u64_u32)
    then show ?thesis
      using v6 by (simp add: v6_ok_def ep_set_port_def ep_set_address_def ep_is_v4_def
          address_is_v4_def) (simp add: address_of_v6_def)
  qed
qed

theorem endpoint_is_address_and_port_witness:
  "ep_port (ep_set_port (Sockaddr_in (host_to_network_short 8888) 0) 21) = 21"
  using endpoint_is_address_and_port [of "address_of_v4 v4_default" "address_of_v4 v4_default" 8888 21]
  by (simp add: fits_endpoint_def v4_default_def) (simp add: address_of_v4_def v6_default_def)

subsection \<open>The order of endpoints\<close>

text \<open>What the comparisons go by, most significant first: the version, the address as it is written, the
  scope id and the port. Lists of numbers are compared from their front.\<close>

definition endpoint_key :: "basic_endpoint \<Rightarrow> nat list" where
  "endpoint_key e =
     (case impl e of
        Sockaddr_in p a \<Rightarrow> [0, unat (network_to_host_long a), unat (network_to_host_short p)]
      | Sockaddr_in6 p _ b s \<Rightarrow> 1 # map unat b @ [unat s, unat (network_to_host_short p)])"

lemma append_less_append:
  "length xs = length xs' \<Longrightarrow> (xs @ ys < xs' @ ys') \<longleftrightarrow> xs < xs' \<or> xs = xs' \<and> ys < (ys' :: 'a::linorder list)"
  by (induction xs xs' rule: list_induct2) auto

lemma map_unat_less:
  "length xs = length ys \<Longrightarrow> (map unat xs < map unat ys) \<longleftrightarrow> xs < (ys :: 'a::len word list)"
  by (induction xs ys rule: list_induct2) (auto simp: word_less_nat_alt word_unat_eq_iff)

lemma map_unat_inj: "map unat xs = map unat ys \<longleftrightarrow> xs = (ys :: 'a::len word list)"
  by (rule inj_map_eq_map) (simp add: inj_def word_unat_eq_iff)

lemma ucast_u64_less: "(ucast v :: u64) < ucast w \<longleftrightarrow> v < (w :: u32)"
proof -
  have "unat x < 2 ^ 64" for x :: u32 using unsigned_less [of x, where 'a = nat] by simp
  then show ?thesis by (simp add: word_less_nat_alt unsigned_ucast_eq take_bit_nat_eq_self)
qed

lemma endpoint_key_less:
  assumes "ep_ok (impl e)" and "ep_ok (impl e')"
  shows "be_less e e' \<longleftrightarrow> endpoint_key e < endpoint_key e'"
proof (cases "impl e"; cases "impl e'")
  fix p a p' a' assume i: "impl e = Sockaddr_in p a" "impl e' = Sockaddr_in p' a'"
  have "network_to_host_long a = network_to_host_long a' \<longleftrightarrow> a = a'" by (metis htonl_ntohl)
  then show ?thesis
    by (auto simp: be_less_def ep_less_def i the_addr_def address_neq_def endpoint_key_def less_address_v4_def v4_less_def
        to_ulong_def ucast_u64_less word_less_nat_alt [symmetric] word_unat_eq_iff [symmetric] Cons_less_Cons)
next
  fix p a p' f b s assume i: "impl e = Sockaddr_in p a" "impl e' = Sockaddr_in6 p' f b s"
  then show ?thesis using assms
    by (simp add: be_less_def ep_less_def ep_ok_def the_addr_def endpoint_key_def)
next
  fix p a p' f b s assume i: "impl e = Sockaddr_in6 p' f b s" "impl e' = Sockaddr_in p a"
  then show ?thesis using assms
    by (simp add: be_less_def ep_less_def ep_ok_def the_addr_def address_neq_def endpoint_key_def)
next
  fix p f b s p' f' b' s' assume i: "impl e = Sockaddr_in6 p f b s" "impl e' = Sockaddr_in6 p' f' b' s'"
  then have l: "length b = 16" "length b' = 16" using assms by (simp_all add: ep_ok_def)
  then have lb: "length b = length b'" "length (map unat b) = length (map unat b')" by simp_all
  have key: "endpoint_key e < endpoint_key e' \<longleftrightarrow> b < b' \<or> b = b' \<and> (s < s' \<or> s = s' \<and> network_to_host_short p < network_to_host_short p')"
    by (simp add: endpoint_key_def i append_less_append [OF lb(2)] map_unat_less [OF lb(1)] map_unat_inj
        word_less_nat_alt [symmetric] word_unat_eq_iff [symmetric] Cons_less_Cons)
  show ?thesis unfolding key
    using l memcmp_zero [OF lb(1)] memcmp_neg [OF lb(1)] memcmp_pos [OF lb(1)]
    by (auto simp: be_less_def ep_less_def i the_addr_def address_neq_def v6_less_def v6_eq_def Let_def
        ucast_u64_less ucast_u32_inj)
qed

text \<open>
  C12. Endpoints asio builds are totally ordered, first by version, then by address as a number or byte by
  byte, then by scope id and then by port; \<^verbatim>\<open>==\<close> is equality of what is stored and of what the
  order goes by, \<^verbatim>\<open><\<close> is transitive, and the derived comparisons of \<^verbatim>\<open>basic_endpoint\<close>
  agree with it.\<close>

theorem endpoint_order_total:
  assumes "ep_ok (impl e)" and "ep_ok (impl e')" and "ep_ok (impl e'')"
  shows "(be_less e e' \<longleftrightarrow> endpoint_key e < endpoint_key e') \<and> (be_gt e e' \<longleftrightarrow> endpoint_key e' < endpoint_key e) \<and>
    (be_le e e' \<longleftrightarrow> endpoint_key e \<le> endpoint_key e') \<and> (be_ge e e' \<longleftrightarrow> endpoint_key e' \<le> endpoint_key e) \<and>
    (be_eq e e' \<longleftrightarrow> e = e') \<and> (be_neq e e' \<longleftrightarrow> e \<noteq> e') \<and> (endpoint_key e = endpoint_key e' \<longleftrightarrow> e = e') \<and>
    (be_less e e' \<and> be_less e' e'' \<longrightarrow> be_less e e'')"
proof -
  note less = endpoint_key_less [OF assms(1,2)] endpoint_key_less [OF assms(2,1)]
    endpoint_key_less [OF assms(2,3)] endpoint_key_less [OF assms(1,3)]
  have "e = e' \<longleftrightarrow> impl e = impl e'" by (auto intro: basic_endpoint.expand)
  then have eq: "be_eq e e' \<longleftrightarrow> e = e'" unfolding be_eq_def using ep.eq_iff [OF assms(1,2)] by simp
  have "e = e' \<or> be_less e e' \<or> be_less e' e"
    using ep.lt_total [OF assms(1,2)] by (auto simp: be_less_def intro: basic_endpoint.expand)
  then have key: "endpoint_key e = endpoint_key e' \<longleftrightarrow> e = e'" using less(1,2) by auto
  have gt: "be_gt e e' = be_less e' e" by (simp add: be_gt_def be_less_def)
  show ?thesis unfolding be_le_def be_ge_def be_neq_def gt less eq key by auto
qed

theorem endpoint_order_total_witness:
  "be_less (Basic_endpoint (Sockaddr_in 0x5000 0x0100007F)) (be_of_protocol udp_v6 80)"
proof -
  let ?a = "Basic_endpoint (Sockaddr_in 0x5000 0x0100007F)" and ?b = "Basic_endpoint (Sockaddr_in 0x5100 0x0100007F)"
  note t = endpoint_order_total [of ?a ?b "be_of_protocol udp_v6 80"] endpoint_order_total [of ?b "be_of_protocol udp_v6 80" ?a]
  have "be_less ?a ?b" by code_simp
  moreover have "be_less ?b (be_of_protocol udp_v6 80)" by code_simp
  ultimately show ?thesis
    using t by (simp add: ep_ok_def be_of_protocol_def udp_v6_def ep_of_family_def)
qed

end
