(* ===== verification/OpQueue.thy ===== *)
theory OpQueue
  imports Loops AsioError
begin

text \<open>
  The intrusive queue of operations (\<^verbatim>\<open>detail/op_queue.hpp\<close>). Operations are addresses; the
  \<^verbatim>\<open>next_\<close> pointers of all of them are one map, so that queues share the store as they do in
  the program, and a queue is its two pointers. The invariant \<open>holds\<close> says which operations a
  queue links; the operations of the class are shown to be those of a list.
\<close>

type_synonym ptr = nat
type_synonym links = "ptr \<Rightarrow> ptr option"

record op_queue =
  q_front :: "ptr option"
  q_back :: "ptr option"

definition oq_new :: op_queue where
  "oq_new = \<lparr>q_front = None, q_back = None\<rparr>"

definition oq_next :: "links \<Rightarrow> ptr \<Rightarrow> ptr option" where
  "oq_next nx o1 = nx o1"

definition oq_set_next :: "links \<Rightarrow> ptr \<Rightarrow> ptr option \<Rightarrow> links" where
  "oq_set_next nx o1 o2 = nx(o1 := o2)"

definition oq_front :: "op_queue \<Rightarrow> ptr option" where
  "oq_front q = q_front q"

definition oq_pop :: "links \<Rightarrow> op_queue \<Rightarrow> links \<times> op_queue" where
  "oq_pop nx q =
     (case q_front q of
        None \<Rightarrow> (nx, q)
      | Some tmp \<Rightarrow>
          let q = q \<lparr>q_front := oq_next nx tmp\<rparr>;
              q = (if q_front q = None then q \<lparr>q_back := None\<rparr> else q) in
          (oq_set_next nx tmp None, q))"

definition oq_push :: "links \<Rightarrow> op_queue \<Rightarrow> ptr \<Rightarrow> links \<times> op_queue" where
  "oq_push nx q h =
     (let nx = oq_set_next nx h None in
      case q_back q of
        Some b \<Rightarrow> (oq_set_next nx b (Some h), q \<lparr>q_back := Some h\<rparr>)
      | None \<Rightarrow> (nx, q \<lparr>q_front := Some h, q_back := Some h\<rparr>))"

text \<open>The second queue is the one whose operations move; the results are the links, this queue
  and that one.\<close>

definition oq_push_queue :: "links \<Rightarrow> op_queue \<Rightarrow> op_queue \<Rightarrow> links \<times> op_queue \<times> op_queue" where
  "oq_push_queue nx q other =
     (case q_front other of
        None \<Rightarrow> (nx, q, other)
      | Some other_front \<Rightarrow>
          let (nx, q) =
                (case q_back q of
                   Some b \<Rightarrow> (oq_set_next nx b (Some other_front), q)
                 | None \<Rightarrow> (nx, q \<lparr>q_front := Some other_front\<rparr>)) in
          (nx, q \<lparr>q_back := q_back other\<rparr>, other \<lparr>q_front := None, q_back := None\<rparr>))"

definition oq_empty :: "op_queue \<Rightarrow> bool" where
  "oq_empty q \<longleftrightarrow> q_front q = None"

text \<open>The destructor; the last component is the operations it has destroyed, in order.\<close>

definition oq_destroy :: "links \<Rightarrow> op_queue \<Rightarrow> (links \<times> op_queue \<times> ptr list) res" where
  "oq_destroy nx q =
     res_while (\<lambda>(nx, q, done). q_front q \<noteq> None)
       (\<lambda>(nx, q, done).
          case q_front q of
            None \<Rightarrow> Inl NullPointer
          | Some op \<Rightarrow> let (nx, q) = oq_pop nx q in Inr (nx, q, done @ [op]))
       (nx, q, [])"

subsection \<open>The list a queue holds\<close>

fun chain :: "links \<Rightarrow> ptr option \<Rightarrow> ptr list \<Rightarrow> bool" where
  "chain nx p [] \<longleftrightarrow> p = None"
| "chain nx p (x # xs) \<longleftrightarrow> p = Some x \<and> chain nx (nx x) xs"

definition holds :: "links \<Rightarrow> op_queue \<Rightarrow> ptr list \<Rightarrow> bool" where
  "holds nx q xs \<longleftrightarrow> chain nx (q_front q) xs \<and> distinct xs \<and>
     q_back q = (if xs = [] then None else Some (last xs))"

lemma chain_frame: "\<lbrakk>\<And>x. x \<in> set xs \<Longrightarrow> nx' x = nx x; chain nx p xs\<rbrakk> \<Longrightarrow> chain nx' p xs"
  by (induction xs arbitrary: p) auto

lemma chain_unique: "chain nx p xs \<Longrightarrow> chain nx p ys \<Longrightarrow> xs = ys"
proof (induction xs arbitrary: p ys)
  case Nil
  then show ?case by (cases ys) auto
next
  case (Cons x xs)
  then show ?case by (cases ys) auto
qed

lemma chain_append:
  "chain nx p (xs @ ys) \<longleftrightarrow> (if xs = [] then chain nx p ys
     else (\<exists>q. chain (nx(last xs := None)) p xs \<and> nx (last xs) = q \<and> chain nx q ys))"
  if "distinct (xs @ ys)"
  using that
proof (induction xs arbitrary: p)
  case (Cons x xs)
  show ?case
  proof (cases "xs = []")
    case False
    then have "last xs \<noteq> x" using Cons.prems by auto
    then show ?thesis using Cons False by auto
  qed auto
qed auto

lemma chain_link:
  assumes "chain nx p xs" "chain nx r ys" "distinct (xs @ ys)" "xs \<noteq> []"
  shows "chain (nx(last xs := r)) p (xs @ ys)"
proof -
  have "last xs \<in> set xs" using assms(4) by simp
  with assms(3) have "last xs \<notin> set ys" by auto
  then have "chain (nx(last xs := r)) r ys" by (intro chain_frame [OF _ assms(2)]) auto
  moreover have "nx (last xs) = None" using assms(1,4) by (induction xs arbitrary: p) auto
  then have "nx(last xs := None) = nx" by auto
  ultimately show ?thesis using assms by (simp add: chain_append)
qed

named_theorems oq_defs
lemmas [oq_defs] = oq_new_def oq_pop_def oq_push_def oq_push_queue_def oq_empty_def oq_front_def
  oq_next_def oq_set_next_def holds_def

lemma holds_new: "holds nx oq_new []"
  by (simp add: oq_defs)

lemma holds_front: "holds nx q xs \<Longrightarrow> oq_front q = (case xs of [] \<Rightarrow> None | x # _ \<Rightarrow> Some x)"
  by (cases xs) (auto simp: oq_defs)

lemma holds_empty: "holds nx q xs \<Longrightarrow> oq_empty q \<longleftrightarrow> xs = []"
  by (cases xs) (auto simp: oq_defs)

lemma holds_pop:
  assumes "holds nx q xs"
  shows "case oq_pop nx q of (nx', q') \<Rightarrow> holds nx' q' (tl xs) \<and>
    (\<forall>x. x \<noteq> hd xs \<or> xs = [] \<longrightarrow> nx' x = nx x)"
proof (cases xs)
  case Nil
  then show ?thesis using assms by (simp add: oq_defs)
next
  case (Cons x ys)
  with assms have f: "q_front q = Some x" "chain nx (nx x) ys" "distinct ys" "x \<notin> set ys"
    "q_back q = Some (last (x # ys))" by (auto simp: holds_def)
  have "chain (nx(x := None)) (nx x) ys" by (rule chain_frame [OF _ f(2)]) (use f(4) in auto)
  moreover have "nx x = None \<longleftrightarrow> ys = []" using f(2) by (cases ys) auto
  ultimately show ?thesis using f Cons by (auto simp: oq_defs Let_def)
qed

lemma holds_push:
  assumes "holds nx q xs" and "h \<notin> set xs"
  shows "case oq_push nx q h of (nx', q') \<Rightarrow> holds nx' q' (xs @ [h]) \<and>
    (\<forall>x. x \<noteq> h \<longrightarrow> (xs = [] \<or> x \<noteq> last xs) \<longrightarrow> nx' x = nx x)"
proof (cases "xs = []")
  case True
  then show ?thesis using assms by (auto simp: oq_defs)
next
  case False
  have "chain (nx(h := None)) (q_front q) xs"
    by (rule chain_frame [of _ _ nx]) (use assms in \<open>auto simp: holds_def\<close>)
  then have "chain ((nx(h := None))(last xs := Some h)) (q_front q) (xs @ [h])"
    using assms False by (intro chain_link) (auto simp: holds_def)
  then show ?thesis using assms False by (auto simp: oq_defs)
qed

lemma holds_push_queue:
  assumes "holds nx q xs" and "holds nx r ys" and "set xs \<inter> set ys = {}"
  shows "case oq_push_queue nx q r of (nx', q', r') \<Rightarrow> holds nx' q' (xs @ ys) \<and> holds nx' r' [] \<and>
    (\<forall>x. xs = [] \<or> x \<noteq> last xs \<longrightarrow> nx' x = nx x)"
proof (cases ys)
  case Nil
  then show ?thesis using assms by (simp add: oq_defs)
next
  case (Cons y zs)
  with assms(2) have r: "q_front r = Some y" "chain nx (Some y) ys" "q_back r = Some (last ys)"
    "distinct ys" by (auto simp: holds_def)
  show ?thesis
  proof (cases "xs = []")
    case True
    then show ?thesis using assms r by (auto simp: oq_defs Cons)
  next
    case False
    have "chain (nx(last xs := Some y)) (q_front q) (xs @ ys)"
      using assms r False by (intro chain_link) (auto simp: holds_def)
    then show ?thesis using assms r False by (auto simp: oq_defs Cons)
  qed
qed

text \<open>A queue none of whose operations a step touches keeps its list.\<close>

lemma holds_frame: "holds nx q xs \<Longrightarrow> (\<And>x. x \<in> set xs \<Longrightarrow> nx' x = nx x) \<Longrightarrow> holds nx' q xs"
  by (auto simp: holds_def intro: chain_frame)

subsection \<open>Queues as lists\<close>

text \<open>What a client of a queue of operations relies on, for the store at hand.\<close>

locale operation_queue =
  fixes rep :: "'h \<Rightarrow> 'q \<Rightarrow> 'o list \<Rightarrow> bool"
    and front :: "'q \<Rightarrow> 'o option"
    and push :: "'h \<Rightarrow> 'q \<Rightarrow> 'o \<Rightarrow> 'h \<times> 'q"
    and pop :: "'h \<Rightarrow> 'q \<Rightarrow> 'h \<times> 'q"
  assumes rep_front: "rep h q xs \<Longrightarrow> front q = (case xs of [] \<Rightarrow> None | x # _ \<Rightarrow> Some x)"
    and rep_push: "rep h q xs \<Longrightarrow> x \<notin> set xs \<Longrightarrow> case push h q x of (h', q') \<Rightarrow> rep h' q' (xs @ [x])"
    and rep_pop: "rep h q xs \<Longrightarrow> case pop h q of (h', q') \<Rightarrow> rep h' q' (tl xs)"
begin

text \<open>Pushing a list of fresh operations and popping as often gives them in order.\<close>

fun push_all :: "'h \<Rightarrow> 'q \<Rightarrow> 'o list \<Rightarrow> 'h \<times> 'q" where
  "push_all h q [] = (h, q)"
| "push_all h q (x # xs) = (let (h, q) = push h q x in push_all h q xs)"

fun drain :: "nat \<Rightarrow> 'h \<Rightarrow> 'q \<Rightarrow> 'o list" where
  "drain 0 h q = []"
| "drain (Suc n) h q =
     (case front q of None \<Rightarrow> [] | Some x \<Rightarrow> (let (h, q) = pop h q in x # drain n h q))"

lemma push_all_rep:
  "rep h q xs \<Longrightarrow> distinct (xs @ ys) \<Longrightarrow> case push_all h q ys of (h', q') \<Rightarrow> rep h' q' (xs @ ys)"
proof (induction ys arbitrary: h q xs)
  case (Cons y ys)
  obtain h' q' where p: "push h q y = (h', q')" by force
  have "rep h' q' (xs @ [y])" using rep_push [of h q xs y] Cons.prems p by auto
  from Cons.IH [OF this] Cons.prems show ?case by (simp add: p)
qed auto

lemma drain_rep: "rep h q xs \<Longrightarrow> drain n h q = take n xs"
proof (induction n arbitrary: h q xs)
  case (Suc n)
  show ?case
  proof (cases xs)
    case Nil
    then show ?thesis using rep_front [OF Suc.prems] by simp
  next
    case (Cons x ys)
    obtain h' q' where p: "pop h q = (h', q')" by force
    then have "rep h' q' ys" using rep_pop [OF Suc.prems] Cons by auto
    then show ?thesis using Suc.IH rep_front [OF Suc.prems] by (simp add: Cons p)
  qed
qed auto

lemma fifo:
  assumes "rep h q []" and "distinct xs"
  shows "case push_all h q xs of (h', q') \<Rightarrow> drain n h' q' = take n xs"
  using push_all_rep [OF assms(1), of xs] assms(2) by (auto simp: drain_rep split: prod.splits)

end

interpretation oq: operation_queue holds oq_front oq_push oq_pop
proof (unfold_locales, goal_cases)
  case (1 h q xs)
  then show ?case by (rule holds_front)
next
  case (2 h q xs x)
  then show ?case using holds_push [of h q xs x] by auto
next
  case (3 h q xs)
  then show ?case using holds_pop [of h q xs] by auto
qed

lemma oq_destroy_run:
  assumes "holds nx q xs"
  shows "\<exists>nx' q'. oq_destroy nx q = Inr (nx', q', xs) \<and> holds nx' q' []"
proof -
  let ?P = "\<lambda>(nx', q', ds). \<exists>ys. holds nx' q' ys \<and> xs = ds @ ys"
  let ?f = "\<lambda>(nx', q', ds). length xs - length (ds :: ptr list)"
  have "\<exists>t. oq_destroy nx q = Inr t \<and> ?P t \<and> \<not> (case t of (nx, q, done) \<Rightarrow> q_front q \<noteq> None)"
    unfolding oq_destroy_def
  proof (rule res_while_total [where f = ?f])
    show "?P (nx, q, [])" using assms by auto
  next
    fix s assume P: "?P s" and b: "case s of (nx, q, done) \<Rightarrow> q_front q \<noteq> None"
    obtain nx1 q1 ds where s: "s = (nx1, q1, ds)" by (cases s)
    from P obtain ys where ys: "holds nx1 q1 ys" "xs = ds @ ys" by (auto simp: s)
    then obtain y zs where y: "ys = y # zs" using b by (cases ys) (auto simp: s holds_def)
    have f: "q_front q1 = Some y" using ys y by (simp add: holds_def)
    obtain nx2 q2 where p: "oq_pop nx1 q1 = (nx2, q2)" by force
    then have "holds nx2 q2 zs" using holds_pop [OF ys(1)] y by auto
    then show "\<exists>s'. (case s of (nx, q, done) \<Rightarrow>
        case q_front q of None \<Rightarrow> Inl NullPointer
        | Some op \<Rightarrow> let (nx, q) = oq_pop nx q in Inr (nx, q, done @ [op])) = Inr s' \<and> ?P s' \<and> ?f s' < ?f s"
      using ys y by (auto simp: s f p)
  qed
  then show ?thesis by (auto simp: holds_def) (metis chain.elims(2) option.distinct(1) append_Nil2)
qed

text \<open>Moving a queue on to the back of another (what a reactor does with the operations that
  are ready) appends its list, leaves it empty and touches nothing else: a third queue in the
  same store, with other operations, keeps its own list.\<close>

theorem push_queue_appends:
  assumes "holds nx q xs" and "holds nx r ys" and "holds nx s zs"
    and "distinct (xs @ ys @ zs)"
  shows "case oq_push_queue nx q r of (nx', q', r') \<Rightarrow>
    holds nx' q' (xs @ ys) \<and> holds nx' r' [] \<and> holds nx' s zs"
proof -
  obtain nx' q' r' where p: "oq_push_queue nx q r = (nx', q', r')" by (cases "oq_push_queue nx q r")
  have l: "holds nx' q' (xs @ ys)" "holds nx' r' []"
    "\<And>x. xs = [] \<or> x \<noteq> last xs \<Longrightarrow> nx' x = nx x"
    using holds_push_queue [OF assms(1,2)] assms(4) p by auto
  have "holds nx' s zs"
  proof (rule holds_frame [OF assms(3) l(3)])
    fix x assume "x \<in> set zs"
    with assms(4) have "x \<notin> set xs" by auto
    then show "xs = [] \<or> x \<noteq> last xs" using last_in_set [of xs] by blast
  qed
  then show ?thesis using l p by simp
qed

theorem push_queue_appends_witness:
  "let nx = (\<lambda>x. if x = 1 then Some 2 else if x = 7 then Some 8 else None);
       q = \<lparr>q_front = Some 1, q_back = Some 2\<rparr>; r = \<lparr>q_front = Some 5, q_back = Some 5\<rparr>;
       s = \<lparr>q_front = Some 7, q_back = Some 8\<rparr>
   in holds (fst (oq_push_queue nx q r)) (fst (snd (oq_push_queue nx q r))) [1, 2, 5]"
  using push_queue_appends [of "\<lambda>x. if x = 1 then Some 2 else if x = 7 then Some 8 else None"
      "\<lparr>q_front = Some 1, q_back = Some 2\<rparr>" "[1, 2]" "\<lparr>q_front = Some 5, q_back = Some 5\<rparr>" "[5]"
      "\<lparr>q_front = Some 7, q_back = Some 8\<rparr>" "[7, 8]"]
  by (auto simp: holds_def split: prod.splits)

text \<open>
  Destroying a queue ends, and destroys each of its operations exactly once, in order.\<close>

theorem destroy_ends:
  assumes "holds nx q xs"
  shows "\<exists>nx' q'. oq_destroy nx q = Inr (nx', q', xs) \<and> oq_empty q' \<and> distinct xs"
  using oq_destroy_run [OF assms] assms by (metis holds_empty holds_def)

theorem destroy_ends_witness:
  "\<exists>nx' q'. oq_destroy (\<lambda>x. if x = 1 then Some 2 else None) \<lparr>q_front = Some 1, q_back = Some 2\<rparr>
     = Inr (nx', q', [1, 2])"
  using destroy_ends [of "\<lambda>x. if x = 1 then Some 2 else None" "\<lparr>q_front = Some 1, q_back = Some 2\<rparr>" "[1, 2]"]
  by (auto simp: holds_def)

end
