(* ===== verification/Links.thy ===== *)
theory Links
  imports OpQueue
begin

text \<open>
  Doubly linked lists as \<^verbatim>\<open>timer_queue\<close> and \<^verbatim>\<open>object_pool\<close> keep them: a head and the maps of the
  \<^verbatim>\<open>next_\<close> and \<^verbatim>\<open>prev_\<close> pointers. \<open>dlist\<close> says which list the pointers form.
\<close>

definition link_front :: "links \<Rightarrow> links \<Rightarrow> ptr option \<Rightarrow> ptr \<Rightarrow> links \<times> links \<times> ptr option" where
  "link_front nx pv head x =
     (nx(x := head),
      (case head of Some h \<Rightarrow> (pv(x := None))(h := Some x) | None \<Rightarrow> pv(x := None)),
      Some x)"

definition unlink :: "links \<Rightarrow> links \<Rightarrow> ptr option \<Rightarrow> ptr \<Rightarrow> links \<times> links \<times> ptr option" where
  "unlink nx pv head x =
     (let head' = (if head = Some x then nx x else head);
          nx' = (case pv x of Some p \<Rightarrow> nx(p := nx x) | None \<Rightarrow> nx);
          pv' = (case nx' x of Some n \<Rightarrow> pv(n := pv x) | None \<Rightarrow> pv) in
      (nx', pv', head'))"

fun dlist :: "links \<Rightarrow> links \<Rightarrow> ptr option \<Rightarrow> ptr option \<Rightarrow> ptr list \<Rightarrow> bool" where
  "dlist nx pv pr p [] \<longleftrightarrow> p = None"
| "dlist nx pv pr p (x # xs) \<longleftrightarrow> p = Some x \<and> pv x = pr \<and> dlist nx pv (Some x) (nx x) xs"

lemma dlist_frame:
  "\<lbrakk>\<And>x. x \<in> set xs \<Longrightarrow> nx' x = nx x \<and> pv' x = pv x; dlist nx pv pr p xs\<rbrakk> \<Longrightarrow> dlist nx' pv' pr p xs"
  by (induction xs arbitrary: pr p) auto

lemma dlist_head: "dlist nx pv pr p xs \<Longrightarrow> p = (case xs of [] \<Rightarrow> None | x # _ \<Rightarrow> Some x)"
  by (cases xs) auto

lemma dlist_prev: "dlist nx pv pr p (as @ x # bs) \<Longrightarrow> pv x = (if as = [] then pr else Some (last as))"
  by (induction as arbitrary: pr p) auto

lemma dlist_next: "dlist nx pv pr p (as @ x # bs) \<Longrightarrow> nx x = (case bs of [] \<Rightarrow> None | b # _ \<Rightarrow> Some b)"
  by (induction as arbitrary: pr p) (auto dest: dlist_head)

lemma dlist_link_front:
  assumes "dlist nx pv None head xs" and "distinct (x # xs)"
  shows "case link_front nx pv head x of (nx', pv', head') \<Rightarrow> dlist nx' pv' None head' (x # xs)"
proof (cases xs)
  case Nil
  then show ?thesis using assms by (simp add: link_front_def)
next
  case (Cons y ys)
  with assms have h: "head = Some y" "dlist nx pv (Some y) (nx y) ys" by auto
  have "dlist (nx(x := Some y)) ((pv(x := None))(y := Some x)) (Some y) (nx y) ys"
    by (rule dlist_frame [OF _ h(2)]) (use assms(2) Cons in auto)
  then show ?thesis using assms(2) Cons by (auto simp: link_front_def h)
qed

text \<open>Removing an element: the pointers around it are joined.\<close>

lemma dlist_relink:
  assumes "dlist nx pv pr p (as @ x # bs)" "distinct (as @ x # bs)"
    and "nx' = (if as = [] then nx else nx(last as := nx x))"
    and "pv' = (case bs of [] \<Rightarrow> pv | b # _ \<Rightarrow> pv(b := (if as = [] then pr else Some (last as))))"
  shows "dlist nx' pv' pr (if as = [] then nx x else p) (as @ bs)"
  using assms
proof (induction as arbitrary: pr p nx' pv')
  case Nil
  then have b: "dlist nx pv (Some x) (nx x) bs" and n: "nx' = nx" by simp_all
  show ?case
  proof (cases bs)
    case c: (Cons c cs)
    have p: "pv' = pv(c := pr)" using Nil(4) c by (simp add: fun_upd_def)
    have "dlist nx (pv(c := pr)) (Some c) (nx c) cs"
      by (rule dlist_frame [of cs _ nx _ pv]) (use Nil(2) b c in auto)
    moreover have "nx x = Some c" using b c by simp
    ultimately show ?thesis unfolding n p c by (simp only: dlist.simps append_Nil fun_upd_same simp_thms if_True)
  qed (use b in simp)
next
  case (Cons a as)
  show ?case
  proof (cases "as = []")
    case True
    have b: "dlist nx pv (Some x) (nx x) bs" using Cons.prems True by simp
    have n: "nx' = nx(a := nx x)" and a: "p = Some a" "pv a = pr"
      using Cons.prems True by (simp_all add: fun_upd_def)
    show ?thesis
    proof (cases bs)
      case Nil
      then show ?thesis using Cons.prems True b by auto
    next
      case c: (Cons c cs)
      have p: "pv' = pv(c := Some a)" using Cons.prems(4) c True by (simp add: fun_upd_def)
      have "dlist nx' pv' (Some c) (nx c) cs"
        by (rule dlist_frame [of cs _ nx _ pv]) (use Cons.prems(2) b c n p in auto)
      moreover have "nx x = Some c" "a \<noteq> c" using b c Cons.prems(2) by auto
      ultimately show ?thesis unfolding a(1) c True
        using a(2) by (simp only: append_Cons append_Nil dlist.simps) (simp add: n p)
    qed
  next
    case False
    then have l: "last as \<in> set as" by simp
    have "dlist nx' pv' (Some a) (nx a) (as @ bs)"
      using Cons.IH [of "Some a" "nx a" nx' pv'] Cons.prems False by (auto split: list.splits)
    moreover have "nx' a = nx a" "pv' a = pv a"
      using Cons.prems False l by (auto split: list.splits)
    ultimately show ?thesis using Cons.prems False by simp
  qed
qed

lemma dlist_unlink:
  assumes "dlist nx pv None head (as @ x # bs)" "distinct (as @ x # bs)"
  shows "case unlink nx pv head x of (nx', pv', head') \<Rightarrow> dlist nx' pv' None head' (as @ bs)
    \<and> (\<forall>y. y \<notin> set as \<longrightarrow> nx' y = nx y) \<and> (\<forall>y. y \<notin> set bs \<longrightarrow> pv' y = pv y)"
proof -
  note pv = dlist_prev [OF assms(1)] and nx = dlist_next [OF assms(1)]
  have h: "(if head = Some x then nx x else head) = (if as = [] then nx x else head)"
    using assms dlist_head [OF assms(1)] by (cases as) auto
  define nx' where "nx' = (if as = [] then nx else nx(last as := nx x))"
  define pv' where "pv' = (case bs of [] \<Rightarrow> pv | b # _ \<Rightarrow> pv(b := (if as = [] then None else Some (last as))))"
  have "last as \<noteq> x" if "as \<noteq> []" using assms(2) that by auto
  then have "nx' x = nx x" by (simp add: nx'_def)
  then have u: "unlink nx pv head x = (nx', pv', if as = [] then nx x else head)"
    unfolding unlink_def h nx'_def [symmetric] using pv nx
    by (auto simp: Let_def nx'_def pv'_def split: list.splits)
  have "dlist nx' pv' None (if as = [] then nx x else head) (as @ bs)"
    by (rule dlist_relink [OF assms]) (simp_all add: nx'_def pv'_def)
  then show ?thesis
    by (auto simp: u nx'_def pv'_def split: list.splits)
qed

end
