(* ===== verification/TimerQueue.thy ===== *)
theory TimerQueue
  imports Links "HOL-Library.Multiset"
begin

text \<open>
  The queue of timers (\<^verbatim>\<open>detail/timer_queue.hpp\<close>), one per kind of clock: a binary heap of
  expiry times in a vector, each timer knowing its index in it, and a doubly linked list of the
  timers that have operations waiting. Times are ticks; the operations of a timer are a list,
  which \<open>OpQueue\<close> shows the intrusive queue to be. All indices the code uses are below the
  heap's size, so the vector is a list.
\<close>

record timer_queue =
  timers :: "ptr option"
  heap :: "(int \<times> ptr) list"
  heap_index :: "ptr \<Rightarrow> nat"
  t_ops :: "ptr \<Rightarrow> ptr list"
  t_next :: links
  t_prev :: links

definition size_max :: nat where
  "size_max = 2 ^ 64 - 1"

definition tq_new :: timer_queue where
  "tq_new = \<lparr>timers = None, heap = [], heap_index = (\<lambda>_. 0), t_ops = (\<lambda>_. []),
     t_next = (\<lambda>_. None), t_prev = (\<lambda>_. None)\<rparr>"

type_synonym heap_state = "(int \<times> ptr) list \<times> (ptr \<Rightarrow> nat)"

definition time_at :: "(int \<times> ptr) list \<Rightarrow> nat \<Rightarrow> int" where
  "time_at h i = fst (h ! i)"

definition swap_heap :: "nat \<Rightarrow> nat \<Rightarrow> heap_state \<Rightarrow> heap_state" where
  "swap_heap index1 index2 s =
     (let (h, ix) = s;
          tmp = h ! index1;
          h = h[index1 := h ! index2];
          h = h[index2 := tmp];
          ix = ix(snd (h ! index1) := index1);
          ix = ix(snd (h ! index2) := index2) in
      (h, ix))"

fun up_heap :: "nat \<Rightarrow> heap_state \<Rightarrow> heap_state" where
  "up_heap index s =
     (if index > 0
      then (let parent = (index - 1) div 2 in
            if \<not> time_at (fst s) index < time_at (fst s) parent then s
            else up_heap parent (swap_heap index parent s))
      else s)"

lemma swap_heap_length [simp]: "length (fst (swap_heap i j s)) = length (fst s)"
  by (simp add: swap_heap_def Let_def split: prod.splits)

definition min_child :: "(int \<times> ptr) list \<Rightarrow> nat \<Rightarrow> nat" where
  "min_child h child =
     (if child + 1 = length h \<or> time_at h child < time_at h (child + 1) then child else child + 1)"

function down_heap :: "nat \<Rightarrow> heap_state \<Rightarrow> heap_state" where
  "down_heap index s =
     (let child = index * 2 + 1 in
      if child < length (fst s)
      then (let mc = min_child (fst s) child in
            if time_at (fst s) index < time_at (fst s) mc then s
            else down_heap mc (swap_heap index mc s))
      else s)"
  by auto
termination
  by (relation "measure (\<lambda>(index, s). length (fst s) - index)") (auto simp: min_child_def Let_def)

declare up_heap.simps [simp del] down_heap.simps [simp del]

definition enqueue_timer :: "(int \<Rightarrow> bool) \<Rightarrow> int \<Rightarrow> ptr \<Rightarrow> ptr \<Rightarrow> timer_queue \<Rightarrow> timer_queue \<times> bool" where
  "enqueue_timer is_positive_infinity time timer op q =
     (let q =
        (if t_prev q timer = None \<and> timers q \<noteq> Some timer
         then
           (let q =
              (if is_positive_infinity time
               then q \<lparr>heap_index := (heap_index q)(timer := size_max)\<rparr>
               else
                 (let ix = (heap_index q)(timer := length (heap q));
                      h = heap q @ [(time, timer)];
                      (h, ix) = up_heap (length h - 1) (h, ix) in
                  q \<lparr>heap := h, heap_index := ix\<rparr>));
              (nx, pv, hd) = link_front (t_next q) (t_prev q) (timers q) timer in
            q \<lparr>t_next := nx, t_prev := pv, timers := hd\<rparr>)
         else q);
        q = q \<lparr>t_ops := (t_ops q)(timer := t_ops q timer @ [op])\<rparr> in
      (q, heap_index q timer = 0 \<and> hd (t_ops q timer) = op))"

definition tq_empty :: "timer_queue \<Rightarrow> bool" where
  "tq_empty q \<longleftrightarrow> timers q = None"

definition heap_remove :: "nat \<Rightarrow> heap_state \<Rightarrow> heap_state" where
  "heap_remove index s =
     (if fst s \<noteq> [] \<and> index < length (fst s)
      then
        (if index = length (fst s) - 1 then (butlast (fst s), snd s)
         else
           (let s = swap_heap index (length (fst s) - 1) s;
                s = (butlast (fst s), snd s) in
            if index > 0 \<and> time_at (fst s) index < time_at (fst s) ((index - 1) div 2)
            then up_heap index s else down_heap index s))
      else s)"

definition remove_timer :: "ptr \<Rightarrow> timer_queue \<Rightarrow> timer_queue" where
  "remove_timer timer q =
     (let (h, ix) = heap_remove (heap_index q timer) (heap q, heap_index q);
          (nx, pv, hd) = unlink (t_next q) (t_prev q) (timers q) timer in
      q \<lparr>heap := h, heap_index := ix, timers := hd, t_next := nx(timer := None),
        t_prev := pv(timer := None)\<rparr>)"

text \<open>\<open>now\<close> is the time the clock gives once, before the loop; the second component is the queue
  the ready operations are pushed on.\<close>

definition get_ready_timers :: "int \<Rightarrow> timer_queue \<Rightarrow> ptr list \<Rightarrow> (timer_queue \<times> ptr list) res" where
  "get_ready_timers now q ops =
     (if heap q \<noteq> []
      then res_while (\<lambda>(q, ops). heap q \<noteq> [] \<and> \<not> now < time_at (heap q) 0)
             (\<lambda>(q, ops).
                let timer = snd (heap q ! 0);
                    ops = ops @ t_ops q timer;
                    q = q \<lparr>t_ops := (t_ops q)(timer := [])\<rparr> in
                Inr (remove_timer timer q, ops))
             (q, ops)
      else Inr (q, ops))"

definition get_all_timers :: "timer_queue \<Rightarrow> ptr list \<Rightarrow> (timer_queue \<times> ptr list) res" where
  "get_all_timers q ops =
     bind_res
       (res_while (\<lambda>(q, ops). timers q \<noteq> None)
          (\<lambda>(q, ops).
             case timers q of
               None \<Rightarrow> Inl NullPointer
             | Some timer \<Rightarrow>
                 Inr (q \<lparr>timers := t_next q timer, t_ops := (t_ops q)(timer := []),
                        t_next := (t_next q)(timer := None), t_prev := (t_prev q)(timer := None)\<rparr>,
                      ops @ t_ops q timer))
          (q, ops))
       (\<lambda>(q, ops). Inr (q \<lparr>heap := []\<rparr>, ops))"

text \<open>The operations cancelled are those at the front; \<open>ec\<close> is where each operation keeps its error.\<close>

definition cancel_timer ::
    "ptr \<Rightarrow> nat \<Rightarrow> timer_queue \<Rightarrow> (ptr \<Rightarrow> error_code) \<Rightarrow> ptr list \<Rightarrow>
     timer_queue \<times> (ptr \<Rightarrow> error_code) \<times> ptr list \<times> nat" where
  "cancel_timer timer max_cancelled q ec ops =
     (if t_prev q timer \<noteq> None \<or> timers q = Some timer
      then
        (let done = take max_cancelled (t_ops q timer);
             ec = (\<lambda>x. if x \<in> set done then basic_error operation_aborted else ec x);
             q = q \<lparr>t_ops := (t_ops q)(timer := drop max_cancelled (t_ops q timer))\<rparr>;
             q = (if t_ops q timer = [] then remove_timer timer q else q) in
         (q, ec, ops @ done, length done))
      else (q, ec, ops, 0))"

subsection \<open>The heap\<close>

definition par :: "nat \<Rightarrow> nat" where
  "par j = (j - 1) div 2"

lemmas up_heap_par = up_heap.simps [folded par_def]

definition heap_ok :: "(int \<times> ptr) list \<Rightarrow> bool" where
  "heap_ok h \<longleftrightarrow> (\<forall>j < length h. 0 < j \<longrightarrow> time_at h (par j) \<le> time_at h j)"

text \<open>Every timer in the heap knows its index.\<close>

definition idx_ok :: "heap_state \<Rightarrow> bool" where
  "idx_ok s \<longleftrightarrow> (\<forall>i < length (fst s). snd s (snd (fst s ! i)) = i)"

definition in_heap :: "(int \<times> ptr) list \<Rightarrow> ptr set" where
  "in_heap h = snd ` set h"

lemma idx_ok_distinct: "idx_ok s \<Longrightarrow> distinct (map snd (fst s))"
  unfolding idx_ok_def distinct_conv_nth by (metis length_map nth_map)

lemma idx_ok_inj:
  "idx_ok s \<Longrightarrow> i < length (fst s) \<Longrightarrow> j < length (fst s) \<Longrightarrow> snd (fst s ! i) = snd (fst s ! j) \<longleftrightarrow> i = j"
  by (metis idx_ok_def)

lemma in_heap_nth: "i < length h \<Longrightarrow> snd (h ! i) \<in> in_heap h"
  by (simp add: in_heap_def)

lemma in_heapE: "t \<in> in_heap h \<Longrightarrow> (\<And>i. i < length h \<Longrightarrow> t = snd (h ! i) \<Longrightarrow> P) \<Longrightarrow> P"
  by (auto simp: in_heap_def in_set_conv_nth)

text \<open>What the moves of entries keep.\<close>

definition same_heap :: "heap_state \<Rightarrow> heap_state \<Rightarrow> bool" where
  "same_heap s s' \<longleftrightarrow> mset (fst s') = mset (fst s) \<and> (\<forall>t. t \<notin> in_heap (fst s) \<longrightarrow> snd s' t = snd s t)"

lemma same_heap_refl [simp]: "same_heap s s"
  by (simp add: same_heap_def)

lemma same_heap_length: "same_heap s s' \<Longrightarrow> length (fst s') = length (fst s)"
  by (metis same_heap_def size_mset)

lemma same_heap_in: "same_heap s s' \<Longrightarrow> in_heap (fst s') = in_heap (fst s)"
  by (metis same_heap_def in_heap_def set_mset_mset)

lemma same_heap_trans: "same_heap s s' \<Longrightarrow> same_heap s' s'' \<Longrightarrow> same_heap s s''"
  using same_heap_in [of s s'] by (auto simp: same_heap_def)

lemma fst_swap_heap: "fst (swap_heap i j s) = (fst s)[i := fst s ! j, j := fst s ! i]"
  by (simp add: swap_heap_def Let_def split: prod.splits)

lemma time_swap:
  assumes "i < length (fst s)" "j < length (fst s)"
  shows "time_at (fst (swap_heap i j s)) k =
    (if k = j then time_at (fst s) i else if k = i then time_at (fst s) j else time_at (fst s) k)"
  using assms by (simp add: fst_swap_heap time_at_def nth_list_update)

lemma swap_heap_same:
  assumes "i < length (fst s)" "j < length (fst s)"
  shows "same_heap s (swap_heap i j s)"
proof -
  have "mset (fst (swap_heap i j s)) = mset (fst s)"
    using assms by (simp add: fst_swap_heap mset_swap)
  then show ?thesis
    using assms by (auto simp: same_heap_def swap_heap_def Let_def in_heap_def nth_list_update
        split: prod.splits)
qed

lemma swap_heap_idx:
  assumes "i < length (fst s)" "j < length (fst s)" "idx_ok s"
  shows "idx_ok (swap_heap i j s)"
proof -
  obtain h ix where s: "s = (h, ix)" by (cases s)
  have inj: "\<And>a b. a < length h \<Longrightarrow> b < length h \<Longrightarrow> snd (h ! a) = snd (h ! b) \<longleftrightarrow> a = b"
    using idx_ok_inj [OF assms(3)] by (simp add: s)
  have ix: "\<And>a. a < length h \<Longrightarrow> ix (snd (h ! a)) = a" using assms(3) by (simp add: s idx_ok_def)
  show ?thesis
    using assms(1,2) by (auto simp: s idx_ok_def swap_heap_def nth_list_update inj ix)
qed

lemma par_less: "0 < i \<Longrightarrow> par i < i" by (simp add: par_def)

definition up_ok :: "(int \<times> ptr) list \<Rightarrow> nat \<Rightarrow> bool" where
  "up_ok h i \<longleftrightarrow> (\<forall>j < length h. 0 < j \<and> j \<noteq> i \<longrightarrow> time_at h (par j) \<le> time_at h j) \<and>
     (\<forall>j < length h. 0 < j \<and> par j = i \<and> 0 < i \<longrightarrow> time_at h (par i) \<le> time_at h j)"

definition down_ok :: "(int \<times> ptr) list \<Rightarrow> nat \<Rightarrow> bool" where
  "down_ok h i \<longleftrightarrow> (\<forall>j < length h. 0 < j \<and> par j \<noteq> i \<longrightarrow> time_at h (par j) \<le> time_at h j) \<and>
     (\<forall>j < length h. 0 < j \<and> par j = i \<and> 0 < i \<longrightarrow> time_at h (par i) \<le> time_at h j)"

lemma up_ok_swap:
  assumes "i < length (fst s)" "0 < i" "up_ok (fst s) i" "time_at (fst s) i < time_at (fst s) (par i)"
  shows "up_ok (fst (swap_heap i (par i) s)) (par i)"
proof -
  have p: "par i < length (fst s)" using assms(1,2) par_less [of i] by linarith
  note t = time_swap [OF assms(1) p] and u = assms(3) [unfolded up_ok_def]
  show ?thesis
    unfolding up_ok_def swap_heap_length
  proof (intro conjI allI impI)
    fix j assume j: "j < length (fst s)" "0 < j \<and> j \<noteq> par i"
    consider "j = i" | "j \<noteq> i" "par j = i" | "j \<noteq> i" "par j = par i" | "j \<noteq> i" "par j \<noteq> i" "par j \<noteq> par i"
      by blast
    then show "time_at (fst (swap_heap i (par i) s)) (par j) \<le> time_at (fst (swap_heap i (par i) s)) j"
    proof cases
      case 2
      then have "par i \<noteq> i" using par_less [OF assms(2)] by simp
      then show ?thesis using u j 2 assms(2) by (auto simp: t)
    next
      case 3
      then show ?thesis using u j assms(4) by (fastforce simp: t)
    qed (use u j assms(2,4) in \<open>auto simp: t\<close>)
  next
    fix j assume j: "j < length (fst s)" "0 < j \<and> par j = par i \<and> 0 < par i"
    have pp: "par (par i) < par i" using par_less [of "par i"] j by simp
    have "par i < i" using par_less [OF assms(2)] .
    have "time_at (fst s) (par (par i)) \<le> time_at (fst s) (par i)"
      using u p j \<open>par i < i\<close> by auto
    moreover have "time_at (fst s) (par i) \<le> time_at (fst s) j" if "j \<noteq> i" using u j that by auto
    ultimately show "time_at (fst (swap_heap i (par i) s)) (par (par i))
        \<le> time_at (fst (swap_heap i (par i) s)) j"
      using pp \<open>par i < i\<close> j by (fastforce simp: t)
  qed
qed

lemma up_heap_correct:
  assumes "i < length (fst s)" "up_ok (fst s) i" "idx_ok s"
  shows "heap_ok (fst (up_heap i s)) \<and> idx_ok (up_heap i s) \<and> same_heap s (up_heap i s)"
  using assms
proof (induction i s rule: up_heap.induct [folded par_def])
  case (1 i s)
  show ?case
  proof (cases "0 < i \<and> time_at (fst s) i < time_at (fst s) (par i)")
    case True
    let ?s = "swap_heap i (par i) s"
    have p: "par i < length (fst s)" using 1(2) True par_less [of i] by linarith
    have "up_ok (fst ?s) (par i)" "idx_ok ?s" "same_heap s ?s"
      using up_ok_swap 1 True swap_heap_idx swap_heap_same p by blast+
    moreover have "up_heap i s = up_heap (par i) ?s" using True by (simp add: up_heap_par [of i s] Let_def)
    ultimately show ?thesis using 1(1) True p same_heap_trans [of s ?s "up_heap (par i) ?s"] by auto
  next
    case False
    then have "up_heap i s = s" by (auto simp: up_heap_par [of i s] Let_def)
    moreover have "heap_ok (fst s)"
      unfolding heap_ok_def
    proof (intro allI impI)
      fix j assume "j < length (fst s)" "0 < j"
      then show "time_at (fst s) (par j) \<le> time_at (fst s) j"
        using False 1(3) by (cases "j = i") (auto simp: up_ok_def)
    qed
    ultimately show ?thesis using 1 by simp
  qed
qed

lemma child_par: "0 < j \<Longrightarrow> par j = i \<longleftrightarrow> j = i * 2 + 1 \<or> j = i * 2 + 2"
  by (simp add: par_def) presburger

lemma min_child:
  assumes "i * 2 + 1 < length h"
  defines "c \<equiv> min_child h (i * 2 + 1)"
  shows "c < length h" "par c = i" "0 < c" "i < c"
    and "\<And>j. j < length h \<Longrightarrow> 0 < j \<Longrightarrow> par j = i \<Longrightarrow> time_at h c \<le> time_at h j"
proof -
  have c: "c = i * 2 + 1 \<or> c = i * 2 + 2" by (simp add: c_def min_child_def)
  show "0 < c" "i < c" using c by auto
  then show "par c = i" using c by (simp add: child_par)
  show "c < length h" using assms(1) by (auto simp: c_def min_child_def)
  fix j assume "j < length h" "0 < j" "par j = i"
  then show "time_at h c \<le> time_at h j"
    using assms(1) by (auto simp: child_par c_def min_child_def)
qed

lemma down_ok_swap:
  assumes m: "c < length (fst s)" "par c = i" "0 < c" "i < c"
      "\<And>j. j < length (fst s) \<Longrightarrow> 0 < j \<Longrightarrow> par j = i \<Longrightarrow> time_at (fst s) c \<le> time_at (fst s) j"
    and "down_ok (fst s) i" and "\<not> time_at (fst s) i < time_at (fst s) c"
  shows "down_ok (fst (swap_heap i c s)) c"
proof -
  have i: "i < length (fst s)" using m(1,4) by simp
  note t = time_swap [OF i m(1)] and d = assms(6) [unfolded down_ok_def]
  show ?thesis
    unfolding down_ok_def swap_heap_length
  proof (intro conjI allI impI)
    fix j assume j: "j < length (fst s)" "0 < j \<and> par j \<noteq> c"
    consider "j = c" | "j \<noteq> c" "par j = i" | "j = i" | "j \<noteq> c" "par j \<noteq> i" "j \<noteq> i" by blast
    then show "time_at (fst (swap_heap i c s)) (par j) \<le> time_at (fst (swap_heap i c s)) j"
    proof cases
      case 1
      then show ?thesis using m assms(7) by (simp add: t)
    next
      case 2
      then have "j \<noteq> i" using j par_less [of j] by auto
      then show ?thesis using 2 j m by (simp add: t)
    next
      case 3
      then have "par i \<noteq> i" "par i \<noteq> c" using j par_less [of i] m(4) by auto
      then show ?thesis using 3 j d m by (simp add: t)
    next
      case 4
      then show ?thesis using d j by (simp add: t)
    qed
  next
    fix j assume j: "j < length (fst s)" "0 < j \<and> par j = c \<and> 0 < c"
    then have "j \<noteq> i" "j \<noteq> c" "c \<noteq> i" using par_less [of j] m(4) by auto
    then show "time_at (fst (swap_heap i c s)) (par c) \<le> time_at (fst (swap_heap i c s)) j"
      using d j m(2) by (auto simp: t)
  qed
qed

lemma down_heap_correct:
  assumes "down_ok (fst s) i" "idx_ok s"
  shows "heap_ok (fst (down_heap i s)) \<and> idx_ok (down_heap i s) \<and> same_heap s (down_heap i s)"
  using assms
proof (induction i s rule: down_heap.induct)
  case (1 i s)
  let ?c = "min_child (fst s) (i * 2 + 1)"
  have above: "time_at (fst s) (par j) \<le> time_at (fst s) j"
    if "j < length (fst s)" "0 < j" "par j \<noteq> i" for j
    using that 1(2) by (simp add: down_ok_def)
  consider (stop) "length (fst s) \<le> i * 2 + 1"
    | (break) "i * 2 + 1 < length (fst s)" "time_at (fst s) i < time_at (fst s) ?c"
    | (loop) "i * 2 + 1 < length (fst s)" "\<not> time_at (fst s) i < time_at (fst s) ?c"
    by linarith
  then show ?case
  proof cases
    case stop
    then have "down_heap i s = s" by (simp add: down_heap.simps [of i s])
    moreover have "heap_ok (fst s)"
      unfolding heap_ok_def
    proof (intro allI impI)
      fix j assume j: "j < length (fst s)" "0 < j"
      then have "par j \<noteq> i" using stop by (auto simp: child_par)
      then show "time_at (fst s) (par j) \<le> time_at (fst s) j" using above j by blast
    qed
    ultimately show ?thesis using 1 by simp
  next
    case break
    then have "down_heap i s = s" by (simp add: down_heap.simps [of i s] Let_def)
    moreover have "heap_ok (fst s)"
      unfolding heap_ok_def
    proof (intro allI impI)
      fix j assume j: "j < length (fst s)" "0 < j"
      show "time_at (fst s) (par j) \<le> time_at (fst s) j"
      proof (cases "par j = i")
        case True
        then show ?thesis using min_child(5) [OF break(1) j] break(2) by simp
      next
        case False
        then show ?thesis using above j by blast
      qed
    qed
    ultimately show ?thesis using 1 by simp
  next
    case loop
    let ?s = "swap_heap i ?c s"
    note m = min_child [OF loop(1)]
    have i: "i < length (fst s)" using loop(1) by simp
    have "down_ok (fst ?s) ?c" by (rule down_ok_swap [OF m 1(2) loop(2)])
    moreover note swap_heap_idx [OF i m(1) 1(3)] swap_heap_same [OF i m(1)]
    moreover have "down_heap i s = down_heap ?c ?s"
      using loop by (simp add: down_heap.simps [of i s] Let_def)
    ultimately show ?thesis
      using 1(1) [OF refl loop(1) refl loop(2)] same_heap_trans [of s ?s "down_heap ?c ?s"] by auto
  qed
qed

lemma heap_push_correct:
  fixes time :: int
  assumes "heap_ok h" "idx_ok (h, ix)" "timer \<notin> in_heap h"
  defines "s \<equiv> up_heap (length (h @ [(time, timer)]) - 1) (h @ [(time, timer)], ix(timer := length h))"
  shows "heap_ok (fst s)" "idx_ok s" "mset (fst s) = mset h + {#(time, timer)#}"
    "\<And>t. t \<notin> in_heap h \<Longrightarrow> t \<noteq> timer \<Longrightarrow> snd s t = ix t"
proof -
  let ?s = "(h @ [(time, timer)], ix(timer := length h))"
  have "snd (h ! i) \<noteq> timer" if "i < length h" for i
    using in_heap_nth [OF that] assms(3) by auto
  then have ix: "idx_ok ?s" using assms(2) by (auto simp: idx_ok_def nth_append)
  have p: "par j < length h" if "j < length h" for j
    using that par_less [of j] by (cases j) (auto simp: par_def)
  have t: "time_at (h @ [(time, timer)]) j = time_at h j" if "j < length h" for j
    using that by (simp add: time_at_def nth_append)
  have "up_ok (fst ?s) (length h)"
    unfolding up_ok_def
  proof (intro conjI allI impI)
    fix j assume "j < length (fst ?s)" "0 < j \<and> j \<noteq> length h"
    then have "j < length h" by simp
    then show "time_at (fst ?s) (par j) \<le> time_at (fst ?s) j"
      using assms(1) p [of j] \<open>0 < j \<and> j \<noteq> length h\<close> by (simp add: t heap_ok_def)
  next
    fix j assume j: "j < length (fst ?s)" "0 < j \<and> par j = length h \<and> 0 < length h"
    then show "time_at (fst ?s) (par (length h)) \<le> time_at (fst ?s) j"
      using par_less [of j] by simp
  qed
  with up_heap_correct [of "length h" ?s] ix
  have c: "heap_ok (fst s)" "idx_ok s" "same_heap ?s s" by (simp_all add: s_def)
  then show "heap_ok (fst s)" "idx_ok s" "mset (fst s) = mset h + {#(time, timer)#}"
    by (simp_all add: same_heap_def)
  fix t assume "t \<notin> in_heap h" "t \<noteq> timer"
  then show "snd s t = ix t" using c(3) by (simp add: same_heap_def in_heap_def)
qed

lemma heap_ok_butlast: "heap_ok h \<Longrightarrow> heap_ok (butlast h)"
  unfolding heap_ok_def
proof (intro allI impI)
  fix j assume h: "\<forall>j < length h. 0 < j \<longrightarrow> time_at h (par j) \<le> time_at h j"
    and j: "j < length (butlast h)" "0 < j"
  then have "par j < length (butlast h)" using par_less [of j] by simp
  then show "time_at (butlast h) (par j) \<le> time_at (butlast h) j"
    using h j by (simp add: time_at_def nth_butlast)
qed

lemma idx_ok_butlast: "idx_ok (h, ix) \<Longrightarrow> idx_ok (butlast h, ix)"
  by (simp add: idx_ok_def nth_butlast)

lemma mset_butlast: "h \<noteq> [] \<Longrightarrow> mset (butlast h) = mset h - {#last h#}"
proof -
  assume "h \<noteq> []"
  then have "mset h = mset (butlast h) + {#last h#}"
    using mset_append [of "butlast h" "[last h]"] by simp
  then show ?thesis by simp
qed

lemma butlast_swap_ok:
  assumes "heap_ok h" "i < length h - 1"
  defines "g \<equiv> butlast (h[i := h ! (length h - 1), length h - 1 := h ! i])"
  shows "if 0 < i \<and> time_at g i < time_at g (par i) then up_ok g i else down_ok g i"
proof -
  have l: "length g = length h - 1" by (simp add: g_def)
  have t: "time_at g j = (if j = i then time_at h (length h - 1) else time_at h j)"
    if "j < length h - 1" for j
    using that assms(2) by (auto simp: g_def time_at_def nth_butlast nth_list_update)
  have h: "time_at h (par j) \<le> time_at h j" if "j < length h" "0 < j" for j
    using assms(1) that by (simp add: heap_ok_def)
  have other: "time_at g (par j) \<le> time_at g j"
    if "j < length g" "0 < j" "j \<noteq> i" "par j \<noteq> i" for j
    using that l t [of j] t [of "par j"] par_less [of j] h [of j] by auto
  have grand: "time_at g (par i) \<le> time_at g j" if "j < length g" "0 < j" "par j = i" "0 < i" for j
  proof -
    have "j \<noteq> i" "par i \<noteq> i" "par i < length h - 1"
      using that par_less [of j] par_less [of i] assms(2) by auto
    then show ?thesis
      using that l t [of j] t [of "par i"] order_trans [of "time_at h (par i)" "time_at h i" "time_at h j"]
        h [of j] h [of i] assms(2) by simp
  qed
  show ?thesis
  proof (cases "0 < i \<and> time_at g i < time_at g (par i)")
    case True
    have "time_at g (par j) \<le> time_at g j" if "j < length g" "0 < j" "j \<noteq> i" for j
    proof (cases "par j = i")
      case par: True
      have "time_at g i \<le> time_at g (par i)" using True by simp
      also have "\<dots> \<le> time_at g j" using grand that par True by blast
      finally show ?thesis using par by simp
    qed (use other that in blast)
    then show ?thesis using grand True by (auto simp: up_ok_def)
  next
    case False
    have "time_at g (par j) \<le> time_at g j" if "j < length g" "0 < j" "par j \<noteq> i" for j
      using False other that by (cases "j = i") auto
    then show ?thesis using grand False by (simp only: if_False down_ok_def) blast
  qed
qed

lemma resift_correct:
  assumes "if c then up_ok g i else down_ok g i" "i < length g" "idx_ok (g, ix)"
    and "s = (if c then up_heap i (g, ix) else down_heap i (g, ix))"
  shows "heap_ok (fst s) \<and> idx_ok s \<and> same_heap (g, ix) s"
  using up_heap_correct [of i "(g, ix)"] down_heap_correct [of "(g, ix)" i] assms by (cases c) auto

lemma heap_remove_correct:
  assumes "heap_ok h" "idx_ok (h, ix)" "i < length h"
  defines "s \<equiv> heap_remove i (h, ix)"
  shows "heap_ok (fst s) \<and> idx_ok s \<and> mset (fst s) = mset h - {#h ! i#} \<and>
    (\<forall>t. t \<notin> in_heap h \<longrightarrow> snd s t = ix t)"
proof (cases "i = length h - 1")
  case True
  have "h \<noteq> []" using assms(3) by auto
  then have "mset (butlast h) = mset h - {#h ! i#}"
    using True mset_butlast [of h] by (simp add: last_conv_nth)
  then show ?thesis
    using assms True \<open>h \<noteq> []\<close> heap_ok_butlast idx_ok_butlast by (simp add: s_def heap_remove_def)
next
  case False
  let ?n = "length h - 1"
  have n: "i < ?n" "?n < length h" "h \<noteq> []" using False assms(3) by auto
  let ?w = "swap_heap i ?n (h, ix)"
  let ?g = "butlast (fst ?w)"
  have w: "?g = butlast (h[i := h ! ?n, ?n := h ! i])" by (simp add: fst_swap_heap)
  have "idx_ok ?w" using swap_heap_idx [of i "(h, ix)" ?n] assms(2,3) n by simp
  then have iw: "idx_ok (?g, snd ?w)" by (intro idx_ok_butlast) simp
  have sw: "same_heap (h, ix) ?w" using swap_heap_same [of i "(h, ix)" ?n] assms(3) n by simp
  have ne: "h[i := h ! ?n, ?n := h ! i] \<noteq> []" using n by simp
  have "last (h[i := h ! ?n, ?n := h ! i]) = h ! i" using ne n by (simp add: last_conv_nth)
  then have mg: "mset ?g = mset h - {#h ! i#}"
    using mset_butlast [OF ne] sw by (simp add: same_heap_def fst_swap_heap)
  have sub: "in_heap ?g \<subseteq> in_heap h"
    using arg_cong [OF mg, of set_mset] by (force simp: in_heap_def dest: in_diffD)
  have lg: "i < length ?g" using n by simp
  have s: "s = (if 0 < i \<and> time_at ?g i < time_at ?g (par i) then up_heap i (?g, snd ?w)
      else down_heap i (?g, snd ?w))"
    using n assms(3) False by (simp add: s_def heap_remove_def Let_def par_def)
  have "if 0 < i \<and> time_at ?g i < time_at ?g (par i) then up_ok ?g i else down_ok ?g i"
    unfolding w by (rule butlast_swap_ok [OF assms(1) n(1)])
  then have "heap_ok (fst s) \<and> idx_ok s \<and> same_heap (?g, snd ?w) s"
    by (rule resift_correct [OF _ lg iw s])
  then show ?thesis using mg sw sub by (auto simp: same_heap_def)
qed

end
