(* ===== verification/TimerQueueSpec.thy ===== *)
theory TimerQueueSpec
  imports TimerQueue
begin

text \<open>
  What the queue of timers promises: the invariant that ties its heap, its indices and its list
  of timers together, and for each operation what it does to the multiset of pending expiry
  times and to the operations waiting.
\<close>

subsection \<open>The invariant\<close>

text \<open>\<open>xs\<close> are the timers with operations waiting, most recently added first. A timer that never
  expires is not in the heap and has the largest index.\<close>

definition tq_links :: "timer_queue \<Rightarrow> ptr list \<Rightarrow> bool" where
  "tq_links q xs \<longleftrightarrow> dlist (t_next q) (t_prev q) None (timers q) xs \<and> distinct xs \<and>
     heap_ok (heap q) \<and> idx_ok (heap q, heap_index q) \<and> in_heap (heap q) \<subseteq> set xs \<and>
     (\<forall>t \<in> set xs - in_heap (heap q). heap_index q t = size_max) \<and> length (heap q) < size_max \<and>
     (\<forall>t. t \<notin> set xs \<longrightarrow> t_prev q t = None)"

definition tq_ok :: "timer_queue \<Rightarrow> ptr list \<Rightarrow> bool" where
  "tq_ok q xs \<longleftrightarrow> tq_links q xs \<and> (\<forall>t. t_ops q t \<noteq> [] \<longleftrightarrow> t \<in> set xs)"

lemma tq_ok_new: "tq_ok tq_new []"
  by (simp add: tq_ok_def tq_links_def tq_new_def heap_ok_def idx_ok_def in_heap_def size_max_def)

lemma active_iff:
  assumes "tq_links q xs"
  shows "t_prev q t = None \<and> timers q \<noteq> Some t \<longleftrightarrow> t \<notin> set xs"
proof (cases "t \<in> set xs")
  case True
  then obtain as bs where xs: "xs = as @ t # bs" by (auto simp: in_set_conv_decomp)
  have d: "dlist (t_next q) (t_prev q) None (timers q) (as @ t # bs)"
    using assms by (simp add: tq_links_def xs)
  show ?thesis using dlist_prev [OF d] dlist_head [OF d] by (cases as) (auto simp: xs)
next
  case False
  have "timers q \<noteq> Some t"
    using assms False dlist_head [of "t_next q" "t_prev q" None "timers q" xs]
    by (auto simp: tq_links_def split: list.splits)
  then show ?thesis using assms False by (simp add: tq_links_def)
qed

lemma tq_empty_iff: "tq_links q xs \<Longrightarrow> tq_empty q \<longleftrightarrow> xs = []"
  by (cases xs) (auto simp: tq_links_def tq_empty_def)

lemma heap_min: "heap_ok h \<Longrightarrow> i < length h \<Longrightarrow> time_at h 0 \<le> time_at h i"
proof (induction i rule: less_induct)
  case (less i)
  show ?case
  proof (cases "i = 0")
    case False
    then have "par i < i" by (simp add: par_less)
    then have "time_at h 0 \<le> time_at h (par i)" using less by simp
    also have "\<dots> \<le> time_at h i" using less.prems False by (simp add: heap_ok_def)
    finally show ?thesis .
  qed simp
qed

lemma heap_min_mem: "heap_ok h \<Longrightarrow> e \<in> set h \<Longrightarrow> time_at h 0 \<le> fst e"
  using heap_min by (fastforce simp: in_set_conv_nth time_at_def)

lemma mset_remove_timer:
  assumes "distinct (map snd h)" "i < length h"
  shows "mset h - {#h ! i#} = filter_mset (\<lambda>e. snd e \<noteq> snd (h ! i)) (mset h)"
proof -
  let ?a = "take i h" and ?b = "drop (Suc i) h"
  have h: "h = ?a @ h ! i # ?b" using assms(2) by (rule id_take_nth_drop)
  have "distinct (map snd (?a @ h ! i # ?b))" using assms(1) h by simp
  then have "snd (h ! i) \<notin> set (map snd ?a)" "snd (h ! i) \<notin> set (map snd ?b)" by simp_all
  then have "filter (\<lambda>e. snd e \<noteq> snd (h ! i)) ?a = ?a" "filter (\<lambda>e. snd e \<noteq> snd (h ! i)) ?b = ?b"
    unfolding filter_id_conv by (metis image_eqI set_map)+
  then have "filter (\<lambda>e. snd e \<noteq> snd (h ! i)) (?a @ h ! i # ?b) = ?a @ ?b" by simp
  then have "mset (filter (\<lambda>e. snd e \<noteq> snd (h ! i)) h) = mset (?a @ ?b)" using h by simp
  moreover have "mset h = add_mset (h ! i) (mset (?a @ ?b))" using arg_cong [OF h, of mset] by simp
  ultimately show ?thesis by simp
qed

text \<open>Removing a timer takes it out of the list and out of the heap, and nothing else.\<close>

lemma remove_timer_links:
  assumes q: "tq_links q xs" and t: "timer \<in> set xs"
  shows "tq_links (remove_timer timer q) (remove1 timer xs) \<and>
    mset (heap (remove_timer timer q)) = filter_mset (\<lambda>e. snd e \<noteq> timer) (mset (heap q)) \<and>
    t_ops (remove_timer timer q) = t_ops q"
proof -
  obtain as bs where xs: "xs = as @ timer # bs" using t by (auto simp: in_set_conv_decomp)
  have dis: "distinct (as @ timer # bs)" and idx: "idx_ok (heap q, heap_index q)"
    using q by (simp_all add: tq_links_def xs)
  then have rm: "remove1 timer xs = as @ bs" by (simp add: xs remove1_append)
  have dl: "dlist (t_next q) (t_prev q) None (timers q) (as @ timer # bs)"
    using q by (simp add: tq_links_def xs)
  obtain nx pv hd where u: "unlink (t_next q) (t_prev q) (timers q) timer = (nx, pv, hd)"
    by (cases "unlink (t_next q) (t_prev q) (timers q) timer")
  obtain h ix where s: "heap_remove (heap_index q timer) (heap q, heap_index q) = (h, ix)" by force
  have l: "dlist nx pv None hd (as @ bs)" "\<And>y. y \<notin> set bs \<Longrightarrow> pv y = t_prev q y"
    using dlist_unlink [OF dl dis] u by auto
  have l': "dlist (nx(timer := None)) (pv(timer := None)) None hd (as @ bs)"
    by (rule dlist_frame [OF _ l(1)]) (use dis in auto)
  have heap: "heap_ok h \<and> idx_ok (h, ix) \<and>
    mset h = filter_mset (\<lambda>e. snd e \<noteq> timer) (mset (heap q)) \<and>
    (\<forall>t. t \<notin> in_heap (heap q) \<longrightarrow> ix t = heap_index q t)"
  proof (cases "timer \<in> in_heap (heap q)")
    case True
    then obtain i where i: "i < length (heap q)" "timer = snd (heap q ! i)" by (rule in_heapE)
    then have "heap_index q timer = i" using idx by (simp add: idx_ok_def)
    then show ?thesis
      using heap_remove_correct [of "heap q" "heap_index q" i] i q s
        mset_remove_timer [of "heap q" i] idx_ok_distinct [OF idx] by (simp add: tq_links_def)
  next
    case False
    then have "heap_index q timer = size_max" "length (heap q) < size_max"
      using q t by (simp_all add: tq_links_def)
    then have "heap_remove (heap_index q timer) (heap q, heap_index q) = (heap q, heap_index q)"
      by (simp add: heap_remove_def)
    moreover have "filter (\<lambda>e. snd e \<noteq> timer) (heap q) = heap q"
      using False by (auto simp: filter_id_conv in_heap_def)
    then have "filter_mset (\<lambda>e. snd e \<noteq> timer) (mset (heap q)) = mset (heap q)"
      by (metis mset_filter)
    ultimately show ?thesis using q s by (simp add: tq_links_def)
  qed
  have hs: "set h = {e \<in> set (heap q). snd e \<noteq> timer}"
    using heap by (metis set_mset_filter set_mset_mset)
  have len: "length h \<le> length (heap q)" using heap by (metis size_filter_mset_lesseq size_mset)
  have in_h: "in_heap h = in_heap (heap q) - {timer}" unfolding in_heap_def hs by auto
  have r: "remove_timer timer q = q \<lparr>heap := h, heap_index := ix, timers := hd,
      t_next := nx(timer := None), t_prev := pv(timer := None)\<rparr>"
    by (simp add: remove_timer_def s u)
  have "t_prev q t = None" if "t \<notin> set xs" for t using q that by (simp add: tq_links_def)
  then have "(pv(timer := None)) t = None" if "t \<notin> set (as @ bs)" for t
    using that l(2) [of t] by (auto simp: xs)
  then show ?thesis
    unfolding r rm using q heap l' dis len in_h by (auto simp: tq_links_def xs)
qed

lemma remove_timer_ok:
  assumes "tq_links q xs" "timer \<in> set xs" "t_ops q timer = []"
    and "\<And>t. t \<noteq> timer \<Longrightarrow> t_ops q t \<noteq> [] \<longleftrightarrow> t \<in> set xs"
  shows "tq_ok (remove_timer timer q) (remove1 timer xs)"
proof -
  have "t_ops q t \<noteq> [] \<longleftrightarrow> t \<in> set (remove1 timer xs)" for t
    using assms by (cases "t = timer") (auto simp: tq_links_def)
  then show ?thesis using remove_timer_links [OF assms(1,2)] by (simp add: tq_ok_def)
qed

subsection \<open>Adding a wait\<close>

lemma enqueue_new:
  assumes q: "tq_ok q xs" and t: "timer \<notin> set xs" and len: "length (heap q) + 1 < size_max"
    and r: "enqueue_timer never time timer op q = (q', first)"
  shows "tq_ok q' (timer # xs) \<and>
    mset (heap q') = mset (heap q) + (if never time then {#} else {#(time, timer)#}) \<and>
    t_ops q' = (t_ops q)(timer := [op]) \<and>
    (first \<longleftrightarrow> \<not> never time \<and> snd (heap q' ! 0) = timer)"
proof -
  have links: "tq_links q xs" and ops: "\<And>t. t_ops q t \<noteq> [] \<longleftrightarrow> t \<in> set xs" using q by (simp_all add: tq_ok_def)
  have new: "t_prev q timer = None" "timers q \<noteq> Some timer" using active_iff [OF links] t by auto
  have nh: "timer \<notin> in_heap (heap q)" using links t by (auto simp: tq_links_def)
  have dl: "dlist (t_next q) (t_prev q) None (timers q) xs" and dis: "distinct (timer # xs)"
    using links t by (simp_all add: tq_links_def)
  obtain nx pv hd where lf: "link_front (t_next q) (t_prev q) (timers q) timer = (nx, pv, hd)"
    by (cases "link_front (t_next q) (t_prev q) (timers q) timer")
  have dl': "dlist nx pv None hd (timer # xs)" using dlist_link_front [OF dl dis] lf by simp
  have pv: "pv y = t_prev q y" if "y \<notin> set (timer # xs)" for y
    using lf that dlist_head [OF dl] by (auto simp: link_front_def split: list.splits)
  have o: "t_ops q timer = []" using ops t by blast
  obtain h ix where hx: "up_heap (length (heap q @ [(time, timer)]) - 1)
      (heap q @ [(time, timer)], (heap_index q)(timer := length (heap q))) = (h, ix)" by force
  have push: "heap_ok h" "idx_ok (h, ix)" "mset h = mset (heap q) + {#(time, timer)#}"
    "\<And>t. t \<notin> in_heap (heap q) \<Longrightarrow> t \<noteq> timer \<Longrightarrow> ix t = heap_index q t"
    using heap_push_correct [of "heap q" "heap_index q" timer, where time = time] nh links hx
    by (simp_all add: tq_links_def)
  have sh: "set h = insert (time, timer) (set (heap q))"
    using arg_cong [OF push(3), of set_mset] by simp
  have lh: "length h = Suc (length (heap q))" using arg_cong [OF push(3), of size] by simp
  show ?thesis
  proof (cases "never time")
    case True
    then have q': "q' = q \<lparr>heap_index := (heap_index q)(timer := size_max), t_next := nx, t_prev := pv,
        timers := hd, t_ops := (t_ops q)(timer := [op])\<rparr>" and "\<not> first"
      using r new o by (auto simp: enqueue_timer_def lf Let_def size_max_def)
    have "idx_ok (heap q, (heap_index q)(timer := size_max))"
      using links nh in_heap_nth by (fastforce simp: tq_links_def idx_ok_def)
    then show ?thesis
      using links dl' dis pv ops True \<open>\<not> first\<close> by (auto simp: q' tq_ok_def tq_links_def)
  next
    case False
    then have q': "q' = q \<lparr>heap := h, heap_index := ix, t_next := nx, t_prev := pv,
        timers := hd, t_ops := (t_ops q)(timer := [op])\<rparr>" and first: "first \<longleftrightarrow> ix timer = 0"
      using r new o hx by (auto simp: enqueue_timer_def lf Let_def)
    have "timer \<in> in_heap h" by (auto simp: in_heap_def sh)
    then obtain i where i: "i < length h" "timer = snd (h ! i)" by (rule in_heapE)
    moreover have "ix timer = i" using push(2) i by (simp add: idx_ok_def)
    ultimately have "ix timer = 0 \<longleftrightarrow> snd (h ! 0) = timer"
      using idx_ok_inj [OF push(2), of 0 i] length_pos_if_in_set [OF nth_mem [OF i(1)]] by auto
    moreover have "in_heap h = insert timer (in_heap (heap q))" by (auto simp: in_heap_def sh)
    moreover have "ix t = size_max" if "t \<in> set xs" "t \<notin> in_heap (heap q)" for t
    proof -
      have "t \<noteq> timer" using that(1) assms(2) by auto
      then show ?thesis using push(4) [OF that(2)] that links by (simp add: tq_links_def)
    qed
    ultimately show ?thesis
      using links dl' dis pv ops False push(1-3) first lh len by (auto simp: q' tq_ok_def tq_links_def)
  qed
qed

lemma enqueue_again:
  assumes q: "tq_ok q xs" and t: "timer \<in> set xs" and "op \<notin> set (t_ops q timer)"
    and r: "enqueue_timer never time timer op q = (q', first)"
  shows "tq_ok q' xs \<and> heap q' = heap q \<and> t_ops q' = (t_ops q)(timer := t_ops q timer @ [op]) \<and> \<not> first"
proof -
  have links: "tq_links q xs" and ops: "\<And>t. t_ops q t \<noteq> [] \<longleftrightarrow> t \<in> set xs" using q by (simp_all add: tq_ok_def)
  have "\<not> (t_prev q timer = None \<and> timers q \<noteq> Some timer)" using active_iff [OF links] t by blast
  then have q': "q' = q \<lparr>t_ops := (t_ops q)(timer := t_ops q timer @ [op])\<rparr>"
    and first: "first \<Longrightarrow> hd (t_ops q timer @ [op]) = op"
    using r by (simp_all add: enqueue_timer_def Let_def split: if_splits)
  obtain x ys where "t_ops q timer = x # ys" using ops t by (cases "t_ops q timer") auto
  then have "\<not> first" using first assms(3) by auto
  then show ?thesis using links ops t by (auto simp: q' tq_ok_def tq_links_def)
qed

lemma enqueue_timer_effect:
  assumes "tq_ok q xs" and "length (heap q) + 1 < size_max" and "op \<notin> set (t_ops q timer)"
    and "enqueue_timer never time timer op q = (q', first)"
  shows "tq_ok q' (if timer \<in> set xs then xs else timer # xs)"
    "t_ops q' = (t_ops q)(timer := t_ops q timer @ [op])"
    "mset (heap q') = mset (heap q) + (if timer \<in> set xs \<or> never time then {#} else {#(time, timer)#})"
proof -
  have "t_ops q timer = []" if "timer \<notin> set xs" using assms(1) that by (auto simp: tq_ok_def)
  then show "tq_ok q' (if timer \<in> set xs then xs else timer # xs)"
    "t_ops q' = (t_ops q)(timer := t_ops q timer @ [op])"
    "mset (heap q') = mset (heap q) + (if timer \<in> set xs \<or> never time then {#} else {#(time, timer)#})"
    using enqueue_again [OF assms(1) _ assms(3,4)] enqueue_new [OF assms(1) _ assms(2,4)]
    by (cases "timer \<in> set xs"; simp)+
qed

lemma new_first:
  assumes e: "tq_ok q' (timer # xs)" "mset (heap q') = mset (heap q) + {#(time, timer)#}"
    and first: "first \<longleftrightarrow> snd (heap q' ! 0) = timer"
  shows "if first then list_all (\<lambda>e. time \<le> fst e) (heap q)
    else \<not> list_all (\<lambda>e. time < fst e) (heap q)"
proof -
  have ok: "heap_ok (heap q')" and idx: "idx_ok (heap q', heap_index q')" and ne: "heap q' \<noteq> []"
    using e by (auto simp: tq_ok_def tq_links_def)
  have set: "set (heap q') = insert (time, timer) (set (heap q))"
    using arg_cong [OF e(2), of set_mset] by simp
  have top: "heap q' ! 0 \<in> insert (time, timer) (set (heap q))"
    using ne set nth_mem [of 0 "heap q'"] by auto
  show ?thesis
  proof (cases first)
    case True
    have "(time, timer) \<in> set (heap q')" using set by simp
    then obtain i where i: "i < length (heap q')" "heap q' ! i = (time, timer)"
      by (auto simp: in_set_conv_nth)
    with idx_ok_inj [OF idx, of 0 i] have "i = 0" using True first ne by simp
    then have "time_at (heap q') 0 = time" using i by (simp add: time_at_def)
    then show ?thesis using True heap_min_mem [OF ok] set by (auto simp: list_all_iff)
  next
    case False
    then have "heap q' ! 0 \<in> set (heap q)" using top first by auto
    moreover have "fst (heap q' ! 0) \<le> time"
      using heap_min_mem [OF ok, of "(time, timer)"] set by (simp add: time_at_def)
    ultimately show ?thesis using False by (auto simp: list_all_iff not_less)
  qed
qed

text \<open>
  Adding a wait keeps the queue well formed; a timer that is not waiting yet joins the heap
  with its expiry time unless it never expires, one that is waiting keeps the time it had, and the
  result, which tells the reactor to wake up, is true exactly when the new wait is the one
  to expire first: nothing pending is earlier then, and whatever is earlier than everything
  pending is reported.\<close>

theorem enqueue_timer_reports_earliest:
  assumes "tq_ok q xs" and "length (heap q) + 1 < size_max" and "op \<notin> set (t_ops q timer)"
  shows "case enqueue_timer never time timer op q of (q', first) \<Rightarrow>
    tq_ok q' (if timer \<in> set xs then xs else timer # xs) \<and>
    t_ops q' = (t_ops q)(timer := t_ops q timer @ [op]) \<and>
    mset (heap q') = mset (heap q) + (if timer \<in> set xs \<or> never time then {#} else {#(time, timer)#}) \<and>
    (if first then timer \<notin> set xs \<and> \<not> never time \<and> list_all (\<lambda>e. time \<le> fst e) (heap q)
     else timer \<in> set xs \<or> never time \<or> \<not> list_all (\<lambda>e. time < fst e) (heap q))"
proof -
  obtain q' first where r: "enqueue_timer never time timer op q = (q', first)" by force
  note e = enqueue_timer_effect [OF assms r]
  have "if first then timer \<notin> set xs \<and> \<not> never time \<and> list_all (\<lambda>e. time \<le> fst e) (heap q)
      else timer \<in> set xs \<or> never time \<or> \<not> list_all (\<lambda>e. time < fst e) (heap q)"
  proof (cases "timer \<in> set xs")
    case True
    then show ?thesis using enqueue_again [OF assms(1) True assms(3) r] by simp
  next
    case False
    with e enqueue_new [OF assms(1) False assms(2) r] show ?thesis
      using new_first [of q' timer xs q time first] by (cases "never time") auto
  qed
  then show ?thesis using e by (simp add: r)
qed

theorem enqueue_timer_reports_earliest_witness:
  "snd (enqueue_timer (\<lambda>_. False) 20 1 5 tq_new)"
  using enqueue_timer_reports_earliest [OF tq_ok_new, of 5 1 "\<lambda>_. False" 20]
  by (auto simp: tq_new_def size_max_def split: prod.splits if_splits)

subsection \<open>The timers that are ready\<close>

definition ready_inv :: "int \<Rightarrow> timer_queue \<Rightarrow> ptr list \<Rightarrow> timer_queue \<times> ptr list \<Rightarrow> bool" where
  "ready_inv now q0 ops0 s \<longleftrightarrow>
     (\<exists>xs ts. tq_ok (fst s) xs \<and> snd s = ops0 @ concat (map (\<lambda>e. t_ops q0 (snd e)) ts) \<and>
        sorted (map fst ts) \<and> mset ts + mset (heap (fst s)) = mset (heap q0) \<and>
        (\<forall>e \<in> set ts. fst e \<le> now \<and> (\<forall>e' \<in> set (heap (fst s)). fst e \<le> fst e')) \<and>
        t_ops (fst s) = (\<lambda>t. if t \<in> snd ` set ts then [] else t_ops q0 t))"

lemma ready_step:
  assumes inv: "ready_inv now q0 ops0 (q, ops)" and ne: "heap q \<noteq> []" and due: "\<not> now < time_at (heap q) 0"
  defines "timer \<equiv> snd (heap q ! 0)"
  defines "q1 \<equiv> q \<lparr>t_ops := (t_ops q)(timer := [])\<rparr>"
  shows "ready_inv now q0 ops0 (remove_timer timer q1, ops @ t_ops q timer) \<and>
    length (heap (remove_timer timer q1)) < length (heap q)"
proof -
  let ?e = "heap q ! 0" and ?r = "remove_timer timer q1"
  from inv obtain xs ts where i: "tq_ok q xs" "ops = ops0 @ concat (map (\<lambda>e. t_ops q0 (snd e)) ts)"
    "sorted (map fst ts)" "mset ts + mset (heap q) = mset (heap q0)"
    "\<forall>e \<in> set ts. fst e \<le> now \<and> (\<forall>e' \<in> set (heap q). fst e \<le> fst e')"
    "t_ops q = (\<lambda>t. if t \<in> snd ` set ts then [] else t_ops q0 t)" by (auto simp: ready_inv_def)
  have l: "tq_links q1 xs" using i(1) by (simp add: tq_ok_def tq_links_def q1_def)
  have th: "timer \<in> in_heap (heap q)" unfolding timer_def using ne by (intro in_heap_nth) simp
  then have tx: "timer \<in> set xs" using i(1) by (auto simp: tq_ok_def tq_links_def)
  have "t_ops q timer \<noteq> []" using i(1) tx by (simp add: tq_ok_def)
  then have tt: "timer \<notin> snd ` set ts" using fun_cong [OF i(6), of timer] by (simp split: if_splits)
  have ok: "tq_ok ?r (remove1 timer xs)"
    by (rule remove_timer_ok [OF l tx]) (use i(1) in \<open>auto simp: q1_def tq_ok_def\<close>)
  have idx: "idx_ok (heap q, heap_index q)" using i(1) by (simp add: tq_ok_def tq_links_def)
  have r: "mset (heap ?r) = filter_mset (\<lambda>e. snd e \<noteq> timer) (mset (heap q))" "t_ops ?r = t_ops q1"
    using remove_timer_links [OF l tx] by (simp_all add: q1_def)
  then have m: "mset (heap ?r) = mset (heap q) - {#?e#}"
    using mset_remove_timer [of "heap q" 0] idx_ok_distinct [OF idx] ne by (simp add: timer_def)
  have e: "?e \<in> set (heap q)" using ne by simp
  have all: "add_mset ?e (mset (heap ?r)) = mset (heap q)" using m e by simp
  have hset: "set (heap ?r) \<subseteq> set (heap q)" by (metis all set_mset_mset set_mset_add_mset_insert subset_insertI)
  have least: "fst ?e \<le> fst e'" if "e' \<in> set (heap q)" for e'
    using heap_min_mem [of "heap q" e'] that i(1) by (simp add: tq_ok_def tq_links_def time_at_def)
  have "ready_inv now q0 ops0 (?r, ops @ t_ops q timer)"
    unfolding ready_inv_def fst_conv snd_conv
  proof (intro exI conjI)
    show "tq_ok ?r (remove1 timer xs)" by (rule ok)
    show "ops @ t_ops q timer = ops0 @ concat (map (\<lambda>e. t_ops q0 (snd e)) (ts @ [?e]))"
      using i(2,6) tt by (simp add: timer_def)
    show "sorted (map fst (ts @ [?e]))" using i(3,5) e by (auto simp: sorted_append)
    show "mset (ts @ [?e]) + mset (heap ?r) = mset (heap q0)"
      using i(4) unfolding all [symmetric] by simp
    show "\<forall>e \<in> set (ts @ [?e]). fst e \<le> now \<and> (\<forall>e' \<in> set (heap ?r). fst e \<le> fst e')"
    proof
      fix x assume "x \<in> set (ts @ [?e])"
      then show "fst x \<le> now \<and> (\<forall>e' \<in> set (heap ?r). fst x \<le> fst e')"
        using i(5) due least subsetD [OF hset] by (cases "x = ?e") (auto simp: time_at_def)
    qed
    have "t_ops q1 t = (if t \<in> snd ` set (ts @ [?e]) then [] else t_ops q0 t)" for t
      by (simp add: q1_def fun_cong [OF i(6)] timer_def)
    then show "t_ops ?r = (\<lambda>t. if t \<in> snd ` set (ts @ [?e]) then [] else t_ops q0 t)"
      unfolding r(2) by (rule ext)
  qed
  moreover have "length (heap ?r) < length (heap q)"
    using arg_cong [OF all, of size] by simp
  ultimately show ?thesis by blast
qed

lemma ready_loop:
  assumes "tq_ok q xs"
  shows "\<exists>s. get_ready_timers now q ops = Inr s \<and> ready_inv now q ops s \<and>
    list_all (\<lambda>e. now < fst e) (heap (fst s))"
proof -
  have start: "ready_inv now q ops (q, ops)"
    unfolding ready_inv_def by (intro exI [of _ xs] exI [of _ "[]"]) (simp add: assms)
  have stop: "list_all (\<lambda>e. now < fst e) (heap p)"
    if inv: "ready_inv now q ops (p, o')" and st: "\<not> (heap p \<noteq> [] \<and> \<not> now < time_at (heap p) 0)" for p o'
  proof (cases "heap p = []")
    case False
    obtain ys where "tq_ok p ys" using inv by (auto simp: ready_inv_def)
    then have "heap_ok (heap p)" by (simp add: tq_ok_def tq_links_def)
    from heap_min_mem [OF this] show ?thesis using st False by (force simp: list_all_iff)
  qed simp
  show ?thesis
  proof (cases "heap q = []")
    case True
    then show ?thesis using start by (simp add: get_ready_timers_def)
  next
    case False
    let ?b = "\<lambda>(q :: timer_queue, ops :: ptr list). heap q \<noteq> [] \<and> \<not> now < time_at (heap q) 0"
    have "\<exists>s. get_ready_timers now q ops = Inr s \<and> ready_inv now q ops s \<and> \<not> ?b s"
      unfolding get_ready_timers_def if_P [OF False]
    proof (rule res_while_total [where f = "\<lambda>s. length (heap (fst s))"], rule start)
      fix s assume "ready_inv now q ops s" "?b s"
      then show "\<exists>s'. (case s of (q, ops) \<Rightarrow>
            let timer = snd (heap q ! 0); ops = ops @ t_ops q timer; q = q \<lparr>t_ops := (t_ops q)(timer := [])\<rparr>
            in Inr (remove_timer timer q, ops)) = Inr s' \<and>
          ready_inv now q ops s' \<and> length (heap (fst s')) < length (heap (fst s))"
        using ready_step [of now q ops "fst s" "snd s"] by (auto simp: Let_def split: prod.splits)
    qed
    then show ?thesis using stop by fastforce
  qed
qed

text \<open>
  Collecting the ready timers ends. It takes exactly the timers whose time is not after now,
  each once, in the order of their times, and pushes the operations of each in order; the timers
  that stay are the others, all later than now, and the queue is well formed.\<close>

theorem ready_timers_exact:
  assumes "tq_ok q xs"
  shows "\<exists>q' ts ys. get_ready_timers now q ops = Inr (q', ops @ concat (map (\<lambda>e. t_ops q (snd e)) ts)) \<and>
    sorted (map fst ts) \<and> mset ts = filter_mset (\<lambda>e. fst e \<le> now) (mset (heap q)) \<and>
    mset (heap q') = filter_mset (\<lambda>e. now < fst e) (mset (heap q)) \<and> tq_ok q' ys"
proof -
  obtain q' ops' where s: "get_ready_timers now q ops = Inr (q', ops')" "ready_inv now q ops (q', ops')"
    "list_all (\<lambda>e. now < fst e) (heap q')" using ready_loop [OF assms, of now ops] by auto
  then obtain ys ts where t: "tq_ok q' ys" "ops' = ops @ concat (map (\<lambda>e. t_ops q (snd e)) ts)"
    "sorted (map fst ts)" "mset (heap q) = mset ts + mset (heap q')" "\<forall>e \<in> set ts. fst e \<le> now"
    by (auto simp: ready_inv_def)
  have f: "filter (\<lambda>e. fst e \<le> now) ts = ts" "filter (\<lambda>e. now < fst e) ts = []"
    "filter (\<lambda>e. fst e \<le> now) (heap q') = []" "filter (\<lambda>e. now < fst e) (heap q') = heap q'"
    using t(5) s(3) by (auto simp: filter_id_conv filter_empty_conv list_all_iff)
  have "mset ts = filter_mset (\<lambda>e. fst e \<le> now) (mset (heap q))"
    "mset (heap q') = filter_mset (\<lambda>e. now < fst e) (mset (heap q))"
    unfolding t(4) filter_union_mset mset_filter [symmetric] f by simp_all
  then show ?thesis using s(1) t by blast
qed

theorem ready_timers_exact_witness:
  "\<exists>q' ts. get_ready_timers 10 tq_new [4] = Inr (q', [4] @ concat (map (\<lambda>e. t_ops tq_new (snd e)) ts)) \<and>
     mset ts = {#}"
  using ready_timers_exact [OF tq_ok_new, of 10 "[4]"] by (auto simp: tq_new_def)

subsection \<open>Cancelling a timer, and all of them\<close>

text \<open>Cancelling takes the oldest \<open>n\<close> waits of a timer, or all there are, marks each as aborted and
  pushes them in order; with waits left the timer keeps its place, without it leaves the heap and
  the list, and a timer that is not waiting is left alone.\<close>

lemma cancel_timer_effect:
  assumes "tq_ok q xs"
  shows "case cancel_timer timer n q ec ops of (q', ec', ops', cancelled) \<Rightarrow>
    ops' = ops @ take n (t_ops q timer) \<and> cancelled = min n (length (t_ops q timer)) \<and>
    t_ops q' = (t_ops q)(timer := drop n (t_ops q timer)) \<and>
    (\<forall>x. ec' x = (if x \<in> set (take n (t_ops q timer)) then basic_error operation_aborted else ec x)) \<and>
    tq_ok q' (if length (t_ops q timer) \<le> n then remove1 timer xs else xs) \<and>
    mset (heap q') = (if length (t_ops q timer) \<le> n
      then filter_mset (\<lambda>e. snd e \<noteq> timer) (mset (heap q)) else mset (heap q))"
proof -
  have l: "tq_links q xs" and ops: "\<And>t. t_ops q t \<noteq> [] \<longleftrightarrow> t \<in> set xs" using assms by (simp_all add: tq_ok_def)
  show ?thesis
  proof (cases "timer \<in> set xs")
    case False
    have none: "t_ops q timer = []" using ops False by blast
    have act: "t_prev q timer = None" "timers q \<noteq> Some timer" using active_iff [OF l, of timer] False by simp_all
    have "timer \<notin> in_heap (heap q)" using l False by (auto simp: tq_links_def)
    then have "filter (\<lambda>e. snd e \<noteq> timer) (heap q) = heap q" by (auto simp: filter_id_conv in_heap_def)
    then have "filter_mset (\<lambda>e. snd e \<noteq> timer) (mset (heap q)) = mset (heap q)" by (metis mset_filter)
    moreover have "(t_ops q)(timer := []) = t_ops q" using none by auto
    ultimately show ?thesis
      using False assms none by (simp add: cancel_timer_def act remove1_idem)
  next
    case True
    have act: "t_prev q timer \<noteq> None \<or> timers q = Some timer" using active_iff [OF l, of timer] True by auto
    let ?q = "q \<lparr>t_ops := (t_ops q)(timer := drop n (t_ops q timer))\<rparr>"
    have lq: "tq_links ?q xs" using l by (simp add: tq_links_def)
    show ?thesis
    proof (cases "length (t_ops q timer) \<le> n")
      case all: True
      have "tq_ok (remove_timer timer ?q) (remove1 timer xs)"
        by (rule remove_timer_ok [OF lq True]) (use all ops in auto)
      then show ?thesis
        unfolding cancel_timer_def if_P [OF act]
        using all remove_timer_links [OF lq True] by (simp add: Let_def min_def)
    next
      case some: False
      then have "tq_ok ?q xs" using lq ops True by (auto simp: tq_ok_def)
      then show ?thesis
        unfolding cancel_timer_def if_P [OF act] using some by (simp add: Let_def)
    qed
  qed
qed

text \<open>Emptying the queue, when the reactor shuts down: every wait of every timer is pushed.\<close>

lemma get_all_timers_ends:
  assumes "tq_ok q xs"
  shows "\<exists>q'. get_all_timers q ops = Inr (q', ops @ concat (map (t_ops q) xs)) \<and> tq_ok q' []"
proof -
  let ?P = "\<lambda>(p, o'). \<exists>as bs. xs = as @ bs \<and> o' = ops @ concat (map (t_ops q) as) \<and>
    dlist (t_next p) (t_prev p) (if as = [] then None else Some (last as)) (timers p) bs \<and>
    (\<forall>t. t_ops p t = (if t \<in> set bs then t_ops q t else [])) \<and>
    (\<forall>t. t \<notin> set bs \<longrightarrow> t_prev p t = None)"
  let ?b = "\<lambda>(p :: timer_queue, o' :: ptr list). timers p \<noteq> None"
  let ?c = "\<lambda>(q, ops). case timers q of None \<Rightarrow> Inl NullPointer
    | Some timer \<Rightarrow> Inr (q \<lparr>timers := t_next q timer, t_ops := (t_ops q)(timer := []),
        t_next := (t_next q)(timer := None), t_prev := (t_prev q)(timer := None)\<rparr>, ops @ t_ops q timer)"
  have dis: "distinct xs" using assms by (simp add: tq_ok_def tq_links_def)
  have "\<exists>s. res_while ?b ?c (q, ops) = Inr s \<and> ?P s \<and> \<not> ?b s"
  proof (rule res_while_total [where f = "\<lambda>(p, o'). card {t \<in> set xs. t_ops p t \<noteq> []}"])
    have "t_ops q t = []" if "t \<notin> set xs" for t using assms that by (auto simp: tq_ok_def)
    then show "?P (q, ops)"
      unfolding prod.case
      by (intro exI [of _ "[]"] exI [of _ xs]) (use assms in \<open>auto simp: tq_ok_def tq_links_def\<close>)
  next
    fix s assume P: "?P s" and b: "?b s"
    obtain p o' where s: "s = (p, o')" by force
    from P obtain as bs where i: "xs = as @ bs" "o' = ops @ concat (map (t_ops q) as)"
      "dlist (t_next p) (t_prev p) (if as = [] then None else Some (last as)) (timers p) bs"
      "\<forall>t. t_ops p t = (if t \<in> set bs then t_ops q t else [])" "\<forall>t. t \<notin> set bs \<longrightarrow> t_prev p t = None"
      by (auto simp: s)
    obtain t bs' where bs: "bs = t # bs'" using i(3) b by (cases bs) (auto simp: s)
    have t: "timers p = Some t" "dlist (t_next p) (t_prev p) (Some t) (t_next p t) bs'"
      using i(3) by (simp_all add: bs)
    have tb: "t \<notin> set bs'" "t \<in> set xs" using dis i(1) bs by auto
    let ?p = "p \<lparr>timers := t_next p t, t_ops := (t_ops p)(t := []), t_next := (t_next p)(t := None),
      t_prev := (t_prev p)(t := None)\<rparr>"
    have "dlist (t_next ?p) (t_prev ?p) (Some t) (timers ?p) bs'"
      using tb by (auto intro: dlist_frame [OF _ t(2)])
    then have P': "?P (?p, o' @ t_ops p t)"
      unfolding prod.case
      by (intro exI [of _ "as @ [t]"] exI [of _ bs']) (use i bs tb in auto)
    have c: "{x \<in> set xs. t_ops ?p x \<noteq> []} = {x \<in> set xs. t_ops p x \<noteq> []} - {t}" by auto
    have "t_ops p t \<noteq> []" using i(4) bs assms tb by (simp add: tq_ok_def)
    then have "card {x \<in> set xs. t_ops ?p x \<noteq> []} < card {x \<in> set xs. t_ops p x \<noteq> []}"
      unfolding c using tb by (intro card_Diff1_less) auto
    then show "\<exists>s'. ?c s = Inr s' \<and> ?P s' \<and> (case s' of (p, o') \<Rightarrow> card {t \<in> set xs. t_ops p t \<noteq> []})
        < (case s of (p, o') \<Rightarrow> card {t \<in> set xs. t_ops p t \<noteq> []})"
      using P' by (intro exI [of _ "(?p, o' @ t_ops p t)"]) (simp add: s t)
  qed
  then obtain p o' as bs where r: "res_while ?b ?c (q, ops) = Inr (p, o')" "xs = as @ bs"
    "o' = ops @ concat (map (t_ops q) as)" "timers p = None"
    "dlist (t_next p) (t_prev p) (if as = [] then None else Some (last as)) (timers p) bs"
    "\<forall>t. t_ops p t = (if t \<in> set bs then t_ops q t else [])" "\<forall>t. t \<notin> set bs \<longrightarrow> t_prev p t = None"
    by auto
  then have "bs = []" by (cases bs) auto
  then show ?thesis
    using r by (auto simp: get_all_timers_def tq_ok_def tq_links_def heap_ok_def idx_ok_def in_heap_def
        size_max_def)
qed

end
