(* ===== verification/TimeTraits.thy ===== *)
theory TimeTraits
  imports TimerQueueSpec
begin

text \<open>
  Times and how long to wait (\<^verbatim>\<open>detail/chrono_time_traits.hpp\<close>, the wait durations of
  \<^verbatim>\<open>detail/timer_queue.hpp\<close> and \<^verbatim>\<open>detail/impl/timer_queue_set.ipp\<close>). Times and durations count
  ticks of the clock's period in 64 bits with a sign, the epoch is 0; arithmetic that leaves the
  64 bits is the fault \<open>SignedOverflow\<close>. The period is a ratio \<open>pnum / pden\<close> of a second.
\<close>

definition int64_max :: int where "int64_max = 2 ^ 63 - 1"

definition int64_min :: int where "int64_min = - (2 ^ 63)"

definition int64 :: "int \<Rightarrow> bool" where
  "int64 x \<longleftrightarrow> int64_min \<le> x \<and> x \<le> int64_max"

text \<open>The result of an operation, when it fits.\<close>

definition chk64 :: "int \<Rightarrow> int res" where
  "chk64 x = (if int64 x then Inr x else Inl SignedOverflow)"

subsection \<open>Arithmetic on times\<close>

definition tt_add :: "int \<Rightarrow> int \<Rightarrow> int res" where
  "tt_add t d =
     (if t \<ge> 0
      then bind_res (chk64 (int64_max - t)) (\<lambda>room.
             if room < d then Inr int64_max else chk64 (t + d))
      else bind_res (bind_res (chk64 (t - int64_min)) (\<lambda>x. chk64 (- x))) (\<lambda>room.
             if room > d then Inr int64_min else chk64 (t + d)))"

definition tt_subtract :: "int \<Rightarrow> int \<Rightarrow> int res" where
  "tt_subtract t1 t2 =
     (if t1 \<ge> 0
      then
        (if t2 \<ge> 0 then chk64 (t1 - t2)
         else if t2 = int64_min then Inr int64_max
         else bind_res (chk64 (int64_max - t1)) (\<lambda>x. bind_res (chk64 (0 - t2)) (\<lambda>y.
                if x < y then Inr int64_max else chk64 (t1 - t2))))
      else
        (if t2 < 0 then chk64 (t1 - t2)
         else if t1 = int64_min then Inr int64_min
         else bind_res (chk64 (int64_max - t2)) (\<lambda>x. bind_res (chk64 (0 - t1)) (\<lambda>y.
                if x < y then Inr int64_min
                else bind_res (chk64 (t2 - t1)) (\<lambda>z. chk64 (- z))))))"

definition tt_less_than :: "int \<Rightarrow> int \<Rightarrow> bool" where
  "tt_less_than t1 t2 \<longleftrightarrow> t1 < t2"

text \<open>The nearest value that fits.\<close>

definition sat64 :: "int \<Rightarrow> int" where
  "sat64 x = max int64_min (min int64_max x)"

lemmas int64_defs = int64_def int64_min_def int64_max_def

text \<open>
  Adding a duration to a time and subtracting one time from another never overflow: the
  result is the exact one, or the nearest one that fits.\<close>

theorem time_arithmetic_saturates:
  assumes "int64 t" "int64 u"
  shows "tt_add t u = Inr (sat64 (t + u)) \<and> tt_subtract t u = Inr (sat64 (t - u))"
proof
  show "tt_add t u = Inr (sat64 (t + u))"
    using assms by (auto simp: tt_add_def chk64_def sat64_def int64_defs min_def max_def)
  show "tt_subtract t u = Inr (sat64 (t - u))"
    using assms by (auto simp: tt_subtract_def chk64_def sat64_def int64_defs min_def max_def)
qed

theorem time_arithmetic_saturates_witness:
  "tt_add (2 ^ 63 - 5) 100 = Inr (2 ^ 63 - 1) \<and> tt_subtract (2 ^ 63 - 5) 100 = Inr (2 ^ 63 - 105)"
  using time_arithmetic_saturates [of "2 ^ 63 - 5" 100]
  by (simp add: sat64_def int64_defs)

subsection \<open>Conversion to the units of a wait\<close>

fun tt_gcd :: "int \<Rightarrow> int \<Rightarrow> int" where
  "tt_gcd v1 v2 = (if v2 \<le> 0 then v1 else tt_gcd v2 (v1 mod v2))"

declare tt_gcd.simps [simp del]

text \<open>\<open>/\<close> on the integers of C++ rounds towards zero.\<close>

definition cdiv :: "int \<Rightarrow> int \<Rightarrow> int" where
  "cdiv a b = sgn a * sgn b * (\<bar>a\<bar> div \<bar>b\<bar>)"

definition duration_cast :: "int \<Rightarrow> int \<Rightarrow> int \<Rightarrow> int \<Rightarrow> int \<Rightarrow> int res" where
  "duration_cast pnum pden Num Den ticks =
     (let num1 = pnum div tt_gcd pnum Num;
          num2 = Num div tt_gcd pnum Num;
          den1 = pden div tt_gcd pden Den;
          den2 = Den div tt_gcd pden Den;
          num = num1 * den2;
          den = num2 * den1 in
      if num = 1 \<and> den = 1 then Inr ticks
      else if num \<noteq> 1 \<and> den = 1 then chk64 (ticks * num)
      else if num = 1 \<and> pden \<noteq> 1 then Inr (cdiv ticks den)
      else bind_res (chk64 (ticks * num)) (\<lambda>x. Inr (cdiv x den)))"

definition total_seconds :: "int \<times> int \<Rightarrow> int \<Rightarrow> int res" where
  "total_seconds period = duration_cast (fst period) (snd period) 1 1"

definition total_milliseconds :: "int \<times> int \<Rightarrow> int \<Rightarrow> int res" where
  "total_milliseconds period = duration_cast (fst period) (snd period) 1 1000"

definition total_microseconds :: "int \<times> int \<Rightarrow> int \<Rightarrow> int res" where
  "total_microseconds period = duration_cast (fst period) (snd period) 1 1000000"

definition to_msec :: "int \<times> int \<Rightarrow> int \<Rightarrow> int \<Rightarrow> int res" where
  "to_msec period d max_duration =
     (if d \<le> 0 then Inr 0
      else bind_res (total_milliseconds period d) (\<lambda>msec.
             if msec = 0 then Inr 1
             else if msec > max_duration then Inr max_duration
             else Inr msec))"

definition to_usec :: "int \<times> int \<Rightarrow> int \<Rightarrow> int \<Rightarrow> int res" where
  "to_usec period d max_duration =
     (if d \<le> 0 then Inr 0
      else bind_res (total_microseconds period d) (\<lambda>usec.
             if usec = 0 then Inr 1
             else if usec > max_duration then Inr max_duration
             else Inr usec))"

definition wait_duration_msec :: "int \<times> int \<Rightarrow> int \<Rightarrow> timer_queue \<Rightarrow> int \<Rightarrow> int res" where
  "wait_duration_msec period now q max_duration =
     (if heap q = [] then Inr max_duration
      else bind_res (tt_subtract (time_at (heap q) 0) now) (\<lambda>d. to_msec period d max_duration))"

definition wait_duration_usec :: "int \<times> int \<Rightarrow> int \<Rightarrow> timer_queue \<Rightarrow> int \<Rightarrow> int res" where
  "wait_duration_usec period now q max_duration =
     (if heap q = [] then Inr max_duration
      else bind_res (tt_subtract (time_at (heap q) 0) now) (\<lambda>d. to_usec period d max_duration))"

subsection \<open>The conversion is exact\<close>

lemma tt_gcd_eq: "0 \<le> a \<Longrightarrow> 0 \<le> b \<Longrightarrow> tt_gcd a b = gcd a b"
proof (induction a b rule: tt_gcd.induct)
  case (1 a b)
  show ?case
  proof (cases "b = 0")
    case True
    then show ?thesis using 1 by (simp add: tt_gcd.simps [of a])
  next
    case False
    then have "tt_gcd b (a mod b) = gcd b (a mod b)" using 1 by simp
    then show ?thesis using False 1 by (simp add: tt_gcd.simps [of a b] gcd_red_int [of a b])
  qed
qed

lemma duration_cast_exact:
  assumes "0 < pnum" "0 < pden" "0 < Den" "0 \<le> ticks" "int64 ticks"
    and "int64 (ticks * (pnum * (Den div gcd pden Den)))"
  shows "duration_cast pnum pden 1 Den ticks = Inr (ticks * (pnum * Den) div pden)"
proof -
  define g where "g = gcd pden Den"
  have g: "0 < g" "g dvd pden" "g dvd Den" using assms by (auto simp: g_def)
  define a b where "a = pden div g" and "b = Den div g"
  have ab: "pden = a * g" "Den = b * g" "0 < a" "0 < b"
    using g assms by (auto simp: a_def b_def pos_imp_zdiv_pos_iff zdvd_imp_le)
  have q: "ticks * (pnum * Den) div pden = ticks * (pnum * b) div a"
    using g(1) by (simp add: ab mult.assoc [symmetric])
  have i: "int64 (ticks * (pnum * b))" using assms(6) by (simp add: b_def g_def)
  have n: "tt_gcd pnum 1 = 1" "tt_gcd pden Den = g"
    using assms by (simp_all add: tt_gcd_eq g_def)
  show ?thesis
    using i assms(1,4,5) ab(3,4)
    by (auto simp: duration_cast_def n a_def [symmetric] b_def [symmetric] q chk64_def Let_def cdiv_def
        sgn_if)
qed

text \<open>A clock whose tick divides the unit: \<open>k\<close> ticks make one of \<open>Den\<close> parts of a second.\<close>

lemma duration_cast_ticks:
  assumes "0 < k" "0 < Den" "0 \<le> ticks" "int64 ticks"
  shows "duration_cast 1 (k * Den) 1 Den ticks = Inr (ticks div k)"
  using duration_cast_exact [of 1 "k * Den" Den ticks] assms by simp

text \<open>What a queue tells the reactor when its clock has \<open>k\<close> ticks to the unit.\<close>

definition wait_ticks :: "int \<Rightarrow> int \<Rightarrow> timer_queue \<Rightarrow> int \<Rightarrow> int" where
  "wait_ticks k now q m =
     (if heap q = [] then m
      else if time_at (heap q) 0 \<le> now then 0
      else (let w = sat64 (time_at (heap q) 0 - now) div k in if w = 0 then 1 else min w m))"

definition times_fit :: "timer_queue \<Rightarrow> bool" where
  "times_fit q \<longleftrightarrow> list_all (\<lambda>e. int64 (fst e)) (heap q)"

lemma tt_subtract_sat: "int64 t \<Longrightarrow> int64 u \<Longrightarrow> tt_subtract t u = Inr (sat64 (t - u))"
  by (auto simp: tt_subtract_def chk64_def sat64_def int64_defs min_def max_def)

lemma sat64_range [simp]: "int64 (sat64 x)"
  by (auto simp: sat64_def int64_defs)

lemma sat64_pos: "sat64 x \<le> 0 \<longleftrightarrow> x \<le> 0"
  by (auto simp: sat64_def int64_defs)

lemma wait_duration_ticks:
  assumes "0 < k" "int64 now" "times_fit q"
  shows "wait_duration_usec (1, k * 1000000) now q m = Inr (wait_ticks k now q m)"
    and "wait_duration_msec (1, k * 1000) now q m = Inr (wait_ticks k now q m)"
proof -
  have t: "tt_subtract (time_at (heap q) 0) now = Inr (sat64 (time_at (heap q) 0 - now))" if "heap q \<noteq> []"
    using assms that by (cases "heap q") (auto simp: times_fit_def time_at_def intro: tt_subtract_sat)
  have d: "duration_cast 1 (k * Den) 1 Den (sat64 x) = Inr (sat64 x div k)" if "\<not> x \<le> 0" "0 < Den" for x Den
    using duration_cast_ticks [of k Den "sat64 x"] that assms(1) sat64_pos [of x] by simp
  show "wait_duration_usec (1, k * 1000000) now q m = Inr (wait_ticks k now q m)"
    "wait_duration_msec (1, k * 1000) now q m = Inr (wait_ticks k now q m)"
    using t d [where Den = 1000000] d [where Den = 1000]
    by (auto simp: wait_duration_usec_def wait_duration_msec_def to_usec_def to_msec_def wait_ticks_def
        total_microseconds_def total_milliseconds_def sat64_pos Let_def min_def)
qed

lemma wait_ticks_sound:
  fixes now :: int
  assumes "0 < k" "tq_ok q xs" "0 \<le> m" and r_def: "r = wait_ticks k now q m"
  shows "0 \<le> r" "r \<le> max 1 m" "e \<in> set (heap q) \<Longrightarrow> r \<le> 1 \<or> now + r * k \<le> fst e"
    "r = 0 \<Longrightarrow> 0 < m \<Longrightarrow> \<exists>e \<in> set (heap q). fst e \<le> now" "e \<in> set (heap q) \<Longrightarrow> fst e \<le> now \<Longrightarrow> r = 0"
proof -
  have ok: "heap_ok (heap q)" using assms(2) by (simp add: tq_ok_def tq_links_def)
  define d where "d = sat64 (time_at (heap q) 0 - now)"
  have d: "0 < d" if "now < time_at (heap q) 0" using that sat64_pos [of "time_at (heap q) 0 - now"] by (simp add: d_def)
  have q: "0 \<le> d div k" if "now < time_at (heap q) 0" using d [OF that] assms(1) by (simp add: pos_imp_zdiv_nonneg_iff)
  show "0 \<le> r" "r \<le> max 1 m"
    using q assms(3) by (auto simp: r_def wait_ticks_def d_def [symmetric] Let_def)
  have top: "time_at (heap q) 0 \<le> fst e" "heap q \<noteq> []" if "e \<in> set (heap q)" for e
    using heap_min_mem [OF ok that] that by auto
  have dd: "d \<le> max 0 (time_at (heap q) 0 - now)" by (auto simp: d_def sat64_def int64_defs)
  show "r \<le> 1 \<or> now + r * k \<le> fst e" if "e \<in> set (heap q)"
  proof (cases "time_at (heap q) 0 \<le> now \<or> d div k = 0")
    case False
    then have "r * k \<le> d div k * k" using top [OF that] assms(1) by (simp add: r_def wait_ticks_def d_def [symmetric] Let_def)
    also have "\<dots> \<le> d" using assms(1) by (metis div_mult_mod_eq le_add_same_cancel1 pos_mod_sign)
    also have "\<dots> \<le> time_at (heap q) 0 - now" using False dd by auto
    finally show ?thesis using top(1) [OF that] by auto
  qed (use top [OF that] in \<open>auto simp: r_def wait_ticks_def d_def [symmetric] Let_def\<close>)
  show "\<exists>e \<in> set (heap q). fst e \<le> now" if "r = 0" "0 < m"
    using that by (intro bexI [of _ "heap q ! 0"])
      (auto simp: r_def wait_ticks_def d_def [symmetric] Let_def time_at_def min_def split: if_splits)
  show "r = 0" if "e \<in> set (heap q)" "fst e \<le> now"
    using top [OF that(1)] that(2) by (simp add: r_def wait_ticks_def)
qed

text \<open>The maximum is not a bound when it is zero: with less than a unit left, the result is 1.\<close>

lemma wait_may_exceed_maximum: "to_msec (1, 1000000000) 500000 0 = Inr 1"
  by (simp add: to_msec_def total_milliseconds_def duration_cast_ticks [of 1000000 1000, simplified] int64_defs)

subsection \<open>The set of queues\<close>

text \<open>One queue for every kind of clock, linked through \<^verbatim>\<open>next_\<close>; \<open>cs\<close> gives the queue at an
  address with its clock's period and what the clock says now.\<close>

record clocked =
  cq_period :: "int \<times> int"
  cq_now :: int
  cq_queue :: timer_queue

definition tqs_new :: "ptr option" where
  "tqs_new = None"

definition tqs_insert :: "links \<Rightarrow> ptr option \<Rightarrow> ptr \<Rightarrow> links \<times> ptr option" where
  "tqs_insert nx first q = (nx(q := first), Some q)"

definition tqs_erase :: "links \<Rightarrow> ptr option \<Rightarrow> ptr \<Rightarrow> (links \<times> ptr option) res" where
  "tqs_erase nx first q =
     (case first of
        None \<Rightarrow> Inr (nx, first)
      | Some f \<Rightarrow>
          if q = f then Inr (nx(q := None), nx q)
          else bind_res
            (res_while (\<lambda>(p, nx, found). \<not> found \<and> nx p \<noteq> None)
               (\<lambda>(p, nx, found).
                  case nx p of
                    None \<Rightarrow> Inl NullPointer
                  | Some n \<Rightarrow>
                      if n = q then Inr (p, (nx(p := nx q))(q := None), True)
                      else Inr (n, nx, False))
               (f, nx, False))
            (\<lambda>(_, nx, _). Inr (nx, first)))"

definition tqs_all_empty :: "links \<Rightarrow> ptr option \<Rightarrow> (ptr \<Rightarrow> clocked) \<Rightarrow> bool res" where
  "tqs_all_empty nx first cs =
     bind_res
       (res_while (\<lambda>(p, empty). p \<noteq> None \<and> empty)
          (\<lambda>(p, empty).
             case p of None \<Rightarrow> Inl NullPointer | Some x \<Rightarrow> Inr (nx x, tq_empty (cq_queue (cs x))))
          (first, True))
       (\<lambda>(_, empty). Inr empty)"

text \<open>The loop over the queues, with what it accumulates.\<close>

definition for_each :: "links \<Rightarrow> (ptr \<Rightarrow> 'a \<Rightarrow> 'a res) \<Rightarrow> ptr option \<Rightarrow> 'a \<Rightarrow> 'a res" where
  "for_each nx f p a =
     bind_res
       (res_while (\<lambda>(p, a). p \<noteq> None)
          (\<lambda>(p, a). case p of None \<Rightarrow> Inl NullPointer | Some x \<Rightarrow> bind_res (f x a) (\<lambda>a. Inr (nx x, a)))
          (p, a))
       (\<lambda>(_, a). Inr a)"

definition tqs_wait_msec :: "links \<Rightarrow> ptr option \<Rightarrow> (ptr \<Rightarrow> clocked) \<Rightarrow> int \<Rightarrow> int res" where
  "tqs_wait_msec nx first cs max_duration =
     for_each nx (\<lambda>x m. wait_duration_msec (cq_period (cs x)) (cq_now (cs x)) (cq_queue (cs x)) m)
       first max_duration"

definition tqs_wait_usec :: "links \<Rightarrow> ptr option \<Rightarrow> (ptr \<Rightarrow> clocked) \<Rightarrow> int \<Rightarrow> int res" where
  "tqs_wait_usec nx first cs max_duration =
     for_each nx (\<lambda>x m. wait_duration_usec (cq_period (cs x)) (cq_now (cs x)) (cq_queue (cs x)) m)
       first max_duration"

definition tqs_get_ready_timers ::
    "links \<Rightarrow> ptr option \<Rightarrow> (ptr \<Rightarrow> clocked) \<Rightarrow> ptr list \<Rightarrow> ((ptr \<Rightarrow> clocked) \<times> ptr list) res" where
  "tqs_get_ready_timers nx first cs ops =
     for_each nx (\<lambda>x (cs, ops).
         bind_res (get_ready_timers (cq_now (cs x)) (cq_queue (cs x)) ops)
           (\<lambda>(q, ops). Inr (cs(x := (cs x)\<lparr>cq_queue := q\<rparr>), ops)))
       first (cs, ops)"

definition tqs_get_all_timers ::
    "links \<Rightarrow> ptr option \<Rightarrow> (ptr \<Rightarrow> clocked) \<Rightarrow> ptr list \<Rightarrow> ((ptr \<Rightarrow> clocked) \<times> ptr list) res" where
  "tqs_get_all_timers nx first cs ops =
     for_each nx (\<lambda>x (cs, ops).
         bind_res (get_all_timers (cq_queue (cs x)) ops)
           (\<lambda>(q, ops). Inr (cs(x := (cs x)\<lparr>cq_queue := q\<rparr>), ops)))
       first (cs, ops)"

text \<open>How long the reactor sleeps: at most five minutes, as a number of milliseconds, or as the
  seconds and nanoseconds of a timer descriptor, and whether that is an absolute time.\<close>

definition get_timeout :: "links \<Rightarrow> ptr option \<Rightarrow> (ptr \<Rightarrow> clocked) \<Rightarrow> int res" where
  "get_timeout nx first cs = tqs_wait_msec nx first cs (5 * 60 * 1000)"

definition get_timeout_ts :: "links \<Rightarrow> ptr option \<Rightarrow> (ptr \<Rightarrow> clocked) \<Rightarrow> ((int \<times> int) \<times> bool) res" where
  "get_timeout_ts nx first cs =
     bind_res (tqs_wait_usec nx first cs (5 * 60 * 1000 * 1000)) (\<lambda>usec.
       Inr ((usec div 1000000, if usec \<noteq> 0 then (usec mod 1000000) * 1000 else 1), usec = 0))"

fun fold_res :: "('b \<Rightarrow> 'a \<Rightarrow> 'a res) \<Rightarrow> 'b list \<Rightarrow> 'a \<Rightarrow> 'a res" where
  "fold_res f [] a = Inr a"
| "fold_res f (x # xs) a = bind_res (f x a) (fold_res f xs)"

lemma for_each_chain: "chain nx p xs \<Longrightarrow> for_each nx f p a = fold_res f xs a"
proof (induction xs arbitrary: p a)
  case Nil
  then show ?case by (simp add: for_each_def res_while_unfold)
next
  case (Cons x xs)
  then have "for_each nx f (nx x) a' = fold_res f xs a'" for a' by simp
  then show ?case
    using Cons.prems by (cases "f x a") (simp_all add: for_each_def res_while_unfold [of _ _ "(Some x, a)"])
qed

text \<open>The set is a list: inserting puts a queue in front, erasing takes it out.\<close>

lemma tqs_insert_chain:
  assumes "chain nx first xs" "q \<notin> set xs"
  shows "case tqs_insert nx first q of (nx', first') \<Rightarrow> chain nx' first' (q # xs)"
proof -
  have "chain (nx(q := first)) first xs" by (rule chain_frame [OF _ assms(1)]) (use assms(2) in auto)
  then show ?thesis by (simp add: tqs_insert_def)
qed

lemma erase_loop:
  assumes "chain nx (nx p) bs" "distinct (p # bs)" "q \<noteq> p"
  shows "\<exists>p' nx' fnd. res_while (\<lambda>(p, nx, found). \<not> found \<and> nx p \<noteq> None)
      (\<lambda>(p, nx, found). case nx p of None \<Rightarrow> Inl NullPointer
         | Some n \<Rightarrow> if n = q then Inr (p, (nx(p := nx q))(q := None), True) else Inr (n, nx, False))
      (p, nx, False) = Inr (p', nx', fnd) \<and>
    chain nx' (Some p) (p # remove1 q bs) \<and> (\<forall>x. x \<notin> set (p # bs) \<longrightarrow> nx' x = nx x)"
  using assms
proof (induction bs arbitrary: p)
  case Nil
  then show ?case by (auto simp: res_while_unfold)
next
  case (Cons n bs)
  show ?case
  proof (cases "n = q")
    case True
    have "chain ((nx(p := nx q))(q := None)) (nx q) bs"
      by (rule chain_frame [of _ _ nx]) (use Cons.prems True in auto)
    then show ?thesis
      using Cons.prems True by (auto simp: res_while_unfold [of _ _ "(p, nx, False)"]
          res_while_unfold [of _ _ "(p, nx(p := nx q, q := None), True)"])
  next
    case False
    then obtain p' nx' fnd where r: "res_while (\<lambda>(p, nx, found). \<not> found \<and> nx p \<noteq> None)
      (\<lambda>(p, nx, found). case nx p of None \<Rightarrow> Inl NullPointer
         | Some n \<Rightarrow> if n = q then Inr (p, (nx(p := nx q))(q := None), True) else Inr (n, nx, False))
      (n, nx, False) = Inr (p', nx', fnd)" "chain nx' (Some n) (n # remove1 q bs)"
      "\<forall>x. x \<notin> set (n # bs) \<longrightarrow> nx' x = nx x" using Cons.IH [of n] Cons.prems by auto
    then have "nx' p = Some n" using Cons.prems by auto
    then show ?thesis
      using r Cons.prems False by (simp add: res_while_unfold [of _ _ "(p, nx, False)"])
  qed
qed

lemma tqs_erase_chain:
  assumes "chain nx first xs" "distinct xs"
  shows "\<exists>nx' first'. tqs_erase nx first q = Inr (nx', first') \<and> chain nx' first' (remove1 q xs)"
proof (cases xs)
  case Nil
  then show ?thesis using assms by (simp add: tqs_erase_def)
next
  case (Cons f ys)
  then have f: "first = Some f" "chain nx (nx f) ys" "distinct (f # ys)" using assms by auto
  show ?thesis
  proof (cases "q = f")
    case True
    have "chain (nx(q := None)) (nx q) ys"
      by (rule chain_frame [of _ _ nx]) (use f True in auto)
    then show ?thesis using f True by (simp add: tqs_erase_def Cons)
  next
    case False
    then show ?thesis using erase_loop [OF f(2,3) False] f by (auto simp: tqs_erase_def Cons)
  qed
qed

lemma all_empty_loop:
  "chain nx p xs \<Longrightarrow> \<exists>p'. res_while (\<lambda>(p, empty). p \<noteq> None \<and> empty)
     (\<lambda>(p, empty). case p of None \<Rightarrow> Inl NullPointer
        | Some x \<Rightarrow> Inr (nx x, tq_empty (cq_queue (cs x)))) (p, True) =
     Inr (p', list_all (\<lambda>x. tq_empty (cq_queue (cs x))) xs)"
proof (induction xs arbitrary: p)
  case (Cons x xs)
  show ?case
  proof (cases "tq_empty (cq_queue (cs x))")
    case True
    then show ?thesis using Cons by (simp add: res_while_unfold [of _ _ "(Some x, True)"])
  next
    case False
    then show ?thesis using Cons.prems
      by (simp add: res_while_unfold [of _ _ "(Some x, True)"] res_while_unfold [of _ _ "(nx x, False)"])
  qed
qed (simp add: res_while_unfold)

lemma tqs_all_empty_iff:
  "chain nx first xs \<Longrightarrow> tqs_all_empty nx first cs = Inr (list_all (\<lambda>x. tq_empty (cq_queue (cs x))) xs)"
  using all_empty_loop [of nx first xs cs] by (auto simp: tqs_all_empty_def)

text \<open>The clocks of a set: \<open>k\<close> gives the ticks of a unit, of which there are \<open>Den\<close> to the second.\<close>

definition clocks_ok :: "int \<Rightarrow> (ptr \<Rightarrow> int) \<Rightarrow> (ptr \<Rightarrow> clocked) \<Rightarrow> ptr list \<Rightarrow> bool" where
  "clocks_ok Den k cs xs \<longleftrightarrow> list_all (\<lambda>x. 0 < k x \<and> cq_period (cs x) = (1, k x * Den) \<and>
     int64 (cq_now (cs x)) \<and> times_fit (cq_queue (cs x))) xs"

abbreviation pending :: "(ptr \<Rightarrow> clocked) \<Rightarrow> ptr \<Rightarrow> (int \<times> ptr) set" where
  "pending cs x \<equiv> set (heap (cq_queue (cs x)))"

lemma fold_wait_sound:
  assumes "\<And>x. x \<in> set xs \<Longrightarrow> 0 < k x \<and> tq_ok (cq_queue (cs x)) (ts x)" and "0 \<le> m"
  shows "\<exists>r. fold_res (\<lambda>x m. Inr (wait_ticks (k x) (cq_now (cs x)) (cq_queue (cs x)) m)) xs m = Inr r \<and>
    0 \<le> r \<and> r \<le> max 1 m \<and> (\<forall>x \<in> set xs. \<forall>e \<in> pending cs x. r \<le> 1 \<or> cq_now (cs x) + r * k x \<le> fst e) \<and>
    (0 < m \<longrightarrow> r = 0 \<longrightarrow> (\<exists>x \<in> set xs. \<exists>e \<in> pending cs x. fst e \<le> cq_now (cs x)))"
  using assms
proof (induction xs arbitrary: m)
  case (Cons x xs)
  define w where "w = wait_ticks (k x) (cq_now (cs x)) (cq_queue (cs x)) m"
  have kx: "0 < k x" "tq_ok (cq_queue (cs x)) (ts x)" using Cons.prems by auto
  note s = wait_ticks_sound [OF kx Cons.prems(2) w_def]
  from Cons.IH [OF Cons.prems(1) s(1)] obtain r where r:
    "fold_res (\<lambda>x m. Inr (wait_ticks (k x) (cq_now (cs x)) (cq_queue (cs x)) m)) xs w = Inr r"
    "0 \<le> r" "r \<le> max 1 w" "\<forall>x \<in> set xs. \<forall>e \<in> pending cs x. r \<le> 1 \<or> cq_now (cs x) + r * k x \<le> fst e"
    "0 < w \<longrightarrow> r = 0 \<longrightarrow> (\<exists>x \<in> set xs. \<exists>e \<in> pending cs x. fst e \<le> cq_now (cs x))" by auto
  have "r \<le> 1 \<or> cq_now (cs x) + r * k x \<le> fst e" if "e \<in> pending cs x" for e
  proof (cases "r \<le> 1")
    case False
    then have "r \<le> w" "\<not> w \<le> 1" using r(3) by auto
    then have "r * k x \<le> w * k x" using kx by (intro mult_right_mono) auto
    then show ?thesis using s(3) [OF that] \<open>\<not> w \<le> 1\<close> by auto
  qed simp
  moreover have "0 < m \<longrightarrow> r = 0 \<longrightarrow> (\<exists>y \<in> set (x # xs). \<exists>e \<in> pending cs y. fst e \<le> cq_now (cs y))"
    using r(5) s(1,4) by (cases "w = 0") auto
  ultimately show ?case using r s(2) by (auto simp: w_def [symmetric])
qed auto

lemma fold_res_cong: "(\<And>x a. x \<in> set xs \<Longrightarrow> f x a = g x a) \<Longrightarrow> fold_res f xs a = fold_res g xs a"
proof (induction xs arbitrary: a)
  case (Cons x xs)
  then have "g x a = f x a" and "fold_res f xs b = fold_res g xs b" for b by simp_all
  then show ?case by (cases "f x a") simp_all
qed simp

text \<open>
  The reactor never oversleeps. Over all the queues of a set, whose clocks have at least one
  tick to the unit, the wait returned is at most the maximum asked for (five minutes), and either
  it is at most one unit or no timer of any queue expires before it is over; it is zero only
  when a timer of some queue is due.\<close>

theorem reactor_never_oversleeps:
  assumes "chain nx first xs" and "clocks_ok 1000000 k cs xs" and "0 < m"
    and "list_all (\<lambda>x. tq_ok (cq_queue (cs x)) (ts x)) xs"
  shows "\<exists>r. tqs_wait_usec nx first cs m = Inr r \<and> 0 \<le> r \<and> r \<le> m \<and>
    (\<forall>x \<in> set xs. \<forall>e \<in> pending cs x. r \<le> 1 \<or> cq_now (cs x) + r * k x \<le> fst e) \<and>
    (r = 0 \<longrightarrow> (\<exists>x \<in> set xs. \<exists>e \<in> pending cs x. fst e \<le> cq_now (cs x)))"
proof -
  have "tqs_wait_usec nx first cs m =
      fold_res (\<lambda>x m. Inr (wait_ticks (k x) (cq_now (cs x)) (cq_queue (cs x)) m)) xs m"
    unfolding tqs_wait_usec_def for_each_chain [OF assms(1)]
    by (rule fold_res_cong) (use assms(2) wait_duration_ticks(1) in \<open>auto simp: clocks_ok_def list_all_iff\<close>)
  moreover have "0 < k x \<and> tq_ok (cq_queue (cs x)) (ts x)" if "x \<in> set xs" for x
    using assms(2,4) that by (simp add: clocks_ok_def list_all_iff)
  from fold_wait_sound [of xs k cs ts m, OF this] obtain r where
    "fold_res (\<lambda>x m. Inr (wait_ticks (k x) (cq_now (cs x)) (cq_queue (cs x)) m)) xs m = Inr r"
    "0 \<le> r" "r \<le> max 1 m" "\<forall>x \<in> set xs. \<forall>e \<in> pending cs x. r \<le> 1 \<or> cq_now (cs x) + r * k x \<le> fst e"
    "r = 0 \<longrightarrow> (\<exists>x \<in> set xs. \<exists>e \<in> pending cs x. fst e \<le> cq_now (cs x))" using assms(3) by auto
  moreover have "max 1 m = m" using assms(3) by simp
  ultimately show ?thesis by (intro exI [of _ r]) simp
qed

text \<open>A queue with one timer, on a clock that counts nanoseconds.\<close>

definition sample_clocked :: clocked where
  "sample_clocked = \<lparr>cq_period = (1, 1000000000), cq_now = 5000,
     cq_queue = tq_new\<lparr>timers := Some 3, heap := [(20000, 3)], t_ops := (\<lambda>t. if t = 3 then [7] else [])\<rparr>\<rparr>"

theorem reactor_never_oversleeps_witness:
  "\<exists>r. tqs_wait_usec (\<lambda>_. None) (Some 1) (\<lambda>_. sample_clocked) 60 = Inr r \<and>
     r \<le> 60 \<and> (r \<le> 1 \<or> 5000 + r * 1000 \<le> 20000)"
proof -
  have "tq_ok (cq_queue sample_clocked) [3]"
    by (auto simp: tq_ok_def tq_links_def sample_clocked_def tq_new_def heap_ok_def idx_ok_def
        in_heap_def size_max_def)
  then show ?thesis
    using reactor_never_oversleeps [of "\<lambda>_. None" "Some 1" "[1]" "\<lambda>_. 1000" "\<lambda>_. sample_clocked" 60 "\<lambda>_. [3]"]
    by (auto simp: clocks_ok_def sample_clocked_def tq_new_def times_fit_def int64_defs)
qed

end
