(* ===== verification/SocketOps.thy ===== *)
theory SocketOps
  imports Loops IpAddressText
begin

text \<open>
  The socket operations (\<^verbatim>\<open>detail/impl/socket_ops.ipp\<close>, the POSIX branches on Linux): each
  calls the system, turns \<^verbatim>\<open>errno\<close> into an error code, and decides whether to give up, to retry
  or to wait. The system is a record of calls on an abstract state \<open>'w\<close>; a message header
  \<open>'m\<close>, which holds the buffers and the peer's address, is passed through. The error code an
  operation leaves in its last argument is a component of its result, next to the state flags
  where it changes them. A loop that never ends is the fault \<open>Diverges\<close>.
\<close>

type_synonym state_type = u8

definition user_set_non_blocking :: state_type where "user_set_non_blocking = 1"

definition internal_non_blocking :: state_type where "internal_non_blocking = 2"

definition non_blocking :: state_type where
  "non_blocking = user_set_non_blocking OR internal_non_blocking"

definition enable_connection_aborted :: state_type where "enable_connection_aborted = 4"

definition user_set_linger :: state_type where "user_set_linger = 8"

definition stream_oriented :: state_type where "stream_oriented = 16"

definition datagram_oriented :: state_type where "datagram_oriented = 32"

definition has_flag :: "state_type \<Rightarrow> state_type \<Rightarrow> bool" where
  "has_flag state f \<longleftrightarrow> state AND f \<noteq> 0"

definition invalid_socket :: int where "invalid_socket = - 1"

definition socket_error_retval :: int where "socket_error_retval = - 1"

definition custom_socket_option_level :: int where "custom_socket_option_level = 0xA5100000 - 2 ^ 32"

definition enable_connection_aborted_option :: int where "enable_connection_aborted_option = 1"

definition always_fail_option :: int where "always_fail_option = 2"

text \<open>The calls: the result, the value of \<^verbatim>\<open>errno\<close> afterwards (0 after a success, since it is cleared
  first), and the new state. \<open>sys_poll\<close> takes the events and the timeout, the option calls the
  level and the option.\<close>

type_synonym 'w call = "'w \<Rightarrow> (int \<times> int) \<times> 'w"

record ('m, 'w) sys =
  sys_accept :: "int \<Rightarrow> 'w call"
  sys_bind :: "int \<Rightarrow> u8 list \<Rightarrow> 'w call"
  sys_listen :: "int \<Rightarrow> int \<Rightarrow> 'w call"
  sys_shutdown :: "int \<Rightarrow> int \<Rightarrow> 'w call"
  sys_connect :: "int \<Rightarrow> u8 list \<Rightarrow> 'w call"
  sys_close :: "int \<Rightarrow> 'w call"
  sys_socket :: "int \<Rightarrow> int \<Rightarrow> int \<Rightarrow> 'w call"
  sys_fionbio :: "int \<Rightarrow> bool \<Rightarrow> 'w call"
  sys_poll :: "int \<Rightarrow> int \<Rightarrow> int \<Rightarrow> 'w call"
  sys_recvmsg :: "int \<Rightarrow> 'm \<Rightarrow> int \<Rightarrow> 'w call"
  sys_sendmsg :: "int \<Rightarrow> 'm \<Rightarrow> int \<Rightarrow> 'w call"
  sys_query :: "int \<Rightarrow> int \<Rightarrow> 'w \<Rightarrow> (int \<times> int \<times> int) \<times> 'w"
  sys_setsockopt :: "int \<Rightarrow> int \<Rightarrow> int \<Rightarrow> int \<Rightarrow> 'w call"
  sys_getsockopt :: "int \<Rightarrow> int \<Rightarrow> int \<Rightarrow> 'w \<Rightarrow> (int \<times> int \<times> int) \<times> 'w"

text \<open>A call whose success clears the error code.\<close>

definition checked :: "(int \<Rightarrow> bool) \<Rightarrow> (int \<times> int) \<times> 'w \<Rightarrow> (int \<times> error_code) \<times> 'w" where
  "checked ok r =
     (let (result, ec) = error_wrapper (fst r) in
      ((result, if ok result then no_error else ec), snd r))"

definition POLLIN :: int where "POLLIN = 1"

definition POLLOUT :: int where "POLLOUT = 4"

definition SOL_SOCKET :: int where "SOL_SOCKET = 1"

definition SO_LINGER :: int where "SO_LINGER = 13"

definition SO_ERROR :: int where "SO_ERROR = 4"

definition MSG_NOSIGNAL :: int where "MSG_NOSIGNAL = 0x4000"

definition EPROTO :: int where "EPROTO = 71"

definition ENOTTY :: int where "ENOTTY = 25"

definition would_block_or_again :: "error_code \<Rightarrow> bool" where
  "would_block_or_again ec \<longleftrightarrow> ec = basic_error would_block \<or> ec = basic_error try_again"

subsection \<open>A loop around a call\<close>

text \<open>\<open>for (;;)\<close> with a body that returns or goes round again.\<close>

definition forever :: "('w \<Rightarrow> 'r option \<times> 'w) \<Rightarrow> 'w \<Rightarrow> ('r \<times> 'w) res" where
  "forever body w =
     bind_res (res_while (\<lambda>(r, w). r = None) (\<lambda>(r, w). Inr (body w)) (None, w))
       (\<lambda>(r, w). Inr (the r, w))"

lemma forever_unfold:
  "forever body w = (case body w of (Some r, w') \<Rightarrow> Inr (r, w') | (None, w') \<Rightarrow> forever body w')"
proof (cases "body w")
  case (Pair r w')
  then show ?thesis
    by (cases r) (simp_all add: forever_def res_while_unfold [of _ _ "(None, w)"] Pair
        res_while_unfold [of _ _ "(Some _, w')"])
qed

lemma forever_steps:
  "(\<And>i. i < n \<Longrightarrow> fst (body (((\<lambda>w. snd (body w)) ^^ i) w)) = None) \<Longrightarrow>
   forever body w = forever body (((\<lambda>w. snd (body w)) ^^ n) w)"
proof (induction n arbitrary: w)
  case (Suc n)
  obtain w' where b: "body w = (None, w')" using Suc.prems [of 0] by (cases "body w") auto
  have "forever body w' = forever body (((\<lambda>w. snd (body w)) ^^ n) w')"
  proof (rule Suc.IH)
    fix i assume "i < n"
    then show "fst (body (((\<lambda>w. snd (body w)) ^^ i) w')) = None"
      using Suc.prems [of "Suc i"] by (simp add: funpow_Suc_right b del: funpow.simps)
  qed
  then show ?case
    by (simp add: forever_unfold [of body w] b funpow_Suc_right del: funpow.simps)
qed simp

subsection \<open>Waiting for a socket\<close>

definition poll_read :: "('m, 'w) sys \<Rightarrow> int \<Rightarrow> state_type \<Rightarrow> 'w \<Rightarrow> (int \<times> error_code) \<times> 'w" where
  "poll_read os s state w =
     (if s = invalid_socket then ((socket_error_retval, basic_error bad_descriptor), w)
      else
        (let timeout = (if has_flag state user_set_non_blocking then 0 else - 1);
             (r, w) = sys_poll os s POLLIN timeout w;
             (result, ec) = error_wrapper r;
             ec = (if result = 0
                   then (if has_flag state user_set_non_blocking then basic_error would_block else no_error)
                   else if result > 0 then no_error else ec) in
         ((result, ec), w)))"

definition poll_write :: "('m, 'w) sys \<Rightarrow> int \<Rightarrow> state_type \<Rightarrow> 'w \<Rightarrow> (int \<times> error_code) \<times> 'w" where
  "poll_write os s state w =
     (if s = invalid_socket then ((socket_error_retval, basic_error bad_descriptor), w)
      else
        (let timeout = (if has_flag state user_set_non_blocking then 0 else - 1);
             (r, w) = sys_poll os s POLLOUT timeout w;
             (result, ec) = error_wrapper r;
             ec = (if result = 0
                   then (if has_flag state user_set_non_blocking then basic_error would_block else no_error)
                   else if result > 0 then no_error else ec) in
         ((result, ec), w)))"

definition poll_connect :: "('m, 'w) sys \<Rightarrow> int \<Rightarrow> 'w \<Rightarrow> (int \<times> error_code) \<times> 'w" where
  "poll_connect os s w =
     (if s = invalid_socket then ((socket_error_retval, basic_error bad_descriptor), w)
      else checked (\<lambda>r. r \<ge> 0) (sys_poll os s POLLOUT (- 1) w))"

subsection \<open>Accepting, binding, connecting\<close>

definition so_accept :: "('m, 'w) sys \<Rightarrow> int \<Rightarrow> 'w \<Rightarrow> (int \<times> error_code) \<times> 'w" where
  "so_accept os s w =
     (if s = invalid_socket then ((invalid_socket, basic_error bad_descriptor), w)
      else checked (\<lambda>new_s. new_s \<noteq> invalid_socket) (sys_accept os s w))"

text \<open>What a failed accept means: \<open>True\<close> to report it, \<open>False\<close> to go on waiting.\<close>

definition accept_gives_up :: "state_type \<Rightarrow> error_code \<Rightarrow> bool" where
  "accept_gives_up state ec =
     (if would_block_or_again ec then has_flag state user_set_non_blocking
      else if ec = basic_error connection_aborted then has_flag state enable_connection_aborted
      else if ec_value ec = EPROTO then has_flag state enable_connection_aborted
      else True)"

definition sync_accept :: "('m, 'w) sys \<Rightarrow> int \<Rightarrow> state_type \<Rightarrow> 'w \<Rightarrow> ((int \<times> error_code) \<times> 'w) res" where
  "sync_accept os s state =
     forever (\<lambda>w.
       let ((new_socket, ec), w) = so_accept os s w in
       if new_socket \<noteq> invalid_socket then (Some (new_socket, ec), w)
       else if accept_gives_up state ec then (Some (invalid_socket, ec), w)
       else
         (let ((r, ec), w) = poll_read os s 0 w in
          if r < 0 then (Some (invalid_socket, ec), w) else (None, w)))"

text \<open>\<open>True\<close> when the operation is complete, with the socket.\<close>

definition non_blocking_accept ::
    "('m, 'w) sys \<Rightarrow> int \<Rightarrow> state_type \<Rightarrow> 'w \<Rightarrow> ((bool \<times> error_code \<times> int) \<times> 'w) res" where
  "non_blocking_accept os s state =
     forever (\<lambda>w.
       let ((new_socket, ec), w) = so_accept os s w in
       if new_socket \<noteq> invalid_socket then (Some (True, ec, new_socket), w)
       else if ec = basic_error interrupted then (None, w)
       else if accept_gives_up state ec then (Some (True, ec, new_socket), w)
       else (Some (False, ec, new_socket), w))"

definition so_bind :: "('m, 'w) sys \<Rightarrow> int \<Rightarrow> u8 list \<Rightarrow> 'w \<Rightarrow> (int \<times> error_code) \<times> 'w" where
  "so_bind os s addr w =
     (if s = invalid_socket then ((socket_error_retval, basic_error bad_descriptor), w)
      else checked (\<lambda>r. r = 0) (sys_bind os s addr w))"

definition so_listen :: "('m, 'w) sys \<Rightarrow> int \<Rightarrow> int \<Rightarrow> 'w \<Rightarrow> (int \<times> error_code) \<times> 'w" where
  "so_listen os s backlog w =
     (if s = invalid_socket then ((socket_error_retval, basic_error bad_descriptor), w)
      else checked (\<lambda>r. r = 0) (sys_listen os s backlog w))"

definition so_shutdown :: "('m, 'w) sys \<Rightarrow> int \<Rightarrow> int \<Rightarrow> 'w \<Rightarrow> (int \<times> error_code) \<times> 'w" where
  "so_shutdown os s what w =
     (if s = invalid_socket then ((socket_error_retval, basic_error bad_descriptor), w)
      else checked (\<lambda>r. r = 0) (sys_shutdown os s what w))"

definition so_socket :: "('m, 'w) sys \<Rightarrow> int \<Rightarrow> int \<Rightarrow> int \<Rightarrow> 'w \<Rightarrow> (int \<times> error_code) \<times> 'w" where
  "so_socket os af tp protocol w = checked (\<lambda>s. s \<ge> 0) (sys_socket os af tp protocol w)"

definition so_connect :: "('m, 'w) sys \<Rightarrow> int \<Rightarrow> u8 list \<Rightarrow> 'w \<Rightarrow> (int \<times> error_code) \<times> 'w" where
  "so_connect os s addr w =
     (if s = invalid_socket then ((socket_error_retval, basic_error bad_descriptor), w)
      else
        (let (r, w) = sys_connect os s addr w; (result, ec) = error_wrapper r;
             ec = (if result = 0 then no_error
                   else if ec = basic_error try_again then basic_error no_buffer_space else ec) in
         ((result, ec), w)))"

text \<open>Options. The third component of the result of \<open>so_getsockopt\<close> is the value read; the options
  read with it are integers, so the system leaves the length it is given.\<close>

definition so_setsockopt ::
    "('m, 'w) sys \<Rightarrow> int \<Rightarrow> state_type \<Rightarrow> int \<Rightarrow> int \<Rightarrow> int \<Rightarrow> nat \<Rightarrow> 'w \<Rightarrow>
     (int \<times> state_type \<times> error_code) \<times> 'w" where
  "so_setsockopt os s state level optname optval optlen w =
     (if s = invalid_socket then ((socket_error_retval, state, basic_error bad_descriptor), w)
      else if level = custom_socket_option_level \<and> optname = always_fail_option
        then ((socket_error_retval, state, basic_error invalid_argument), w)
      else if level = custom_socket_option_level \<and> optname = enable_connection_aborted_option
        then (if optlen \<noteq> 4 then ((socket_error_retval, state, basic_error invalid_argument), w)
              else ((0, if optval \<noteq> 0 then state OR enable_connection_aborted
                        else state AND NOT enable_connection_aborted, no_error), w))
      else
        (let state = (if level = SOL_SOCKET \<and> optname = SO_LINGER then state OR user_set_linger else state);
             ((result, ec), w) = checked (\<lambda>r. r = 0) (sys_setsockopt os s level optname optval w) in
         ((result, state, ec), w)))"

definition so_getsockopt ::
    "('m, 'w) sys \<Rightarrow> int \<Rightarrow> state_type \<Rightarrow> int \<Rightarrow> int \<Rightarrow> nat \<Rightarrow> 'w \<Rightarrow> (int \<times> error_code \<times> int option) \<times> 'w" where
  "so_getsockopt os s state level optname optlen w =
     (if s = invalid_socket then ((socket_error_retval, basic_error bad_descriptor, None), w)
      else if level = custom_socket_option_level \<and> optname = always_fail_option
        then ((socket_error_retval, basic_error invalid_argument, None), w)
      else if level = custom_socket_option_level \<and> optname = enable_connection_aborted_option
        then (if optlen \<noteq> 4 then ((socket_error_retval, basic_error invalid_argument, None), w)
              else ((0, no_error, Some (if has_flag state enable_connection_aborted then 1 else 0)), w))
      else
        (let ((r, val, e), w) = sys_getsockopt os s level optname w;
             (result, ec) = error_wrapper (r, e);
             val = (if result = 0 \<and> level = SOL_SOCKET \<and> optlen = 4 \<and> (optname = 7 \<or> optname = 8)
                    then sgn val * (\<bar>val\<bar> div 2) else val) in
         ((result, if result = 0 then no_error else ec, Some val), w)))"

definition sync_connect :: "('m, 'w) sys \<Rightarrow> int \<Rightarrow> u8 list \<Rightarrow> 'w \<Rightarrow> error_code \<times> 'w" where
  "sync_connect os s addr w =
     (let ((_, ec), w) = so_connect os s addr w in
      if ec \<noteq> basic_error in_progress \<and> ec \<noteq> basic_error would_block then (ec, w)
      else
        (let ((r, ec), w) = poll_connect os s w in
         if r < 0 then (ec, w)
         else
           (let ((r, ec, connect_error), w) = so_getsockopt os s 0 SOL_SOCKET SO_ERROR 4 w in
            if r = socket_error_retval then (ec, w)
            else (Error_code (case connect_error of Some v \<Rightarrow> v | None \<Rightarrow> 0) system_category, w))))"

definition non_blocking_connect :: "('m, 'w) sys \<Rightarrow> int \<Rightarrow> error_code \<Rightarrow> 'w \<Rightarrow> (bool \<times> error_code) \<times> 'w" where
  "non_blocking_connect os s ec w =
     (let ((ready, _), w) = sys_poll os s POLLOUT 0 w in
      if ready = 0 then ((False, ec), w)
      else
        (let ((r, ec, connect_error), w) = so_getsockopt os s 0 SOL_SOCKET SO_ERROR 4 w in
         if r = 0
         then (let v = (case connect_error of Some v \<Rightarrow> v | None \<Rightarrow> 0) in
               ((True, if v \<noteq> 0 then Error_code v system_category else no_error), w))
         else ((True, ec), w)))"

text \<open>\<open>sys_query\<close> is an \<^verbatim>\<open>ioctl\<close> that reads a number: the mark, or the bytes available.\<close>

definition SIOCATMARK :: int where "SIOCATMARK = 0x8905"

definition FIONREAD :: int where "FIONREAD = 0x541B"

definition query_ec :: "int \<times> int \<Rightarrow> error_code" where
  "query_ec r =
     (let (result, ec) = error_wrapper r; ec = (if result = 0 then no_error else ec) in
      if ec_value ec = ENOTTY then basic_error not_socket else ec)"

definition so_sockatmark :: "('m, 'w) sys \<Rightarrow> int \<Rightarrow> 'w \<Rightarrow> (bool \<times> error_code) \<times> 'w" where
  "so_sockatmark os s w =
     (if s = invalid_socket then ((False, basic_error bad_descriptor), w)
      else (let ((r, v, e), w) = sys_query os s SIOCATMARK w; ec = query_ec (r, e) in
            ((if is_error ec then False else v \<noteq> 0, ec), w)))"

definition so_available :: "('m, 'w) sys \<Rightarrow> int \<Rightarrow> 'w \<Rightarrow> (int \<times> error_code) \<times> 'w" where
  "so_available os s w =
     (if s = invalid_socket then ((0, basic_error bad_descriptor), w)
      else (let ((r, v, e), w) = sys_query os s FIONREAD w; ec = query_ec (r, e) in
            ((if is_error ec then 0 else v, ec), w)))"

subsection \<open>Closing and the blocking mode\<close>

definition so_close :: "('m, 'w) sys \<Rightarrow> int \<Rightarrow> state_type \<Rightarrow> bool \<Rightarrow> error_code \<Rightarrow> 'w \<Rightarrow>
    (int \<times> state_type \<times> error_code) \<times> 'w" where
  "so_close os s state destruction ec w =
     (let ((result, state, ec), w) =
        (if s \<noteq> invalid_socket
         then
           (let ((_, state, _), w) =
                  (if destruction \<and> has_flag state user_set_linger
                   then so_setsockopt os s state SOL_SOCKET SO_LINGER 0 8 w
                   else ((0, state, ec), w));
                (r, w) = sys_close os s w;
                (result, ec) = error_wrapper r in
            if result \<noteq> 0 \<and> would_block_or_again ec
            then
              (let (_, w) = sys_fionbio os s False w;
                   state = state AND NOT non_blocking;
                   (r, w) = sys_close os s w;
                   (result, ec) = error_wrapper r in
               ((result, state, ec), w))
            else ((result, state, ec), w))
         else ((0, state, ec), w)) in
      ((result, state, if result = 0 then no_error else ec), w))"

definition set_user_non_blocking ::
    "('m, 'w) sys \<Rightarrow> int \<Rightarrow> state_type \<Rightarrow> bool \<Rightarrow> 'w \<Rightarrow> (bool \<times> state_type \<times> error_code) \<times> 'w" where
  "set_user_non_blocking os s state val w =
     (if s = invalid_socket then ((False, state, basic_error bad_descriptor), w)
      else
        (let (r, w) = sys_fionbio os s val w; (result, ec) = error_wrapper r in
         if result \<ge> 0
         then ((True, if val then state OR user_set_non_blocking
                      else state AND NOT (user_set_non_blocking OR internal_non_blocking), no_error), w)
         else ((False, state, ec), w)))"

definition set_internal_non_blocking ::
    "('m, 'w) sys \<Rightarrow> int \<Rightarrow> state_type \<Rightarrow> bool \<Rightarrow> 'w \<Rightarrow> (bool \<times> state_type \<times> error_code) \<times> 'w" where
  "set_internal_non_blocking os s state val w =
     (if s = invalid_socket then ((False, state, basic_error bad_descriptor), w)
      else if \<not> val \<and> has_flag state user_set_non_blocking
        then ((False, state, basic_error invalid_argument), w)
      else
        (let (r, w) = sys_fionbio os s val w; (result, ec) = error_wrapper r in
         if result \<ge> 0
         then ((True, if val then state OR internal_non_blocking
                      else state AND NOT internal_non_blocking, no_error), w)
         else ((False, state, ec), w)))"

subsection \<open>Receiving and sending\<close>

definition so_recv :: "('m, 'w) sys \<Rightarrow> int \<Rightarrow> 'm \<Rightarrow> int \<Rightarrow> 'w \<Rightarrow> (int \<times> error_code) \<times> 'w" where
  "so_recv os s msg flags w = checked (\<lambda>r. r \<ge> 0) (sys_recvmsg os s msg flags w)"

definition so_recvfrom :: "('m, 'w) sys \<Rightarrow> int \<Rightarrow> 'm \<Rightarrow> int \<Rightarrow> 'w \<Rightarrow> (int \<times> error_code) \<times> 'w" where
  "so_recvfrom os s msg flags w = checked (\<lambda>r. r \<ge> 0) (sys_recvmsg os s msg flags w)"

definition so_send :: "('m, 'w) sys \<Rightarrow> int \<Rightarrow> 'm \<Rightarrow> int \<Rightarrow> 'w \<Rightarrow> (int \<times> error_code) \<times> 'w" where
  "so_send os s msg flags w = checked (\<lambda>r. r \<ge> 0) (sys_sendmsg os s msg (or flags MSG_NOSIGNAL) w)"

definition so_sendto :: "('m, 'w) sys \<Rightarrow> int \<Rightarrow> 'm \<Rightarrow> int \<Rightarrow> 'w \<Rightarrow> (int \<times> error_code) \<times> 'w" where
  "so_sendto os s msg flags w = checked (\<lambda>r. r \<ge> 0) (sys_sendmsg os s msg (or flags MSG_NOSIGNAL) w)"

text \<open>The retry decision of the synchronous transfers after a failure.\<close>

definition transfer_gives_up :: "state_type \<Rightarrow> error_code \<Rightarrow> bool" where
  "transfer_gives_up state ec \<longleftrightarrow>
     has_flag state user_set_non_blocking \<or>
     (ec \<noteq> basic_error would_block \<and> ec \<noteq> basic_error try_again)"

definition sync_recv :: "('m, 'w) sys \<Rightarrow> int \<Rightarrow> state_type \<Rightarrow> 'm \<Rightarrow> int \<Rightarrow> bool \<Rightarrow> 'w \<Rightarrow>
    ((int \<times> error_code) \<times> 'w) res" where
  "sync_recv os s state msg flags all_empty w =
     (if s = invalid_socket then Inr ((0, basic_error bad_descriptor), w)
      else if all_empty \<and> has_flag state stream_oriented then Inr ((0, no_error), w)
      else forever (\<lambda>w.
        let ((bytes, ec), w) = so_recv os s msg flags w in
        if bytes > 0 then (Some (bytes, ec), w)
        else if has_flag state stream_oriented \<and> bytes = 0 then (Some (0, misc_error eof), w)
        else if transfer_gives_up state ec then (Some (0, ec), w)
        else (let ((r, ec), w) = poll_read os s 0 w in
              if r < 0 then (Some (0, ec), w) else (None, w))) w)"

definition sync_recvfrom :: "('m, 'w) sys \<Rightarrow> int \<Rightarrow> state_type \<Rightarrow> 'm \<Rightarrow> int \<Rightarrow> 'w \<Rightarrow>
    ((int \<times> error_code) \<times> 'w) res" where
  "sync_recvfrom os s state msg flags w =
     (if s = invalid_socket then Inr ((0, basic_error bad_descriptor), w)
      else forever (\<lambda>w.
        let ((bytes, ec), w) = so_recvfrom os s msg flags w in
        if bytes \<ge> 0 then (Some (bytes, ec), w)
        else if transfer_gives_up state ec then (Some (0, ec), w)
        else (let ((r, ec), w) = poll_read os s 0 w in
              if r < 0 then (Some (0, ec), w) else (None, w))) w)"

definition sync_send :: "('m, 'w) sys \<Rightarrow> int \<Rightarrow> state_type \<Rightarrow> 'm \<Rightarrow> int \<Rightarrow> bool \<Rightarrow> 'w \<Rightarrow>
    ((int \<times> error_code) \<times> 'w) res" where
  "sync_send os s state msg flags all_empty w =
     (if s = invalid_socket then Inr ((0, basic_error bad_descriptor), w)
      else if all_empty \<and> has_flag state stream_oriented then Inr ((0, no_error), w)
      else forever (\<lambda>w.
        let ((bytes, ec), w) = so_send os s msg flags w in
        if bytes \<ge> 0 then (Some (bytes, ec), w)
        else if transfer_gives_up state ec then (Some (0, ec), w)
        else (let ((r, ec), w) = poll_write os s 0 w in
              if r < 0 then (Some (0, ec), w) else (None, w))) w)"

definition sync_sendto :: "('m, 'w) sys \<Rightarrow> int \<Rightarrow> state_type \<Rightarrow> 'm \<Rightarrow> int \<Rightarrow> 'w \<Rightarrow>
    ((int \<times> error_code) \<times> 'w) res" where
  "sync_sendto os s state msg flags w =
     (if s = invalid_socket then Inr ((0, basic_error bad_descriptor), w)
      else forever (\<lambda>w.
        let ((bytes, ec), w) = so_sendto os s msg flags w in
        if bytes \<ge> 0 then (Some (bytes, ec), w)
        else if transfer_gives_up state ec then (Some (0, ec), w)
        else (let ((r, ec), w) = poll_write os s 0 w in
              if r < 0 then (Some (0, ec), w) else (None, w))) w)"

text \<open>The non-blocking transfers give whether the operation is complete, its error code and the
  number of bytes; the latter is \<open>None\<close> where the code leaves the caller's variable alone.\<close>

definition non_blocking_recv :: "('m, 'w) sys \<Rightarrow> int \<Rightarrow> 'm \<Rightarrow> int \<Rightarrow> bool \<Rightarrow> 'w \<Rightarrow>
    ((bool \<times> error_code \<times> int option) \<times> 'w) res" where
  "non_blocking_recv os s msg flags is_stream =
     forever (\<lambda>w.
       let ((bytes, ec), w) = so_recv os s msg flags w in
       if is_stream \<and> bytes = 0 then (Some (True, misc_error eof, None), w)
       else if ec = basic_error interrupted then (None, w)
       else if would_block_or_again ec then (Some (False, ec, None), w)
       else if bytes \<ge> 0 then (Some (True, no_error, Some bytes), w)
       else (Some (True, ec, Some 0), w))"

definition non_blocking_recvfrom :: "('m, 'w) sys \<Rightarrow> int \<Rightarrow> 'm \<Rightarrow> int \<Rightarrow> 'w \<Rightarrow>
    ((bool \<times> error_code \<times> int option) \<times> 'w) res" where
  "non_blocking_recvfrom os s msg flags =
     forever (\<lambda>w.
       let ((bytes, ec), w) = so_recvfrom os s msg flags w in
       if ec = basic_error interrupted then (None, w)
       else if would_block_or_again ec then (Some (False, ec, None), w)
       else if bytes \<ge> 0 then (Some (True, no_error, Some bytes), w)
       else (Some (True, ec, Some 0), w))"

definition non_blocking_send :: "('m, 'w) sys \<Rightarrow> int \<Rightarrow> 'm \<Rightarrow> int \<Rightarrow> 'w \<Rightarrow>
    ((bool \<times> error_code \<times> int option) \<times> 'w) res" where
  "non_blocking_send os s msg flags =
     forever (\<lambda>w.
       let ((bytes, ec), w) = so_send os s msg flags w in
       if ec = basic_error interrupted then (None, w)
       else if would_block_or_again ec then (Some (False, ec, None), w)
       else if bytes \<ge> 0 then (Some (True, no_error, Some bytes), w)
       else (Some (True, ec, Some 0), w))"

definition non_blocking_sendto :: "('m, 'w) sys \<Rightarrow> int \<Rightarrow> 'm \<Rightarrow> int \<Rightarrow> 'w \<Rightarrow>
    ((bool \<times> error_code \<times> int option) \<times> 'w) res" where
  "non_blocking_sendto os s msg flags =
     forever (\<lambda>w.
       let ((bytes, ec), w) = so_sendto os s msg flags w in
       if ec = basic_error interrupted then (None, w)
       else if would_block_or_again ec then (Some (False, ec, None), w)
       else if bytes \<ge> 0 then (Some (True, no_error, Some bytes), w)
       else (Some (True, ec, Some 0), w))"

subsection \<open>The flags\<close>

lemma has_flag_bits:
  "has_flag s user_set_non_blocking \<longleftrightarrow> bit s 0" "has_flag s internal_non_blocking \<longleftrightarrow> bit s 1"
  "has_flag s enable_connection_aborted \<longleftrightarrow> bit s 2" "has_flag s user_set_linger \<longleftrightarrow> bit s 3"
  using and_exp_eq_0_iff_not_bit [of s 0] and_exp_eq_0_iff_not_bit [of s 1]
    and_exp_eq_0_iff_not_bit [of s 2] and_exp_eq_0_iff_not_bit [of s 3]
  by (simp_all add: has_flag_def user_set_non_blocking_def internal_non_blocking_def
      enable_connection_aborted_def user_set_linger_def)

lemma flag_bits:
  "bit user_set_non_blocking n \<longleftrightarrow> n = 0" "bit internal_non_blocking n \<longleftrightarrow> n = 1"
  "bit non_blocking n \<longleftrightarrow> n = 0 \<or> n = 1"
proof -
  have i: "bit internal_non_blocking n \<longleftrightarrow> n = 1" for n
    using bit_exp_iff [where 'a = "8 word", of 1 n] by (auto simp: internal_non_blocking_def)
  have u: "bit user_set_non_blocking n \<longleftrightarrow> n = 0" for n
    by (simp add: user_set_non_blocking_def bit_1_iff)
  show "bit user_set_non_blocking n \<longleftrightarrow> n = 0" "bit internal_non_blocking n \<longleftrightarrow> n = 1"
    "bit non_blocking n \<longleftrightarrow> n = 0 \<or> n = 1"
    by (auto simp: non_blocking_def bit_or_iff u i)
qed

definition other_flags :: "state_type \<Rightarrow> state_type" where
  "other_flags state = state AND NOT non_blocking"

lemma other_flags_eq: "(\<And>n. n < 8 \<Longrightarrow> 1 < n \<Longrightarrow> bit s n = bit t n) \<Longrightarrow> other_flags s = other_flags t"
  by (rule bit_word_eqI) (auto simp: other_flags_def bit_and_iff bit_not_iff flag_bits)

text \<open>
  The flags follow the system. After a successful change the user's flag is what was asked
  for, and clearing it clears the internal one too; the internal flag can be cleared only while
  the user's is clear, otherwise the call is refused without touching the socket. A failure
  changes no flag, and no call ever changes another flag.\<close>

theorem non_blocking_flags:
  "(case set_user_non_blocking os s state v w of ((ok, state', ec), _) \<Rightarrow>
      (if ok then ec = no_error \<and> has_flag state' user_set_non_blocking = v \<and>
          (has_flag state' internal_non_blocking = (v \<and> has_flag state internal_non_blocking))
       else state' = state) \<and> other_flags state' = other_flags state) \<and>
   (case set_internal_non_blocking os s state v w of ((ok, state', ec), w') \<Rightarrow>
      (if ok then ec = no_error \<and> has_flag state' internal_non_blocking = v \<and>
          has_flag state' user_set_non_blocking = has_flag state user_set_non_blocking \<and>
          \<not> (\<not> v \<and> has_flag state user_set_non_blocking)
       else state' = state \<and> (if s \<noteq> invalid_socket \<and> \<not> v \<and> has_flag state user_set_non_blocking
          then ec = basic_error invalid_argument \<and> w' = w else True)) \<and>
      other_flags state' = other_flags state)"
proof -
  have o: "other_flags (state OR user_set_non_blocking) = other_flags state"
    "other_flags (state AND NOT user_set_non_blocking AND NOT internal_non_blocking) = other_flags state"
    "other_flags (state OR internal_non_blocking) = other_flags state"
    "other_flags (state AND NOT internal_non_blocking) = other_flags state"
    by (rule other_flags_eq; simp add: bit_or_iff bit_and_iff bit_not_iff flag_bits)+
  show ?thesis
    by (auto simp: set_user_non_blocking_def set_internal_non_blocking_def o has_flag_bits
        bit_or_iff bit_and_iff bit_not_iff flag_bits checked_def Let_def split: prod.splits if_splits)
qed

subsection \<open>Retrying\<close>

text \<open>The outcome of a system call that was not interrupted, as the reactor reads it.\<close>

definition transfer_outcome :: "int \<times> int \<Rightarrow> bool \<times> error_code \<times> int option" where
  "transfer_outcome r =
     (let ec = Error_code (snd r) system_category in
      if fst r \<ge> 0 then (True, no_error, Some (fst r))
      else if snd r = errno try_again then (False, ec, None)
      else (True, ec, Some 0))"

definition was_interrupted :: "int \<times> int \<Rightarrow> bool" where
  "was_interrupted r \<longleftrightarrow> fst r < 0 \<and> snd r = errno interrupted"

abbreviation after :: "('w \<Rightarrow> 'a \<times> 'w) \<Rightarrow> nat \<Rightarrow> 'w \<Rightarrow> 'w" where
  "after c n \<equiv> (\<lambda>w. snd (c w)) ^^ n"

definition transfer_body :: "('w \<Rightarrow> (int \<times> int) \<times> 'w) \<Rightarrow> 'w \<Rightarrow>
    (bool \<times> error_code \<times> int option) option \<times> 'w" where
  "transfer_body c w =
     (let ((bytes, ec), w) = checked (\<lambda>r. r \<ge> 0) (c w) in
      if ec = basic_error interrupted then (None, w)
      else if would_block_or_again ec then (Some (False, ec, None), w)
      else if bytes \<ge> 0 then (Some (True, no_error, Some bytes), w)
      else (Some (True, ec, Some 0), w))"

lemma transfer_body_eq:
  "transfer_body c w =
     (if was_interrupted (fst (c w)) then None else Some (transfer_outcome (fst (c w))), snd (c w))"
  by (auto simp: transfer_body_def checked_def error_wrapper_def was_interrupted_def
      transfer_outcome_def would_block_or_again_def basic_error_def no_error_def Let_def
      split: prod.splits)

lemma retry_exact:
  assumes "\<And>i. i < k \<Longrightarrow> was_interrupted (fst (c (after c i w)))"
    and "\<not> was_interrupted (fst (c (after c k w)))"
  shows "forever (transfer_body c) w = Inr (transfer_outcome (fst (c (after c k w))), after c (Suc k) w)"
proof -
  have a: "(\<lambda>w. snd (transfer_body c w)) = (\<lambda>w. snd (c w))" by (simp add: transfer_body_eq)
  have "forever (transfer_body c) w = forever (transfer_body c) (after c k w)"
    using forever_steps [of k "transfer_body c" w] assms(1) by (simp add: a) (simp add: transfer_body_eq)
  also have "\<dots> = Inr (transfer_outcome (fst (c (after c k w))), after c (Suc k) w)"
    using assms(2) by (simp add: forever_unfold [of _ "after c k w"] transfer_body_eq)
  finally show ?thesis .
qed

lemma non_blocking_transfers:
  "non_blocking_recvfrom os s msg flags = forever (transfer_body (sys_recvmsg os s msg flags))"
  "non_blocking_sendto os s msg flags = forever (transfer_body (sys_sendmsg os s msg (or flags MSG_NOSIGNAL)))"
  "non_blocking_send os s msg flags = forever (transfer_body (sys_sendmsg os s msg (or flags MSG_NOSIGNAL)))"
  by (simp_all add: non_blocking_recvfrom_def non_blocking_sendto_def non_blocking_send_def
      so_recvfrom_def so_sendto_def so_send_def transfer_body_def [abs_def])

text \<open>
  A non-blocking receive of a datagram returns as soon as a call is not interrupted by a
  signal, after exactly that many calls: with the number of bytes, or incomplete when nothing is
  there, or complete with the system's error and no bytes.\<close>

theorem non_blocking_recvfrom_exact:
  assumes "list_all (\<lambda>i. was_interrupted (fst (sys_recvmsg os s msg flags (after (sys_recvmsg os s msg flags) i w)))) [0..<k]"
    and "\<not> was_interrupted (fst (sys_recvmsg os s msg flags (after (sys_recvmsg os s msg flags) k w)))"
  shows "non_blocking_recvfrom os s msg flags w =
    Inr (transfer_outcome (fst (sys_recvmsg os s msg flags (after (sys_recvmsg os s msg flags) k w))),
         after (sys_recvmsg os s msg flags) (Suc k) w)"
  unfolding non_blocking_transfers by (rule retry_exact) (use assms in \<open>auto simp: list_all_iff\<close>)

text \<open>A system whose first receive is interrupted and whose second brings six bytes.\<close>

definition sample_sys :: "(unit, nat) sys" where
  "sample_sys = \<lparr>sys_accept = \<lambda>_ n. ((- 1, 9), n), sys_bind = \<lambda>_ _ n. ((0, 0), n),
     sys_listen = \<lambda>_ _ n. ((0, 0), n), sys_shutdown = \<lambda>_ _ n. ((0, 0), n),
     sys_connect = \<lambda>_ _ n. ((0, 0), n), sys_close = \<lambda>_ n. ((0, 0), n),
     sys_socket = \<lambda>_ _ _ n. ((3, 0), n), sys_fionbio = \<lambda>_ _ n. ((0, 0), n),
     sys_poll = \<lambda>_ _ _ n. ((1, 0), n),
     sys_recvmsg = \<lambda>_ _ _ n. (if n = 0 then (- 1, 4) else (6, 0), Suc n),
     sys_sendmsg = \<lambda>_ _ _ n. ((- 1, 11), Suc n), sys_query = \<lambda>_ _ n. ((0, 0, 0), n),
     sys_setsockopt = \<lambda>_ _ _ _ n. ((0, 0), n), sys_getsockopt = \<lambda>_ _ _ n. ((0, 0, 0), n)\<rparr>"

theorem non_blocking_recvfrom_exact_witness:
  "non_blocking_recvfrom sample_sys 3 () 0 0 = Inr ((True, no_error, Some 6), 2)"
  using non_blocking_recvfrom_exact [of sample_sys 3 "()" 0 0 1]
  by (simp add: sample_sys_def was_interrupted_def transfer_outcome_def numeral_2_eq_2)

text \<open>A blocking receive waits: as long as nothing is there and the wait succeeds it tries again,
  and the first datagram is returned whole, without an error.\<close>

lemma sync_recvfrom_waits:
  fixes os :: "('m, 'w) sys" and s :: int and msg :: 'm and flags :: int and state :: state_type
  defines "c \<equiv> sys_recvmsg os s msg flags"
  defines "rnd \<equiv> \<lambda>w. sys_poll os s POLLIN (- 1) (snd (c w))"
  assumes "s \<noteq> invalid_socket" and "\<not> has_flag state user_set_non_blocking"
    and "\<And>i. i < k \<Longrightarrow> fst (fst (c (after rnd i w))) < 0 \<and> snd (fst (c (after rnd i w))) = errno would_block
        \<and> 0 \<le> fst (fst (rnd (after rnd i w)))"
    and "c (after rnd k w) = ((n, e), w')" and "0 \<le> n"
  shows "sync_recvfrom os s state msg flags w = Inr ((n, no_error), w')"
proof -
  define body where "body = (\<lambda>w. let ((bytes, ec), w) = so_recvfrom os s msg flags w in
        if bytes \<ge> 0 then (Some (bytes, ec), w)
        else if transfer_gives_up state ec then (Some (0, ec), w)
        else (let ((r, ec), w) = poll_read os s 0 w in
              if r < 0 then (Some (0, ec), w) else (None, w)))"
  have step: "body v = (None, snd (rnd v))"
    if "fst (fst (c v)) < 0" "snd (fst (c v)) = errno would_block" "0 \<le> fst (fst (rnd v))" for v
  proof -
    have "\<not> transfer_gives_up state (Error_code (errno would_block) system_category)"
      using assms(4) by (simp add: transfer_gives_up_def basic_error_def)
    then show ?thesis
      using that assms(3)
      by (auto simp: body_def so_recvfrom_def checked_def error_wrapper_def c_def rnd_def Let_def
          poll_read_def has_flag_bits split: prod.splits)
  qed
  have a: "((\<lambda>w. snd (body w)) ^^ i) w = after rnd i w" if "i \<le> k" for i
    using that by (induction i) (use assms(5) step in auto)
  have "forever body w = forever body (after rnd k w)"
    using forever_steps [of k body w] a [of k] a assms(5) step by simp
  moreover have "body (after rnd k w) = (Some (n, no_error), w')"
    using assms(6,7) by (simp add: body_def so_recvfrom_def checked_def error_wrapper_def c_def)
  ultimately have "forever body w = Inr ((n, no_error), w')"
    by (simp add: forever_unfold [of body "after rnd k w"])
  then show ?thesis using assms(3) by (simp add: sync_recvfrom_def body_def)
qed

end
