(* ===== verification/DeadlineTimer.thy ===== *)
theory DeadlineTimer
  imports TimeTraits SocketOps
begin

text \<open>
  The deadline timer (\<^verbatim>\<open>detail/deadline_timer_service.hpp\<close>) on top of the reactor's part for timers
  (\<^verbatim>\<open>detail/impl/epoll_reactor.hpp\<close>): the timers of one kind of clock share a queue, and what is
  posted to the io_service is the list of operations it gets, in order. The operations of both
  run under the reactor's mutex, so each is one step. The implementation of a timer keeps its
  data at an address. A chrono clock has no infinite time.
\<close>

subsection \<open>The reactor\<close>

record timer_reactor =
  rt_queue :: timer_queue
  rt_shutdown :: bool
  rt_posted :: "ptr list"
  rt_ec :: "ptr \<Rightarrow> error_code"
  rt_work :: nat
  rt_wakeups :: nat

definition is_positive_infinity :: "int \<Rightarrow> bool" where
  "is_positive_infinity _ = False"

definition schedule_timer :: "int \<Rightarrow> ptr \<Rightarrow> ptr \<Rightarrow> timer_reactor \<Rightarrow> timer_reactor" where
  "schedule_timer time timer op r =
     (if rt_shutdown r then r\<lparr>rt_posted := rt_posted r @ [op]\<rparr>
      else
        (let (q, earliest) = enqueue_timer is_positive_infinity time timer op (rt_queue r);
             r = r\<lparr>rt_queue := q, rt_work := rt_work r + 1\<rparr> in
         if earliest then r\<lparr>rt_wakeups := rt_wakeups r + 1\<rparr> else r))"

definition reactor_cancel_timer :: "ptr \<Rightarrow> nat \<Rightarrow> timer_reactor \<Rightarrow> nat \<times> timer_reactor" where
  "reactor_cancel_timer timer max_cancelled r =
     (let (q, ec, ops, n) = cancel_timer timer max_cancelled (rt_queue r) (rt_ec r) [] in
      (n, r\<lparr>rt_queue := q, rt_ec := ec, rt_posted := rt_posted r @ ops\<rparr>))"

text \<open>The part of \<^verbatim>\<open>run\<close> that collects the timers.\<close>

definition reactor_run_timers :: "int \<Rightarrow> timer_reactor \<Rightarrow> timer_reactor res" where
  "reactor_run_timers now r =
     bind_res (get_ready_timers now (rt_queue r) []) (\<lambda>(q, ops).
       Inr (r\<lparr>rt_queue := q, rt_posted := rt_posted r @ ops\<rparr>))"

subsection \<open>The timer\<close>

record deadline_timer =
  dt_expiry :: int
  might_have_pending_waits :: bool
  timer_data :: ptr

definition dt_construct :: "deadline_timer \<Rightarrow> deadline_timer" where
  "dt_construct impl = impl\<lparr>dt_expiry := 0, might_have_pending_waits := False\<rparr>"

definition dt_cancel ::
    "deadline_timer \<Rightarrow> timer_reactor \<Rightarrow> (nat \<times> error_code) \<times> deadline_timer \<times> timer_reactor" where
  "dt_cancel impl r =
     (if \<not> might_have_pending_waits impl then ((0, no_error), impl, r)
      else
        (let (count, r) = reactor_cancel_timer (timer_data impl) size_max r in
         ((count, no_error), impl\<lparr>might_have_pending_waits := False\<rparr>, r)))"

definition dt_cancel_one ::
    "deadline_timer \<Rightarrow> timer_reactor \<Rightarrow> (nat \<times> error_code) \<times> deadline_timer \<times> timer_reactor" where
  "dt_cancel_one impl r =
     (if \<not> might_have_pending_waits impl then ((0, no_error), impl, r)
      else
        (let (count, r) = reactor_cancel_timer (timer_data impl) 1 r;
             impl = (if count = 0 then impl\<lparr>might_have_pending_waits := False\<rparr> else impl) in
         ((count, no_error), impl, r)))"

definition dt_destroy :: "deadline_timer \<Rightarrow> timer_reactor \<Rightarrow> deadline_timer \<times> timer_reactor" where
  "dt_destroy impl r = snd (dt_cancel impl r)"

definition dt_set_expires_at :: "int \<Rightarrow> deadline_timer \<Rightarrow> timer_reactor \<Rightarrow>
    (nat \<times> error_code) \<times> deadline_timer \<times> timer_reactor" where
  "dt_set_expires_at expiry_time impl r =
     (let ((count, _), impl, r) = dt_cancel impl r in
      ((count, no_error), impl\<lparr>dt_expiry := expiry_time\<rparr>, r))"

definition dt_expires_from_now :: "int \<Rightarrow> deadline_timer \<Rightarrow> int res" where
  "dt_expires_from_now now impl = tt_subtract (dt_expiry impl) now"

definition dt_set_expires_from_now :: "int \<Rightarrow> int \<Rightarrow> deadline_timer \<Rightarrow> timer_reactor \<Rightarrow>
    ((nat \<times> error_code) \<times> deadline_timer \<times> timer_reactor) res" where
  "dt_set_expires_from_now now expiry_time impl r =
     bind_res (tt_add now expiry_time) (\<lambda>t. Inr (dt_set_expires_at t impl r))"

definition dt_async_wait :: "ptr \<Rightarrow> deadline_timer \<Rightarrow> timer_reactor \<Rightarrow> deadline_timer \<times> timer_reactor" where
  "dt_async_wait op impl r =
     (impl\<lparr>might_have_pending_waits := True\<rparr>, schedule_timer (dt_expiry impl) (timer_data impl) op r)"

text \<open>The blocking wait, over a clock and a \<^verbatim>\<open>select\<close> that sleeps for seconds and microseconds.\<close>

definition dt_do_wait ::
    "(int \<Rightarrow> int \<Rightarrow> 'w \<Rightarrow> error_code \<times> 'w) \<Rightarrow> int \<times> int \<Rightarrow> int \<Rightarrow> 'w \<Rightarrow> (error_code \<times> 'w) res" where
  "dt_do_wait sleep period timeout w =
     bind_res (total_seconds period timeout) (\<lambda>sec.
     bind_res (total_microseconds period timeout) (\<lambda>usec.
       Inr (sleep sec (usec mod 1000000) w)))"

definition dt_wait ::
    "('w \<Rightarrow> int \<times> 'w) \<Rightarrow> (int \<Rightarrow> int \<Rightarrow> 'w \<Rightarrow> error_code \<times> 'w) \<Rightarrow> int \<times> int \<Rightarrow> deadline_timer \<Rightarrow> 'w \<Rightarrow>
     (error_code \<times> 'w) res" where
  "dt_wait clock sleep period impl w =
     (let (now, w) = clock w in
      bind_res
        (res_while (\<lambda>(now, ec, w). tt_less_than now (dt_expiry impl) \<and> \<not> is_error ec)
           (\<lambda>(now, ec, w).
              bind_res (tt_subtract (dt_expiry impl) now) (\<lambda>d.
              bind_res (dt_do_wait sleep period d w) (\<lambda>(ec, w).
                let (now, w) = clock w in Inr (now, ec, w))))
           (now, no_error, w))
        (\<lambda>(_, ec, w). Inr (ec, w)))"

subsection \<open>What can happen to the timers of a service\<close>

text \<open>A program uses its timers in any order, from any thread; each operation is one step of the
  state: the timers by the address of their data, and the reactor. A new operation is not one
  that is waiting, and a queue never holds as many timers as there are addresses.\<close>

type_synonym timers_state = "(ptr \<Rightarrow> deadline_timer) \<times> timer_reactor"

definition timers_start :: "timers_state \<Rightarrow> bool" where
  "timers_start s \<longleftrightarrow> rt_queue (snd s) = tq_new \<and> \<not> rt_shutdown (snd s) \<and>
     (\<forall>t. timer_data (fst s t) = t \<and> \<not> might_have_pending_waits (fst s t))"

inductive timers_step :: "timers_state \<Rightarrow> timers_state \<Rightarrow> bool" where
  Async: "\<lbrakk>op \<notin> set (t_ops (rt_queue r) t); length (heap (rt_queue r)) + 1 < size_max;
     length (t_ops (rt_queue r) t) < size_max; dt_async_wait op (ts t) r = (impl, r')\<rbrakk> \<Longrightarrow> timers_step (ts, r) (ts(t := impl), r')"
| Cancel: "dt_cancel (ts t) r = (res, impl, r') \<Longrightarrow> timers_step (ts, r) (ts(t := impl), r')"
| Cancel_one: "dt_cancel_one (ts t) r = (res, impl, r') \<Longrightarrow> timers_step (ts, r) (ts(t := impl), r')"
| Expires: "dt_set_expires_at e (ts t) r = (res, impl, r') \<Longrightarrow> timers_step (ts, r) (ts(t := impl), r')"
| Expires_from_now: "dt_set_expires_from_now now d (ts t) r = Inr (res, impl, r') \<Longrightarrow>
     timers_step (ts, r) (ts(t := impl), r')"
| Renew: "dt_destroy (ts t) r = (impl, r') \<Longrightarrow> timers_step (ts, r) (ts(t := dt_construct impl), r')"
| Run: "reactor_run_timers now r = Inr r' \<Longrightarrow> timers_step (ts, r) (ts, r')"

inductive timers_reachable :: "timers_state \<Rightarrow> bool" where
  start: "timers_start s \<Longrightarrow> timers_reachable s"
| step: "timers_reachable s \<Longrightarrow> timers_step s s' \<Longrightarrow> timers_reachable s'"

inductive_cases timers_stepE: "timers_step (ts, r) s'"

subsection \<open>The invariant\<close>

definition timers_inv :: "timers_state \<Rightarrow> bool" where
  "timers_inv s \<longleftrightarrow> (\<exists>xs. tq_ok (rt_queue (snd s)) xs \<and> in_heap (heap (rt_queue (snd s))) = set xs) \<and>
     \<not> rt_shutdown (snd s) \<and> (\<forall>t. timer_data (fst s t) = t \<and> length (t_ops (rt_queue (snd s)) t) \<le> size_max) \<and>
     (\<forall>(e, t) \<in> set (heap (rt_queue (snd s))). e = dt_expiry (fst s t) \<and> might_have_pending_waits (fst s t))"

lemma timers_inv_start: "timers_start s \<Longrightarrow> timers_inv s"
  using tq_ok_new by (fastforce simp: timers_start_def timers_inv_def tq_new_def in_heap_def)

lemma set_of_mset: "mset xs = M \<Longrightarrow> set xs = set_mset M"
  by (metis set_mset_mset)

text \<open>Cancelling in the reactor, as the invariant sees it.\<close>

lemma reactor_cancel_timer_effect:
  assumes "tq_ok (rt_queue r) xs" "reactor_cancel_timer t n r = (k, r')"
  defines "w \<equiv> t_ops (rt_queue r) t"
  shows "k = min n (length w)" "rt_posted r' = rt_posted r @ take n w"
    "rt_shutdown r' = rt_shutdown r" "t_ops (rt_queue r') = (t_ops (rt_queue r))(t := drop n w)"
    "rt_ec r' x = (if x \<in> set (take n w) then basic_error operation_aborted else rt_ec r x)"
    "tq_ok (rt_queue r') (if length w \<le> n then remove1 t xs else xs)"
    "set (heap (rt_queue r')) = (if length w \<le> n then {e \<in> set (heap (rt_queue r)). snd e \<noteq> t}
       else set (heap (rt_queue r)))"
  using assms(2) cancel_timer_effect [OF assms(1), where timer = t and n = n and ec = "rt_ec r" and ops = "[]"]
  by (auto simp: reactor_cancel_timer_def w_def split: prod.splits dest!: set_of_mset)

lemma in_heap_iff: "t \<in> in_heap h \<longleftrightarrow> (\<exists>e. (e, t) \<in> set h)"
  by (force simp: in_heap_def)

lemma timers_inv_ops:
  assumes "timers_inv (ts, r)"
  shows "t_ops (rt_queue r) t \<noteq> [] \<longleftrightarrow> t \<in> in_heap (heap (rt_queue r))"
    "t_ops (rt_queue r) t \<noteq> [] \<longleftrightarrow> (dt_expiry (ts t), t) \<in> set (heap (rt_queue r))"
    "t_ops (rt_queue r) t \<noteq> [] \<Longrightarrow> might_have_pending_waits (ts t)"
proof -
  show 1: "t_ops (rt_queue r) t \<noteq> [] \<longleftrightarrow> t \<in> in_heap (heap (rt_queue r))" for t
    using assms by (auto simp: timers_inv_def tq_ok_def)
  have h: "\<forall>(e, t) \<in> set (heap (rt_queue r)). e = dt_expiry (ts t) \<and> might_have_pending_waits (ts t)"
    using assms by (simp add: timers_inv_def)
  show "t_ops (rt_queue r) t \<noteq> [] \<longleftrightarrow> (dt_expiry (ts t), t) \<in> set (heap (rt_queue r))"
    using h by (auto simp: 1 in_heap_iff)
  show "might_have_pending_waits (ts t)" if "t_ops (rt_queue r) t \<noteq> []"
    using h that by (auto simp: 1 in_heap_iff)
qed

lemma timers_inv_update:
  assumes "timers_inv (ts, r)" "timer_data impl = t" "t_ops (rt_queue r) t = []"
  shows "timers_inv (ts(t := impl), r)"
proof -
  have "(e, t) \<notin> set (heap (rt_queue r))" for e
    using timers_inv_ops(1) [OF assms(1), of t] assms(3) by (auto simp: in_heap_iff)
  then have "\<forall>(e, x) \<in> set (heap (rt_queue r)).
      e = dt_expiry ((ts(t := impl)) x) \<and> might_have_pending_waits ((ts(t := impl)) x)"
    using assms(1) by (auto simp: timers_inv_def)
  then show ?thesis using assms(1,2) by (simp add: timers_inv_def)
qed

lemma timers_inv_cancel:
  assumes "timers_inv (ts, r)" "reactor_cancel_timer t n r = (k, r')"
  shows "timers_inv (ts, r')"
proof -
  obtain xs where xs: "tq_ok (rt_queue r) xs" "in_heap (heap (rt_queue r)) = set xs"
    using assms(1) by (auto simp: timers_inv_def)
  note e = reactor_cancel_timer_effect [OF xs(1) assms(2)]
  have "distinct xs" using xs(1) by (simp add: tq_ok_def tq_links_def)
  then have "in_heap (heap (rt_queue r')) =
      set (if length (t_ops (rt_queue r) t) \<le> n then remove1 t xs else xs)"
    using xs(2) by (auto simp: in_heap_def e(7))
  moreover have "length (t_ops (rt_queue r') x) \<le> size_max" for x
    using assms(1) by (auto simp: timers_inv_def e(4) intro: le_trans [OF diff_le_self])
  moreover have "set (heap (rt_queue r')) \<subseteq> set (heap (rt_queue r))" by (auto simp: e(7))
  ultimately show ?thesis
    using assms(1) e(3,6) unfolding timers_inv_def by (auto split del: if_split)
qed

lemma dt_cancel_effect:
  assumes inv: "timers_inv (ts, r)" and c: "dt_cancel (ts t) r = ((k, ec), impl, r')"
  shows "timers_inv (ts(t := impl), r')" "t_ops (rt_queue r') = (t_ops (rt_queue r))(t := [])"
    "ec = no_error" "k = length (t_ops (rt_queue r) t)" "rt_posted r' = rt_posted r @ t_ops (rt_queue r) t"
    "rt_ec r' x = (if x \<in> set (t_ops (rt_queue r) t) then basic_error operation_aborted else rt_ec r x)"
    "dt_expiry impl = dt_expiry (ts t)" "timer_data impl = t" "\<not> might_have_pending_waits impl"
proof -
  let ?w = "t_ops (rt_queue r) t"
  have d: "timer_data (ts t) = t" "length ?w \<le> size_max" using inv by (simp_all add: timers_inv_def)
  have "timers_inv (ts(t := impl), r') \<and> t_ops (rt_queue r') = (t_ops (rt_queue r))(t := []) \<and> ec = no_error \<and>
    k = length ?w \<and> rt_posted r' = rt_posted r @ ?w \<and>
    rt_ec r' x = (if x \<in> set ?w then basic_error operation_aborted else rt_ec r x) \<and>
    dt_expiry impl = dt_expiry (ts t) \<and> timer_data impl = t \<and> \<not> might_have_pending_waits impl"
  proof (cases "might_have_pending_waits (ts t)")
    case False
    then have "?w = []" using timers_inv_ops(3) [OF inv] by blast
    then show ?thesis using inv c False d by (auto simp: dt_cancel_def fun_upd_idem)
  next
    case True
    obtain xs where xs: "tq_ok (rt_queue r) xs" using inv by (auto simp: timers_inv_def)
    from c True d have rc: "reactor_cancel_timer t size_max r = (k, r')"
      and i: "impl = (ts t)\<lparr>might_have_pending_waits := False\<rparr>" "ec = no_error"
      by (auto simp: dt_cancel_def split: prod.splits)
    note e = reactor_cancel_timer_effect [OF xs rc]
    have "t_ops (rt_queue r') t = []" using e(4) d(2) by simp
    then show ?thesis
      using timers_inv_update [OF timers_inv_cancel [OF inv rc], of impl t] e d i by simp
  qed
  then show "timers_inv (ts(t := impl), r')" "t_ops (rt_queue r') = (t_ops (rt_queue r))(t := [])"
    "ec = no_error" "k = length ?w" "rt_posted r' = rt_posted r @ ?w"
    "rt_ec r' x = (if x \<in> set ?w then basic_error operation_aborted else rt_ec r x)"
    "dt_expiry impl = dt_expiry (ts t)" "timer_data impl = t" "\<not> might_have_pending_waits impl"
    by simp_all
qed

lemma timers_inv_async:
  assumes inv: "timers_inv (ts, r)"
    and o: "op \<notin> set (t_ops (rt_queue r) t)" "length (heap (rt_queue r)) + 1 < size_max"
      "length (t_ops (rt_queue r) t) < size_max"
    and a: "dt_async_wait op (ts t) r = (impl, r')"
  shows "timers_inv (ts(t := impl), r')"
proof -
  obtain xs where xs: "tq_ok (rt_queue r) xs" "in_heap (heap (rt_queue r)) = set xs"
    using inv by (auto simp: timers_inv_def)
  have d: "timer_data (ts t) = t" "\<not> rt_shutdown r" using inv by (simp_all add: timers_inv_def)
  obtain q first where q: "enqueue_timer is_positive_infinity (dt_expiry (ts t)) t op (rt_queue r) = (q, first)"
    by force
  note e = enqueue_timer_effect [OF xs(1) o(2,1) q]
  have r': "rt_queue r' = q" "rt_shutdown r' = rt_shutdown r"
    and impl: "impl = (ts t)\<lparr>might_have_pending_waits := True\<rparr>"
    using a d q by (auto simp: dt_async_wait_def schedule_timer_def Let_def split: if_splits)
  have "set (heap q) = set (heap (rt_queue r)) \<union> (if t \<in> set xs then {} else {(dt_expiry (ts t), t)})"
    using set_of_mset [OF e(3)] by (simp add: is_positive_infinity_def)
  moreover from this have "in_heap (heap q) = set (if t \<in> set xs then xs else t # xs)"
    using xs(2) by (simp add: in_heap_def)
  ultimately show ?thesis
    using inv e(1,2) o(3) d(2) unfolding timers_inv_def fst_conv snd_conv r' impl by auto
qed

lemma reactor_run_timers_effect:
  assumes inv: "timers_inv (ts, r)"
  shows "\<exists>r' us. reactor_run_timers now r = Inr r' \<and> timers_inv (ts, r') \<and>
    rt_posted r' = rt_posted r @ concat (map (t_ops (rt_queue r)) us) \<and>
    sorted (map (\<lambda>t. dt_expiry (ts t)) us) \<and> distinct us \<and>
    set us = {t. t_ops (rt_queue r) t \<noteq> [] \<and> dt_expiry (ts t) \<le> now} \<and>
    t_ops (rt_queue r') = (\<lambda>t. if t \<in> set us then [] else t_ops (rt_queue r) t)"
proof -
  obtain xs where xs: "tq_ok (rt_queue r) xs" using inv by (auto simp: timers_inv_def)
  obtain q ops where q: "get_ready_timers now (rt_queue r) [] = Inr (q, ops)"
    "ready_inv now (rt_queue r) [] (q, ops)" "list_all (\<lambda>e. now < fst e) (heap q)"
    using ready_loop [OF xs, of now "[]"] by auto
  then obtain ys es where e: "tq_ok q ys" "ops = concat (map (\<lambda>e. t_ops (rt_queue r) (snd e)) es)"
    "sorted (map fst es)" "mset es + mset (heap q) = mset (heap (rt_queue r))" "\<forall>e \<in> set es. fst e \<le> now"
    "t_ops q = (\<lambda>t. if t \<in> snd ` set es then [] else t_ops (rt_queue r) t)"
    by (auto simp: ready_inv_def)
  have hs: "set (heap (rt_queue r)) = set es \<union> set (heap q)"
    using set_of_mset [OF e(4) [symmetric]] by simp
  have h: "\<forall>(e, t) \<in> set (heap (rt_queue r)). e = dt_expiry (ts t)" using inv by (auto simp: timers_inv_def)
  have "distinct (map snd (heap (rt_queue r)))"
    using xs idx_ok_distinct [of "(heap (rt_queue r), heap_index (rt_queue r))"] by (simp add: tq_ok_def tq_links_def)
  moreover have "mset (map snd es) \<subseteq># mset (map snd (heap (rt_queue r)))"
    unfolding mset_map e(4) [symmetric] by simp
  ultimately have dis: "distinct (map snd es)"
    by (metis distinct_append mset_append mset_eq_imp_distinct_iff mset_subset_eq_exists_conv ex_mset)
  have fs: "map fst es = map (\<lambda>t. dt_expiry (ts t)) (map snd es)"
    using h hs by auto
  have us: "set (map snd es) = {t. t_ops (rt_queue r) t \<noteq> [] \<and> dt_expiry (ts t) \<le> now}"
  proof -
    have "t \<in> set (map snd es) \<longleftrightarrow> (\<exists>e. (e, t) \<in> set (heap (rt_queue r)) \<and> dt_expiry (ts t) \<le> now)" for t
    proof
      assume "t \<in> set (map snd es)"
      then obtain x where x: "(x, t) \<in> set es" by auto
      then have "x = dt_expiry (ts t)" "x \<le> now" using h hs bspec [OF e(5) x] by auto
      then show "\<exists>e. (e, t) \<in> set (heap (rt_queue r)) \<and> dt_expiry (ts t) \<le> now"
        using x hs by blast
    next
      assume "\<exists>e. (e, t) \<in> set (heap (rt_queue r)) \<and> dt_expiry (ts t) \<le> now"
      then obtain x where x: "(x, t) \<in> set (heap (rt_queue r))" "dt_expiry (ts t) \<le> now" by blast
      then have "x \<le> now" using h by auto
      then have "(x, t) \<notin> set (heap q)" using q(3) by (auto simp: list_all_iff)
      then show "t \<in> set (map snd es)" using x(1) hs by (force simp: image_iff)
    qed
    then show ?thesis by (auto simp: timers_inv_ops(1) [OF inv] in_heap_iff)
  qed
  have hq: "in_heap (heap q) = set ys"
  proof
    show "in_heap (heap q) \<subseteq> set ys" using e(1) by (simp add: tq_ok_def tq_links_def)
    show "set ys \<subseteq> in_heap (heap q)"
    proof
      fix t assume "t \<in> set ys"
      then have "t_ops q t \<noteq> []" using e(1) by (simp add: tq_ok_def)
      then have "t \<notin> snd ` set es" "t \<in> in_heap (heap (rt_queue r))"
        using fun_cong [OF e(6), of t] timers_inv_ops(1) [OF inv, of t] by (auto split: if_splits)
      then show "t \<in> in_heap (heap q)" by (force simp: in_heap_iff hs)
    qed
  qed
  have "timers_inv (ts, r\<lparr>rt_queue := q, rt_posted := rt_posted r @ ops\<rparr>)"
    using inv hq e(1) fun_cong [OF e(6)] by (auto simp: timers_inv_def hs)
  then show ?thesis
    using q(1) e(2,3,6) dis us fs
    by (intro exI [of _ "r\<lparr>rt_queue := q, rt_posted := rt_posted r @ ops\<rparr>"] exI [of _ "map snd es"])
      (simp add: reactor_run_timers_def o_def)
qed

lemma expires_at_inv:
  assumes inv: "timers_inv (ts, r)" and c: "dt_set_expires_at e (ts t) r = (res, impl, r')"
  shows "timers_inv (ts(t := impl), r')"
proof -
  obtain k ec impl' r'' where d: "dt_cancel (ts t) r = ((k, ec), impl', r'')" by (metis prod.exhaust)
  then have i: "impl = impl'\<lparr>dt_expiry := e\<rparr>" "r'' = r'"
    using c by (auto simp: dt_set_expires_at_def)
  note e = dt_cancel_effect [OF inv d [unfolded i(2)]]
  show ?thesis using timers_inv_update [OF e(1), of impl t] e(2,8) i(1) by simp
qed

lemma filter_one:
  "distinct (map snd h) \<Longrightarrow> (e, t) \<in> set h \<Longrightarrow> filter (\<lambda>e. snd e = t) h = [(e, t)]"
  by (induction h) (force simp: filter_empty_conv)+

lemma timers_inv_step: "timers_step s s' \<Longrightarrow> timers_inv s \<Longrightarrow> timers_inv s'"
proof (induction rule: timers_step.induct)
  case (Async op r t ts impl r')
  then show ?case by (intro timers_inv_async)
next
  case (Cancel ts t r res impl r')
  then show ?case using dt_cancel_effect(1) by (cases res) blast
next
  case (Cancel_one ts t r res impl r')
  show ?case
  proof (cases "might_have_pending_waits (ts t)")
    case False
    then have "ts t = impl" "r' = r" using Cancel_one.hyps by (auto simp: dt_cancel_one_def)
    then show ?thesis using Cancel_one.prems by (auto simp: fun_upd_idem)
  next
    case True
    have d: "timer_data (ts t) = t" using Cancel_one.prems by (simp add: timers_inv_def)
    obtain k where rc: "reactor_cancel_timer t 1 r = (k, r')"
      and i: "impl = (if k = 0 then (ts t)\<lparr>might_have_pending_waits := False\<rparr> else ts t)"
      using Cancel_one.hyps True d by (auto simp: dt_cancel_one_def split: prod.splits)
    obtain xs where xs: "tq_ok (rt_queue r) xs" using Cancel_one.prems by (auto simp: timers_inv_def)
    note e = reactor_cancel_timer_effect [OF xs rc]
    note inv = timers_inv_cancel [OF Cancel_one.prems rc]
    show ?thesis
    proof (cases "k = 0")
      case True
      then have "t_ops (rt_queue r') t = []" using e(1,4) by (cases "t_ops (rt_queue r) t") auto
      then show ?thesis using timers_inv_update [OF inv, of impl t] d i by simp
    qed (use inv i in \<open>simp add: fun_upd_idem\<close>)
  qed
next
  case (Expires e ts t r res impl r')
  then show ?case by (intro expires_at_inv)
next
  case (Expires_from_now now d ts t r res impl r')
  then obtain x where "dt_set_expires_at x (ts t) r = (res, impl, r')"
    by (auto simp: dt_set_expires_from_now_def bind_res_eq_Inr)
  then show ?case by (rule expires_at_inv [OF Expires_from_now.prems])
next
  case (Renew ts t r impl r')
  obtain res where c: "dt_cancel (ts t) r = (res, impl, r')"
    using Renew.hyps by (cases "dt_cancel (ts t) r") (simp add: dt_destroy_def)
  obtain k ec where "res = (k, ec)" by force
  note e = dt_cancel_effect [OF Renew.prems c [unfolded this]]
  show ?case using timers_inv_update [OF e(1), of "dt_construct impl" t] e(2,8) by (simp add: dt_construct_def)
next
  case (Run now r r' ts)
  then show ?case using reactor_run_timers_effect [of ts r now] by auto
qed

lemma timers_reachable_inv: "timers_reachable s \<Longrightarrow> timers_inv s"
  by (induction rule: timers_reachable.induct) (auto intro: timers_inv_start timers_inv_step)

text \<open>
  C20. However its timers are used, in any order, a service keeps its queue in step with them: a
  timer has operations waiting exactly when it is in the queue, once, under the expiry time the
  timer has now, and then its flag is set, so that cancelling is never skipped by mistake.\<close>

theorem timers_wait_for_their_expiry:
  assumes "timers_reachable (ts, r)"
  shows "(t_ops (rt_queue r) t \<noteq> []) = (filter (\<lambda>e. snd e = t) (heap (rt_queue r)) = [(dt_expiry (ts t), t)]) \<and>
    (if t_ops (rt_queue r) t \<noteq> [] then might_have_pending_waits (ts t)
     else filter (\<lambda>e. snd e = t) (heap (rt_queue r)) = [])"
proof -
  note inv = timers_reachable_inv [OF assms]
  obtain xs where "tq_ok (rt_queue r) xs" using inv by (auto simp: timers_inv_def)
  then have dis: "distinct (map snd (heap (rt_queue r)))"
    using idx_ok_distinct [of "(heap (rt_queue r), heap_index (rt_queue r))"] by (simp add: tq_ok_def tq_links_def)
  have f: "filter (\<lambda>e. snd e = t) (heap (rt_queue r)) = [(e, t)]" if "(e, t) \<in> set (heap (rt_queue r))" for e
    by (rule filter_one [OF dis that])
  show ?thesis
  proof (cases "t_ops (rt_queue r) t = []")
    case True
    then have "t \<notin> in_heap (heap (rt_queue r))" using timers_inv_ops(1) [OF inv] by blast
    then have "filter (\<lambda>e. snd e = t) (heap (rt_queue r)) = []" by (auto simp: filter_empty_conv in_heap_iff)
    then show ?thesis using True by simp
  next
    case False
    then have "(dt_expiry (ts t), t) \<in> set (heap (rt_queue r))" "might_have_pending_waits (ts t)"
      using timers_inv_ops(2,3) [OF inv] by blast+
    then show ?thesis using f False by simp
  qed
qed

text \<open>
  Cancelling a timer, or giving it another expiry time, aborts all that is waiting on it and
  nothing else: the operations are posted in the order they were started, each with the error
  operation_aborted, the count returned is their number, and the other timers keep theirs.\<close>

theorem cancelling_aborts_exactly:
  assumes "timers_reachable (ts, r)"
  shows "case dt_set_expires_at e (ts t) r of ((k, ec), impl, r') \<Rightarrow>
    k = length (t_ops (rt_queue r) t) \<and> ec = no_error \<and> dt_expiry impl = e \<and>
    rt_posted r' = rt_posted r @ t_ops (rt_queue r) t \<and>
    t_ops (rt_queue r') = (t_ops (rt_queue r))(t := []) \<and>
    rt_ec r' = (\<lambda>x. if x \<in> set (t_ops (rt_queue r) t) then basic_error operation_aborted else rt_ec r x)"
proof -
  obtain k ec impl r' where c: "dt_cancel (ts t) r = ((k, ec), impl, r')" by (metis prod.exhaust)
  note e = dt_cancel_effect [OF timers_reachable_inv [OF assms] c]
  show ?thesis using e(2-5) ext [OF e(6)] by (simp add: dt_set_expires_at_def c)
qed

text \<open>
  C21. When the reactor collects the timers at a moment, that ends, and posts exactly the
  operations of the timers whose expiry is not later, timer by timer in the order of the
  expiries; every other timer keeps what is waiting on it.\<close>

theorem timers_fire_when_due:
  assumes "timers_reachable (ts, r)"
  shows "\<exists>r' us. reactor_run_timers now r = Inr r' \<and>
    rt_posted r' = rt_posted r @ concat (map (t_ops (rt_queue r)) us) \<and>
    sorted (map (\<lambda>t. dt_expiry (ts t)) us) \<and> distinct us \<and>
    set us = {t. t_ops (rt_queue r) t \<noteq> [] \<and> dt_expiry (ts t) \<le> now} \<and>
    t_ops (rt_queue r') = (\<lambda>t. if t \<in> set us then [] else t_ops (rt_queue r) t)"
  using reactor_run_timers_effect [OF timers_reachable_inv [OF assms], of now] by blast

text \<open>A timer that waits, on a service where nothing else happened.\<close>

definition sample_timers :: timers_state where
  "sample_timers = ((\<lambda>t. \<lparr>dt_expiry = 20, might_have_pending_waits = False, timer_data = t\<rparr>),
     \<lparr>rt_queue = tq_new, rt_shutdown = False, rt_posted = [], rt_ec = (\<lambda>_. no_error), rt_work = 0,
      rt_wakeups = 0\<rparr>)"

definition sample_waiting :: timers_state where
  "sample_waiting =
     (let (impl, r) = dt_async_wait 7 (fst sample_timers 3) (snd sample_timers) in
      ((fst sample_timers)(3 := impl), r))"

lemma sample_waiting_reachable: "timers_reachable (fst sample_waiting, snd sample_waiting)"
proof -
  have "timers_start sample_timers" by (simp add: timers_start_def sample_timers_def)
  moreover have "timers_step sample_timers sample_waiting"
    using timers_step.Async [of 7 "snd sample_timers" 3 "fst sample_timers"]
    by (simp add: sample_waiting_def sample_timers_def tq_new_def size_max_def split: prod.split)
  ultimately show ?thesis
    using timers_reachable.step [OF timers_reachable.start] by (simp add: sample_waiting_def)
qed

lemma sample_waiting_ops: "t_ops (rt_queue (snd sample_waiting)) = (\<lambda>t. if t = 3 then [7] else [])"
  "dt_expiry (fst sample_waiting 3) = 20"
  by (auto simp: sample_waiting_def sample_timers_def dt_async_wait_def schedule_timer_def enqueue_timer_def
      is_positive_infinity_def tq_new_def Let_def split: prod.splits if_splits)

theorem timers_wait_for_their_expiry_witness:
  "filter (\<lambda>e. snd e = 3) (heap (rt_queue (snd sample_waiting))) = [(20, 3)] \<and>
     might_have_pending_waits (fst sample_waiting 3)"
  using timers_wait_for_their_expiry [OF sample_waiting_reachable, of 3] by (simp add: sample_waiting_ops)

theorem cancelling_aborts_exactly_witness:
  "fst (fst (dt_set_expires_at 30 (fst sample_waiting 3) (snd sample_waiting))) = 1"
  using cancelling_aborts_exactly [OF sample_waiting_reachable, where e = 30 and t = 3]
  by (auto simp: sample_waiting_ops split: prod.splits)

theorem timers_fire_when_due_witness:
  "\<exists>r us. reactor_run_timers 19 (snd sample_waiting) = Inr r \<and> set us = {} \<and>
     t_ops (rt_queue r) 3 = [7]"
  using timers_fire_when_due [OF sample_waiting_reachable, of 19]
  by (auto simp: sample_waiting_ops split: if_splits)

subsection \<open>The blocking wait\<close>

text \<open>
  On a clock that goes on while the thread sleeps, a blocking wait returns, and not before
  the expiry of the timer unless sleeping failed.\<close>

theorem blocking_wait_ends:
  assumes "0 < k" "int64 (dt_expiry impl)" "int64 (time w)" and clock: "clock = (\<lambda>w. (time w, w))"
    and sleep: "\<And>sec usec w. int64 (time w) \<Longrightarrow> time w < dt_expiry impl \<Longrightarrow>
      time w < time (snd (sleep sec usec w)) \<and> int64 (time (snd (sleep sec usec w)))"
  shows "\<exists>ec w'. dt_wait clock sleep (1, k * 1000000) impl w = Inr (ec, w') \<and>
    (is_error ec \<or> dt_expiry impl \<le> time w')"
proof -
  let ?P = "\<lambda>(now, ec :: error_code, w). now = time w \<and> int64 (time w)"
  let ?b = "\<lambda>(now, ec, w). tt_less_than now (dt_expiry impl) \<and> \<not> is_error ec"
  let ?c = "\<lambda>(now, ec, w). bind_res (tt_subtract (dt_expiry impl) now) (\<lambda>d.
      bind_res (dt_do_wait sleep (1, k * 1000000) d w) (\<lambda>(ec, w).
        let (now, w) = clock w in Inr (now, ec, w)))"
  have "\<exists>s. res_while ?b ?c (time w, no_error, w) = Inr s \<and> ?P s \<and> \<not> ?b s"
  proof (rule res_while_total [where f = "\<lambda>(now, ec, w). nat (dt_expiry impl - now)"])
    show "?P (time w, no_error, w)" using assms(3) by simp
  next
    fix s :: "int \<times> error_code \<times> _" assume P: "?P s" and b: "?b s"
    obtain ec w where s: "s = (time w, ec, w)" "int64 (time w)" "time w < dt_expiry impl"
      using P b by (auto simp: tt_less_than_def)
    define d where "d = sat64 (dt_expiry impl - time w)"
    have d: "0 \<le> d" "int64 d" using s(3) sat64_pos [of "dt_expiry impl - time w"] by (auto simp: d_def)
    have t: "total_seconds (1, k * 1000000) d = Inr (d div (k * 1000000))"
      "total_microseconds (1, k * 1000000) d = Inr (d div k)"
      using duration_cast_ticks [of "k * 1000000" 1 d] duration_cast_ticks [of k 1000000 d] d assms(1)
      by (simp_all add: total_seconds_def total_microseconds_def)
    obtain e w' where w': "sleep (d div (k * 1000000)) (d div k mod 1000000) w = (e, w')" by force
    have "time w < time w'" "int64 (time w')"
      using sleep [OF s(2,3), of "d div (k * 1000000)" "d div k mod 1000000"] by (simp_all add: w')
    moreover have "?c s = Inr (time w', e, w')"
      by (simp add: s(1) tt_subtract_sat [OF assms(2) s(2)] d_def [symmetric] dt_do_wait_def t w' clock)
    ultimately show "\<exists>s'. ?c s = Inr s' \<and> ?P s' \<and>
        (case s' of (now, ec, w) \<Rightarrow> nat (dt_expiry impl - now)) < (case s of (now, ec, w) \<Rightarrow> nat (dt_expiry impl - now))"
      using s by auto
  qed
  then show ?thesis by (auto simp: dt_wait_def clock tt_less_than_def)
qed

theorem blocking_wait_ends_witness:
  "\<exists>ec w. dt_wait (\<lambda>w. (w, w)) (\<lambda>_ _ w. (no_error, w + 1)) (1, 1000000000)
      \<lparr>dt_expiry = 3, might_have_pending_waits = False, timer_data = 0\<rparr> 0 = Inr (ec, w) \<and>
    (is_error ec \<or> 3 \<le> w)"
  using blocking_wait_ends [of 1000 "\<lparr>dt_expiry = 3, might_have_pending_waits = False, timer_data = 0\<rparr>"
      "\<lambda>w. w" 0 "\<lambda>w. (w, w)" "\<lambda>_ _ w. (no_error, w + 1)"]
  by (simp add: int64_defs)

end
