(* ===== verification/Strand.thy ===== *)
theory Strand
  imports OpQueue
begin

text \<open>
  Strands (\<^verbatim>\<open>detail/strand_service.hpp\<close>, \<^verbatim>\<open>detail/impl/strand_service.hpp\<close> and \<^verbatim>\<open>.ipp\<close>): handlers given
  to a strand run one at a time and in order, whatever threads run the io_service. The parts that
  hold the mutex are functions on the implementation; everything around them is a relation whose
  steps are as small as the code allows: what happens between unlocking the mutex and touching
  the ready queue, or posting the strand, is a step of its own, at which other threads may run.
\<close>

subsection \<open>The implementation of a strand\<close>

record strand_impl =
  locked :: bool
  waiting_queue :: "ptr list"
  ready_queue :: "ptr list"

definition new_strand_impl :: strand_impl where
  "new_strand_impl = \<lparr>locked = False, waiting_queue = [], ready_queue = []\<rparr>"

text \<open>What is left to do after the mutex is released: nothing, pushing the operation on the ready
  queue and posting the strand, or running the handler at once.\<close>

datatype outcome = Enqueued | Acquired | Immediate

definition do_post :: "ptr \<Rightarrow> strand_impl \<Rightarrow> strand_impl \<times> outcome" where
  "do_post op impl =
     (if locked impl then (impl\<lparr>waiting_queue := waiting_queue impl @ [op]\<rparr>, Enqueued)
      else (impl\<lparr>locked := True\<rparr>, Acquired))"

definition do_dispatch :: "bool \<Rightarrow> ptr \<Rightarrow> strand_impl \<Rightarrow> strand_impl \<times> outcome" where
  "do_dispatch can_dispatch op impl =
     (if can_dispatch \<and> \<not> locked impl then (impl\<lparr>locked := True\<rparr>, Immediate)
      else if locked impl then (impl\<lparr>waiting_queue := waiting_queue impl @ [op]\<rparr>, Enqueued)
      else (impl\<lparr>locked := True\<rparr>, Acquired))"

text \<open>Leaving the strand, after \<^verbatim>\<open>do_complete\<close> and after an immediate \<^verbatim>\<open>dispatch\<close>: whether there
  are more handlers.\<close>

definition leave_strand :: "strand_impl \<Rightarrow> strand_impl \<times> bool" where
  "leave_strand impl =
     (let ready = ready_queue impl @ waiting_queue impl;
          more_handlers = ready \<noteq> [] in
      (impl\<lparr>ready_queue := ready, waiting_queue := [], locked := more_handlers\<rparr>, more_handlers))"

subsection \<open>The service\<close>

definition num_implementations :: nat where "num_implementations = 193"

record strand_service =
  implementations :: "strand_impl option list"
  salt :: "64 word"

definition new_strand_service :: strand_service where
  "new_strand_service = \<lparr>implementations = replicate num_implementations None, salt = 0\<rparr>"

definition strand_index :: "64 word \<Rightarrow> 64 word \<Rightarrow> nat" where
  "strand_index impl slt =
     (let index = impl;
          index = index + drop_bit 3 impl;
          index = index XOR (slt + 0x9e3779b9 + push_bit 6 index + drop_bit 2 index) in
      unat index mod num_implementations)"

text \<open>A strand object at an address: the index of the implementation it shares, and the service.\<close>

definition strand_construct :: "64 word \<Rightarrow> strand_service \<Rightarrow> nat \<times> strand_service" where
  "strand_construct impl sv =
     (let index = strand_index impl (salt sv);
          sv = sv\<lparr>salt := salt sv + 1\<rparr>;
          sv = (if implementations sv ! index = None
                then sv\<lparr>implementations := (implementations sv)[index := Some new_strand_impl]\<rparr> else sv) in
      (index, sv))"

text \<open>The operations destroyed at shutdown.\<close>

definition strand_shutdown :: "strand_service \<Rightarrow> ptr list \<times> strand_service" where
  "strand_shutdown sv =
     (concat (map (\<lambda>impl. case impl of None \<Rightarrow> [] | Some s \<Rightarrow> waiting_queue s @ ready_queue s)
        (implementations sv)),
      sv\<lparr>implementations := map (map_option (\<lambda>s. s\<lparr>waiting_queue := [], ready_queue := []\<rparr>)) (implementations sv)\<rparr>)"

lemma strand_construct_index:
  assumes "length (implementations sv) = num_implementations" "strand_construct impl sv = (i, sv')"
  shows "i < num_implementations" "length (implementations sv') = num_implementations"
    "implementations sv' ! i \<noteq> None"
    "implementations sv ! j \<noteq> None \<Longrightarrow> implementations sv' ! j = implementations sv ! j"
proof -
  have "strand_index impl (salt sv) < num_implementations"
    by (simp add: strand_index_def num_implementations_def Let_def)
  then show "i < num_implementations" "length (implementations sv') = num_implementations"
    "implementations sv' ! i \<noteq> None"
    "implementations sv ! j \<noteq> None \<Longrightarrow> implementations sv' ! j = implementations sv ! j"
    using assms by (auto simp: strand_construct_def Let_def nth_list_update split: if_splits)
qed

subsection \<open>Threads\<close>

text \<open>What a thread is in the middle of, innermost first: running the io_service, in a handler of
  the user, in a handler a \<^verbatim>\<open>dispatch\<close> to a strand runs at once, in the loop of a strand's
  \<^verbatim>\<open>do_complete\<close>, before pushing an operation on the ready queue of a strand it has locked, or
  before posting that strand to the io_service.\<close>

datatype frame = Run | Handler ptr | Dispatched nat | Completing nat | Pushing nat ptr | Posting nat

definition running_in_this_thread :: "nat \<Rightarrow> frame list \<Rightarrow> bool" where
  "running_in_this_thread s st \<longleftrightarrow> Dispatched s \<in> set st \<or> Completing s \<in> set st"

definition can_dispatch :: "frame list \<Rightarrow> bool" where
  "can_dispatch st \<longleftrightarrow> Run \<in> set st"

text \<open>Code of the user runs at the bottom of a thread and in handlers.\<close>

fun user_code :: "frame list \<Rightarrow> bool" where
  "user_code [] = True"
| "user_code (Handler h # st) = True"
| "user_code st = False"

text \<open>What follows the part under the mutex of \<^verbatim>\<open>post\<close> and \<^verbatim>\<open>dispatch\<close>.\<close>

fun follow :: "outcome \<Rightarrow> nat \<Rightarrow> ptr \<Rightarrow> frame list \<Rightarrow> frame list" where
  "follow Enqueued s op st = st"
| "follow Acquired s op st = Pushing s op # st"
| "follow Immediate s op st = Handler op # Dispatched s # st"

text \<open>The threads, the strands, and the strands posted to the io_service. Two histories are kept for
  every strand: the handlers it accepted to run later, and those its \<^verbatim>\<open>do_complete\<close> started.\<close>

record strand_world =
  threads :: "frame list list"
  impls :: "nat \<Rightarrow> strand_impl"
  posted :: "nat list"
  accepted :: "nat \<Rightarrow> ptr list"
  started :: "nat \<Rightarrow> ptr list"

definition strand_init :: "nat \<Rightarrow> strand_world" where
  "strand_init n = \<lparr>threads = replicate n [], impls = (\<lambda>_. new_strand_impl), posted = [],
     accepted = (\<lambda>_. []), started = (\<lambda>_. [])\<rparr>"

definition set_thread :: "nat \<Rightarrow> frame list \<Rightarrow> strand_world \<Rightarrow> strand_world" where
  "set_thread i st w = w\<lparr>threads := (threads w)[i := st]\<rparr>"

definition set_impl :: "nat \<Rightarrow> strand_impl \<Rightarrow> strand_world \<Rightarrow> strand_world" where
  "set_impl s impl w = w\<lparr>impls := (impls w)(s := impl)\<rparr>"

definition accept :: "outcome \<Rightarrow> nat \<Rightarrow> ptr \<Rightarrow> strand_world \<Rightarrow> strand_world" where
  "accept how s op w =
     (if how = Immediate then w else w\<lparr>accepted := (accepted w)(s := accepted w s @ [op])\<rparr>)"

text \<open>The steps of a thread with a given stack. \<open>Throw\<close> is a handler that leaves the strand with an
  exception, which the destructor of \<^verbatim>\<open>on_do_complete_exit\<close> survives; the frame below is the
  run of the io_service, which it leaves next.\<close>

inductive thread_step :: "nat \<Rightarrow> frame list \<Rightarrow> strand_world \<Rightarrow> strand_world \<Rightarrow> bool" where
  Post: "\<lbrakk>user_code st; do_post op (impls w s) = (impl, how)\<rbrakk> \<Longrightarrow>
     thread_step i st w (accept how s op (set_impl s impl (set_thread i (follow how s op st) w)))"
| Dispatch_inside: "\<lbrakk>user_code st; running_in_this_thread s st\<rbrakk> \<Longrightarrow>
     thread_step i st w (set_thread i (Handler op # st) w)"
| Dispatch: "\<lbrakk>user_code st; \<not> running_in_this_thread s st;
     do_dispatch (can_dispatch st) op (impls w s) = (impl, how)\<rbrakk> \<Longrightarrow>
     thread_step i st w (accept how s op (set_impl s impl (set_thread i (follow how s op st) w)))"
| Push: "thread_step i (Pushing s op # st) w
     (set_impl s ((impls w s)\<lparr>ready_queue := ready_queue (impls w s) @ [op]\<rparr>) (set_thread i (Posting s # st) w))"
| Post_strand: "thread_step i (Posting s # st) w ((set_thread i st w)\<lparr>posted := posted w @ [s]\<rparr>)"
| Return: "thread_step i (Handler h # st) w (set_thread i st w)"
| Exit_dispatch: "leave_strand (impls w s) = (impl, again) \<Longrightarrow>
     thread_step i (Dispatched s # st) w (set_impl s impl (set_thread i (if again then Posting s # st else st) w))"
| Next: "ready_queue (impls w s) = op # ops \<Longrightarrow>
     thread_step i (Completing s # st) w
       ((set_impl s ((impls w s)\<lparr>ready_queue := ops\<rparr>) (set_thread i (Handler op # Completing s # st) w))
          \<lparr>started := (started w)(s := started w s @ [op])\<rparr>)"
| Exit_complete: "\<lbrakk>ready_queue (impls w s) = []; leave_strand (impls w s) = (impl, again)\<rbrakk> \<Longrightarrow>
     thread_step i (Completing s # st) w (set_impl s impl (set_thread i (if again then Posting s # st else st) w))"
| Throw: "leave_strand (impls w s) = (impl, again) \<Longrightarrow>
     thread_step i (Handler h # Completing s # st) w
       (set_impl s impl (set_thread i (if again then Posting s # st else st) w))"
| Take: "posted w = xs @ s # ys \<Longrightarrow>
     thread_step i (Run # st) w ((set_thread i (Completing s # Run # st) w)\<lparr>posted := xs @ ys\<rparr>)"
| Take_handler: "thread_step i (Run # st) w (set_thread i (Handler h # Run # st) w)"
| Enter_run: "user_code st \<Longrightarrow> thread_step i st w (set_thread i (Run # st) w)"
| Leave_run: "thread_step i (Run # st) w (set_thread i st w)"

inductive strand_step :: "strand_world \<Rightarrow> strand_world \<Rightarrow> bool" where
  "\<lbrakk>i < length (threads w); thread_step i (threads w ! i) w w'\<rbrakk> \<Longrightarrow> strand_step w w'"

inductive strand_reachable :: "strand_world \<Rightarrow> bool" where
  init: "strand_reachable (strand_init n)"
| step: "strand_reachable w \<Longrightarrow> strand_step w w' \<Longrightarrow> strand_reachable w'"

subsection \<open>The invariant\<close>

text \<open>Who holds the lock of a strand: a frame, or the io_service that has the strand posted.\<close>

fun holds_lock :: "nat \<Rightarrow> frame \<Rightarrow> bool" where
  "holds_lock s (Dispatched s') = (s' = s)"
| "holds_lock s (Completing s') = (s' = s)"
| "holds_lock s (Pushing s' op) = (s' = s)"
| "holds_lock s (Posting s') = (s' = s)"
| "holds_lock s Run = False"
| "holds_lock s (Handler h) = False"

fun pushing :: "nat \<Rightarrow> frame \<Rightarrow> ptr list" where
  "pushing s (Pushing s' op) = (if s' = s then [op] else [])"
| "pushing s f = []"

definition locks :: "nat \<Rightarrow> frame list \<Rightarrow> nat" where
  "locks s st = length (filter (holds_lock s) st)"

definition tokens :: "nat \<Rightarrow> strand_world \<Rightarrow> nat" where
  "tokens s w = count_list (posted w) s + sum_list (map (locks s) (threads w))"

definition pushes :: "nat \<Rightarrow> frame list \<Rightarrow> ptr list" where
  "pushes s st = concat (map (pushing s) st)"

definition pushed :: "nat \<Rightarrow> strand_world \<Rightarrow> ptr list" where
  "pushed s w = concat (map (pushes s) (threads w))"

definition strand_ok :: "nat \<Rightarrow> strand_world \<Rightarrow> bool" where
  "strand_ok s w \<longleftrightarrow> tokens s w = of_bool (locked (impls w s)) \<and>
     (locked (impls w s) \<or> (ready_queue (impls w s) = [] \<and> waiting_queue (impls w s) = [])) \<and>
     accepted w s = started w s @ ready_queue (impls w s) @ pushed s w @ waiting_queue (impls w s)"

lemmas world_defs = set_thread_def set_impl_def accept_def

lemma locks_simps [simp]:
  "locks s [] = 0" "locks s (f # st) = of_bool (holds_lock s f) + locks s st"
  by (simp_all add: locks_def)

lemma pushes_simps [simp]: "pushes s [] = []" "pushes s (f # st) = pushing s f @ pushes s st"
  by (simp_all add: pushes_def)

lemma pushing_locks: "\<not> holds_lock s f \<Longrightarrow> pushing s f = []"
  by (cases f) auto

lemma pushes_locks: "locks s st = 0 \<Longrightarrow> pushes s st = []"
  by (induction st) (auto simp: pushing_locks)

text \<open>Changing one thread: strands it has nothing to do with, and the strand whose only lock it holds.\<close>

lemma tokens_same:
  assumes "i < length (threads w)" "threads w' = (threads w)[i := st']" "posted w' = posted w"
    and "locks s st' = locks s (threads w ! i)" "pushes s st' = pushes s (threads w ! i)"
  shows "tokens s w' = tokens s w" "pushed s w' = pushed s w"
proof -
  obtain as bs where *: "threads w = as @ threads w ! i # bs" "(threads w)[i := st'] = as @ st' # bs"
    using list_split [OF assms(1)] by metis
  show "tokens s w' = tokens s w" "pushed s w' = pushed s w"
    unfolding tokens_def pushed_def assms(2,3) *(2) by (subst *(1), simp add: assms(4,5))+
qed

lemma pushed_same:
  assumes "i < length (threads w)" "threads w' = (threads w)[i := st']" "pushes s st' = pushes s (threads w ! i)"
  shows "pushed s w' = pushed s w"
proof -
  obtain as bs where *: "threads w = as @ threads w ! i # bs" "(threads w)[i := st'] = as @ st' # bs"
    using list_split [OF assms(1)] by metis
  show ?thesis unfolding pushed_def assms(2) *(2) by (subst *(1)) (simp add: assms(3))
qed

lemma tokens_only:
  assumes "i < length (threads w)" "threads w' = (threads w)[i := st']"
    and "tokens s w \<le> locks s (threads w ! i)"
  shows "tokens s w' = count_list (posted w') s + locks s st'" "pushed s w' = pushes s st'"
    "pushed s w = pushes s (threads w ! i)" "count_list (posted w) s = 0"
proof -
  obtain as bs where *: "threads w = as @ threads w ! i # bs" "(threads w)[i := st'] = as @ st' # bs"
    using list_split [OF assms(1)] by metis
  have "sum_list (map (locks s) (threads w)) = 
      sum_list (map (locks s) as) + locks s (threads w ! i) + sum_list (map (locks s) bs)"
    by (subst *(1)) simp
  then have z: "sum_list (map (locks s) as) = 0" "sum_list (map (locks s) bs) = 0" "count_list (posted w) s = 0"
    using assms(3) by (simp_all add: tokens_def)
  then have "\<forall>st \<in> set as. pushes s st = []" "\<forall>st \<in> set bs. pushes s st = []"
    by (auto simp: sum_list_eq_0_iff pushes_locks)
  then have p: "concat (map (pushes s) as) = []" "concat (map (pushes s) bs) = []"
    by (simp_all only: concat_eq_Nil_conv set_map) auto
  show "tokens s w' = count_list (posted w') s + locks s st'" "pushed s w' = pushes s st'"
    unfolding tokens_def pushed_def assms(2) *(2) map_append concat_append list.map concat.simps p
    using z by simp_all
  show "pushed s w = pushes s (threads w ! i)"
    unfolding pushed_def by (subst *(1)) (simp add: p)
  show "count_list (posted w) s = 0" by (rule z)
qed

lemma only_lock:
  assumes "i < length (threads w)" "tokens s w \<le> locks s (threads w ! i)"
  shows "pushed s w = pushes s (threads w ! i)" "count_list (posted w) s = 0"
  using tokens_only(3,4) [OF assms(1), of "set_thread i [] w" "[]" s] assms(2) by (simp_all add: set_thread_def)

lemma locks_le_tokens: "i < length (threads w) \<Longrightarrow> locks s (threads w ! i) \<le> tokens s w"
  by (metis elem_le_sum_list length_map nth_map tokens_def trans_le_add2)

lemma strand_ok_same:
  assumes "strand_ok s w" "i < length (threads w)" "threads w' = (threads w)[i := st']" "posted w' = posted w"
    and "locks s st' = locks s (threads w ! i)" "pushes s st' = pushes s (threads w ! i)"
    and "impls w' s = impls w s" "accepted w' s = accepted w s" "started w' s = started w s"
  shows "strand_ok s w'"
  using assms(1) by (simp add: strand_ok_def tokens_same [OF assms(2-6)] assms(7-9))

text \<open>A thread that holds the lock holds the only one.\<close>

lemma holder:
  assumes "strand_ok s w" "i < length (threads w)" "threads w ! i = f # st" "holds_lock s f"
  shows "locked (impls w s)" "tokens s w \<le> locks s (threads w ! i)" "locks s st = 0" "pushes s st = []"
proof -
  have "1 + locks s st \<le> tokens s w" using locks_le_tokens [OF assms(2), of s] assms(3,4) by simp
  then show "locked (impls w s)" "tokens s w \<le> locks s (threads w ! i)" "locks s st = 0"
    using assms by (auto simp: strand_ok_def of_bool_def split: if_splits)
  then show "pushes s st = []" by (intro pushes_locks)
qed

text \<open>The part under the mutex of \<^verbatim>\<open>post\<close> and \<^verbatim>\<open>dispatch\<close>.\<close>

lemma strand_ok_follow:
  assumes ok: "strand_ok s w" and i: "i < length (threads w)"
    and how: "(if locked (impls w s) then impl = (impls w s)\<lparr>waiting_queue := waiting_queue (impls w s) @ [op]\<rparr> \<and> how = Enqueued
       else impl = (impls w s)\<lparr>locked := True\<rparr> \<and> how \<noteq> Enqueued)"
  shows "strand_ok s (accept how s op (set_impl s impl (set_thread i (follow how s op (threads w ! i)) w)))"
    (is "strand_ok s ?w")
proof (cases "locked (impls w s)")
  case True
  then have h: "how = Enqueued" "impl = (impls w s)\<lparr>waiting_queue := waiting_queue (impls w s) @ [op]\<rparr>"
    using how by auto
  have "tokens s ?w = tokens s w" "pushed s ?w = pushed s w"
    by (rule tokens_same [OF i, where st' = "threads w ! i"]; simp add: h world_defs)+
  then show ?thesis using ok True by (simp add: strand_ok_def) (simp add: h world_defs)
next
  case False
  then have h: "how \<noteq> Enqueued" "impl = (impls w s)\<lparr>locked := True\<rparr>" using how by auto
  let ?st = "follow how s op (threads w ! i)"
  have t: "tokens s w = 0" and e: "ready_queue (impls w s) = []" "waiting_queue (impls w s) = []"
    using ok False by (auto simp: strand_ok_def)
  then have z: "locks s (threads w ! i) = 0" using locks_le_tokens [OF i, of s] by simp
  have n: "tokens s ?w = count_list (posted ?w) s + locks s ?st" "pushed s ?w = pushes s ?st"
    "pushed s w = pushes s (threads w ! i)" "count_list (posted w) s = 0"
    by (rule tokens_only [OF i, where st' = ?st and w' = ?w]; simp add: world_defs t)+
  show ?thesis
    using ok z n pushes_locks [OF z] e h(1)
    by (cases how) (simp_all add: strand_ok_def, simp_all add: h(2) world_defs)
qed

lemma follow_ok:
  assumes ok: "strand_ok s w" and i: "i < length (threads w)" "st = threads w ! i"
    and how: "(if locked (impls w s') then impl = (impls w s')\<lparr>waiting_queue := waiting_queue (impls w s') @ [op]\<rparr> \<and> how = Enqueued
       else impl = (impls w s')\<lparr>locked := True\<rparr> \<and> how \<noteq> Enqueued)"
  shows "strand_ok s (accept how s' op (set_impl s' impl (set_thread i (follow how s' op st) w)))"
proof (cases "s' = s")
  case True
  then show ?thesis using strand_ok_follow [OF ok i(1)] how unfolding i(2) by blast
next
  case False
  show ?thesis
    by (rule strand_ok_same [OF ok i(1), of _ "follow how s' op st"])
      (use False i in \<open>cases how; simp add: world_defs\<close>)+
qed

lemma leave_ok:
  assumes ok: "strand_ok s w" and i: "i < length (threads w)"
    and st: "threads w ! i = f # st \<or> threads w ! i = Handler h # f # st" "f = Dispatched s' \<or> f = Completing s'"
    and l: "leave_strand (impls w s') = (impl, again)"
  shows "strand_ok s (set_impl s' impl (set_thread i (if again then Posting s' # st else st) w))"
    (is "strand_ok s ?w")
proof (cases "s' = s")
  case True
  let ?st = "if again then Posting s' # st else st"
  have le: "locks s (threads w ! i) \<le> tokens s w" by (rule locks_le_tokens [OF i])
  then have k: "locked (impls w s)" "tokens s w \<le> locks s (threads w ! i)" "locks s st = 0"
    using ok st True by (auto simp: strand_ok_def of_bool_def split: if_splits)
  note p = pushes_locks [OF k(3)]
  have n: "tokens s ?w = count_list (posted ?w) s + locks s ?st" "pushed s ?w = pushes s ?st"
    "pushed s w = pushes s (threads w ! i)" "count_list (posted w) s = 0"
    by (rule tokens_only [OF i, where st' = ?st and w' = ?w]; simp add: world_defs k(2))+
  have "pushes s (threads w ! i) = []" using st p by auto
  then show ?thesis
    using ok k n p l True by (auto simp: strand_ok_def world_defs leave_strand_def Let_def)
next
  case False
  show ?thesis
    by (rule strand_ok_same [OF ok i, of _ "if again then Posting s' # st else st"])
      (use False st in \<open>auto simp: world_defs\<close>)
qed

lemma push_ok:
  assumes ok: "strand_ok s w" and i: "i < length (threads w)" "threads w ! i = Pushing s' op # st"
  shows "strand_ok s (set_impl s' ((impls w s')\<lparr>ready_queue := ready_queue (impls w s') @ [op]\<rparr>)
    (set_thread i (Posting s' # st) w))" (is "strand_ok s ?w")
proof (cases "s' = s")
  case True
  note k = holder [OF ok i, simplified True, simplified]
  have n: "tokens s ?w = count_list (posted ?w) s + locks s (Posting s' # st)"
    "pushed s ?w = pushes s (Posting s' # st)" "pushed s w = pushes s (threads w ! i)" "count_list (posted w) s = 0"
    by (rule tokens_only [OF i(1), where st' = "Posting s' # st" and w' = ?w]; simp add: world_defs k(2))+
  show ?thesis using ok k n True by (simp add: strand_ok_def) (simp add: world_defs i(2))
next
  case False
  show ?thesis
    by (rule strand_ok_same [OF ok i(1), of _ "Posting s' # st"]) (use False i in \<open>simp_all add: world_defs\<close>)
qed

lemma post_strand_ok:
  assumes ok: "strand_ok s w" and i: "i < length (threads w)" "threads w ! i = Posting s' # st"
  shows "strand_ok s ((set_thread i st w)\<lparr>posted := posted w @ [s']\<rparr>)" (is "strand_ok s ?w")
proof -
  have c: "sum_list (map (locks s) (threads ?w)) + locks s (threads w ! i) = sum_list (map (locks s) (threads w)) + locks s st"
    using sum_list_map_update [OF i(1), of "locks s" st] by (simp add: world_defs)
  have "pushed s ?w = pushed s w"
    by (rule pushed_same [OF i(1), of _ st]) (simp_all add: world_defs i(2))
  moreover have "tokens s ?w = tokens s w"
    using c i(2) by (cases "s' = s") (simp_all add: tokens_def world_defs)
  ultimately show ?thesis using ok by (simp add: strand_ok_def) (auto simp: world_defs)
qed

lemma next_ok:
  assumes ok: "strand_ok s w" and i: "i < length (threads w)" "threads w ! i = Completing s' # st"
    and r: "ready_queue (impls w s') = op # ops"
  shows "strand_ok s ((set_impl s' ((impls w s')\<lparr>ready_queue := ops\<rparr>)
    (set_thread i (Handler op # Completing s' # st) w))\<lparr>started := (started w)(s' := started w s' @ [op])\<rparr>)"
    (is "strand_ok s ?w")
proof -
  have n: "tokens s ?w = tokens s w" "pushed s ?w = pushed s w"
    by (rule tokens_same [OF i(1), of _ "Handler op # Completing s' # st"]; simp add: world_defs i(2))+
  show ?thesis
  proof (cases "s' = s")
    case True
    have "pushed s w = []"
      using only_lock(1) [OF i(1) holder(2) [OF ok i]] holder(4) [OF ok i] True by (simp add: i(2))
    then show ?thesis using ok n r True by (simp add: strand_ok_def) (auto simp add: world_defs)
  next
    case False
    then show ?thesis using ok n by (simp add: strand_ok_def) (auto simp: world_defs)
  qed
qed

lemma take_ok:
  assumes ok: "strand_ok s w" and i: "i < length (threads w)" "threads w ! i = Run # st"
    and p: "posted w = xs @ s' # ys"
  shows "strand_ok s ((set_thread i (Completing s' # Run # st) w)\<lparr>posted := xs @ ys\<rparr>)" (is "strand_ok s ?w")
proof -
  have c: "sum_list (map (locks s) (threads ?w)) + locks s st =
      sum_list (map (locks s) (threads w)) + locks s (Completing s' # Run # st)"
    using sum_list_map_update [OF i(1), of "locks s" "Completing s' # Run # st"] by (simp add: world_defs i(2))
  have "pushed s ?w = pushed s w"
    by (rule pushed_same [OF i(1), of _ "Completing s' # Run # st"]) (simp_all add: world_defs i(2))
  moreover have "tokens s ?w = tokens s w"
    using c by (cases "s' = s") (simp_all add: tokens_def world_defs p)
  ultimately show ?thesis using ok by (simp add: strand_ok_def) (auto simp: world_defs)
qed

lemma plain_ok:
  assumes "strand_ok s w" "i < length (threads w)" "locks s st' = locks s (threads w ! i)"
    "pushes s st' = pushes s (threads w ! i)"
  shows "strand_ok s (set_thread i st' w)"
  by (rule strand_ok_same [OF assms(1,2), of _ st']) (simp_all add: assms world_defs)

lemma thread_step_ok:
  assumes "thread_step i st w w'" "st = threads w ! i" "i < length (threads w)" "strand_ok s w"
  shows "strand_ok s w'"
  using assms
proof (induction rule: thread_step.induct)
  case (Post st op w s' impl how i)
  then show ?case by (intro follow_ok) (auto simp: do_post_def split: if_splits)
next
  case (Dispatch st s' op w impl how i)
  then show ?case by (intro follow_ok) (auto simp: do_dispatch_def split: if_splits)
next
  case (Dispatch_inside st s' i op w)
  then show ?case by (intro plain_ok) simp_all
next
  case (Push i s' op st w)
  then show ?case by (intro push_ok) simp_all
next
  case (Post_strand i s' st w)
  then show ?case by (intro post_strand_ok) simp_all
next
  case (Return i h st w)
  then show ?case by (intro plain_ok) (simp_all flip: Return.prems(1))
next
  case (Exit_dispatch w s' impl again i st)
  then show ?case by (intro leave_ok [where f = "Dispatched s'"]) simp_all
next
  case (Next w s' op ops i st)
  then show ?case by (intro next_ok) simp_all
next
  case (Exit_complete w s' impl again i st)
  then show ?case by (intro leave_ok [where f = "Completing s'"]) simp_all
next
  case (Throw w s' impl again i h st)
  then show ?case by (intro leave_ok [where f = "Completing s'" and h = h]) simp_all
next
  case (Take w xs s' ys i st)
  then show ?case by (intro take_ok) simp_all
next
  case (Take_handler i st w h)
  then show ?case by (intro plain_ok) (simp_all flip: Take_handler.prems(1))
next
  case (Enter_run st i w)
  then show ?case by (intro plain_ok) simp_all
next
  case (Leave_run i st w)
  then show ?case by (intro plain_ok) (simp_all flip: Leave_run.prems(1))
qed

lemma strand_ok_init: "strand_ok s (strand_init n)"
proof -
  have "sum_list (map (locks s) (replicate n [])) = 0" "concat (map (pushes s) (replicate n [])) = []"
    by (induction n) simp_all
  then show ?thesis
    by (simp add: strand_ok_def tokens_def pushed_def strand_init_def new_strand_impl_def)
qed

lemma reachable_ok: "strand_reachable w \<Longrightarrow> strand_ok s w"
proof (induction rule: strand_reachable.induct)
  case (step w w')
  then show ?case by (auto elim!: strand_step.cases intro: thread_step_ok)
qed (rule strand_ok_init)

subsection \<open>What a strand promises\<close>

text \<open>
  C18. No two threads are ever in the same strand, and none is while the strand is posted, or
  about to be, elsewhere: handlers run by a strand never run at the same time, and the ready queue,
  which is touched without the mutex, has one user.\<close>

theorem strand_serialises:
  assumes "strand_reachable w" "i < length (threads w)" "running_in_this_thread s (threads w ! i)"
  shows "locks s (threads w ! i) = 1 \<and> count_list (posted w) s = 0 \<and>
    (\<forall>j. (j < length (threads w) \<and> locks s (threads w ! j) \<noteq> 0) = (j = i))"
proof -
  note ok = reachable_ok [OF assms(1), of s]
  have "locks s st \<noteq> 0" if "running_in_this_thread s st" for st
    using that by (force simp: running_in_this_thread_def locks_def filter_empty_conv)
  then have "locks s (threads w ! i) \<noteq> 0" using assms(3) by simp
  then have one: "locks s (threads w ! i) = 1" "tokens s w = 1"
    using locks_le_tokens [OF assms(2), of s] ok by (auto simp: strand_ok_def of_bool_def split: if_splits)
  have c: "count_list (posted w) s = 0"
    using only_lock(2) [OF assms(2), of s] one by simp
  have "locks s (threads w ! j) = 0" if j: "j < length (threads w)" "j \<noteq> i" for j
  proof -
    let ?w = "set_thread i [] w"
    have "locks s (threads ?w ! j) \<le> tokens s ?w"
      by (rule locks_le_tokens) (simp add: set_thread_def j)
    moreover have "tokens s ?w = 0"
      using tokens_only(1) [OF assms(2), of ?w "[]" s] one c by (simp add: set_thread_def)
    ultimately show ?thesis using j by (simp add: set_thread_def)
  qed
  then have "(j < length (threads w) \<and> locks s (threads w ! j) \<noteq> 0) = (j = i)" for j
    using one(1) assms(2) by (cases "j = i") auto
  then show ?thesis using one c by simp
qed

text \<open>
  Handlers given to a strand to be run later are started in the order they were given to it,
  none twice and none left behind: those not started yet follow those that were, and while there
  are any, the strand is locked, by exactly one holder, which is the io_service when no thread is.\<close>

theorem strand_keeps_order:
  assumes "strand_reachable w"
  shows "\<exists>later. accepted w s = started w s @ later \<and>
    (if later = [] then True else locked (impls w s) \<and>
       count_list (posted w) s + sum_list (map (locks s) (threads w)) = 1)"
  using reachable_ok [OF assms, of s]
  by (intro exI [of _ "ready_queue (impls w s) @ pushed s w @ waiting_queue (impls w s)"])
    (auto simp: strand_ok_def tokens_def pushed_def of_bool_def pushes_locks)

subsection \<open>The strand makes progress\<close>

abbreviation strand_steps :: "strand_world \<Rightarrow> strand_world \<Rightarrow> bool" where
  "strand_steps \<equiv> strand_step\<^sup>*\<^sup>*"

lemma strand_stepI:
  "\<lbrakk>i < length (threads w); threads w ! i = st; thread_step i st w w'\<rbrakk> \<Longrightarrow> strand_step w w'"
  using strand_step.intros by blast

text \<open>One thread in the strand runs all that is ready, when the handlers just return.\<close>

lemma drain_ready:
  assumes "i < length (threads w)" "threads w ! i = Completing s # st" "ready_queue (impls w s) = ops"
  shows "strand_steps w
    (w\<lparr>impls := (impls w)(s := (impls w s)\<lparr>ready_queue := []\<rparr>),
       started := (started w)(s := started w s @ ops)\<rparr>)"
  using assms
proof (induction ops arbitrary: w)
  case Nil
  then have "impls w s = (impls w s)\<lparr>ready_queue := []\<rparr>" by simp
  then show ?case by (simp add: fun_upd_idem)
next
  case (Cons op ops)
  let ?w1 = "(set_impl s ((impls w s)\<lparr>ready_queue := ops\<rparr>) (set_thread i (Handler op # Completing s # st) w))
    \<lparr>started := (started w)(s := started w s @ [op])\<rparr>"
  let ?w2 = "set_thread i (Completing s # st) ?w1"
  have "strand_step w ?w1"
    by (rule strand_stepI [OF Cons.prems(1,2)]) (rule thread_step.Next [OF Cons.prems(3)])
  moreover have "strand_step ?w1 ?w2"
  proof (rule strand_stepI)
    show "thread_step i (Handler op # Completing s # st) ?w1 ?w2" by (rule thread_step.Return)
  qed (use Cons.prems(1) in \<open>simp_all add: world_defs\<close>)
  moreover have "?w2 = w\<lparr>impls := (impls w)(s := (impls w s)\<lparr>ready_queue := ops\<rparr>),
      started := (started w)(s := started w s @ [op])\<rparr>"
    using list_update_id [of "threads w" i] unfolding Cons.prems(2) by (simp add: world_defs)
  moreover have "strand_steps ?w2 (w\<lparr>impls := (impls w)(s := (impls w s)\<lparr>ready_queue := []\<rparr>),
      started := (started w)(s := started w s @ op # ops)\<rparr>)"
    using Cons.IH [of ?w2] Cons.prems(1,2) unfolding calculation(3)
    by (simp add: fun_upd_def cong: if_cong)
  ultimately show ?case by (meson converse_rtranclp_into_rtranclp)
qed

text \<open>One round of a posted strand on a thread that runs the io_service.\<close>

lemma strand_round:
  assumes "i < length (threads w)" "threads w ! i = Run # st" "posted w = xs @ s # ys"
  shows "\<exists>w'. strand_steps w w' \<and> threads w' = threads w \<and>
    impls w' = (impls w)(s := (impls w s)\<lparr>ready_queue := waiting_queue (impls w s), waiting_queue := [],
      locked := waiting_queue (impls w s) \<noteq> []\<rparr>) \<and>
    posted w' = xs @ ys @ (if waiting_queue (impls w s) = [] then [] else [s]) \<and>
    accepted w' = accepted w \<and>
    started w' = (started w)(s := started w s @ ready_queue (impls w s))"
proof -
  let ?w1 = "(set_thread i (Completing s # Run # st) w)\<lparr>posted := xs @ ys\<rparr>"
  let ?w2 = "?w1\<lparr>impls := (impls w)(s := (impls w s)\<lparr>ready_queue := []\<rparr>),
    started := (started w)(s := started w s @ ready_queue (impls w s))\<rparr>"
  have 1: "strand_step w ?w1"
    by (rule strand_stepI [OF assms(1,2)]) (rule thread_step.Take [OF assms(3)])
  have 2: "strand_steps ?w1 ?w2"
    using drain_ready [of i ?w1 s "Run # st" "ready_queue (impls w s)"] assms(1) by (simp add: world_defs)
  obtain impl again where l: "leave_strand (impls ?w2 s) = (impl, again)" by force
  let ?w3 = "set_impl s impl (set_thread i (if again then Posting s # Run # st else Run # st) ?w2)"
  have 3: "strand_step ?w2 ?w3"
    by (rule strand_stepI [of i _ "Completing s # Run # st"])
      (use assms(1) thread_step.Exit_complete [OF _ l, of i "Run # st"] in \<open>simp_all add: world_defs\<close>)
  have w3: "again = (waiting_queue (impls w s) \<noteq> [])"
    "impl = (impls w s)\<lparr>ready_queue := waiting_queue (impls w s), waiting_queue := [], locked := again\<rparr>"
    using l by (auto simp: leave_strand_def Let_def)
  have t: "(threads w)[i := Run # st] = threads w" using assms(2) by (metis list_update_id)
  show ?thesis
  proof (cases again)
    case False
    then show ?thesis
      using 1 2 3 w3 t by (intro exI [of _ ?w3]) (simp add: world_defs)
  next
    case True
    let ?w4 = "(set_thread i (Run # st) ?w3)\<lparr>posted := posted ?w3 @ [s]\<rparr>"
    have "strand_step ?w3 ?w4"
      by (rule strand_stepI [of i _ "Posting s # Run # st"])
        (use assms(1) True thread_step.Post_strand [of i s "Run # st" ?w3] in \<open>simp_all add: world_defs\<close>)
    then show ?thesis
      using 1 2 3 w3 t True by (intro exI [of _ ?w4]) (simp add: world_defs)
  qed
qed

text \<open>
  C19. A strand never stalls: from any moment at which no thread is inside it, a thread that runs the
  io_service can bring every handler given to the strand so far to its start, in at most two
  rounds of \<^verbatim>\<open>do_complete\<close>, and leave the strand free, provided the handlers return.\<close>

theorem strand_never_stalls:
  assumes "strand_reachable w" "i < length (threads w)" "threads w ! i = Run # st"
    and "list_all (\<lambda>st. locks s st = 0) (threads w)"
  shows "\<exists>w'. strand_steps w w' \<and> accepted w' = accepted w \<and> started w' s = accepted w s \<and>
    \<not> locked (impls w' s) \<and> threads w' = threads w"
proof -
  have ok: "strand_ok s w" by (rule reachable_ok [OF assms(1)])
  have z: "sum_list (map (locks s) (threads w)) = 0" "pushed s w = []"
    using assms(4) by (auto simp: list_all_iff pushed_def pushes_locks)
  show ?thesis
  proof (cases "locked (impls w s)")
    case False
    then show ?thesis using ok z by (intro exI [of _ w]) (auto simp: strand_ok_def)
  next
    case True
    then have "count_list (posted w) s = 1" using ok z by (simp add: strand_ok_def tokens_def)
    then have "s \<in> set (posted w)" by (metis count_list_0_iff zero_neq_one)
    then obtain xs ys where p: "posted w = xs @ s # ys" by (auto simp: in_set_conv_decomp)
    from strand_round [OF assms(2,3) p] obtain v where v: "strand_steps w v" "threads v = threads w"
      "impls v = (impls w)(s := (impls w s)\<lparr>ready_queue := waiting_queue (impls w s), waiting_queue := [],
        locked := waiting_queue (impls w s) \<noteq> []\<rparr>)"
      "posted v = xs @ ys @ (if waiting_queue (impls w s) = [] then [] else [s])" "accepted v = accepted w"
      "started v = (started w)(s := started w s @ ready_queue (impls w s))" by blast
    show ?thesis
    proof (cases "waiting_queue (impls w s) = []")
      case True
      then show ?thesis using v ok z(2) by (intro exI [of _ v]) (simp add: strand_ok_def)
    next
      case False
      then have "posted v = (xs @ ys) @ s # []" using v(4) by simp
      from strand_round [of i v st, OF _ _ this] assms(2,3) v(2) obtain u where u: "strand_steps v u"
        "threads u = threads v" "accepted u = accepted v" "\<not> locked (impls u s)"
        "started u s = started v s @ ready_queue (impls v s)" by (auto simp: v(3))
      have "strand_steps w u" using v(1) u(1) by (rule rtranclp_trans)
      then show ?thesis using u v ok z(2) by (intro exI [of _ u]) (simp add: strand_ok_def)
    qed
  qed
qed

text \<open>Two threads, one of which runs the io_service while the other has posted two handlers.\<close>

definition sample_world :: strand_world where
  "sample_world = \<lparr>threads = [[Run], []],
     impls = (\<lambda>_. new_strand_impl)(4 := \<lparr>locked = True, waiting_queue = [12], ready_queue = [11]\<rparr>),
     posted = [4], accepted = (\<lambda>_. [])(4 := [11, 12]), started = (\<lambda>_. [])\<rparr>"

lemma sample_world_reachable: "strand_reachable sample_world"
proof -
  define w0 where "w0 = strand_init 2"
  define w1 where "w1 = set_thread 0 [Run] w0"
  define w2 where "w2 = accept Acquired 4 11 (set_impl 4 (new_strand_impl\<lparr>locked := True\<rparr>)
    (set_thread 1 [Pushing 4 11] w1))"
  define w3 where "w3 = set_impl 4 (new_strand_impl\<lparr>locked := True, ready_queue := [11]\<rparr>) (set_thread 1 [Posting 4] w2)"
  define w4 where "w4 = (set_thread 1 [] w3)\<lparr>posted := posted w3 @ [4]\<rparr>"
  define w5 where "w5 = accept Enqueued 4 12 (set_impl 4 (new_strand_impl\<lparr>locked := True, ready_queue := [11],
    waiting_queue := [12]\<rparr>) (set_thread 1 [] w4))"
  note ws = w0_def w1_def w2_def w3_def w4_def w5_def strand_init_def world_defs new_strand_impl_def numeral_2_eq_2
  have 1: "strand_step w0 w1"
    by (rule strand_stepI [of 0 _ "[]"]) (use thread_step.Enter_run [of "[]" 0 w0] in \<open>simp_all add: ws\<close>)
  have 2: "strand_step w1 w2"
    by (rule strand_stepI [of 1 _ "[]"])
      (use thread_step.Post [of "[]" 11 w1 4 "new_strand_impl\<lparr>locked := True\<rparr>" Acquired 1]
        in \<open>simp_all add: ws do_post_def\<close>)
  have 3: "strand_step w2 w3"
    by (rule strand_stepI [of 1 _ "[Pushing 4 11]"])
      (use thread_step.Push [of 1 4 11 "[]" w2] in \<open>simp_all add: ws\<close>)
  have 4: "strand_step w3 w4"
    by (rule strand_stepI [of 1 _ "[Posting 4]"])
      (use thread_step.Post_strand [of 1 4 "[]" w3] in \<open>simp_all add: ws\<close>)
  have 5: "strand_step w4 w5"
    by (rule strand_stepI [of 1 _ "[]"])
      (use thread_step.Post [of "[]" 12 w4 4 "new_strand_impl\<lparr>locked := True, ready_queue := [11],
          waiting_queue := [12]\<rparr>" Enqueued 1] in \<open>simp_all add: ws do_post_def\<close>)
  have "w5 = sample_world" by (auto simp: ws sample_world_def)
  then show ?thesis
    using 1 2 3 4 5 strand_reachable.init [of 2] strand_reachable.step unfolding w0_def by metis
qed

theorem strand_never_stalls_witness:
  "\<exists>w. strand_steps sample_world w \<and> started w 4 = [11, 12]"
  using strand_never_stalls [OF sample_world_reachable, of 0 "[]" 4]
  by (auto simp: sample_world_def)

theorem strand_keeps_order_witness:
  "\<exists>later. accepted sample_world 4 = started sample_world 4 @ later"
  using strand_keeps_order [OF sample_world_reachable, of 4] by blast

theorem strand_serialises_witness:
  "locks 4 (threads (set_thread 0 [Completing 4, Run] sample_world\<lparr>posted := []\<rparr>) ! 0) = 1"
proof -
  let ?w = "(set_thread 0 [Completing 4, Run] sample_world)\<lparr>posted := []\<rparr>"
  have "strand_step sample_world ?w"
    using strand_stepI [of 0 sample_world "[Run]" ?w] thread_step.Take [of sample_world "[]" 4 "[]" 0 "[]"]
    by (simp add: sample_world_def)
  from strand_reachable.step [OF sample_world_reachable this] show ?thesis
    using strand_serialises [of ?w 0 4] by (simp add: world_defs sample_world_def running_in_this_thread_def)
qed

end
