(* ===== verification/Scheduler.thy ===== *)
theory Scheduler
  imports OpQueue
begin

text \<open>
  The scheduler of asio (\<^verbatim>\<open>detail/task_io_service.hpp\<close> and \<^verbatim>\<open>detail/impl/task_io_service.ipp\<close>) with the
  event its threads sleep on (\<^verbatim>\<open>detail/posix_event.hpp\<close>). What the code does while it holds the
  mutex is a function on the state of the scheduler; a thread is the stack of the calls it is in,
  and every critical section, every change of the atomic count of outstanding work and every
  return of a handler or of the reactor is one step, so that threads interleave at those points.
  Signalling after an unlock is taken to be part of the critical section before it. The reactor
  is the number of operations it still has to deliver; what it returns are the states of ready
  descriptors, which complete operations when they are run, and the operations of timers. Left
  out: exceptions that leave a handler, and shutting the service down while threads run it.
\<close>

subsection \<open>The event\<close>

text \<open>The state is twice the number of waiting threads, plus one when the event is signalled.\<close>

definition event_signal :: "nat \<Rightarrow> nat" where
  "event_signal state = (if even state then state + 1 else state)"

definition event_clear :: "nat \<Rightarrow> nat" where
  "event_clear state = state - state mod 2"

text \<open>Which sleeping threads are woken: \<^verbatim>\<open>unlock_and_signal_one\<close> and
  \<^verbatim>\<open>maybe_unlock_and_signal_one\<close> wake one when there is a waiter.\<close>

datatype wake = Nobody | One | Everybody

definition signal_all :: "nat \<Rightarrow> nat \<times> wake" where
  "signal_all state = (event_signal state, Everybody)"

definition signal_one :: "nat \<Rightarrow> nat \<times> wake" where
  "signal_one state =
     (let state = event_signal state in (state, if state > 1 then One else Nobody))"

subsection \<open>The scheduler under its mutex\<close>

text \<open>An operation in the queue: the mark of the task, an operation with a handler, or the state of a
  descriptor that the reactor found ready.\<close>

datatype operation = TaskOp | Op ptr | Descriptor ptr

record scheduler =
  one_thread :: bool
  task :: bool
  task_interrupted :: bool
  outstanding_work :: int
  stopped :: bool
  shutdown :: bool
  s_queue :: "operation list"
  event_state :: nat

definition new_scheduler :: "nat \<Rightarrow> scheduler" where
  "new_scheduler concurrency_hint =
     \<lparr>one_thread = (concurrency_hint = 1), task = False, task_interrupted = True, outstanding_work = 0,
      stopped = False, shutdown = False, s_queue = [], event_state = 0\<rparr>"

definition interrupt_task :: "scheduler \<Rightarrow> scheduler" where
  "interrupt_task s =
     (if \<not> task_interrupted s \<and> task s then s\<lparr>task_interrupted := True\<rparr> else s)"

definition wake_one_thread :: "scheduler \<Rightarrow> scheduler \<times> wake" where
  "wake_one_thread s =
     (let (state, wk) = signal_one (event_state s);
          s = s\<lparr>event_state := state\<rparr> in
      if wk = One then (s, One) else (interrupt_task s, Nobody))"

definition stop_all_threads :: "scheduler \<Rightarrow> scheduler \<times> wake" where
  "stop_all_threads s =
     (let s = s\<lparr>stopped := True\<rparr>;
          (state, wk) = signal_all (event_state s) in
      (interrupt_task (s\<lparr>event_state := state\<rparr>), wk))"

definition init_task :: "scheduler \<Rightarrow> scheduler \<times> wake" where
  "init_task s =
     (if \<not> shutdown s \<and> \<not> task s
      then wake_one_thread (s\<lparr>task := True, s_queue := s_queue s @ [TaskOp]\<rparr>)
      else (s, Nobody))"

definition push_ops :: "ptr list \<Rightarrow> scheduler \<Rightarrow> scheduler" where
  "push_ops ops s = s\<lparr>s_queue := s_queue s @ map Op ops\<rparr>"

text \<open>What a thread does once it has released the mutex: leave, sleep until the event is signalled,
  run the task, which may block, complete an operation or do the work of a descriptor.\<close>

datatype after_unlock = Leave | Sleep | RunTask bool | Complete ptr | Perform ptr

text \<open>An operation taken from the front of the queue.\<close>

definition take_op :: "after_unlock \<Rightarrow> operation list \<Rightarrow> scheduler \<Rightarrow> scheduler \<times> wake \<times> after_unlock" where
  "take_op nx q s =
     (let s = s\<lparr>s_queue := q\<rparr>; more_handlers = q \<noteq> [];
          (s, wk) = (if more_handlers \<and> \<not> one_thread s then wake_one_thread s else (s, Nobody)) in
      (s, wk, nx))"

definition do_run_one :: "scheduler \<Rightarrow> scheduler \<times> wake \<times> after_unlock" where
  "do_run_one s =
     (if stopped s then (s, Nobody, Leave)
      else
        (case s_queue s of
           [] \<Rightarrow> (s\<lparr>event_state := event_clear (event_state s) + 2\<rparr>, Nobody, Sleep)
         | TaskOp # q \<Rightarrow>
             let more_handlers = q \<noteq> [];
                 s = s\<lparr>s_queue := q, task_interrupted := more_handlers\<rparr>;
                 (state, wk) = (if more_handlers \<and> \<not> one_thread s then signal_one (event_state s)
                                else (event_state s, Nobody)) in
             (s\<lparr>event_state := state\<rparr>, wk, RunTask (\<not> more_handlers))
         | Op op # q \<Rightarrow> take_op (Complete op) q s
         | Descriptor d # q \<Rightarrow> take_op (Perform d) q s))"

definition do_poll_one :: "scheduler \<Rightarrow> scheduler \<times> wake \<times> after_unlock" where
  "do_poll_one s =
     (if stopped s then (s, Nobody, Leave)
      else
        (case s_queue s of
           [] \<Rightarrow> (s, Nobody, Leave)
         | TaskOp # q \<Rightarrow> (s\<lparr>s_queue := q\<rparr>, Nobody, RunTask False)
         | Op op # q \<Rightarrow> take_op (Complete op) q s
         | Descriptor d # q \<Rightarrow> take_op (Perform d) q s))"

text \<open>The rest of \<^verbatim>\<open>do_poll_one\<close> after it has run the task.\<close>

definition poll_after_task :: "scheduler \<Rightarrow> scheduler \<times> wake \<times> after_unlock" where
  "poll_after_task s =
     (case s_queue s of
        [] \<Rightarrow> (s, Nobody, Leave)
      | TaskOp # q \<Rightarrow>
          let (state, wk) = signal_one (event_state s) in (s\<lparr>event_state := state\<rparr>, wk, Leave)
      | Op op # q \<Rightarrow> take_op (Complete op) q s
      | Descriptor d # q \<Rightarrow> take_op (Perform d) q s)"

text \<open>\<^verbatim>\<open>task_cleanup\<close>: what the thread gathered goes to the queue, and the task behind it.\<close>

definition task_cleanup :: "nat \<Rightarrow> operation list \<Rightarrow> scheduler \<Rightarrow> scheduler" where
  "task_cleanup private_work private_ops s =
     (let s = (if private_work > 0 then s\<lparr>outstanding_work := outstanding_work s + int private_work\<rparr> else s);
          s = s\<lparr>task_interrupted := True, s_queue := s_queue s @ private_ops\<rparr> in
      s\<lparr>s_queue := s_queue s @ [TaskOp]\<rparr>)"

text \<open>The first part of \<^verbatim>\<open>work_cleanup\<close>; \<open>True\<close> when the work has run out and the service is to be
  stopped.\<close>

definition work_cleanup :: "nat \<Rightarrow> scheduler \<Rightarrow> scheduler \<times> bool" where
  "work_cleanup private_work s =
     (if private_work > 1 then (s\<lparr>outstanding_work := outstanding_work s + (int private_work - 1)\<rparr>, False)
      else if private_work < 1
      then (let n = outstanding_work s - 1 in (s\<lparr>outstanding_work := n\<rparr>, n = 0))
      else (s, False))"

subsection \<open>Threads\<close>

datatype mode = MRun | MRun_one | MPoll | MPoll_one

text \<open>Where a call of \<^verbatim>\<open>run\<close>, \<^verbatim>\<open>run_one\<close>, \<^verbatim>\<open>poll\<close> or \<^verbatim>\<open>poll_one\<close> is: before its first lock, asleep,
  woken but without the mutex, in the task, in a handler, about to do the work of a descriptor,
  past a descriptor for which there was nothing to do, about to stop the service because the
  work has run out, or after a handler, before the next lock.\<close>

datatype pc = Entered | Sleeping | Woken | InTask bool | InHandler ptr | InDescriptor ptr | Nothing_done | Stopping | Unwinding

text \<open>The calls of a thread, innermost first; a \<open>Call\<close> has the outstanding work and the operations that
  are private to it. \<open>Pushing\<close> is a \<^verbatim>\<open>post\<close> about to take the mutex, \<open>StopCall\<close> a \<^verbatim>\<open>stop\<close>.\<close>

datatype io_frame = Call mode nat "ptr list" pc | Pushing "ptr list" | StopCall

fun in_user_code :: "io_frame list \<Rightarrow> bool" where
  "in_user_code [] = True"
| "in_user_code (Call m pw pq (InHandler op) # st) = True"
| "in_user_code st = False"

definition proceed :: "after_unlock \<Rightarrow> mode \<Rightarrow> nat \<Rightarrow> ptr list \<Rightarrow> io_frame list \<Rightarrow> io_frame list" where
  "proceed nx m pw pq st =
     (case nx of
        Leave \<Rightarrow> st
      | Sleep \<Rightarrow> Call m pw pq Sleeping # st
      | RunTask block \<Rightarrow> Call m pw pq (InTask block) # st
      | Complete op \<Rightarrow> Call m pw pq (InHandler op) # st
      | Perform d \<Rightarrow> Call m pw pq (InDescriptor d) # st)"

definition polls :: "mode \<Rightarrow> bool" where
  "polls m \<longleftrightarrow> m = MPoll \<or> m = MPoll_one"

definition loops :: "mode \<Rightarrow> bool" where
  "loops m \<longleftrightarrow> m = MRun \<or> m = MPoll"

definition next_one :: "mode \<Rightarrow> nat \<Rightarrow> ptr list \<Rightarrow> io_frame list \<Rightarrow> scheduler \<Rightarrow> scheduler \<times> wake \<times> io_frame list" where
  "next_one m pw pq st s =
     (let (s, wk, nx) = (if polls m then do_poll_one s else do_run_one s) in (s, wk, proceed nx m pw pq st))"

text \<open>The operations private to the enclosing call of the same service, which a nested poll moves.\<close>

fun take_private :: "io_frame list \<Rightarrow> ptr list \<times> io_frame list" where
  "take_private (Call m pw pq pc # st) = (pq, Call m pw [] pc # st)"
| "take_private (f # st) = (let (ops, st) = take_private st in (ops, f # st))"
| "take_private [] = ([], [])"

text \<open>A critical section: what the innermost call of a thread does from taking the mutex to releasing
  it, with the threads it wakes and the calls the thread is in afterwards.\<close>

fun critical :: "io_frame list \<Rightarrow> scheduler \<Rightarrow> (scheduler \<times> wake \<times> io_frame list) option" where
  "critical (Call m pw pq Entered # st) s =
     (if polls m \<and> one_thread s
      then (let (ops, st) = take_private st in Some (next_one m pw pq st (push_ops ops s)))
      else Some (next_one m pw pq st s))"
| "critical (Call m pw pq Woken # st) s =
     (let s = s\<lparr>event_state := event_state s - 2\<rparr> in
      if odd (event_state s) then Some (next_one m pw pq st s)
      else Some (s\<lparr>event_state := event_state s + 2\<rparr>, Nobody, Call m pw pq Sleeping # st))"
| "critical (Call m pw pq Stopping # st) s =
     (let (s, wk) = stop_all_threads s in Some (s, wk, Call m pw pq Unwinding # st))"
| "critical (Call m pw pq Unwinding # st) s =
     (let s = push_ops pq s in
      if loops m then Some (next_one m pw [] st s) else Some (s, Nobody, st))"
| "critical (Pushing ops # st) s =
     (let (s, wk) = wake_one_thread (push_ops ops s) in Some (s, wk, st))"
| "critical (StopCall # st) s = (let (s, wk) = stop_all_threads s in Some (s, wk, st))"
| "critical _ s = None"

text \<open>The task returns with what the reactor delivers: descriptors, then operations of timers.\<close>

fun task_returns :: "ptr list \<Rightarrow> ptr list \<Rightarrow> io_frame list \<Rightarrow> scheduler \<Rightarrow> (scheduler \<times> wake \<times> io_frame list) option" where
  "task_returns ds ops (Call m pw pq (InTask block) # st) s =
     (let s = task_cleanup pw (map Op pq @ map Descriptor ds @ map Op ops) s;
          (s, wk, nx) = (if polls m then poll_after_task s else do_run_one s) in
      Some (s, wk, proceed nx m 0 [] st))"
| "task_returns ds ops _ s = None"

subsection \<open>The program and its threads\<close>

text \<open>Beside the scheduler and the threads: how many operations the reactor has to deliver, how many
  \<^verbatim>\<open>io_service::work\<close> objects there are, and, as history, the operations given to the scheduler
  and those completed.\<close>

record io_world =
  sched :: scheduler
  stacks :: "io_frame list list"
  reactor_ops :: nat
  works :: nat
  given :: "ptr list"
  completed :: "ptr list"

definition io_init :: "nat \<Rightarrow> nat \<Rightarrow> io_world" where
  "io_init hint n = \<lparr>sched = new_scheduler hint, stacks = replicate n [], reactor_ops = 0, works = 0,
     given = [], completed = []\<rparr>"

fun sleeps :: "io_frame list \<Rightarrow> bool" where
  "sleeps (Call m pw pq Sleeping # st) = True"
| "sleeps st = False"

fun wake_up :: "io_frame list \<Rightarrow> io_frame list" where
  "wake_up (Call m pw pq Sleeping # st) = Call m pw pq Woken # st"
| "wake_up st = st"

text \<open>Waking: one sleeping thread, any, or all of them; nothing when none sleeps.\<close>

definition waken :: "wake \<Rightarrow> nat \<Rightarrow> io_frame list list \<Rightarrow> io_frame list list option" where
  "waken wk j sts =
     (case wk of
        Nobody \<Rightarrow> Some sts
      | Everybody \<Rightarrow> Some (map wake_up sts)
      | One \<Rightarrow> if list_ex sleeps sts
              then (if j < length sts \<and> sleeps (sts ! j) then Some (sts[j := wake_up (sts ! j)]) else None)
              else Some sts)"

definition settle :: "nat \<Rightarrow> nat \<Rightarrow> (scheduler \<times> wake \<times> io_frame list) option \<Rightarrow> io_world \<Rightarrow> io_world option" where
  "settle i j r w =
     (case r of None \<Rightarrow> None
      | Some (s, wk, st) \<Rightarrow>
          (case waken wk j ((stacks w)[i := st]) of None \<Rightarrow> None
           | Some sts \<Rightarrow> Some (w\<lparr>sched := s, stacks := sts\<rparr>)))"

text \<open>What a thread can do next. \<open>Return_task\<close> names the descriptors that are ready, each once, and the
  operations of timers that are due, \<open>Perform_io\<close> the operations a descriptor completes. \<open>Critical\<close>, \<open>Return_task\<close> and \<open>Init\<close> name the thread that is woken if
  one is. Operations are named by those who give them.\<close>

datatype action =
    Critical nat
  | Return_task "ptr list" "ptr list" nat
  | Perform_io "ptr list"
  | Finish
  | Post ptr bool
  | Dispatch ptr
  | Deferred "ptr list"
  | Start_io
  | Work_start
  | Work_finish
  | Call_stop
  | Reset
  | Enter mode
  | Init nat
  | Spurious

definition work_started :: "scheduler \<Rightarrow> scheduler" where
  "work_started s = s\<lparr>outstanding_work := outstanding_work s + 1\<rparr>"

definition work_finished :: "scheduler \<Rightarrow> scheduler \<times> bool" where
  "work_finished s = (let n = outstanding_work s - 1 in (s\<lparr>outstanding_work := n\<rparr>, n = 0))"

fun add_private :: "nat \<Rightarrow> ptr list \<Rightarrow> io_frame list \<Rightarrow> io_frame list" where
  "add_private k ops (Call m pw pq pc # st) = Call m (pw + k) (pq @ ops) pc # st"
| "add_private k ops st = st"

definition post_immediate_completion ::
    "ptr \<Rightarrow> bool \<Rightarrow> io_frame list \<Rightarrow> scheduler \<Rightarrow> scheduler \<times> io_frame list" where
  "post_immediate_completion op is_continuation st s =
     (if (one_thread s \<or> is_continuation) \<and> st \<noteq> [] then (s, add_private 1 [op] st)
      else (work_started s, Pushing [op] # st))"

definition post_deferred_completions ::
    "ptr list \<Rightarrow> io_frame list \<Rightarrow> scheduler \<Rightarrow> scheduler \<times> io_frame list" where
  "post_deferred_completions ops st s =
     (if ops = [] then (s, st)
      else if one_thread s \<and> st \<noteq> [] then (s, add_private 0 ops st)
      else (s, Pushing ops # st))"

text \<open>The work of a descriptor, which completes the operations \<open>ops\<close>: the first is completed at once and
  the rest are posted; when there is none the count of work is raised, because it falls when the
  descriptor is done.\<close>

fun perform_io :: "ptr list \<Rightarrow> io_frame list \<Rightarrow> scheduler \<Rightarrow> (scheduler \<times> io_frame list) option" where
  "perform_io [] (Call m pw pq (InDescriptor d) # st) s = Some (work_started s, Call m pw pq Nothing_done # st)"
| "perform_io (op # ops) (Call m pw pq (InDescriptor d) # st) s =
     Some (post_deferred_completions ops (Call m pw pq (InHandler op) # st) s)"
| "perform_io ops _ s = None"

definition io_do_dispatch :: "ptr \<Rightarrow> io_frame list \<Rightarrow> scheduler \<Rightarrow> scheduler \<times> io_frame list" where
  "io_do_dispatch op st s = (work_started s, Pushing [op] # st)"

definition enter :: "mode \<Rightarrow> io_frame list \<Rightarrow> scheduler \<Rightarrow> io_frame list" where
  "enter m st s = (if outstanding_work s = 0 then StopCall # st else Call m 0 [] Entered # st)"

definition set_stack :: "nat \<Rightarrow> io_frame list \<Rightarrow> io_world \<Rightarrow> io_world" where
  "set_stack i st w = w\<lparr>stacks := (stacks w)[i := st]\<rparr>"

definition io_exec :: "action \<Rightarrow> nat \<Rightarrow> io_world \<Rightarrow> io_world option" where
  "io_exec a i w =
     (let s = sched w; st = stacks w ! i in
      if \<not> i < length (stacks w) then None
      else
        (case a of
           Critical j \<Rightarrow> settle i j (critical st s) w
         | Return_task ds ops j \<Rightarrow>
             if length ops \<le> reactor_ops w \<and> distinct ds
             then map_option (\<lambda>w. w\<lparr>reactor_ops := reactor_ops w - length ops, given := given w @ ops\<rparr>)
                    (settle i j (task_returns ds ops st s) w)
             else None
         | Finish \<Rightarrow>
             (case st of
                Call m pw pq (InHandler op) # st' \<Rightarrow>
                  let (s, stop) = work_cleanup pw s in
                  Some ((set_stack i (Call m 0 pq (if stop then Stopping else Unwinding) # st') w)
                    \<lparr>sched := s, completed := completed w @ [op]\<rparr>)
              | Call m pw pq Nothing_done # st' \<Rightarrow>
                  let (s, stop) = work_cleanup pw s in
                  Some ((set_stack i (Call m 0 pq (if stop then Stopping else Unwinding) # st') w)\<lparr>sched := s\<rparr>)
              | _ \<Rightarrow> None)
         | Perform_io ops \<Rightarrow>
             if length ops \<le> reactor_ops w
             then map_option (\<lambda>(s, st). (set_stack i st w)\<lparr>sched := s, reactor_ops := reactor_ops w - length ops,
                    given := given w @ ops\<rparr>) (perform_io ops st s)
             else None
         | Spurious \<Rightarrow> if sleeps st then Some (set_stack i (wake_up st) w) else None
         | _ \<Rightarrow>
             if \<not> in_user_code st then None
             else
               (case a of
                  Post op cont \<Rightarrow>
                    let (s, st) = post_immediate_completion op cont st s in
                    Some ((set_stack i st w)\<lparr>sched := s, given := given w @ [op]\<rparr>)
                | Dispatch op \<Rightarrow>
                    if st \<noteq> [] then Some w
                    else let (s, st) = io_do_dispatch op st s in
                      Some ((set_stack i st w)\<lparr>sched := s, given := given w @ [op]\<rparr>)
                | Deferred ops \<Rightarrow>
                    if length ops \<le> reactor_ops w
                    then let (s, st) = post_deferred_completions ops st s in
                      Some ((set_stack i st w)\<lparr>sched := s, reactor_ops := reactor_ops w - length ops,
                        given := given w @ ops\<rparr>)
                    else None
                | Start_io \<Rightarrow> Some (w\<lparr>sched := work_started s, reactor_ops := reactor_ops w + 1\<rparr>)
                | Work_start \<Rightarrow> Some (w\<lparr>sched := work_started s, works := works w + 1\<rparr>)
                | Work_finish \<Rightarrow>
                    if works w = 0 then None
                    else let (s, stop) = work_finished s in
                      Some ((set_stack i (if stop then StopCall # st else st) w)\<lparr>sched := s, works := works w - 1\<rparr>)
                | Call_stop \<Rightarrow> Some (set_stack i (StopCall # st) w)
                | Reset \<Rightarrow> Some (w\<lparr>sched := s\<lparr>stopped := False\<rparr>\<rparr>)
                | Enter m \<Rightarrow> Some (set_stack i (enter m st s) w)
                | Init j \<Rightarrow> (let (s, wk) = init_task s in settle i j (Some (s, wk, st)) w)
                | _ \<Rightarrow> None)))"

text \<open>A run in which the calls that threads make are of the modes \<open>M\<close>.\<close>

inductive io_reachable :: "mode set \<Rightarrow> nat \<Rightarrow> io_world \<Rightarrow> bool" for M hint where
  init: "io_reachable M hint (io_init hint n)"
| step: "\<lbrakk>io_reachable M hint w; io_exec a i w = Some w'; \<And>m. a = Enter m \<Longrightarrow> m \<in> M\<rbrakk> \<Longrightarrow> io_reachable M hint w'"

fun io_run :: "(nat \<times> action) list \<Rightarrow> io_world \<Rightarrow> io_world option" where
  "io_run [] w = Some w"
| "io_run ((i, a) # as) w = (case io_exec a i w of None \<Rightarrow> None | Some w \<Rightarrow> io_run as w)"

end
