(* ===== verification/SchedulerSpec.thy ===== *)
theory SchedulerSpec
  imports Scheduler "HOL-Library.Multiset"
begin

text \<open>
  What the scheduler promises about its operations: the kinds of step a thread makes, the operations
  each call has in its hands, and the conservation of operations: none is lost, duplicated or run
  twice, whatever the threads do, and the count of outstanding work is the number of operations not
  yet finished.
\<close>

subsection \<open>The calls of a thread\<close>

fun in_handler :: "io_frame \<Rightarrow> bool" where
  "in_handler (Call m pw pq (InHandler op)) = True"
| "in_handler _ = False"

fun frame_ok :: "mode set \<Rightarrow> io_frame \<Rightarrow> bool" where
  "frame_ok M (Call m pw pq pc) \<longleftrightarrow> m \<in> M \<and>
     (case pc of InHandler op \<Rightarrow> True | Stopping \<Rightarrow> pw = 0 | Unwinding \<Rightarrow> pw = 0 | _ \<Rightarrow> pw = 0 \<and> pq = [])"
| "frame_ok M _ = True"

definition stack_ok :: "mode set \<Rightarrow> io_frame list \<Rightarrow> bool" where
  "stack_ok M st \<longleftrightarrow> list_all (frame_ok M) st \<and> list_all in_handler (tl st)"

lemma stack_ok_Nil [simp]: "stack_ok M []"
  by (simp add: stack_ok_def)

lemma stack_ok_Cons:
  "stack_ok M (f # st) \<longleftrightarrow> frame_ok M f \<and> list_all in_handler st \<and> stack_ok M st"
  by (cases st) (auto simp: stack_ok_def)

lemma in_handlerE:
  "in_handler f \<Longrightarrow> (\<And>m pw pq op. f = Call m pw pq (InHandler op) \<Longrightarrow> P) \<Longrightarrow> P"
  by (auto elim: in_handler.elims)

lemma in_user_code_iff: "in_user_code st \<longleftrightarrow> st = [] \<or> in_handler (hd st)"
  by (cases st) (auto elim: in_handler.elims in_user_code.elims)

text \<open>The operations in the hands of a thread, and the work it has not counted yet.\<close>

fun frame_ops :: "io_frame \<Rightarrow> ptr multiset" where
  "frame_ops (Call m pw pq pc) = mset pq + (case pc of InHandler op \<Rightarrow> {#op#} | _ \<Rightarrow> {#})"
| "frame_ops (Pushing ops) = mset ops"
| "frame_ops StopCall = {#}"

fun frame_work :: "io_frame \<Rightarrow> nat" where
  "frame_work (Call m pw pq pc) = pw"
| "frame_work _ = 0"

definition stack_ops :: "io_frame list \<Rightarrow> ptr multiset" where
  "stack_ops st = sum_list (map frame_ops st)"

definition stack_work :: "io_frame list \<Rightarrow> nat" where
  "stack_work st = sum_list (map frame_work st)"

fun ops_of :: "operation list \<Rightarrow> ptr multiset" where
  "ops_of [] = {#}"
| "ops_of (TaskOp # q) = ops_of q"
| "ops_of (Op op # q) = add_mset op (ops_of q)"
| "ops_of (Descriptor d # q) = ops_of q"

text \<open>Descriptors that had nothing to do have raised the count of work, which falls when they are done.\<close>

fun frame_due :: "io_frame \<Rightarrow> nat" where
  "frame_due (Call m pw pq Nothing_done) = 1"
| "frame_due _ = 0"

definition stack_due :: "io_frame list \<Rightarrow> nat" where
  "stack_due st = sum_list (map frame_due st)"

lemma ops_of_append [simp]: "ops_of (q @ r) = ops_of q + ops_of r"
  by (induction q rule: ops_of.induct) auto

lemma ops_of_map [simp]: "ops_of (map Op ops) = mset ops"
  by (induction ops) auto

lemma ops_of_descriptors [simp]: "ops_of (map Descriptor ds) = {#}"
  by (induction ds) auto

lemma stack_simps [simp]:
  "stack_ops [] = {#}" "stack_ops (f # st) = frame_ops f + stack_ops st"
  "stack_work [] = 0" "stack_work (f # st) = frame_work f + stack_work st"
  "stack_due [] = 0" "stack_due (f # st) = frame_due f + stack_due st"
  by (simp_all add: stack_ops_def stack_work_def stack_due_def)

lemma handlers_due [simp]: "list_all in_handler st \<Longrightarrow> stack_due st = 0"
  by (induction st) (auto elim: in_handlerE)

subsection \<open>Critical sections\<close>

lemmas scheduler_defs = wake_one_thread_def stop_all_threads_def interrupt_task_def signal_one_def
  signal_all_def take_op_def push_ops_def Let_def

lemma wake_one_thread_keeps:
  "wake_one_thread s = (s', wk) \<Longrightarrow> s_queue s' = s_queue s \<and> outstanding_work s' = outstanding_work s \<and>
     one_thread s' = one_thread s \<and> stopped s' = stopped s \<and> task s' = task s"
  by (auto simp: scheduler_defs split: if_splits)

text \<open>What a step of a thread keeps: the operations in the queue and in its hands, together.\<close>

definition keeps_ops :: "scheduler \<Rightarrow> io_frame list \<Rightarrow> scheduler \<Rightarrow> io_frame list \<Rightarrow> bool" where
  "keeps_ops s st s' st' \<longleftrightarrow> ops_of (s_queue s') + stack_ops st' = ops_of (s_queue s) + stack_ops st \<and>
     outstanding_work s' = outstanding_work s \<and> stack_work st' = stack_work st \<and> stack_due st' = stack_due st \<and>
     one_thread s' = one_thread s"

lemma take_op_keeps:
  "take_op nx' q s = (s', wk, nx) \<Longrightarrow> s_queue s' = q \<and> outstanding_work s' = outstanding_work s \<and>
     one_thread s' = one_thread s \<and> stopped s' = stopped s \<and> task s' = task s \<and> nx = nx'"
  by (auto simp: take_op_def Let_def split: prod.splits if_splits dest!: wake_one_thread_keeps)

lemma next_op_ops:
  assumes "do_run_one s = (s', wk, nx) \<or> do_poll_one s = (s', wk, nx) \<or> poll_after_task s = (s', wk, nx)"
  shows "ops_of (s_queue s') + (case nx of Complete op \<Rightarrow> {#op#} | _ \<Rightarrow> {#}) = ops_of (s_queue s) \<and>
    outstanding_work s' = outstanding_work s \<and> one_thread s' = one_thread s"
  using assms
  by (auto simp: do_run_one_def do_poll_one_def poll_after_task_def Let_def signal_one_def
      split: if_splits list.splits operation.splits prod.splits dest!: take_op_keeps)

lemma proceed_ops:
  "stack_ops (proceed nx m 0 [] st) = (case nx of Complete op \<Rightarrow> {#op#} | _ \<Rightarrow> {#}) + stack_ops st"
  "stack_work (proceed nx m 0 [] st) = stack_work st" "stack_due (proceed nx m 0 [] st) = stack_due st"
  by (simp_all add: proceed_def split: after_unlock.splits)

lemma proceed_ok:
  "m \<in> M \<Longrightarrow> stack_ok M st \<Longrightarrow> list_all in_handler st \<Longrightarrow> stack_ok M (proceed nx m 0 [] st)"
  by (auto simp: proceed_def stack_ok_Cons split: after_unlock.splits)

lemma next_one_keeps:
  assumes "next_one m 0 [] st s = (s', wk, st')"
  shows "keeps_ops s st s' st'"
proof -
  obtain nx where "do_run_one s = (s', wk, nx) \<or> do_poll_one s = (s', wk, nx)" "st' = proceed nx m 0 [] st"
    using assms by (auto simp: next_one_def split: prod.splits if_splits)
  then show ?thesis using next_op_ops [of s s' wk nx] by (auto simp: keeps_ops_def proceed_ops ac_simps)
qed

lemma next_one_ok:
  "next_one m 0 [] st s = (s', wk, st') \<Longrightarrow> m \<in> M \<Longrightarrow> stack_ok M st \<Longrightarrow> list_all in_handler st \<Longrightarrow> stack_ok M st'"
  using proceed_ok by (auto simp: next_one_def split: prod.splits)

lemma take_private_ops:
  "take_private st = (ops, st') \<Longrightarrow> list_all in_handler st \<Longrightarrow>
     mset ops + stack_ops st' = stack_ops st \<and> stack_work st' = stack_work st \<and> stack_due st' = stack_due st \<and>
     list_all in_handler st' \<and> (stack_ok M st \<longrightarrow> stack_ok M st')"
  by (cases st rule: take_private.cases) (auto simp: stack_ok_Cons elim: in_handlerE)

lemma keeps_ops_push:
  "keeps_ops (push_ops ops s) st s' st' \<Longrightarrow> stack_ops st0 = mset ops + stack_ops st \<Longrightarrow>
     stack_work st0 = stack_work st \<Longrightarrow> stack_due st0 = stack_due st \<Longrightarrow> keeps_ops s st0 s' st'"
  by (auto simp: keeps_ops_def push_ops_def ac_simps)

lemma critical_keeps:
  assumes "critical st s = Some (s', wk, st')" "stack_ok M st"
  shows "keeps_ops s st s' st' \<and> stack_ok M st'"
  using assms
proof (induction st s rule: critical.induct)
  case (1 m pw pq st s)
  then have f: "m \<in> M" "pw = 0" "pq = []" "list_all in_handler st" "stack_ok M st" by (simp_all add: stack_ok_Cons)
  show ?case
  proof (cases "polls m \<and> one_thread s")
    case True
    obtain ops st0 where tp: "take_private st = (ops, st0)" by force
    then have n: "next_one m 0 [] st0 (push_ops ops s) = (s', wk, st')" using "1.prems"(1) True f by simp
    note t = take_private_ops [OF tp f(4), of M]
    show ?thesis
      using keeps_ops_push [OF next_one_keeps [OF n]] next_one_ok [OF n f(1)] t f by simp
  next
    case False
    have "critical (Call m pw pq Entered # st) s = Some (next_one m pw pq st s)"
      unfolding critical.simps if_not_P [OF False] ..
    then have n: "next_one m 0 [] st s = (s', wk, st')" using "1.prems"(1) f by simp
    show ?thesis using next_one_keeps [OF n] next_one_ok [OF n f(1)] f by (simp add: keeps_ops_def)
  qed
next
  case (2 m pw pq st s)
  then have f: "m \<in> M" "pw = 0" "pq = []" "list_all in_handler st" "stack_ok M st" by (simp_all add: stack_ok_Cons)
  show ?case
  proof (cases "odd (event_state s - 2)")
    case True
    then have n: "next_one m 0 [] st (s\<lparr>event_state := event_state s - 2\<rparr>) = (s', wk, st')"
      using "2.prems"(1) f by (simp add: Let_def)
    show ?thesis using next_one_keeps [OF n] next_one_ok [OF n f(1)] f by (simp add: keeps_ops_def)
  next
    case False
    then show ?thesis using 2 by (auto simp: Let_def keeps_ops_def stack_ok_Cons)
  qed
next
  case (3 m pw pq st s)
  then show ?case
    by (auto simp: stack_ok_Cons keeps_ops_def scheduler_defs split: prod.splits if_splits)
next
  case (4 m pw pq st s)
  then have f: "m \<in> M" "pw = 0" "list_all in_handler st" "stack_ok M st" by (simp_all add: stack_ok_Cons)
  show ?case
  proof (cases "loops m")
    case True
    then have n: "next_one m 0 [] st (push_ops pq s) = (s', wk, st')" using "4.prems"(1) f by (simp add: Let_def)
    show ?thesis using keeps_ops_push [OF next_one_keeps [OF n]] next_one_ok [OF n f(1)] f by simp
  next
    case False
    then show ?thesis using 4 f by (auto simp: Let_def keeps_ops_def push_ops_def)
  qed
next
  case (5 ops st s)
  then show ?case
    by (auto simp: stack_ok_Cons keeps_ops_def push_ops_def Let_def split: prod.splits dest!: wake_one_thread_keeps)
next
  case (6 st s)
  then show ?case
    by (auto simp: stack_ok_Cons keeps_ops_def scheduler_defs split: prod.splits if_splits)
qed simp_all

lemma task_returns_keeps:
  assumes "task_returns ds ops st s = Some (s', wk, st')" "stack_ok M st"
  shows "keeps_ops (push_ops ops s) st s' st' \<and> stack_ok M st'"
  using assms
proof (induction ds ops st s rule: task_returns.induct)
  case (1 ds ops m pw pq block st s)
  then have f: "m \<in> M" "pw = 0" "pq = []" "list_all in_handler st" "stack_ok M st" by (simp_all add: stack_ok_Cons)
  let ?s = "task_cleanup 0 (map Descriptor ds @ map Op ops) s"
  obtain nx where n: "do_run_one ?s = (s', wk, nx) \<or> poll_after_task ?s = (s', wk, nx)" "st' = proceed nx m 0 [] st"
    using "1.prems"(1) f by (auto simp: Let_def split: prod.splits if_splits)
  have "ops_of (s_queue ?s) = ops_of (s_queue (push_ops ops s))"
    "outstanding_work ?s = outstanding_work s" "one_thread ?s = one_thread s"
    by (simp_all add: task_cleanup_def push_ops_def Let_def)
  then show ?case
    using next_op_ops [of ?s s' wk nx] n proceed_ok f
    by (auto simp: keeps_ops_def proceed_ops push_ops_def ac_simps)
qed simp_all

subsection \<open>Waking\<close>

lemma wake_up_keeps [simp]:
  "stack_ops (wake_up st) = stack_ops st" "stack_work (wake_up st) = stack_work st"
  "stack_due (wake_up st) = stack_due st" "stack_ok M (wake_up st) = stack_ok M st" "wake_up st = [] \<longleftrightarrow> st = []"
  by (cases st rule: wake_up.cases; simp add: stack_ok_Cons)+

lemma wakenE:
  assumes "waken wk j sts = Some sts'"
  obtains ws where "sts' = map2 (\<lambda>b st. if b then wake_up st else st) ws sts" "length ws = length sts"
    "wk = Everybody \<Longrightarrow> ws = replicate (length sts) True"
    "wk = One \<Longrightarrow> list_ex sleeps sts \<Longrightarrow> \<exists>j < length sts. sleeps (sts ! j) \<and> ws ! j"
    "wk = Nobody \<Longrightarrow> ws = replicate (length sts) False"
proof (cases wk)
  case Nobody
  show ?thesis
    by (rule that [of "replicate (length sts) False"])
      (use assms Nobody in \<open>auto simp: waken_def intro: nth_equalityI\<close>)
next
  case One
  show ?thesis
  proof (cases "list_ex sleeps sts")
    case True
    then have j: "j < length sts" "sleeps (sts ! j)" "sts' = sts[j := wake_up (sts ! j)]"
      using assms One by (auto simp: waken_def split: if_splits)
    show ?thesis
      by (rule that [of "(replicate (length sts) False)[j := True]"])
        (use j One in \<open>auto simp: nth_list_update intro!: nth_equalityI\<close>)
  next
    case False
    show ?thesis
      by (rule that [of "replicate (length sts) False"])
        (use assms One False in \<open>auto simp: waken_def intro: nth_equalityI\<close>)
  qed
next
  case Everybody
  show ?thesis
    by (rule that [of "replicate (length sts) True"])
      (use assms Everybody in \<open>auto simp: waken_def intro: nth_equalityI\<close>)
qed

lemma waken_map:
  "(\<And>st. f (wake_up st) = f st) \<Longrightarrow> waken wk j sts = Some sts' \<Longrightarrow> map f sts' = map f sts"
  by (erule wakenE) (auto intro: nth_equalityI)

subsection \<open>Nothing is lost, and the work is counted\<close>

definition pending :: "io_world \<Rightarrow> ptr multiset" where
  "pending w = ops_of (s_queue (sched w)) + sum_list (map stack_ops (stacks w))"

definition private_work :: "io_world \<Rightarrow> nat" where
  "private_work w = sum_list (map stack_work (stacks w))"

definition due_work :: "io_world \<Rightarrow> nat" where
  "due_work w = sum_list (map stack_due (stacks w))"

definition conserved :: "mode set \<Rightarrow> io_world \<Rightarrow> bool" where
  "conserved M w \<longleftrightarrow> mset (given w) = mset (completed w) + pending w \<and>
     outstanding_work (sched w) + int (private_work w) = int (size (pending w) + reactor_ops w + works w + due_work w) \<and>
     list_all (stack_ok M) (stacks w)"

lemma stacks_update:
  assumes "i < length sts"
  shows "sum_list (map stack_ops (sts[i := st])) + stack_ops (sts ! i) = sum_list (map stack_ops sts) + stack_ops st"
    "sum_list (map stack_work (sts[i := st])) + stack_work (sts ! i) = sum_list (map stack_work sts) + stack_work st"
    "sum_list (map stack_due (sts[i := st])) + stack_due (sts ! i) = sum_list (map stack_due sts) + stack_due st"
  using assms by (rule sum_list_map_update)+

text \<open>Steps that end in a critical section, after which operations \<open>ops\<close> were added to the queue.\<close>

lemma settle_conserved:
  assumes c: "conserved M w" and i: "i < length (stacks w)"
    and k: "keeps_ops (push_ops ops (sched w)) (stacks w ! i) s' st'" "stack_ok M st'"
    and w: "waken wk j ((stacks w)[i := st']) = Some sts"
  shows "mset (given w @ ops) = mset (completed w) + pending (w\<lparr>sched := s', stacks := sts\<rparr>)"
    "outstanding_work s' + int (private_work (w\<lparr>sched := s', stacks := sts\<rparr>)) + int (length ops) =
      int (size (pending (w\<lparr>sched := s', stacks := sts\<rparr>)) + reactor_ops w + works w + due_work (w\<lparr>sched := s', stacks := sts\<rparr>))"
    "list_all (stack_ok M) sts"
proof -
  have ops: "map stack_ops sts = map stack_ops ((stacks w)[i := st'])"
    and work: "map stack_work sts = map stack_work ((stacks w)[i := st'])"
    and due: "map stack_due sts = map stack_due ((stacks w)[i := st'])"
    and ok: "map (stack_ok M) sts = map (stack_ok M) ((stacks w)[i := st'])"
    using waken_map [OF _ w, of stack_ops] waken_map [OF _ w, of stack_work] waken_map [OF _ w, of stack_due]
      waken_map [OF _ w, of "stack_ok M"]
    by simp_all
  note u = stacks_update [OF i, of st']
  have p: "pending (w\<lparr>sched := s', stacks := sts\<rparr>) = pending w + mset ops"
  proof -
    have "pending (w\<lparr>sched := s', stacks := sts\<rparr>) + stack_ops (stacks w ! i) =
        ops_of (s_queue s') + stack_ops st' + sum_list (map stack_ops (stacks w))"
      unfolding pending_def using u(1) by (simp add: ops ac_simps)
    also have "\<dots> = pending w + mset ops + stack_ops (stacks w ! i)"
      using k(1) by (simp add: keeps_ops_def push_ops_def pending_def ac_simps)
    finally show ?thesis by simp
  qed
  have q: "private_work (w\<lparr>sched := s', stacks := sts\<rparr>) = private_work w" "outstanding_work s' = outstanding_work (sched w)"
    "due_work (w\<lparr>sched := s', stacks := sts\<rparr>) = due_work w"
    using u(2,3) k(1) by (simp_all add: private_work_def due_work_def work due keeps_ops_def push_ops_def)
  show "mset (given w @ ops) = mset (completed w) + pending (w\<lparr>sched := s', stacks := sts\<rparr>)"
    using c by (simp add: conserved_def p)
  show "outstanding_work s' + int (private_work (w\<lparr>sched := s', stacks := sts\<rparr>)) + int (length ops) =
      int (size (pending (w\<lparr>sched := s', stacks := sts\<rparr>)) + reactor_ops w + works w + due_work (w\<lparr>sched := s', stacks := sts\<rparr>))"
    using c by (simp add: conserved_def p q)
  have "list_all (stack_ok M) ((stacks w)[i := st'])"
    using c k(2) set_update_subset_insert [of "stacks w" i st'] by (auto simp: conserved_def list_all_iff)
  then show "list_all (stack_ok M) sts" using ok by (metis list.pred_map comp_id list_all_length length_map nth_map)
qed

text \<open>Steps of user code and the ends of handlers: one stack changes, nobody is woken.\<close>

lemma stack_conserved:
  assumes c: "conserved M w" and i: "i < length (stacks w)" and ok: "stack_ok M st'"
    and q: "s_queue s' = s_queue (sched w)"
    and ops: "stack_ops st' + mset done = stack_ops (stacks w ! i) + mset new"
    and work: "outstanding_work s' + int (stack_work st') + int (length done) + int rs + int ws + int (stack_due (stacks w ! i)) =
      outstanding_work (sched w) + int (stack_work (stacks w ! i)) + int (length new) + int rs' + int ws' + int (stack_due st')"
    and cnt: "rs + reactor_ops w' = rs' + reactor_ops w" "ws + works w' = ws' + works w"
    and w': "sched w' = s'" "stacks w' = (stacks w)[i := st']" "given w' = given w @ new" "completed w' = completed w @ done"
  shows "conserved M w'"
proof -
  note u = stacks_update [OF i, of st']
  have p: "pending w' + mset done = pending w + mset new"
  proof -
    have "pending w' + mset done + stack_ops (stacks w ! i) =
        ops_of (s_queue (sched w)) + (stack_ops st' + mset done) + sum_list (map stack_ops (stacks w))"
      unfolding pending_def w' q using u(1) by (simp add: ac_simps)
    then show ?thesis unfolding ops by (simp add: pending_def ac_simps)
  qed
  have "mset (given w') = mset (completed w') + pending w'"
    using c p by (simp add: w' conserved_def ac_simps)
  moreover have "size (pending w') + length done = size (pending w) + length new"
    using arg_cong [OF p, of size] by simp
  then have "outstanding_work (sched w') + int (private_work w') = int (size (pending w') + reactor_ops w' + works w' + due_work w')"
    using c work cnt u(2,3) by (simp add: conserved_def w' private_work_def due_work_def)
  moreover have "list_all (stack_ok M) (stacks w')"
    using c ok set_update_subset_insert [of "stacks w" i st'] by (auto simp: w' conserved_def list_all_iff)
  ultimately show ?thesis by (simp add: conserved_def)
qed

lemma work_cleanup_effect:
  "work_cleanup pw s = (s', stop) \<Longrightarrow> s_queue s' = s_queue s \<and>
     outstanding_work s' + 1 = outstanding_work s + int pw"
  by (auto simp: work_cleanup_def Let_def split: if_splits)

lemma stack_ops_user:
  assumes "in_user_code st" "st \<noteq> []" "stack_ok M st"
  shows "stack_ops (add_private k ops st) = stack_ops st + mset ops"
    "stack_work (add_private k ops st) = stack_work st + k" "stack_due (add_private k ops st) = stack_due st"
    "stack_ok M (add_private k ops st)"
  using assms by (auto simp: in_user_code_iff neq_Nil_conv stack_ok_Cons elim!: in_handlerE)

lemma user_stack_ok:
  assumes "in_user_code st" "stack_ok M st" "frame_ok M f"
  shows "stack_ok M (f # st)"
  using assms by (cases st) (auto simp: stack_ok_Cons in_user_code_iff)

lemma conserved_init: "conserved M (io_init hint n)"
proof -
  have "sum_list (map stack_ops (replicate n [])) = {#}" "sum_list (map stack_work (replicate n [])) = 0"
    "sum_list (map stack_due (replicate n [])) = 0"
    by (induction n) auto
  then show ?thesis
    by (simp add: conserved_def pending_def private_work_def due_work_def io_init_def new_scheduler_def list_all_iff)
qed

lemma settleE:
  assumes "settle i j r w = Some w'"
  obtains s wk st sts where "r = Some (s, wk, st)" "waken wk j ((stacks w)[i := st]) = Some sts"
    "w' = w\<lparr>sched := s, stacks := sts\<rparr>"
  using assms by (auto simp: settle_def split: option.splits)

lemma perform_io_keeps:
  assumes "perform_io ops st s = Some (s', st')" "stack_ok M st"
  shows "s_queue s' = s_queue s \<and> stack_ops st' = stack_ops st + mset ops \<and> stack_ok M st' \<and> stack_due st = 0 \<and>
    outstanding_work s' + int (stack_work st') = outstanding_work s + int (stack_work st) + int (stack_due st')"
  using assms
  by (induction ops st s rule: perform_io.induct)
    (auto simp: work_started_def post_deferred_completions_def stack_ok_Cons split: if_splits)

lemma io_exec_conserved:
  assumes c: "conserved M w" and e: "io_exec a i w = Some w'" and m: "\<And>m. a = Enter m \<Longrightarrow> m \<in> M"
  shows "conserved M w'"
proof -
  let ?st = "stacks w ! i" and ?s = "sched w"
  have i: "i < length (stacks w)" using e by (auto simp: io_exec_def Let_def split: if_splits)
  have ok: "stack_ok M ?st" using c i by (simp add: conserved_def list_all_iff)
  note ex = e [unfolded io_exec_def Let_def if_not_P [OF not_not [THEN iffD2, OF i]]]
  show ?thesis
  proof (cases a)
    case (Critical j)
    with ex have "settle i j (critical ?st ?s) w = Some w'" by simp
    then obtain s wk st sts where r: "critical ?st ?s = Some (s, wk, st)"
      "waken wk j ((stacks w)[i := st]) = Some sts" "w' = w\<lparr>sched := s, stacks := sts\<rparr>" by (rule settleE)
    have "keeps_ops (push_ops [] ?s) ?st s st" "stack_ok M st"
      using critical_keeps [OF r(1) ok] by (simp_all add: push_ops_def)
    then show ?thesis using settle_conserved [OF c i _ _ r(2), of "[]"] by (simp add: conserved_def r(3))
  next
    case (Return_task ds ops j)
    with ex obtain w0 where n: "length ops \<le> reactor_ops w" "settle i j (task_returns ds ops ?st ?s) w = Some w0"
      "w' = w0\<lparr>reactor_ops := reactor_ops w0 - length ops, given := given w0 @ ops\<rparr>"
      by (auto split: if_splits)
    from n(2) obtain s wk st sts where r: "task_returns ds ops ?st ?s = Some (s, wk, st)"
      "waken wk j ((stacks w)[i := st]) = Some sts" "w0 = w\<lparr>sched := s, stacks := sts\<rparr>" by (rule settleE)
    have "pending w' = pending w0" "private_work w' = private_work w0" "due_work w' = due_work w0"
      by (simp_all add: n(3) pending_def private_work_def due_work_def)
    then show ?thesis
      using settle_conserved [OF c i conjunct1 [OF task_returns_keeps [OF r(1) ok]]
          conjunct2 [OF task_returns_keeps [OF r(1) ok]] r(2)] n(1)
      by (simp add: conserved_def n(3) r(3) of_nat_diff)
  next
    case (Perform_io ops)
    with ex obtain s st where h: "length ops \<le> reactor_ops w" "perform_io ops ?st ?s = Some (s, st)"
      "w' = (set_stack i st w)\<lparr>sched := s, reactor_ops := reactor_ops w - length ops, given := given w @ ops\<rparr>"
      by (auto split: if_splits)
    have k: "s_queue s = s_queue ?s" "stack_ops st = stack_ops ?st + mset ops" "stack_ok M st" "stack_due ?st = 0"
      "outstanding_work s + int (stack_work st) = outstanding_work ?s + int (stack_work ?st) + int (stack_due st)"
      using perform_io_keeps [OF h(2) ok] by auto
    show ?thesis
      by (rule stack_conserved [OF c i k(3,1), of "[]" ops "length ops" 0 0 0])
        (use h k in \<open>simp_all add: set_stack_def\<close>)
  next
    case Finish
    with ex obtain m pw pq pc st s stop where h: "?st = Call m pw pq pc # st" "work_cleanup pw ?s = (s, stop)"
      "pc = Nothing_done \<and> w' = (set_stack i (Call m 0 pq (if stop then Stopping else Unwinding) # st) w)\<lparr>sched := s\<rparr> \<or>
       (\<exists>op. pc = InHandler op \<and> w' = (set_stack i (Call m 0 pq (if stop then Stopping else Unwinding) # st) w)
          \<lparr>sched := s, completed := completed w @ [op]\<rparr>)"
      by (auto split: list.splits io_frame.splits pc.splits prod.splits)
    from h(3) show ?thesis
    proof (elim disjE exE conjE)
      fix op assume "pc = InHandler op" and w': "w' = (set_stack i (Call m 0 pq (if stop then Stopping else Unwinding) # st) w)
          \<lparr>sched := s, completed := completed w @ [op]\<rparr>"
      then show ?thesis
        by (intro stack_conserved [OF c i, of "Call m 0 pq (if stop then Stopping else Unwinding) # st" s "[op]" "[]" 0 0 0 0])
          (use h(1) ok work_cleanup_effect [OF h(2)] in \<open>auto simp: set_stack_def stack_ok_Cons\<close>)
    next
      assume "pc = Nothing_done" and w': "w' = (set_stack i (Call m 0 pq (if stop then Stopping else Unwinding) # st) w)\<lparr>sched := s\<rparr>"
      then show ?thesis
        by (intro stack_conserved [OF c i, of "Call m 0 pq (if stop then Stopping else Unwinding) # st" s "[]" "[]" 0 0 0 0])
          (use h(1) ok work_cleanup_effect [OF h(2)] in \<open>auto simp: set_stack_def stack_ok_Cons\<close>)
    qed
  next
    case Spurious
    with ex have w': "w' = set_stack i (wake_up ?st) w" by (auto split: if_splits)
    show ?thesis
      by (rule stack_conserved [OF c i, of "wake_up ?st" ?s "[]" "[]" 0 0 0 0]) (use ok in \<open>simp_all add: w' set_stack_def\<close>)
  next
    case (Init j)
    with ex obtain s wk where "in_user_code ?st" "init_task ?s = (s, wk)" "settle i j (Some (s, wk, ?st)) w = Some w'"
      by (auto split: if_splits prod.splits)
    moreover from this obtain sts where r: "waken wk j ((stacks w)[i := ?st]) = Some sts" "w' = w\<lparr>sched := s, stacks := sts\<rparr>"
      by (auto elim: settleE)
    ultimately have "keeps_ops (push_ops [] ?s) ?st s ?st"
      by (auto simp: keeps_ops_def push_ops_def init_task_def split: if_splits dest!: wake_one_thread_keeps)
    then show ?thesis using settle_conserved [OF c i _ ok r(1), of "[]"] by (simp add: conserved_def r(2))
  next
    case (Post op cont)
    with ex have u: "in_user_code ?st" by (auto split: if_splits)
    obtain s st where p: "post_immediate_completion op cont ?st ?s = (s, st)" by force
    with ex u Post have w': "w' = (set_stack i st w)\<lparr>sched := s, given := given w @ [op]\<rparr>" by simp
    show ?thesis
      by (rule stack_conserved [OF c i, of st s "[]" "[op]" 0 0 0 0])
        (use p u ok stack_ops_user [OF u _ ok] user_stack_ok [OF u ok] in
          \<open>auto simp: w' set_stack_def post_immediate_completion_def work_started_def split: if_splits\<close>)
  next
    case (Dispatch op)
    with ex have u: "in_user_code ?st" by (auto split: if_splits)
    show ?thesis
    proof (cases "?st = []")
      case False
      then show ?thesis using ex u Dispatch c by simp
    next
      case True
      with ex u Dispatch have w': "w' = (set_stack i [Pushing [op]] w)\<lparr>sched := work_started ?s, given := given w @ [op]\<rparr>"
        by (simp add: io_do_dispatch_def)
      show ?thesis
        by (rule stack_conserved [OF c i, of "[Pushing [op]]" "work_started ?s" "[]" "[op]" 0 0 0 0])
          (use True in \<open>simp_all add: w' set_stack_def work_started_def stack_ok_def\<close>)
    qed
  next
    case (Deferred ops)
    with ex have u: "in_user_code ?st" "length ops \<le> reactor_ops w" by (auto split: if_splits)
    obtain s st where p: "post_deferred_completions ops ?st ?s = (s, st)" by force
    with ex u Deferred have w': "w' = (set_stack i st w)\<lparr>sched := s, reactor_ops := reactor_ops w - length ops,
        given := given w @ ops\<rparr>" by simp
    show ?thesis
      by (rule stack_conserved [OF c i, of st s "[]" ops "length ops" 0 0 0])
        (use p u ok stack_ops_user [OF u(1) _ ok] user_stack_ok [OF u(1) ok] in
          \<open>auto simp: w' set_stack_def post_deferred_completions_def split: if_splits\<close>)
  next
    case Start_io
    with ex have w': "w' = w\<lparr>sched := work_started ?s, reactor_ops := reactor_ops w + 1\<rparr>" by (auto split: if_splits)
    show ?thesis
      by (rule stack_conserved [OF c i ok, of "work_started ?s" "[]" "[]" 0 0 1 0])
        (simp_all add: w' work_started_def)
  next
    case Work_start
    with ex have w': "w' = w\<lparr>sched := work_started ?s, works := works w + 1\<rparr>" by (auto split: if_splits)
    show ?thesis
      by (rule stack_conserved [OF c i ok, of "work_started ?s" "[]" "[]" 0 0 0 1])
        (simp_all add: w' work_started_def)
  next
    case Work_finish
    with ex obtain s stop where u: "in_user_code ?st" "works w \<noteq> 0" "work_finished ?s = (s, stop)"
      "w' = (set_stack i (if stop then StopCall # ?st else ?st) w)\<lparr>sched := s, works := works w - 1\<rparr>"
      by (auto split: if_splits prod.splits)
    show ?thesis
      by (rule stack_conserved [OF c i, of "if stop then StopCall # ?st else ?st" s "[]" "[]" 0 1 0 0])
        (use u ok user_stack_ok [OF u(1) ok] in \<open>auto simp: set_stack_def work_finished_def Let_def\<close>)
  next
    case Call_stop
    with ex have u: "in_user_code ?st" "w' = set_stack i (StopCall # ?st) w" by (auto split: if_splits)
    show ?thesis
      by (rule stack_conserved [OF c i, of "StopCall # ?st" ?s "[]" "[]" 0 0 0 0])
        (use u ok user_stack_ok [OF u(1) ok] in \<open>simp_all add: set_stack_def\<close>)
  next
    case Reset
    with ex have w': "w' = w\<lparr>sched := ?s\<lparr>stopped := False\<rparr>\<rparr>" by (auto split: if_splits)
    show ?thesis
      by (rule stack_conserved [OF c i ok, of "?s\<lparr>stopped := False\<rparr>" "[]" "[]" 0 0 0 0]) (simp_all add: w')
  next
    case (Enter md)
    with ex have u: "in_user_code ?st" "w' = set_stack i (enter md ?st ?s) w" by (auto split: if_splits)
    show ?thesis
      by (rule stack_conserved [OF c i, of "enter md ?st ?s" ?s "[]" "[]" 0 0 0 0])
        (use u ok user_stack_ok [OF u(1) ok] m Enter in \<open>simp_all add: set_stack_def enter_def\<close>)
  qed
qed

lemma io_reachable_conserved: "io_reachable M hint w \<Longrightarrow> conserved M w"
proof (induction rule: io_reachable.induct)
  case (step w a i w')
  then show ?case using io_exec_conserved by blast
qed (rule conserved_init)

subsection \<open>Runs\<close>

fun modes_in :: "mode set \<Rightarrow> (nat \<times> action) list \<Rightarrow> bool" where
  "modes_in M [] = True"
| "modes_in M ((i, Enter m) # as) = (m \<in> M \<and> modes_in M as)"
| "modes_in M (a # as) = modes_in M as"

lemma io_run_reachable:
  "io_reachable M hint w \<Longrightarrow> io_run as w = Some w' \<Longrightarrow> modes_in M as \<Longrightarrow> io_reachable M hint w'"
proof (induction as arbitrary: w)
  case (Cons ia as)
  obtain i a where ia: "ia = (i, a)" by force
  obtain w1 where w1: "io_exec a i w = Some w1" "io_run as w1 = Some w'"
    using Cons.prems(2) ia by (auto split: option.splits)
  have "modes_in M as" "\<And>m. a = Enter m \<Longrightarrow> m \<in> M" using Cons.prems(3) ia by (cases a; simp)+
  then show ?case using Cons.IH [OF io_reachable.step [OF Cons.prems(1) w1(1)] w1(2)] by blast
qed simp

definition finished_run :: "(nat \<times> action) list" where
  "finished_run = [(0, Post 7 False), (0, Critical 0), (0, Enter MRun), (0, Critical 0), (0, Finish)]"

lemma finished_run_finishes:
  "\<exists>w. io_run finished_run (io_init 2 1) = Some w \<and> io_reachable {MRun} 2 w \<and> outstanding_work (sched w) = 0 \<and>
     given w = [7]"
proof -
  have "case io_run finished_run (io_init 2 1) of None \<Rightarrow> False | Some w \<Rightarrow> outstanding_work (sched w) = 0 \<and> given w = [7]"
    by code_simp
  then obtain w where w: "io_run finished_run (io_init 2 1) = Some w" "outstanding_work (sched w) = 0" "given w = [7]"
    by (auto split: option.splits)
  have "modes_in {MRun} finished_run" by (simp add: finished_run_def)
  then show ?thesis using w io_run_reachable [OF io_reachable.init w(1)] by blast
qed

text \<open>
  C13. No operation is lost and none is completed twice: those given to the scheduler are those
  completed and those still pending, in the queue or in the hands of a thread. The count of
  outstanding work, with what threads have not added to it yet, is the number of operations
  pending, operations in the reactor, work objects, and descriptors that had nothing to do and are
  about to say so.\<close>

theorem no_operation_is_lost:
  assumes "io_reachable M hint w"
  shows "mset (given w) = mset (completed w) + pending w \<and>
    outstanding_work (sched w) + int (private_work w) = int (size (pending w) + reactor_ops w + works w + due_work w)"
  using io_reachable_conserved [OF assms] by (simp add: conserved_def)

theorem no_operation_is_lost_witness:
  "\<exists>w. io_run finished_run (io_init 2 1) = Some w \<and> given w = [7] \<and> mset (given w) = mset (completed w) + pending w \<and>
     outstanding_work (sched w) + int (private_work w) = int (size (pending w) + reactor_ops w + works w + due_work w)"
  using finished_run_finishes no_operation_is_lost by blast

subsection \<open>The kinds of steps\<close>

text \<open>For the other invariants a step is one of these: three that end with threads being woken, the
  end of a handler or descriptor, the work of a descriptor, a spurious wake-up, and what user code
  does.\<close>

definition user_step :: "action \<Rightarrow> scheduler \<Rightarrow> io_frame list \<Rightarrow> scheduler \<Rightarrow> io_frame list \<Rightarrow> bool" where
  "user_step a s st s' st' \<longleftrightarrow> in_user_code st \<and>
     ((\<exists>n. s' = s\<lparr>outstanding_work := n\<rparr>) \<or> s' = s\<lparr>stopped := False\<rparr>) \<and>
     (st' = st \<or> (\<exists>ops. st' = Pushing ops # st) \<or> st' = StopCall # st \<or>
      (\<exists>m. a = Enter m \<and> st' = Call m 0 [] Entered # st) \<or>
      (\<exists>k ops. st' = add_private k ops st \<and> k \<le> length ops))"

lemma io_exec_cases:
  assumes e: "io_exec a i w = Some w'"
  obtains (settle) j s wk st sts ds ops where "i < length (stacks w)"
    "critical (stacks w ! i) (sched w) = Some (s, wk, st) \<or>
     (distinct ds \<and> task_returns ds ops (stacks w ! i) (sched w) = Some (s, wk, st)) \<or>
     (in_user_code (stacks w ! i) \<and> init_task (sched w) = (s, wk) \<and> st = stacks w ! i)"
    "waken wk j ((stacks w)[i := st]) = Some sts" "sched w' = s" "stacks w' = sts"
  | (finish) m pw pq pc st s stop where "i < length (stacks w)" "stacks w ! i = Call m pw pq pc # st"
    "pc = Nothing_done \<or> (\<exists>op. pc = InHandler op)"
    "work_cleanup pw (sched w) = (s, stop)" "sched w' = s"
    "stacks w' = (stacks w)[i := Call m 0 pq (if stop then Stopping else Unwinding) # st]"
  | (perform) ops st where "i < length (stacks w)" "perform_io ops (stacks w ! i) (sched w) = Some (sched w', st)"
    "stacks w' = (stacks w)[i := st]"
  | (spurious) "i < length (stacks w)" "sleeps (stacks w ! i)" "sched w' = sched w"
    "stacks w' = (stacks w)[i := wake_up (stacks w ! i)]"
  | (user) st where "i < length (stacks w)" "user_step a (sched w) (stacks w ! i) (sched w') st"
    "stacks w' = (stacks w)[i := st]"
proof -
  let ?st = "stacks w ! i" and ?s = "sched w"
  have i: "i < length (stacks w)" using e by (auto simp: io_exec_def Let_def split: if_splits)
  note ex = e [unfolded io_exec_def Let_def if_not_P [OF not_not [THEN iffD2, OF i]]]
  note user' = user [OF i, unfolded user_step_def]
  have same: "\<exists>n. ?s = ?s\<lparr>outstanding_work := n\<rparr>" by (rule exI [of _ "outstanding_work ?s"]) simp
  show thesis
  proof (cases a)
    case (Critical j)
    with ex have "settle i j (critical ?st ?s) w = Some w'" by simp
    then show thesis by (rule settleE) (rule settle [OF i]; simp)
  next
    case (Return_task ds ops j)
    with ex obtain w0 where n: "settle i j (task_returns ds ops ?st ?s) w = Some w0" "distinct ds"
      "sched w' = sched w0" "stacks w' = stacks w0" by (auto split: if_splits)
    from n(1) show thesis by (rule settleE) (rule settle [OF i, where ds = ds and ops = ops]; use n in simp)
  next
    case (Perform_io ops)
    with ex obtain s st where "perform_io ops ?st ?s = Some (s, st)" "sched w' = s" "stacks w' = (stacks w)[i := st]"
      by (auto simp: set_stack_def split: if_splits)
    then show thesis by (intro perform [OF i]) auto
  next
    case (Init j)
    with ex obtain s wk where n: "in_user_code ?st" "init_task ?s = (s, wk)" "settle i j (Some (s, wk, ?st)) w = Some w'"
      by (auto split: if_splits prod.splits)
    from n(3) show thesis
      by (rule settleE) (rule settle [OF i, where st = ?st and wk = wk and j = j]; use n in simp)
  next
    case Finish
    with ex show thesis
      by (auto simp: set_stack_def split: list.splits io_frame.splits pc.splits prod.splits intro!: finish [OF i])
  next
    case Spurious
    with ex show thesis by (auto simp: set_stack_def split: if_splits intro!: spurious [OF i])
  next
    case (Post op cont)
    obtain s st where p: "post_immediate_completion op cont ?st ?s = (s, st)" by force
    then have "user_step a ?s ?st s st" if "in_user_code ?st"
      using that same by (fastforce simp: user_step_def post_immediate_completion_def work_started_def split: if_splits)
    then show thesis using ex Post p by (auto simp: set_stack_def split: if_splits intro!: user [OF i])
  next
    case (Dispatch op)
    with ex have u: "in_user_code ?st" by (auto split: if_splits)
    show thesis
    proof (cases "?st = []")
      case True
      with ex u Dispatch have "w' = (set_stack i [Pushing [op]] w)\<lparr>sched := work_started ?s, given := given w @ [op]\<rparr>"
        by (simp add: io_do_dispatch_def)
      then have "sched w' = work_started ?s" "stacks w' = (stacks w)[i := [Pushing [op]]]"
        by (simp_all add: set_stack_def)
      then show thesis using True u by (intro user [OF i]) (auto simp: user_step_def work_started_def)
    next
      case False
      with ex u Dispatch have "w' = w" by simp
      then show thesis using u same by (intro user [OF i, of ?st]) (simp_all add: user_step_def)
    qed
  next
    case (Deferred ops)
    obtain s st where p: "post_deferred_completions ops ?st ?s = (s, st)" by force
    then have "user_step a ?s ?st s st" if "in_user_code ?st"
      using that same by (fastforce simp: user_step_def post_deferred_completions_def split: if_splits)
    then show thesis using ex Deferred p by (auto simp: set_stack_def split: if_splits intro!: user [OF i])
  next
    case Start_io
    then show thesis using ex by (auto simp: work_started_def split: if_splits intro!: user')
  next
    case Work_start
    then show thesis using ex by (auto simp: work_started_def split: if_splits intro!: user')
  next
    case Work_finish
    with ex obtain s stop where u: "in_user_code ?st" "work_finished ?s = (s, stop)"
      "w' = (set_stack i (if stop then StopCall # ?st else ?st) w)\<lparr>sched := s, works := works w - 1\<rparr>"
      by (auto split: if_splits prod.splits)
    show thesis
      by (rule user [OF i, of "if stop then StopCall # ?st else ?st"])
        (use u in \<open>auto simp: user_step_def set_stack_def work_finished_def Let_def\<close>)
  next
    case Call_stop
    with ex have "in_user_code ?st" "w' = set_stack i (StopCall # ?st) w" by (auto split: if_splits)
    then show thesis using same by (intro user [OF i]) (simp_all add: user_step_def set_stack_def)
  next
    case Reset
    then show thesis using ex by (auto split: if_splits intro!: user')
  next
    case (Enter m)
    with ex have "in_user_code ?st" "w' = set_stack i (enter m ?st ?s) w" by (auto split: if_splits)
    then show thesis using same Enter by (intro user [OF i]) (simp_all add: user_step_def set_stack_def enter_def)
  qed
qed

end
