(* ===== verification/SchedulerLive.thy ===== *)
theory SchedulerLive
  imports SchedulerSpec
begin

text \<open>
  When the scheduler rests: it runs out of work only when everything is done, a thread sleeps only
  while some other thread is about to look at what there is to do, and stopping reaches every
  thread. Two runs show where the code falls short of this.
\<close>

subsection \<open>The service runs out of work only when it is done\<close>

text \<open>With more than one thread the private count of a call is covered by its private queue.\<close>

fun lean :: "io_frame \<Rightarrow> bool" where
  "lean (Call m pw pq pc) \<longleftrightarrow> pw \<le> length pq"
| "lean _ = True"

lemma next_one_lean:
  "next_one m 0 [] st s = (s', wk, st') \<Longrightarrow> list_all lean st \<Longrightarrow> list_all lean st'"
  by (auto simp: next_one_def proceed_def split: prod.splits after_unlock.splits)

lemma critical_lean:
  assumes "critical st s = Some (s', wk, st')" "stack_ok M st" "list_all lean st" "\<not> one_thread s"
  shows "list_all lean st'"
  using assms
  by (induction st s rule: critical.induct)
    (auto simp: stack_ok_Cons Let_def split: if_splits prod.splits dest: next_one_lean)

lemma task_returns_lean:
  assumes "task_returns ds ops st s = Some (s', wk, st')" "list_all lean st"
  shows "list_all lean st'"
  using assms
  by (induction ds ops st s rule: task_returns.induct)
    (auto simp: Let_def proceed_def split: if_splits prod.splits after_unlock.splits)

lemma wake_up_lean [simp]: "list_all lean (wake_up st) = list_all lean st"
  by (cases st rule: wake_up.cases) auto

lemma user_step_lean: "user_step a s st s' st' \<Longrightarrow> list_all lean st \<Longrightarrow> list_all lean st'"
  by (cases st rule: in_user_code.cases) (auto simp: user_step_def)

lemma nth_all: "list_all P xs \<Longrightarrow> i < length xs \<Longrightarrow> P (xs ! i)"
  by (simp add: list_all_length)

lemma all_stacks_update:
  "list_all P sts \<Longrightarrow> P st \<Longrightarrow> list_all P (sts[i := st])"
  using set_update_subset_insert [of sts i st] by (auto simp: list_all_iff)

lemma all_stacks_waken:
  assumes "waken wk j sts = Some sts'" "\<And>st. P (wake_up st) = P st" "list_all P sts"
  shows "list_all P sts'"
proof -
  have "map P sts' = map P sts" using waken_map [of P, OF _ assms(1)] assms(2) by blast
  then show ?thesis using assms(3) by (metis list.pred_map comp_id list_all_length length_map nth_map)
qed

lemma user_step_one_thread: "user_step a s st s' st' \<Longrightarrow> one_thread s' = one_thread s"
  by (auto simp: user_step_def)

lemma init_task_one_thread: "init_task s = (s', wk) \<Longrightarrow> one_thread s' = one_thread s"
  by (auto simp: init_task_def split: if_splits dest!: wake_one_thread_keeps)

lemma work_cleanup_same:
  "work_cleanup pw s = (s', stop) \<Longrightarrow> s_queue s' = s_queue s \<and> one_thread s' = one_thread s \<and> task s' = task s \<and>
     stopped s' = stopped s \<and> event_state s' = event_state s \<and> task_interrupted s' = task_interrupted s"
  by (auto simp: work_cleanup_def Let_def split: if_splits)

lemma perform_io_same:
  "perform_io ops st s = Some (s', st') \<Longrightarrow> s_queue s' = s_queue s \<and> one_thread s' = one_thread s \<and> task s' = task s \<and>
     stopped s' = stopped s \<and> event_state s' = event_state s \<and> task_interrupted s' = task_interrupted s"
  by (induction ops st s rule: perform_io.induct)
    (auto simp: work_started_def post_deferred_completions_def split: if_splits)

lemma perform_io_lean: "perform_io ops st s = Some (s', st') \<Longrightarrow> list_all lean st \<Longrightarrow> list_all lean st'"
  by (induction ops st s rule: perform_io.induct) (auto simp: post_deferred_completions_def split: if_splits)

lemma io_reachable_one_thread: "io_reachable M hint w \<Longrightarrow> one_thread (sched w) \<longleftrightarrow> hint = 1"
proof (induction rule: io_reachable.induct)
  case (init n)
  then show ?case by (simp add: io_init_def new_scheduler_def)
next
  case (step w a i w')
  have ok: "list_all (stack_ok M) (stacks w)" using io_reachable_conserved [OF step.hyps(1)] by (simp add: conserved_def)
  from step.hyps(2) show ?case
  proof (cases rule: io_exec_cases)
    case (settle j s wk st sts ds ops)
    have "stack_ok M (stacks w ! i)" using ok settle(1) by (simp add: list_all_iff)
    then have "one_thread s = one_thread (sched w)"
      using settle(2) critical_keeps task_returns_keeps init_task_one_thread by (auto simp: keeps_ops_def push_ops_def)
    then show ?thesis using step.IH settle by simp
  next
    case finish
    then show ?thesis using step.IH work_cleanup_same by simp
  next
    case perform
    then show ?thesis using step.IH perform_io_same by simp
  qed (use step.IH user_step_one_thread in auto)
qed

lemma io_reachable_lean:
  assumes "io_reachable M hint w" "hint \<noteq> 1"
  shows "list_all (list_all lean) (stacks w)"
  using assms
proof (induction rule: io_reachable.induct)
  case (init n)
  then show ?case by (simp add: io_init_def list_all_iff)
next
  case (step w a i w')
  have ok: "list_all (stack_ok M) (stacks w)" using io_reachable_conserved [OF step.hyps(1)] by (simp add: conserved_def)
  have one: "\<not> one_thread (sched w)" using io_reachable_one_thread [OF step.hyps(1)] step.prems by simp
  have IH: "list_all (list_all lean) (stacks w)" using step by simp
  from step.hyps(2) show ?case
  proof (cases rule: io_exec_cases)
    case (settle j s wk st sts ds ops)
    have h: "stack_ok M (stacks w ! i)" "list_all lean (stacks w ! i)" using nth_all [OF ok] nth_all [OF IH] settle(1) by simp_all
    then have "list_all lean st" using settle(2) critical_lean [OF _ h one] task_returns_lean [OF _ h(2)] by auto
    then show ?thesis using all_stacks_waken [OF settle(3), of "list_all lean"] all_stacks_update [OF IH] settle(5) by simp
  next
    case (finish m pw pq pc st s stop)
    have "list_all lean (stacks w ! i)" using nth_all [OF IH] finish(1) by simp
    then show ?thesis using all_stacks_update [OF IH] finish by simp
  next
    case spurious
    have "list_all lean (stacks w ! i)" using nth_all [OF IH] spurious(1) by simp
    then show ?thesis using all_stacks_update [OF IH] spurious by simp
  next
    case (user st)
    have "list_all lean (stacks w ! i)" using nth_all [OF IH] user(1) by simp
    then show ?thesis using all_stacks_update [OF IH] user user_step_lean by metis
  next
    case (perform ops st)
    have "list_all lean (stacks w ! i)" using nth_all [OF IH] perform(1) by simp
    then show ?thesis using all_stacks_update [OF IH] perform perform_io_lean by metis
  qed
qed

lemma lean_work: "stack_ok M st \<Longrightarrow> list_all lean st \<Longrightarrow> stack_work st \<le> size (stack_ops st) \<and>
    (stack_work st = size (stack_ops st) \<longrightarrow> stack_ops st = {#})"
proof (induction st)
  case (Cons f st)
  then have IH: "stack_work st \<le> size (stack_ops st)" "stack_work st = size (stack_ops st) \<longrightarrow> stack_ops st = {#}"
    by (simp_all add: stack_ok_Cons)
  have "frame_work f \<le> size (frame_ops f)" "frame_work f = size (frame_ops f) \<longrightarrow> frame_ops f = {#}"
    using Cons.prems by (auto simp: stack_ok_Cons elim!: frame_ok.elims split: pc.splits)
  then show ?case using IH by auto
qed simp

lemma sum_list_le_eq:
  fixes f g :: "'a \<Rightarrow> nat"
  assumes "\<And>x. x \<in> set xs \<Longrightarrow> f x \<le> g x" "sum_list (map g xs) \<le> sum_list (map f xs)" "x \<in> set xs"
  shows "f x = g x"
  using assms
proof (induction xs)
  case (Cons y xs)
  have "f y \<le> g y" "sum_list (map f xs) \<le> sum_list (map g xs)"
    using Cons.prems(1) by (auto intro: sum_list_mono)
  then have "f y = g y" "sum_list (map g xs) \<le> sum_list (map f xs)" using Cons.prems(2) by simp_all
  then show ?case using Cons by auto
qed simp

lemma private_work_zero:
  assumes "list_all (stack_ok M) sts" "list_all (list_all lean) sts"
    "sum_list (map (\<lambda>st. size (stack_ops st)) sts) \<le> sum_list (map stack_work sts)"
  shows "sum_list (map stack_ops sts) = {#}"
proof -
  have le: "stack_work st \<le> size (stack_ops st) \<and> (stack_work st = size (stack_ops st) \<longrightarrow> stack_ops st = {#})"
    if "st \<in> set sts" for st using that assms(1,2) lean_work by (auto simp: list_all_iff)
  have "stack_ops st = {#}" if "st \<in> set sts" for st
    using sum_list_le_eq [of sts stack_work "\<lambda>st. size (stack_ops st)" st] le assms(3) that by simp
  then show ?thesis by (induction sts) auto
qed

lemma size_sum_list:
  fixes f :: "'a \<Rightarrow> 'b multiset"
  shows "size (sum_list (map f xs)) = sum_list (map (\<lambda>x. size (f x)) xs)"
  by (induction xs) auto

text \<open>
  With more than one thread, when the count of outstanding work is zero everything given has
  been completed, the reactor has nothing to deliver and there is no work object: the service never
  stops for want of work while there is some.\<close>

theorem runs_out_only_when_done:
  assumes "io_reachable M hint w" "hint \<noteq> 1" "outstanding_work (sched w) = 0"
  shows "mset (completed w) = mset (given w) \<and> pending w = {#} \<and>
    reactor_ops w = 0 \<and> works w = 0"
proof -
  have c: "conserved M w" by (rule io_reachable_conserved [OF assms(1)])
  have l: "list_all (list_all lean) (stacks w)" by (rule io_reachable_lean [OF assms(1,2)])
  let ?size = "sum_list (map (\<lambda>st. size (stack_ops st)) (stacks w))"
  have eq: "sum_list (map stack_work (stacks w)) = size (ops_of (s_queue (sched w))) + ?size + reactor_ops w + works w + due_work w"
    using c assms(3) by (simp add: conserved_def pending_def private_work_def size_sum_list)
  then have z: "sum_list (map stack_ops (stacks w)) = {#}"
    using c by (intro private_work_zero [OF _ l, of M]) (simp_all add: conserved_def)
  have "sum_list (map stack_work (stacks w)) \<le> ?size"
    by (rule sum_list_mono) (use c l lean_work in \<open>auto simp: conserved_def list_all_iff\<close>)
  then have "size (ops_of (s_queue (sched w))) + reactor_ops w + works w + due_work w \<le> 0" using eq z size_sum_list [of stack_ops "stacks w"] by simp
  then show ?thesis using c z by (simp add: conserved_def pending_def)
qed

subsection \<open>Where threads are\<close>

text \<open>A thread is where its innermost call is.\<close>

fun top_pc :: "io_frame list \<Rightarrow> pc option" where
  "top_pc (Call m pw pq pc # st) = Some pc"
| "top_pc _ = None"

definition tops :: "io_world \<Rightarrow> pc option list" where
  "tops w = map top_pc (stacks w)"

definition waits :: "pc option \<Rightarrow> bool" where
  "waits p \<longleftrightarrow> p = Some Sleeping \<or> p = Some Woken"

text \<open>About to look at the queue.\<close>

definition eager :: "pc option \<Rightarrow> bool" where
  "eager p \<longleftrightarrow> p = Some Entered \<or> p = Some Unwinding \<or> p = Some (InTask False)"

definition in_task :: "pc option \<Rightarrow> bool" where
  "in_task p \<longleftrightarrow> p = Some (InTask True) \<or> p = Some (InTask False)"

lemmas top_defs = waits_def eager_def in_task_def

lemma in_user_code_top: "in_user_code st \<Longrightarrow> top_pc st = None \<or> (\<exists>op. top_pc st = Some (InHandler op))"
  by (cases st rule: in_user_code.cases) auto

lemma handlers_top: "list_all in_handler st \<Longrightarrow> top_pc st = None \<or> (\<exists>op. top_pc st = Some (InHandler op))"
  by (cases st) (auto elim: in_handler.elims)

lemma sleeps_top: "sleeps st \<longleftrightarrow> top_pc st = Some Sleeping"
  by (cases st rule: sleeps.cases) auto

lemma top_wake_up: "top_pc (wake_up st) = (if top_pc st = Some Sleeping then Some Woken else top_pc st)"
  by (cases st rule: wake_up.cases) auto

text \<open>What waking does to where the threads are.\<close>

lemma waken_nth:
  assumes "waken wk j sts = Some sts'"
  shows "length sts' = length sts"
    "k < length sts \<Longrightarrow> sts' ! k = sts ! k \<or> sts' ! k = wake_up (sts ! k)"
    "wk = Everybody \<Longrightarrow> k < length sts \<Longrightarrow> sts' ! k = wake_up (sts ! k)"
    "wk = One \<Longrightarrow> st \<in> set sts \<Longrightarrow> sleeps st \<Longrightarrow> j < length sts \<and> sleeps (sts ! j) \<and> sts' ! j = wake_up (sts ! j)"
  using assms by (auto simp: waken_def nth_list_update list_ex_iff split: wake.splits if_splits)

lemma waken_tops:
  assumes w: "waken wk j sts = Some sts'"
  shows "map (waits \<circ> top_pc) sts' = map (waits \<circ> top_pc) sts"
    "p \<noteq> Some Sleeping \<Longrightarrow> p \<noteq> Some Woken \<Longrightarrow> p \<in> set (map top_pc sts') \<longleftrightarrow> p \<in> set (map top_pc sts)"
    "wk = Nobody \<Longrightarrow> sts' = sts"
    "wk = Everybody \<Longrightarrow> Some Sleeping \<notin> set (map top_pc sts')"
    "Some Sleeping \<in> set (map top_pc sts') \<Longrightarrow> Some Sleeping \<in> set (map top_pc sts)"
    "Some Woken \<in> set (map top_pc sts) \<Longrightarrow> Some Woken \<in> set (map top_pc sts')"
    "wk = One \<Longrightarrow> Some Sleeping \<in> set (map top_pc sts) \<Longrightarrow> Some Woken \<in> set (map top_pc sts')"
proof -
  note n = waken_nth [OF w]
  show "map (waits \<circ> top_pc) sts' = map (waits \<circ> top_pc) sts"
    by (rule waken_map [OF _ w]) (simp add: waits_def top_wake_up)
  show "p \<in> set (map top_pc sts') \<longleftrightarrow> p \<in> set (map top_pc sts)" if "p \<noteq> Some Sleeping" "p \<noteq> Some Woken"
  proof -
    have "map ((=) p \<circ> top_pc) sts' = map ((=) p \<circ> top_pc) sts"
      by (rule waken_map [OF _ w]) (use that in \<open>auto simp: top_wake_up\<close>)
    then have "set (map ((=) p \<circ> top_pc) sts') = set (map ((=) p \<circ> top_pc) sts)" by metis
    then have "True \<in> ((=) p \<circ> top_pc) ` set sts' \<longleftrightarrow> True \<in> ((=) p \<circ> top_pc) ` set sts" by simp
    then show ?thesis by (auto simp: image_iff)
  qed
  show "wk = Nobody \<Longrightarrow> sts' = sts" using w by (simp add: waken_def)
  show "Some Sleeping \<notin> set (map top_pc sts')" if "wk = Everybody"
  proof -
    have "top_pc (sts' ! k) \<noteq> Some Sleeping" if "k < length sts'" for k
      using n(3) [OF \<open>wk = Everybody\<close>, of k] n(1) that by (simp add: top_wake_up)
    then show ?thesis by (force simp: in_set_conv_nth)
  qed
  show "Some Sleeping \<in> set (map top_pc sts)" if s: "Some Sleeping \<in> set (map top_pc sts')"
  proof -
    obtain k where k: "k < length sts'" "top_pc (sts' ! k) = Some Sleeping" using s by (auto simp: in_set_conv_nth)
    then have "top_pc (sts ! k) = Some Sleeping"
      using n(2) [of k] n(1) by (auto simp: top_wake_up split: if_splits)
    then show ?thesis using k n(1) by (metis length_map nth_map nth_mem)
  qed
  show "Some Woken \<in> set (map top_pc sts')" if s: "Some Woken \<in> set (map top_pc sts)"
  proof -
    obtain k where k: "k < length sts" "top_pc (sts ! k) = Some Woken" using s by (auto simp: in_set_conv_nth)
    then have "top_pc (sts' ! k) = Some Woken" using n(2) [of k] by (auto simp: top_wake_up)
    then show ?thesis using k n(1) by (metis length_map nth_map nth_mem)
  qed
  show "Some Woken \<in> set (map top_pc sts')" if o: "wk = One" and s: "Some Sleeping \<in> set (map top_pc sts)"
  proof -
    obtain st where "st \<in> set sts" "sleeps st" using s by (auto simp: sleeps_top)
    then have "j < length sts" "sleeps (sts ! j)" "sts' ! j = wake_up (sts ! j)" using n(4) [OF o] by blast+
    then have "top_pc (sts' ! j) = Some Woken" "j < length sts'" using n(1) by (simp_all add: top_wake_up sleeps_top)
    then show ?thesis by (metis length_map nth_map nth_mem)
  qed
qed


subsection \<open>Who looks after the queue\<close>

text \<open>When there is something in the queue and a thread waits for it, or is blocked in the task, some
  thread is about to look at the queue, or has been woken with the event signalled, or is about to
  leave the task because it was interrupted.\<close>

definition looked_after :: "scheduler \<Rightarrow> pc option set \<Rightarrow> bool" where
  "looked_after s T \<longleftrightarrow>
     s_queue s \<noteq> [] \<and>
     (Some Sleeping \<in> T \<or> Some Woken \<in> T \<or> (Some (InTask True) \<in> T \<and> \<not> task_interrupted s)) \<longrightarrow>
     (\<exists>p \<in> T. eager p) \<or> (Some Woken \<in> T \<and> odd (event_state s)) \<or>
     (Some (InTask True) \<in> T \<and> task_interrupted s)"

definition waiters :: "io_world \<Rightarrow> nat" where
  "waiters w = length (filter waits (tops w))"

definition halted :: "scheduler \<Rightarrow> pc option set \<Rightarrow> bool" where
  "halted s T \<longleftrightarrow> odd (event_state s) \<and> Some Sleeping \<notin> T \<and> (Some (InTask True) \<in> T \<longrightarrow> task_interrupted s)"

definition attentive :: "bool \<Rightarrow> io_world \<Rightarrow> bool" where
  "attentive D w \<longleftrightarrow>
     event_state (sched w) div 2 = waiters w \<and>
     (TaskOp \<in> set (s_queue (sched w)) \<or> (\<exists>p \<in> set (tops w). in_task p) \<longrightarrow> task (sched w)) \<and>
     (stopped (sched w) \<longrightarrow> halted (sched w) (set (tops w))) \<and>
     (D \<longrightarrow> looked_after (sched w) (set (tops w)))"

lemma halted_looked_after: "halted s T \<Longrightarrow> looked_after s T"
  by (auto simp: halted_def looked_after_def)

text \<open>The state a critical section leaves when it has made sure that someone looks after the queue.\<close>

definition alert :: "scheduler \<Rightarrow> wake \<Rightarrow> pc option \<Rightarrow> bool" where
  "alert s wk p \<longleftrightarrow> s_queue s = [] \<or> eager p \<or>
     (odd (event_state s) \<and> (wk = One \<and> event_state s > 1 \<or> (wk = Everybody \<or> event_state s = 1) \<and> (task s \<longrightarrow> task_interrupted s)))"

definition lands :: "bool \<Rightarrow> scheduler \<Rightarrow> pc option \<Rightarrow> scheduler \<Rightarrow> wake \<Rightarrow> pc option \<Rightarrow> bool" where
  "lands D s p s' wk p' \<longleftrightarrow>
     event_state s' div 2 + of_bool (waits p) = event_state s div 2 + of_bool (waits p') \<and>
     (task s \<longrightarrow> task s') \<and>
     (TaskOp \<in> set (s_queue s') \<or> in_task p' \<longrightarrow> TaskOp \<in> set (s_queue s) \<or> in_task p \<or> task s') \<and>
     (stopped s' \<longrightarrow>
        wk = Everybody \<and> odd (event_state s') \<and> (task s' \<longrightarrow> task_interrupted s') \<and> \<not> waits p' \<and> \<not> in_task p' \<or>
        stopped s \<and> (odd (event_state s) \<longrightarrow> odd (event_state s')) \<and> (task_interrupted s \<longrightarrow> task_interrupted s') \<and>
        \<not> waits p' \<and> \<not> in_task p') \<and>
     (D \<longrightarrow> stopped s' \<or> alert s' wk p')"

lemma lands_trans:
  assumes "lands D s1 None s' wk p'" "event_state s1 div 2 + of_bool (waits p) = event_state s div 2"
    "odd (event_state s) \<Longrightarrow> odd (event_state s1)" "task s1 = task s" "stopped s1 = stopped s"
    "task_interrupted s \<Longrightarrow> task_interrupted s1" "TaskOp \<in> set (s_queue s1) \<Longrightarrow> TaskOp \<in> set (s_queue s) \<or> in_task p"
  shows "lands D s p s' wk p'"
proof -
  have n: "\<not> waits None" "\<not> in_task None" by (simp_all add: waits_def in_task_def)
  show ?thesis
    unfolding lands_def
  proof (intro conjI)
    show "event_state s' div 2 + of_bool (waits p) = event_state s div 2 + of_bool (waits p')"
      using assms(1,2) n(1) by (simp add: lands_def)
    show "task s \<longrightarrow> task s'" using assms(1,4) by (simp add: lands_def)
    show "TaskOp \<in> set (s_queue s') \<or> in_task p' \<longrightarrow> TaskOp \<in> set (s_queue s) \<or> in_task p \<or> task s'"
      using assms(1,7) n(2) by (auto simp: lands_def)
    show "D \<longrightarrow> stopped s' \<or> alert s' wk p'" using assms(1) by (simp add: lands_def)
    show "stopped s' \<longrightarrow>
        wk = Everybody \<and> odd (event_state s') \<and> (task s' \<longrightarrow> task_interrupted s') \<and> \<not> waits p' \<and> \<not> in_task p' \<or>
        stopped s \<and> (odd (event_state s) \<longrightarrow> odd (event_state s')) \<and> (task_interrupted s \<longrightarrow> task_interrupted s') \<and>
        \<not> waits p' \<and> \<not> in_task p'"
      using assms(1,3,5,6) unfolding lands_def by blast
  qed
qed

lemma event_div [simp]:
  "odd n \<Longrightarrow> (n - Suc 0) div 2 = n div 2" "even n \<Longrightarrow> Suc n div 2 = n div 2" "Suc (Suc n) div 2 = Suc (n div 2)"
  by presburger+

lemma event_clear_div [simp]: "event_clear n div 2 = n div 2" "even (event_clear n)"
  by (auto simp: event_clear_def) presburger+

lemma signal_one_alert:
  assumes "signal_one n = (n', wk)"
  shows "n' div 2 = n div 2 \<and> odd n' \<and> (wk = One \<and> n' > 1 \<or> wk = Nobody \<and> n' = 1)"
proof -
  have "n' = event_signal n" "wk = (if n' > 1 then One else Nobody)"
    using assms by (auto simp: signal_one_def Let_def)
  moreover have "event_signal n div 2 = n div 2" "odd (event_signal n)" by (simp_all add: event_signal_def)
  ultimately show ?thesis by (cases "n' > 1") (auto elim: oddE)
qed

lemma wake_one_thread_alert:
  assumes "wake_one_thread s = (s', wk)"
  shows "alert s' wk p \<and> event_state s' div 2 = event_state s div 2 \<and> odd (event_state s') \<and>
    (task_interrupted s \<longrightarrow> task_interrupted s') \<and> wk \<noteq> Everybody"
proof -
  obtain n wk' where sg: "signal_one (event_state s) = (n, wk')" by force
  show ?thesis
    using assms sg signal_one_alert [OF sg] by (auto simp: wake_one_thread_def alert_def interrupt_task_def Let_def split: if_splits)
qed

lemma take_op_lands:
  assumes "take_op nx' q s = (s', wk, nx)" "\<not> waits p" "\<not> in_task p" "set q \<subseteq> set (s_queue s)"
  shows "lands (\<not> one_thread s) s None s' wk p"
proof (cases "q \<noteq> [] \<and> \<not> one_thread s")
  case True
  then have w: "wake_one_thread (s\<lparr>s_queue := q\<rparr>) = (s', wk)"
    using assms(1) by (simp add: take_op_def Let_def split: prod.splits)
  note k = wake_one_thread_keeps [OF w] and al = wake_one_thread_alert [OF w]
  show ?thesis using k al [of p] assms(2-4) by (auto simp: lands_def waits_def in_task_def)
next
  case False
  then have "s' = s\<lparr>s_queue := q\<rparr>" "wk = Nobody"
    using assms(1) by (auto simp: take_op_def Let_def split: prod.splits if_splits)
  then show ?thesis using False assms(2-4) by (auto simp: lands_def alert_def waits_def in_task_def)
qed

lemma wake_one_thread_lands:
  assumes "wake_one_thread s = (s', wk)" "\<not> waits p" "\<not> in_task p"
  shows "lands D s None s' wk p"
  using wake_one_thread_keeps [OF assms(1)] wake_one_thread_alert [OF assms(1), of p] assms(2,3)
  by (auto simp: lands_def waits_def in_task_def)

lemma stop_all_threads_lands:
  assumes "stop_all_threads s = (s', wk)" "\<not> waits p" "\<not> in_task p"
  shows "lands D s None s' wk p"
  using assms by (auto simp: lands_def waits_def in_task_def stop_all_threads_def signal_all_def event_signal_def interrupt_task_def Let_def split: if_splits)

text \<open>A round of \<^verbatim>\<open>do_run_one\<close> or \<^verbatim>\<open>do_poll_one\<close> ends alert, or leaves because the service is stopped.\<close>

lemma do_run_one_lands:
  assumes "do_run_one s = (s', wk, nx)" "p = top_pc (proceed nx m pw pq st)" "top_pc st = None \<or> (\<exists>op. top_pc st = Some (InHandler op))"
  shows "lands (\<not> one_thread s) s None s' wk p"
proof (cases "stopped s")
  case True
  then show ?thesis using assms by (auto simp: do_run_one_def lands_def proceed_def waits_def in_task_def)
next
  case u: False
  show ?thesis
  proof (cases "s_queue s")
    case Nil
    then show ?thesis using assms u by (auto simp: do_run_one_def lands_def proceed_def waits_def in_task_def alert_def)
  next
    case (Cons o' q)
    show ?thesis
    proof (cases o')
      case TaskOp
      obtain n wk' where sg: "signal_one (event_state s) = (n, wk')" by force
      show ?thesis
        using assms u Cons TaskOp sg signal_one_alert [OF sg]
        by (auto simp: do_run_one_def lands_def proceed_def waits_def in_task_def alert_def eager_def Let_def split: if_splits)
    next
      case (Op op)
      then have "take_op (Complete op) q s = (s', wk, nx)" using assms(1) u Cons by (simp add: do_run_one_def)
      moreover from this have "nx = Complete op" using take_op_keeps by blast
      ultimately show ?thesis using assms(2) Cons by (intro take_op_lands) (auto simp: proceed_def waits_def in_task_def)
    next
      case (Descriptor d)
      then have "take_op (Perform d) q s = (s', wk, nx)" using assms(1) u Cons by (simp add: do_run_one_def)
      moreover from this have "nx = Perform d" using take_op_keeps by blast
      ultimately show ?thesis using assms(2) Cons by (intro take_op_lands) (auto simp: proceed_def waits_def in_task_def)
    qed
  qed
qed

lemma do_poll_one_lands:
  assumes "do_poll_one s = (s', wk, nx)" "p = top_pc (proceed nx m pw pq st)" "top_pc st = None \<or> (\<exists>op. top_pc st = Some (InHandler op))"
  shows "lands (\<not> one_thread s) s None s' wk p"
proof (cases "stopped s \<or> s_queue s = []")
  case True
  then have "s' = s" "wk = Nobody" "nx = Leave"
    using assms(1) by (auto simp: do_poll_one_def split: if_splits list.splits)
  then show ?thesis using assms(2,3) True by (auto simp: lands_def proceed_def waits_def in_task_def alert_def)
next
  case u: False
  then obtain o' q where Cons: "s_queue s = o' # q" by (cases "s_queue s") auto
  show ?thesis
  proof (cases o')
    case TaskOp
    then show ?thesis
      using assms u Cons
      by (auto simp: do_poll_one_def lands_def proceed_def waits_def in_task_def alert_def eager_def)
  next
    case (Op op)
    then have "take_op (Complete op) q s = (s', wk, nx)" using assms(1) u Cons by (simp add: do_poll_one_def)
    moreover from this have "nx = Complete op" using take_op_keeps by blast
    ultimately show ?thesis using assms(2) Cons by (intro take_op_lands) (auto simp: proceed_def waits_def in_task_def)
  next
    case (Descriptor d)
    then have "take_op (Perform d) q s = (s', wk, nx)" using assms(1) u Cons by (simp add: do_poll_one_def)
    moreover from this have "nx = Perform d" using take_op_keeps by blast
    ultimately show ?thesis using assms(2) Cons by (intro take_op_lands) (auto simp: proceed_def waits_def in_task_def)
  qed
qed

lemma poll_after_task_lands:
  assumes "poll_after_task s = (s', wk, nx)" "p = top_pc (proceed nx m pw pq st)" "top_pc st = None \<or> (\<exists>op. top_pc st = Some (InHandler op))"
    "task_interrupted s"
  shows "lands (\<not> one_thread s) s None s' wk p"
proof (cases "s_queue s")
  case Nil
  then show ?thesis using assms by (auto simp: poll_after_task_def lands_def proceed_def waits_def in_task_def alert_def)
next
  case (Cons o' q)
  show ?thesis
  proof (cases o')
    case TaskOp
    obtain n wk' where sg: "signal_one (event_state s) = (n, wk')" by force
    show ?thesis
      using assms Cons TaskOp sg signal_one_alert [OF sg]
      by (auto simp: poll_after_task_def lands_def proceed_def waits_def in_task_def alert_def)
  next
    case (Op op)
    then have "take_op (Complete op) q s = (s', wk, nx)" using assms(1) Cons by (simp add: poll_after_task_def)
    moreover from this have "nx = Complete op" using take_op_keeps by blast
    ultimately show ?thesis using assms(2) Cons by (intro take_op_lands) (auto simp: proceed_def waits_def in_task_def)
  next
    case (Descriptor d)
    then have "take_op (Perform d) q s = (s', wk, nx)" using assms(1) Cons by (simp add: poll_after_task_def)
    moreover from this have "nx = Perform d" using take_op_keeps by blast
    ultimately show ?thesis using assms(2) Cons by (intro take_op_lands) (auto simp: proceed_def waits_def in_task_def)
  qed
qed

lemma next_one_lands:
  assumes "next_one m pw pq st s = (s', wk, st')" "list_all in_handler st"
  shows "lands (\<not> one_thread s) s None s' wk (top_pc st')"
  using assms handlers_top [OF assms(2)]
  by (auto simp: next_one_def split: prod.splits if_splits intro: do_run_one_lands do_poll_one_lands)


lemma lands_mono: "lands D s p s' wk p' \<Longrightarrow> (D' \<Longrightarrow> D) \<Longrightarrow> lands D' s p s' wk p'"
  by (auto simp: lands_def)

lemma push_ops_simps [simp]:
  "event_state (push_ops ops s) = event_state s" "task (push_ops ops s) = task s" "stopped (push_ops ops s) = stopped s"
  "task_interrupted (push_ops ops s) = task_interrupted s" "one_thread (push_ops ops s) = one_thread s"
  "TaskOp \<in> set (s_queue (push_ops ops s)) \<longleftrightarrow> TaskOp \<in> set (s_queue s)"
  by (auto simp: push_ops_def)

definition falls_asleep :: "scheduler \<Rightarrow> pc option \<Rightarrow> scheduler \<Rightarrow> wake \<Rightarrow> pc option \<Rightarrow> bool" where
  "falls_asleep s p s' wk p' \<longleftrightarrow> p = Some Woken \<and> p' = Some Sleeping \<and> s' = s \<and> wk = Nobody \<and> even (event_state s)"

lemma critical_lands:
  assumes "critical st s = Some (s', wk, st')" "stack_ok M st" "top_pc st = Some Woken \<Longrightarrow> 2 \<le> event_state s"
    "D \<Longrightarrow> \<not> one_thread s \<and> (\<forall>m \<in> M. loops m)"
  shows "lands D s (top_pc st) s' wk (top_pc st') \<or> falls_asleep s (top_pc st) s' wk (top_pc st')"
  using assms
proof (induction st s rule: critical.induct)
  case (1 m pw pq st s)
  then have f: "m \<in> M" "pw = 0" "pq = []" "list_all in_handler st" "stack_ok M st" by (simp_all add: stack_ok_Cons)
  show ?case
  proof (cases "polls m \<and> one_thread s")
    case True
    obtain ops st0 where tp: "take_private st = (ops, st0)" by force
    then have n: "next_one m 0 [] st0 (push_ops ops s) = (s', wk, st')" using "1.prems"(1) True f by simp
    have "list_all in_handler st0" using take_private_ops [OF tp f(4)] by blast
    then have "lands False (push_ops ops s) None s' wk (top_pc st')"
      using next_one_lands [OF n] by (auto intro: lands_mono)
    then have "lands False s (Some Entered) s' wk (top_pc st')"
      by (rule lands_trans) (simp_all add: waits_def)
    then show ?thesis using True "1.prems"(4) by (auto intro: lands_mono)
  next
    case False
    have "critical (Call m pw pq Entered # st) s = Some (next_one m pw pq st s)"
      unfolding critical.simps if_not_P [OF False] ..
    then have n: "next_one m 0 [] st s = (s', wk, st')" using "1.prems"(1) f by simp
    have "lands D s None s' wk (top_pc st')" using next_one_lands [OF n f(4)] "1.prems"(4) by (auto intro: lands_mono)
    then have "lands D s (Some Entered) s' wk (top_pc st')"
      by (rule lands_trans) (simp_all add: waits_def)
    then show ?thesis by simp
  qed
next
  case (2 m pw pq st s)
  then have f: "m \<in> M" "pw = 0" "pq = []" "list_all in_handler st" "stack_ok M st" by (simp_all add: stack_ok_Cons)
  have e: "2 \<le> event_state s" using "2.prems"(3) by simp
  show ?case
  proof (cases "odd (event_state s - 2)")
    case True
    then have n: "next_one m 0 [] st (s\<lparr>event_state := event_state s - 2\<rparr>) = (s', wk, st')"
      using "2.prems"(1) f by (simp add: Let_def)
    have "lands D (s\<lparr>event_state := event_state s - 2\<rparr>) None s' wk (top_pc st')"
      using next_one_lands [OF n f(4)] "2.prems"(4) by (auto intro: lands_mono)
    then have "lands D s (Some Woken) s' wk (top_pc st')"
      by (rule lands_trans) (use e True in \<open>auto simp: waits_def\<close>)
    then show ?thesis by simp
  next
    case False
    moreover have "event_state s - 2 + 2 = event_state s" using e by simp
    ultimately show ?thesis using "2.prems"(1) e by (auto simp: Let_def falls_asleep_def)
  qed
next
  case (3 m pw pq st s)
  then obtain wk' where "stop_all_threads s = (s', wk)" "top_pc st' = Some Unwinding" by (auto split: prod.splits)
  then have "lands D s None s' wk (top_pc st')" by (intro stop_all_threads_lands) (auto simp: waits_def in_task_def)
  then have "lands D s (Some Stopping) s' wk (top_pc st')" by (rule lands_trans) (simp_all add: waits_def)
  then show ?case by simp
next
  case (4 m pw pq st s)
  then have f: "m \<in> M" "pw = 0" "list_all in_handler st" "stack_ok M st" by (simp_all add: stack_ok_Cons)
  show ?case
  proof (cases "loops m")
    case True
    then have n: "next_one m 0 [] st (push_ops pq s) = (s', wk, st')" using "4.prems"(1) f by (simp add: Let_def)
    have "lands D (push_ops pq s) None s' wk (top_pc st')"
      using next_one_lands [OF n f(3)] "4.prems"(4) by (auto intro: lands_mono)
    then have "lands D s (Some Unwinding) s' wk (top_pc st')" by (rule lands_trans) (simp_all add: waits_def)
    then show ?thesis by simp
  next
    case False
    then have "\<not> D" using "4.prems"(4) f(1) by blast
    then show ?thesis using False 4 handlers_top [OF f(3)] by (auto simp: Let_def lands_def waits_def in_task_def)
  qed
next
  case (5 ops st s)
  then have w: "wake_one_thread (push_ops ops s) = (s', wk)" "st' = st" "list_all in_handler st"
    by (auto simp: stack_ok_Cons Let_def split: prod.splits)
  have "lands D (push_ops ops s) None s' wk (top_pc st')"
    by (rule wake_one_thread_lands [OF w(1)]) (use handlers_top [OF w(3)] w(2) in \<open>auto simp: waits_def in_task_def\<close>)
  then have "lands D s None s' wk (top_pc st')" by (rule lands_trans) (simp_all add: waits_def)
  then show ?case by simp
next
  case (6 st s)
  then have w: "stop_all_threads s = (s', wk)" "st' = st" "list_all in_handler st"
    by (auto simp: stack_ok_Cons Let_def split: prod.splits)
  have "lands D s None s' wk (top_pc st')"
    by (rule stop_all_threads_lands [OF w(1)]) (use handlers_top [OF w(3)] w(2) in \<open>auto simp: waits_def in_task_def\<close>)
  then show ?case by simp
qed simp_all

lemma task_returns_lands:
  assumes "task_returns ds ops st s = Some (s', wk, st')" "stack_ok M st" "D \<Longrightarrow> \<not> one_thread s"
  shows "lands D s (top_pc st) s' wk (top_pc st')"
  using assms
proof (induction ds ops st s rule: task_returns.induct)
  case (1 ds ops m pw pq block st s)
  then have f: "pw = 0" "pq = []" "list_all in_handler st" by (simp_all add: stack_ok_Cons)
  let ?s = "task_cleanup 0 (map Descriptor ds @ map Op ops) s"
  have c: "one_thread ?s = one_thread s" "event_state ?s = event_state s" "task ?s = task s" "stopped ?s = stopped s" "task_interrupted ?s"
    by (simp_all add: task_cleanup_def push_ops_def Let_def)
  obtain nx where n: "do_run_one ?s = (s', wk, nx) \<or> poll_after_task ?s = (s', wk, nx)" "st' = proceed nx m 0 [] st"
    using "1.prems"(1) f by (auto simp: Let_def split: prod.splits if_splits)
  have "lands (\<not> one_thread s) ?s None s' wk (top_pc st')"
    using n do_run_one_lands [of ?s s' wk nx "top_pc st'" m 0 "[]" st] poll_after_task_lands [of ?s s' wk nx "top_pc st'" m 0 "[]" st]
      handlers_top [OF f(3)] c by auto
  then have "lands (\<not> one_thread s) s (Some (InTask block)) s' wk (top_pc st')"
    by (rule lands_trans) (cases block; simp add: c waits_def in_task_def)+
  then show ?case using "1.prems"(3) by (auto intro: lands_mono)
qed simp_all

lemma init_task_lands:
  assumes "init_task s = (s', wk)" "in_user_code st"
  shows "lands D s (top_pc st) s' wk (top_pc st) \<or> (s' = s \<and> wk = Nobody)"
proof (cases "\<not> shutdown s \<and> \<not> task s")
  case True
  then have w: "wake_one_thread (s\<lparr>task := True, s_queue := s_queue s @ [TaskOp]\<rparr>) = (s', wk)"
    using assms(1) by (simp add: init_task_def)
  have p: "\<not> waits (top_pc st)" "\<not> in_task (top_pc st)"
    using in_user_code_top [OF assms(2)] by (auto simp: waits_def in_task_def)
  show ?thesis
    using wake_one_thread_lands [OF w p, of D] wake_one_thread_keeps [OF w] p True
    by (auto simp: lands_def waits_def in_task_def)
qed (use assms in \<open>auto simp: init_task_def\<close>)


subsection \<open>Every step keeps the threads attentive\<close>

lemma waiters_update:
  assumes "i < length sts"
  shows "length (filter waits (map top_pc (sts[i := st]))) + of_bool (waits (top_pc (sts ! i))) =
    length (filter waits (map top_pc sts)) + of_bool (waits (top_pc st))"
proof -
  have "length (filter waits (map top_pc xs)) = sum_list (map (\<lambda>st. of_bool (waits (top_pc st))) xs)" for xs
    by (induction xs) auto
  then show ?thesis using sum_list_map_update [OF assms] by metis
qed

lemma filter_waits_map:
  "map (waits \<circ> top_pc) xs = map (waits \<circ> top_pc) ys \<Longrightarrow>
     length (filter waits (map top_pc xs)) = length (filter waits (map top_pc ys))"
proof (induction xs arbitrary: ys)
  case (Cons x xs)
  then show ?case by (cases ys) auto
qed simp

lemma tops_update:
  assumes "i < length sts"
  shows "top_pc st \<in> set (map top_pc (sts[i := st]))"
    "x \<in> set (map top_pc (sts[i := st])) \<Longrightarrow> x = top_pc st \<or> x \<in> set (map top_pc sts)"
    "x \<in> set (map top_pc sts) \<Longrightarrow> x \<noteq> top_pc (sts ! i) \<Longrightarrow> x \<in> set (map top_pc (sts[i := st]))"
proof -
  show "top_pc st \<in> set (map top_pc (sts[i := st]))"
    using set_update_memI [OF assms, of st] by (auto intro: imageI)
  show "x \<in> set (map top_pc (sts[i := st])) \<Longrightarrow> x = top_pc st \<or> x \<in> set (map top_pc sts)"
    using set_update_subset_insert [of sts i st] by auto
  show "x \<in> set (map top_pc (sts[i := st]))" if x: "x \<in> set (map top_pc sts)" and ne: "x \<noteq> top_pc (sts ! i)"
  proof -
    obtain y where "y \<in> set sts" "x = top_pc y" using x by auto
    then obtain k where k: "k < length sts" "x = top_pc (sts ! k)" by (auto simp: in_set_conv_nth)
    then have "sts[i := st] ! k = sts ! k" using ne by (cases "k = i") auto
    then show ?thesis using k by (metis length_list_update length_map nth_map nth_mem)
  qed
qed

lemma lands_attentive:
  assumes a: "attentive D w" and i: "i < length (stacks w)"
    and l: "lands D (sched w) (top_pc (stacks w ! i)) s' wk (top_pc st')"
    and k: "waken wk j ((stacks w)[i := st']) = Some sts" and w': "sched w' = s'" "stacks w' = sts"
  shows "attentive D w'"
proof -
  let ?p = "top_pc (stacks w ! i)" and ?p' = "top_pc st'" and ?s = "sched w"
  let ?T = "set (tops w)" and ?T1 = "set (map top_pc ((stacks w)[i := st']))" and ?T' = "set (tops w')"
  note u = tops_update [OF i, where st = st', folded tops_def]
  note v = waken_tops [OF k, folded w'(2), folded tops_def]
  have wt: "waiters w' + of_bool (waits ?p) = waiters w + of_bool (waits ?p')"
    using waiters_update [OF i, of st'] filter_waits_map [OF v(1)] by (simp add: waiters_def tops_def)
  have A: "event_state s' div 2 = waiters w'" using wt a l by (simp add: attentive_def lands_def)
  have task: "x = ?p' \<or> x \<in> ?T" if "x \<in> ?T'" "in_task x" for x
    using that u(2) [of x] v(2) [of x] by (auto simp: in_task_def)
  have p: "?p \<in> ?T" using i by (auto simp: tops_def intro!: imageI)
  have B: "task s'" if "TaskOp \<in> set (s_queue s') \<or> (\<exists>x \<in> ?T'. in_task x)"
  proof -
    have "TaskOp \<in> set (s_queue s') \<or> in_task ?p' \<or> (\<exists>x \<in> ?T. in_task x)" using that task by blast
    then have "task s' \<or> TaskOp \<in> set (s_queue ?s) \<or> (\<exists>x \<in> ?T. in_task x)" using l p unfolding lands_def by blast
    then show ?thesis using a l by (auto simp: attentive_def lands_def)
  qed
  have old: "Some (InTask True) \<in> ?T" if "Some (InTask True) \<in> ?T'" "\<not> in_task ?p'"
    using task [OF that(1)] that(2) by (auto simp: in_task_def)
  have C: "halted s' ?T'" if st: "stopped s'"
  proof -
    consider "wk = Everybody" "odd (event_state s')" "task s' \<longrightarrow> task_interrupted s'" |
      "stopped ?s" "odd (event_state ?s) \<longrightarrow> odd (event_state s')" "task_interrupted ?s \<longrightarrow> task_interrupted s'"
      "\<not> waits ?p'" "\<not> in_task ?p'"
      using l st unfolding lands_def by blast
    then show ?thesis
    proof cases
      case 1
      have "task s'" if "Some (InTask True) \<in> ?T'" using B that by (auto simp: in_task_def)
      then show ?thesis using 1 v(4) by (simp add: halted_def)
    next
      case 2
      have "halted ?s ?T" using a 2(1) by (simp add: attentive_def)
      moreover have "Some Sleeping \<in> ?T" if "Some Sleeping \<in> ?T'" using u(2) [OF v(5) [OF that]] 2(4) by (auto simp: waits_def)
      ultimately show ?thesis using 2 old by (auto simp: halted_def)
    qed
  qed
  have "looked_after s' ?T'" if D
  proof (cases "stopped s'")
    case True
    then show ?thesis using C halted_looked_after by blast
  next
    case False
    then have "alert s' wk ?p'" using l that by (simp add: lands_def)
    then consider "s_queue s' = []" | "eager ?p'" | "odd (event_state s')" "wk = One" "event_state s' > 1"
      | "odd (event_state s')" "wk = Everybody \<or> event_state s' = 1" "task s' \<longrightarrow> task_interrupted s'"
      unfolding alert_def by blast
    then show ?thesis
    proof cases
      case 2
      then have "?p' \<in> ?T'" using u(1) v(2) [of ?p'] by (auto simp: eager_def simp del: set_map)
      then show ?thesis using 2 by (auto simp: looked_after_def)
    next
      case 3
      then have "waiters w' > 0" using A by (cases "event_state s'") auto
      then have "\<exists>x \<in> ?T'. waits x" by (auto simp: waiters_def filter_empty_conv)
      then have "Some Woken \<in> ?T'" using v(5) v(7) [OF 3(2)] by (auto simp: waits_def)
      then show ?thesis using 3(1) by (simp add: looked_after_def)
    next
      case 4
      have "Some Sleeping \<notin> ?T'"
      proof (cases "wk = Everybody")
        case False
        then have "waiters w' = 0" using 4(2) A by simp
        then show ?thesis by (auto simp: waiters_def filter_empty_conv waits_def)
      qed (use v(4) in simp)
      moreover have "task s'" if "Some (InTask True) \<in> ?T'" using B that by (auto simp: in_task_def)
      ultimately show ?thesis using 4(1,3) by (auto simp: looked_after_def)
    qed (simp add: looked_after_def)
  qed
  then show ?thesis using A B C by (auto simp: attentive_def w'(1))
qed

text \<open>Steps that wake nobody and leave the queue, the event and the interruption alone.\<close>

lemma quiet_attentive:
  assumes a: "attentive D w" and i: "i < length (stacks w)" and st: "stacks w' = (stacks w)[i := st']"
    and s: "s_queue (sched w') = s_queue (sched w)" "event_state (sched w') = event_state (sched w)"
      "task (sched w') = task (sched w)" "task_interrupted (sched w') = task_interrupted (sched w)"
      "stopped (sched w') \<Longrightarrow> stopped (sched w)"
    and p: "waits (top_pc st') \<longleftrightarrow> waits (top_pc (stacks w ! i))"
      "top_pc st' = top_pc (stacks w ! i) \<or>
       (\<not> in_task (top_pc st') \<and> \<not> in_task (top_pc (stacks w ! i)) \<and> \<not> eager (top_pc (stacks w ! i)) \<and>
        (top_pc st' = Some Sleeping \<longrightarrow> even (event_state (sched w))) \<and>
        (top_pc (stacks w ! i) = Some Woken \<longrightarrow> even (event_state (sched w))))"
  shows "attentive D w'"
proof -
  let ?p = "top_pc (stacks w ! i)" and ?p' = "top_pc st'" and ?s = "sched w"
  let ?T = "set (tops w)" and ?T' = "set (tops w')"
  have t: "tops w' = map top_pc ((stacks w)[i := st'])" by (simp add: tops_def st)
  note u = tops_update [OF i, where st = st', folded tops_def, folded t]
  have pT: "?p \<in> ?T" using i by (auto simp: tops_def intro!: imageI)
  have wt: "waiters w' = waiters w"
    using waiters_update [OF i, of st'] p(1) by (simp add: waiters_def t) (simp add: tops_def)
  have task: "x \<in> ?T" if "x \<in> ?T'" "in_task x" for x using that u(2) [of x] p(2) pT by auto
  have task': "x \<in> ?T'" if "x \<in> ?T" "in_task x \<or> eager x" for x using that u(1) u(3) [of x] p(2) by (cases "x = ?p") auto
  have C: "halted (sched w') ?T'" if "stopped (sched w')"
  proof -
    have h: "halted ?s ?T" using a s(5) [OF that] by (simp add: attentive_def)
    then have "Some Sleeping \<notin> ?T'" using u(2) [of "Some Sleeping"] p(2) pT by (auto simp: halted_def)
    then show ?thesis using h task [of "Some (InTask True)"] by (auto simp: halted_def s in_task_def)
  qed
  have "looked_after (sched w') ?T'" if D
  proof -
    have l: "looked_after ?s ?T" using a that by (simp add: attentive_def)
    have "Some Sleeping \<in> ?T \<or> Some Woken \<in> ?T" if "Some Sleeping \<in> ?T' \<or> Some Woken \<in> ?T'"
      using that u(2) [of "Some Sleeping"] u(2) [of "Some Woken"] p(1) pT by (auto simp: waits_def)
    moreover have "Some Woken \<in> ?T'" if "Some Woken \<in> ?T" "odd (event_state ?s)"
      using that u(1) u(3) [of "Some Woken"] p(2) by (cases "?p = Some Woken") auto
    ultimately show ?thesis
      using l task [of "Some (InTask True)"] task' unfolding looked_after_def s in_task_def by blast
  qed
  then show ?thesis using a wt C task by (auto simp: attentive_def s)
qed


lemma attentive_init: "attentive D (io_init hint n)"
proof -
  have "length (filter waits (replicate n None)) = 0" by (induction n) (auto simp: waits_def)
  then show ?thesis
    by (simp add: attentive_def io_init_def new_scheduler_def waiters_def tops_def map_replicate looked_after_def in_task_def
        halted_def waits_def)
qed

lemma perform_io_tops:
  "perform_io ops st s = Some (s', st') \<Longrightarrow> (\<exists>d. top_pc st = Some (InDescriptor d)) \<and>
     (top_pc st' = None \<or> top_pc st' = Some Nothing_done \<or> (\<exists>op. top_pc st' = Some (InHandler op)))"
  by (induction ops st s rule: perform_io.induct) (auto simp: post_deferred_completions_def split: if_splits)

lemma user_step_tops:
  assumes "user_step a s st s' st'"
  shows "\<not> waits (top_pc st)" "\<not> waits (top_pc st')" "\<not> in_task (top_pc st)" "\<not> in_task (top_pc st')"
    "\<not> eager (top_pc st)" "top_pc st \<noteq> Some Woken" "top_pc st' \<noteq> Some Sleeping"
    "s_queue s' = s_queue s" "event_state s' = event_state s" "task s' = task s"
    "task_interrupted s' = task_interrupted s" "stopped s' \<Longrightarrow> stopped s"
proof -
  have u: "in_user_code st" using assms by (simp add: user_step_def)
  have t: "top_pc st = None \<or> (\<exists>op. top_pc st = Some (InHandler op))" by (rule in_user_code_top [OF u])
  have "top_pc (add_private k ops st) = top_pc st" for k ops by (cases st rule: in_user_code.cases) auto
  then have t': "top_pc st' = None \<or> (\<exists>op. top_pc st' = Some (InHandler op)) \<or> top_pc st' = Some Entered"
    using assms t by (auto simp: user_step_def)
  show "\<not> waits (top_pc st)" "\<not> waits (top_pc st')" "\<not> in_task (top_pc st)" "\<not> in_task (top_pc st')"
    "\<not> eager (top_pc st)" "top_pc st \<noteq> Some Woken" "top_pc st' \<noteq> Some Sleeping"
    using t t' by (auto simp: top_defs)
  show "s_queue s' = s_queue s" "event_state s' = event_state s" "task s' = task s"
    "task_interrupted s' = task_interrupted s" "stopped s' \<Longrightarrow> stopped s"
    using assms by (auto simp: user_step_def)
qed

lemma event_waiting:
  assumes "attentive D w" "i < length (stacks w)" "top_pc (stacks w ! i) = Some Woken"
  shows "2 \<le> event_state (sched w)"
proof -
  have "top_pc (stacks w ! i) \<in> set (tops w)" using assms(2) by (auto simp: tops_def intro!: imageI)
  then have "filter waits (tops w) \<noteq> []" using assms(3) by (auto simp: filter_empty_conv waits_def)
  then have "0 < waiters w" by (simp add: waiters_def)
  then show ?thesis using assms(1) by (auto simp: attentive_def)
qed

lemma io_exec_attentive:
  assumes a: "attentive D w" and ok: "list_all (stack_ok M) (stacks w)" and e: "io_exec a i w = Some w'"
    and d: "D \<Longrightarrow> \<not> one_thread (sched w) \<and> (\<forall>m \<in> M. loops m)"
  shows "attentive D w'"
  using e
proof (cases rule: io_exec_cases)
  case (settle j s wk st sts ds ops)
  let ?p = "top_pc (stacks w ! i)"
  have sk: "stack_ok M (stacks w ! i)" using nth_all [OF ok settle(1)] .
  consider "lands D (sched w) ?p s wk (top_pc st)" | "falls_asleep (sched w) ?p s wk (top_pc st)" |
    "s = sched w" "wk = Nobody" "top_pc st = ?p"
    using settle(2) critical_lands [OF _ sk event_waiting [OF a settle(1)] d] task_returns_lands [OF _ sk conjunct1 [OF d]]
      init_task_lands by metis
  then show ?thesis
  proof cases
    case 1
    then show ?thesis using lands_attentive [OF a settle(1) _ settle(3)] settle(4,5) by simp
  next
    case 2
    then have st': "sts = (stacks w)[i := st]" using waken_tops(3) [OF settle(3)] by (simp add: falls_asleep_def)
    show ?thesis
      by (rule quiet_attentive [OF a settle(1), of w' st])
        (use 2 settle(4,5) st' in \<open>auto simp: falls_asleep_def top_defs\<close>)
  next
    case 3
    then have st': "sts = (stacks w)[i := st]" using waken_tops(3) [OF settle(3)] by simp
    show ?thesis
      by (rule quiet_attentive [OF a settle(1), of w' st]) (use 3 settle(4,5) st' in auto)
  qed
next
  case (finish m pw pq pc st s stop)
  show ?thesis
    by (rule quiet_attentive [OF a finish(1,6)])
      (use finish work_cleanup_same [OF finish(4)] in \<open>auto simp: top_defs\<close>)
next
  case spurious
  show ?thesis
    by (rule quiet_attentive [OF a spurious(1,4)]) (use spurious in \<open>auto simp: top_defs sleeps_top top_wake_up\<close>)
next
  case (user st)
  show ?thesis
    by (rule quiet_attentive [OF a user(1,3)]) (use user_step_tops [OF user(2)] in auto)
next
  case (perform ops st)
  show ?thesis
    by (rule quiet_attentive [OF a perform(1,3)])
      (use perform_io_same [OF perform(2)] perform_io_tops [OF perform(2)] in \<open>auto simp: top_defs\<close>)
qed

lemma io_reachable_attentive:
  assumes "io_reachable M hint w"
  shows "attentive (hint \<noteq> 1 \<and> (\<forall>m \<in> M. loops m)) w"
  using assms
proof (induction rule: io_reachable.induct)
  case (step w a i w')
  have "list_all (stack_ok M) (stacks w)" using io_reachable_conserved [OF step.hyps(1)] by (simp add: conserved_def)
  then show ?case
    using io_exec_attentive [OF step.IH _ step.hyps(2)] io_reachable_one_thread [OF step.hyps(1)] by blast
qed (rule attentive_init)

text \<open>
  C14. As long as threads call \<^verbatim>\<open>run\<close> and \<^verbatim>\<open>poll\<close>, and more than one thread may, no wake-up is lost: when
  there is something in the queue and a thread waits for the event or is blocked in the reactor,
  then some thread is about to take the mutex and look at the queue, or has been woken with the
  event signalled, or is blocked in a reactor that was interrupted.\<close>

theorem no_wakeup_is_lost:
  assumes "io_reachable {MRun, MPoll} hint w" "hint \<noteq> 1" "s_queue (sched w) \<noteq> []"
    "st \<in> set (stacks w)" "waits (top_pc st) \<or> top_pc st = Some (InTask True)"
  shows "\<exists>st \<in> set (stacks w). eager (top_pc st) \<or> (top_pc st = Some Woken \<and> odd (event_state (sched w))) \<or>
    (top_pc st = Some (InTask True) \<and> task_interrupted (sched w))"
proof -
  let ?T = "set (tops w)"
  have "looked_after (sched w) ?T"
    using io_reachable_attentive [OF assms(1)] assms(2) by (simp add: attentive_def loops_def)
  moreover have "top_pc st \<in> ?T" using assms(4) by (simp add: tops_def)
  ultimately have "(\<exists>p \<in> ?T. eager p) \<or> (Some Woken \<in> ?T \<and> odd (event_state (sched w))) \<or>
      (Some (InTask True) \<in> ?T \<and> task_interrupted (sched w))"
    using assms(3,5) unfolding looked_after_def waits_def by auto
  then have "\<exists>p \<in> ?T. eager p \<or> (p = Some Woken \<and> odd (event_state (sched w))) \<or>
      (p = Some (InTask True) \<and> task_interrupted (sched w))" by blast
  then show ?thesis by (simp add: tops_def)
qed

text \<open>
  C15. Stopping reaches every thread: in a stopped service no thread sleeps, the event is signalled, so
  that a thread already woken does not go back to sleep, and a thread blocked in the reactor has
  been interrupted.\<close>

theorem stop_reaches_every_thread:
  assumes "io_reachable M hint w" "stopped (sched w)"
  shows "(\<forall>st \<in> set (stacks w). \<not> sleeps st \<and> (top_pc st = Some (InTask True) \<longrightarrow> task_interrupted (sched w))) \<and>
    odd (event_state (sched w))"
proof -
  have "halted (sched w) (set (tops w))" using io_reachable_attentive [OF assms(1)] assms(2) by (simp add: attentive_def)
  then show ?thesis by (force simp: halted_def tops_def sleeps_top)
qed


subsection \<open>One thread runs the reactor\<close>

definition task_count :: "scheduler \<Rightarrow> pc option \<Rightarrow> nat" where
  "task_count s p = count_list (s_queue s) TaskOp + of_bool (in_task p)"

text \<open>The task is in the queue or in the hands of a thread, once.\<close>

definition keeps_task :: "scheduler \<Rightarrow> pc option \<Rightarrow> scheduler \<Rightarrow> pc option \<Rightarrow> bool" where
  "keeps_task s p s' p' \<longleftrightarrow> task_count s' p' + of_bool (task s) = task_count s p + of_bool (task s')"

lemma count_task_ops [simp]: "count_list (map Op ops) TaskOp = 0" "count_list (map Descriptor ds) TaskOp = 0"
  by (induction ops) (simp_all, induction ds, simp_all)

lemma next_task:
  assumes "do_run_one s = (s', wk, nx) \<or> do_poll_one s = (s', wk, nx) \<or> poll_after_task s = (s', wk, nx)"
    "list_all in_handler st"
  shows "keeps_task s None s' (top_pc (proceed nx m pw pq st))"
  using assms handlers_top [OF assms(2)]
  by (auto simp: keeps_task_def task_count_def do_run_one_def do_poll_one_def poll_after_task_def proceed_def in_task_def Let_def
      split: if_splits list.splits operation.splits prod.splits dest!: take_op_keeps)

lemma next_one_task:
  assumes "next_one m pw pq st s = (s', wk, st')" "list_all in_handler st"
  shows "keeps_task s None s' (top_pc st')"
  using assms next_task [of s s' wk _ st] by (auto simp: next_one_def split: prod.splits if_splits)

lemma keeps_task_same:
  "keeps_task s1 None s' p' \<Longrightarrow> count_list (s_queue s1) TaskOp = task_count s p \<Longrightarrow> task s1 = task s \<Longrightarrow> keeps_task s p s' p'"
  by (simp add: keeps_task_def task_count_def in_task_def)

lemma critical_task:
  assumes "critical st s = Some (s', wk, st')" "stack_ok M st"
  shows "keeps_task s (top_pc st) s' (top_pc st')"
  using assms
proof (induction st s rule: critical.induct)
  case (1 m pw pq st s)
  then have f: "list_all in_handler st" by (simp add: stack_ok_Cons)
  obtain ops st0 where tp: "take_private st = (ops, st0)" by force
  have h: "list_all in_handler st0" using take_private_ops [OF tp f] by blast
  show ?case
  proof (cases "polls m \<and> one_thread s")
    case True
    then have "next_one m pw pq st0 (push_ops ops s) = (s', wk, st')" using "1.prems"(1) tp by simp
    from next_one_task [OF this h] show ?thesis
      by (rule keeps_task_same) (simp_all add: task_count_def in_task_def push_ops_def)
  next
    case False
    have "critical (Call m pw pq Entered # st) s = Some (next_one m pw pq st s)"
      unfolding critical.simps if_not_P [OF False] ..
    then have "next_one m pw pq st s = (s', wk, st')" using "1.prems"(1) by simp
    from next_one_task [OF this f] show ?thesis
      by (rule keeps_task_same) (simp_all add: task_count_def in_task_def)
  qed
next
  case (2 m pw pq st s)
  then have f: "list_all in_handler st" by (simp add: stack_ok_Cons)
  show ?case
  proof (cases "odd (event_state s - 2)")
    case True
    then have "next_one m pw pq st (s\<lparr>event_state := event_state s - 2\<rparr>) = (s', wk, st')"
      using "2.prems"(1) by (simp add: Let_def)
    from next_one_task [OF this f] show ?thesis
      by (rule keeps_task_same) (simp_all add: task_count_def in_task_def)
  next
    case False
    then show ?thesis using 2 by (auto simp: Let_def keeps_task_def task_count_def in_task_def)
  qed
next
  case (3 m pw pq st s)
  then show ?case by (auto simp: keeps_task_def task_count_def in_task_def scheduler_defs split: prod.splits if_splits)
next
  case (4 m pw pq st s)
  then have f: "list_all in_handler st" by (simp add: stack_ok_Cons)
  show ?case
  proof (cases "loops m")
    case True
    then have "next_one m pw [] st (push_ops pq s) = (s', wk, st')" using "4.prems"(1) by (simp add: Let_def)
    from next_one_task [OF this f] show ?thesis
      by (rule keeps_task_same) (simp_all add: task_count_def in_task_def push_ops_def)
  next
    case False
    then show ?thesis using "4.prems"(1) handlers_top [OF f]
      by (auto simp: keeps_task_def task_count_def in_task_def push_ops_def Let_def)
  qed
next
  case (5 ops st s)
  then have f: "list_all in_handler st" by (simp add: stack_ok_Cons)
  show ?case using "5.prems"(1) handlers_top [OF f]
    by (auto simp: keeps_task_def task_count_def in_task_def push_ops_def Let_def split: prod.splits dest!: wake_one_thread_keeps)
next
  case (6 st s)
  then have f: "list_all in_handler st" by (simp add: stack_ok_Cons)
  show ?case using "6.prems"(1) handlers_top [OF f]
    by (auto simp: keeps_task_def task_count_def in_task_def scheduler_defs split: prod.splits if_splits)
qed simp_all

lemma task_returns_task:
  assumes "task_returns ds ops st s = Some (s', wk, st')" "stack_ok M st"
  shows "keeps_task s (top_pc st) s' (top_pc st')"
  using assms
proof (induction ds ops st s rule: task_returns.induct)
  case (1 ds ops m pw pq block st s)
  then have f: "list_all in_handler st" by (simp add: stack_ok_Cons)
  let ?s = "task_cleanup pw (map Op pq @ map Descriptor ds @ map Op ops) s"
  obtain nx where n: "do_run_one ?s = (s', wk, nx) \<or> poll_after_task ?s = (s', wk, nx)" "st' = proceed nx m 0 [] st"
    using "1.prems"(1) by (auto simp: Let_def split: prod.splits if_splits)
  have "keeps_task ?s None s' (top_pc st')" using n next_task [OF _ f] by blast
  then show ?case
    by (rule keeps_task_same) (cases block; simp add: task_count_def in_task_def task_cleanup_def push_ops_def Let_def)+
qed simp_all

lemma init_task_task: "init_task s = (s', wk) \<Longrightarrow> keeps_task s p s' p"
  by (auto simp: init_task_def keeps_task_def task_count_def split: if_splits dest!: wake_one_thread_keeps)

definition reactors :: "io_world \<Rightarrow> nat" where
  "reactors w = sum_list (map (\<lambda>st. of_bool (in_task (top_pc st))) (stacks w))"

lemma io_exec_task:
  assumes inv: "count_list (s_queue (sched w)) TaskOp + reactors w = of_bool (task (sched w))"
    and ok: "list_all (stack_ok M) (stacks w)" and e: "io_exec a i w = Some w'"
  shows "count_list (s_queue (sched w')) TaskOp + reactors w' = of_bool (task (sched w'))"
proof -
  have step: "count_list (s_queue s') TaskOp + sum_list (map (\<lambda>st. of_bool (in_task (top_pc st))) ((stacks w)[i := st'])) = of_bool (task s')"
    if "i < length (stacks w)" "keeps_task (sched w) (top_pc (stacks w ! i)) s' (top_pc st')" for s' st'
    using sum_list_map_update [OF that(1), of "\<lambda>st. of_bool (in_task (top_pc st)) :: nat" st'] that(2) inv
    by (simp add: keeps_task_def task_count_def reactors_def)
  from e show ?thesis
  proof (cases rule: io_exec_cases)
    case (settle j s wk st sts ds ops)
    have sk: "stack_ok M (stacks w ! i)" using nth_all [OF ok settle(1)] .
    have "keeps_task (sched w) (top_pc (stacks w ! i)) s (top_pc st)"
      using settle(2) critical_task [OF _ sk] task_returns_task [OF _ sk] init_task_task by metis
    from step [OF settle(1) this]
    have "count_list (s_queue s) TaskOp + sum_list (map (\<lambda>st. of_bool (in_task (top_pc st))) ((stacks w)[i := st])) = of_bool (task s)" .
    moreover have "map (\<lambda>st. of_bool (in_task (top_pc st)) :: nat) sts = map (\<lambda>st. of_bool (in_task (top_pc st))) ((stacks w)[i := st])"
      by (rule waken_map [OF _ settle(3)]) (simp add: top_wake_up in_task_def)
    ultimately show ?thesis by (simp add: reactors_def settle(4,5))
  next
    case (finish m pw pq pc st s stop)
    have "keeps_task (sched w) (top_pc (stacks w ! i)) s (top_pc (Call m 0 pq (if stop then Stopping else Unwinding) # st))"
      using work_cleanup_same [OF finish(4)] finish(2,3) by (auto simp: keeps_task_def task_count_def in_task_def)
    from step [OF finish(1) this] show ?thesis by (simp add: reactors_def finish(5,6))
  next
    case spurious
    have "keeps_task (sched w) (top_pc (stacks w ! i)) (sched w) (top_pc (wake_up (stacks w ! i)))"
      using spurious(2) by (simp add: keeps_task_def task_count_def in_task_def top_wake_up sleeps_top)
    from step [OF spurious(1) this] show ?thesis by (simp add: reactors_def spurious(3,4))
  next
    case (perform ops st)
    have "keeps_task (sched w) (top_pc (stacks w ! i)) (sched w') (top_pc st)"
      using perform_io_same [OF perform(2)] perform_io_tops [OF perform(2)] by (auto simp: keeps_task_def task_count_def in_task_def)
    from step [OF perform(1) this] show ?thesis by (simp add: reactors_def perform(3))
  next
    case (user st)
    have "keeps_task (sched w) (top_pc (stacks w ! i)) (sched w') (top_pc st)"
      using user_step_tops [OF user(2)] by (simp add: keeps_task_def task_count_def)
    from step [OF user(1) this] show ?thesis by (simp add: reactors_def user(3))
  qed
qed

lemma one_reactor:
  "io_reachable M hint w \<Longrightarrow> count_list (s_queue (sched w)) TaskOp + reactors w = of_bool (task (sched w))"
proof (induction rule: io_reachable.induct)
  case (init n)
  have "reactors (io_init hint n) = 0" by (simp add: reactors_def io_init_def in_task_def)
  then show ?case by (simp add: io_init_def new_scheduler_def)
next
  case (step w a i w')
  then show ?case using io_exec_task [OF step.IH _ step.hyps(2), of M] io_reachable_conserved [OF step.hyps(1)] by (simp add: conserved_def)
qed

text \<open>
  Once the reactor has been brought in there is one of it: it is in the queue once, or one thread
  runs it, however many threads are in the service.\<close>

theorem one_thread_runs_the_reactor:
  assumes "io_reachable M hint w"
  shows "count_list (s_queue (sched w)) TaskOp + length (filter (\<lambda>st. in_task (top_pc st)) (stacks w)) = of_bool (task (sched w))"
proof -
  have "count_list (s_queue (sched w)) TaskOp + reactors w = of_bool (task (sched w))" by (rule one_reactor [OF assms])
  moreover have "sum_list (map (\<lambda>st. of_bool (in_task (top_pc st))) xs) = length (filter (\<lambda>st. in_task (top_pc st)) xs)" for xs
    by (induction xs) auto
  ultimately show ?thesis by (simp add: reactors_def)
qed

subsection \<open>Descriptors in the queue\<close>

text \<open>The states of descriptors are links of the queue, so none may be put there twice. The reactor
  relies on the task being behind all of them.\<close>

fun descriptors :: "operation list \<Rightarrow> ptr list" where
  "descriptors [] = []"
| "descriptors (Descriptor d # q) = d # descriptors q"
| "descriptors (_ # q) = descriptors q"

fun tidy :: "operation list \<Rightarrow> bool" where
  "tidy [] = True"
| "tidy (TaskOp # q) \<longleftrightarrow> descriptors q = []"
| "tidy (Op op # q) \<longleftrightarrow> tidy q"
| "tidy (Descriptor d # q) \<longleftrightarrow> tidy q \<and> TaskOp \<in> set q"

definition tidy_queue :: "operation list \<Rightarrow> bool" where
  "tidy_queue q \<longleftrightarrow> tidy q \<and> distinct (descriptors q)"

lemma descriptors_append [simp]: "descriptors (q @ r) = descriptors q @ descriptors r"
  by (induction q rule: descriptors.induct) auto

lemma descriptors_map [simp]: "descriptors (map Op ops) = []" "descriptors (map Descriptor ds) = ds"
proof -
  show "descriptors (map Op ops) = []" by (induction ops) auto
  show "descriptors (map Descriptor ds) = ds" by (induction ds) auto
qed

lemma tidy_none: "TaskOp \<notin> set q \<Longrightarrow> tidy q \<longleftrightarrow> descriptors q = []"
  by (induction q rule: tidy.induct) auto

lemma tidy_push: "tidy q \<Longrightarrow> descriptors r = [] \<Longrightarrow> tidy (q @ r)"
proof (induction q rule: tidy.induct)
  case 1
  have "descriptors r = [] \<Longrightarrow> tidy r" for r by (induction r rule: tidy.induct) auto
  then show ?case using 1 by simp
qed auto

lemma tidy_task: "TaskOp \<notin> set q \<Longrightarrow> tidy (q @ [TaskOp])"
  by (induction q rule: tidy.induct) auto

lemma tidy_queue_simps:
  "tidy_queue (TaskOp # q) \<Longrightarrow> tidy_queue q" "tidy_queue (Op op # q) \<Longrightarrow> tidy_queue q"
  "tidy_queue (Descriptor d # q) \<Longrightarrow> tidy_queue q" "tidy_queue q \<Longrightarrow> tidy_queue (q @ map Op ops)"
proof -
  have "descriptors q = [] \<Longrightarrow> tidy q" by (induction q rule: tidy.induct) auto
  then show "tidy_queue (TaskOp # q) \<Longrightarrow> tidy_queue q" by (simp add: tidy_queue_def)
qed (auto simp: tidy_queue_def tidy_push)

lemma next_tidy:
  assumes "do_run_one s = (s', wk, nx) \<or> do_poll_one s = (s', wk, nx) \<or> poll_after_task s = (s', wk, nx)"
    "tidy_queue (s_queue s)"
  shows "tidy_queue (s_queue s')"
proof -
  have "s_queue s' = s_queue s \<or> (\<exists>x. s_queue s = x # s_queue s')"
  proof (cases "s_queue s")
    case (Cons x q)
    have q: "take_op nx' q s = (s', wk, nx) \<Longrightarrow> s_queue s' = q" for nx' using take_op_keeps by blast
    then show ?thesis
      using assms(1) Cons
      by (cases x) (auto simp: do_run_one_def do_poll_one_def poll_after_task_def Let_def split: if_splits prod.splits)
  qed (use assms(1) in \<open>auto simp: do_run_one_def do_poll_one_def poll_after_task_def split: if_splits\<close>)
  then show ?thesis
  proof (elim disjE exE)
    fix x assume "s_queue s = x # s_queue s'"
    then show ?thesis using assms(2) by (cases x) (auto dest: tidy_queue_simps)
  qed (use assms(2) in simp)
qed

lemma next_one_tidy:
  assumes "next_one m pw pq st s = (s', wk, st')" "tidy_queue (s_queue s)"
  shows "tidy_queue (s_queue s')"
proof -
  obtain nx where "do_run_one s = (s', wk, nx) \<or> do_poll_one s = (s', wk, nx)"
    using assms(1) by (auto simp: next_one_def split: prod.splits if_splits)
  then show ?thesis using next_tidy assms(2) by blast
qed

lemma push_ops_tidy: "tidy_queue (s_queue s) \<Longrightarrow> tidy_queue (s_queue (push_ops ops s))"
  by (simp add: push_ops_def tidy_queue_simps(4))

lemma critical_tidy:
  assumes "critical st s = Some (s', wk, st')" "tidy_queue (s_queue s)"
  shows "tidy_queue (s_queue s')"
  using assms
proof (induction st s rule: critical.induct)
  case (1 m pw pq st s)
  then show ?case by (auto split: if_splits prod.splits dest!: next_one_tidy intro: push_ops_tidy)
next
  case (3 m pw pq st s)
  then show ?case by (auto simp: scheduler_defs split: prod.splits if_splits)
next
  case (5 ops st s)
  then show ?case by (auto simp: Let_def split: prod.splits dest!: wake_one_thread_keeps intro: push_ops_tidy)
next
  case (6 st s)
  then show ?case by (auto simp: scheduler_defs split: prod.splits if_splits)
qed (auto simp: Let_def split: if_splits prod.splits dest: next_one_tidy intro: push_ops_tidy)

lemma task_returns_tidy:
  assumes "task_returns ds ops st s = Some (s', wk, st')" "TaskOp \<notin> set (s_queue s)" "distinct ds" "tidy_queue (s_queue s)"
  shows "tidy_queue (s_queue s')"
  using assms
proof (induction ds ops st s rule: task_returns.induct)
  case (1 ds ops m pw pq block st s)
  let ?s = "task_cleanup pw (map Op pq @ map Descriptor ds @ map Op ops) s"
  let ?q = "s_queue s @ map Op pq @ map Descriptor ds @ map Op ops"
  have "descriptors (s_queue s) = []" using "1.prems"(2,4) tidy_none by (simp add: tidy_queue_def)
  moreover have "TaskOp \<notin> set ?q" using "1.prems"(2) by auto
  then have "tidy (?q @ [TaskOp])" by (rule tidy_task)
  ultimately have "tidy_queue (s_queue ?s)"
    using "1.prems"(3) by (simp add: task_cleanup_def Let_def tidy_queue_def)
  moreover obtain nx where "do_run_one ?s = (s', wk, nx) \<or> poll_after_task ?s = (s', wk, nx)"
    using "1.prems"(1) by (auto simp: Let_def split: prod.splits if_splits)
  ultimately show ?case using next_tidy by blast
qed simp_all

lemma init_task_tidy:
  assumes "init_task s = (s', wk)" "\<not> task s \<Longrightarrow> TaskOp \<notin> set (s_queue s)" "tidy_queue (s_queue s)"
  shows "tidy_queue (s_queue s')"
  using assms by (auto simp: init_task_def tidy_queue_def tidy_task split: if_splits dest!: wake_one_thread_keeps)

lemma io_exec_tidy:
  assumes q: "tidy_queue (s_queue (sched w))" and e: "io_exec a i w = Some w'" and ok: "list_all (stack_ok M) (stacks w)"
    and one: "count_list (s_queue (sched w)) TaskOp + reactors w = of_bool (task (sched w))"
  shows "tidy_queue (s_queue (sched w'))"
  using e
proof (cases rule: io_exec_cases)
  case (settle j s wk st sts ds ops)
  from settle(2) show ?thesis
  proof (elim disjE conjE)
    assume "critical (stacks w ! i) (sched w) = Some (s, wk, st)"
    then show ?thesis using critical_tidy q settle(4) by blast
  next
    assume r: "task_returns ds ops (stacks w ! i) (sched w) = Some (s, wk, st)" "distinct ds"
    then have "in_task (top_pc (stacks w ! i))" by (cases "(ds, ops, stacks w ! i, sched w)" rule: task_returns.cases) (auto simp: in_task_def)
    then have "of_bool (in_task (top_pc (stacks w ! i))) = (1 :: nat)" by simp
    moreover have "of_bool (in_task (top_pc (stacks w ! i))) \<le> reactors w"
      unfolding reactors_def by (rule member_le_sum_list) (use settle(1) in \<open>auto intro!: imageI\<close>)
    ultimately have "count_list (s_queue (sched w)) TaskOp = 0" using one by (cases "task (sched w)") auto
    then have "TaskOp \<notin> set (s_queue (sched w))" by (simp add: count_list_0_iff)
    then show ?thesis using task_returns_tidy [OF r(1) _ r(2) q] settle(4) by simp
  next
    assume "init_task (sched w) = (s, wk)"
    moreover have "TaskOp \<notin> set (s_queue (sched w))" if "\<not> task (sched w)" using one that by (simp add: count_list_0_iff)
    ultimately show ?thesis using init_task_tidy q settle(4) by blast
  qed
next
  case (finish m pw pq pc st s stop)
  then show ?thesis using q work_cleanup_same by simp
next
  case (perform ops st)
  then show ?thesis using q perform_io_same by simp
qed (use q user_step_tops(8) in auto)

text \<open>
  What the reactor relies on: the states of descriptors in the queue are different from each
  other, and while a thread runs the reactor there is none, so that it may return any of them again.\<close>

theorem descriptors_are_queued_once:
  assumes "io_reachable M hint w"
  shows "distinct (descriptors (s_queue (sched w))) \<and>
    ((\<exists>st \<in> set (stacks w). in_task (top_pc st)) \<longrightarrow> descriptors (s_queue (sched w)) = [])"
proof -
  have one: "count_list (s_queue (sched w)) TaskOp + reactors w = of_bool (task (sched w))" by (rule one_reactor [OF assms])
  have tidy: "tidy_queue (s_queue (sched w))"
    using assms
  proof (induction rule: io_reachable.induct)
    case (init n)
    then show ?case by (simp add: io_init_def new_scheduler_def tidy_queue_def)
  next
    case (step w a i w')
    have "list_all (stack_ok M) (stacks w)" using io_reachable_conserved [OF step.hyps(1)] by (simp add: conserved_def)
    then show ?case using io_exec_tidy [OF step.IH step.hyps(2) _ one_reactor [OF step.hyps(1)]] by blast
  qed
  moreover have "descriptors (s_queue (sched w)) = []" if st: "st \<in> set (stacks w)" "in_task (top_pc st)" for st
  proof -
    have "of_bool (in_task (top_pc st)) \<le> reactors w"
      unfolding reactors_def by (rule member_le_sum_list) (use st(1) in \<open>auto intro!: imageI\<close>)
    then have "count_list (s_queue (sched w)) TaskOp = 0" using one st(2) by (cases "task (sched w)") auto
    then show ?thesis using tidy tidy_none by (simp add: count_list_0_iff tidy_queue_def)
  qed
  ultimately show ?thesis by (auto simp: tidy_queue_def)
qed

subsection \<open>Runs\<close>

definition example_run :: "(nat \<times> action) list" where
  "example_run = [(0, Work_start), (1, Enter MRun), (1, Critical 0), (2, Enter MRun), (2, Critical 0),
     (0, Post 7 False), (0, Critical 1)]"

lemma example_run_reachable:
  "\<exists>w. io_run example_run (io_init 2 3) = Some w \<and> io_reachable {MRun, MPoll} 2 w \<and> s_queue (sched w) = [Op 7] \<and>
     length (stacks w) = 3 \<and> top_pc (stacks w ! 2) = Some Sleeping"
proof -
  have "case io_run example_run (io_init 2 3) of None \<Rightarrow> False | Some w \<Rightarrow> s_queue (sched w) = [Op 7] \<and>
     length (stacks w) = 3 \<and> top_pc (stacks w ! 2) = Some Sleeping"
    by code_simp
  then obtain w where w: "io_run example_run (io_init 2 3) = Some w" "s_queue (sched w) = [Op 7]" "length (stacks w) = 3"
    "top_pc (stacks w ! 2) = Some Sleeping" by (auto split: option.splits)
  have "modes_in {MRun, MPoll} example_run" by (simp add: example_run_def)
  then show ?thesis using w io_run_reachable [OF io_reachable.init w(1)] by blast
qed

theorem no_wakeup_is_lost_witness:
  "\<exists>w. io_run example_run (io_init 2 3) = Some w \<and> s_queue (sched w) \<noteq> [] \<and>
     (\<exists>st \<in> set (stacks w). eager (top_pc st) \<or> (top_pc st = Some Woken \<and> odd (event_state (sched w))) \<or>
       (top_pc st = Some (InTask True) \<and> task_interrupted (sched w)))"
proof -
  obtain w where w: "io_run example_run (io_init 2 3) = Some w" "io_reachable {MRun, MPoll} 2 w" "s_queue (sched w) = [Op 7]"
     "length (stacks w) = 3" "top_pc (stacks w ! 2) = Some Sleeping" using example_run_reachable by blast
  have "stacks w ! 2 \<in> set (stacks w)" using w(4) by simp
  then show ?thesis using no_wakeup_is_lost [OF w(2), of "stacks w ! 2"] w(1,3,5) by (simp add: waits_def)
qed

definition stopping_run :: "(nat \<times> action) list" where
  "stopping_run = [(0, Work_start), (1, Enter MRun), (1, Critical 0), (0, Call_stop), (0, Critical 0)]"

lemma stopping_run_stops:
  "\<exists>w. io_run stopping_run (io_init 2 2) = Some w \<and> io_reachable {MRun} 2 w \<and> stopped (sched w)"
proof -
  have "case io_run stopping_run (io_init 2 2) of None \<Rightarrow> False | Some w \<Rightarrow> stopped (sched w)" by code_simp
  then obtain w where w: "io_run stopping_run (io_init 2 2) = Some w" "stopped (sched w)" by (auto split: option.splits)
  have "modes_in {MRun} stopping_run" by (simp add: stopping_run_def)
  then show ?thesis using w io_run_reachable [OF io_reachable.init w(1)] by blast
qed

theorem stop_reaches_every_thread_witness:
  "\<exists>w. io_run stopping_run (io_init 2 2) = Some w \<and> stopped (sched w) \<and>
     (\<forall>st \<in> set (stacks w). \<not> sleeps st \<and> (top_pc st = Some (InTask True) \<longrightarrow> task_interrupted (sched w))) \<and>
     odd (event_state (sched w))"
  using stopping_run_stops stop_reaches_every_thread by blast

theorem runs_out_only_when_done_witness:
  "\<exists>w. io_run finished_run (io_init 2 1) = Some w \<and> given w = [7] \<and> mset (completed w) = mset (given w) \<and> pending w = {#} \<and>
     reactor_ops w = 0 \<and> works w = 0"
  using finished_run_finishes runs_out_only_when_done by (metis numeral_eq_one_iff semiring_norm(85))

definition stranding_run :: "(nat \<times> action) list" where
  "stranding_run = [(0, Work_start), (1, Enter MRun), (1, Critical 0), (0, Post 1 False), (0, Critical 1),
     (0, Enter MRun_one), (0, Critical 0), (1, Critical 0), (0, Post 2 True), (0, Finish), (0, Critical 0)]"

text \<open>
  The code falls short with \<^verbatim>\<open>run_one\<close>: a handler posts a continuation, which stays private to its
  call, and \<^verbatim>\<open>run_one\<close> moves it to the queue on its way out without waking anyone. An operation
  is in the queue, the one thread in the service sleeps, nobody is about to look, and there is no
  private work or operation left in a call.\<close>

lemma run_one_strands_a_continuation:
  "\<exists>w. io_run stranding_run (io_init 2 2) = Some w \<and> s_queue (sched w) = [Op 2] \<and> \<not> stopped (sched w) \<and>
     stacks w = [[], [Call MRun 0 [] Sleeping]] \<and> (\<forall>j. io_exec (Critical j) 0 w = None \<and> io_exec (Critical j) 1 w = None)"
proof -
  have "case io_run stranding_run (io_init 2 2) of None \<Rightarrow> False | Some w \<Rightarrow> s_queue (sched w) = [Op 2] \<and>
     \<not> stopped (sched w) \<and> stacks w = [[], [Call MRun 0 [] Sleeping]]"
    by code_simp
  then show ?thesis by (auto simp: io_exec_def settle_def split: option.splits)
qed

definition nested_poll_run :: "(nat \<times> action) list" where
  "nested_poll_run = [(0, Post 1 False), (0, Critical 0), (0, Enter MRun), (0, Critical 0), (0, Post 2 False),
     (0, Enter MPoll), (0, Critical 0), (0, Finish), (0, Critical 0), (0, Critical 0), (0, Post 3 False),
     (0, Finish), (0, Critical 0)]"

text \<open>
  The code falls short with a concurrency hint of one: a nested \<^verbatim>\<open>poll\<close> takes the operations private
  to the outer call but not the count of their work, so that the service runs out of work and stops
  itself while an operation is left, although \<^verbatim>\<open>stop\<close> was never called.\<close>

theorem nested_poll_stops_the_service:
  "\<exists>w. io_run nested_poll_run (io_init 1 1) = Some w \<and> stopped (sched w) \<and> given w = [1, 2, 3] \<and>
     completed w = [2, 1] \<and> pending w = {#3#} \<and> list_all (\<lambda>ia. snd ia \<noteq> Call_stop) nested_poll_run"
proof -
  have "case io_run nested_poll_run (io_init 1 1) of None \<Rightarrow> False | Some w \<Rightarrow> stopped (sched w) \<and> given w = [1, 2, 3] \<and>
     completed w = [2, 1]"
    by code_simp
  then obtain w where w: "io_run nested_poll_run (io_init 1 1) = Some w" "stopped (sched w)" "given w = [1, 2, 3]"
    "completed w = [2, 1]" by (auto split: option.splits)
  have "io_reachable UNIV 1 w" by (rule io_run_reachable [OF io_reachable.init w(1)]) (simp add: nested_poll_run_def)
  then have "mset (given w) = mset (completed w) + pending w" using io_reachable_conserved by (auto simp: conserved_def)
  then have "{#1, 2#} + pending w = {#1, 2#} + {#3#}" using w(3,4) by (simp add: add_mset_commute)
  then have "pending w = {#3#}" by (simp only: add_left_cancel)
  moreover have "list_all (\<lambda>ia. snd ia \<noteq> Call_stop) nested_poll_run" by (simp add: nested_poll_run_def)
  ultimately show ?thesis using w by blast
qed


definition polling_run :: "(nat \<times> action) list" where
  "polling_run = [(0, Init 0), (0, Work_start), (0, Enter MRun), (0, Critical 0)]"

theorem one_thread_runs_the_reactor_witness:
  "\<exists>w. io_run polling_run (io_init 2 2) = Some w \<and> task (sched w) \<and> s_queue (sched w) = [] \<and>
     length (filter (\<lambda>st. in_task (top_pc st)) (stacks w)) = 1"
proof -
  have "case io_run polling_run (io_init 2 2) of None \<Rightarrow> False | Some w \<Rightarrow> task (sched w) \<and> s_queue (sched w) = []"
    by code_simp
  then obtain w where w: "io_run polling_run (io_init 2 2) = Some w" "task (sched w)" "s_queue (sched w) = []"
    by (auto split: option.splits)
  have "modes_in {MRun} polling_run" by (simp add: polling_run_def)
  then have "io_reachable {MRun} 2 w" using io_run_reachable [OF io_reachable.init w(1)] by blast
  from one_thread_runs_the_reactor [OF this] show ?thesis using w by simp
qed

definition descriptor_run :: "(nat \<times> action) list" where
  "descriptor_run = [(0, Init 0), (0, Start_io), (0, Enter MRun), (0, Critical 0), (0, Return_task [5, 6] [] 0), (0, Perform_io [1])]"

theorem descriptors_are_queued_once_witness:
  "\<exists>w. io_run descriptor_run (io_init 2 1) = Some w \<and> descriptors (s_queue (sched w)) = [6] \<and>
     distinct (descriptors (s_queue (sched w))) \<and> \<not> (\<exists>st \<in> set (stacks w). in_task (top_pc st))"
proof -
  have "case io_run descriptor_run (io_init 2 1) of None \<Rightarrow> False | Some w \<Rightarrow> descriptors (s_queue (sched w)) = [6]"
    by code_simp
  then obtain w where w: "io_run descriptor_run (io_init 2 1) = Some w" "descriptors (s_queue (sched w)) = [6]"
    by (auto split: option.splits)
  have "modes_in {MRun} descriptor_run" by (simp add: descriptor_run_def)
  then have "io_reachable {MRun} 2 w" using io_run_reachable [OF io_reachable.init w(1)] by blast
  from descriptors_are_queued_once [OF this] show ?thesis using w by auto
qed

end
