(* ===== verification/ObjectPool.thy ===== *)
theory ObjectPool
  imports Links
begin

text \<open>
  The pool of objects of asio (\<^verbatim>\<open>detail/object_pool.hpp\<close>), on the \<^verbatim>\<open>next_\<close> and \<^verbatim>\<open>prev_\<close> pointers of the
  objects: the live ones form a doubly linked list, the freed ones wait in a singly linked list to
  be used again. Objects are never destroyed before the pool. A new object is the argument
  \<open>fresh\<close>.
\<close>

record object_pool =
  p_next :: links
  p_prev :: links
  live_list :: "ptr option"
  free_list :: "ptr option"

definition new_pool :: object_pool where
  "new_pool = \<lparr>p_next = (\<lambda>_. None), p_prev = (\<lambda>_. None), live_list = None, free_list = None\<rparr>"

definition pool_first :: "object_pool \<Rightarrow> ptr option" where
  "pool_first = live_list"

definition pool_alloc :: "ptr \<Rightarrow> object_pool \<Rightarrow> ptr \<times> object_pool" where
  "pool_alloc fresh p =
     (let (x, free) = (case free_list p of Some x \<Rightarrow> (x, p_next p x) | None \<Rightarrow> (fresh, None));
          (nx, pv, hd) = link_front (p_next p) (p_prev p) (live_list p) x in
      (x, \<lparr>p_next = nx, p_prev = pv, live_list = hd, free_list = free\<rparr>))"

definition pool_free :: "ptr \<Rightarrow> object_pool \<Rightarrow> object_pool" where
  "pool_free x p =
     (let (nx, pv, hd) = unlink (p_next p) (p_prev p) (live_list p) x in
      \<lparr>p_next = nx(x := free_list p), p_prev = pv(x := None), live_list = hd, free_list = Some x\<rparr>)"

subsection \<open>The two lists\<close>

definition pool_ok :: "object_pool \<Rightarrow> ptr list \<Rightarrow> ptr list \<Rightarrow> bool" where
  "pool_ok p live free \<longleftrightarrow> dlist (p_next p) (p_prev p) None (live_list p) live \<and>
     chain (p_next p) (free_list p) free \<and> distinct (live @ free)"

lemma pool_ok_new: "pool_ok new_pool [] []"
  by (simp add: pool_ok_def new_pool_def)

lemma pool_first_live: "pool_ok p live free \<Longrightarrow> pool_first p = (case live of [] \<Rightarrow> None | x # _ \<Rightarrow> Some x)"
  by (auto simp: pool_ok_def pool_first_def dest: dlist_head)

text \<open>An object is taken from the freed ones, last freed first, or is new; it becomes the first of the
  live ones.\<close>

lemma pool_alloc_ok:
  assumes "pool_ok p live free" "fresh \<notin> set live \<union> set free" "pool_alloc fresh p = (x, p')"
  shows "pool_ok p' (x # live) (tl free) \<and> x \<notin> set live \<and> x = (if free = [] then fresh else hd free)"
proof -
  have d: "dlist (p_next p) (p_prev p) None (live_list p) live" and c: "chain (p_next p) (free_list p) free"
    and dis: "distinct (live @ free)"
    using assms(1) by (simp_all add: pool_ok_def)
  define y where "y = (if free = [] then fresh else hd free)"
  have y: "distinct (y # live)" "y \<notin> set (tl free)" using dis assms(2) by (cases free; auto simp: y_def)+
  have sel: "(case free_list p of Some x \<Rightarrow> (x, p_next p x) | None \<Rightarrow> (fresh, None)) = (y, free_list p')"
    "chain (p_next p) (free_list p') (tl free)"
    using c assms(3) by (cases free; auto simp: pool_alloc_def y_def Let_def split: prod.splits)+
  obtain nx pv h where l: "link_front (p_next p) (p_prev p) (live_list p) y = (nx, pv, h)" by (metis prod.exhaust)
  have p': "x = y" "p' = \<lparr>p_next = nx, p_prev = pv, live_list = h, free_list = free_list p'\<rparr>"
    using assms(3) sel(1) l by (auto simp: pool_alloc_def Let_def split: prod.splits option.splits)
  have "dlist nx pv None h (y # live)" using dlist_link_front [OF d y(1)] l by simp
  moreover have "chain nx (free_list p') (tl free)"
    by (rule chain_frame [OF _ sel(2)]) (use l y(2) in \<open>auto simp: link_front_def\<close>)
  moreover have "distinct (y # live @ tl free)" using dis y by (cases free) auto
  ultimately show ?thesis using p' y by (auto simp: pool_ok_def y_def simp del: dlist.simps) (metis p'(2) object_pool.select_convs)+
qed

text \<open>Freeing moves a live object to the front of the freed ones.\<close>

lemma pool_free_ok:
  assumes "pool_ok p (as @ x # bs) free"
  shows "pool_ok (pool_free x p) (as @ bs) (x # free)"
proof -
  have d: "dlist (p_next p) (p_prev p) None (live_list p) (as @ x # bs)" and c: "chain (p_next p) (free_list p) free"
    and dis: "distinct (as @ x # bs)" "distinct (as @ bs @ x # free)"
    using assms by (auto simp: pool_ok_def)
  obtain nx pv h where u: "unlink (p_next p) (p_prev p) (live_list p) x = (nx, pv, h)" by (metis prod.exhaust)
  have k: "dlist nx pv None h (as @ bs)" "\<And>y. y \<notin> set as \<Longrightarrow> nx y = p_next p y"
    using dlist_unlink [OF d dis(1)] u by auto
  have "dlist (nx(x := free_list p)) (pv(x := None)) None h (as @ bs)"
    by (rule dlist_frame [OF _ k(1)]) (use dis(1) in auto)
  moreover have "chain (nx(x := free_list p)) (free_list p) free"
    by (rule chain_frame [OF _ c]) (use dis k(2) in auto)
  ultimately show ?thesis using u dis by (simp add: pool_ok_def pool_free_def)
qed

subsection \<open>What users of a pool rely on\<close>

locale object_store =
  fixes alloc :: "'o \<Rightarrow> 's \<Rightarrow> 'o \<times> 's" and release :: "'o \<Rightarrow> 's \<Rightarrow> 's" and first :: "'s \<Rightarrow> 'o option"
    and has :: "'s \<Rightarrow> 'o list \<Rightarrow> 'o list \<Rightarrow> bool"
  assumes alloc_live: "\<lbrakk>has s live spare; fresh \<notin> set live \<union> set spare; alloc fresh s = (x, s')\<rbrakk>
      \<Longrightarrow> has s' (x # live) (tl spare) \<and> x \<notin> set live \<and> x = (if spare = [] then fresh else hd spare)"
    and release_split: "has s (as @ x # bs) spare \<Longrightarrow> has (release x s) (as @ bs) (x # spare)"
    and first_live: "has s live spare \<Longrightarrow> first s = (case live of [] \<Rightarrow> None | x # _ \<Rightarrow> Some x)"
    and has_distinct: "has s live spare \<Longrightarrow> distinct (live @ spare)"
begin

lemma release_live:
  assumes "has s live spare" "x \<in> set live"
  shows "has (release x s) (remove1 x live) (x # spare)"
proof -
  obtain as bs where l: "live = as @ x # bs" using split_list [OF assms(2)] by blast
  then have "remove1 x live = as @ bs" using has_distinct [OF assms(1)] by (auto simp: remove1_append)
  then show ?thesis using release_split assms(1) l by simp
qed

lemma release_first: "has s (x # live) spare \<Longrightarrow> has (release x s) live (x # spare)"
  using release_split [of s "[]"] by simp

text \<open>What was released last is used again first.\<close>

lemma alloc_after_release:
  assumes "has s live spare" "x \<in> set live" "fresh \<notin> set live \<union> set spare" "alloc fresh (release x s) = (y, s')"
  shows "y = x \<and> has s' (x # remove1 x live) spare"
proof -
  have "fresh \<notin> set (remove1 x live) \<union> set (x # spare)" using assms(2,3) set_remove1_subset [of x live] by auto
  from alloc_live [OF release_live [OF assms(1,2)] this assms(4)] show ?thesis by auto
qed

end

interpretation pool: object_store pool_alloc pool_free pool_first pool_ok
proof unfold_locales
  fix p live free fresh x p'
  show "pool_ok p live free \<Longrightarrow> fresh \<notin> set live \<union> set free \<Longrightarrow> pool_alloc fresh p = (x, p') \<Longrightarrow>
      pool_ok p' (x # live) (tl free) \<and> x \<notin> set live \<and> x = (if free = [] then fresh else hd free)"
    by (rule pool_alloc_ok)
  show "pool_ok p live free \<Longrightarrow> pool_first p = (case live of [] \<Rightarrow> None | x # _ \<Rightarrow> Some x)" by (rule pool_first_live)
  show "pool_ok p live free \<Longrightarrow> distinct (live @ free)" by (simp add: pool_ok_def)
next
  fix p as x bs free
  show "pool_ok p (as @ x # bs) free \<Longrightarrow> pool_ok (pool_free x p) (as @ bs) (x # free)" by (rule pool_free_ok)
qed

end
