(* ===== verification/EpollReactor.thy ===== *)
theory EpollReactor
  imports ObjectPool AsioError
begin

text \<open>
  The descriptors of the epoll reactor (\<^verbatim>\<open>detail/epoll_reactor.hpp\<close> and
  \<^verbatim>\<open>detail/impl/epoll_reactor.ipp\<close>; its timers are in \<open>DeadlineTimer\<close> and \<open>TimeTraits\<close>). What the
  code does to the state of a descriptor under its mutex is a function. The system and the
  operations are parameters: \<open>perform op w\<close> tries an operation, \<open>ctl\<close> is \<^verbatim>\<open>epoll_ctl\<close> with 0 or the
  value of \<^verbatim>\<open>errno\<close>, and \<open>w\<close> is the state they work on. Calls of the scheduler are collected in a
  list. Epoll's flags have their Linux values.
\<close>

unbundle bit_operations_syntax

definition EPOLLIN :: "32 word" where "EPOLLIN = 1"
definition EPOLLPRI :: "32 word" where "EPOLLPRI = 2"
definition EPOLLOUT :: "32 word" where "EPOLLOUT = 4"
definition EPOLLERR :: "32 word" where "EPOLLERR = 8"
definition EPOLLHUP :: "32 word" where "EPOLLHUP = 16"
definition EPOLLET :: "32 word" where "EPOLLET = 0x80000000"

definition read_op :: nat where "read_op = 0"
definition write_op :: nat where "write_op = 1"
definition connect_op :: nat where "connect_op = 1"
definition except_op :: nat where "except_op = 2"
definition max_ops :: nat where "max_ops = 3"

datatype ctl_op = CTL_ADD | CTL_MOD | CTL_DEL

text \<open>What an event of epoll points to.\<close>

datatype epoll_data = Data_interrupter | Data_timer | Data_descriptor ptr

type_synonym 'w epoll_ctl = "ctl_op \<Rightarrow> int \<Rightarrow> 32 word \<Rightarrow> epoll_data \<Rightarrow> 'w \<Rightarrow> int \<times> 'w"
type_synonym 'w perform = "ptr \<Rightarrow> 'w \<Rightarrow> bool \<times> 'w"

text \<open>Calls of the scheduler. \<open>Destroyed\<close> are operations that go with a queue.\<close>

datatype io_call = Post_immediate ptr bool | Post_deferred "ptr list" | Started | Destroyed "ptr list"

subsection \<open>The state of a descriptor\<close>

record descriptor_state =
  ds_descriptor :: int
  registered_events :: "32 word"
  ds_ops :: "nat \<Rightarrow> ptr list"
  ds_shutdown :: bool
  task_result :: "32 word"

definition new_descriptor_state :: descriptor_state where
  "new_descriptor_state = \<lparr>ds_descriptor = 0, registered_events = 0, ds_ops = (\<lambda>_. []), ds_shutdown = False, task_result = 0\<rparr>"

definition set_ready_events :: "32 word \<Rightarrow> descriptor_state \<Rightarrow> descriptor_state" where
  "set_ready_events events s = s\<lparr>task_result := events\<rparr>"

definition push_op :: "nat \<Rightarrow> ptr \<Rightarrow> descriptor_state \<Rightarrow> descriptor_state" where
  "push_op j op s = s\<lparr>ds_ops := (ds_ops s)(j := ds_ops s j @ [op])\<rparr>"

text \<open>Starting an operation on a descriptor that is not shut down: it is completed, perhaps with an
  error, or waits.\<close>

datatype started = Done "error_code option" | Waiting

definition ds_start_op ::
    "'w perform \<Rightarrow> 'w epoll_ctl \<Rightarrow> ptr \<Rightarrow> nat \<Rightarrow> int \<Rightarrow> ptr \<Rightarrow> bool \<Rightarrow> descriptor_state \<Rightarrow> 'w \<Rightarrow> started \<times> descriptor_state \<times> 'w" where
  "ds_start_op perform ctl d op_type descriptor op allow_speculative s w =
     (if ds_ops s op_type \<noteq> [] then (Waiting, push_op op_type op s, w)
      else if allow_speculative \<and> (op_type \<noteq> read_op \<or> ds_ops s except_op = []) then
        (let (finished, w) = perform op w in
         if finished then (Done None, s, w)
         else if op_type = write_op \<and> registered_events s AND EPOLLOUT = 0 then
           (let events = registered_events s OR EPOLLOUT;
                (errno, w) = ctl CTL_MOD descriptor events (Data_descriptor d) w in
            if errno = 0 then (Waiting, push_op op_type op (s\<lparr>registered_events := registered_events s OR events\<rparr>), w)
            else (Done (Some (Error_code errno system_category)), s, w))
         else (Waiting, push_op op_type op s, w))
      else
        (let s = (if op_type = write_op then s\<lparr>registered_events := registered_events s OR EPOLLOUT\<rparr> else s);
             (_, w) = ctl CTL_MOD descriptor (registered_events s) (Data_descriptor d) w in
         (Waiting, push_op op_type op s, w)))"

text \<open>Performing the operations of a queue until one has to wait.\<close>

fun perform_queue :: "'w perform \<Rightarrow> ptr list \<Rightarrow> 'w \<Rightarrow> ptr list \<times> ptr list \<times> 'w" where
  "perform_queue perform [] w = ([], [], w)"
| "perform_queue perform (op # ops) w =
     (let (finished, w) = perform op w in
      if finished then (let (done, left, w) = perform_queue perform ops w in (op # done, left, w))
      else ([], op # ops, w))"

definition event_flag :: "nat \<Rightarrow> 32 word" where
  "event_flag j = [EPOLLIN, EPOLLOUT, EPOLLPRI] ! j"

definition covers :: "32 word \<Rightarrow> nat \<Rightarrow> bool" where
  "covers events j \<longleftrightarrow> events AND (event_flag j OR EPOLLERR OR EPOLLHUP) \<noteq> 0"

text \<open>The loop of \<^verbatim>\<open>perform_io\<close> from queue \<open>j - 1\<close> down.\<close>

fun perform_events :: "'w perform \<Rightarrow> 32 word \<Rightarrow> nat \<Rightarrow> (nat \<Rightarrow> ptr list) \<Rightarrow> 'w \<Rightarrow> ptr list \<times> (nat \<Rightarrow> ptr list) \<times> 'w" where
  "perform_events perform events 0 q w = ([], q, w)"
| "perform_events perform events (Suc j) q w =
     (if covers events j
      then (let (done, left, w) = perform_queue perform (q j) w;
                (done', q, w) = perform_events perform events j (q(j := left)) w in (done @ done', q, w))
      else perform_events perform events j q w)"

definition ds_perform_io ::
    "'w perform \<Rightarrow> 32 word \<Rightarrow> descriptor_state \<Rightarrow> 'w \<Rightarrow> ptr option \<times> io_call list \<times> descriptor_state \<times> 'w" where
  "ds_perform_io perform events s w =
     (let (done, q, w) = perform_events perform events max_ops (ds_ops s) w;
          s = s\<lparr>ds_ops := q\<rparr> in
      (case done of
         [] \<Rightarrow> (None, [Started], s, w)
       | op # ops \<Rightarrow> (Some op, (if ops \<noteq> [] then [Post_deferred ops] else []), s, w)))"

text \<open>\<^verbatim>\<open>do_complete\<close>: the operation to complete, when the descriptor is run by an owner.\<close>

definition descriptor_complete ::
    "'w perform \<Rightarrow> bool \<Rightarrow> 32 word \<Rightarrow> descriptor_state \<Rightarrow> 'w \<Rightarrow> ptr option \<times> io_call list \<times> descriptor_state \<times> 'w" where
  "descriptor_complete perform owner bytes_transferred s w =
     (if owner then ds_perform_io perform bytes_transferred s w else (None, [], s, w))"

text \<open>Emptying the queues, in the order of their types.\<close>

definition all_ops :: "descriptor_state \<Rightarrow> ptr list" where
  "all_ops s = concat (map (ds_ops s) [0..<max_ops])"

subsection \<open>The reactor\<close>

record reactor =
  r_state :: "ptr \<Rightarrow> descriptor_state"
  registered_descriptors :: object_pool
  op_ec :: "ptr \<Rightarrow> error_code"
  r_shutdown :: bool

definition set_state :: "ptr \<Rightarrow> descriptor_state \<Rightarrow> reactor \<Rightarrow> reactor" where
  "set_state d s r = r\<lparr>r_state := (r_state r)(d := s)\<rparr>"

definition abort_ops :: "ptr list \<Rightarrow> reactor \<Rightarrow> reactor" where
  "abort_ops ops r = r\<lparr>op_ec := (\<lambda>op. if op \<in> set ops then basic_error operation_aborted else op_ec r op)\<rparr>"

text \<open>\<open>fresh\<close> is where a new state would be, initialised, if the pool has none left.\<close>

definition allocate_descriptor_state :: "ptr \<Rightarrow> reactor \<Rightarrow> ptr \<times> reactor" where
  "allocate_descriptor_state fresh r =
     (let (d, p) = pool_alloc fresh (registered_descriptors r);
          r = (if free_list (registered_descriptors r) = None then set_state d new_descriptor_state r else r) in
      (d, r\<lparr>registered_descriptors := p\<rparr>))"

definition free_descriptor_state :: "ptr \<Rightarrow> reactor \<Rightarrow> reactor" where
  "free_descriptor_state d r = r\<lparr>registered_descriptors := pool_free d (registered_descriptors r)\<rparr>"

definition all_events :: "32 word" where
  "all_events = EPOLLIN OR EPOLLERR OR EPOLLHUP OR EPOLLPRI OR EPOLLET"

definition register_descriptor ::
    "'w epoll_ctl \<Rightarrow> ptr \<Rightarrow> int \<Rightarrow> reactor \<Rightarrow> 'w \<Rightarrow> int \<times> ptr \<times> reactor \<times> 'w" where
  "register_descriptor ctl fresh descriptor r w =
     (let (d, r) = allocate_descriptor_state fresh r;
          s = (r_state r d)\<lparr>ds_descriptor := descriptor, ds_shutdown := False\<rparr>;
          s = s\<lparr>registered_events := all_events\<rparr>;
          (errno, w) = ctl CTL_ADD descriptor all_events (Data_descriptor d) w in
      (errno, d, set_state d s r, w))"

definition register_internal_descriptor ::
    "'w epoll_ctl \<Rightarrow> ptr \<Rightarrow> nat \<Rightarrow> int \<Rightarrow> ptr \<Rightarrow> reactor \<Rightarrow> 'w \<Rightarrow> int \<times> ptr \<times> reactor \<times> 'w" where
  "register_internal_descriptor ctl fresh op_type descriptor op r w =
     (let (d, r) = allocate_descriptor_state fresh r;
          s = (r_state r d)\<lparr>ds_descriptor := descriptor, ds_shutdown := False\<rparr>;
          s = push_op op_type op s;
          s = s\<lparr>registered_events := all_events\<rparr>;
          (errno, w) = ctl CTL_ADD descriptor all_events (Data_descriptor d) w in
      (errno, d, set_state d s r, w))"

text \<open>The data of the target and of the source.\<close>

definition move_descriptor :: "ptr option \<Rightarrow> ptr option \<Rightarrow> ptr option \<times> ptr option" where
  "move_descriptor target source = (source, None)"

definition start_op ::
    "'w perform \<Rightarrow> 'w epoll_ctl \<Rightarrow> nat \<Rightarrow> int \<Rightarrow> ptr option \<Rightarrow> ptr \<Rightarrow> bool \<Rightarrow> bool \<Rightarrow> reactor \<Rightarrow> 'w \<Rightarrow>
     io_call list \<times> reactor \<times> 'w" where
  "start_op perform ctl op_type descriptor data op is_continuation allow_speculative r w =
     (case data of
        None \<Rightarrow> ([Post_immediate op is_continuation], r\<lparr>op_ec := (op_ec r)(op := basic_error bad_descriptor)\<rparr>, w)
      | Some d \<Rightarrow>
          if ds_shutdown (r_state r d) then ([Post_immediate op is_continuation], r, w)
          else
            (let (res, s, w) = ds_start_op perform ctl d op_type descriptor op allow_speculative (r_state r d) w;
                 r = set_state d s r in
             (case res of
                Waiting \<Rightarrow> ([Started], r, w)
              | Done None \<Rightarrow> ([Post_immediate op is_continuation], r, w)
              | Done (Some ec) \<Rightarrow> ([Post_immediate op is_continuation], r\<lparr>op_ec := (op_ec r)(op := ec)\<rparr>, w))))"

definition cancel_ops :: "ptr option \<Rightarrow> reactor \<Rightarrow> io_call list \<times> reactor" where
  "cancel_ops data r =
     (case data of
        None \<Rightarrow> ([], r)
      | Some d \<Rightarrow>
          let ops = all_ops (r_state r d) in
          ([Post_deferred ops], set_state d ((r_state r d)\<lparr>ds_ops := (\<lambda>_. [])\<rparr>) (abort_ops ops r)))"

definition deregister_descriptor ::
    "'w epoll_ctl \<Rightarrow> int \<Rightarrow> ptr option \<Rightarrow> bool \<Rightarrow> reactor \<Rightarrow> 'w \<Rightarrow> io_call list \<times> ptr option \<times> reactor \<times> 'w" where
  "deregister_descriptor ctl descriptor data closing r w =
     (case data of
        None \<Rightarrow> ([], None, r, w)
      | Some d \<Rightarrow>
          if ds_shutdown (r_state r d) then ([], Some d, r, w)
          else
            (let (_, w) = (if closing then (0, w) else ctl CTL_DEL descriptor 0 (Data_descriptor d) w);
                 ops = all_ops (r_state r d);
                 s = (r_state r d)\<lparr>ds_ops := (\<lambda>_. []), ds_descriptor := - 1, ds_shutdown := True\<rparr> in
             ([Post_deferred ops], None, free_descriptor_state d (set_state d s (abort_ops ops r)), w)))"

definition deregister_internal_descriptor ::
    "'w epoll_ctl \<Rightarrow> int \<Rightarrow> ptr option \<Rightarrow> reactor \<Rightarrow> 'w \<Rightarrow> io_call list \<times> ptr option \<times> reactor \<times> 'w" where
  "deregister_internal_descriptor ctl descriptor data r w =
     (case data of
        None \<Rightarrow> ([], None, r, w)
      | Some d \<Rightarrow>
          if ds_shutdown (r_state r d) then ([], Some d, r, w)
          else
            (let (_, w) = ctl CTL_DEL descriptor 0 (Data_descriptor d) w;
                 ops = all_ops (r_state r d);
                 s = (r_state r d)\<lparr>ds_ops := (\<lambda>_. []), ds_descriptor := - 1, ds_shutdown := True\<rparr> in
             ([Destroyed ops], None, free_descriptor_state d (set_state d s r), w)))"

subsection \<open>Waiting for events\<close>

text \<open>The timeout given to \<^verbatim>\<open>epoll_wait\<close>; \<open>get_timeout\<close> is that of the timer queues.\<close>

definition wait_timeout :: "bool \<Rightarrow> bool \<Rightarrow> int \<Rightarrow> int" where
  "wait_timeout have_timerfd block get_timeout =
     (if have_timerfd then (if block then - 1 else 0) else (if block then get_timeout else 0))"

text \<open>Dispatching the events: the descriptors that are to be run, in order, and whether the timers are to
  be looked at.\<close>

fun dispatch_events :: "bool \<Rightarrow> (epoll_data \<times> 32 word) list \<Rightarrow> bool \<Rightarrow> reactor \<Rightarrow> ptr list \<times> bool \<times> reactor" where
  "dispatch_events have_timerfd [] check_timers r = ([], check_timers, r)"
| "dispatch_events have_timerfd ((Data_interrupter, events) # evs) check_timers r =
     dispatch_events have_timerfd evs (check_timers \<or> \<not> have_timerfd) r"
| "dispatch_events have_timerfd ((Data_timer, events) # evs) check_timers r =
     dispatch_events have_timerfd evs True r"
| "dispatch_events have_timerfd ((Data_descriptor d, events) # evs) check_timers r =
     (let (ops, check_timers, r) =
        dispatch_events have_timerfd evs check_timers (set_state d (set_ready_events events (r_state r d)) r) in
      (d # ops, check_timers, r))"

text \<open>\<^verbatim>\<open>run\<close> up to the timers: \<open>epoll_wait\<close> gives the events that are ready after the timeout.\<close>

definition reactor_run ::
    "(int \<Rightarrow> 'w \<Rightarrow> (epoll_data \<times> 32 word) list \<times> 'w) \<Rightarrow> bool \<Rightarrow> int \<Rightarrow> bool \<Rightarrow> reactor \<Rightarrow> 'w \<Rightarrow>
     ptr list \<times> bool \<times> reactor \<times> 'w" where
  "reactor_run epoll_wait have_timerfd get_timeout block r w =
     (let (events, w) = epoll_wait (wait_timeout have_timerfd block get_timeout) w;
          (ops, check_timers, r) = dispatch_events have_timerfd events (\<not> have_timerfd) r in
      (ops, check_timers, r, w))"

definition interrupter_events :: "32 word" where
  "interrupter_events = EPOLLIN OR EPOLLERR OR EPOLLET"

definition reactor_interrupt :: "'w epoll_ctl \<Rightarrow> int \<Rightarrow> 'w \<Rightarrow> 'w" where
  "reactor_interrupt ctl read_descriptor w = snd (ctl CTL_MOD read_descriptor interrupter_events Data_interrupter w)"

subsection \<open>Making, forking and ending the reactor\<close>

definition EINVAL :: int where "EINVAL = 22"
definition ENOSYS :: int where "ENOSYS = 38"

text \<open>\<open>create1\<close> and \<open>create\<close> give the descriptor or the error; \<open>cloexec\<close> marks a descriptor.\<close>

definition do_epoll_create ::
    "('w \<Rightarrow> (int + int) \<times> 'w) \<Rightarrow> (int \<Rightarrow> 'w \<Rightarrow> (int + int) \<times> 'w) \<Rightarrow> (int \<Rightarrow> 'w \<Rightarrow> 'w) \<Rightarrow> 'w \<Rightarrow> (exn + int) \<times> 'w" where
  "do_epoll_create create1 create cloexec w =
     (let (fd, w) = create1 w;
          (fd, w) =
            (case fd of
               Inl e \<Rightarrow>
                 if e = EINVAL \<or> e = ENOSYS
                 then (let (fd, w) = create 20000 w in (case fd of Inr fd' \<Rightarrow> (fd, cloexec fd' w) | Inl _ \<Rightarrow> (fd, w)))
                 else (fd, w)
             | Inr _ \<Rightarrow> (fd, w)) in
      (case fd of Inr fd \<Rightarrow> (Inr fd, w) | Inl e \<Rightarrow> (Inl (System_error (Error_code e system_category)), w)))"

text \<open>No descriptor is \<open>-1\<close>.\<close>

definition do_timerfd_create ::
    "('w \<Rightarrow> (int + int) \<times> 'w) \<Rightarrow> ('w \<Rightarrow> (int + int) \<times> 'w) \<Rightarrow> (int \<Rightarrow> 'w \<Rightarrow> 'w) \<Rightarrow> 'w \<Rightarrow> int \<times> 'w" where
  "do_timerfd_create create_cloexec create cloexec w =
     (let (fd, w) = create_cloexec w in
      (case fd of
         Inr fd \<Rightarrow> (fd, w)
       | Inl e \<Rightarrow>
           if e = EINVAL
           then (let (fd, w) = create w in (case fd of Inr fd \<Rightarrow> (fd, cloexec fd w) | Inl _ \<Rightarrow> (- 1, w)))
           else (- 1, w)))"

definition add_own_descriptors :: "'w epoll_ctl \<Rightarrow> int \<Rightarrow> int \<Rightarrow> 'w \<Rightarrow> 'w" where
  "add_own_descriptors ctl read_descriptor timer_fd w =
     (let w = snd (ctl CTL_ADD read_descriptor interrupter_events Data_interrupter w);
          w = reactor_interrupt ctl read_descriptor w in
      if timer_fd \<noteq> - 1 then snd (ctl CTL_ADD timer_fd (EPOLLIN OR EPOLLERR) Data_timer w) else w)"

text \<open>After a fork the live descriptors are registered again, until one cannot be.\<close>

fun reregister :: "'w epoll_ctl \<Rightarrow> reactor \<Rightarrow> ptr list \<Rightarrow> 'w \<Rightarrow> (exn + unit) \<times> 'w" where
  "reregister ctl r [] w = (Inr (), w)"
| "reregister ctl r (d # ds) w =
     (let s = r_state r d; (errno, w) = ctl CTL_ADD (ds_descriptor s) (registered_events s) (Data_descriptor d) w in
      if errno \<noteq> 0 then (Inl (System_error (Error_code errno system_category)), w) else reregister ctl r ds w)"

text \<open>The walk over the live list that \<^verbatim>\<open>fork_service\<close> makes, with a bound on its steps.\<close>

fun live_from :: "nat \<Rightarrow> links \<Rightarrow> ptr option \<Rightarrow> ptr list option" where
  "live_from n nx None = Some []"
| "live_from 0 nx (Some d) = None"
| "live_from (Suc n) nx (Some d) = map_option ((#) d) (live_from n nx (nx d))"

text \<open>\<^verbatim>\<open>fork_service\<close>. A child makes the descriptors anew and registers everything with them; the
  operations on the system, the interrupter and \<^verbatim>\<open>update_timeout\<close> are parameters.\<close>

record 'w reactor_system =
  rs_close :: "int \<Rightarrow> 'w \<Rightarrow> 'w"
  rs_epoll_create :: "'w \<Rightarrow> (exn + int) \<times> 'w"
  rs_timerfd_create :: "'w \<Rightarrow> int \<times> 'w"
  rs_recreate :: "'w \<Rightarrow> int \<times> 'w"
  rs_ctl :: "int \<Rightarrow> 'w epoll_ctl"
  rs_update_timeout :: "int \<Rightarrow> 'w \<Rightarrow> 'w"

text \<open>The descriptors of epoll and of the timer are given, and returned with the result.\<close>

definition fork_service ::
    "'w reactor_system \<Rightarrow> bool \<Rightarrow> nat \<Rightarrow> int \<times> int \<Rightarrow> reactor \<Rightarrow> 'w \<Rightarrow> ((exn + unit) \<times> (int \<times> int) \<times> 'w) option" where
  "fork_service sys child n fds r w =
     (if \<not> child then Some (Inr (), fds, w)
      else
        (let (epoll_fd, timer_fd) = fds;
             w = (if epoll_fd \<noteq> - 1 then rs_close sys epoll_fd w else w);
             (fd, w) = rs_epoll_create sys w in
         (case fd of
            Inl e \<Rightarrow> Some (Inl e, (- 1, timer_fd), w)
          | Inr epoll_fd \<Rightarrow>
              let w = (if timer_fd \<noteq> - 1 then rs_close sys timer_fd w else w);
                  (timer_fd, w) = rs_timerfd_create sys w;
                  (read_descriptor, w) = rs_recreate sys w;
                  w = add_own_descriptors (rs_ctl sys epoll_fd) read_descriptor timer_fd w;
                  w = rs_update_timeout sys timer_fd w in
              (case live_from n (p_next (registered_descriptors r)) (pool_first (registered_descriptors r)) of
                 None \<Rightarrow> None
               | Some ds \<Rightarrow>
                   let (res, w) = reregister (rs_ctl sys epoll_fd) r ds w in Some (res, (epoll_fd, timer_fd), w)))))"

text \<open>Shutting down: each live descriptor gives up its operations and is freed; \<open>None\<close> when the bound on
  the steps is reached first.\<close>

fun shutdown_descriptors :: "nat \<Rightarrow> reactor \<Rightarrow> (ptr list \<times> reactor) option" where
  "shutdown_descriptors n r =
     (case pool_first (registered_descriptors r) of
        None \<Rightarrow> Some ([], r)
      | Some d \<Rightarrow>
          (case n of 0 \<Rightarrow> None
           | Suc n \<Rightarrow>
               let s = r_state r d;
                   r = free_descriptor_state d (set_state d (s\<lparr>ds_ops := (\<lambda>_. []), ds_shutdown := True\<rparr>) r) in
               map_option (\<lambda>(ops, r). (all_ops s @ ops, r)) (shutdown_descriptors n r)))"

declare shutdown_descriptors.simps [simp del]

definition reactor_shutdown :: "nat \<Rightarrow> ptr list \<Rightarrow> reactor \<Rightarrow> (io_call list \<times> reactor) option" where
  "reactor_shutdown n timer_ops r =
     map_option (\<lambda>(ops, r). ([Destroyed (ops @ timer_ops)], r)) (shutdown_descriptors n (r\<lparr>r_shutdown := True\<rparr>))"

end
