(* ===== verification/EpollReactorSpec.thy ===== *)
theory EpollReactorSpec
  imports EpollReactor SchedulerLive
begin

text \<open>
  What the reactor promises for descriptors: an operation that waits is performed when its
  descriptor becomes ready, although epoll reports each change once; performing and cancelling
  lose nothing; a state is used again only when it is empty; and what the reactor asks of the
  scheduler is what the scheduler's model does.
\<close>

subsection \<open>Performing\<close>

lemma perform_queue_parts:
  assumes "perform_queue perform ops w = (fin, left, w')"
  shows "ops = fin @ left" "left \<noteq> [] \<Longrightarrow> \<exists>w1. perform (hd left) w1 = (False, w')"
  using assms by (induction perform ops w arbitrary: fin left w' rule: perform_queue.induct)
    (fastforce simp: Let_def split: prod.splits if_splits)+

text \<open>The operations completed, queue by queue, are a prefix of each queue that the events cover.\<close>

lemma perform_events_parts:
  assumes "perform_events perform events n q w = (fin, q', w')"
  shows "(\<forall>j \<ge> n. q' j = q j) \<and>
    (\<exists>d. fin = concat (map d (rev [0..<n])) \<and> (\<forall>j < n. q j = d j @ q' j \<and> (\<not> covers events j \<longrightarrow> d j = [])))"
  using assms
proof (induction n arbitrary: q w fin q' w')
  case (Suc n)
  define dn where "dn = (if covers events n then fst (perform_queue perform (q n) w) else [])"
  obtain q1 w1 fin' where s: "perform_events perform events n q1 w1 = (fin', q', w')" "fin = dn @ fin'"
    "q n = dn @ q1 n" "\<And>j. j \<noteq> n \<Longrightarrow> q1 j = q j"
  proof (cases "covers events n")
    case True
    obtain f left w1 where p: "perform_queue perform (q n) w = (f, left, w1)" by (metis prod.exhaust)
    obtain fin' q2 w2 where e: "perform_events perform events n (q(n := left)) w1 = (fin', q2, w2)" by (metis prod.exhaust)
    show thesis
      by (rule that [of "q(n := left)" w1 fin'])
        (use Suc.prems True p e perform_queue_parts(1) [OF p] in \<open>simp_all add: dn_def\<close>)
  next
    case False
    then show thesis using Suc.prems by (intro that [of q w fin]) (simp_all add: dn_def)
  qed
  from Suc.IH [OF s(1)] obtain d where d: "\<forall>j \<ge> n. q' j = q1 j" "fin' = concat (map d (rev [0..<n]))"
    "\<forall>j < n. q1 j = d j @ q' j \<and> (\<not> covers events j \<longrightarrow> d j = [])" by blast
  have m: "map (d(n := dn)) (rev [0..<n]) = map d (rev [0..<n])" by simp
  have "fin = concat (map (d(n := dn)) (rev [0..<Suc n]))" using d(2) s(2) m by simp
  moreover have "q j = (d(n := dn)) j @ q' j \<and> (\<not> covers events j \<longrightarrow> (d(n := dn)) j = [])" if "j < Suc n" for j
    using that d(1,3) s(3,4) by (cases "j = n") (auto simp: dn_def less_Suc_eq)
  moreover have "\<forall>j \<ge> Suc n. q' j = q j" using d(1) s(4) by simp
  ultimately show ?case by blast
qed simp

subsection \<open>The system\<close>

text \<open>What epoll has for a descriptor: the types of operation it is ready for, the events it is
  registered for, and those it has still to report. Reporting is edge triggered. The last component records
  whether an accept on the descriptor has ever met a connection that was aborted.\<close>

record kernel =
  k_ready :: "nat \<Rightarrow> bool"
  k_events :: "32 word"
  k_pending :: "32 word"
  k_aborted :: bool

text \<open>Trying an operation does not make a descriptor ready. One that is not finished would block, and the
  descriptor is not ready for its type, unless it has met an aborted connection (\<open>SocketReactor\<close> shows this of
  the operations on sockets).\<close>

definition only_uses :: "'k kernel_scheme \<Rightarrow> 'k kernel_scheme \<Rightarrow> bool" where
  "only_uses k k' \<longleftrightarrow> (\<forall>j. k_ready k' j \<longrightarrow> k_ready k j) \<and> k_events k' = k_events k \<and> k_pending k' = k_pending k \<and>
     (k_aborted k \<longrightarrow> k_aborted k')"

definition perform_law :: "(ptr \<Rightarrow> nat) \<Rightarrow> 'k kernel_scheme perform \<Rightarrow> bool" where
  "perform_law kind perform \<longleftrightarrow>
     (\<forall>op k b k'. perform op k = (b, k') \<longrightarrow> only_uses k k' \<and> (\<not> b \<longrightarrow> \<not> k_ready k' (kind op) \<or> k_aborted k'))"

text \<open>A successful \<^verbatim>\<open>EPOLL_CTL_MOD\<close> sets the events and reports again what the descriptor is ready for; one
  that fails changes nothing.\<close>

definition ctl_law :: "'k kernel_scheme epoll_ctl \<Rightarrow> bool" where
  "ctl_law ctl \<longleftrightarrow>
     (\<forall>fd ev data k e k'. ctl CTL_MOD fd ev data k = (e, k') \<longrightarrow>
        k_ready k' = k_ready k \<and> k_aborted k' = k_aborted k \<and>
        (if e = 0
         then k_events k' = ev \<and> (\<forall>j < max_ops. covers (k_pending k) j \<longrightarrow> covers (k_pending k') j) \<and>
           (\<forall>j < max_ops. k_ready k j \<and> ev AND event_flag j \<noteq> 0 \<longrightarrow> covers (k_pending k') j)
         else k_events k' = k_events k \<and> k_pending k' = k_pending k))"

lemma perform_lawD:
  assumes "perform_law kind perform" "perform op k = (b, k')"
  shows "\<not> b \<Longrightarrow> \<not> k_ready k' (kind op) \<or> k_aborted k'" "k_ready k' j \<Longrightarrow> k_ready k j" "k_events k' = k_events k"
    "k_pending k' = k_pending k" "k_aborted k \<Longrightarrow> k_aborted k'"
  using assms unfolding perform_law_def only_uses_def by blast+

lemma perform_queue_law:
  assumes "perform_law kind perform" "perform_queue perform ops k = (fin, left, k')"
  shows "only_uses k k' \<and> (left \<noteq> [] \<longrightarrow> \<not> k_ready k' (kind (hd left)) \<or> k_aborted k')"
  using assms(2)
proof (induction ops arbitrary: k fin left)
  case (Cons op ops)
  obtain b k1 where p: "perform op k = (b, k1)" by force
  note l = perform_lawD [OF assms(1) p]
  show ?case
  proof (cases b)
    case True
    obtain fin' where r: "perform_queue perform ops k1 = (fin', left, k')"
      using Cons.prems p True by (auto simp: Let_def split: prod.splits)
    show ?thesis using Cons.IH [OF r] l by (auto simp: only_uses_def)
  next
    case False
    then show ?thesis using Cons.prems p l by (auto simp: only_uses_def)
  qed
qed (simp add: only_uses_def)

lemma perform_events_law:
  assumes law: "perform_law kind perform" and e: "perform_events perform events n q k = (fin, q', k')"
    and kinds: "\<forall>j < n. \<forall>op \<in> set (q j). kind op = j"
  shows "only_uses k k' \<and> (\<forall>j < n. covers events j \<and> q' j \<noteq> [] \<longrightarrow> \<not> k_ready k' j \<or> k_aborted k')"
  using e kinds
proof (induction n arbitrary: q k fin)
  case (Suc n)
  show ?case
  proof (cases "covers events n")
    case True
    obtain f left k1 where p: "perform_queue perform (q n) k = (f, left, k1)" by (metis prod.exhaust)
    obtain fin' where e: "perform_events perform events n (q(n := left)) k1 = (fin', q', k')"
      using Suc.prems(1) True p by (auto simp: Let_def split: prod.splits)
    note l = perform_queue_law [OF law p]
    have IH: "only_uses k1 k' \<and> (\<forall>j < n. covers events j \<and> q' j \<noteq> [] \<longrightarrow> \<not> k_ready k' j \<or> k_aborted k')"
      by (rule Suc.IH [OF e]) (use Suc.prems(2) in auto)
    have "q' n = left" using perform_events_parts [OF e] by auto
    moreover have "kind (hd left) = n" if "left \<noteq> []"
      using that Suc.prems(2) perform_queue_parts(1) [OF p] by (cases left) auto
    ultimately show ?thesis using IH l unfolding only_uses_def by (metis less_Suc_eq)
  next
    case False
    then have "perform_events perform events n q k = (fin, q', k')" using Suc.prems(1) by simp
    from Suc.IH [OF this] show ?thesis using Suc.prems(2) False by (auto simp: less_Suc_eq)
  qed
qed (simp add: only_uses_def)

subsection \<open>A descriptor and its threads\<close>

text \<open>A registered descriptor: its state, what epoll has for it, whether it is in the queue of the
  scheduler, and the events with which threads have taken it from there. The last component records whether
  a call of \<^verbatim>\<open>epoll_ctl\<close> whose result is not checked has ever failed.\<close>

record 'k descriptor_world =
  dw_state :: descriptor_state
  dw_kernel :: 'k
  dw_queued :: bool
  dw_running :: "32 word list"
  dw_unchecked :: bool

text \<open>The result of \<^verbatim>\<open>epoll_ctl\<close> is not checked when no attempt is made to perform the operation first.\<close>

definition unchecked_mod :: "nat \<Rightarrow> bool \<Rightarrow> descriptor_state \<Rightarrow> bool" where
  "unchecked_mod op_type spec s \<longleftrightarrow>
     ds_ops s op_type = [] \<and> \<not> (spec \<and> (op_type \<noteq> read_op \<or> ds_ops s except_op = []))"

definition mod_events :: "nat \<Rightarrow> descriptor_state \<Rightarrow> 32 word" where
  "mod_events op_type s = (if op_type = write_op then registered_events s OR EPOLLOUT else registered_events s)"

inductive descriptor_step ::
    "'k kernel_scheme perform \<Rightarrow> 'k kernel_scheme epoll_ctl \<Rightarrow> (ptr \<Rightarrow> nat) \<Rightarrow>
     'k kernel_scheme descriptor_world \<Rightarrow> 'k kernel_scheme descriptor_world \<Rightarrow> bool"
  for perform ctl kind where
  Change: "\<lbrakk>k_events k' = k_events (dw_kernel w); k_aborted k' = k_aborted (dw_kernel w);
      \<forall>j < max_ops. covers (k_pending (dw_kernel w)) j \<longrightarrow> covers (k_pending k') j;
      \<forall>j < max_ops. k_ready k' j \<and> \<not> k_ready (dw_kernel w) j \<and> k_events k' AND event_flag j \<noteq> 0 \<longrightarrow> covers (k_pending k') j\<rbrakk>
    \<Longrightarrow> descriptor_step perform ctl kind w (w\<lparr>dw_kernel := k'\<rparr>)"
| Report: "\<lbrakk>\<not> dw_queued w; k = dw_kernel w\<rbrakk>
    \<Longrightarrow> descriptor_step perform ctl kind w
      (w\<lparr>dw_state := set_ready_events (k_pending k) (dw_state w), dw_queued := True, dw_kernel := k\<lparr>k_pending := 0\<rparr>\<rparr>)"
| Take: "dw_queued w
    \<Longrightarrow> descriptor_step perform ctl kind w (w\<lparr>dw_queued := False, dw_running := dw_running w @ [task_result (dw_state w)]\<rparr>)"
| Perform: "\<lbrakk>i < length (dw_running w); ds_perform_io perform (dw_running w ! i) (dw_state w) (dw_kernel w) = (first, calls, s, k)\<rbrakk>
    \<Longrightarrow> descriptor_step perform ctl kind w
      (w\<lparr>dw_state := s, dw_kernel := k, dw_running := take i (dw_running w) @ drop (Suc i) (dw_running w)\<rparr>)"
| Start: "\<lbrakk>op_type < max_ops; kind op = op_type;
      failed = (unchecked_mod op_type spec (dw_state w) \<and>
        fst (ctl CTL_MOD fd (mod_events op_type (dw_state w)) (Data_descriptor d) (dw_kernel w)) \<noteq> 0);
      ds_start_op perform ctl d op_type fd op spec (dw_state w) (dw_kernel w) = (res, s, k)\<rbrakk>
    \<Longrightarrow> descriptor_step perform ctl kind w (w\<lparr>dw_state := s, dw_kernel := k, dw_unchecked := dw_unchecked w \<or> failed\<rparr>)"
| Cancel: "descriptor_step perform ctl kind w (w\<lparr>dw_state := (dw_state w)\<lparr>ds_ops := (\<lambda>_. [])\<rparr>\<rparr>)"

text \<open>From the registration of the descriptor on.\<close>

definition just_registered :: "'k kernel_scheme descriptor_world \<Rightarrow> bool" where
  "just_registered w \<longleftrightarrow> ds_ops (dw_state w) = (\<lambda>_. []) \<and> registered_events (dw_state w) = all_events \<and>
     k_events (dw_kernel w) = all_events"

inductive descriptor_reachable ::
    "'k kernel_scheme perform \<Rightarrow> 'k kernel_scheme epoll_ctl \<Rightarrow> (ptr \<Rightarrow> nat) \<Rightarrow> 'k kernel_scheme descriptor_world \<Rightarrow> bool"
  for perform ctl kind where
  registered: "just_registered w \<Longrightarrow> descriptor_reachable perform ctl kind w"
| step: "\<lbrakk>descriptor_reachable perform ctl kind w; descriptor_step perform ctl kind w w'\<rbrakk> \<Longrightarrow> descriptor_reachable perform ctl kind w'"

definition noticed :: "'k kernel_scheme descriptor_world \<Rightarrow> nat \<Rightarrow> bool" where
  "noticed w j \<longleftrightarrow> covers (k_pending (dw_kernel w)) j \<or> (dw_queued w \<and> covers (task_result (dw_state w)) j) \<or>
     (\<exists>ev \<in> set (dw_running w). covers ev j)"

definition watched :: "(ptr \<Rightarrow> nat) \<Rightarrow> 'k kernel_scheme descriptor_world \<Rightarrow> bool" where
  "watched kind w \<longleftrightarrow>
     k_events (dw_kernel w) = registered_events (dw_state w) \<and>
     registered_events (dw_state w) AND EPOLLIN \<noteq> 0 \<and> registered_events (dw_state w) AND EPOLLPRI \<noteq> 0 \<and>
     (ds_ops (dw_state w) write_op \<noteq> [] \<longrightarrow> registered_events (dw_state w) AND EPOLLOUT \<noteq> 0) \<and>
     (\<forall>j < max_ops. \<forall>op \<in> set (ds_ops (dw_state w) j). kind op = j) \<and>
     (\<forall>j < max_ops. ds_ops (dw_state w) j \<noteq> [] \<and> k_ready (dw_kernel w) j \<longrightarrow> noticed w j \<or> k_aborted (dw_kernel w))"

lemma less_max_ops: "j < max_ops \<longleftrightarrow> j = read_op \<or> j = write_op \<or> j = except_op"
  by (auto simp: max_ops_def read_op_def write_op_def except_op_def)

lemma event_flag_simps [simp]:
  "event_flag read_op = EPOLLIN" "event_flag write_op = EPOLLOUT" "event_flag except_op = EPOLLPRI"
  by (simp_all add: event_flag_def read_op_def write_op_def except_op_def)

lemma or_flag:
  fixes x y f :: "32 word"
  shows "x AND f \<noteq> 0 \<Longrightarrow> (x OR y) AND f \<noteq> 0" "f \<noteq> 0 \<Longrightarrow> (y OR f) AND f \<noteq> 0"
  by (simp_all add: bit.conj_disj_distrib2 or_eq_0_iff word_ao_absorbs)

lemma event_flag_nonzero: "EPOLLIN \<noteq> 0" "EPOLLOUT \<noteq> 0" "EPOLLPRI \<noteq> 0"
  by (simp_all add: EPOLLIN_def EPOLLOUT_def EPOLLPRI_def)

lemma covers_zero [simp]: "\<not> covers 0 j"
  by (simp add: covers_def)

lemma watched_registered: "just_registered w \<Longrightarrow> watched kind w"
  by (auto simp: just_registered_def watched_def all_events_def EPOLLIN_def EPOLLPRI_def EPOLLERR_def EPOLLHUP_def EPOLLET_def)

text \<open>What starting an operation does to the queues and to epoll's view of the descriptor.\<close>

lemma ds_start_op_effect:
  assumes pl: "perform_law kind perform" and cl: "ctl_law ctl" and j: "j < max_ops" "kind op = j"
    and ok: "unchecked_mod j spec s \<Longrightarrow> fst (ctl CTL_MOD fd (mod_events j s) (Data_descriptor d) k) = 0"
    and st: "ds_start_op perform ctl d j fd op spec s k = (res, s', k')"
    and ev: "k_events k = registered_events s" "j = write_op \<Longrightarrow> ds_ops s j \<noteq> [] \<Longrightarrow> registered_events s AND EPOLLOUT \<noteq> 0"
      "registered_events s AND EPOLLIN \<noteq> 0" "registered_events s AND EPOLLPRI \<noteq> 0"
  shows "(res = Waiting \<and> ds_ops s' = (ds_ops s)(j := ds_ops s j @ [op]) \<or> res \<noteq> Waiting \<and> ds_ops s' = ds_ops s) \<and>
    k_events k' = registered_events s' \<and> (registered_events s' = registered_events s \<or> registered_events s' = registered_events s OR EPOLLOUT) \<and>
    (res = Waiting \<and> j = write_op \<longrightarrow> registered_events s' AND EPOLLOUT \<noteq> 0) \<and>
    task_result s' = task_result s \<and> (\<forall>i. k_ready k' i \<longrightarrow> k_ready k i) \<and> (k_aborted k \<longrightarrow> k_aborted k') \<and>
    (\<forall>i < max_ops. covers (k_pending k) i \<longrightarrow> covers (k_pending k') i) \<and>
    (ds_ops s j = [] \<and> res = Waiting \<and> k_ready k' j \<longrightarrow> covers (k_pending k') j \<or> k_aborted k')"
proof (cases "ds_ops s j = []")
  case False
  then show ?thesis using st ev by (auto simp: ds_start_op_def push_op_def)
next
  case e: True
  show ?thesis
  proof (cases "spec \<and> (j \<noteq> read_op \<or> ds_ops s except_op = [])")
    case sp: True
    obtain b k1 where p: "perform op k = (b, k1)" by force
    note l = perform_lawD [OF pl p]
    have call: "ds_start_op perform ctl d j fd op spec s k =
        (if b then (Done None, s, k1)
         else if j = write_op \<and> registered_events s AND EPOLLOUT = 0 then
           (let events = registered_events s OR EPOLLOUT; (errno, w) = ctl CTL_MOD fd events (Data_descriptor d) k1 in
            if errno = 0 then (Waiting, push_op j op (s\<lparr>registered_events := registered_events s OR events\<rparr>), w)
            else (Done (Some (Error_code errno system_category)), s, w))
         else (Waiting, push_op j op s, k1))"
      using e sp p unfolding ds_start_op_def by (simp only: Let_def split if_True if_False simp_thms)
    consider "b" | "\<not> b" "\<not> (j = write_op \<and> registered_events s AND EPOLLOUT = 0)" |
      "\<not> b" "j = write_op \<and> registered_events s AND EPOLLOUT = 0" by blast
    then show ?thesis
    proof cases
      case 1
      then have "res = Done None" "s' = s" "k' = k1" using st call by simp_all
      then show ?thesis using l ev by simp
    next
      case 2
      then have "res = Waiting" "s' = push_op j op s" "k' = k1"
        using st unfolding call by (simp_all only: if_False if_not_P [OF 2(2)] prod.inject)
      then show ?thesis using l ev 2 j(2) by (auto simp: push_op_def)
    next
      case 3
      obtain er k2 where c: "ctl CTL_MOD fd (registered_events s OR EPOLLOUT) (Data_descriptor d) k1 = (er, k2)" by force
      have cl': "k_ready k2 = k_ready k1" "k_aborted k2 = k_aborted k1" "if er = 0
         then k_events k2 = registered_events s OR EPOLLOUT \<and> (\<forall>j < max_ops. covers (k_pending k1) j \<longrightarrow> covers (k_pending k2) j)
         else k_events k2 = k_events k1 \<and> k_pending k2 = k_pending k1"
        using cl c unfolding ctl_law_def by (blast, blast, metis)
      show ?thesis
      proof (cases "er = 0")
        case True
        then have "res = Waiting" "k' = k2"
          "s' = push_op j op (s\<lparr>registered_events := registered_events s OR EPOLLOUT\<rparr>)"
          using st call 3 c by (simp_all add: Let_def or.assoc [symmetric])
        then show ?thesis using l ev cl' True 3 j(2) or_flag(2) [OF event_flag_nonzero(2)] by (auto simp: push_op_def)
      next
        case False
        then have "res = Done (Some (Error_code er system_category))" "s' = s" "k' = k2"
          using st call 3 c by (simp_all add: Let_def)
        then show ?thesis using l ev cl' False by simp
      qed
    qed
  next
    case sp: False
    let ?s = "if j = write_op then s\<lparr>registered_events := registered_events s OR EPOLLOUT\<rparr> else s"
    have u: "unchecked_mod j spec s" using e sp by (simp add: unchecked_mod_def)
    have m: "registered_events ?s = mod_events j s" by (simp add: mod_events_def)
    obtain k2 where c: "ctl CTL_MOD fd (mod_events j s) (Data_descriptor d) k = (0, k2)"
      using ok [OF u] by (metis prod.collapse)
    have cl': "k_ready k2 = k_ready k" "k_aborted k2 = k_aborted k" "k_events k2 = mod_events j s"
      "\<forall>i < max_ops. covers (k_pending k) i \<longrightarrow> covers (k_pending k2) i"
      "\<forall>i < max_ops. k_ready k i \<and> mod_events j s AND event_flag i \<noteq> 0 \<longrightarrow> covers (k_pending k2) i"
      using cl c unfolding ctl_law_def by metis+
    have fl: "mod_events j s AND event_flag j \<noteq> 0"
      using j(1) ev(3,4) or_flag(2) [OF event_flag_nonzero(2)]
      by (auto simp: less_max_ops mod_events_def read_op_def write_op_def except_op_def event_flag_def)
    have r: "res = Waiting" "k' = k2" "s' = push_op j op ?s"
      using st e sp c m unfolding ds_start_op_def by (auto simp: Let_def)
    show ?thesis
      using cl' fl j r or_flag(2) [OF event_flag_nonzero(2)] by (auto simp: push_op_def mod_events_def)
  qed
qed

lemma watched_step:
  assumes pl: "perform_law kind perform" and cl: "ctl_law ctl" and w: "watched kind w"
    and st: "descriptor_step perform ctl kind w w'" and checked: "\<not> dw_unchecked w'"
  shows "watched kind w'"
  using st
proof cases
  case (Change k')
  have "covers (k_pending k') j" if j: "j < max_ops" "ds_ops (dw_state w) j \<noteq> []" "k_ready k' j" "\<not> k_ready (dw_kernel w) j" for j
  proof -
    have "k_events k' AND event_flag j \<noteq> 0" using w j(1,2) Change(2) by (auto simp: watched_def less_max_ops)
    then show ?thesis using Change(5) j by blast
  qed
  then show ?thesis using w Change(2,3,4) unfolding watched_def noticed_def Change(1) by simp blast
next
  case (Report k)
  then show ?thesis using w by (auto simp: watched_def noticed_def set_ready_events_def)
next
  case Take
  then show ?thesis using w by (auto simp: watched_def noticed_def)
next
  case (Perform i first calls s k)
  let ?ev = "dw_running w ! i"
  obtain fin q k1 where e: "perform_events perform ?ev max_ops (ds_ops (dw_state w)) (dw_kernel w) = (fin, q, k1)"
    by (metis prod.exhaust)
  then have s: "s = (dw_state w)\<lparr>ds_ops := q\<rparr>" "k = k1"
    using Perform(3) by (auto simp: ds_perform_io_def Let_def split: list.splits)
  have kinds: "\<forall>j < max_ops. \<forall>op \<in> set (ds_ops (dw_state w) j). kind op = j" using w by (simp add: watched_def)
  note l = perform_events_law [OF pl e kinds] and p = perform_events_parts [OF e]
  have sub: "set (q j) \<subseteq> set (ds_ops (dw_state w) j)" "\<not> covers ?ev j \<Longrightarrow> q j = ds_ops (dw_state w) j" if "j < max_ops" for j
    using p that by force+
  have run: "set (dw_running w) \<subseteq> insert ?ev (set (take i (dw_running w) @ drop (Suc i) (dw_running w)))"
    using id_take_nth_drop [OF Perform(2)] by (metis Un_insert_right list.simps(15) set_append subset_refl)
  have l1: "\<forall>j. k_ready k1 j \<longrightarrow> k_ready (dw_kernel w) j" "k_events k1 = k_events (dw_kernel w)"
    "k_pending k1 = k_pending (dw_kernel w)" "k_aborted (dw_kernel w) \<longrightarrow> k_aborted k1"
    using l by (simp_all add: only_uses_def)
  have "noticed w' j \<or> k_aborted k1" if j: "j < max_ops" "q j \<noteq> []" "k_ready k1 j" for j
  proof (cases "k_aborted k1")
    case False
    then have nc: "\<not> covers ?ev j" using l j by blast
    then have "noticed w j" using w l1 sub(2) [OF j(1)] j False by (auto simp: watched_def)
    then show ?thesis using l1 nc run unfolding noticed_def Perform(1) s by auto
  qed simp
  moreover have "q write_op \<noteq> [] \<longrightarrow> ds_ops (dw_state w) write_op \<noteq> []"
    using sub(1) [of write_op] by (auto simp: max_ops_def write_op_def)
  moreover have "kind op = j" if "j < max_ops" "op \<in> set (q j)" for j op using kinds sub(1) [OF that(1)] that by blast
  moreover have "k_events k1 = registered_events (dw_state w)" using l1 w by (simp add: watched_def)
  ultimately show ?thesis using w by (simp add: watched_def Perform(1) s)
next
  case (Start j op failed spec fd d res s k)
  have ok: "unchecked_mod j spec (dw_state w) \<Longrightarrow>
      fst (ctl CTL_MOD fd (mod_events j (dw_state w)) (Data_descriptor d) (dw_kernel w)) = 0"
    using Start(1,4) checked by simp
  have ev: "k_events (dw_kernel w) = registered_events (dw_state w)"
    "j = write_op \<Longrightarrow> ds_ops (dw_state w) j \<noteq> [] \<Longrightarrow> registered_events (dw_state w) AND EPOLLOUT \<noteq> 0"
    "registered_events (dw_state w) AND EPOLLIN \<noteq> 0" "registered_events (dw_state w) AND EPOLLPRI \<noteq> 0"
    using w by (simp_all add: watched_def)
  note e = ds_start_op_effect [OF pl cl Start(2,3) ok Start(5) ev]
  have "noticed w' i \<or> k_aborted k" if i: "i < max_ops" "ds_ops s i \<noteq> []" "k_ready k i" for i
  proof (cases "ds_ops (dw_state w) i = []")
    case True
    then have "i = j" "res = Waiting" using e i(2) by (auto split: if_splits)
    then have "covers (k_pending k) i \<or> k_aborted k" using e True i(3) by blast
    then show ?thesis by (auto simp: noticed_def Start(1))
  next
    case False
    then have "noticed w i \<or> k_aborted (dw_kernel w)" using w e i by (auto simp: watched_def)
    then show ?thesis using e i(1) by (auto simp: noticed_def Start(1))
  qed
  moreover have "registered_events s AND f \<noteq> 0" if "registered_events (dw_state w) AND f \<noteq> 0" for f
    using e or_flag(1) [OF that] that by metis
  moreover have "kind op' = i" if i: "i < max_ops" "op' \<in> set (ds_ops s i)" for i op'
  proof -
    have "op' \<in> set (ds_ops (dw_state w) i) \<or> op' = op \<and> i = j" using e i(2) by (auto split: if_splits)
    then show ?thesis using w i(1) Start(3) by (auto simp: watched_def)
  qed
  moreover have "registered_events s AND EPOLLOUT \<noteq> 0" if q: "ds_ops s write_op \<noteq> []"
  proof (cases "ds_ops (dw_state w) write_op = []")
    case True
    then have "res = Waiting \<and> j = write_op" using e q by (auto split: if_splits)
    then show ?thesis using e by blast
  next
    case False
    then show ?thesis using w calculation(2) [of EPOLLOUT] by (simp add: watched_def)
  qed
  ultimately show ?thesis using w e by (simp add: watched_def Start(1))
next
  case Cancel
  then show ?thesis using w by (auto simp: watched_def)
qed

lemma unchecked_step: "\<lbrakk>descriptor_step perform ctl kind w w'; dw_unchecked w\<rbrakk> \<Longrightarrow> dw_unchecked w'"
  by (induction rule: descriptor_step.induct) auto

lemma readiness_noticed:
  assumes "perform_law kind perform" "ctl_law ctl" "descriptor_reachable perform ctl kind w" "\<not> dw_unchecked w"
  shows "watched kind w"
  using assms(3,4)
proof (induction rule: descriptor_reachable.induct)
  case (step w w')
  then have "\<not> dw_unchecked w" using unchecked_step by blast
  then show ?case using watched_step [OF assms(1,2)] step by blast
qed (rule watched_registered)

text \<open>A system that obeys the laws: an operation succeeds when the descriptor is ready for it, and uses
  the readiness up.\<close>

definition example_perform :: "kernel perform" where
  "example_perform op k =
     (if k_ready k (op mod 3) then (True, k\<lparr>k_ready := (k_ready k)(op mod 3 := False)\<rparr>) else (False, k))"

definition ready_events :: "32 word \<Rightarrow> kernel \<Rightarrow> 32 word" where
  "ready_events ev k =
     (if k_ready k 0 then ev AND EPOLLIN else 0) OR (if k_ready k 1 then ev AND EPOLLOUT else 0) OR
     (if k_ready k 2 then ev AND EPOLLPRI else 0)"

definition example_ctl :: "kernel epoll_ctl" where
  "example_ctl c fd ev data k = (0, k\<lparr>k_events := ev, k_pending := k_pending k OR ready_events ev k\<rparr>)"

lemma or_and_zero: "(x OR y) AND f = 0 \<longleftrightarrow> x AND f = 0 \<and> y AND f = (0 :: 32 word)"
  by (simp add: bit.conj_disj_distrib2 or_eq_0_iff)

lemma covers_or: "covers (x OR y) j \<longleftrightarrow> covers x j \<or> covers y j"
  by (simp add: covers_def or_and_zero)

lemma covers_and_flag: "ev AND event_flag j \<noteq> 0 \<Longrightarrow> covers (ev AND event_flag j) j"
proof -
  have "(ev AND event_flag j) AND event_flag j = ev AND event_flag j" by (simp add: and.assoc)
  moreover assume "ev AND event_flag j \<noteq> 0"
  ultimately show ?thesis
    unfolding covers_def by (metis bit.conj_disj_distrib or_eq_0_iff)
qed

lemma example_laws: "perform_law (\<lambda>op. op mod 3) example_perform" "ctl_law example_ctl"
proof -
  show "perform_law (\<lambda>op. op mod 3) example_perform"
    by (auto simp: perform_law_def only_uses_def example_perform_def split: if_splits)
  have "covers (ready_events ev k) j" if "j < max_ops" "k_ready k j" "ev AND event_flag j \<noteq> 0" for ev k j
    using that covers_and_flag [OF that(3)]
    by (auto simp: ready_events_def covers_or less_max_ops read_op_def write_op_def except_op_def event_flag_def)
  then show "ctl_law example_ctl" by (auto simp: ctl_law_def example_ctl_def covers_or)
qed

definition idle_descriptor :: "kernel descriptor_world" where
  "idle_descriptor = \<lparr>dw_state = new_descriptor_state\<lparr>registered_events := all_events\<rparr>,
     dw_kernel = \<lparr>k_ready = (\<lambda>_. False), k_events = all_events, k_pending = 0, k_aborted = False\<rparr>,
     dw_queued = False, dw_running = [], dw_unchecked = False\<rparr>"

definition arrived :: kernel where
  "arrived = \<lparr>k_ready = (\<lambda>j. j = 0), k_events = all_events, k_pending = EPOLLIN, k_aborted = False\<rparr>"

text \<open>
  The result of \<^verbatim>\<open>epoll_ctl\<close> has to be good in the branch of \<^verbatim>\<open>start_op\<close> that does not try the operation
  first: when it fails there the operation is queued all the same, on a descriptor that is ready
  and will not be reported, and nobody is told of the error.\<close>

theorem unchecked_ctl_strands_operation:
  "ds_start_op example_perform (\<lambda>c fd ev data k. (12, k)) 9 read_op 5 3 False (dw_state idle_descriptor) (arrived\<lparr>k_pending := 0\<rparr>) =
     (Waiting, push_op read_op 3 (dw_state idle_descriptor), arrived\<lparr>k_pending := 0\<rparr>) \<and>
   k_ready arrived read_op \<and> \<not> covers (k_pending (arrived\<lparr>k_pending := 0\<rparr>)) read_op"
  by (simp add: ds_start_op_def idle_descriptor_def new_descriptor_state_def arrived_def read_op_def write_op_def)

subsection \<open>What the scheduler is asked to do\<close>

lemma example_performs:
  "ds_perform_io example_perform EPOLLIN (push_op 0 3 (dw_state idle_descriptor)) arrived =
      (Some 3, [], dw_state idle_descriptor, arrived\<lparr>k_ready := (\<lambda>_. False)\<rparr>)"
  by (simp add: ds_perform_io_def max_ops_def eval_nat_numeral covers_def event_flag_def push_op_def idle_descriptor_def
        new_descriptor_state_def example_perform_def arrived_def EPOLLIN_def EPOLLERR_def EPOLLHUP_def EPOLLPRI_def EPOLLOUT_def
        fun_eq_iff)

text \<open>Running a descriptor completes, for exceptions, writing and reading in this order, a prefix of
  each queue that the events cover; nothing is lost and other queues stay. The first operation is
  for the thread, the rest are posted, and with none the count of work is raised.\<close>

theorem perform_io_exact:
  assumes "ds_perform_io perform events s w = (first, calls, s', w')"
  shows "\<exists>d. (\<forall>j. j < max_ops \<longrightarrow> ds_ops s j = d j @ ds_ops s' j \<and> (\<not> covers events j \<longrightarrow> d j = [])) \<and>
    (case d except_op @ d write_op @ d read_op of
       [] \<Rightarrow> first = None \<and> calls = [Started]
     | op # ops \<Rightarrow> first = Some op \<and> calls = (if ops = [] then [] else [Post_deferred ops]))"
proof -
  obtain fin q w1 where e: "perform_events perform events max_ops (ds_ops s) w = (fin, q, w1)" by (metis prod.exhaust)
  then have r: "ds_ops s' = q" "case fin of [] \<Rightarrow> first = None \<and> calls = [Started]
     | op # ops \<Rightarrow> first = Some op \<and> calls = (if ops = [] then [] else [Post_deferred ops])"
    using assms by (auto simp: ds_perform_io_def Let_def split: list.splits)
  from perform_events_parts [OF e] obtain d where d: "fin = concat (map d (rev [0..<max_ops]))"
    "\<forall>j < max_ops. ds_ops s j = d j @ q j \<and> (\<not> covers events j \<longrightarrow> d j = [])" by blast
  have "fin = d except_op @ d write_op @ d read_op"
    using d(1) by (simp add: max_ops_def except_op_def write_op_def read_op_def upt_rec numeral_2_eq_2)
  then show ?thesis using d(2) r by (intro exI [of _ d]) simp
qed

theorem perform_io_exact_witness:
  "\<exists>d. (\<forall>j. j < max_ops \<longrightarrow> ds_ops (push_op 0 3 (dw_state idle_descriptor)) j = d j @ [] \<and> (\<not> covers EPOLLIN j \<longrightarrow> d j = [])) \<and>
    (case d except_op @ d write_op @ d read_op of
       [] \<Rightarrow> Some (3 :: ptr) = None \<and> [] = [Started]
     | op # ops \<Rightarrow> Some 3 = Some op \<and> [] = (if ops = [] then [] else [Post_deferred ops]))"
proof -
  note example_performs
  from perform_io_exact [OF this] show ?thesis by (simp add: idle_descriptor_def new_descriptor_state_def)
qed

text \<open>The calls of the scheduler that the reactor makes, as the scheduler's model has them.\<close>

fun run_call :: "io_call \<Rightarrow> scheduler \<times> io_frame list \<Rightarrow> scheduler \<times> io_frame list" where
  "run_call (Post_immediate op cont) (s, st) = post_immediate_completion op cont st s"
| "run_call (Post_deferred ops) (s, st) = post_deferred_completions ops st s"
| "run_call Started (s, st) = (work_started s, st)"
| "run_call (Destroyed ops) (s, st) = (s, st)"

text \<open>
  The step of a descriptor in the model of the scheduler is the code of the reactor: whatever
  operations \<^verbatim>\<open>perform_io\<close> completes, the calls it makes and the operation it returns have the effect of
  that step.\<close>

theorem perform_io_is_scheduler_step:
  assumes "ds_perform_io perform events ds w = (first, calls, ds', w')"
  shows "\<exists>ops. (\<forall>op. count_list (all_ops ds) op = count_list ops op + count_list (all_ops ds') op) \<and>
    perform_io ops (Call m pw pq (InDescriptor d) # st) s =
      Some (foldl (\<lambda>x c. run_call c x)
        (s, Call m pw pq (case first of Some op \<Rightarrow> InHandler op | None \<Rightarrow> Nothing_done) # st) calls)"
proof -
  from perform_io_exact [OF assms] obtain d where d: "\<forall>j. j < max_ops \<longrightarrow> ds_ops ds j = d j @ ds_ops ds' j"
    and c: "case d except_op @ d write_op @ d read_op of
       [] \<Rightarrow> first = None \<and> calls = [Started]
     | op # ops \<Rightarrow> first = Some op \<and> calls = (if ops = [] then [] else [Post_deferred ops])" by blast
  let ?ops = "d except_op @ d write_op @ d read_op"
  have "count_list (all_ops ds) op = count_list ?ops op + count_list (all_ops ds') op" for op
    using d by (simp add: all_ops_def max_ops_def except_op_def write_op_def read_op_def upt_rec numeral_2_eq_2)
  moreover have "perform_io ?ops (Call m pw pq (InDescriptor d') # st) s =
      Some (foldl (\<lambda>x c. run_call c x)
        (s, Call m pw pq (case first of Some op \<Rightarrow> InHandler op | None \<Rightarrow> Nothing_done) # st) calls)" for d'
    using c by (cases ?ops) (auto simp: post_deferred_completions_def)
  ultimately show ?thesis by blast
qed

theorem perform_io_is_scheduler_step_witness:
  "\<exists>ops. (\<forall>op. count_list (all_ops (push_op 0 3 (dw_state idle_descriptor))) op =
        count_list ops op + count_list (all_ops (dw_state idle_descriptor)) op) \<and>
    perform_io ops [Call MRun 0 [] (InDescriptor 9)] (new_scheduler 2) =
      Some (new_scheduler 2, [Call MRun 0 [] (InHandler 3)])"
  using perform_io_is_scheduler_step [OF example_performs, of MRun 0 "[]" 9 "[]" "new_scheduler 2"] by simp

subsection \<open>States are used again only when they are empty\<close>

definition reactor_ok :: "reactor \<Rightarrow> ptr list \<Rightarrow> ptr list \<Rightarrow> bool" where
  "reactor_ok r live free \<longleftrightarrow> pool_ok (registered_descriptors r) live free \<and>
     (\<forall>d \<in> set free. (\<forall>j. ds_ops (r_state r d) j = []) \<and> ds_shutdown (r_state r d)) \<and>
     (\<forall>d \<in> set live. \<not> ds_shutdown (r_state r d))"

lemma allocate_ok:
  assumes "reactor_ok r live free" "fresh \<notin> set live \<union> set free" "allocate_descriptor_state fresh r = (d, r')"
  shows "pool_ok (registered_descriptors r') (d # live) (tl free) \<and> d \<notin> set live \<and> (\<forall>j. ds_ops (r_state r' d) j = []) \<and>
    (\<forall>e. e \<noteq> d \<longrightarrow> r_state r' e = r_state r e) \<and> op_ec r' = op_ec r"
proof -
  obtain p where p: "pool_alloc fresh (registered_descriptors r) = (d, p)" "registered_descriptors r' = p"
    using assms(3) by (auto simp: allocate_descriptor_state_def Let_def split: prod.splits)
  have pl: "pool_ok (registered_descriptors r) live free" using assms(1) by (simp add: reactor_ok_def)
  note a = pool.alloc_live [OF pl assms(2) p(1)]
  have f: "free_list (registered_descriptors r) = None \<longleftrightarrow> free = []"
    using pl by (cases free) (auto simp: pool_ok_def)
  have "\<forall>j. ds_ops (r_state r' d) j = []"
  proof (cases "free = []")
    case True
    then show ?thesis using assms(3) p f
      by (auto simp: allocate_descriptor_state_def set_state_def new_descriptor_state_def Let_def)
  next
    case False
    then have "d \<in> set free" using a by simp
    then show ?thesis using assms(1,3) p f False by (auto simp: allocate_descriptor_state_def reactor_ok_def Let_def)
  qed
  moreover have "r_state r' e = r_state r e" if "e \<noteq> d" for e
    using assms(3) p that by (auto simp: allocate_descriptor_state_def set_state_def Let_def)
  moreover have "op_ec r' = op_ec r" using assms(3) by (auto simp: allocate_descriptor_state_def set_state_def Let_def split: prod.splits)
  ultimately show ?thesis using a p(2) by blast
qed

lemma set_state_simps [simp]:
  "r_state (set_state d s r) = (r_state r)(d := s)" "registered_descriptors (set_state d s r) = registered_descriptors r"
  "op_ec (set_state d s r) = op_ec r" "r_state (abort_ops ops r) = r_state r"
  "registered_descriptors (abort_ops ops r) = registered_descriptors r"
  "r_state (free_descriptor_state d r) = r_state r"
  "registered_descriptors (free_descriptor_state d r) = pool_free d (registered_descriptors r)"
  by (simp_all add: set_state_def abort_ops_def free_descriptor_state_def)

text \<open>Steps of the program on the reactor. Data refers to a live state; a stale event may run any state.\<close>

inductive reactor_step :: "'w perform \<Rightarrow> 'w epoll_ctl \<Rightarrow> (reactor \<times> ptr list \<times> ptr list) \<Rightarrow> (reactor \<times> ptr list \<times> ptr list) \<Rightarrow> bool"
  for perform ctl where
  Register: "\<lbrakk>fresh \<notin> set live \<union> set free; register_descriptor ctl fresh fd r w = (e, d, r', w')\<rbrakk>
    \<Longrightarrow> reactor_step perform ctl (r, live, free) (r', d # live, tl free)"
| Register_internal: "\<lbrakk>fresh \<notin> set live \<union> set free; register_internal_descriptor ctl fresh j fd op r w = (e, d, r', w')\<rbrakk>
    \<Longrightarrow> reactor_step perform ctl (r, live, free) (r', d # live, tl free)"
| Start: "\<lbrakk>\<And>d. data = Some d \<Longrightarrow> d \<in> set live; start_op perform ctl j fd data op cont spec r w = (calls, r', w')\<rbrakk>
    \<Longrightarrow> reactor_step perform ctl (r, live, free) (r', live, free)"
| Cancel: "\<lbrakk>\<And>d. data = Some d \<Longrightarrow> d \<in> set live; cancel_ops data r = (calls, r')\<rbrakk>
    \<Longrightarrow> reactor_step perform ctl (r, live, free) (r', live, free)"
| Deregister: "\<lbrakk>d \<in> set live; deregister_descriptor ctl fd (Some d) closing r w = (calls, data, r', w')\<rbrakk>
    \<Longrightarrow> reactor_step perform ctl (r, live, free) (r', remove1 d live, d # free)"
| Deregister_internal: "\<lbrakk>d \<in> set live; deregister_internal_descriptor ctl fd (Some d) r w = (calls, data, r', w')\<rbrakk>
    \<Longrightarrow> reactor_step perform ctl (r, live, free) (r', remove1 d live, d # free)"
| Events: "dispatch_events tfd evs chk r = (ops, chk', r') \<Longrightarrow> reactor_step perform ctl (r, live, free) (r', live, free)"
| Perform: "ds_perform_io perform ev (r_state r d) w = (first, calls, s, w')
    \<Longrightarrow> reactor_step perform ctl (r, live, free) (set_state d s r, live, free)"

lemma dispatch_events_state:
  "dispatch_events tfd evs chk r = (ops, chk', r') \<Longrightarrow>
     (\<forall>d. \<exists>ev. r_state r' d = (r_state r d)\<lparr>task_result := ev\<rparr>) \<and> registered_descriptors r' = registered_descriptors r"
proof (induction tfd evs chk r arbitrary: ops chk' r' rule: dispatch_events.induct)
  case (1 tfd chk r)
  have "\<exists>ev. s = s\<lparr>task_result := ev\<rparr>" for s :: descriptor_state by (rule exI [of _ "task_result s"]) simp
  then show ?case using 1 by simp
next
  case (4 tfd d events evs chk r)
  obtain ops2 c2 r2 where e: "dispatch_events tfd evs chk (set_state d (set_ready_events events (r_state r d)) r) = (ops2, c2, r2)"
    by (metis prod.exhaust)
  then have r': "r' = r2" using "4.prems" by (simp add: Let_def)
  from "4.IH" [OF e] show ?case by (auto simp: r' set_ready_events_def fun_upd_def split: if_splits)
qed simp_all

lemma free_descriptor_ok:
  assumes "reactor_ok r live free" "d \<in> set live" "\<forall>j. ds_ops s j = []" "ds_shutdown s"
    "r_state r' = (r_state r)(d := s)" "registered_descriptors r' = pool_free d (registered_descriptors r)"
  shows "reactor_ok r' (remove1 d live) (d # free)"
proof -
  have p: "pool_ok (registered_descriptors r) live free" using assms(1) by (simp add: reactor_ok_def)
  then have "distinct (live @ free)" by (rule pool.has_distinct)
  then have "d \<notin> set free" "set (remove1 d live) = set live - {d}" using assms(2) by auto
  then show ?thesis using pool.release_live [OF p assms(2)] assms by (auto simp: reactor_ok_def)
qed

lemma ds_start_op_shutdown: "ds_start_op perform ctl d j fd op spec s w = (res, s', w') \<Longrightarrow> ds_shutdown s' = ds_shutdown s"
  by (auto simp: ds_start_op_def push_op_def Let_def split: if_splits prod.splits)

lemma ds_perform_io_state:
  assumes "ds_perform_io perform ev s w = (first, calls, s', w')"
  shows "ds_shutdown s' = ds_shutdown s" "(\<forall>j. ds_ops s j = []) \<Longrightarrow> (\<forall>j. ds_ops s' j = [])"
proof -
  obtain fin q w1 where e: "perform_events perform ev max_ops (ds_ops s) w = (fin, q, w1)" by (metis prod.exhaust)
  then have s': "s' = s\<lparr>ds_ops := q\<rparr>" using assms by (auto simp: ds_perform_io_def Let_def split: list.splits)
  then show "ds_shutdown s' = ds_shutdown s" by simp
  show "\<forall>j. ds_ops s' j = []" if "\<forall>j. ds_ops s j = []"
    using perform_events_parts [OF e] that by (metis append_is_Nil_conv descriptor_state.select_convs(3)
        descriptor_state.surjective descriptor_state.update_convs(3) not_le_imp_less s')
qed

lemma live_update_ok:
  assumes "reactor_ok r live free" "r_state r' = (r_state r)(d := s)" "registered_descriptors r' = registered_descriptors r"
    "ds_shutdown s = ds_shutdown (r_state r d)" "d \<in> set live \<or> ((\<forall>j. ds_ops (r_state r d) j = []) \<longrightarrow> (\<forall>j. ds_ops s j = []))"
  shows "reactor_ok r' live free"
  using assms by (auto simp: reactor_ok_def pool_ok_def)

lemma reactor_step_ok:
  assumes "reactor_step perform ctl x x'" "case x of (r, live, free) \<Rightarrow> reactor_ok r live free"
  shows "case x' of (r, live, free) \<Rightarrow> reactor_ok r live free"
  using assms
proof (induction rule: reactor_step.induct)
  case (Register fresh live free fd r w e d r' w')
  obtain d' r1 where a: "allocate_descriptor_state fresh r = (d', r1)" by force
  have ok: "reactor_ok r live free" using Register by simp
  note al = allocate_ok [OF ok Register(1) a]
  obtain s where r': "d' = d" "r' = set_state d s r1" "ds_ops s = ds_ops (r_state r1 d)" "\<not> ds_shutdown s"
    using Register(2) a by (auto simp: register_descriptor_def Let_def split: prod.splits)
  have f: "set (tl free) \<subseteq> set free" "d \<notin> set (tl free)" using al r'(1) by (cases free; auto simp: pool_ok_def)+
  show ?case using ok al r' f by (auto simp: reactor_ok_def)
next
  case (Register_internal fresh live free j fd op r w e d r' w')
  obtain d' r1 where a: "allocate_descriptor_state fresh r = (d', r1)" by force
  have ok: "reactor_ok r live free" using Register_internal by simp
  note al = allocate_ok [OF ok Register_internal(1) a]
  obtain s where r': "d' = d" "r' = set_state d s r1" "\<not> ds_shutdown s"
    using Register_internal(2) a by (auto simp: register_internal_descriptor_def push_op_def Let_def split: prod.splits)
  have f: "set (tl free) \<subseteq> set free" "d \<notin> set (tl free)" using al r'(1) by (cases free; auto simp: pool_ok_def)+
  show ?case using ok al r' f by (auto simp: reactor_ok_def)
next
  case (Start data live j fd op cont spec r w calls r' w' free)
  show ?case
  proof (cases "data = None \<or> ds_shutdown (r_state r (the data))")
    case True
    then show ?thesis using Start by (auto simp: start_op_def reactor_ok_def split: option.splits)
  next
    case False
    then obtain d where d: "data = Some d" "\<not> ds_shutdown (r_state r d)" by auto
    obtain res s w1 where s: "ds_start_op perform ctl d j fd op spec (r_state r d) w = (res, s, w1)" by (metis prod.exhaust)
    then have "r_state r' = (r_state r)(d := s)" "registered_descriptors r' = registered_descriptors r"
      using Start(2) d by (auto simp: start_op_def Let_def split: started.splits option.splits)
    then show ?thesis
      using live_update_ok [of r live free r' d s] Start(1,3) d ds_start_op_shutdown [OF s] by simp
  qed
next
  case (Cancel data live r calls r' free)
  show ?case
  proof (cases data)
    case None
    then show ?thesis using Cancel by (simp add: cancel_ops_def)
  next
    case (Some d)
    then show ?thesis
      using live_update_ok [of r live free r' d "(r_state r d)\<lparr>ds_ops := (\<lambda>_. [])\<rparr>"] Cancel by (auto simp: cancel_ops_def Let_def)
  qed
next
  case (Deregister d live fd closing r w calls data r' w' free)
  then have "\<not> ds_shutdown (r_state r d)" by (simp add: reactor_ok_def)
  then show ?case
    using Deregister by (auto simp: deregister_descriptor_def Let_def split: prod.splits intro!: free_descriptor_ok)
next
  case (Deregister_internal d live fd r w calls data r' w' free)
  then have "\<not> ds_shutdown (r_state r d)" by (simp add: reactor_ok_def)
  then show ?case
    using Deregister_internal by (auto simp: deregister_internal_descriptor_def Let_def split: prod.splits intro!: free_descriptor_ok)
next
  case (Events tfd evs chk r ops chk' r' live free)
  note e = dispatch_events_state [OF Events(1)]
  have "ds_ops (r_state r' d) = ds_ops (r_state r d) \<and> ds_shutdown (r_state r' d) = ds_shutdown (r_state r d)" for d
    using e by (metis descriptor_state.select_convs(3,4) descriptor_state.surjective descriptor_state.update_convs(5))
  then show ?case using Events(2) e by (simp add: reactor_ok_def)
next
  case (Perform ev r d w first calls s w' live free)
  then show ?case
    using live_update_ok [of r live free "set_state d s r" d s] ds_perform_io_state [OF Perform(1)] by simp
qed

inductive reactor_reachable :: "'w perform \<Rightarrow> 'w epoll_ctl \<Rightarrow> reactor \<times> ptr list \<times> ptr list \<Rightarrow> bool" for perform ctl where
  start: "registered_descriptors r = new_pool \<Longrightarrow> reactor_reachable perform ctl (r, [], [])"
| step: "\<lbrakk>reactor_reachable perform ctl x; reactor_step perform ctl x x'\<rbrakk> \<Longrightarrow> reactor_reachable perform ctl x'"

lemma reactor_reachable_ok: "reactor_reachable perform ctl x \<Longrightarrow> case x of (r, live, free) \<Rightarrow> reactor_ok r live free"
proof (induction rule: reactor_reachable.induct)
  case (start r)
  then show ?case by (simp add: reactor_ok_def pool_ok_new)
next
  case (step x x')
  then show ?case using reactor_step_ok by blast
qed

text \<open>
  However descriptors come and go, registering one gives a state that no other registered descriptor
  has, with nothing in its queues, although states are used again and stale events still run them.\<close>

theorem registering_gives_empty_state:
  assumes "reactor_reachable perform ctl (r, live, free)" "fresh \<notin> set live \<union> set free"
    "register_descriptor ctl fresh fd r w = (e, d, r', w')"
  shows "d \<notin> set live \<and> all_ops (r_state r' d) = [] \<and> \<not> ds_shutdown (r_state r' d) \<and>
    registered_events (r_state r' d) = all_events \<and> ds_descriptor (r_state r' d) = fd \<and>
    (\<forall>d'. d' \<noteq> d \<longrightarrow> r_state r' d' = r_state r d')"
proof -
  obtain d' r1 where a: "allocate_descriptor_state fresh r = (d', r1)" by force
  have "reactor_ok r live free" using reactor_reachable_ok [OF assms(1)] by simp
  note al = allocate_ok [OF this assms(2) a]
  have "d' = d" "r' = set_state d ((r_state r1 d)\<lparr>ds_descriptor := fd, ds_shutdown := False, registered_events := all_events\<rparr>) r1"
    using assms(3) a by (auto simp: register_descriptor_def Let_def split: prod.splits)
  then show ?thesis using al by (simp add: all_ops_def)
qed

theorem registering_gives_empty_state_witness:
  "\<exists>r' w'. register_descriptor example_ctl 4 7
      \<lparr>r_state = (\<lambda>_. new_descriptor_state), registered_descriptors = new_pool, op_ec = (\<lambda>_. no_error), r_shutdown = False\<rparr>
      (dw_kernel idle_descriptor) = (0, 4, r', w') \<and>
    all_ops (r_state r' 4) = [] \<and> registered_events (r_state r' 4) = all_events"
proof -
  let ?r = "\<lparr>r_state = (\<lambda>_. new_descriptor_state), registered_descriptors = new_pool, op_ec = (\<lambda>_. no_error), r_shutdown = False\<rparr>"
  have "reactor_reachable example_perform example_ctl (?r, [], [])" by (rule reactor_reachable.start) simp
  moreover have e: "\<exists>r' w'. register_descriptor example_ctl 4 7 ?r (dw_kernel idle_descriptor) = (0, 4, r', w')"
    by (simp add: register_descriptor_def allocate_descriptor_state_def pool_alloc_def new_pool_def link_front_def example_ctl_def)
  ultimately show ?thesis using registering_gives_empty_state [of example_perform example_ctl ?r "[]" "[]" 4 7] by fastforce
qed

subsection \<open>The walks over the registered descriptors\<close>

lemma live_from_dlist: "dlist nx pv pr p xs \<Longrightarrow> length xs \<le> n \<Longrightarrow> live_from n nx p = Some xs"
proof (induction xs arbitrary: n pr p)
  case (Cons x xs)
  then obtain m where "n = Suc m" "length xs \<le> m" by (cases n) auto
  then show ?case using Cons by auto
qed simp

text \<open>A child of a fork registers each live descriptor again, with the events it had.\<close>

lemma fork_visits_live:
  "reactor_ok r live free \<Longrightarrow> length live \<le> n \<Longrightarrow>
     live_from n (p_next (registered_descriptors r)) (pool_first (registered_descriptors r)) = Some live"
  by (auto simp: reactor_ok_def pool_ok_def pool_first_def intro: live_from_dlist)

text \<open>
  Shutting down ends after as many steps as there are live descriptors, gives up exactly their
  operations, and leaves every state free and empty.\<close>

theorem shutdown_gives_up_everything:
  assumes "reactor_reachable perform ctl (r, live, free)" "length live \<le> n"
  shows "\<exists>r'. shutdown_descriptors n r = Some (concat (map (\<lambda>d. all_ops (r_state r d)) live), r') \<and>
    pool_first (registered_descriptors r') = None \<and> list_all (\<lambda>d. all_ops (r_state r' d) = [] \<and> ds_shutdown (r_state r' d)) (live @ free)"
proof -
  have main: "reactor_ok r live free \<Longrightarrow> length live \<le> n \<Longrightarrow>
    \<exists>r'. shutdown_descriptors n r = Some (concat (map (\<lambda>d. all_ops (r_state r d)) live), r') \<and> reactor_ok r' [] (rev live @ free)"
    for r n live free
  proof (induction live arbitrary: r n free)
    case Nil
    then have "pool_first (registered_descriptors r) = None" by (auto simp: reactor_ok_def dest: pool.first_live)
    then show ?case using Nil(1) by (subst shutdown_descriptors.simps) simp
  next
    case (Cons d live)
    then obtain m where n: "n = Suc m" "length live \<le> m" by (cases n) auto
    have f: "pool_first (registered_descriptors r) = Some d" using Cons.prems(1) pool.first_live by (fastforce simp: reactor_ok_def)
    define r1 where "r1 = free_descriptor_state d (set_state d ((r_state r d)\<lparr>ds_ops := (\<lambda>_. []), ds_shutdown := True\<rparr>) r)"
    have ok: "reactor_ok r1 live (d # free)"
      using free_descriptor_ok [OF Cons.prems(1), of d "(r_state r d)\<lparr>ds_ops := (\<lambda>_. []), ds_shutdown := True\<rparr>" r1]
      by (simp add: r1_def)
    have "d \<notin> set live" using Cons.prems(1) by (auto simp: reactor_ok_def pool_ok_def)
    then have m: "map (\<lambda>d. all_ops (r_state r1 d)) live = map (\<lambda>d. all_ops (r_state r d)) live"
      by (auto simp: r1_def)
    obtain r' where "shutdown_descriptors m r1 = Some (concat (map (\<lambda>d. all_ops (r_state r d)) live), r')"
      "reactor_ok r' [] (rev live @ d # free)" using Cons.IH [OF ok n(2)] unfolding m by blast
    then show ?case using f
      by (subst shutdown_descriptors.simps) (simp add: n(1) Let_def r1_def [symmetric])
  qed
  have "reactor_ok r live free" using reactor_reachable_ok [OF assms(1)] by simp
  from main [OF this assms(2)] obtain r' where
    r': "shutdown_descriptors n r = Some (concat (map (\<lambda>d. all_ops (r_state r d)) live), r')" "reactor_ok r' [] (rev live @ free)"
    by blast
  moreover have "pool_first (registered_descriptors r') = None" using r'(2) by (auto simp: reactor_ok_def dest: pool.first_live)
  moreover have "list_all (\<lambda>d. all_ops (r_state r' d) = [] \<and> ds_shutdown (r_state r' d)) (live @ free)"
    using r'(2) by (auto simp: reactor_ok_def list_all_iff all_ops_def)
  ultimately show ?thesis by blast
qed

theorem shutdown_gives_up_everything_witness:
  "\<exists>r d r'. reactor_reachable example_perform example_ctl (r, [d], []) \<and> all_ops (r_state r d) = [5] \<and>
     shutdown_descriptors 1 r = Some ([5], r') \<and> pool_first (registered_descriptors r') = None"
proof -
  let ?r = "\<lparr>r_state = (\<lambda>_. new_descriptor_state), registered_descriptors = new_pool, op_ec = (\<lambda>_. no_error), r_shutdown = False\<rparr>"
  have s: "reactor_reachable example_perform example_ctl (?r, [], [])" by (rule reactor_reachable.start) simp
  obtain e d r1 w1 where g: "register_internal_descriptor example_ctl 4 0 7 5 ?r (dw_kernel idle_descriptor) = (e, d, r1, w1)"
    by (metis prod.exhaust)
  have "reactor_step example_perform example_ctl (?r, [], []) (r1, [d], tl [])"
    by (rule reactor_step.Register_internal [OF _ g]) simp
  from reactor_reachable.step [OF s this] have r: "reactor_reachable example_perform example_ctl (r1, [d], [])" by simp
  have a: "all_ops (r_state r1 d) = [5]"
    using g by (auto simp: register_internal_descriptor_def allocate_descriptor_state_def pool_alloc_def new_pool_def link_front_def
        example_ctl_def push_op_def new_descriptor_state_def all_ops_def max_ops_def upt_rec)
  have "\<exists>r'. shutdown_descriptors 1 r1 = Some (concat (map (\<lambda>d. all_ops (r_state r1 d)) [d]), r') \<and>
    pool_first (registered_descriptors r') = None \<and> list_all (\<lambda>d. all_ops (r_state r' d) = [] \<and> ds_shutdown (r_state r' d)) ([d] @ [])"
    by (rule shutdown_gives_up_everything [OF r]) simp
  then show ?thesis using r a by auto
qed

end
