(* ===== verification/SocketService.thy ===== *)
theory SocketService
  imports SocketOps EpollReactorSpec
begin

text \<open>
  The service behind sockets (\<^verbatim>\<open>detail/reactive_socket_service_base.hpp\<close> and
  \<^verbatim>\<open>detail/impl/reactive_socket_service_base.ipp\<close>): it keeps a socket's handle, its flags and its
  registration with the reactor in step. \<open>os\<close> are the system calls of \<open>SocketOps\<close>, \<open>perform\<close> and \<open>ctl\<close>
  those of \<open>EpollReactor\<close>, on one state \<open>'w\<close>. The error code of an operation is kept by the reactor.
\<close>

definition possible_dup :: state_type where "possible_dup = 64"

definition SOCK_STREAM :: int where "SOCK_STREAM = 1"
definition SOCK_DGRAM :: int where "SOCK_DGRAM = 2"

record socket_impl =
  si_socket :: int
  si_state :: state_type
  si_data :: "ptr option"

definition is_open :: "socket_impl \<Rightarrow> bool" where
  "is_open impl \<longleftrightarrow> si_socket impl \<noteq> invalid_socket"

definition ss_construct :: "socket_impl \<Rightarrow> socket_impl" where
  "ss_construct impl = impl\<lparr>si_socket := invalid_socket, si_state := 0\<rparr>"

text \<open>Both implementations, the new one first.\<close>

definition base_move_construct :: "socket_impl \<Rightarrow> socket_impl \<Rightarrow> socket_impl \<times> socket_impl" where
  "base_move_construct impl other =
     (let (target, source) = move_descriptor (si_data impl) (si_data other) in
      (\<lparr>si_socket = si_socket other, si_state = si_state other, si_data = target\<rparr>,
       \<lparr>si_socket = invalid_socket, si_state = 0, si_data = source\<rparr>))"

text \<open>Whether the descriptor is about to be closed for good.\<close>

definition closes_descriptor :: "socket_impl \<Rightarrow> bool" where
  "closes_descriptor impl \<longleftrightarrow> \<not> has_flag (si_state impl) possible_dup"

definition ss_destroy ::
    "('m, 'w) sys \<Rightarrow> 'w epoll_ctl \<Rightarrow> socket_impl \<Rightarrow> reactor \<Rightarrow> 'w \<Rightarrow> io_call list \<times> socket_impl \<times> reactor \<times> 'w" where
  "ss_destroy os ctl impl r w =
     (if si_socket impl \<noteq> invalid_socket
      then
        (let (calls, data, r, w) = deregister_descriptor ctl (si_socket impl) (si_data impl) (closes_descriptor impl) r w;
             ((_, state, _), w) = so_close os (si_socket impl) (si_state impl) True no_error w in
         (calls, impl\<lparr>si_state := state, si_data := data\<rparr>, r, w))
      else ([], impl, r, w))"

definition base_move_assign ::
    "('m, 'w) sys \<Rightarrow> 'w epoll_ctl \<Rightarrow> socket_impl \<Rightarrow> socket_impl \<Rightarrow> reactor \<Rightarrow> 'w \<Rightarrow>
     io_call list \<times> (socket_impl \<times> socket_impl) \<times> reactor \<times> 'w" where
  "base_move_assign os ctl impl other r w =
     (let (calls, impl, r, w) = ss_destroy os ctl impl r w in (calls, base_move_construct impl other, r, w))"

definition ss_close ::
    "('m, 'w) sys \<Rightarrow> 'w epoll_ctl \<Rightarrow> socket_impl \<Rightarrow> error_code \<Rightarrow> reactor \<Rightarrow> 'w \<Rightarrow>
     io_call list \<times> (error_code \<times> socket_impl) \<times> reactor \<times> 'w" where
  "ss_close os ctl impl ec r w =
     (let (calls, data, r, w) =
            (if is_open impl
             then deregister_descriptor ctl (si_socket impl) (si_data impl) (closes_descriptor impl) r w
             else ([], si_data impl, r, w));
          ((_, state, ec), w) = so_close os (si_socket impl) (si_state impl) False ec w in
      (calls, (ec, ss_construct (impl\<lparr>si_state := state, si_data := data\<rparr>)), r, w))"

definition ss_cancel :: "socket_impl \<Rightarrow> reactor \<Rightarrow> io_call list \<times> error_code \<times> reactor" where
  "ss_cancel impl r =
     (if \<not> is_open impl then ([], basic_error bad_descriptor, r)
      else (let (calls, r) = cancel_ops (si_data impl) r in (calls, no_error, r)))"

definition oriented :: "int \<Rightarrow> state_type" where
  "oriented type =
     (if type = SOCK_STREAM then stream_oriented else if type = SOCK_DGRAM then datagram_oriented else 0)"

text \<open>The holder of the new socket closes it when it cannot be registered.\<close>

definition do_open ::
    "('m, 'w) sys \<Rightarrow> 'w epoll_ctl \<Rightarrow> ptr \<Rightarrow> int \<Rightarrow> int \<Rightarrow> int \<Rightarrow> socket_impl \<Rightarrow> reactor \<Rightarrow> 'w \<Rightarrow>
     (error_code \<times> socket_impl) \<times> reactor \<times> 'w" where
  "do_open os ctl fresh af type protocol impl r w =
     (if is_open impl then ((misc_error already_open, impl), r, w)
      else
        (let ((s, ec), w) = so_socket os af type protocol w in
         if s = invalid_socket then ((ec, impl), r, w)
         else
           (let (err, d, r, w) = register_descriptor ctl fresh s r w;
                impl = impl\<lparr>si_data := Some d\<rparr> in
            if err \<noteq> 0
            then (let (_, w) = so_close os s 0 True no_error w in ((Error_code err system_category, impl), r, w))
            else ((no_error, impl\<lparr>si_socket := s, si_state := oriented type\<rparr>), r, w))))"

definition do_assign ::
    "'w epoll_ctl \<Rightarrow> ptr \<Rightarrow> int \<Rightarrow> int \<Rightarrow> socket_impl \<Rightarrow> reactor \<Rightarrow> 'w \<Rightarrow> (error_code \<times> socket_impl) \<times> reactor \<times> 'w" where
  "do_assign ctl fresh type native_socket impl r w =
     (if is_open impl then ((misc_error already_open, impl), r, w)
      else
        (let (err, d, r, w) = register_descriptor ctl fresh native_socket r w;
             impl = impl\<lparr>si_data := Some d\<rparr> in
         if err \<noteq> 0 then ((Error_code err system_category, impl), r, w)
         else ((no_error, impl\<lparr>si_socket := native_socket, si_state := oriented type OR possible_dup\<rparr>), r, w)))"

definition set_op_ec :: "ptr \<Rightarrow> error_code \<Rightarrow> reactor \<Rightarrow> reactor" where
  "set_op_ec op ec r = r\<lparr>op_ec := (op_ec r)(op := ec)\<rparr>"

text \<open>Making the socket non-blocking unless it is; the operation gets the error.\<close>

definition ensure_non_blocking ::
    "('m, 'w) sys \<Rightarrow> socket_impl \<Rightarrow> ptr \<Rightarrow> reactor \<Rightarrow> 'w \<Rightarrow> bool \<times> socket_impl \<times> reactor \<times> 'w" where
  "ensure_non_blocking os impl op r w =
     (if has_flag (si_state impl) non_blocking then (True, impl, r, w)
      else
        (let ((ok, state, ec), w) = set_internal_non_blocking os (si_socket impl) (si_state impl) True w in
         (ok, impl\<lparr>si_state := state\<rparr>, set_op_ec op ec r, w)))"

definition ss_start_op ::
    "('m, 'w) sys \<Rightarrow> 'w perform \<Rightarrow> 'w epoll_ctl \<Rightarrow> socket_impl \<Rightarrow> nat \<Rightarrow> ptr \<Rightarrow> bool \<Rightarrow> bool \<Rightarrow> bool \<Rightarrow> reactor \<Rightarrow> 'w \<Rightarrow>
     io_call list \<times> socket_impl \<times> reactor \<times> 'w" where
  "ss_start_op os perform ctl impl op_type op is_continuation is_non_blocking noop r w =
     (let (ok, impl, r, w) = (if \<not> noop then ensure_non_blocking os impl op r w else (False, impl, r, w)) in
      if ok
      then (let (calls, r, w) = start_op perform ctl op_type (si_socket impl) (si_data impl) op is_continuation is_non_blocking r w in
        (calls, impl, r, w))
      else ([Post_immediate op is_continuation], impl, r, w))"

definition start_accept_op ::
    "('m, 'w) sys \<Rightarrow> 'w perform \<Rightarrow> 'w epoll_ctl \<Rightarrow> socket_impl \<Rightarrow> ptr \<Rightarrow> bool \<Rightarrow> bool \<Rightarrow> reactor \<Rightarrow> 'w \<Rightarrow>
     io_call list \<times> socket_impl \<times> reactor \<times> 'w" where
  "start_accept_op os perform ctl impl op is_continuation peer_is_open r w =
     (if \<not> peer_is_open then ss_start_op os perform ctl impl read_op op True is_continuation False r w
      else ([Post_immediate op is_continuation], impl, set_op_ec op (misc_error already_open) r, w))"

definition start_connect_op ::
    "('m, 'w) sys \<Rightarrow> 'w perform \<Rightarrow> 'w epoll_ctl \<Rightarrow> socket_impl \<Rightarrow> ptr \<Rightarrow> bool \<Rightarrow> u8 list \<Rightarrow> reactor \<Rightarrow> 'w \<Rightarrow>
     io_call list \<times> socket_impl \<times> reactor \<times> 'w" where
  "start_connect_op os perform ctl impl op is_continuation addr r w =
     (let (ok, impl, r, w) = ensure_non_blocking os impl op r w in
      if \<not> ok then ([Post_immediate op is_continuation], impl, r, w)
      else
        (let ((res, ec), w) = so_connect os (si_socket impl) addr w in
         if res \<noteq> 0 \<and> (ec = basic_error in_progress \<or> ec = basic_error would_block)
         then
           (let (calls, r, w) =
              start_op perform ctl connect_op (si_socket impl) (si_data impl) op is_continuation False (set_op_ec op no_error r) w in
            (calls, impl, r, w))
         else ([Post_immediate op is_continuation], impl, set_op_ec op ec r, w)))"

subsection \<open>Sockets and their registrations\<close>

text \<open>Every open socket has a registration of its own, for its descriptor; a closed one has no flags.\<close>

definition sockets_ok :: "(nat \<Rightarrow> socket_impl) \<Rightarrow> reactor \<Rightarrow> ptr list \<Rightarrow> bool" where
  "sockets_ok ss r live \<longleftrightarrow>
     (\<forall>i. is_open (ss i) \<longrightarrow> (\<exists>d. si_data (ss i) = Some d \<and> d \<in> set live \<and> ds_descriptor (r_state r d) = si_socket (ss i))) \<and>
     (\<forall>i j. is_open (ss i) \<and> is_open (ss j) \<and> si_data (ss i) = si_data (ss j) \<longrightarrow> i = j) \<and>
     (\<forall>i. \<not> is_open (ss i) \<longrightarrow> si_state (ss i) = 0)"

definition sockets_inv :: "(nat \<Rightarrow> socket_impl) \<times> reactor \<Rightarrow> bool" where
  "sockets_inv x \<longleftrightarrow> (\<exists>live free. reactor_ok (snd x) live free \<and> sockets_ok (fst x) (snd x) live)"

text \<open>Where a new state would be is none of those in use.\<close>

definition unused :: "ptr \<Rightarrow> reactor \<Rightarrow> bool" where
  "unused fresh r \<longleftrightarrow> (\<forall>live free. reactor_ok r live free \<longrightarrow> fresh \<notin> set live \<union> set free)"

text \<open>What a program does with its sockets. A slot that is not open may be moved into.\<close>

inductive sockets_step ::
    "('m, 'w) sys \<Rightarrow> 'w perform \<Rightarrow> 'w epoll_ctl \<Rightarrow> (nat \<Rightarrow> socket_impl) \<times> reactor \<Rightarrow> (nat \<Rightarrow> socket_impl) \<times> reactor \<Rightarrow> bool"
  for os perform ctl where
  Open: "\<lbrakk>unused fresh r; do_open os ctl fresh af type protocol (ss i) r w = ((ec, impl), r', w')\<rbrakk>
    \<Longrightarrow> sockets_step os perform ctl (ss, r) (ss(i := impl), r')"
| Assign: "\<lbrakk>unused fresh r; native_socket \<noteq> invalid_socket; do_assign ctl fresh type native_socket (ss i) r w = ((ec, impl), r', w')\<rbrakk>
    \<Longrightarrow> sockets_step os perform ctl (ss, r) (ss(i := impl), r')"
| Close: "ss_close os ctl (ss i) ec r w = (calls, (ec', impl), r', w')
    \<Longrightarrow> sockets_step os perform ctl (ss, r) (ss(i := impl), r')"
| Destroy: "ss_destroy os ctl (ss i) r w = (calls, impl, r', w')
    \<Longrightarrow> sockets_step os perform ctl (ss, r) (ss(i := ss_construct impl), r')"
| Move_construct: "\<lbrakk>\<not> is_open (ss i); i \<noteq> j; base_move_construct (ss i) (ss j) = (target, source)\<rbrakk>
    \<Longrightarrow> sockets_step os perform ctl (ss, r) (ss(i := target, j := source), r)"
| Move_assign: "\<lbrakk>i \<noteq> j; base_move_assign os ctl (ss i) (ss j) r w = (calls, (target, source), r', w')\<rbrakk>
    \<Longrightarrow> sockets_step os perform ctl (ss, r) (ss(i := target, j := source), r')"
| Cancel: "ss_cancel (ss i) r = (calls, ec, r') \<Longrightarrow> sockets_step os perform ctl (ss, r) (ss, r')"
| Start: "ss_start_op os perform ctl (ss i) op_type op cont non_blk noop r w = (calls, impl, r', w')
    \<Longrightarrow> sockets_step os perform ctl (ss, r) (ss(i := impl), r')"
| Accept: "start_accept_op os perform ctl (ss i) op cont peer_is_open r w = (calls, impl, r', w')
    \<Longrightarrow> sockets_step os perform ctl (ss, r) (ss(i := impl), r')"
| Connect: "start_connect_op os perform ctl (ss i) op cont addr r w = (calls, impl, r', w')
    \<Longrightarrow> sockets_step os perform ctl (ss, r) (ss(i := impl), r')"

lemma register_effect:
  assumes ok: "reactor_ok r live free" and "unused fresh r" and g: "register_descriptor ctl fresh fd r w = (e, d, r', w')"
  shows "reactor_ok r' (d # live) (tl free) \<and> d \<notin> set live \<and> ds_descriptor (r_state r' d) = fd \<and>
    (\<forall>d'. d' \<noteq> d \<longrightarrow> r_state r' d' = r_state r d')"
proof -
  have f: "fresh \<notin> set live \<union> set free" using assms(1,2) by (simp add: unused_def)
  have "reactor_ok r' (d # live) (tl free)"
    using reactor_step_ok [OF reactor_step.Register [OF f g, where perform = undefined]] ok by simp
  moreover obtain d' r1 where a: "allocate_descriptor_state fresh r = (d', r1)" by force
  note al = allocate_ok [OF ok f a]
  have "d' = d" "r' = set_state d ((r_state r1 d)\<lparr>ds_descriptor := fd, ds_shutdown := False, registered_events := all_events\<rparr>) r1"
    using g a by (auto simp: register_descriptor_def Let_def split: prod.splits)
  ultimately show ?thesis using al by simp
qed

lemma deregister_effect:
  assumes ok: "reactor_ok r live free" and d: "d \<in> set live"
    and g: "deregister_descriptor ctl fd (Some d) closing r w = (calls, data, r', w')"
  shows "reactor_ok r' (remove1 d live) (d # free) \<and> data = None \<and> calls = [Post_deferred (all_ops (r_state r d))] \<and>
    (\<forall>d'. d' \<noteq> d \<longrightarrow> r_state r' d' = r_state r d') \<and> op_ec r' = op_ec (abort_ops (all_ops (r_state r d)) r)"
proof -
  have "reactor_ok r' (remove1 d live) (d # free)"
    using reactor_step_ok [OF reactor_step.Deregister [OF d g, where perform = undefined]] ok by simp
  moreover have "\<not> ds_shutdown (r_state r d)" using ok d by (simp add: reactor_ok_def)
  ultimately show ?thesis
    using g by (auto simp: deregister_descriptor_def free_descriptor_state_def Let_def split: prod.splits)
qed

lemma ds_start_op_descriptor:
  "ds_start_op perform ctl d j fd op spec s w = (res, s', w') \<Longrightarrow> ds_descriptor s' = ds_descriptor s"
  by (auto simp: ds_start_op_def push_op_def Let_def split: if_splits prod.splits)

lemma start_op_effect:
  assumes ok: "reactor_ok r live free" and d: "\<And>d. data = Some d \<Longrightarrow> d \<in> set live"
    and g: "start_op perform ctl j fd data op cont spec r w = (calls, r', w')"
  shows "reactor_ok r' live free \<and> (\<forall>d. ds_descriptor (r_state r' d) = ds_descriptor (r_state r d))"
  using reactor_step_ok [OF reactor_step.Start [OF d g]] ok g ds_start_op_descriptor
  by (fastforce simp: start_op_def Let_def split: option.splits if_splits started.splits prod.splits)

lemma set_op_ec_ok [simp]: "reactor_ok (set_op_ec op ec r) live free = reactor_ok r live free" "r_state (set_op_ec op ec r) = r_state r"
  by (simp_all add: reactor_ok_def set_op_ec_def)

lemma ensure_non_blocking_effect:
  assumes "ensure_non_blocking os impl op r w = (ok, impl', r', w')"
  shows "si_socket impl' = si_socket impl \<and> si_data impl' = si_data impl \<and> r_state r' = r_state r \<and>
    (reactor_ok r' live free \<longleftrightarrow> reactor_ok r live free) \<and>
    (\<not> is_open impl \<and> si_state impl = 0 \<longrightarrow> \<not> ok \<and> si_state impl' = 0)"
  using assms
  by (auto simp: ensure_non_blocking_def is_open_def set_internal_non_blocking_def has_flag_def Let_def split: if_splits prod.splits)

text \<open>What the three ways to start an operation have in common.\<close>

definition starts :: "socket_impl \<Rightarrow> reactor \<Rightarrow> socket_impl \<Rightarrow> reactor \<Rightarrow> ptr list \<Rightarrow> ptr list \<Rightarrow> bool" where
  "starts impl r impl' r' live free \<longleftrightarrow>
     si_socket impl' = si_socket impl \<and> si_data impl' = si_data impl \<and> (\<not> is_open impl \<longrightarrow> si_state impl' = 0) \<and>
     reactor_ok r' live free \<and> (\<forall>d. ds_descriptor (r_state r' d) = ds_descriptor (r_state r d))"

lemma ss_start_op_starts:
  assumes ok: "reactor_ok r live free" and d: "is_open impl \<Longrightarrow> \<exists>d \<in> set live. si_data impl = Some d" "\<not> is_open impl \<Longrightarrow> si_state impl = 0"
    and g: "ss_start_op os perform ctl impl j op cont nb noop r w = (calls, impl', r', w')"
  shows "starts impl r impl' r' live free"
proof -
  obtain b impl1 r1 w1 where e: "(if \<not> noop then ensure_non_blocking os impl op r w else (False, impl, r, w)) = (b, impl1, r1, w1)"
    by (metis prod.exhaust)
  have k: "si_socket impl1 = si_socket impl" "si_data impl1 = si_data impl" "r_state r1 = r_state r" "reactor_ok r1 live free"
    "\<not> is_open impl \<Longrightarrow> \<not> b \<and> si_state impl1 = 0"
    using e ok d(2) ensure_non_blocking_effect [of os impl op r w b impl1 r1 w1 live free] by (auto split: if_splits)
  show ?thesis
  proof (cases b)
    case True
    then have op: "is_open impl" using k(5) by blast
    obtain calls2 r2 w2 where s: "start_op perform ctl j (si_socket impl1) (si_data impl1) op cont nb r1 w1 = (calls2, r2, w2)"
      by (metis prod.exhaust)
    then have "impl' = impl1" "r' = r2" using g e True by (simp_all add: ss_start_op_def)
    then show ?thesis using start_op_effect [OF k(4) _ s] d(1) op k by (auto simp: starts_def)
  next
    case False
    then have "impl' = impl1" "r' = r1" using g e by (simp_all add: ss_start_op_def)
    then show ?thesis using k by (simp add: starts_def)
  qed
qed

lemma start_connect_op_starts:
  assumes ok: "reactor_ok r live free" and d: "is_open impl \<Longrightarrow> \<exists>d \<in> set live. si_data impl = Some d" "\<not> is_open impl \<Longrightarrow> si_state impl = 0"
    and g: "start_connect_op os perform ctl impl op cont addr r w = (calls, impl', r', w')"
  shows "starts impl r impl' r' live free"
proof -
  obtain b impl1 r1 w1 where e: "ensure_non_blocking os impl op r w = (b, impl1, r1, w1)" by (metis prod.exhaust)
  have k: "si_socket impl1 = si_socket impl" "si_data impl1 = si_data impl" "r_state r1 = r_state r" "reactor_ok r1 live free"
    "\<not> is_open impl \<Longrightarrow> \<not> b \<and> si_state impl1 = 0"
    using ok d(2) ensure_non_blocking_effect [OF e, of live free] by auto
  show ?thesis
  proof (cases b)
    case False
    then have "impl' = impl1" "r' = r1" using g e by (simp_all add: start_connect_op_def)
    then show ?thesis using k by (simp add: starts_def)
  next
    case True
    then have op: "is_open impl" using k(5) by blast
    obtain res ec w2 where c: "so_connect os (si_socket impl1) addr w1 = ((res, ec), w2)" by (metis prod.exhaust)
    show ?thesis
    proof (cases "res \<noteq> 0 \<and> (ec = basic_error in_progress \<or> ec = basic_error would_block)")
      case w: True
      obtain calls2 r2 w3 where s: "start_op perform ctl connect_op (si_socket impl1) (si_data impl1) op cont False
          (set_op_ec op no_error r1) w2 = (calls2, r2, w3)" by (metis prod.exhaust)
      then have "impl' = impl1" "r' = r2" using g e c True w by (simp_all add: start_connect_op_def)
      moreover have "reactor_ok (set_op_ec op no_error r1) live free" using k(4) by simp
      ultimately show ?thesis using start_op_effect [OF _ _ s] d(1) op k by (auto simp: starts_def)
    next
      case w: False
      then have "impl' = impl1" "r' = set_op_ec op ec r1" using g e c True by (simp_all add: start_connect_op_def if_not_P)
      then show ?thesis using k op by (simp add: starts_def)
    qed
  qed
qed

lemma start_accept_op_starts:
  assumes "reactor_ok r live free" "is_open impl \<Longrightarrow> \<exists>d \<in> set live. si_data impl = Some d" "\<not> is_open impl \<Longrightarrow> si_state impl = 0"
    and g: "start_accept_op os perform ctl impl op cont peer r w = (calls, impl', r', w')"
  shows "starts impl r impl' r' live free"
proof (cases peer)
  case False
  then show ?thesis using ss_start_op_starts [OF assms(1-3)] g by (simp add: start_accept_op_def)
next
  case True
  then show ?thesis using assms by (auto simp: start_accept_op_def starts_def)
qed

lemma starts_ok:
  assumes "sockets_ok ss r live" "starts (ss i) r impl' r' live free"
  shows "sockets_ok (ss(i := impl')) r' live"
proof -
  let ?ss = "ss(i := impl')"
  have same: "si_socket (?ss j) = si_socket (ss j)" "si_data (?ss j) = si_data (ss j)" "is_open (?ss j) = is_open (ss j)"
    "\<not> is_open (ss j) \<Longrightarrow> si_state (?ss j) = 0" for j
    using assms by (auto simp: starts_def is_open_def sockets_ok_def)
  have "ds_descriptor (r_state r' d) = ds_descriptor (r_state r d)" for d using assms(2) by (simp add: starts_def)
  then show ?thesis using assms(1) same unfolding sockets_ok_def by presburger
qed

lemma closed_ok:
  assumes ok: "sockets_ok ss r live" and o: "is_open (ss i)" "si_data (ss i) = Some d"
    and r: "\<forall>d'. d' \<noteq> d \<longrightarrow> r_state r' d' = r_state r d'" and c: "\<not> is_open impl" "si_state impl = 0" "distinct live"
  shows "sockets_ok (ss(i := impl)) r' (remove1 d live)"
proof -
  have other: "si_data (ss j) \<noteq> Some d" if "j \<noteq> i" "is_open (ss j)" for j
    using ok o that unfolding sockets_ok_def by metis
  show ?thesis unfolding sockets_ok_def
  proof (intro conjI allI impI)
    fix j assume j: "is_open ((ss(i := impl)) j)"
    then have ji: "j \<noteq> i" "is_open (ss j)" using c(1) by (auto split: if_splits)
    then obtain d' where d': "si_data (ss j) = Some d'" "d' \<in> set live" "ds_descriptor (r_state r d') = si_socket (ss j)"
      using ok by (auto simp: sockets_ok_def)
    then have "d' \<noteq> d" using other [OF ji] by auto
    then show "\<exists>d'. si_data ((ss(i := impl)) j) = Some d' \<and> d' \<in> set (remove1 d live) \<and>
        ds_descriptor (r_state r' d') = si_socket ((ss(i := impl)) j)"
      using d' ji r c(3) by auto
  next
    fix j k assume "is_open ((ss(i := impl)) j) \<and> is_open ((ss(i := impl)) k) \<and> si_data ((ss(i := impl)) j) = si_data ((ss(i := impl)) k)"
    then show "j = k" using ok c(1) unfolding sockets_ok_def by (auto split: if_splits)
  next
    fix j assume "\<not> is_open ((ss(i := impl)) j)"
    then show "si_state ((ss(i := impl)) j) = 0" using ok c(2) by (auto simp: sockets_ok_def split: if_splits)
  qed
qed

lemma still_closed_ok:
  "sockets_ok ss r live \<Longrightarrow> \<not> is_open (ss i) \<Longrightarrow> \<not> is_open impl \<Longrightarrow> si_state impl = 0 \<Longrightarrow> sockets_ok (ss(i := impl)) r live"
  by (auto simp: sockets_ok_def)

lemma opened_ok:
  assumes "sockets_ok ss r live" "\<not> is_open (ss i)" "d \<notin> set live" "\<forall>d'. d' \<noteq> d \<longrightarrow> r_state r' d' = r_state r d'"
    "is_open impl \<Longrightarrow> si_data impl = Some d \<and> ds_descriptor (r_state r' d) = si_socket impl" "\<not> is_open impl \<Longrightarrow> si_state impl = 0"
  shows "sockets_ok (ss(i := impl)) r' (d # live)"
proof -
  have old: "\<exists>d'. si_data (ss j) = Some d' \<and> d' \<in> set live \<and> d' \<noteq> d \<and> ds_descriptor (r_state r' d') = si_socket (ss j)"
    if "is_open (ss j)" for j
    using assms(1,3,4) that unfolding sockets_ok_def by metis
  show ?thesis unfolding sockets_ok_def
  proof (intro conjI allI impI)
    fix j assume "is_open ((ss(i := impl)) j)"
    then show "\<exists>d'. si_data ((ss(i := impl)) j) = Some d' \<and> d' \<in> set (d # live) \<and> ds_descriptor (r_state r' d') = si_socket ((ss(i := impl)) j)"
      using assms(5) old [of j] by (auto split: if_splits)
  next
    fix j k assume "is_open ((ss(i := impl)) j) \<and> is_open ((ss(i := impl)) k) \<and> si_data ((ss(i := impl)) j) = si_data ((ss(i := impl)) k)"
    then show "j = k" using assms(1,5) old [of j] old [of k] unfolding sockets_ok_def by (auto split: if_splits)
  next
    fix j assume "\<not> is_open ((ss(i := impl)) j)"
    then show "si_state ((ss(i := impl)) j) = 0" using assms(1,6) by (auto simp: sockets_ok_def split: if_splits)
  qed
qed

lemma open_data: "sockets_ok ss r live \<Longrightarrow> is_open (ss i) \<Longrightarrow> \<exists>d \<in> set live. si_data (ss i) = Some d"
  "sockets_ok ss r live \<Longrightarrow> \<not> is_open (ss i) \<Longrightarrow> si_state (ss i) = 0"
  by (auto simp: sockets_ok_def)

lemma ss_destroy_effect:
  assumes ok: "reactor_ok r live free" "sockets_ok ss r live" and g: "ss_destroy os ctl (ss i) r w = (calls, impl', r', w')"
    and c: "\<not> is_open impl" "si_state impl = 0"
  shows "\<exists>live' free'. reactor_ok r' live' free' \<and> sockets_ok (ss(i := impl)) r' live'"
proof (cases "is_open (ss i)")
  case False
  then have "r' = r" using g by (simp add: ss_destroy_def is_open_def)
  then show ?thesis using ok still_closed_ok [OF ok(2) False c] by blast
next
  case True
  obtain d where d: "d \<in> set live" "si_data (ss i) = Some d" using open_data(1) [OF ok(2) True] by blast
  obtain calls1 data r1 w1 where dr: "deregister_descriptor ctl (si_socket (ss i)) (Some d) (closes_descriptor (ss i)) r w = (calls1, data, r1, w1)"
    by (metis prod.exhaust)
  then have "r' = r1" using g d(2) True by (auto simp: ss_destroy_def is_open_def split: prod.splits)
  moreover note e = deregister_effect [OF ok(1) d(1) dr]
  have "distinct live" using ok(1) by (simp add: reactor_ok_def pool_ok_def)
  ultimately show ?thesis using closed_ok [OF ok(2) True d(2) _ c] e by blast
qed

lemma ss_close_effect:
  assumes ok: "reactor_ok r live free" "sockets_ok ss r live" and g: "ss_close os ctl (ss i) ec r w = (calls, (ec', impl), r', w')"
  shows "\<exists>live' free'. reactor_ok r' live' free' \<and> sockets_ok (ss(i := impl)) r' live'"
proof -
  have c: "\<not> is_open impl" "si_state impl = 0"
    using g by (auto simp: ss_close_def ss_construct_def is_open_def split: prod.splits)
  show ?thesis
  proof (cases "is_open (ss i)")
    case False
    then have "r' = r" using g by (auto simp: ss_close_def split: prod.splits)
    then show ?thesis using ok still_closed_ok [OF ok(2) False c] by blast
  next
    case True
    obtain d where d: "d \<in> set live" "si_data (ss i) = Some d" using open_data(1) [OF ok(2) True] by blast
    obtain calls1 data r1 w1 where dr: "deregister_descriptor ctl (si_socket (ss i)) (Some d) (closes_descriptor (ss i)) r w = (calls1, data, r1, w1)"
      by (metis prod.exhaust)
    then have "r' = r1" using g d(2) True by (auto simp: ss_close_def split: prod.splits)
    moreover note e = deregister_effect [OF ok(1) d(1) dr]
    have "distinct live" using ok(1) by (simp add: reactor_ok_def pool_ok_def)
    ultimately show ?thesis using closed_ok [OF ok(2) True d(2) _ c] e by blast
  qed
qed

lemma moved_ok:
  assumes "sockets_ok ss r live" "\<not> is_open (ss i)" "i \<noteq> j" "base_move_construct t (ss j) = (target, source)"
  shows "sockets_ok (ss(i := target, j := source)) r live"
proof -
  have m: "si_socket target = si_socket (ss j)" "si_data target = si_data (ss j)" "si_state target = si_state (ss j)"
    "\<not> is_open source" "si_state source = 0"
    using assms(4) by (auto simp: base_move_construct_def move_descriptor_def is_open_def)
  then have o: "is_open target \<longleftrightarrow> is_open (ss j)" by (simp add: is_open_def)
  define f where "f = (\<lambda>k. if k = i then j else k)"
  have pos: "is_open ((ss(i := target, j := source)) k) \<Longrightarrow> k \<noteq> j \<and> is_open (ss (f k)) \<and>
      si_data ((ss(i := target, j := source)) k) = si_data (ss (f k)) \<and>
      si_socket ((ss(i := target, j := source)) k) = si_socket (ss (f k))" for k
    using m o assms(3) by (auto simp: f_def split: if_splits)
  have inj: "f k = f l \<Longrightarrow> k \<noteq> j \<Longrightarrow> l \<noteq> j \<Longrightarrow> k = l" for k l by (auto simp: f_def split: if_splits)
  show ?thesis unfolding sockets_ok_def
  proof (intro conjI allI impI)
    fix k assume k: "is_open ((ss(i := target, j := source)) k)"
    then show "\<exists>d. si_data ((ss(i := target, j := source)) k) = Some d \<and> d \<in> set live \<and>
        ds_descriptor (r_state r d) = si_socket ((ss(i := target, j := source)) k)"
      using pos [OF k] assms(1) unfolding sockets_ok_def by metis
  next
    fix k l assume "is_open ((ss(i := target, j := source)) k) \<and> is_open ((ss(i := target, j := source)) l) \<and>
        si_data ((ss(i := target, j := source)) k) = si_data ((ss(i := target, j := source)) l)"
    then show "k = l" using pos [of k] pos [of l] inj assms(1) unfolding sockets_ok_def by metis
  next
    fix k assume "\<not> is_open ((ss(i := target, j := source)) k)"
    then show "si_state ((ss(i := target, j := source)) k) = 0"
      using m o assms(1) by (auto simp: sockets_ok_def split: if_splits)
  qed
qed

lemma same_impl_ok: "sockets_ok ss r live \<Longrightarrow> sockets_ok (ss(i := ss i)) r live"
  by simp

lemma do_open_effect:
  assumes ok: "reactor_ok r live free" "sockets_ok ss r live" and u: "unused fresh r"
    and g: "do_open os ctl fresh af type protocol (ss i) r w = ((ec, impl), r', w')"
  shows "\<exists>live' free'. reactor_ok r' live' free' \<and> sockets_ok (ss(i := impl)) r' live'"
proof (cases "is_open (ss i)")
  case True
  then have "impl = ss i" "r' = r" using g by (simp_all add: do_open_def)
  then show ?thesis using ok by auto
next
  case False
  obtain s ec1 w1 where s: "so_socket os af type protocol w = ((s, ec1), w1)" by (metis prod.exhaust)
  show ?thesis
  proof (cases "s = invalid_socket")
    case True
    then have "impl = ss i" "r' = r" using g False s by (simp_all add: do_open_def)
    then show ?thesis using ok by auto
  next
    case sv: False
    obtain e d r1 w2 where rg: "register_descriptor ctl fresh s r w1 = (e, d, r1, w2)" by (metis prod.exhaust)
    note re = register_effect [OF ok(1) u rg]
    have r: "r' = r1" "impl = (if e \<noteq> 0 then (ss i)\<lparr>si_data := Some d\<rparr>
        else (ss i)\<lparr>si_data := Some d, si_socket := s, si_state := oriented type\<rparr>)"
      using g False s sv rg by (auto simp: do_open_def Let_def split: prod.splits if_splits)
    have "sockets_ok (ss(i := impl)) r1 (d # live)"
      by (rule opened_ok [OF ok(2) False])
        (use re r(2) sv False open_data(2) [OF ok(2) False] in \<open>auto simp: is_open_def split: if_splits\<close>)
    then show ?thesis using re r(1) by blast
  qed
qed

lemma do_assign_effect:
  assumes ok: "reactor_ok r live free" "sockets_ok ss r live" and u: "unused fresh r" and s: "s \<noteq> invalid_socket"
    and g: "do_assign ctl fresh type s (ss i) r w = ((ec, impl), r', w')"
  shows "\<exists>live' free'. reactor_ok r' live' free' \<and> sockets_ok (ss(i := impl)) r' live'"
proof (cases "is_open (ss i)")
  case True
  then have "impl = ss i" "r' = r" using g by (simp_all add: do_assign_def)
  then show ?thesis using ok by auto
next
  case False
  obtain e d r1 w2 where rg: "register_descriptor ctl fresh s r w = (e, d, r1, w2)" by (metis prod.exhaust)
  note re = register_effect [OF ok(1) u rg]
  have r: "r' = r1" "impl = (if e \<noteq> 0 then (ss i)\<lparr>si_data := Some d\<rparr>
      else (ss i)\<lparr>si_data := Some d, si_socket := s, si_state := oriented type OR possible_dup\<rparr>)"
    using g False rg by (auto simp: do_assign_def Let_def split: if_splits)
  have "sockets_ok (ss(i := impl)) r1 (d # live)"
    by (rule opened_ok [OF ok(2) False])
      (use re r(2) s False open_data(2) [OF ok(2) False] in \<open>auto simp: is_open_def split: if_splits\<close>)
  then show ?thesis using re r(1) by blast
qed

lemma sockets_inv_step:
  assumes "sockets_step os perform ctl x x'" "sockets_inv x"
  shows "sockets_inv x'"
  using assms
proof (induction rule: sockets_step.induct)
  case (Open fresh r af type protocol ss i w ec impl r' w')
  then show ?case using do_open_effect by (fastforce simp: sockets_inv_def)
next
  case (Assign fresh r native_socket type ss i w ec impl r' w')
  then show ?case using do_assign_effect by (fastforce simp: sockets_inv_def)
next
  case (Close ss i ec r w calls ec' impl r' w')
  then show ?case using ss_close_effect by (fastforce simp: sockets_inv_def)
next
  case (Destroy ss i r w calls impl r' w')
  have "\<not> is_open (ss_construct impl)" "si_state (ss_construct impl) = 0" by (simp_all add: ss_construct_def is_open_def)
  moreover obtain live free where "reactor_ok r live free" "sockets_ok ss r live" using Destroy(2) by (auto simp: sockets_inv_def)
  ultimately show ?case using ss_destroy_effect [of r live free ss os ctl i w calls impl r' w'] Destroy(1)
    by (auto simp: sockets_inv_def)
next
  case (Move_construct ss i j target source r)
  then show ?case using moved_ok by (fastforce simp: sockets_inv_def)
next
  case (Move_assign i j ss r w calls target source r' w')
  obtain calls1 impl r1 w1 where d: "ss_destroy os ctl (ss i) r w = (calls1, impl, r1, w1)" by (metis prod.exhaust)
  then have m: "base_move_construct impl (ss j) = (target, source)" "r' = r1"
    using Move_assign(2) by (simp_all add: base_move_assign_def)
  have c: "\<not> is_open (ss_construct impl)" "si_state (ss_construct impl) = 0" by (simp_all add: ss_construct_def is_open_def)
  obtain live free where ok: "reactor_ok r live free" "sockets_ok ss r live" using Move_assign(3) by (auto simp: sockets_inv_def)
  obtain live' free' where k: "reactor_ok r1 live' free'" "sockets_ok (ss(i := ss_construct impl)) r1 live'"
    using ss_destroy_effect [OF ok d c] by blast
  have "sockets_ok ((ss(i := ss_construct impl))(i := target, j := source)) r1 live'"
    by (rule moved_ok [OF k(2) _ Move_assign(1)]) (use c m(1) Move_assign(1) in simp_all)
  then show ?case using k(1) m(2) by (auto simp: sockets_inv_def)
next
  case (Cancel ss i r calls ec r')
  then obtain live free where ok: "reactor_ok r live free" "sockets_ok ss r live" by (auto simp: sockets_inv_def)
  show ?case
  proof (cases "is_open (ss i)")
    case False
    then show ?thesis using Cancel by (simp add: ss_cancel_def)
  next
    case True
    then obtain d where d: "d \<in> set live" "si_data (ss i) = Some d" using open_data(1) [OF ok(2)] by blast
    obtain calls1 r1 where c: "cancel_ops (Some d) r = (calls1, r1)" by force
    then have r: "r' = r1" using Cancel(1) True d(2) by (simp add: ss_cancel_def)
    have "reactor_ok r1 live free"
      using reactor_step_ok [OF reactor_step.Cancel [OF _ c, where perform = undefined and ctl = undefined]] ok(1) d(1) by auto
    moreover have "ds_descriptor (r_state r1 d') = ds_descriptor (r_state r d')" for d'
      using c by (auto simp: cancel_ops_def Let_def)
    ultimately show ?thesis using ok(2) r by (auto simp: sockets_inv_def sockets_ok_def)
  qed
next
  case (Start ss i j op cont nb noop r w calls impl r' w')
  then obtain live free where ok: "reactor_ok r live free" "sockets_ok ss r live" by (auto simp: sockets_inv_def)
  have "starts (ss i) r impl r' live free"
    by (rule ss_start_op_starts [OF ok(1) _ _ Start(1)]) (use open_data [OF ok(2)] in auto)
  then show ?case using starts_ok [OF ok(2)] by (auto simp: sockets_inv_def starts_def)
next
  case (Accept ss i op cont peer r w calls impl r' w')
  then obtain live free where ok: "reactor_ok r live free" "sockets_ok ss r live" by (auto simp: sockets_inv_def)
  have "starts (ss i) r impl r' live free"
    by (rule start_accept_op_starts [OF ok(1) _ _ Accept(1)]) (use open_data [OF ok(2)] in auto)
  then show ?case using starts_ok [OF ok(2)] by (auto simp: sockets_inv_def starts_def)
next
  case (Connect ss i op cont addr r w calls impl r' w')
  then obtain live free where ok: "reactor_ok r live free" "sockets_ok ss r live" by (auto simp: sockets_inv_def)
  have "starts (ss i) r impl r' live free"
    by (rule start_connect_op_starts [OF ok(1) _ _ Connect(1)]) (use open_data [OF ok(2)] in auto)
  then show ?case using starts_ok [OF ok(2)] by (auto simp: sockets_inv_def starts_def)
qed

inductive sockets_reachable ::
    "('m, 'w) sys \<Rightarrow> 'w perform \<Rightarrow> 'w epoll_ctl \<Rightarrow> (nat \<Rightarrow> socket_impl) \<times> reactor \<Rightarrow> bool"
  for os perform ctl where
  start: "\<lbrakk>registered_descriptors r = new_pool; \<And>i. \<not> is_open (ss i) \<and> si_state (ss i) = 0\<rbrakk>
    \<Longrightarrow> sockets_reachable os perform ctl (ss, r)"
| step: "\<lbrakk>sockets_reachable os perform ctl x; sockets_step os perform ctl x x'\<rbrakk> \<Longrightarrow> sockets_reachable os perform ctl x'"

lemma sockets_reachable_inv: "sockets_reachable os perform ctl x \<Longrightarrow> sockets_inv x"
proof (induction rule: sockets_reachable.induct)
  case (start r ss)
  then have "reactor_ok r [] []" "sockets_ok ss r []" by (simp_all add: reactor_ok_def pool_ok_new sockets_ok_def)
  then show ?case by (auto simp: sockets_inv_def)
next
  case (step x x')
  then show ?case using sockets_inv_step by blast
qed

text \<open>
  C17. However sockets are opened, assigned, moved, used, cancelled and closed, and whatever the system
  answers, two open sockets never share a registration with the reactor, and the registration of an
  open socket is live, not shut down, and for that socket's descriptor.\<close>

theorem open_sockets_are_registered:
  assumes "sockets_reachable os perform ctl (ss, r)" "is_open (ss i)"
  shows "(\<exists>d. si_data (ss i) = Some d \<and> ds_descriptor (r_state r d) = si_socket (ss i) \<and> \<not> ds_shutdown (r_state r d)) \<and>
    (\<forall>j. is_open (ss j) \<and> si_data (ss j) = si_data (ss i) \<longrightarrow> j = i)"
proof -
  obtain live free where ok: "reactor_ok r live free" "sockets_ok ss r live"
    using sockets_reachable_inv [OF assms(1)] by (auto simp: sockets_inv_def)
  obtain d where d: "si_data (ss i) = Some d" "d \<in> set live" "ds_descriptor (r_state r d) = si_socket (ss i)"
    using ok(2) assms(2) by (auto simp: sockets_ok_def)
  have "\<not> ds_shutdown (r_state r d)" using ok(1) d(2) by (simp add: reactor_ok_def)
  moreover have "j = i" if "is_open (ss j)" "si_data (ss j) = si_data (ss i)" for j
    using ok(2) assms(2) that by (simp add: sockets_ok_def)
  ultimately show ?thesis using d by blast
qed

text \<open>
  Closing an open socket ends every operation that waits on it, and only those, with the error
  \<^verbatim>\<open>operation_aborted\<close>, in one call of the scheduler, and leaves the socket closed and without
  registration, whether or not the system reports an error.\<close>

theorem closing_aborts_waiting_operations:
  assumes "sockets_reachable os perform ctl (ss, r)" "is_open (ss i)" "si_data (ss i) = Some d"
    "ss_close os ctl (ss i) ec r w = (calls, (ec', impl), r', w')"
  shows "calls = [Post_deferred (all_ops (r_state r d))] \<and> \<not> is_open impl \<and> si_data impl = None \<and>
    (\<forall>op. op_ec r' op = (if op \<in> set (all_ops (r_state r d)) then basic_error operation_aborted else op_ec r op)) \<and>
    all_ops (r_state r' d) = [] \<and> (\<forall>d'. d' \<noteq> d \<longrightarrow> r_state r' d' = r_state r d')"
proof -
  obtain live free where ok: "reactor_ok r live free" "sockets_ok ss r live"
    using sockets_reachable_inv [OF assms(1)] by (auto simp: sockets_inv_def)
  have d: "d \<in> set live" using ok(2) assms(2,3) by (fastforce simp: sockets_ok_def)
  obtain calls1 data r1 w1 where dr: "deregister_descriptor ctl (si_socket (ss i)) (Some d) (closes_descriptor (ss i)) r w = (calls1, data, r1, w1)"
    by (metis prod.exhaust)
  then have c: "calls = calls1" "r' = r1" "si_data impl = data" "\<not> is_open impl"
    using assms(2-4) by (auto simp: ss_close_def ss_construct_def is_open_def split: prod.splits)
  note e = deregister_effect [OF ok(1) d dr]
  have "d \<in> set (d # free)" by simp
  then have "all_ops (r_state r1 d) = []" using e by (auto simp: reactor_ok_def all_ops_def)
  then show ?thesis using c e by (simp add: abort_ops_def)
qed

subsection \<open>An example\<close>

text \<open>A system in which every call succeeds with the result 3.\<close>

definition example_os :: "(unit, kernel) sys" where
  "example_os = \<lparr>sys_accept = (\<lambda>_ w. ((3, 0), w)), sys_bind = (\<lambda>_ _ w. ((0, 0), w)), sys_listen = (\<lambda>_ _ w. ((0, 0), w)),
     sys_shutdown = (\<lambda>_ _ w. ((0, 0), w)), sys_connect = (\<lambda>_ _ w. ((0, 0), w)), sys_close = (\<lambda>_ w. ((0, 0), w)),
     sys_socket = (\<lambda>_ _ _ w. ((3, 0), w)), sys_fionbio = (\<lambda>_ _ w. ((0, 0), w)), sys_poll = (\<lambda>_ _ _ w. ((1, 0), w)),
     sys_recvmsg = (\<lambda>_ _ _ w. ((0, 0), w)), sys_sendmsg = (\<lambda>_ _ _ w. ((0, 0), w)), sys_query = (\<lambda>_ _ w. ((0, 0, 0), w)),
     sys_setsockopt = (\<lambda>_ _ _ _ w. ((0, 0), w)), sys_getsockopt = (\<lambda>_ _ _ w. ((0, 0, 0), w))\<rparr>"

definition closed_impl :: socket_impl where
  "closed_impl = \<lparr>si_socket = invalid_socket, si_state = 0, si_data = None\<rparr>"

definition empty_reactor :: reactor where
  "empty_reactor = \<lparr>r_state = (\<lambda>_. new_descriptor_state), registered_descriptors = new_pool, op_ec = (\<lambda>_. no_error), r_shutdown = False\<rparr>"

definition open_impl :: socket_impl where
  "open_impl = \<lparr>si_socket = 3, si_state = stream_oriented, si_data = Some 4\<rparr>"

definition open_reactor :: reactor where
  "open_reactor = (fst (snd (snd (register_descriptor example_ctl 4 3 empty_reactor (dw_kernel idle_descriptor)))))"

lemma unused_empty: "unused 4 empty_reactor"
proof -
  have "live = [] \<and> free = []" if "reactor_ok empty_reactor live free" for live free
    using that by (cases live; cases free) (auto simp: reactor_ok_def pool_ok_def empty_reactor_def new_pool_def)
  then show ?thesis by (fastforce simp: unused_def)
qed

lemma example_opens:
  "\<exists>w'. do_open example_os example_ctl 4 2 SOCK_STREAM 0 closed_impl empty_reactor (dw_kernel idle_descriptor) =
     ((no_error, open_impl), open_reactor, w')"
  by (simp add: do_open_def closed_impl_def is_open_def so_socket_def checked_def error_wrapper_def example_os_def invalid_socket_def
      register_descriptor_def allocate_descriptor_state_def pool_alloc_def new_pool_def link_front_def example_ctl_def
      empty_reactor_def open_reactor_def open_impl_def oriented_def)

lemma example_sockets_reachable:
  "sockets_reachable example_os example_perform example_ctl ((\<lambda>_. closed_impl)(0 := open_impl), open_reactor)"
proof -
  have s: "sockets_reachable example_os example_perform example_ctl ((\<lambda>_. closed_impl), empty_reactor)"
    by (rule sockets_reachable.start) (simp_all add: empty_reactor_def closed_impl_def is_open_def)
  obtain w' where "do_open example_os example_ctl 4 2 SOCK_STREAM 0 ((\<lambda>_. closed_impl) 0) empty_reactor (dw_kernel idle_descriptor) =
     ((no_error, open_impl), open_reactor, w')" using example_opens by blast
  from sockets_reachable.step [OF s sockets_step.Open [OF unused_empty this]] show ?thesis by simp
qed

theorem open_sockets_are_registered_witness:
  "\<exists>d. si_data open_impl = Some d \<and> ds_descriptor (r_state open_reactor d) = 3 \<and> \<not> ds_shutdown (r_state open_reactor d)"
proof -
  have "is_open (((\<lambda>_. closed_impl)(0 := open_impl)) 0)" by (simp add: is_open_def open_impl_def invalid_socket_def)
  from open_sockets_are_registered [OF example_sockets_reachable this] show ?thesis by (simp add: open_impl_def)
qed

theorem closing_aborts_waiting_operations_witness:
  "\<exists>impl r' w'. ss_close example_os example_ctl open_impl no_error open_reactor (dw_kernel idle_descriptor) =
     ([Post_deferred (all_ops (r_state open_reactor 4))], (no_error, impl), r', w') \<and> \<not> is_open impl \<and> si_data impl = None"
proof -
  obtain calls ec impl r' w' where c: "ss_close example_os example_ctl (((\<lambda>_. closed_impl)(0 := open_impl)) (0 :: nat)) no_error open_reactor
      (dw_kernel idle_descriptor) = (calls, (ec, impl), r', w')" by (metis prod.exhaust)
  have "is_open (((\<lambda>_. closed_impl)(0 := open_impl)) (0 :: nat))" "si_data (((\<lambda>_. closed_impl)(0 := open_impl)) (0 :: nat)) = Some 4"
    by (simp_all add: is_open_def open_impl_def invalid_socket_def)
  from closing_aborts_waiting_operations [OF example_sockets_reachable this c]
  have "calls = [Post_deferred (all_ops (r_state open_reactor 4))] \<and> \<not> is_open impl \<and> si_data impl = None" by blast
  moreover have "ec = no_error"
    using c by (auto simp: ss_close_def so_close_def error_wrapper_def example_os_def would_block_or_again_def has_flag_def Let_def
        split: prod.splits if_splits)
  ultimately show ?thesis using c by simp
qed

definition accept_kernel :: kernel where
  "accept_kernel = \<lparr>k_ready = (\<lambda>j. j = 0), k_events = all_events, k_pending = 0, k_aborted = False\<rparr>"

text \<open>
  \<^verbatim>\<open>start_accept_op\<close> passes its arguments to \<^verbatim>\<open>start_op\<close> in the wrong order: whether the operation may
  be tried at once is decided by whether the handler is a continuation, and the handler is always
  posted as one. Here a connection waits and the handler is not a continuation: the operation is
  not tried, although \<^verbatim>\<open>start_op\<close> with the arguments in order completes it at once.\<close>

theorem accept_swaps_its_arguments:
  "fst (start_accept_op example_os example_perform example_ctl open_impl 6 False False open_reactor accept_kernel) = [Started] \<and>
   fst (ss_start_op example_os example_perform example_ctl open_impl read_op 6 False True False open_reactor accept_kernel) =
     [Post_immediate 6 False] \<and>
   fst (start_accept_op example_os example_perform example_ctl open_impl 6 True False open_reactor accept_kernel) = [Post_immediate 6 True]"
  by code_simp

end
