(* ===== verification/SocketReactor.thy ===== *)
theory SocketReactor
  imports SocketService
begin

text \<open>
  The operations that the socket service gives to the reactor
  (\<^verbatim>\<open>detail/reactive_socket_send_op.hpp\<close> and its sisters, \<^verbatim>\<open>detail/reactive_null_buffers_op.hpp\<close>):
  each tries a call of \<open>SocketOps\<close>. They are shown to obey the law on which the account of readiness in
  \<open>EpollReactorSpec\<close> rests, from what the system promises of its calls on a non-blocking socket.
\<close>

text \<open>An operation, with what it was made with. A receive on a stream reports the end of it.\<close>

datatype 'm socket_request =
    Send 'm int | Sendto 'm int | Recv 'm int bool | Recvfrom 'm int | Accept state_type | Connect | Null_buffers nat

definition message_out_of_band :: int where "message_out_of_band = 1"

definition recv_kind :: "int \<Rightarrow> nat" where
  "recv_kind flags = (if flags AND message_out_of_band \<noteq> 0 then except_op else read_op)"

text \<open>The queue the service puts it in.\<close>

fun request_kind :: "'m socket_request \<Rightarrow> nat" where
  "request_kind (Send msg flags) = write_op"
| "request_kind (Sendto msg flags) = write_op"
| "request_kind (Recv msg flags is_stream) = recv_kind flags"
| "request_kind (Recvfrom msg flags) = recv_kind flags"
| "request_kind (Accept state) = read_op"
| "request_kind Connect = connect_op"
| "request_kind (Null_buffers kind) = kind"

text \<open>Whether a try ends the operation. One that is interrupted again and again does not end.\<close>

definition tried :: "((bool \<times> 'a) \<times> 'w) res \<Rightarrow> 'w \<Rightarrow> bool \<times> 'w" where
  "tried r w = (case r of Inr ((finished, _), w) \<Rightarrow> (finished, w) | Inl _ \<Rightarrow> (False, w))"

text \<open>\<^verbatim>\<open>do_perform\<close> of the operations on the socket \<open>fd\<close>.\<close>

fun do_perform :: "('m, 'w) sys \<Rightarrow> int \<Rightarrow> 'm socket_request \<Rightarrow> 'w \<Rightarrow> bool \<times> 'w" where
  "do_perform os fd (Send msg flags) w = tried (non_blocking_send os fd msg flags w) w"
| "do_perform os fd (Sendto msg flags) w = tried (non_blocking_sendto os fd msg flags w) w"
| "do_perform os fd (Recv msg flags is_stream) w = tried (non_blocking_recv os fd msg flags is_stream w) w"
| "do_perform os fd (Recvfrom msg flags) w = tried (non_blocking_recvfrom os fd msg flags w) w"
| "do_perform os fd (Accept state) w = tried (non_blocking_accept os fd state w) w"
| "do_perform os fd Connect w = (let ((finished, _), w) = non_blocking_connect os fd no_error w in (finished, w))"
| "do_perform os fd (Null_buffers kind) w = (True, w)"

definition socket_perform :: "('m, 'w) sys \<Rightarrow> int \<Rightarrow> (ptr \<Rightarrow> 'm socket_request) \<Rightarrow> 'w perform" where
  "socket_perform os fd request op w = do_perform os fd (request op) w"

subsection \<open>What the system promises\<close>

definition would_block_errno :: "int \<Rightarrow> bool" where
  "would_block_errno e \<longleftrightarrow> e = errno would_block \<or> e = errno try_again"

text \<open>A call on a non-blocking socket is not interrupted; when it reports that it would block, the socket is
  not ready; it never makes the socket ready.\<close>

definition call_law :: "('k kernel_scheme \<Rightarrow> (int \<times> int) \<times> 'k kernel_scheme) \<Rightarrow> nat \<Rightarrow> bool" where
  "call_law call kind \<longleftrightarrow>
     (\<forall>k r e k'. call k = ((r, e), k') \<longrightarrow>
        only_uses k k' \<and> (r < 0 \<longrightarrow> e \<noteq> errno interrupted) \<and> (r < 0 \<and> would_block_errno e \<longrightarrow> \<not> k_ready k' kind))"

text \<open>A failing accept may also report a connection that was aborted, whether or not others wait; polling for
  writing reports nothing only when the socket is not ready; reading an option changes nothing.\<close>

definition system_law :: "('m, 'k kernel_scheme) sys \<Rightarrow> int \<Rightarrow> bool" where
  "system_law os fd \<longleftrightarrow> fd \<noteq> invalid_socket \<and>
     (\<forall>msg flags. call_law (sys_recvmsg os fd msg flags) (recv_kind flags)) \<and>
     (\<forall>msg flags. call_law (sys_sendmsg os fd msg flags) write_op) \<and>
     call_law (sys_accept os fd) read_op \<and>
     (\<forall>k e k'. sys_accept os fd k = ((- 1, e), k') \<and> (e = errno connection_aborted \<or> e = EPROTO) \<longrightarrow> k_aborted k') \<and>
     (\<forall>k r e k'. sys_poll os fd POLLOUT 0 k = ((r, e), k') \<longrightarrow> only_uses k k' \<and> (r = 0 \<longrightarrow> \<not> k_ready k' write_op)) \<and>
     (\<forall>level optname k r k'. sys_getsockopt os fd level optname k = (r, k') \<longrightarrow> only_uses k k')"

lemma errno_facts: "errno interrupted \<noteq> errno would_block" "errno interrupted \<noteq> errno try_again"
  by (simp_all)

lemma only_uses_refl [simp]: "only_uses k k"
  by (simp add: only_uses_def)

lemma only_uses_trans: "only_uses k k1 \<Longrightarrow> only_uses k1 k2 \<Longrightarrow> only_uses k k2"
  by (simp add: only_uses_def)

lemma would_block_basic: "would_block_or_again (Error_code e system_category) \<longleftrightarrow> would_block_errno e"
  by (simp add: would_block_or_again_def basic_error_def would_block_errno_def)

text \<open>A transfer makes one call.\<close>

lemma transfer_tried:
  assumes "call_law call kind" "tried (forever (transfer_body call) k) k = (b, k')"
  shows "only_uses k k' \<and> (\<not> b \<longrightarrow> \<not> k_ready k' kind)"
proof -
  obtain r e k1 where c: "call k = ((r, e), k1)" by (metis prod.exhaust)
  then have l: "only_uses k k1" "r < 0 \<longrightarrow> e \<noteq> errno interrupted" "r < 0 \<and> would_block_errno e \<longrightarrow> \<not> k_ready k1 kind"
    using assms(1) unfolding call_law_def by blast+
  then have "\<not> was_interrupted (fst (call k))" by (simp add: c was_interrupted_def)
  then have "forever (transfer_body call) k = Inr (transfer_outcome (r, e), k1)"
    by (simp add: forever_unfold [of _ k] transfer_body_eq c)
  then have "b = fst (transfer_outcome (r, e))" "k' = k1" using assms(2) by (simp_all add: tried_def split: prod.splits)
  then show ?thesis using l by (auto simp: transfer_outcome_def would_block_errno_def Let_def split: if_splits)
qed

lemma recv_tried:
  assumes "call_law (sys_recvmsg os fd msg flags) kind" "tried (non_blocking_recv os fd msg flags is_stream k) k = (b, k')"
  shows "only_uses k k' \<and> (\<not> b \<longrightarrow> \<not> k_ready k' kind)"
proof -
  obtain r e k1 where c: "sys_recvmsg os fd msg flags k = ((r, e), k1)" by (metis prod.exhaust)
  then have l: "only_uses k k1" "r < 0 \<longrightarrow> e \<noteq> errno interrupted" "r < 0 \<and> would_block_errno e \<longrightarrow> \<not> k_ready k1 kind"
    using assms(1) unfolding call_law_def by blast+
  have "\<exists>x. non_blocking_recv os fd msg flags is_stream k = Inr (x, k1) \<and> (fst x \<or> r < 0 \<and> would_block_errno e)"
  proof (cases "r < 0")
    case True
    then show ?thesis using l(2)
      by (cases "would_block_errno e")
        (auto simp: non_blocking_recv_def forever_unfold [of _ k] so_recv_def c checked_def error_wrapper_def would_block_basic
          basic_error_def intro: exI [of _ False])
  next
    case False
    then show ?thesis
      by (cases "is_stream \<and> r = 0")
        (auto simp: non_blocking_recv_def forever_unfold [of _ k] so_recv_def c checked_def error_wrapper_def no_error_def
          would_block_or_again_def basic_error_def)
  qed
  then obtain x where "non_blocking_recv os fd msg flags is_stream k = Inr (x, k1)" "fst x \<or> r < 0 \<and> would_block_errno e" by blast
  then show ?thesis using assms(2) l by (cases x) (auto simp: tried_def)
qed

lemma accept_tried:
  assumes "call_law (sys_accept os fd) read_op"
    "\<And>k e k'. sys_accept os fd k = ((- 1, e), k') \<Longrightarrow> e = errno connection_aborted \<or> e = EPROTO \<Longrightarrow> k_aborted k'"
    "fd \<noteq> invalid_socket" "tried (non_blocking_accept os fd state k) k = (b, k')"
  shows "only_uses k k' \<and> (\<not> b \<longrightarrow> \<not> k_ready k' read_op \<or> k_aborted k')"
proof -
  obtain r e k1 where c: "sys_accept os fd k = ((r, e), k1)" by (metis prod.exhaust)
  then have l: "only_uses k k1" "r < 0 \<longrightarrow> e \<noteq> errno interrupted" "r < 0 \<and> would_block_errno e \<longrightarrow> \<not> k_ready k1 read_op"
    using assms(1) unfolding call_law_def by blast+
  have "\<exists>x. non_blocking_accept os fd state k = Inr (x, k1) \<and>
      (fst x \<or> r = - 1 \<and> (would_block_errno e \<or> e = errno connection_aborted \<or> e = EPROTO))"
  proof (cases "r = - 1")
    case True
    let ?ec = "Error_code e system_category"
    have "so_accept os fd k = ((- 1, ?ec), k1)" using assms(3) True by (simp add: so_accept_def c checked_def error_wrapper_def invalid_socket_def)
    moreover have "?ec \<noteq> basic_error interrupted" using l(2) True by (simp add: basic_error_def)
    moreover have "accept_gives_up state ?ec \<or> would_block_errno e \<or> e = errno connection_aborted \<or> e = EPROTO"
      by (auto simp: accept_gives_up_def would_block_basic basic_error_def)
    ultimately show ?thesis using True
      by (cases "accept_gives_up state ?ec") (auto simp: non_blocking_accept_def forever_unfold [of _ k] invalid_socket_def intro: exI [of _ False])
  next
    case False
    then have "so_accept os fd k = ((r, no_error), k1)" using assms(3) by (simp add: so_accept_def c checked_def error_wrapper_def invalid_socket_def)
    then show ?thesis using False by (simp add: non_blocking_accept_def forever_unfold [of _ k] invalid_socket_def)
  qed
  then obtain x where "non_blocking_accept os fd state k = Inr (x, k1)"
    "fst x \<or> r = - 1 \<and> (would_block_errno e \<or> e = errno connection_aborted \<or> e = EPROTO)" by blast
  then show ?thesis using assms(4) l assms(2) [of k e k1] c by (cases x) (auto simp: tried_def)
qed

lemma connect_tried:
  assumes "\<And>k r e k'. sys_poll os fd POLLOUT 0 k = ((r, e), k') \<Longrightarrow> only_uses k k' \<and> (r = 0 \<longrightarrow> \<not> k_ready k' write_op)"
    "\<And>level optname k r k'. sys_getsockopt os fd level optname k = (r, k') \<Longrightarrow> only_uses k k'"
    "non_blocking_connect os fd ec k = ((b, ec'), k')"
  shows "only_uses k k' \<and> (\<not> b \<longrightarrow> \<not> k_ready k' write_op)"
proof -
  obtain r e k1 where p: "sys_poll os fd POLLOUT 0 k = ((r, e), k1)" by (metis prod.exhaust)
  note l = assms(1) [OF p]
  show ?thesis
  proof (cases "r = 0")
    case True
    then show ?thesis using l assms(3) p by (auto simp: non_blocking_connect_def)
  next
    case False
    obtain q k2 where g: "so_getsockopt os fd 0 SOL_SOCKET SO_ERROR 4 k1 = (q, k2)" by (metis prod.exhaust)
    then have "only_uses k1 k2"
      using assms(2) by (auto simp: so_getsockopt_def Let_def split: if_splits prod.splits)
    moreover have "b" "k' = k2" using assms(3) p False g by (auto simp: non_blocking_connect_def Let_def split: prod.splits if_splits)
    ultimately show ?thesis using l only_uses_trans by blast
  qed
qed

lemma socket_perform_law:
  assumes "system_law os fd"
  shows "perform_law (request_kind \<circ> request) (socket_perform os fd request)"
proof -
  have law: "fd \<noteq> invalid_socket" "call_law (sys_recvmsg os fd msg flags) (recv_kind flags)" "call_law (sys_sendmsg os fd msg flags) write_op"
    "call_law (sys_accept os fd) read_op"
    "sys_accept os fd k = ((- 1, e), k') \<Longrightarrow> e = errno connection_aborted \<or> e = EPROTO \<Longrightarrow> k_aborted k'"
    "sys_poll os fd POLLOUT 0 k = ((r, e), k') \<Longrightarrow> only_uses k k' \<and> (r = 0 \<longrightarrow> \<not> k_ready k' write_op)"
    "sys_getsockopt os fd level optname k = (q, k') \<Longrightarrow> only_uses k k'" for msg flags k e k' r level optname q
    using assms unfolding system_law_def by blast+
  have "only_uses k k' \<and> (\<not> b \<longrightarrow> \<not> k_ready k' (request_kind q) \<or> k_aborted k')"
    if d: "do_perform os fd q k = (b, k')" for q k b k'
  proof (cases q)
    case (Send msg flags)
    then show ?thesis using d transfer_tried [OF law(3)] by (auto simp: non_blocking_transfers)
  next
    case (Sendto msg flags)
    then show ?thesis using d transfer_tried [OF law(3)] by (auto simp: non_blocking_transfers)
  next
    case (Recv msg flags is_stream)
    then show ?thesis using d recv_tried [OF law(2)] by auto
  next
    case (Recvfrom msg flags)
    then show ?thesis using d transfer_tried [OF law(2)] by (auto simp: non_blocking_transfers)
  next
    case (Accept state)
    then show ?thesis using d accept_tried [OF law(4,5,1)] by auto
  next
    case Connect
    then obtain ec' where "non_blocking_connect os fd no_error k = ((b, ec'), k')"
      using d by (auto split: prod.splits)
    from connect_tried [OF law(6,7) this] show ?thesis by (simp add: Connect connect_op_def write_op_def)
  next
    case (Null_buffers kind)
    then show ?thesis using d by simp
  qed
  then show ?thesis unfolding perform_law_def socket_perform_def comp_def by blast
qed

subsection \<open>Properties\<close>

text \<open>
  C16. Although epoll reports each change only once, no operation of the socket service waits on a
  descriptor that is ready for it without somebody knowing: epoll has still to report it, or the descriptor is
  in the queue of the scheduler with the event, or a thread has taken it and is about to perform its
  operations. The hypotheses are what the system promises of its calls on a non-blocking socket and of
  \<^verbatim>\<open>epoll_ctl\<close>. Two things are excepted, both of which do strand operations: a call of
  \<^verbatim>\<open>epoll_ctl\<close> whose result \<^verbatim>\<open>start_op\<close> does not check has failed, or an accept has met a
  connection that was aborted and gone on waiting.\<close>

theorem readiness_is_never_missed:
  assumes "system_law os fd" "ctl_law ctl"
    "descriptor_reachable (socket_perform os fd request) ctl (request_kind \<circ> request) w"
    "\<not> dw_unchecked w" "\<not> k_aborted (dw_kernel w)"
    "j < max_ops" "ds_ops (dw_state w) j \<noteq> []" "k_ready (dw_kernel w) j"
  shows "covers (k_pending (dw_kernel w)) j \<or> (dw_queued w \<and> covers (task_result (dw_state w)) j) \<or>
    list_ex (\<lambda>ev. covers ev j) (dw_running w)"
  using readiness_noticed [OF socket_perform_law [OF assms(1)] assms(2-4)] assms(5-8)
  by (auto simp: watched_def noticed_def list_ex_iff)

text \<open>A stream socket on which something has arrived.\<close>

definition stream_os :: "(unit, kernel) sys" where
  "stream_os = example_os\<lparr>
     sys_accept := \<lambda>_ k. (if k_ready k read_op then ((7, 0), k\<lparr>k_ready := (k_ready k)(read_op := False)\<rparr>) else ((- 1, 11), k)),
     sys_recvmsg := \<lambda>_ _ flags k. (if k_ready k (recv_kind flags) then ((1, 0), k\<lparr>k_ready := (k_ready k)(recv_kind flags := False)\<rparr>)
       else ((- 1, 11), k)),
     sys_sendmsg := \<lambda>_ _ _ k. (if k_ready k write_op then ((1, 0), k) else ((- 1, 11), k)),
     sys_poll := \<lambda>_ _ _ k. ((if k_ready k write_op then 1 else 0, 0), k)\<rparr>"

lemma stream_os_law: "system_law stream_os 5"
  by (auto simp: system_law_def call_law_def only_uses_def stream_os_def example_os_def invalid_socket_def would_block_errno_def
      EPROTO_def split: if_splits)

definition stream_request :: "ptr \<Rightarrow> unit socket_request" where
  "stream_request op = Recv () 0 True"

lemma stream_reachable:
  "descriptor_reachable (socket_perform stream_os 5 stream_request) example_ctl (request_kind \<circ> stream_request)
     (idle_descriptor\<lparr>dw_state := push_op 0 3 (dw_state idle_descriptor), dw_kernel := arrived\<rparr>)"
proof -
  have j: "just_registered idle_descriptor"
    by (simp add: just_registered_def idle_descriptor_def new_descriptor_state_def)
  have p: "socket_perform stream_os 5 stream_request 3 (dw_kernel idle_descriptor) = (False, dw_kernel idle_descriptor)"
    by (simp add: socket_perform_def stream_request_def non_blocking_recv_def forever_unfold [of _ "dw_kernel idle_descriptor"] so_recv_def
        checked_def error_wrapper_def stream_os_def would_block_or_again_def basic_error_def tried_def)
      (simp add: idle_descriptor_def)
  have s: "ds_start_op (socket_perform stream_os 5 stream_request) example_ctl 9 0 5 3 True (dw_state idle_descriptor) (dw_kernel idle_descriptor) =
      (Waiting, push_op 0 3 (dw_state idle_descriptor), dw_kernel idle_descriptor)"
    using p by (simp add: ds_start_op_def idle_descriptor_def new_descriptor_state_def write_op_def)
  have "descriptor_step (socket_perform stream_os 5 stream_request) example_ctl (request_kind \<circ> stream_request) idle_descriptor
      (idle_descriptor\<lparr>dw_state := push_op 0 3 (dw_state idle_descriptor), dw_kernel := dw_kernel idle_descriptor,
        dw_unchecked := dw_unchecked idle_descriptor \<or> False\<rparr>)"
    by (rule descriptor_step.Start [OF _ _ _ s]) (simp_all add: max_ops_def example_ctl_def stream_request_def recv_kind_def read_op_def)
  from descriptor_reachable.step [OF descriptor_reachable.registered [OF j] this]
  have r: "descriptor_reachable (socket_perform stream_os 5 stream_request) example_ctl (request_kind \<circ> stream_request)
      (idle_descriptor\<lparr>dw_state := push_op 0 3 (dw_state idle_descriptor)\<rparr>)" (is "descriptor_reachable _ _ _ ?w")
    by (simp add: idle_descriptor_def)
  have c: "covers EPOLLIN 0" by (simp add: covers_def event_flag_def EPOLLIN_def EPOLLERR_def EPOLLHUP_def)
  have "descriptor_step (socket_perform stream_os 5 stream_request) example_ctl (request_kind \<circ> stream_request) ?w (?w\<lparr>dw_kernel := arrived\<rparr>)"
    by (rule descriptor_step.Change) (use c in \<open>auto simp: arrived_def idle_descriptor_def\<close>)
  then show ?thesis using descriptor_reachable.step [OF r] by simp
qed

theorem readiness_is_never_missed_witness:
  "ds_ops (push_op 0 3 (dw_state idle_descriptor)) 0 = [3] \<and> k_ready arrived 0 \<and> covers (k_pending arrived) 0"
proof -
  let ?w = "idle_descriptor\<lparr>dw_state := push_op 0 3 (dw_state idle_descriptor), dw_kernel := arrived\<rparr>"
  have q: "ds_ops (push_op 0 3 (dw_state idle_descriptor)) 0 = [3]"
    by (simp add: push_op_def idle_descriptor_def new_descriptor_state_def)
  have r: "k_ready arrived 0" by (simp add: arrived_def)
  have "covers (k_pending (dw_kernel ?w)) 0 \<or> (dw_queued ?w \<and> covers (task_result (dw_state ?w)) 0) \<or>
      list_ex (\<lambda>ev. covers ev 0) (dw_running ?w)"
    by (rule readiness_is_never_missed [OF stream_os_law example_laws(2) stream_reachable]) (use q r in \<open>simp_all add: max_ops_def idle_descriptor_def arrived_def\<close>)
  then show ?thesis using q r by (simp add: idle_descriptor_def)
qed


text \<open>
  The second exception: an accept that fails because its connection was aborted leaves the operation in its
  queue and tries no other, though the next connection is there: the listener is ready, and nobody will be told.\<close>

lemma aborted_connection_strands_accept:
  assumes "request op = Accept 0" "fd \<noteq> invalid_socket" "sys_accept os fd k = ((- 1, errno connection_aborted), k')"
    "ds_ops s read_op = [op]" "ds_ops s write_op = []" "ds_ops s except_op = []" "covers ev read_op"
  shows "ds_perform_io (socket_perform os fd request) ev s k = (None, [Started], s, k')"
proof -
  have "so_accept os fd k = ((- 1, Error_code 103 system_category), k')"
    using assms(2,3) by (simp add: so_accept_def checked_def error_wrapper_def invalid_socket_def)
  then have p: "socket_perform os fd request op k = (False, k')"
    using assms(1) by (simp add: socket_perform_def non_blocking_accept_def forever_unfold [of _ k] invalid_socket_def basic_error_def
        accept_gives_up_def would_block_or_again_def has_flag_def tried_def)
  have q: "(ds_ops s)(read_op := [op]) = ds_ops s" "(ds_ops s)(write_op := []) = ds_ops s" "(ds_ops s)(except_op := []) = ds_ops s"
    using assms(4-6) by (metis fun_upd_triv)+
  show ?thesis using p q assms(4-7)
    by (simp add: ds_perform_io_def max_ops_def eval_nat_numeral read_op_def write_op_def except_op_def)
qed

end
