(* ===== verification/HashMap.thy ===== *)
theory HashMap
  imports OpQueue "HOL-Library.Multiset"
begin

text \<open>
  The hash map of asio (\<^verbatim>\<open>detail/hash_map.hpp\<close>), which the queues of operations per descriptor use:
  one list of nodes holds the entries of all buckets, each bucket a range of it given by its first and
  last node; erased nodes are kept as spares. An iterator is a node or, at the end, \<open>None\<close>; the
  calculation of hash values is a parameter. Allocation does not fail; a new node is the argument \<open>fresh\<close>.
\<close>

type_synonym node = nat

record ('k, 'v) hash_map =
  hm_size :: nat
  hm_values :: "node list"
  hm_spares :: "node list"
  hm_content :: "node \<Rightarrow> 'k \<times> 'v"
  hm_buckets :: "(node option \<times> node option) list"

subsection \<open>Lists of nodes\<close>

text \<open>\<^verbatim>\<open>++it\<close> and \<^verbatim>\<open>--it\<close>; inserting before an iterator.\<close>

fun it_succ :: "node list \<Rightarrow> node \<Rightarrow> node option" where
  "it_succ [] it = None"
| "it_succ (n # ns) it = (if n = it then (case ns of [] \<Rightarrow> None | m # _ \<Rightarrow> Some m) else it_succ ns it)"

fun it_pred :: "node list \<Rightarrow> node \<Rightarrow> node option" where
  "it_pred (n # m # ns) it = (if m = it then Some n else it_pred (m # ns) it)"
| "it_pred _ it = None"

definition insert_before :: "node option \<Rightarrow> node \<Rightarrow> node list \<Rightarrow> node list" where
  "insert_before it x ns = takeWhile (\<lambda>n. Some n \<noteq> it) ns @ x # dropWhile (\<lambda>n. Some n \<noteq> it) ns"

subsection \<open>Operations\<close>

definition new_hash_map :: "('k, 'v) hash_map" where
  "new_hash_map = \<lparr>hm_size = 0, hm_values = [], hm_spares = [], hm_content = (\<lambda>_. undefined), hm_buckets = []\<rparr>"

definition hm_empty :: "('k, 'v) hash_map \<Rightarrow> bool" where
  "hm_empty m \<longleftrightarrow> hm_values m = []"

definition num_buckets :: "('k, 'v) hash_map \<Rightarrow> nat" where
  "num_buckets m = length (hm_buckets m)"

text \<open>The walk through a bucket, from a node up to the end of the bucket.\<close>

fun hm_scan :: "('k, 'v) hash_map \<Rightarrow> 'k \<Rightarrow> node option \<Rightarrow> node list \<Rightarrow> node option" where
  "hm_scan m k end_it [] = None"
| "hm_scan m k end_it (n # ns) =
     (if Some n = end_it then None else if fst (hm_content m n) = k then Some n else hm_scan m k end_it ns)"

definition bucket_end :: "('k, 'v) hash_map \<Rightarrow> nat \<Rightarrow> node option" where
  "bucket_end m b = (case snd (hm_buckets m ! b) of Some l \<Rightarrow> it_succ (hm_values m) l | None \<Rightarrow> None)"

definition hm_find :: "('k \<Rightarrow> nat) \<Rightarrow> 'k \<Rightarrow> ('k, 'v) hash_map \<Rightarrow> node option" where
  "hm_find hash k m =
     (if num_buckets m \<noteq> 0 then
        let b = hash k mod num_buckets m in
        case fst (hm_buckets m ! b) of
          None \<Rightarrow> None
        | Some it \<Rightarrow> hm_scan m k (bucket_end m b) (dropWhile (\<lambda>n. n \<noteq> it) (hm_values m))
      else None)"

definition hash_sizes :: "nat list" where
  "hash_sizes = [3, 13, 23, 53, 97, 193, 389, 769, 1543, 3079, 6151, 12289, 24593,
      49157, 98317, 196613, 393241, 786433, 1572869, 3145739, 6291469, 12582917, 25165843]"

definition hash_size :: "nat \<Rightarrow> nat" where
  "hash_size num_elems = (case find (\<lambda>k. num_elems < k) (butlast hash_sizes) of Some k \<Rightarrow> k | None \<Rightarrow> last hash_sizes)"

text \<open>The loop of \<^verbatim>\<open>rehash\<close>: \<^verbatim>\<open>iter\<close> goes through the nodes in their old order, each being moved to the
  end of its bucket's range. A node moved comes to stand before nodes the loop has passed.\<close>

definition rehash_node :: "('k \<Rightarrow> nat) \<Rightarrow> node \<Rightarrow> ('k, 'v) hash_map \<Rightarrow> ('k, 'v) hash_map" where
  "rehash_node hash iter m =
     (let b = hash (fst (hm_content m iter)) mod num_buckets m in
      case hm_buckets m ! b of
        (first, None) \<Rightarrow> m\<lparr>hm_buckets := (hm_buckets m)[b := (Some iter, Some iter)]\<rparr>
      | (first, Some l) \<Rightarrow>
          let last' = it_succ (hm_values m) l in
          if last' = Some iter then m\<lparr>hm_buckets := (hm_buckets m)[b := (first, last')]\<rparr>
          else
            let values' = insert_before last' iter (remove1 iter (hm_values m)) in
            m\<lparr>hm_values := values',
              hm_buckets := (hm_buckets m)[b := (first, (case last' of Some x \<Rightarrow> it_pred values' x | None \<Rightarrow> None))]\<rparr>)"

definition hm_rehash :: "('k \<Rightarrow> nat) \<Rightarrow> nat \<Rightarrow> ('k, 'v) hash_map \<Rightarrow> ('k, 'v) hash_map" where
  "hm_rehash hash n m =
     (if n = num_buckets m then m
      else fold (rehash_node hash) (hm_values m) (m\<lparr>hm_buckets := replicate n (None, None)\<rparr>))"

text \<open>Inserting a node before an iterator, a spare one when there is one.\<close>

definition values_insert :: "node \<Rightarrow> node option \<Rightarrow> 'k \<times> 'v \<Rightarrow> ('k, 'v) hash_map \<Rightarrow> node \<times> ('k, 'v) hash_map" where
  "values_insert fresh it v m =
     (let (n, spares) = (case hm_spares m of [] \<Rightarrow> (fresh, []) | s # ss \<Rightarrow> (s, ss)) in
      (n, m\<lparr>hm_values := insert_before it n (hm_values m), hm_spares := spares, hm_content := (hm_content m)(n := v)\<rparr>))"

definition hm_put :: "node \<Rightarrow> 'k \<times> 'v \<Rightarrow> nat \<Rightarrow> ('k, 'v) hash_map \<Rightarrow> (node \<times> bool) \<times> ('k, 'v) hash_map" where
  "hm_put fresh v b m =
     (case fst (hm_buckets m ! b) of
        None \<Rightarrow>
          let (n, m) = values_insert fresh None v m in
          ((n, True), m\<lparr>hm_buckets := (hm_buckets m)[b := (Some n, Some n)], hm_size := hm_size m + 1\<rparr>)
      | Some it \<Rightarrow>
          (case hm_scan m (fst v) (bucket_end m b) (dropWhile (\<lambda>n. n \<noteq> it) (hm_values m)) of
             Some n \<Rightarrow> ((n, False), m)
           | None \<Rightarrow>
               let (n, m) = values_insert fresh (bucket_end m b) v m in
               ((n, True), m\<lparr>hm_buckets := (hm_buckets m)[b := (Some it, Some n)], hm_size := hm_size m + 1\<rparr>)))"

definition hm_insert ::
    "('k \<Rightarrow> nat) \<Rightarrow> node \<Rightarrow> 'k \<times> 'v \<Rightarrow> ('k, 'v) hash_map \<Rightarrow> (node \<times> bool) \<times> ('k, 'v) hash_map" where
  "hm_insert hash fresh v m =
     (let m = (if hm_size m + 1 \<ge> num_buckets m then hm_rehash hash (hash_size (hm_size m + 1)) m else m) in
      hm_put fresh v (hash (fst v) mod num_buckets m) m)"

text \<open>Erasing a node: \<open>dflt\<close> is \<^verbatim>\<open>value_type()\<close>, which overwrites its entry.\<close>

definition hm_erase_node :: "('k \<Rightarrow> nat) \<Rightarrow> 'k \<times> 'v \<Rightarrow> node \<Rightarrow> ('k, 'v) hash_map \<Rightarrow> ('k, 'v) hash_map" where
  "hm_erase_node hash dflt it m =
     (let b = hash (fst (hm_content m it)) mod num_buckets m;
          (first, last') = hm_buckets m ! b;
          range = (if first = Some it \<and> last' = Some it then (None, None)
            else if first = Some it then (it_succ (hm_values m) it, last')
            else if last' = Some it then (first, it_pred (hm_values m) it)
            else (first, last')) in
      m\<lparr>hm_buckets := (hm_buckets m)[b := range], hm_values := remove1 it (hm_values m),
        hm_spares := it # hm_spares m, hm_content := (hm_content m)(it := dflt), hm_size := hm_size m - 1\<rparr>)"

definition hm_erase :: "('k \<Rightarrow> nat) \<Rightarrow> 'k \<times> 'v \<Rightarrow> 'k \<Rightarrow> ('k, 'v) hash_map \<Rightarrow> ('k, 'v) hash_map" where
  "hm_erase hash dflt k m = (case hm_find hash k m of Some it \<Rightarrow> hm_erase_node hash dflt it m | None \<Rightarrow> m)"

definition hm_clear :: "('k, 'v) hash_map \<Rightarrow> ('k, 'v) hash_map" where
  "hm_clear m = m\<lparr>hm_values := [], hm_size := 0, hm_buckets := replicate (num_buckets m) (None, None)\<rparr>"

subsection \<open>Iterators in a list of distinct nodes\<close>

definition front :: "node list \<Rightarrow> node option" where
  "front ns = (case ns of [] \<Rightarrow> None | n # _ \<Rightarrow> Some n)"

lemma front_simps [simp]: "front [] = None" "front (n # ns) = Some n" "front ns = None \<longleftrightarrow> ns = []"
  by (simp_all add: front_def split: list.split)

lemma front_hd: "ns \<noteq> [] \<Longrightarrow> front ns = Some (hd ns)"
  by (cases ns) auto

lemma it_succ_at: "distinct (ps @ l # ss) \<Longrightarrow> it_succ (ps @ l # ss) l = front ss"
  by (induction ps) (auto split: list.split)

lemma it_succ_last:
  assumes "distinct (ps @ bl @ ss)" "bl \<noteq> []"
  shows "it_succ (ps @ bl @ ss) (last bl) = front ss"
proof -
  obtain bs l where bl: "bl = bs @ [l]" using assms(2) by (metis append_butlast_last_id)
  have "it_succ ((ps @ bs) @ l # ss) l = front ss" by (rule it_succ_at) (use assms(1) bl in simp)
  then show ?thesis by (simp add: bl)
qed

lemma it_pred_at: "distinct (ps @ a # l # ss) \<Longrightarrow> it_pred (ps @ a # l # ss) l = Some a"
proof (induction ps)
  case (Cons p ps)
  then show ?case by (cases ps) auto
qed simp

lemma insert_before_front:
  assumes "distinct (ps @ ss)"
  shows "insert_before (front ss) x (ps @ ss) = ps @ x # ss"
proof (cases ss)
  case Nil
  then show ?thesis by (simp add: insert_before_def)
next
  case (Cons y ys)
  have "takeWhile (\<lambda>n. Some n \<noteq> Some y) (ps @ y # ys) = ps" using assms Cons by (subst takeWhile_append2) auto
  moreover have "dropWhile (\<lambda>n. Some n \<noteq> Some y) (ps @ y # ys) = y # ys" using assms Cons by (subst dropWhile_append2) auto
  ultimately show ?thesis using Cons by (simp add: insert_before_def)
qed

lemma drop_to_block:
  assumes "distinct (ps @ bl @ ss)" "bl \<noteq> []"
  shows "dropWhile (\<lambda>n. n \<noteq> hd bl) (ps @ bl @ ss) = bl @ ss"
proof -
  have "hd bl \<in> set bl" using assms(2) by simp
  then have "\<And>x. x \<in> set ps \<Longrightarrow> x \<noteq> hd bl" using assms(1) by auto
  then have "dropWhile (\<lambda>n. n \<noteq> hd bl) (ps @ bl @ ss) = dropWhile (\<lambda>n. n \<noteq> hd bl) (bl @ ss)" by (rule dropWhile_append2)
  then show ?thesis using assms(2) by (cases bl) simp_all
qed

lemma hm_scan_block:
  assumes "distinct (bl @ ss)"
  shows "hm_scan m k (front ss) (bl @ ss) = find (\<lambda>n. fst (hm_content m n) = k) bl"
  using assms
proof (induction bl)
  case Nil
  then show ?case by (cases ss) auto
next
  case (Cons n bl)
  then have "Some n \<noteq> front ss" by (cases ss) auto
  then show ?case using Cons by simp
qed

subsection \<open>Blocks\<close>

definition node_hash :: "('k \<Rightarrow> nat) \<Rightarrow> ('k, 'v) hash_map \<Rightarrow> node \<Rightarrow> nat" where
  "node_hash hash m n = hash (fst (hm_content m n)) mod num_buckets m"

text \<open>The list is the blocks of the buckets in use, in some order, and what is not yet hashed.\<close>

definition blocks_ok ::
    "('k \<Rightarrow> nat) \<Rightarrow> ('k, 'v) hash_map \<Rightarrow> nat list \<Rightarrow> (nat \<Rightarrow> node list) \<Rightarrow> node list \<Rightarrow> bool" where
  "blocks_ok hash m order block todo \<longleftrightarrow>
     distinct order \<and> hm_values m = concat (map block order) @ todo \<and> distinct (hm_values m) \<and>
     (\<forall>b \<in> set order. b < num_buckets m \<and> block b \<noteq> [] \<and> (\<forall>n \<in> set (block b). node_hash hash m n = b)) \<and>
     (\<forall>b < num_buckets m. hm_buckets m ! b =
        (if b \<in> set order then (Some (hd (block b)), Some (last (block b))) else (None, None)))"

lemma blocks_split:
  assumes "blocks_ok hash m order block todo" "b \<in> set order"
  obtains ps ss where "hm_values m = ps @ block b @ ss @ todo" "block b \<noteq> []" "distinct (ps @ block b @ ss @ todo)"
    "\<And>bl. concat (map (block(b := bl)) order) = ps @ bl @ ss"
    "hm_buckets m ! b = (Some (hd (block b)), Some (last (block b)))"
    "bucket_end m b = front (ss @ todo)"
proof -
  obtain as bs where o: "order = as @ b # bs" using split_list [OF assms(2)] by blast
  have d: "distinct order" and v: "hm_values m = concat (map block order) @ todo" "distinct (hm_values m)"
    and b: "block b \<noteq> []" "b < num_buckets m"
    using assms unfolding blocks_ok_def by blast+
  let ?p = "concat (map block as)" and ?s = "concat (map block bs)"
  have vals: "hm_values m = ?p @ block b @ ?s @ todo" using v(1) o by simp
  have upd: "concat (map (block(b := bl)) order) = ?p @ bl @ ?s" for bl
  proof -
    have m: "map (block(b := bl)) as = map block as" "map (block(b := bl)) bs = map block bs" using d o by auto
    show ?thesis unfolding o map_append list.map concat_append concat.simps m by simp
  qed
  have bk: "hm_buckets m ! b = (Some (hd (block b)), Some (last (block b)))"
    using assms b(2) by (simp add: blocks_ok_def)
  have dv: "distinct (?p @ block b @ ?s @ todo)" using v(2) vals by simp
  have "bucket_end m b = front (?s @ todo)"
    using it_succ_last [OF dv b(1)] by (simp add: bucket_end_def bk vals)
  then show ?thesis using that vals b(1) dv upd bk by blast
qed

lemma rehash_node_ok:
  assumes ok: "blocks_ok hash m order block (iter # todo)" and n: "num_buckets m > 0"
  shows "\<exists>order' block'. blocks_ok hash (rehash_node hash iter m) order' block' todo \<and>
    hm_content (rehash_node hash iter m) = hm_content m \<and> num_buckets (rehash_node hash iter m) = num_buckets m \<and>
    hm_spares (rehash_node hash iter m) = hm_spares m \<and> hm_size (rehash_node hash iter m) = hm_size m \<and>
    mset (hm_values (rehash_node hash iter m)) = mset (hm_values m)"
proof -
  define b where "b = node_hash hash m iter"
  have bn: "b < num_buckets m" using n by (simp add: b_def node_hash_def)
  have bl: "b < length (hm_buckets m)" using bn by (simp add: num_buckets_def)
  have beq: "hash (fst (hm_content m iter)) mod num_buckets m = b" by (simp add: b_def node_hash_def)
  show ?thesis
  proof (cases "b \<in> set order")
    case False
    then have bk: "hm_buckets m ! b = (None, None)" using ok bn by (simp add: blocks_ok_def)
    let ?m = "m\<lparr>hm_buckets := (hm_buckets m)[b := (Some iter, Some iter)]\<rparr>"
    have r: "rehash_node hash iter m = ?m" by (simp add: rehash_node_def beq bk)
    have nb: "num_buckets ?m = num_buckets m" "node_hash hash ?m = node_hash hash m"
      by (simp_all add: num_buckets_def node_hash_def fun_eq_iff)
    have m: "map (block(b := [iter])) order = map block order" using False by auto
    have v: "hm_values m = concat (map block order) @ iter # todo" "distinct (hm_values m)"
      using ok unfolding blocks_ok_def by blast+
    have vals: "hm_values ?m = concat (map (block(b := [iter])) (order @ [b])) @ todo" "distinct (hm_values ?m)"
      unfolding map_append list.map concat_append concat.simps m using v by simp_all
    have "blocks_ok hash ?m (order @ [b]) (block(b := [iter])) todo"
      unfolding blocks_ok_def nb
    proof (intro conjI ballI allI impI)
      fix c assume "c \<in> set (order @ [b])"
      then show "c < num_buckets m" "(block(b := [iter])) c \<noteq> []" using ok bn by (auto simp: blocks_ok_def)
      fix x assume "x \<in> set ((block(b := [iter])) c)"
      then show "node_hash hash m x = c"
        using ok \<open>c \<in> set (order @ [b])\<close> False by (auto simp: blocks_ok_def b_def split: if_splits)
    next
      fix c assume "c < num_buckets m"
      then show "hm_buckets ?m ! c = (if c \<in> set (order @ [b])
          then (Some (hd ((block(b := [iter])) c)), Some (last ((block(b := [iter])) c))) else (None, None))"
        using ok bl by (auto simp: blocks_ok_def nth_list_update)
    next
      show "distinct (order @ [b])" using ok False by (simp add: blocks_ok_def)
    qed (rule vals)+
    then show ?thesis unfolding r using nb by auto
  next
    case True
    obtain ps ss where s: "hm_values m = ps @ block b @ ss @ iter # todo" "block b \<noteq> []"
        "distinct (ps @ block b @ ss @ iter # todo)"
        "\<And>bl. concat (map (block(b := bl)) order) = ps @ bl @ ss"
        "hm_buckets m ! b = (Some (hd (block b)), Some (last (block b)))"
      using blocks_split [OF ok True] by metis
    have succ: "it_succ (hm_values m) (last (block b)) = front (ss @ iter # todo)"
      using it_succ_last [OF s(3,2)] s(1) by simp
    let ?block = "block(b := block b @ [iter])"
    let ?m = "m\<lparr>hm_values := ps @ block b @ iter # ss @ todo, hm_buckets := (hm_buckets m)[b := (Some (hd (block b)), Some iter)]\<rparr>"
    have r: "rehash_node hash iter m = ?m"
    proof (cases ss)
      case Nil
      then show ?thesis using succ s(1,5) by (simp add: rehash_node_def beq)
    next
      case (Cons x xs)
      have "x \<noteq> iter" using s(3) Cons by auto
      have rem: "remove1 iter (hm_values m) = (ps @ block b) @ (ss @ todo)" using s(1,3) by (simp add: remove1_append)
      have "distinct ((ps @ block b) @ (ss @ todo))" using s(3) by auto
      from insert_before_front [OF this, of iter] have ins: "insert_before (Some x) iter (remove1 iter (hm_values m)) =
          ps @ block b @ iter # ss @ todo" unfolding rem using Cons by simp
      have "it_pred (ps @ block b @ iter # ss @ todo) x = Some iter"
        using it_pred_at [of "ps @ block b" iter x "xs @ todo"] s(3) Cons by auto
      then show ?thesis using succ s(5) Cons \<open>x \<noteq> iter\<close> ins by (simp add: rehash_node_def beq Let_def)
    qed
    have nb: "num_buckets ?m = num_buckets m" "node_hash hash ?m = node_hash hash m"
      by (simp_all add: num_buckets_def node_hash_def fun_eq_iff)
    have vals: "hm_values ?m = concat (map ?block order) @ todo" using s(4) by simp
    have dis: "distinct (hm_values ?m)" using s(3) by auto
    have old: "\<forall>c \<in> set order. c < num_buckets m \<and> block c \<noteq> [] \<and> (\<forall>n \<in> set (block c). node_hash hash m n = c)"
      using ok unfolding blocks_ok_def by blast
    have bo: "blocks_ok hash ?m order ?block todo"
      unfolding blocks_ok_def nb
    proof (intro conjI ballI allI impI)
      fix c assume "c \<in> set order"
      then show "c < num_buckets m" "?block c \<noteq> []" using old by auto
      fix x assume "x \<in> set (?block c)"
      then show "node_hash hash m x = c"
        using old \<open>c \<in> set order\<close> b_def by (auto split: if_splits)
    next
      fix c assume "c < num_buckets m"
      then show "hm_buckets ?m ! c = (if c \<in> set order then (Some (hd (?block c)), Some (last (?block c))) else (None, None))"
        using ok True s(2) bl by (auto simp: blocks_ok_def nth_list_update)
    qed (use ok vals dis in \<open>auto simp: blocks_ok_def\<close>)
    have ms: "mset (hm_values ?m) = mset (hm_values m)" using s(1) by simp
    show ?thesis unfolding r
    proof (intro exI conjI)
      show "blocks_ok hash ?m order ?block todo" by (rule bo)
      show "num_buckets ?m = num_buckets m" by (rule nb(1))
      show "mset (hm_values ?m) = mset (hm_values m)" by (rule ms)
    qed simp_all
  qed
qed

lemma rehash_loop_ok:
  "\<lbrakk>blocks_ok hash m order block todo; num_buckets m > 0\<rbrakk> \<Longrightarrow>
   \<exists>order' block'. blocks_ok hash (fold (rehash_node hash) todo m) order' block' [] \<and>
    hm_content (fold (rehash_node hash) todo m) = hm_content m \<and> num_buckets (fold (rehash_node hash) todo m) = num_buckets m \<and>
    hm_spares (fold (rehash_node hash) todo m) = hm_spares m \<and> hm_size (fold (rehash_node hash) todo m) = hm_size m \<and>
    mset (hm_values (fold (rehash_node hash) todo m)) = mset (hm_values m)"
proof (induction todo arbitrary: m order block)
  case (Cons iter todo)
  obtain order' block' where s: "blocks_ok hash (rehash_node hash iter m) order' block' todo"
      "hm_content (rehash_node hash iter m) = hm_content m" "num_buckets (rehash_node hash iter m) = num_buckets m"
      "hm_spares (rehash_node hash iter m) = hm_spares m" "hm_size (rehash_node hash iter m) = hm_size m"
      "mset (hm_values (rehash_node hash iter m)) = mset (hm_values m)"
    using rehash_node_ok [OF Cons.prems] by blast
  show ?case using Cons.IH [OF s(1)] Cons.prems(2) s(2-6) by simp
qed auto

subsection \<open>The map of a hash map\<close>

definition key :: "('k, 'v) hash_map \<Rightarrow> node \<Rightarrow> 'k" where
  "key m n = fst (hm_content m n)"

definition hm_map :: "('k, 'v) hash_map \<Rightarrow> 'k \<rightharpoonup> 'v" where
  "hm_map m = map_of (map (hm_content m) (hm_values m))"

definition hm_ok :: "('k \<Rightarrow> nat) \<Rightarrow> ('k, 'v) hash_map \<Rightarrow> bool" where
  "hm_ok hash m \<longleftrightarrow> (\<exists>order block. blocks_ok hash m order block []) \<and> distinct (hm_values m @ hm_spares m) \<and>
     distinct (map (key m) (hm_values m)) \<and> hm_size m = length (hm_values m)"

lemma key_comp: "key m = fst \<circ> hm_content m"
  by (simp add: key_def fun_eq_iff)

lemma hm_map_at:
  assumes "distinct (map (key m) (hm_values m))" "n \<in> set (hm_values m)"
  shows "hm_map m (key m n) = Some (snd (hm_content m n))"
proof -
  have "distinct (map fst (map (hm_content m) (hm_values m)))" using assms(1) by (simp add: key_comp)
  moreover have "(key m n, snd (hm_content m n)) \<in> set (map (hm_content m) (hm_values m))"
    using assms(2) by (auto simp: key_def intro: rev_image_eqI)
  ultimately show ?thesis by (simp add: hm_map_def)
qed

lemma hm_map_None: "hm_map m k = None \<longleftrightarrow> k \<notin> key m ` set (hm_values m)"
  by (auto simp: hm_map_def map_of_eq_None_iff key_def image_image)

lemma find_some: "find P xs = Some n \<Longrightarrow> n \<in> set xs \<and> P n"
  by (auto simp: find_Some_iff)

lemma find_none: "find P xs = None \<longleftrightarrow> (\<forall>n \<in> set xs. \<not> P n)"
  by (auto simp: find_None_iff)

text \<open>The walk through the bucket of a key meets every node that has it.\<close>

lemma bucket_walk:
  assumes ok: "blocks_ok hash m order block []" and b: "b = hash k mod num_buckets m" "b \<in> set order"
  shows "hm_scan m k (bucket_end m b) (dropWhile (\<lambda>n. n \<noteq> hd (block b)) (hm_values m)) = find (\<lambda>n. key m n = k) (block b)"
    and "(\<exists>n \<in> set (block b). key m n = k) \<longleftrightarrow> (\<exists>n \<in> set (hm_values m). key m n = k)"
proof -
  obtain ps ss where s: "hm_values m = ps @ block b @ ss" "block b \<noteq> []" "distinct (ps @ block b @ ss)"
      "bucket_end m b = front ss"
    using blocks_split [OF ok b(2)] by (metis append_Nil2)
  show "hm_scan m k (bucket_end m b) (dropWhile (\<lambda>n. n \<noteq> hd (block b)) (hm_values m)) = find (\<lambda>n. key m n = k) (block b)"
    unfolding s(1,4) drop_to_block [OF s(3,2)] key_def by (rule hm_scan_block) (use s(3) in simp)
  have "n \<in> set (block b)" if "n \<in> set (hm_values m)" "key m n = k" for n
  proof -
    have "n \<in> set (concat (map block order))" using that(1) ok by (simp add: blocks_ok_def)
    then obtain c where c: "c \<in> set order" "n \<in> set (block c)" by auto
    then have "node_hash hash m n = c" using ok unfolding blocks_ok_def by blast
    then have "c = b" using that(2) b(1) by (simp add: node_hash_def key_def)
    then show ?thesis using c(2) by simp
  qed
  then show "(\<exists>n \<in> set (block b). key m n = k) \<longleftrightarrow> (\<exists>n \<in> set (hm_values m). key m n = k)" using s(1) by auto
qed

lemma empty_bucket:
  assumes ok: "blocks_ok hash m order block []" and b: "hash k mod num_buckets m \<notin> set order"
  shows "\<not> (\<exists>n \<in> set (hm_values m). key m n = k)"
proof
  assume "\<exists>n \<in> set (hm_values m). key m n = k"
  then obtain n c where c: "key m n = k" "c \<in> set order" "n \<in> set (block c)" using ok by (auto simp: blocks_ok_def)
  then have "node_hash hash m n = c" using ok unfolding blocks_ok_def by blast
  then show False using c b by (simp add: node_hash_def key_def)
qed

lemma hm_find_spec:
  assumes "hm_ok hash m"
  shows "(case hm_find hash k m of
      Some n \<Rightarrow> n \<in> set (hm_values m) \<and> key m n = k
    | None \<Rightarrow> \<not> (\<exists>n \<in> set (hm_values m). key m n = k))"
proof -
  obtain order block where ok: "blocks_ok hash m order block []" using assms by (auto simp: hm_ok_def)
  show ?thesis
  proof (cases "num_buckets m = 0")
    case True
    then have "order = []" using ok by (cases order) (auto simp: blocks_ok_def)
    then have "hm_values m = []" using ok by (simp add: blocks_ok_def)
    then show ?thesis using True by (simp add: hm_find_def)
  next
    case False
    define b where "b = hash k mod num_buckets m"
    have bn: "b < num_buckets m" using False by (simp add: b_def)
    show ?thesis
    proof (cases "b \<in> set order")
      case True
      then have "hm_buckets m ! b = (Some (hd (block b)), Some (last (block b)))" using ok bn by (simp add: blocks_ok_def)
      then have f: "hm_find hash k m = find (\<lambda>n. key m n = k) (block b)"
        using False bucket_walk(1) [OF ok b_def True] by (simp add: hm_find_def b_def [symmetric])
      have "set (block b) \<subseteq> set (hm_values m)" using True ok by (auto simp: blocks_ok_def)
      then show ?thesis unfolding f
        using bucket_walk(2) [OF ok b_def True] by (auto split: option.split dest: find_some simp: find_none)
    next
      case nb: False
      then have "hm_buckets m ! b = (None, None)" using ok bn by (simp add: blocks_ok_def)
      then have "hm_find hash k m = None" using False by (simp add: hm_find_def b_def [symmetric])
      moreover have "\<not> (\<exists>n \<in> set (hm_values m). key m n = k)" by (rule empty_bucket [OF ok]) (use nb b_def in simp)
      ultimately show ?thesis by simp
    qed
  qed
qed

subsection \<open>Rehashing, inserting and erasing\<close>

lemma map_of_mset:
  assumes "mset xs = mset ys" "distinct (map fst xs)"
  shows "map_of xs = map_of ys"
proof -
  have "set xs = set ys" using assms(1) by (metis set_mset_mset)
  moreover have "distinct (map fst ys)" using assms by (metis mset_map mset_eq_imp_distinct_iff)
  ultimately show ?thesis using assms(2) by (simp add: map_of_inject_set)
qed

lemma hm_rehash_ok:
  assumes "hm_ok hash m" "n > 0"
  shows "hm_ok hash (hm_rehash hash n m) \<and> hm_map (hm_rehash hash n m) = hm_map m \<and>
    num_buckets (hm_rehash hash n m) = n \<and> set (hm_values (hm_rehash hash n m)) = set (hm_values m) \<and>
    hm_spares (hm_rehash hash n m) = hm_spares m \<and> hm_size (hm_rehash hash n m) = hm_size m"
proof (cases "n = num_buckets m")
  case False
  let ?m0 = "m\<lparr>hm_buckets := replicate n (None, None)\<rparr>"
  have nb: "num_buckets ?m0 = n" by (simp add: num_buckets_def)
  have d: "distinct (hm_values m)" "distinct (map (key m) (hm_values m))" "distinct (hm_values m @ hm_spares m)"
    using assms(1) by (simp_all add: hm_ok_def)
  have b0: "blocks_ok hash ?m0 [] (\<lambda>_. []) (hm_values m)"
    unfolding blocks_ok_def using d(1) by (simp add: nb)
  have "num_buckets ?m0 > 0" using nb assms(2) by simp
  from rehash_loop_ok [OF b0 this] obtain order block where r: "blocks_ok hash (hm_rehash hash n m) order block []"
      "hm_content (hm_rehash hash n m) = hm_content m" "num_buckets (hm_rehash hash n m) = n"
      "hm_spares (hm_rehash hash n m) = hm_spares m" "hm_size (hm_rehash hash n m) = hm_size m"
      "mset (hm_values (hm_rehash hash n m)) = mset (hm_values m)"
    using False nb by (auto simp: hm_rehash_def)
  have st: "set (hm_values (hm_rehash hash n m)) = set (hm_values m)" using r(6) by (metis set_mset_mset)
  have k: "key (hm_rehash hash n m) = key m" using r(2) by (simp add: key_def fun_eq_iff)
  have "mset (map (hm_content m) (hm_values (hm_rehash hash n m))) = mset (map (hm_content m) (hm_values m))" using r(6) by simp
  then have "hm_map (hm_rehash hash n m) = hm_map m"
    unfolding hm_map_def r(2) by (rule map_of_mset [symmetric, OF sym]) (use d(2) in \<open>simp add: key_comp\<close>)
  moreover have "distinct (map (key m) (hm_values (hm_rehash hash n m)))"
    using d(2) r(6) by (metis mset_map mset_eq_imp_distinct_iff)
  moreover have "distinct (hm_values (hm_rehash hash n m) @ hm_spares m)"
    using d(3) r(6) by (metis mset_append mset_eq_imp_distinct_iff)
  moreover have "hm_size m = length (hm_values (hm_rehash hash n m))"
    using assms(1) r(6) by (metis hm_ok_def size_mset)
  ultimately show ?thesis using r st k by (auto simp: hm_ok_def)
qed (use assms in \<open>simp add: hm_rehash_def\<close>)

lemma hash_size_pos: "hash_size n > 0"
  by (auto simp: hash_size_def hash_sizes_def split: option.split dest!: find_some)

text \<open>The effect of an insertion, whichever bucket takes it and wherever the node comes from.\<close>

lemma inserted_ok:
  assumes ok: "hm_ok hash m" and n: "n \<notin> set (hm_values m)" and k: "\<not> (\<exists>x \<in> set (hm_values m). key m x = fst v)"
    and vals: "hm_values m' = ps @ n # ss" "hm_values m = ps @ ss"
    and c: "hm_content m' = (hm_content m)(n := v)"
    and sp: "distinct (hm_values m' @ hm_spares m')" "hm_size m' = hm_size m + 1"
    and b: "\<exists>order block. blocks_ok hash m' order block []"
  shows "hm_ok hash m' \<and> hm_map m' = (hm_map m)(fst v \<mapsto> snd v)"
proof -
  have kn: "key m' n = fst v" "\<And>x. x \<in> set (hm_values m) \<Longrightarrow> key m' x = key m x"
    using n by (auto simp: key_def c)
  have old: "map (key m') ps = map (key m) ps" "map (key m') ss = map (key m) ss" using kn(2) vals(2) by simp_all
  have dk: "distinct (map (key m) ps @ map (key m) ss)" using ok vals(2) by (simp add: hm_ok_def)
  have "fst v \<notin> set (map (key m) ps @ map (key m) ss)" using k vals(2) by auto
  then have "distinct (map (key m) ps @ fst v # map (key m) ss)" using dk by auto
  then have d: "distinct (map (key m') (hm_values m'))"
    by (simp only: vals(1) map_append list.map old kn(1))
  have "map_of (map (hm_content m') (ps @ n # ss)) = (map_of (map (hm_content m) (ps @ ss)))(fst v \<mapsto> snd v)"
  proof -
    have "n \<notin> set ps" "n \<notin> set ss" using n vals(2) by auto
    then have m: "map (hm_content m') ps = map (hm_content m) ps" "map (hm_content m') ss = map (hm_content m) ss"
      by (auto simp: c)
    have out: "fst v \<notin> fst ` set (map (hm_content m) ps)" using k vals(2) by (auto simp: key_def)
    then have "map_of (map (hm_content m) ps) (fst v) = None" by (simp add: map_of_eq_None_iff)
    then show ?thesis unfolding map_append list.map m
      by (cases v) (auto simp: c fun_eq_iff map_add_def split: option.split)
  qed
  then have "hm_map m' = (hm_map m)(fst v \<mapsto> snd v)" by (simp add: hm_map_def vals)
  moreover have "hm_size m' = length (hm_values m')" using ok sp(2) vals by (simp add: hm_ok_def)
  ultimately show ?thesis using b d sp(1) by (simp add: hm_ok_def)
qed

lemma values_insert_eq:
  assumes "hm_ok hash m" "fresh \<notin> set (hm_values m) \<union> set (hm_spares m)" "values_insert fresh it v m = (n, m1)"
  shows "n \<notin> set (hm_values m)" "hm_values m1 = insert_before it n (hm_values m)"
    "hm_content m1 = (hm_content m)(n := v)" "hm_size m1 = hm_size m" "hm_buckets m1 = hm_buckets m"
    "distinct (n # hm_values m @ hm_spares m1)"
  using assms by (cases "hm_spares m"; auto simp: values_insert_def hm_ok_def Let_def)+

lemma hm_put_ok:
  assumes ok: "hm_ok hash m" and fresh: "fresh \<notin> set (hm_values m) \<union> set (hm_spares m)" and nb: "num_buckets m > 0"
    and b: "b = hash (fst v) mod num_buckets m"
    and put: "hm_put fresh v b m = ((n, new), m')"
  shows "hm_ok hash m' \<and> new = (hm_map m (fst v) = None) \<and> n \<in> set (hm_values m') \<and> key m' n = fst v \<and>
    hm_map m' = (if new then (hm_map m)(fst v \<mapsto> snd v) else hm_map m)"
proof -
  note ins = put [unfolded hm_put_def]
  obtain order block where bo: "blocks_ok hash m order block []" using ok by (auto simp: hm_ok_def)
  have bn: "b < num_buckets m" "b < length (hm_buckets m)" using nb b by (simp_all add: num_buckets_def)
  have old: "\<forall>c \<in> set order. c < num_buckets m \<and> block c \<noteq> [] \<and> (\<forall>x \<in> set (block c). node_hash hash m x = c)"
    and dv1: "distinct order" "distinct (hm_values m)"
    using bo unfolding blocks_ok_def by blast+
  have bk: "\<forall>c < num_buckets m. hm_buckets m ! c =
        (if c \<in> set order then (Some (hd (block c)), Some (last (block c))) else (None, None))"
    using bo unfolding blocks_ok_def by blast
  have "hm_values m = concat (map block order) @ []" using bo unfolding blocks_ok_def by blast
  then have dv: "distinct order" "hm_values m = concat (map block order)" "distinct (hm_values m)" using dv1 by simp_all
  show ?thesis
  proof (cases "b \<in> set order")
    case False
    have none: "\<not> (\<exists>x \<in> set (hm_values m). key m x = fst v)" by (rule empty_bucket [OF bo]) (use False b in simp)
    obtain n1 m1 where vi: "values_insert fresh None v m = (n1, m1)" by (metis prod.exhaust)
    note V = values_insert_eq [OF ok fresh vi]
    have ib: "insert_before None n1 (hm_values m) = hm_values m @ [n1]"
      using insert_before_front [of "hm_values m" "[]" n1] dv(3) by simp
    have r: "n = n1" "new" "m' = m1\<lparr>hm_buckets := (hm_buckets m1)[b := (Some n1, Some n1)], hm_size := hm_size m1 + 1\<rparr>"
      using ins vi bk bn False by (auto simp: Let_def)
    have f: "hm_values m' = hm_values m @ [n1]" "hm_content m' = (hm_content m)(n1 := v)" "hm_spares m' = hm_spares m1"
      "hm_size m' = hm_size m + 1" "hm_buckets m' = (hm_buckets m)[b := (Some n1, Some n1)]"
      by (simp_all add: r(3) V(2-5) ib)
    have nh: "num_buckets m' = num_buckets m" "node_hash hash m' n1 = b"
      "\<And>x. x \<in> set (hm_values m) \<Longrightarrow> node_hash hash m' x = node_hash hash m x"
      using V(1) by (auto simp: num_buckets_def f node_hash_def b)
    have mo: "map (block(b := [n1])) order = map block order" using False by auto
    have "blocks_ok hash m' (order @ [b]) (block(b := [n1])) []"
      unfolding blocks_ok_def nh(1)
    proof (intro conjI ballI allI impI)
      show "distinct (order @ [b])" using dv(1) False by simp
      show "hm_values m' = concat (map (block(b := [n1])) (order @ [b])) @ []"
        unfolding map_append list.map concat_append concat.simps mo f(1) dv(2) by simp
      show "distinct (hm_values m')" using V(6) f(1) by auto
      fix c assume c: "c \<in> set (order @ [b])"
      then show "c < num_buckets m" "(block(b := [n1])) c \<noteq> []" using old bn by auto
      fix x assume x: "x \<in> set ((block(b := [n1])) c)"
      show "node_hash hash m' x = c"
      proof (cases "c = b")
        case True
        then show ?thesis using x nh(2) by simp
      next
        case False
        then have "x \<in> set (block c)" "c \<in> set order" using x c by auto
        then show ?thesis using nh(3) [of x] old dv(2) by auto
      qed
    next
      fix c assume "c < num_buckets m"
      then show "hm_buckets m' ! c = (if c \<in> set (order @ [b])
          then (Some (hd ((block(b := [n1])) c)), Some (last ((block(b := [n1])) c))) else (None, None))"
        using bk bn by (auto simp: f(5) nth_list_update)
    qed
    then have "\<exists>order block. blocks_ok hash m' order block []" by blast
    moreover have "distinct (hm_values m' @ hm_spares m')" using V(6) f(1,3) by auto
    ultimately have "hm_ok hash m' \<and> hm_map m' = (hm_map m)(fst v \<mapsto> snd v)"
      by (intro inserted_ok [OF ok _ none, of n1 m' "hm_values m" "[]"]) (use V(1) f in simp_all)
    moreover have "hm_map m (fst v) = None" using none by (auto simp: hm_map_None)
    moreover have "key m' n1 = fst v" by (simp add: key_def f(2))
    ultimately show ?thesis using r f(1) by simp
  next
    case True
    have bb: "hm_buckets m ! b = (Some (hd (block b)), Some (last (block b)))" using bk bn True by simp
    note walk = bucket_walk [OF bo b True]
    obtain ps ss where s: "hm_values m = ps @ block b @ ss" "block b \<noteq> []" "distinct (ps @ block b @ ss)"
        "\<And>bl. concat (map (block(b := bl)) order) = ps @ bl @ ss" "bucket_end m b = front ss"
      using blocks_split [OF bo True] by (metis append_Nil2)
    show ?thesis
    proof (cases "find (\<lambda>x. key m x = fst v) (block b)")
      case (Some x)
      then have x: "x \<in> set (block b)" "key m x = fst v" by (auto dest: find_some)
      have r: "n = x" "\<not> new" "m' = m" using ins bb walk(1) Some by auto
      have "fst v \<in> key m ` set (hm_values m)" using x s(1) by (auto intro: rev_image_eqI)
      then have "hm_map m (fst v) \<noteq> None" by (simp add: hm_map_None)
      then show ?thesis using r ok x s(1) by simp
    next
      case None
      then have none: "\<not> (\<exists>x \<in> set (hm_values m). key m x = fst v)" using walk(2) by (simp add: find_none)
      obtain n1 m1 where vi: "values_insert fresh (front ss) v m = (n1, m1)" by (metis prod.exhaust)
      note V = values_insert_eq [OF ok fresh vi]
      have ib: "insert_before (front ss) n1 (hm_values m) = (ps @ block b) @ n1 # ss"
        using insert_before_front [of "ps @ block b" ss n1] s(1,3) by simp
      have r: "n = n1" "new" "m' = m1\<lparr>hm_buckets := (hm_buckets m1)[b := (Some (hd (block b)), Some n1)], hm_size := hm_size m1 + 1\<rparr>"
        using ins bb walk(1) None s(5) vi by (auto simp: Let_def)
      have f: "hm_values m' = (ps @ block b) @ n1 # ss" "hm_content m' = (hm_content m)(n1 := v)" "hm_spares m' = hm_spares m1"
        "hm_size m' = hm_size m + 1" "hm_buckets m' = (hm_buckets m)[b := (Some (hd (block b)), Some n1)]"
        by (simp_all add: r(3) V(2-5) ib)
      have nh: "num_buckets m' = num_buckets m" "node_hash hash m' n1 = b"
        "\<And>x. x \<in> set (hm_values m) \<Longrightarrow> node_hash hash m' x = node_hash hash m x"
        using V(1) by (auto simp: num_buckets_def f node_hash_def b)
      let ?block = "block(b := block b @ [n1])"
      have "blocks_ok hash m' order ?block []"
        unfolding blocks_ok_def nh(1)
      proof (intro conjI ballI allI impI)
        show "distinct order" by (rule dv(1))
        show "hm_values m' = concat (map ?block order) @ []" unfolding s(4) f(1) by simp
        show "distinct (hm_values m')" using V(6) s(1) f(1) by auto
        fix c assume c: "c \<in> set order"
        then show "c < num_buckets m" "?block c \<noteq> []" using old by auto
        fix x assume x: "x \<in> set (?block c)"
        show "node_hash hash m' x = c"
        proof (cases "x = n1 \<and> c = b")
          case False
          then have "x \<in> set (block c)" using x by (auto split: if_splits)
          then show ?thesis using nh(3) [of x] old c dv(2) by auto
        qed (use nh(2) in simp)
      next
        fix c assume "c < num_buckets m"
        then show "hm_buckets m' ! c = (if c \<in> set order then (Some (hd (?block c)), Some (last (?block c))) else (None, None))"
          using bk bn True s(2) by (auto simp: f(5) nth_list_update)
      qed
      then have "\<exists>order block. blocks_ok hash m' order block []" by blast
      moreover have "distinct (hm_values m' @ hm_spares m')" using V(6) f(1,3) s(1) by auto
      ultimately have "hm_ok hash m' \<and> hm_map m' = (hm_map m)(fst v \<mapsto> snd v)"
        by (intro inserted_ok [OF ok _ none, of n1 m' "ps @ block b" ss]) (use V(1) f s(1) in simp_all)
      moreover have "hm_map m (fst v) = None" using none by (auto simp: hm_map_None)
      moreover have "key m' n1 = fst v" by (simp add: key_def f(2))
      ultimately show ?thesis using r f(1) by simp
    qed
  qed
qed

lemma hm_insert_ok:
  assumes ok: "hm_ok hash m" and fresh: "fresh \<notin> set (hm_values m) \<union> set (hm_spares m)"
    and ins: "hm_insert hash fresh v m = ((n, new), m')"
  shows "hm_ok hash m' \<and> new = (hm_map m (fst v) = None) \<and> n \<in> set (hm_values m') \<and> key m' n = fst v \<and>
    hm_map m' = (if new then (hm_map m)(fst v \<mapsto> snd v) else hm_map m)"
proof -
  define m0 where "m0 = (if hm_size m + 1 \<ge> num_buckets m then hm_rehash hash (hash_size (hm_size m + 1)) m else m)"
  note re = hm_rehash_ok [OF ok hash_size_pos [of "hm_size m + 1"]]
  have ok0: "hm_ok hash m0" and map0: "hm_map m0 = hm_map m" and nb: "num_buckets m0 > 0"
    and fresh0: "fresh \<notin> set (hm_values m0) \<union> set (hm_spares m0)"
    using ok re fresh hash_size_pos [of "hm_size m + 1"] by (auto simp: m0_def)
  have "hm_put fresh v (hash (fst v) mod num_buckets m0) m0 = ((n, new), m')"
    using ins unfolding hm_insert_def m0_def Let_def .
  then show ?thesis using hm_put_ok [OF ok0 fresh0 nb refl] map0 by simp
qed

lemma concat_remove1:
  "\<lbrakk>distinct order; b \<in> set order\<rbrakk> \<Longrightarrow> concat (map f (remove1 b order)) = concat (map (f(b := [])) order)"
proof (induction order)
  case (Cons c order)
  show ?case
  proof (cases "c = b")
    case True
    then have "map (f(b := [])) order = map f order" using Cons.prems by auto
    then have "concat (map (f(b := [])) order) = concat (map f order)" by (rule arg_cong)
    then have "concat (map (f(b := [])) (c # order)) = concat (map f order)" using True by (simp only: list.map concat.simps fun_upd_same append_Nil)
    then show ?thesis using True by (simp only: remove1.simps if_True simp_thms)
  qed (use Cons in auto)
qed simp

text \<open>The range of the bucket of an erased node.\<close>

lemma erased_range:
  assumes d: "distinct (ps @ (u @ it # w) @ ss)" and v: "vs = ps @ (u @ it # w) @ ss"
  shows "(let (first, last') = (Some (hd (u @ it # w)), Some (last (u @ it # w))) in
      if first = Some it \<and> last' = Some it then (None, None)
      else if first = Some it then (it_succ vs it, last')
      else if last' = Some it then (first, it_pred vs it)
      else (first, last')) = (if u @ w = [] then (None, None) else (Some (hd (u @ w)), Some (last (u @ w))))"
proof -
  have succ: "it_succ vs it = front (w @ ss)" using it_succ_at [of "ps @ u" it "w @ ss"] d v by simp
  consider (one) "u = []" "w = []" | (first) y w' where "u = []" "w = y # w'"
    | (last) u' y where "u = u' @ [y]" "w = []" | (inner) x u' w' y where "u = x # u'" "w = w' @ [y]"
    by (metis list.exhaust rev_exhaust)
  then show ?thesis
  proof cases
    case one
    then show ?thesis by simp
  next
    case first
    have "last (y # w') \<noteq> it" using d first by (metis Un_iff append_Nil distinct.simps(2) distinct_append last_in_set list.distinct(1) set_append)
    then show ?thesis using first succ by simp
  next
    case last
    have "it_pred vs it = Some y" using it_pred_at [of "ps @ u'" y it ss] d v last by simp
    moreover have "hd (u' @ [y]) \<noteq> it" using d last by (cases u') auto
    ultimately show ?thesis using last by (cases u') simp_all
  next
    case inner
    then have "x \<noteq> it" "y \<noteq> it" using d by auto
    then show ?thesis using inner by simp
  qed
qed

lemma hm_erase_node_ok:
  assumes ok: "hm_ok hash m" and it: "it \<in> set (hm_values m)"
  shows "hm_ok hash (hm_erase_node hash dflt it m) \<and> hm_map (hm_erase_node hash dflt it m) = (hm_map m)(key m it := None)"
proof -
  obtain order block where bo: "blocks_ok hash m order block []" using ok by (auto simp: hm_ok_def)
  have old: "\<forall>c \<in> set order. c < num_buckets m \<and> block c \<noteq> [] \<and> (\<forall>x \<in> set (block c). node_hash hash m x = c)"
    and dv1: "distinct order" "distinct (hm_values m)"
    using bo unfolding blocks_ok_def by blast+
  have bk: "\<forall>c < num_buckets m. hm_buckets m ! c =
        (if c \<in> set order then (Some (hd (block c)), Some (last (block c))) else (None, None))"
    using bo unfolding blocks_ok_def by blast
  have "hm_values m = concat (map block order) @ []" using bo unfolding blocks_ok_def by blast
  then obtain b where b: "b \<in> set order" "it \<in> set (block b)" using it by auto
  have bh: "node_hash hash m it = b" using old b by blast
  obtain ps ss where s: "hm_values m = ps @ block b @ ss" "distinct (ps @ block b @ ss)"
      "\<And>bl. concat (map (block(b := bl)) order) = ps @ bl @ ss"
    using blocks_split [OF bo b(1)] by (metis append_Nil2)
  obtain u w where uw: "block b = u @ it # w" using split_list [OF b(2)] by blast
  let ?r = "if u @ w = [] then (None, None) else (Some (hd (u @ w)), Some (last (u @ w)))"
  define m' where "m' = hm_erase_node hash dflt it m"
  have bb: "hm_buckets m ! b = (Some (hd (u @ it # w)), Some (last (u @ it # w)))" using bk old b(1) uw by auto
  have hb: "hash (fst (hm_content m it)) mod num_buckets m = b" using bh by (simp add: node_hash_def)
  have rem: "remove1 it (hm_values m) = ps @ (u @ w) @ ss" using s(1,2) uw by (simp add: remove1_append)
  have r: "m' = m\<lparr>hm_buckets := (hm_buckets m)[b := ?r], hm_values := ps @ (u @ w) @ ss,
      hm_spares := it # hm_spares m, hm_content := (hm_content m)(it := dflt), hm_size := hm_size m - 1\<rparr>"
    unfolding m'_def hm_erase_node_def Let_def hb bb rem prod.case
    by (simp only: erased_range [OF s(2) [unfolded uw] s(1) [unfolded uw], unfolded Let_def prod.case])
  have f: "hm_values m' = ps @ (u @ w) @ ss" "hm_spares m' = it # hm_spares m" "hm_content m' = (hm_content m)(it := dflt)"
    "hm_size m' = hm_size m - 1" "hm_buckets m' = (hm_buckets m)[b := ?r]"
    unfolding r by simp_all
  have nb: "num_buckets m' = num_buckets m" by (simp add: num_buckets_def f)
  have nh: "x \<noteq> it \<Longrightarrow> node_hash hash m' x = node_hash hash m x" for x by (simp add: node_hash_def nb f)
  let ?block = "block(b := u @ w)"
  let ?order = "if u @ w = [] then remove1 b order else order"
  have so: "set ?order \<subseteq> set order" "b \<in> set ?order \<longleftrightarrow> u @ w \<noteq> []" "c \<noteq> b \<Longrightarrow> c \<in> set ?order \<longleftrightarrow> c \<in> set order" for c
    using dv1(1) b(1) by (auto simp: set_remove1_eq)
  have vals: "hm_values m' = concat (map ?block ?order) @ []"
  proof (cases "u @ w = []")
    case True
    have m: "map ?block (remove1 b order) = map block (remove1 b order)" using dv1(1) by (auto simp: set_remove1_eq)
    have "concat (map block (remove1 b order)) = ps @ [] @ ss" using concat_remove1 [OF dv1(1) b(1), of block] s(3) [of "[]"] by (rule trans)
    then have "hm_values m' = concat (map block (remove1 b order)) @ []" using f(1) True by simp
    then show ?thesis unfolding if_P [OF True] m .
  next
    case False
    then show ?thesis unfolding if_not_P [OF False] using s(3) f(1) by simp
  qed
  have dis: "distinct (it # hm_values m')" using s(2) uw f(1) by auto
  have "blocks_ok hash m' ?order ?block []"
    unfolding blocks_ok_def nb
  proof (intro conjI ballI allI impI)
    show "distinct ?order" using dv1(1) by simp
    show "hm_values m' = concat (map ?block ?order) @ []" by (rule vals)
    show "distinct (hm_values m')" using dis by simp
    fix c assume c: "c \<in> set ?order"
    then have co: "c \<in> set order" using so(1) by blast
    show "c < num_buckets m" using co old by blast
    show "?block c \<noteq> []" using c co so(2) old by auto
    fix x assume x: "x \<in> set (?block c)"
    then have "x \<in> set (block c)" using uw by (auto split: if_splits)
    moreover have "x \<in> set (concat (map ?block ?order))" unfolding set_concat set_map using x c by blast
    then have "x \<in> set (hm_values m')" unfolding vals append_Nil2 .
    then have "x \<noteq> it" using dis by auto
    ultimately show "node_hash hash m' x = c" using old co nh by auto
  next
    fix c assume c: "c < num_buckets m"
    show "hm_buckets m' ! c = (if c \<in> set ?order then (Some (hd (?block c)), Some (last (?block c))) else (None, None))"
    proof (cases "c = b")
      case True
      have "hm_buckets m' ! b = ?r" using c True by (simp add: f(5) num_buckets_def)
      then show ?thesis using True so(2) by auto
    next
      case False
      then have "hm_buckets m' ! c = hm_buckets m ! c" by (simp add: f(5))
      then show ?thesis using False so(3) [OF False] bk c by simp
    qed
  qed
  then have "\<exists>order block. blocks_ok hash m' order block []" by blast
  moreover have "distinct (hm_values m' @ hm_spares m')"
    using ok dis s(1) uw by (auto simp: hm_ok_def f(1,2))
  moreover have A: "map (key m') (hm_values m') = map (key m) (hm_values m')"
    "map (hm_content m') (hm_values m') = map (hm_content m) (hm_values m')"
    using dis by (auto simp: key_def f(3))
  have dk: "distinct (map (key m) ((ps @ u) @ it # w @ ss))" using ok s(1) uw by (simp add: hm_ok_def)
  then have "distinct (map (key m) (hm_values m'))" unfolding f(1) by simp
  then have "distinct (map (key m') (hm_values m'))" unfolding A(1) .
  moreover have "hm_size m' = length (hm_values m')" using ok s(1) uw by (simp add: hm_ok_def f)
  ultimately have "hm_ok hash m'" by (simp add: hm_ok_def)
  moreover have "hm_map m' = (hm_map m)(key m it := None)"
  proof -
    have out: "key m it \<notin> key m ` set (ps @ u @ w @ ss)" using dk by auto
    have "map_of (map (hm_content m) ((ps @ u) @ w @ ss)) = (map_of (map (hm_content m) ((ps @ u) @ it # w @ ss)))(key m it := None)"
    proof
      fix k
      have "map_of (map (hm_content m) (ps @ u @ w @ ss)) (key m it) = None"
        using out by (simp only: map_of_eq_None_iff) (auto simp: key_def)
      then show "map_of (map (hm_content m) ((ps @ u) @ w @ ss)) k =
          ((map_of (map (hm_content m) ((ps @ u) @ it # w @ ss)))(key m it := None)) k"
        by (cases "hm_content m it") (auto simp: key_def map_add_def split: option.split)
    qed
    then show ?thesis unfolding hm_map_def A(2) by (simp add: f(1) s(1) uw)
  qed
  ultimately show ?thesis by (simp add: m'_def)
qed

lemma hm_erase_ok:
  assumes "hm_ok hash m"
  shows "hm_ok hash (hm_erase hash dflt k m) \<and> hm_map (hm_erase hash dflt k m) = (hm_map m)(k := None)"
proof (cases "hm_find hash k m")
  case None
  then have "k \<notin> key m ` set (hm_values m)" using hm_find_spec [OF assms, of k] by auto
  then have "(hm_map m)(k := None) = hm_map m" by (simp add: hm_map_None [symmetric] fun_upd_idem)
  then show ?thesis using None assms by (simp add: hm_erase_def)
next
  case (Some n)
  then have "n \<in> set (hm_values m)" "key m n = k" using hm_find_spec [OF assms, of k] by auto
  then show ?thesis using hm_erase_node_ok [OF assms, of n dflt] Some by (simp add: hm_erase_def)
qed

lemma hm_clear_ok:
  assumes "hm_ok hash m"
  shows "hm_ok hash (hm_clear m) \<and> hm_map (hm_clear m) = Map.empty"
proof -
  have "blocks_ok hash (hm_clear m) [] (\<lambda>_. []) []"
    by (simp add: blocks_ok_def hm_clear_def num_buckets_def)
  then have "\<exists>order block. blocks_ok hash (hm_clear m) order block []" by blast
  then show ?thesis using assms by (simp add: hm_ok_def hm_map_def hm_clear_def)
qed

lemma new_hash_map_ok:
  "hm_ok hash (new_hash_map :: ('k, 'v) hash_map)" "hm_map (new_hash_map :: ('k, 'v) hash_map) = Map.empty"
proof -
  have "blocks_ok hash (new_hash_map :: ('k, 'v) hash_map) [] (\<lambda>_. []) []"
    by (simp add: blocks_ok_def new_hash_map_def num_buckets_def)
  then have "\<exists>order block. blocks_ok hash (new_hash_map :: ('k, 'v) hash_map) order block []" by blast
  then show "hm_ok hash (new_hash_map :: ('k, 'v) hash_map)" by (simp add: hm_ok_def new_hash_map_def)
  show "hm_map (new_hash_map :: ('k, 'v) hash_map) = Map.empty" by (simp add: hm_map_def new_hash_map_def)
qed

lemma hm_size_card:
  assumes "hm_ok hash m"
  shows "hm_size m = card (dom (hm_map m))"
proof -
  have "dom (hm_map m) = key m ` set (hm_values m)" by (rule set_eqI) (simp add: domIff hm_map_None)
  moreover have "card (key m ` set (hm_values m)) = length (hm_values m)"
    using assms distinct_card [of "map (key m) (hm_values m)"] by (simp add: hm_ok_def)
  ultimately show ?thesis using assms by (simp add: hm_ok_def)
qed

lemma hm_find_map:
  assumes "hm_ok hash m"
  shows "map_option (\<lambda>n. snd (hm_content m n)) (hm_find hash k m) = hm_map m k"
proof (cases "hm_find hash k m")
  case None
  then have "k \<notin> key m ` set (hm_values m)" using hm_find_spec [OF assms, of k] by auto
  then show ?thesis using None by (simp add: hm_map_None [THEN iffD2])
next
  case (Some n)
  then have n: "n \<in> set (hm_values m)" "key m n = k" using hm_find_spec [OF assms, of k] by auto
  then show ?thesis using Some hm_map_at [of m n] assms by (simp add: hm_ok_def)
qed

subsection \<open>The nodes\<close>

text \<open>What the operations do to the nodes, for a client that keeps something of its own in them.\<close>

lemma set_insert_before [simp]: "set (insert_before it x ns) = insert x (set ns)"
proof -
  have "set ns = set (takeWhile (\<lambda>n. Some n \<noteq> it) ns) \<union> set (dropWhile (\<lambda>n. Some n \<noteq> it) ns)"
    by (metis set_append takeWhile_dropWhile_id)
  then show ?thesis by (simp add: insert_before_def)
qed

lemma rehash_content [simp]: "hm_content (hm_rehash hash n m) = hm_content m"
proof -
  have "hm_content (fold (rehash_node hash) ns m) = hm_content m" for ns and m :: "('a, 'b) hash_map"
    by (induction ns arbitrary: m) (simp_all add: rehash_node_def Let_def split: prod.split option.split)
  then show ?thesis by (simp add: hm_rehash_def)
qed

lemma hm_find_iff:
  assumes "hm_ok hash m"
  shows "hm_find hash k m = Some n \<longleftrightarrow> n \<in> set (hm_values m) \<and> key m n = k"
proof
  assume "hm_find hash k m = Some n"
  then show "n \<in> set (hm_values m) \<and> key m n = k" using hm_find_spec [OF assms, of k] by simp
next
  assume n: "n \<in> set (hm_values m) \<and> key m n = k"
  then obtain n' where f: "hm_find hash k m = Some n'" using hm_find_spec [OF assms, of k] by (cases "hm_find hash k m") auto
  then have "n' \<in> set (hm_values m)" "key m n' = k" using hm_find_spec [OF assms, of k] by simp_all
  moreover have "inj_on (key m) (set (hm_values m))" using assms by (simp add: hm_ok_def distinct_map)
  ultimately show "hm_find hash k m = Some n" using n f by (metis inj_onD)
qed

lemma hm_put_nodes:
  assumes "set (hm_values m) \<inter> set (hm_spares m) = {}" "fresh \<notin> set (hm_values m)" "hm_put fresh v b m = ((n, new), m')"
  shows "if new
    then n = (case hm_spares m of [] \<Rightarrow> fresh | s # _ \<Rightarrow> s) \<and> n \<notin> set (hm_values m) \<and>
      set (hm_values m') = insert n (set (hm_values m)) \<and> hm_spares m' = tl (hm_spares m) \<and>
      hm_content m' = (hm_content m)(n := v)
    else set (hm_values m') = set (hm_values m) \<and> hm_spares m' = hm_spares m \<and> hm_content m' = hm_content m"
  using assms
  by (cases "hm_spares m") (auto simp: hm_put_def values_insert_def Let_def split: option.splits)

lemma hm_insert_nodes:
  assumes ok: "hm_ok hash m" and fresh: "fresh \<notin> set (hm_values m) \<union> set (hm_spares m)"
    and ins: "hm_insert hash fresh v m = ((n, new), m')"
  shows "if new
    then n = (case hm_spares m of [] \<Rightarrow> fresh | s # _ \<Rightarrow> s) \<and> n \<notin> set (hm_values m) \<and>
      set (hm_values m') = insert n (set (hm_values m)) \<and> hm_spares m' = tl (hm_spares m) \<and>
      hm_content m' = (hm_content m)(n := v)
    else set (hm_values m') = set (hm_values m) \<and> hm_spares m' = hm_spares m \<and> hm_content m' = hm_content m"
proof -
  define m0 where "m0 = (if hm_size m + 1 \<ge> num_buckets m then hm_rehash hash (hash_size (hm_size m + 1)) m else m)"
  note re = hm_rehash_ok [OF ok hash_size_pos [of "hm_size m + 1"]]
  have m0: "hm_spares m0 = hm_spares m" "set (hm_values m0) = set (hm_values m)" "hm_content m0 = hm_content m"
    using re by (auto simp: m0_def)
  have put: "hm_put fresh v (hash (fst v) mod num_buckets m0) m0 = ((n, new), m')"
    using ins unfolding hm_insert_def m0_def Let_def .
  have "set (hm_values m0) \<inter> set (hm_spares m0) = {}" "fresh \<notin> set (hm_values m0)"
    using ok fresh m0 by (auto simp: hm_ok_def)
  from hm_put_nodes [OF this put] show ?thesis unfolding m0 .
qed

lemma hm_erase_node_nodes:
  assumes "hm_ok hash m" "it \<in> set (hm_values m)"
  shows "hm_values (hm_erase_node hash dflt it m) = remove1 it (hm_values m)"
    and "set (hm_values (hm_erase_node hash dflt it m)) = set (hm_values m) - {it}"
    and "hm_spares (hm_erase_node hash dflt it m) = it # hm_spares m"
    and "hm_content (hm_erase_node hash dflt it m) = (hm_content m)(it := dflt)"
proof -
  show v: "hm_values (hm_erase_node hash dflt it m) = remove1 it (hm_values m)"
    "hm_spares (hm_erase_node hash dflt it m) = it # hm_spares m"
    "hm_content (hm_erase_node hash dflt it m) = (hm_content m)(it := dflt)"
    by (simp_all add: hm_erase_node_def Let_def split: prod.split)
  show "set (hm_values (hm_erase_node hash dflt it m)) = set (hm_values m) - {it}"
    unfolding v(1) using assms(1) by (simp add: hm_ok_def set_remove1_eq)
qed

subsection \<open>Properties\<close>

text \<open>
  C37. A hash map implements a finite map, whatever the calculation of hash values: on a map in its invariant
  \<^verbatim>\<open>find\<close> returns an entry exactly when the map has the key, and the entry has its value;
  \<^verbatim>\<open>insert\<close> adds an entry exactly when the map has none of that key, returns the entry of the key
  and otherwise changes nothing, also when it rehashes and recycles a spare node; erasing a key and
  \<^verbatim>\<open>clear\<close> remove exactly what they name; each keeps the invariant, which counts the entries.
\<close>

theorem hash_map_refines_map:
  assumes "hm_ok hash m" "fresh \<notin> set (hm_values m) \<union> set (hm_spares m)"
    "hm_insert hash fresh v m = ((n, new), m')"
  shows "hm_size m = card (dom (hm_map m)) \<and> hm_empty m = (hm_map m = Map.empty) \<and>
    map_option (\<lambda>n. snd (hm_content m n)) (hm_find hash k m) = hm_map m k \<and>
    hm_ok hash m' \<and> new = (hm_map m (fst v) = None) \<and> n \<in> set (hm_values m') \<and> fst (hm_content m' n) = fst v \<and>
    hm_map m' = (if new then (hm_map m)(fst v \<mapsto> snd v) else hm_map m) \<and>
    hm_ok hash (hm_erase hash dflt k m) \<and> hm_map (hm_erase hash dflt k m) = (hm_map m)(k := None) \<and>
    hm_ok hash (hm_clear m) \<and> hm_map (hm_clear m) = Map.empty"
proof -
  have "hm_empty m = (hm_map m = Map.empty)" by (auto simp: hm_empty_def hm_map_def)
  moreover have "fst (hm_content m' n) = key m' n" by (simp add: key_def)
  ultimately show ?thesis
    using hm_size_card [OF assms(1)] hm_find_map [OF assms(1), of k] hm_insert_ok [OF assms]
      hm_erase_ok [OF assms(1), of dflt k] hm_clear_ok [OF assms(1)] by metis
qed

text \<open>Two entries of one bucket; the third insertion rehashes.\<close>

definition hm_sample :: "(nat, nat) hash_map" where
  "hm_sample = snd (hm_insert (\<lambda>k. k) 1 (3, 30) (snd (hm_insert (\<lambda>k. k) 0 (0, 10) new_hash_map)))"

lemma hm_insert_keeps:
  assumes "hm_ok hash m" "fresh \<notin> set (hm_values m) \<union> set (hm_spares m)"
  shows "hm_ok hash (snd (hm_insert hash fresh v m))"
  using hm_insert_ok [OF assms] by (metis prod.collapse)

lemmas hm_eval = hm_insert_def hm_put_def values_insert_def insert_before_def bucket_end_def hm_rehash_def rehash_node_def
  hash_size_def hash_sizes_def new_hash_map_def num_buckets_def

lemma hm_sample_first: "snd (hm_insert (\<lambda>k. k) 0 (0, 10) new_hash_map) =
    \<lparr>hm_size = 1, hm_values = [0], hm_spares = [], hm_content = (\<lambda>_. undefined)(0 := (0, 10)),
      hm_buckets = [(Some 0, Some 0), (None, None), (None, None)]\<rparr>"
  by (simp add: hm_eval Let_def numeral_3_eq_3)

lemma hm_sample_eq: "hm_sample =
    \<lparr>hm_size = 2, hm_values = [0, 1], hm_spares = [], hm_content = (\<lambda>_. undefined)(0 := (0, 10), 1 := (3, 30)),
      hm_buckets = [(Some 0, Some 1), (None, None), (None, None)]\<rparr>"
  unfolding hm_sample_def hm_sample_first by (simp add: hm_eval Let_def)

lemma hm_sample_ok: "hm_ok (\<lambda>k. k) hm_sample"
proof -
  let ?m = "snd (hm_insert (\<lambda>k. k) 0 (0, 10) new_hash_map) :: (nat, nat) hash_map"
  have "hm_ok (\<lambda>k. k) ?m"
    by (rule hm_insert_keeps [OF new_hash_map_ok(1)]) (simp add: new_hash_map_def)
  moreover have "1 \<notin> set (hm_values ?m) \<union> set (hm_spares ?m)" unfolding hm_sample_first by simp
  ultimately show ?thesis unfolding hm_sample_def by (rule hm_insert_keeps)
qed

theorem hash_map_refines_map_witness:
  "hm_map (snd (hm_insert (\<lambda>k. k) 2 (6, 60) hm_sample)) = (hm_map hm_sample)(6 \<mapsto> 60) \<and>
   hm_map hm_sample 3 = Some 30 \<and> num_buckets hm_sample = 3 \<and> num_buckets (snd (hm_insert (\<lambda>k. k) 2 (6, 60) hm_sample)) = 13"
proof -
  obtain n new m' where i: "hm_insert (\<lambda>k. k) 2 (6, 60) hm_sample = ((n, new), m')" by (metis prod.exhaust)
  have "2 \<notin> set (hm_values hm_sample) \<union> set (hm_spares hm_sample)" by (simp add: hm_sample_eq)
  note r = hash_map_refines_map [OF hm_sample_ok this i, where k = 0 and dflt = "(0, 0)"]
  have b: "num_buckets hm_sample = 3" "hm_map hm_sample 3 = Some 30" "hm_map hm_sample 6 = None"
    by (simp_all add: hm_sample_eq num_buckets_def hm_map_def)
  have c: "num_buckets (snd (hm_insert (\<lambda>k. k) 2 (6, 60) hm_sample)) = 13"
    unfolding hm_sample_eq by (simp add: hm_eval Let_def)
  show ?thesis using r b c unfolding i by simp
qed

end
