(* ===== verification/ReactorOpQueue.thy ===== *)
theory ReactorOpQueue
  imports HashMap EpollReactor
begin

text \<open>
  The operations that wait per descriptor in the reactors without epoll
  (\<^verbatim>\<open>detail/reactor_op_queue.hpp\<close>): a hash map from descriptors to queues. The queue of an
  entry is a \<^verbatim>\<open>mapped_type\<close>, whose copy and assignment copy nothing, so the queues are kept beside the hash
  map, per node: a new node gets an empty one, and a recycled node keeps its own. The map is given its entries'
  keys only. Where \<open>ops\<close> is an argument, operations are appended to it.
\<close>

text \<open>\<^verbatim>\<open>static_cast<std::size_t>\<close> of a descriptor, and of a pointer.\<close>

definition calculate_hash_value :: "int \<Rightarrow> nat" where
  "calculate_hash_value i = nat (i mod 2 ^ 64)"

definition calculate_hash_value_ptr :: "64 word \<Rightarrow> 64 word" where
  "calculate_hash_value_ptr p = p + drop_bit 3 p"

record reactor_op_queue =
  ro_operations :: "(int, unit) hash_map"
  ro_queue :: "node \<Rightarrow> ptr list"

definition new_reactor_op_queue :: reactor_op_queue where
  "new_reactor_op_queue = \<lparr>ro_operations = new_hash_map, ro_queue = (\<lambda>_. [])\<rparr>"

definition ro_begin :: "reactor_op_queue \<Rightarrow> node option" where
  "ro_begin r = (case hm_values (ro_operations r) of [] \<Rightarrow> None | n # _ \<Rightarrow> Some n)"

definition ro_find :: "int \<Rightarrow> reactor_op_queue \<Rightarrow> node option" where
  "ro_find descriptor r = hm_find calculate_hash_value descriptor (ro_operations r)"

definition ro_insert :: "node \<Rightarrow> int \<Rightarrow> reactor_op_queue \<Rightarrow> (node \<times> bool) \<times> reactor_op_queue" where
  "ro_insert fresh descriptor r =
     (let (entry, m) = hm_insert calculate_hash_value fresh (descriptor, ()) (ro_operations r);
          q = (if snd entry \<and> hm_spares (ro_operations r) = [] then (ro_queue r)(fst entry := []) else ro_queue r) in
      (entry, \<lparr>ro_operations = m, ro_queue = q\<rparr>))"

definition ro_erase :: "node \<Rightarrow> reactor_op_queue \<Rightarrow> reactor_op_queue" where
  "ro_erase i r = r\<lparr>ro_operations := hm_erase_node calculate_hash_value (0, ()) i (ro_operations r)\<rparr>"

definition enqueue_operation :: "node \<Rightarrow> int \<Rightarrow> ptr \<Rightarrow> reactor_op_queue \<Rightarrow> bool \<times> reactor_op_queue" where
  "enqueue_operation fresh descriptor op r =
     (let ((n, new), r) = ro_insert fresh descriptor r in
      (new, r\<lparr>ro_queue := (ro_queue r)(n := ro_queue r n @ [op])\<rparr>))"

text \<open>The errors of the operations are a map; each operation cancelled gets \<open>ec\<close>.\<close>

type_synonym ecs = "ptr \<Rightarrow> error_code"

fun cancel_loop :: "error_code \<Rightarrow> ptr list \<Rightarrow> ptr list \<Rightarrow> ecs \<Rightarrow> ptr list \<times> ecs" where
  "cancel_loop ec [] ops e = (ops, e)"
| "cancel_loop ec (op # q) ops e = cancel_loop ec q (ops @ [op]) (e(op := ec))"

definition cancel_operations_at ::
    "error_code \<Rightarrow> node option \<Rightarrow> ptr list \<Rightarrow> ecs \<Rightarrow> reactor_op_queue \<Rightarrow> bool \<times> ptr list \<times> ecs \<times> reactor_op_queue" where
  "cancel_operations_at ec i ops e r =
     (case i of
        Some n \<Rightarrow>
          let (ops, e) = cancel_loop ec (ro_queue r n) ops e in
          (True, ops, e, ro_erase n (r\<lparr>ro_queue := (ro_queue r)(n := [])\<rparr>))
      | None \<Rightarrow> (False, ops, e, r))"

definition cancel_operations ::
    "error_code \<Rightarrow> int \<Rightarrow> ptr list \<Rightarrow> ecs \<Rightarrow> reactor_op_queue \<Rightarrow> bool \<times> ptr list \<times> ecs \<times> reactor_op_queue" where
  "cancel_operations ec descriptor ops e r = cancel_operations_at ec (ro_find descriptor r) ops e r"

definition ro_empty :: "reactor_op_queue \<Rightarrow> bool" where
  "ro_empty r = hm_empty (ro_operations r)"

definition has_operation :: "int \<Rightarrow> reactor_op_queue \<Rightarrow> bool" where
  "has_operation descriptor r \<longleftrightarrow> ro_find descriptor r \<noteq> None"

text \<open>The loop of \<^verbatim>\<open>perform_operations\<close> is that of the epoll reactor, \<open>perform_queue\<close>.\<close>

definition perform_operations_at ::
    "'w perform \<Rightarrow> node option \<Rightarrow> ptr list \<Rightarrow> reactor_op_queue \<Rightarrow> 'w \<Rightarrow> bool \<times> ptr list \<times> reactor_op_queue \<times> 'w" where
  "perform_operations_at perform i ops r w =
     (case i of
        Some n \<Rightarrow>
          let (done, left, w) = perform_queue perform (ro_queue r n) w;
              r = r\<lparr>ro_queue := (ro_queue r)(n := left)\<rparr> in
          (if left \<noteq> [] then (True, ops @ done, r, w) else (False, ops @ done, ro_erase n r, w))
      | None \<Rightarrow> (False, ops, r, w))"

definition perform_operations ::
    "'w perform \<Rightarrow> int \<Rightarrow> ptr list \<Rightarrow> reactor_op_queue \<Rightarrow> 'w \<Rightarrow> bool \<times> ptr list \<times> reactor_op_queue \<times> 'w" where
  "perform_operations perform descriptor ops r w = perform_operations_at perform (ro_find descriptor r) ops r w"

text \<open>The loop of \<^verbatim>\<open>get_all_operations\<close> has moved on to the next node when it erases one.\<close>

fun get_all_loop :: "node list \<Rightarrow> ptr list \<Rightarrow> reactor_op_queue \<Rightarrow> ptr list \<times> reactor_op_queue" where
  "get_all_loop [] ops r = (ops, r)"
| "get_all_loop (n # ns) ops r =
     get_all_loop ns (ops @ ro_queue r n) (ro_erase n (r\<lparr>ro_queue := (ro_queue r)(n := [])\<rparr>))"

definition get_all_operations :: "ptr list \<Rightarrow> reactor_op_queue \<Rightarrow> ptr list \<times> reactor_op_queue" where
  "get_all_operations ops r = get_all_loop (hm_values (ro_operations r)) ops r"

subsection \<open>The queues of the descriptors\<close>

text \<open>Nodes in use have operations, spare ones none, so that the assignment that copies nothing does no harm.\<close>

definition roq_ok :: "reactor_op_queue \<Rightarrow> bool" where
  "roq_ok r \<longleftrightarrow> hm_ok calculate_hash_value (ro_operations r) \<and>
     (\<forall>n \<in> set (hm_values (ro_operations r)). ro_queue r n \<noteq> []) \<and> (\<forall>n \<in> set (hm_spares (ro_operations r)). ro_queue r n = [])"

definition ops_of :: "reactor_op_queue \<Rightarrow> int \<Rightarrow> ptr list" where
  "ops_of r d = (case ro_find d r of Some n \<Rightarrow> ro_queue r n | None \<Rightarrow> [])"

definition descriptor_of :: "reactor_op_queue \<Rightarrow> node \<Rightarrow> int" where
  "descriptor_of r n = key (ro_operations r) n"

lemma cancel_loop_eq: "cancel_loop ec q ops e = (ops @ q, (\<lambda>op. if op \<in> set q then ec else e op))"
  by (induction q arbitrary: ops e) (auto simp: fun_eq_iff)

lemma ro_find_iff:
  "roq_ok r \<Longrightarrow> ro_find d r = Some n \<longleftrightarrow> n \<in> set (hm_values (ro_operations r)) \<and> descriptor_of r n = d"
  by (simp add: roq_ok_def ro_find_def descriptor_of_def hm_find_iff)

lemma ops_of_node: "\<lbrakk>roq_ok r; n \<in> set (hm_values (ro_operations r))\<rbrakk> \<Longrightarrow> ops_of r (descriptor_of r n) = ro_queue r n"
  using ro_find_iff [of r "descriptor_of r n" n] by (simp add: ops_of_def)

lemma ops_of_Nil: "roq_ok r \<Longrightarrow> ops_of r d = [] \<longleftrightarrow> ro_find d r = None"
  using ro_find_iff [of r d] by (auto simp: ops_of_def roq_ok_def split: option.split)

text \<open>Erasing the entry of a node whose queue has been emptied.\<close>

lemma ro_erase_ok:
  assumes ok: "roq_ok r" and n: "n \<in> set (hm_values (ro_operations r))"
  defines "r' \<equiv> ro_erase n (r\<lparr>ro_queue := (ro_queue r)(n := [])\<rparr>)"
  shows "roq_ok r'" "ops_of r' = (ops_of r)(descriptor_of r n := [])"
    "hm_values (ro_operations r') = remove1 n (hm_values (ro_operations r))"
    "\<And>x. x \<noteq> n \<Longrightarrow> ro_queue r' x = ro_queue r x" "\<And>x. x \<noteq> n \<Longrightarrow> descriptor_of r' x = descriptor_of r x"
proof -
  let ?m = "ro_operations r" and ?m' = "hm_erase_node calculate_hash_value (0, ()) n (ro_operations r)"
  have r': "ro_operations r' = ?m'" "ro_queue r' = (ro_queue r)(n := [])" by (simp_all add: r'_def ro_erase_def)
  have hm: "hm_ok calculate_hash_value ?m" using ok by (simp add: roq_ok_def)
  note e = hm_erase_node_nodes [OF hm n, of "(0, ())"]
  have hm': "hm_ok calculate_hash_value ?m'" using hm_erase_node_ok [OF hm n] by blast
  have dj: "set (hm_values ?m) \<inter> set (hm_spares ?m) = {}" using hm by (auto simp: hm_ok_def)
  show ok': "roq_ok r'" using ok hm' dj by (auto simp: roq_ok_def r' e(2-4))
  show d: "\<And>x. x \<noteq> n \<Longrightarrow> descriptor_of r' x = descriptor_of r x" by (simp add: descriptor_of_def key_def r' e)
  show "hm_values (ro_operations r') = remove1 n (hm_values (ro_operations r))" by (simp add: r' e)
  show "\<And>x. x \<noteq> n \<Longrightarrow> ro_queue r' x = ro_queue r x" by (simp add: r')
  show "ops_of r' = (ops_of r)(descriptor_of r n := [])"
  proof
    fix k
    show "ops_of r' k = ((ops_of r)(descriptor_of r n := [])) k"
    proof (cases "ro_find k r'")
      case (Some x)
      then have x: "x \<in> set (hm_values ?m)" "x \<noteq> n" "descriptor_of r' x = k" using ro_find_iff [OF ok', of k x] by (auto simp: r' e(2))
      then have f: "ro_find k r = Some x" using ro_find_iff [OF ok, of k x] d by simp
      have "k \<noteq> descriptor_of r n" using f ro_find_iff [OF ok, of k n] n x(2) by auto
      then show ?thesis using Some f x(2) by (simp add: ops_of_def r')
    next
      case None
      have "x = n" if "ro_find k r = Some x" for x
        using that None ro_find_iff [OF ok, of k x] ro_find_iff [OF ok', of k x] d [of x] by (auto simp: r' e(2))
      then have "ro_find k r = None \<or> k = descriptor_of r n" using ro_find_iff [OF ok, of k n] by (cases "ro_find k r") auto
      then show ?thesis using None by (auto simp: ops_of_def)
    qed
  qed
qed

lemma new_reactor_op_queue_ok: "roq_ok new_reactor_op_queue" "ops_of new_reactor_op_queue = (\<lambda>_. [])"
  using new_hash_map_ok(1) by (auto simp: roq_ok_def new_reactor_op_queue_def ops_of_def ro_find_def hm_find_def new_hash_map_def num_buckets_def fun_eq_iff)

lemma enqueue_operation_ok:
  assumes ok: "roq_ok r" and fresh: "fresh \<notin> set (hm_values (ro_operations r)) \<union> set (hm_spares (ro_operations r))"
    and enq: "enqueue_operation fresh d op r = (first, r')"
  shows "roq_ok r' \<and> ops_of r' = (ops_of r)(d := ops_of r d @ [op]) \<and> first = (ops_of r d = [])"
proof -
  let ?m = "ro_operations r"
  obtain n new m' where ins: "hm_insert calculate_hash_value fresh (d, ()) ?m = ((n, new), m')" by (metis prod.exhaust)
  have hm: "hm_ok calculate_hash_value ?m" using ok by (simp add: roq_ok_def)
  note i = hm_insert_ok [OF hm fresh ins] and k = hm_insert_nodes [OF hm fresh ins]
  define q where "q = (if new \<and> hm_spares ?m = [] then (ro_queue r)(n := []) else ro_queue r)"
  have r': "first = new" "ro_operations r' = m'" "ro_queue r' = q(n := q n @ [op])"
    using enq by (auto simp: enqueue_operation_def ro_insert_def ins q_def)
  have hm': "hm_ok calculate_hash_value m'" using i by blast
  have qx: "x \<noteq> n \<Longrightarrow> q x = ro_queue r x" for x by (simp add: q_def)
  have key: "x \<noteq> n \<Longrightarrow> key m' x = key ?m x" for x using k by (auto simp: key_def split: if_splits)
  have vals: "set (hm_values m') = insert n (set (hm_values ?m))"
    using k i by (auto split: if_splits)
  have qn: "q n = ops_of r d \<and> new = (ops_of r d = [])"
  proof (cases new)
    case True
    then have "d \<notin> key ?m ` set (hm_values ?m)" using i hm_map_None [of ?m d] by simp
    then have none: "\<not> (\<exists>x. ro_find d r = Some x)"
      using ro_find_iff [OF ok, of d] by (metis descriptor_of_def image_eqI)
    then have "ops_of r d = []" using ops_of_Nil [OF ok] by auto
    moreover have "q n = []" using k True ok by (auto simp: q_def roq_ok_def split: list.splits)
    ultimately show ?thesis using True by simp
  next
    case False
    then have "key ?m n = d" "n \<in> set (hm_values ?m)" using i k by (auto simp: key_def)
    then have "ro_find d r = Some n" using ro_find_iff [OF ok, of d n] by (simp add: descriptor_of_def)
    then show ?thesis using False ops_of_Nil [OF ok, of d] by (simp add: ops_of_def q_def)
  qed
  have sp: "set (hm_spares m') \<subseteq> set (hm_spares ?m)" "n \<notin> set (hm_spares m')"
    using k i hm' by (auto simp: hm_ok_def split: if_splits dest: list.set_sel(2)[rotated])
      (metis list.sel(2) list.set_sel(2))
  have ok': "roq_ok r'" using ok hm' qx vals sp by (auto simp: roq_ok_def r')
  have "ops_of r' = (ops_of r)(d := ops_of r d @ [op])"
  proof
    fix c
    show "ops_of r' c = ((ops_of r)(d := ops_of r d @ [op])) c"
    proof (cases "c = d")
      case True
      have "ro_find d r' = Some n" using ro_find_iff [OF ok', of d n] i by (simp add: r' descriptor_of_def)
      then show ?thesis using True qn by (simp add: ops_of_def r')
    next
      case False
      have "ro_find c r' = Some x \<longleftrightarrow> ro_find c r = Some x" for x
      proof (cases "x = n")
        case True
        have "key m' n = d" using i by simp
        moreover have "n \<in> set (hm_values ?m) \<Longrightarrow> key ?m n = d" using i k by (auto simp: key_def split: if_splits)
        ultimately show ?thesis
          using False True ro_find_iff [OF ok', of c x] ro_find_iff [OF ok, of c x] by (auto simp: r' descriptor_of_def)
      next
        case xn: False
        then show ?thesis
          using ro_find_iff [OF ok', of c x] ro_find_iff [OF ok, of c x] vals key [OF xn] by (auto simp: r' descriptor_of_def)
      qed
      then have f: "ro_find c r' = ro_find c r" by (cases "ro_find c r"; cases "ro_find c r'") auto
      have "ro_find c r \<noteq> Some n"
        using False ro_find_iff [OF ok', of c n] ro_find_iff [OF ok', of d n] i f by (auto simp: r' descriptor_of_def)
      then show ?thesis using f qx False by (auto simp: ops_of_def r' split: option.split)
    qed
  qed
  then show ?thesis using ok' qn r'(1) by simp
qed

lemma cancel_operations_ok:
  assumes "roq_ok r" "cancel_operations ec d ops e r = (any, ops', e', r')"
  shows "roq_ok r' \<and> ops_of r' = (ops_of r)(d := []) \<and> ops' = ops @ ops_of r d \<and>
    e' = (\<lambda>op. if op \<in> set (ops_of r d) then ec else e op) \<and> any = (ops_of r d \<noteq> [])"
proof (cases "ro_find d r")
  case None
  then have "ops_of r d = []" by (simp add: ops_of_def)
  then show ?thesis using assms None by (auto simp: cancel_operations_def cancel_operations_at_def fun_eq_iff)
next
  case (Some n)
  then have n: "n \<in> set (hm_values (ro_operations r))" "descriptor_of r n = d" using ro_find_iff [OF assms(1)] by auto
  have q: "ops_of r d = ro_queue r n" using Some by (simp add: ops_of_def)
  have r': "any" "ops' = ops @ ro_queue r n" "e' = (\<lambda>op. if op \<in> set (ro_queue r n) then ec else e op)"
      "r' = ro_erase n (r\<lparr>ro_queue := (ro_queue r)(n := [])\<rparr>)"
    using assms(2) Some by (auto simp: cancel_operations_def cancel_operations_at_def cancel_loop_eq)
  show ?thesis using ro_erase_ok(1,2) [OF assms(1) n(1)] r' q n(2) Some ops_of_Nil [OF assms(1), of d] by simp
qed

lemma perform_queue_split: "perform_queue perform q w = (done, left, w') \<Longrightarrow> q = done @ left"
  by (induction q arbitrary: w "done" left w') (auto split: prod.splits if_splits)

text \<open>A node in use gets another queue.\<close>

lemma ro_requeue_ok:
  assumes ok: "roq_ok r" and n: "n \<in> set (hm_values (ro_operations r))" "q \<noteq> []"
  defines "r' \<equiv> r\<lparr>ro_queue := (ro_queue r)(n := q)\<rparr>"
  shows "roq_ok r'" "ops_of r' = (ops_of r)(descriptor_of r n := q)"
proof -
  have "n \<notin> set (hm_spares (ro_operations r))" using ok n(1) by (auto simp: roq_ok_def hm_ok_def)
  then show "roq_ok r'" using ok n(2) by (auto simp: roq_ok_def r'_def)
  show "ops_of r' = (ops_of r)(descriptor_of r n := q)"
  proof
    fix k
    have f: "ro_find k r' = ro_find k r" "ro_queue r' = (ro_queue r)(n := q)" by (simp_all add: r'_def ro_find_def)
    have "ro_find k r = Some n \<longleftrightarrow> descriptor_of r n = k" using ro_find_iff [OF ok, of k n] n(1) by simp
    then show "ops_of r' k = ((ops_of r)(descriptor_of r n := q)) k"
      by (cases "ro_find k r") (auto simp: ops_of_def f)
  qed
qed

lemma perform_at_ok:
  assumes ok: "roq_ok r" and n: "n \<in> set (hm_values (ro_operations r))"
    and p: "perform_queue perform (ro_queue r n) w = (done, left, w')"
    and run: "perform_operations_at perform (Some n) ops r w = (unfinished, ops', r', w1)"
  shows "unfinished = (left \<noteq> [])" "ops' = ops @ done" "w1 = w'" "roq_ok r'" "ops_of r' = (ops_of r)(descriptor_of r n := left)"
    "hm_values (ro_operations r') = (if left = [] then remove1 n (hm_values (ro_operations r)) else hm_values (ro_operations r))"
    "\<And>x. x \<noteq> n \<Longrightarrow> ro_queue r' x = ro_queue r x" "\<And>x. x \<noteq> n \<Longrightarrow> descriptor_of r' x = descriptor_of r x"
    "ro_queue r' n = left"
proof -
  have "unfinished = (left \<noteq> []) \<and> ops' = ops @ done \<and> w1 = w' \<and>
      r' = (if left = [] then ro_erase n (r\<lparr>ro_queue := (ro_queue r)(n := [])\<rparr>) else r\<lparr>ro_queue := (ro_queue r)(n := left)\<rparr>)"
    using run p by (auto simp: perform_operations_at_def split: if_splits)
  then show "unfinished = (left \<noteq> [])" "ops' = ops @ done" "w1 = w'" "roq_ok r'" "ops_of r' = (ops_of r)(descriptor_of r n := left)"
    "hm_values (ro_operations r') = (if left = [] then remove1 n (hm_values (ro_operations r)) else hm_values (ro_operations r))"
    "\<And>x. x \<noteq> n \<Longrightarrow> ro_queue r' x = ro_queue r x" "\<And>x. x \<noteq> n \<Longrightarrow> descriptor_of r' x = descriptor_of r x"
    "ro_queue r' n = left"
    using ro_erase_ok [OF ok n] ro_requeue_ok [OF ok n, of left]
    by (cases "left = []"; simp add: descriptor_of_def ro_erase_def)+
qed

lemma perform_operations_ok:
  assumes "roq_ok r" "perform_queue perform (ops_of r d) w = (done, left, w')"
    "perform_operations perform d ops r w = (unfinished, ops', r', w1)"
  shows "roq_ok r' \<and> ops_of r' = (ops_of r)(d := left) \<and> ops' = ops @ done \<and> w1 = w' \<and> unfinished = (left \<noteq> []) \<and>
    ops_of r d = done @ left"
proof (cases "ro_find d r")
  case None
  then have "ops_of r d = []" by (simp add: ops_of_def)
  then show ?thesis using assms None by (auto simp: perform_operations_def perform_operations_at_def)
next
  case (Some n)
  then have n: "n \<in> set (hm_values (ro_operations r))" "descriptor_of r n = d" using ro_find_iff [OF assms(1)] by auto
  have q: "ops_of r d = ro_queue r n" using Some by (simp add: ops_of_def)
  have run: "perform_operations_at perform (Some n) ops r w = (unfinished, ops', r', w1)"
    using assms(3) Some by (simp add: perform_operations_def)
  show ?thesis
    using perform_at_ok [OF assms(1) n(1) assms(2) [unfolded q] run] n(2) perform_queue_split [OF assms(2)] by simp
qed

subsection \<open>All operations\<close>

definition ro_all :: "reactor_op_queue \<Rightarrow> ptr list" where
  "ro_all r = concat (map (ro_queue r) (hm_values (ro_operations r)))"

lemma mset_remove1_concat:
  "n \<in> set ns \<Longrightarrow> mset (concat (map f (remove1 n ns))) + mset (f n) = mset (concat (map f ns))"
  by (induction ns) auto

lemma ro_all_changed:
  assumes ok: "roq_ok r" and n: "n \<in> set (hm_values (ro_operations r))"
    and v: "hm_values (ro_operations r') = (if left = [] then remove1 n (hm_values (ro_operations r)) else hm_values (ro_operations r))"
    and q: "ro_queue r' n = left" "\<And>x. x \<noteq> n \<Longrightarrow> ro_queue r' x = ro_queue r x"
  shows "mset (ro_all r') + mset (ro_queue r n) = mset (ro_all r) + mset left"
proof -
  let ?ns = "hm_values (ro_operations r)"
  have d: "distinct ?ns" using ok by (simp add: roq_ok_def hm_ok_def)
  then have m: "map (ro_queue r') (remove1 n ?ns) = map (ro_queue r) (remove1 n ?ns)"
    using q(2) by (auto simp: set_remove1_eq)
  let ?X = "mset (concat (map (ro_queue r) (remove1 n ?ns)))"
  have a: "mset (concat (map (ro_queue r) ?ns)) = ?X + mset (ro_queue r n)"
    using mset_remove1_concat [OF n, of "ro_queue r"] by (rule sym)
  have b: "mset (concat (map (ro_queue r') ?ns)) = ?X + mset left"
    using mset_remove1_concat [OF n, of "ro_queue r'"] unfolding m q(1) by (rule sym)
  show ?thesis
  proof (cases "left = []")
    case True
    then show ?thesis unfolding ro_all_def v if_P [OF True] m a by simp
  next
    case False
    then show ?thesis unfolding ro_all_def v if_not_P [OF False] a b by (simp add: ac_simps)
  qed
qed

lemma get_all_loop_ok:
  "\<lbrakk>roq_ok r; hm_values (ro_operations r) = ns\<rbrakk> \<Longrightarrow>
    (case get_all_loop ns ops r of (ops', r') \<Rightarrow>
      roq_ok r' \<and> ops' = ops @ concat (map (ro_queue r) ns) \<and> hm_values (ro_operations r') = [])"
proof (induction ns arbitrary: ops r)
  case (Cons n ns)
  let ?r = "ro_erase n (r\<lparr>ro_queue := (ro_queue r)(n := [])\<rparr>)"
  have "n \<in> set (hm_values (ro_operations r))" "n \<notin> set ns"
    using Cons.prems by (auto simp: roq_ok_def hm_ok_def)
  note e = ro_erase_ok [OF Cons.prems(1) this(1)]
  have v: "hm_values (ro_operations ?r) = ns" using e(3) Cons.prems(2) by simp
  have "map (ro_queue ?r) ns = map (ro_queue r) ns"
  proof (rule map_cong [OF refl])
    fix x assume "x \<in> set ns"
    then have "x \<noteq> n" using \<open>n \<notin> set ns\<close> by auto
    then show "ro_queue ?r x = ro_queue r x" by (rule e(4))
  qed
  then have c: "concat (map (ro_queue ?r) ns) = concat (map (ro_queue r) ns)" by (rule arg_cong)
  show ?case using Cons.IH [OF e(1) v, of "ops @ ro_queue r n"] unfolding c by (simp split: prod.splits)
qed simp

lemma get_all_operations_ok:
  assumes "roq_ok r" "get_all_operations ops r = (ops', r')"
  shows "roq_ok r' \<and> ops_of r' = (\<lambda>_. []) \<and> ops' = ops @ ro_all r"
proof -
  have r: "roq_ok r'" "ops' = ops @ ro_all r" "hm_values (ro_operations r') = []"
    using get_all_loop_ok [OF assms(1) refl, of ops] assms(2) by (auto simp: get_all_operations_def ro_all_def)
  have "ops_of r' d = []" for d using ops_of_Nil [OF r(1), of d] ro_find_iff [OF r(1), of d] r(3) by (cases "ro_find d r'") auto
  then show ?thesis using r by auto
qed

text \<open>Each descriptor with operations has one node.\<close>

lemma descriptors_of_nodes:
  assumes ok: "roq_ok r"
  defines "ds \<equiv> map (descriptor_of r) (hm_values (ro_operations r))"
  shows "distinct ds" "set ds = {d. ops_of r d \<noteq> []}" "ro_all r = concat (map (ops_of r) ds)"
proof -
  let ?ns = "hm_values (ro_operations r)"
  have "inj_on (descriptor_of r) (set ?ns)"
  proof (rule inj_onI)
    fix x y assume "x \<in> set ?ns" "y \<in> set ?ns" "descriptor_of r x = descriptor_of r y"
    then have "ro_find (descriptor_of r x) r = Some x" "ro_find (descriptor_of r x) r = Some y"
      using ro_find_iff [OF ok, of "descriptor_of r x"] by simp_all
    then show "x = y" by simp
  qed
  moreover have "distinct ?ns" using ok by (simp add: roq_ok_def hm_ok_def)
  ultimately show "distinct ds" by (simp add: ds_def distinct_map)
  have "d \<in> set ds \<longleftrightarrow> ro_find d r \<noteq> None" for d using ro_find_iff [OF ok, of d] by (auto simp: ds_def)
  then show "set ds = {d. ops_of r d \<noteq> []}" using ops_of_Nil [OF ok] by blast
  have "map (ro_queue r) ?ns = map (ops_of r) ds" using ops_of_node [OF ok] by (simp add: ds_def)
  then show "ro_all r = concat (map (ops_of r) ds)" by (simp add: ro_all_def)
qed

lemma ro_empty_iff:
  assumes "roq_ok r"
  shows "ro_empty r \<longleftrightarrow> ops_of r = (\<lambda>_. [])"
proof -
  have "ro_empty r \<longleftrightarrow> set (map (descriptor_of r) (hm_values (ro_operations r))) = {}" by (simp add: ro_empty_def hm_empty_def)
  then show ?thesis unfolding descriptors_of_nodes(2) [OF assms] by (auto simp: fun_eq_iff)
qed

subsection \<open>Properties\<close>

text \<open>
  C38. The queues of a reactor without epoll implement a list of operations per descriptor, though the
  assignment of a recycled entry copies no queue. Enqueuing appends to the list of the descriptor and tells whether it was
  empty; cancelling hands over that list, each operation with the error, and empties it;
  performing takes the finished operations off its front, stops at the first unfinished one and says whether
  one is left; taking all hands over the list of every descriptor once and in order. The other descriptors
  are left alone, and every operation keeps the invariant.
\<close>

theorem op_queues_refine_lists:
  assumes "roq_ok r" "fresh \<notin> set (hm_values (ro_operations r)) \<union> set (hm_spares (ro_operations r))"
  shows "(case enqueue_operation fresh d op r of (first, r') \<Rightarrow>
      roq_ok r' \<and> ops_of r' = (ops_of r)(d := ops_of r d @ [op]) \<and> first = (ops_of r d = [])) \<and>
    (case cancel_operations ec d ops e r of (any, ops', e', r') \<Rightarrow>
      roq_ok r' \<and> ops_of r' = (ops_of r)(d := []) \<and> ops' = ops @ ops_of r d \<and> any = (ops_of r d \<noteq> []) \<and>
      e' = (\<lambda>op. if op \<in> set (ops_of r d) then ec else e op)) \<and>
    (case perform_operations perform d ops r w of (unfinished, ops', r', w') \<Rightarrow>
      \<exists>done left. perform_queue perform (ops_of r d) w = (done, left, w') \<and> ops_of r d = done @ left \<and>
        roq_ok r' \<and> ops_of r' = (ops_of r)(d := left) \<and> ops' = ops @ done \<and> unfinished = (left \<noteq> [])) \<and>
    (case get_all_operations ops r of (ops', r') \<Rightarrow>
      roq_ok r' \<and> ops_of r' = (\<lambda>_. []) \<and>
      (\<exists>ds. distinct ds \<and> set ds = {d. ops_of r d \<noteq> []} \<and> ops' = ops @ concat (map (ops_of r) ds))) \<and>
    ro_empty r = (ops_of r = (\<lambda>_. [])) \<and> has_operation d r = (ops_of r d \<noteq> [])"
proof (intro conjI)
  show "case enqueue_operation fresh d op r of (first, r') \<Rightarrow>
      roq_ok r' \<and> ops_of r' = (ops_of r)(d := ops_of r d @ [op]) \<and> first = (ops_of r d = [])"
    using enqueue_operation_ok [OF assms] by (auto split: prod.split)
  show "case cancel_operations ec d ops e r of (any, ops', e', r') \<Rightarrow>
      roq_ok r' \<and> ops_of r' = (ops_of r)(d := []) \<and> ops' = ops @ ops_of r d \<and> any = (ops_of r d \<noteq> []) \<and>
      e' = (\<lambda>op. if op \<in> set (ops_of r d) then ec else e op)"
    using cancel_operations_ok [OF assms(1)] by (auto split: prod.split)
  obtain "done" left w' where p: "perform_queue perform (ops_of r d) w = (done, left, w')" by (metis prod_cases3)
  show "case perform_operations perform d ops r w of (unfinished, ops', r', w') \<Rightarrow>
      \<exists>done left. perform_queue perform (ops_of r d) w = (done, left, w') \<and> ops_of r d = done @ left \<and>
        roq_ok r' \<and> ops_of r' = (ops_of r)(d := left) \<and> ops' = ops @ done \<and> unfinished = (left \<noteq> [])"
    using perform_operations_ok [OF assms(1) p] p by (auto split: prod.split)
  show "case get_all_operations ops r of (ops', r') \<Rightarrow>
      roq_ok r' \<and> ops_of r' = (\<lambda>_. []) \<and>
      (\<exists>ds. distinct ds \<and> set ds = {d. ops_of r d \<noteq> []} \<and> ops' = ops @ concat (map (ops_of r) ds))"
    using get_all_operations_ok [OF assms(1)] descriptors_of_nodes [OF assms(1)] by (fastforce split: prod.split)
  show "ro_empty r = (ops_of r = (\<lambda>_. []))" by (rule ro_empty_iff [OF assms(1)])
  show "has_operation d r = (ops_of r d \<noteq> [])" using ops_of_Nil [OF assms(1), of d] by (simp add: has_operation_def)
qed

text \<open>An entry is cancelled, and its node recycled for another descriptor.\<close>

lemma calculate_hash_value_0: "calculate_hash_value 0 = 0"
  by (simp add: calculate_hash_value_def)

lemma first_operation: "enqueue_operation 0 0 70 new_reactor_op_queue =
    (True, \<lparr>ro_operations = \<lparr>hm_size = 1, hm_values = [0], hm_spares = [], hm_content = (\<lambda>_. undefined)(0 := (0, ())),
        hm_buckets = [(Some 0, Some 0), (None, None), (None, None)]\<rparr>, ro_queue = (\<lambda>_. [])(0 := [70])\<rparr>)"
proof -
  have "hm_insert calculate_hash_value 0 (0, ()) (new_hash_map :: (int, unit) hash_map) =
      ((0, True), \<lparr>hm_size = 1, hm_values = [0], hm_spares = [], hm_content = (\<lambda>_. undefined)(0 := (0, ())),
        hm_buckets = [(Some 0, Some 0), (None, None), (None, None)]\<rparr>)"
    by (simp add: hm_eval calculate_hash_value_0 Let_def numeral_3_eq_3)
  then show ?thesis by (simp add: enqueue_operation_def ro_insert_def new_reactor_op_queue_def)
qed

definition roq_recycled :: reactor_op_queue where
  "roq_recycled = snd (snd (snd (cancel_operations no_error 0 [] (\<lambda>_. no_error)
     (snd (enqueue_operation 0 0 70 new_reactor_op_queue)))))"

theorem op_queues_refine_lists_witness:
  "hm_spares (ro_operations roq_recycled) = [0] \<and> ops_of (snd (enqueue_operation 1 9 71 roq_recycled)) = (\<lambda>_. [])(9 := [71])"
proof -
  obtain first r where e: "enqueue_operation 0 0 70 new_reactor_op_queue = (first, r)" by (metis prod.exhaust)
  have r: "roq_ok r" "ops_of r = (\<lambda>_. [])(0 := [70])"
    using enqueue_operation_ok [OF new_reactor_op_queue_ok(1) _ e] new_reactor_op_queue_ok(2)
    by (auto simp: new_reactor_op_queue_def new_hash_map_def)
  obtain any ops' e' where c: "cancel_operations no_error 0 [] (\<lambda>_. no_error) r = (any, ops', e', roq_recycled)"
    using e by (cases "cancel_operations no_error 0 [] (\<lambda>_. no_error) r") (auto simp: roq_recycled_def)
  have s: "roq_ok roq_recycled" "ops_of roq_recycled = (\<lambda>_. [])"
    using cancel_operations_ok [OF r(1) c] r(2) by auto
  have v: "hm_values (ro_operations roq_recycled) = []" "hm_spares (ro_operations roq_recycled) = [0]"
    by (simp_all add: roq_recycled_def first_operation cancel_operations_def cancel_operations_at_def ro_find_def hm_find_def
        num_buckets_def bucket_end_def calculate_hash_value_0 ro_erase_def hm_erase_node_def Let_def)
  have "1 \<notin> set (hm_values (ro_operations roq_recycled)) \<union> set (hm_spares (ro_operations roq_recycled))" by (simp add: v)
  from conjunct1 [OF op_queues_refine_lists [OF s(1) this, of 9 71]]
  have "case enqueue_operation 1 9 71 roq_recycled of (first, r') \<Rightarrow> ops_of r' = (ops_of roq_recycled)(9 := ops_of roq_recycled 9 @ [71])"
    by (auto split: prod.splits)
  then show ?thesis using v s(2) by (simp split: prod.splits)
qed

end
