(* ===== verification/Buffers.thy ===== *)
theory Buffers
  imports AsioError
begin

text \<open>
  Buffers (\<^verbatim>\<open>buffer.hpp\<close>): a buffer is an address and a size, a buffer sequence a list of them.
  Memory maps addresses to bytes. \<^verbatim>\<open>mutable_buffer\<close> and \<^verbatim>\<open>const_buffer\<close>, which differ in their types
  only, share the record; so do \<^verbatim>\<open>mutable_buffers_1\<close> and \<^verbatim>\<open>const_buffers_1\<close>, a sequence of one. Sizes
  are natural numbers: the sum of the sizes of a sequence is taken to fit \<^verbatim>\<open>std::size_t\<close>. The
  branches for debugging builds (\<^verbatim>\<open>ASIO_ENABLE_BUFFER_DEBUGGING\<close>) are left out.
\<close>

subsection \<open>Buffers\<close>

record buf =
  b_addr :: nat
  b_size :: nat

definition null_buffer :: buf where
  "null_buffer = \<lparr>b_addr = 0, b_size = 0\<rparr>"

text \<open>\<^verbatim>\<open>operator+\<close>: the rest of a buffer, and \<^verbatim>\<open>buffer(b, max_size)\<close>: its first bytes.\<close>

definition buffer_plus :: "buf \<Rightarrow> nat \<Rightarrow> buf" where
  "buffer_plus b start =
     (if start > b_size b then null_buffer
      else \<lparr>b_addr = b_addr b + start, b_size = b_size b - start\<rparr>)"

definition buffer_limit :: "buf \<Rightarrow> nat \<Rightarrow> buf" where
  "buffer_limit b max_size_in_bytes =
     \<lparr>b_addr = b_addr b, b_size = (if b_size b < max_size_in_bytes then b_size b else max_size_in_bytes)\<rparr>"

text \<open>\<^verbatim>\<open>buffers_size\<close> of a sequence adds up the sizes in a loop.\<close>

fun buffer_size_loop :: "buf list \<Rightarrow> nat \<Rightarrow> nat" where
  "buffer_size_loop [] total_buffer_size = total_buffer_size"
| "buffer_size_loop (b # bs) total_buffer_size = buffer_size_loop bs (total_buffer_size + b_size b)"

definition buffers_size :: "buf list \<Rightarrow> nat" where
  "buffers_size bs = buffer_size_loop bs 0"

text \<open>\<^verbatim>\<open>buffer(data)\<close> of an array, vector or string of \<open>count\<close> elements of \<open>elem_size\<close> bytes, in
  full or limited. The data of an empty vector is the null pointer.\<close>

definition buffer_of_array :: "nat \<Rightarrow> nat \<Rightarrow> nat \<Rightarrow> buf" where
  "buffer_of_array data count elem_size = \<lparr>b_addr = data, b_size = count * elem_size\<rparr>"

definition buffer_of_array_max :: "nat \<Rightarrow> nat \<Rightarrow> nat \<Rightarrow> nat \<Rightarrow> buf" where
  "buffer_of_array_max data count elem_size max_size_in_bytes =
     \<lparr>b_addr = data,
      b_size = (if count * elem_size < max_size_in_bytes then count * elem_size else max_size_in_bytes)\<rparr>"

definition buffer_of_vector :: "nat \<Rightarrow> nat \<Rightarrow> nat \<Rightarrow> buf" where
  "buffer_of_vector data count elem_size =
     \<lparr>b_addr = (if count \<noteq> 0 then data else 0), b_size = count * elem_size\<rparr>"

definition buffer_of_vector_max :: "nat \<Rightarrow> nat \<Rightarrow> nat \<Rightarrow> nat \<Rightarrow> buf" where
  "buffer_of_vector_max data count elem_size max_size_in_bytes =
     \<lparr>b_addr = (if count \<noteq> 0 then data else 0),
      b_size = (if count * elem_size < max_size_in_bytes then count * elem_size else max_size_in_bytes)\<rparr>"

subsection \<open>Copying\<close>

type_synonym memory = "nat \<Rightarrow> u8"

definition memcpy :: "nat \<Rightarrow> nat \<Rightarrow> nat \<Rightarrow> memory \<Rightarrow> memory" where
  "memcpy dst src n m = (\<lambda>a. if dst \<le> a \<and> a < dst + n then m (src + (a - dst)) else m a)"

text \<open>One buffer to one buffer, all or at most \<open>limit\<close> bytes; the result is the number of bytes.\<close>

definition buffer_copy_1 :: "buf \<Rightarrow> buf \<Rightarrow> memory \<Rightarrow> nat \<times> memory" where
  "buffer_copy_1 target source m =
     (let n = (if b_size target < b_size source then b_size target else b_size source) in
      (n, memcpy (b_addr target) (b_addr source) n m))"

definition buffer_copy_1_max :: "buf \<Rightarrow> buf \<Rightarrow> nat \<Rightarrow> memory \<Rightarrow> nat \<times> memory" where
  "buffer_copy_1_max target source limit m = buffer_copy_1 (buffer_limit target limit) source m"

lemma buffer_copy_1_eq:
  "buffer_copy_1 t s m =
     (min (b_size t) (b_size s), memcpy (b_addr t) (b_addr s) (min (b_size t) (b_size s)) m)"
  by (simp add: buffer_copy_1_def min_def Let_def)

lemma buffer_copy_1_max_eq:
  "buffer_copy_1_max t s k m =
     (min (min (b_size t) k) (b_size s), memcpy (b_addr t) (b_addr s) (min (min (b_size t) k) (b_size s)) m)"
  by (simp add: buffer_copy_1_max_def buffer_limit_def buffer_copy_1_eq min_def)

text \<open>A sequence into one buffer, and one buffer into a sequence.\<close>

fun copy_into_one :: "buf \<Rightarrow> buf list \<Rightarrow> nat \<Rightarrow> memory \<Rightarrow> nat \<times> memory" where
  "copy_into_one target [] copied m = (copied, m)"
| "copy_into_one target (source # sources) copied m =
     (if b_size target = 0 then (copied, m)
      else let (n, m) = buffer_copy_1 target source m in
           copy_into_one (buffer_plus target n) sources (copied + n) m)"

fun copy_from_one :: "buf list \<Rightarrow> buf \<Rightarrow> nat \<Rightarrow> memory \<Rightarrow> nat \<times> memory" where
  "copy_from_one [] source copied m = (copied, m)"
| "copy_from_one (target # targets) source copied m =
     (if b_size source = 0 then (copied, m)
      else let (n, m) = buffer_copy_1 target source m in
           copy_from_one targets (buffer_plus source n) (copied + n) m)"

text \<open>A sequence into a sequence, with an offset into the first buffer of either; in full, or at most
  \<open>left\<close> more bytes, the difference of \<^verbatim>\<open>max_bytes_to_copy\<close> and \<^verbatim>\<open>total_bytes_copied\<close>.\<close>

definition advance_seq :: "nat \<Rightarrow> buf \<Rightarrow> buf list \<Rightarrow> nat \<Rightarrow> buf list \<times> nat" where
  "advance_seq n b bs off = (if n = b_size b then (tl bs, 0) else (bs, off + n))"

function copy_loop :: "buf list \<Rightarrow> nat \<Rightarrow> buf list \<Rightarrow> nat \<Rightarrow> nat \<Rightarrow> memory \<Rightarrow> nat \<times> memory" where
  "copy_loop targets toff sources soff copied m =
     (if targets \<noteq> [] \<and> sources \<noteq> [] then
        let target = buffer_plus (hd targets) toff;
            source = buffer_plus (hd sources) soff;
            (n, m) = buffer_copy_1 target source m;
            (targets, toff) = advance_seq n target targets toff;
            (sources, soff) = advance_seq n source sources soff in
        copy_loop targets toff sources soff (copied + n) m
      else (copied, m))"
  by pat_completeness auto
termination
  by (relation "measure (\<lambda>(ts, _, ss, _, _, _). length ts + length ss)")
    (auto simp: buffer_copy_1_eq advance_seq_def neq_Nil_conv min_def split: if_splits)

function copy_max_loop ::
    "nat \<Rightarrow> buf list \<Rightarrow> nat \<Rightarrow> buf list \<Rightarrow> nat \<Rightarrow> nat \<Rightarrow> memory \<Rightarrow> nat \<times> memory" where
  "copy_max_loop left targets toff sources soff copied m =
     (if left \<noteq> 0 \<and> targets \<noteq> [] \<and> sources \<noteq> [] then
        let target = buffer_plus (hd targets) toff;
            source = buffer_plus (hd sources) soff;
            (n, m) = buffer_copy_1_max target source left m;
            (targets, toff) = advance_seq n target targets toff;
            (sources, soff) = advance_seq n source sources soff in
        copy_max_loop (left - n) targets toff sources soff (copied + n) m
      else (copied, m))"
  by pat_completeness auto
termination
  by (relation "measure (\<lambda>(left, ts, _, ss, _, _, _). length ts + length ss + left)")
    (auto simp: buffer_copy_1_max_eq advance_seq_def neq_Nil_conv min_def split: if_splits)

declare copy_loop.simps [simp del] copy_max_loop.simps [simp del]

definition buffer_copy :: "buf list \<Rightarrow> buf list \<Rightarrow> memory \<Rightarrow> nat \<times> memory" where
  "buffer_copy targets sources m = copy_loop targets 0 sources 0 0 m"

definition buffer_copy_max :: "buf list \<Rightarrow> buf list \<Rightarrow> nat \<Rightarrow> memory \<Rightarrow> nat \<times> memory" where
  "buffer_copy_max targets sources limit m = copy_max_loop limit targets 0 sources 0 0 m"

subsection \<open>The addresses of a sequence\<close>

text \<open>What a sequence stands for: the addresses of its bytes in order. \<open>store\<close> puts bytes at
  addresses until either runs out.\<close>

definition buf_addrs :: "buf \<Rightarrow> nat list" where
  "buf_addrs b = [b_addr b ..< b_addr b + b_size b]"

definition addrs :: "buf list \<Rightarrow> nat list" where
  "addrs bs = concat (map buf_addrs bs)"

definition gather :: "buf list \<Rightarrow> memory \<Rightarrow> u8 list" where
  "gather bs m = map m (addrs bs)"

fun store :: "nat list \<Rightarrow> u8 list \<Rightarrow> memory \<Rightarrow> memory" where
  "store (a # as) (x # xs) m = store as xs (m(a := x))"
| "store _ _ m = m"

lemma store_Nil [simp]: "store [] xs m = m" "store as [] m = m"
  by (cases xs; simp) (cases as; simp)

lemma store_append:
  "length as = length xs \<Longrightarrow> store (as @ bs) (xs @ ys) m = store bs ys (store as xs m)"
  by (induction as xs m rule: store.induct) auto

lemma store_take_addrs: "store (take (length xs) as) xs m = store as xs m"
  by (induction as xs m rule: store.induct) (auto simp: fun_upd_def)

lemma store_take_bytes: "length as \<le> k \<Longrightarrow> store as (take k xs) m = store as xs m"
proof (induction as xs m arbitrary: k rule: store.induct)
  case (1 a as x xs m)
  then show ?case by (cases k) (auto simp: fun_upd_def)
qed auto

lemma store_split:
  assumes "n \<le> length as" "n \<le> length xs"
  shows "store as xs m = store (drop n as) (drop n xs) (store (take n as) (take n xs) m)"
proof -
  have "store (take n as @ drop n as) (take n xs @ drop n xs) m =
    store (drop n as) (drop n xs) (store (take n as) (take n xs) m)"
    by (rule store_append) (use assms in simp)
  then show ?thesis by simp
qed

lemma store_other: "a \<notin> set as \<Longrightarrow> store as xs m a = m a"
  by (induction as xs m rule: store.induct) auto

lemma map_store_other: "set as \<inter> set bs = {} \<Longrightarrow> map (store as xs m) bs = map m bs"
  by (auto intro: store_other)

lemma store_nth:
  "distinct as \<Longrightarrow> i < length as \<Longrightarrow> i < length xs \<Longrightarrow> store as xs m (as ! i) = xs ! i"
proof (induction as xs m arbitrary: i rule: store.induct)
  case (1 a as x xs m)
  then show ?case by (cases i) (auto simp: store_other fun_upd_def)
qed auto

lemma gather_store: "distinct (addrs bs) \<Longrightarrow> length xs = length (addrs bs) \<Longrightarrow> gather bs (store (addrs bs) xs m) = xs"
  by (auto simp: gather_def list_eq_iff_nth_eq store_nth)

lemma length_buf_addrs [simp]: "length (buf_addrs b) = b_size b"
  by (simp add: buf_addrs_def)

lemma addrs_simps [simp]:
  "addrs [] = []" "addrs (b # bs) = buf_addrs b @ addrs bs" "addrs (bs @ cs) = addrs bs @ addrs cs"
  by (simp_all add: addrs_def)

lemma buffer_size_loop_eq: "buffer_size_loop bs n = n + length (addrs bs)"
  by (induction bs n rule: buffer_size_loop.induct) auto

lemma buffer_size_eq: "buffers_size bs = length (addrs bs)"
  by (simp add: buffers_size_def buffer_size_loop_eq)

lemma sum_sizes: "sum_list (map b_size bs) = length (addrs bs)"
  by (induction bs) auto

lemma buf_addrs_plus [simp]: "buf_addrs (buffer_plus b k) = drop k (buf_addrs b)"
  by (auto simp: buffer_plus_def buf_addrs_def null_buffer_def)

lemma buf_addrs_limit [simp]: "buf_addrs (buffer_limit b k) = take k (buf_addrs b)"
  by (auto simp: buffer_limit_def buf_addrs_def)

lemma buf_addrs_null [simp]: "buf_addrs null_buffer = []"
  by (simp add: null_buffer_def buf_addrs_def)

lemma b_size_simps [simp]:
  "b_size (buffer_plus b k) = b_size b - k" "b_size (buffer_limit b k) = min (b_size b) k" "b_size null_buffer = 0"
  by (auto simp: buffer_plus_def buffer_limit_def null_buffer_def min_def)

lemma memcpy_store: "memcpy d s n m = store [d ..< d + n] (map m [s ..< s + n]) m"
proof
  fix a
  show "memcpy d s n m a = store [d ..< d + n] (map m [s ..< s + n]) m a"
  proof (cases "d \<le> a \<and> a < d + n")
    case True
    then have "store [d ..< d + n] (map m [s ..< s + n]) m ([d ..< d + n] ! (a - d)) = map m [s ..< s + n] ! (a - d)"
      by (intro store_nth) auto
    moreover have "[d ..< d + n] ! (a - d) = a" "a - d < n" using True by auto
    ultimately show ?thesis using True by (simp add: memcpy_def)
  next
    case False
    then have "a \<notin> set [d ..< d + n]" by auto
    from store_other [OF this] False show ?thesis by (auto simp: memcpy_def)
  qed
qed

lemma buffer_copy_1_store:
  "buffer_copy_1 t s m =
     (min (b_size t) (b_size s), store (buf_addrs t) (map m (buf_addrs s)) m)"
proof -
  let ?n = "min (b_size t) (b_size s)"
  have "store (buf_addrs t) (map m (buf_addrs s)) m = store (take ?n (buf_addrs t)) (take ?n (map m (buf_addrs s))) m"
    using store_split [of ?n "buf_addrs t" "map m (buf_addrs s)" m]
    by (cases "b_size t \<le> b_size s") (auto simp: min_def)
  moreover have "take ?n (buf_addrs t) = [b_addr t ..< b_addr t + ?n]" "take ?n (buf_addrs s) = [b_addr s ..< b_addr s + ?n]"
    by (auto simp: buf_addrs_def take_upt)
  ultimately show ?thesis by (simp add: buffer_copy_1_eq memcpy_store take_map del: take_upt)
qed

subsection \<open>What copying does\<close>

definition off_ok :: "buf list \<Rightarrow> nat \<Rightarrow> bool" where
  "off_ok bs off \<longleftrightarrow> bs = [] \<or> off \<le> b_size (hd bs)"

lemma advance_seq_drop:
  assumes "advance_seq n (buffer_plus (hd bs) off) bs off = (bs', off')" "bs \<noteq> []" "off_ok bs off"
    "n \<le> b_size (hd bs) - off"
  shows "off_ok bs' off' \<and> drop off' (addrs bs') = drop n (drop off (addrs bs)) \<and> set (addrs bs') \<subseteq> set (addrs bs)"
  using assms by (cases bs) (auto simp: advance_seq_def off_ok_def add.commute split: if_splits)

lemma store_more:
  assumes "length as = length xs" "set (as @ bs) \<inter> set ys = {}"
  shows "store bs (map (store as xs m) ys) (store as xs m) = store (as @ bs) (xs @ map m ys) m"
  using assms by (simp add: store_append map_store_other Int_commute Int_Un_distrib)

lemma copy_step:
  assumes T: "T = A @ T'" and S: "S = B @ S'" and disj: "set T \<inter> set S = {}"
    and n: "n \<le> length A" "n \<le> length B"
  shows "store (drop n T) (map (store (take n A) (map m (take n B)) m) (drop n S)) (store (take n A) (map m (take n B)) m)
    = store T (map m S) m"
proof -
  have t: "take n T = take n A" "take n S = take n B" using T S n by auto
  have "set (take n A @ drop n T) \<subseteq> set T" by (metis t(1) append_take_drop_id subset_refl)
  moreover have "set (drop n S) \<subseteq> set S" by (rule set_drop_subset)
  ultimately have "set (take n A @ drop n T) \<inter> set (drop n S) = {}" using disj by blast
  from store_more [OF _ this, of "map m (take n B)" m] n
  have "store (drop n T) (map (store (take n A) (map m (take n B)) m) (drop n S)) (store (take n A) (map m (take n B)) m)
    = store (take n A @ drop n T) (map m (take n B) @ map m (drop n S)) m" by simp
  also have "\<dots> = store T (map m S) m" by (metis t append_take_drop_id map_append)
  finally show ?thesis .
qed

lemma copy_loop_spec:
  assumes "set (addrs ts) \<inter> set (addrs ss) = {}" "off_ok ts toff" "off_ok ss soff"
  shows "copy_loop ts toff ss soff copied m =
    (copied + min (length (drop toff (addrs ts))) (length (drop soff (addrs ss))),
     store (drop toff (addrs ts)) (map m (drop soff (addrs ss))) m)"
  using assms
proof (induction ts toff ss soff copied m rule: copy_loop.induct)
  case (1 ts toff ss soff copied m)
  show ?case
  proof (cases "ts \<noteq> [] \<and> ss \<noteq> []")
    case True
    then obtain t ts' s ss' where ts: "ts = t # ts'" and ss: "ss = s # ss'" by (auto simp: neq_Nil_conv)
    define A where "A = drop toff (buf_addrs t)"
    define B where "B = drop soff (buf_addrs s)"
    define n where "n = min (length A) (length B)"
    obtain ts2 toff2 where at: "advance_seq n (buffer_plus (hd ts) toff) ts toff = (ts2, toff2)" by fastforce
    obtain ss2 soff2 where as: "advance_seq n (buffer_plus (hd ss) soff) ss soff = (ss2, soff2)" by fastforce
    have cp: "buffer_copy_1 (buffer_plus (hd ts) toff) (buffer_plus (hd ss) soff) m = (n, store A (map m B) m)"
      by (simp add: buffer_copy_1_store n_def A_def B_def ts ss)
    have tl: "drop toff (addrs ts) = A @ addrs ts'" "drop soff (addrs ss) = B @ addrs ss'"
      using 1(3,4) by (simp_all add: ts ss A_def B_def off_ok_def)
    have nle: "n \<le> length A" "n \<le> length B" by (simp_all add: n_def)
    from advance_seq_drop [OF at _ 1(3)] nle have t2: "off_ok ts2 toff2"
      "drop toff2 (addrs ts2) = drop n (drop toff (addrs ts))" "set (addrs ts2) \<subseteq> set (addrs ts)"
      by (auto simp: ts A_def)
    from advance_seq_drop [OF as _ 1(4)] nle have s2: "off_ok ss2 soff2"
      "drop soff2 (addrs ss2) = drop n (drop soff (addrs ss))" "set (addrs ss2) \<subseteq> set (addrs ss)"
      by (auto simp: ss B_def)
    have disj: "set (addrs ts2) \<inter> set (addrs ss2) = {}" using 1(2) t2(3) s2(3) by blast
    have st: "store A (map m B) m = store (take n A) (map m (take n B)) m"
      using store_split [of n A "map m B" m] nle by (auto simp: n_def min_def take_map split: if_splits)
    have eq: "copy_loop ts toff ss soff copied m = copy_loop ts2 toff2 ss2 soff2 (copied + n) (store A (map m B) m)"
      using True by (subst copy_loop.simps) (simp add: cp at as)
    have "set (drop toff (addrs ts)) \<inter> set (drop soff (addrs ss)) = {}"
      using 1(2) set_drop_subset [of toff "addrs ts"] set_drop_subset [of soff "addrs ss"] by blast
    from copy_step [OF tl this nle, of m] have step: "store (drop n (drop toff (addrs ts)))
      (map (store A (map m B) m) (drop n (drop soff (addrs ss)))) (store A (map m B) m)
      = store (drop toff (addrs ts)) (map m (drop soff (addrs ss))) m" by (simp only: st)
    have "n \<le> length (drop toff (addrs ts))" "n \<le> length (drop soff (addrs ss))" using nle tl by simp_all
    then have len: "copied + n + min (length (drop n (drop toff (addrs ts)))) (length (drop n (drop soff (addrs ss)))) =
      copied + min (length (drop toff (addrs ts))) (length (drop soff (addrs ss)))"
      unfolding length_drop by linarith
    have "copy_loop ts2 toff2 ss2 soff2 (copied + n) (store A (map m B) m) =
      (copied + n + min (length (drop toff2 (addrs ts2))) (length (drop soff2 (addrs ss2))),
       store (drop toff2 (addrs ts2)) (map (store A (map m B) m) (drop soff2 (addrs ss2))) (store A (map m B) m))"
      by (rule 1(1) [OF True refl refl cp [symmetric] refl at [symmetric] refl as [symmetric] refl disj t2(1) s2(1)])
    then show ?thesis unfolding eq t2(2) s2(2) by (simp only: step len)
  next
    case False
    then show ?thesis by (subst copy_loop.simps) (auto simp: drop_Nil)
  qed
qed

lemma copy_max_loop_spec:
  assumes "set (addrs ts) \<inter> set (addrs ss) = {}" "off_ok ts toff" "off_ok ss soff"
  shows "copy_max_loop left ts toff ss soff copied m =
    (copied + min left (min (length (drop toff (addrs ts))) (length (drop soff (addrs ss)))),
     store (drop toff (addrs ts)) (map m (take left (drop soff (addrs ss)))) m)"
  using assms
proof (induction left ts toff ss soff copied m rule: copy_max_loop.induct)
  case (1 left ts toff ss soff copied m)
  show ?case
  proof (cases "left \<noteq> 0 \<and> ts \<noteq> [] \<and> ss \<noteq> []")
    case True
    then obtain t ts' s ss' where ts: "ts = t # ts'" and ss: "ss = s # ss'" by (auto simp: neq_Nil_conv)
    define A where "A = drop toff (buf_addrs t)"
    define B where "B = drop soff (buf_addrs s)"
    define n where "n = min (min (length A) left) (length B)"
    define T where "T = drop toff (addrs ts)"
    define S where "S = drop soff (addrs ss)"
    obtain ts2 toff2 where at: "advance_seq n (buffer_plus (hd ts) toff) ts toff = (ts2, toff2)" by fastforce
    obtain ss2 soff2 where as: "advance_seq n (buffer_plus (hd ss) soff) ss soff = (ss2, soff2)" by fastforce
    have cp: "buffer_copy_1_max (buffer_plus (hd ts) toff) (buffer_plus (hd ss) soff) left m =
        (n, store (take left A) (map m B) m)"
      by (simp add: buffer_copy_1_max_def buffer_copy_1_store n_def A_def B_def ts ss)
    have tl: "T = A @ addrs ts'" "S = B @ addrs ss'"
      using 1(3,4) by (simp_all add: ts ss A_def B_def T_def S_def off_ok_def)
    have nle: "n \<le> length A" "n \<le> length B" "n \<le> left" by (simp_all add: n_def)
    from advance_seq_drop [OF at _ 1(3)] nle have t2: "off_ok ts2 toff2"
      "drop toff2 (addrs ts2) = drop n T" "set (addrs ts2) \<subseteq> set (addrs ts)"
      by (auto simp: ts A_def T_def)
    from advance_seq_drop [OF as _ 1(4)] nle have s2: "off_ok ss2 soff2"
      "drop soff2 (addrs ss2) = drop n S" "set (addrs ss2) \<subseteq> set (addrs ss)"
      by (auto simp: ss B_def S_def)
    have disj: "set (addrs ts2) \<inter> set (addrs ss2) = {}" using 1(2) t2(3) s2(3) by blast
    have st: "store (take left A) (map m B) m = store (take n A) (map m (take n B)) m" (is "_ = ?m")
      using store_split [of n "take left A" "map m B" m] nle
      by (auto simp: n_def min_def take_map split: if_splits)
    have eq: "copy_max_loop left ts toff ss soff copied m = copy_max_loop (left - n) ts2 toff2 ss2 soff2 (copied + n) ?m"
      using True by (subst copy_max_loop.simps) (simp add: cp at as st)
    have "set T \<inter> set S = {}" unfolding T_def S_def
      using 1(2) set_drop_subset [of toff "addrs ts"] set_drop_subset [of soff "addrs ss"] by blast
    then have dj: "set T \<inter> set (take left S) = {}" using set_take_subset [of left S] by blast
    have tS: "take left S = take left B @ take (left - length B) (addrs ss')" by (simp add: tl)
    have nB: "take n (take left B) = take n B" "n \<le> length (take left B)" using nle by auto
    from copy_step [OF tl(1) tS dj nle(1) nB(2), of m]
    have step: "store (drop n T) (map ?m (take (left - n) (drop n S))) ?m = store T (map m (take left S)) m"
      by (simp only: nB drop_take)
    have "n \<le> length T" "n \<le> length S" using nle tl by simp_all
    then have len: "copied + n + min (left - n) (min (length (drop n T)) (length (drop n S))) =
      copied + min left (min (length T) (length S))" using nle(3) unfolding length_drop by linarith
    have "copy_max_loop (left - n) ts2 toff2 ss2 soff2 (copied + n) ?m =
      (copied + n + min (left - n) (min (length (drop toff2 (addrs ts2))) (length (drop soff2 (addrs ss2)))),
       store (drop toff2 (addrs ts2)) (map ?m (take (left - n) (drop soff2 (addrs ss2)))) ?m)"
      by (rule 1(1) [OF True refl refl cp [symmetric, unfolded st] refl at [symmetric] refl as [symmetric] refl disj t2(1) s2(1)])
    then show ?thesis unfolding eq t2(2) s2(2) T_def [symmetric] S_def [symmetric] by (simp only: step len)
  next
    case False
    then show ?thesis by (subst copy_max_loop.simps) (auto simp: drop_Nil)
  qed
qed

text \<open>The loops over one sequence do the same as the one over two.\<close>

lemma copy_into_one_spec:
  "buf_addrs t = as \<Longrightarrow> set as \<inter> set (addrs ss) = {} \<Longrightarrow>
   copy_into_one t ss copied m =
     (copied + min (length as) (length (addrs ss)), store as (map m (addrs ss)) m)"
proof (induction t ss copied m arbitrary: as rule: copy_into_one.induct)
  case (2 t s ss copied m)
  show ?case
  proof (cases "b_size t = 0")
    case True
    then have "as = []" using 2(2) by (simp add: buf_addrs_def)
    with True show ?thesis by simp
  next
    case False
    define n where "n = min (b_size t) (b_size s)"
    let ?m = "store as (map m (buf_addrs s)) m"
    have cp: "buffer_copy_1 t s m = (n, ?m)" by (simp add: buffer_copy_1_store n_def 2(2))
    have la: "length as = b_size t" using 2(2) by auto
    have dj: "set (drop n as) \<inter> set (addrs ss) = {}" using 2(3) set_drop_subset [of n as] by auto
    have "copy_into_one t (s # ss) copied m = copy_into_one (buffer_plus t n) ss (copied + n) ?m"
      using False by (simp add: cp)
    also have "\<dots> = (copied + n + min (length (drop n as)) (length (addrs ss)), store (drop n as) (map ?m (addrs ss)) ?m)"
      by (rule 2(1) [OF False cp [symmetric] refl _ dj]) (simp add: 2(2))
    also have "copied + n + min (length (drop n as)) (length (addrs ss)) = copied + min (length as) (length (addrs (s # ss)))"
      by (simp add: la n_def)
    also have "store (drop n as) (map ?m (addrs ss)) ?m = store as (map m (addrs (s # ss))) m"
    proof (cases "b_size s \<le> b_size t")
      case True
      then have n: "n = b_size s" by (simp add: n_def)
      have "as = take n as @ drop n as" by simp
      have "store as (map m (buf_addrs s)) m = store (take n as) (map m (buf_addrs s)) m"
        using store_take_addrs [of "map m (buf_addrs s)" as m] by (simp add: n)
      moreover have "set (take n as @ drop n as) \<inter> set (addrs ss) = {}" using 2(3) by auto
      ultimately show ?thesis
        using store_more [of "take n as" "map m (buf_addrs s)" "drop n as" "addrs ss" m] True la n by simp
    next
      case False
      then show ?thesis using store_take_bytes [of as "b_size s" "map m (buf_addrs s) @ map m (addrs ss)" m] la
        by (simp add: n_def)
    qed
    finally show ?thesis .
  qed
qed simp

lemma copy_from_one_spec:
  "buf_addrs s = bs \<Longrightarrow> set (addrs ts) \<inter> set bs = {} \<Longrightarrow>
   copy_from_one ts s copied m =
     (copied + min (length (addrs ts)) (length bs), store (addrs ts) (map m bs) m)"
proof (induction ts s copied m arbitrary: bs rule: copy_from_one.induct)
  case (2 t ts s copied m)
  show ?case
  proof (cases "b_size s = 0")
    case True
    then have "bs = []" using 2(2) by (simp add: buf_addrs_def)
    with True show ?thesis by simp
  next
    case False
    define n where "n = min (b_size t) (b_size s)"
    let ?m = "store (buf_addrs t) (map m bs) m"
    have cp: "buffer_copy_1 t s m = (n, ?m)" by (simp add: buffer_copy_1_store n_def 2(2))
    have lb: "length bs = b_size s" using 2(2) by auto
    have dj: "set (addrs ts) \<inter> set (drop n bs) = {}" using 2(3) set_drop_subset [of n bs] by auto
    have "copy_from_one (t # ts) s copied m = copy_from_one ts (buffer_plus s n) (copied + n) ?m"
      using False by (simp add: cp)
    also have "\<dots> = (copied + n + min (length (addrs ts)) (length (drop n bs)), store (addrs ts) (map ?m (drop n bs)) ?m)"
      by (rule 2(1) [OF False cp [symmetric] refl _ dj]) (simp add: 2(2))
    also have "copied + n + min (length (addrs ts)) (length (drop n bs)) = copied + min (length (addrs (t # ts))) (length bs)"
      by (simp add: lb n_def)
    also have "store (addrs ts) (map ?m (drop n bs)) ?m = store (addrs (t # ts)) (map m bs) m"
    proof (cases "b_size t \<le> b_size s")
      case True
      then have n: "n = b_size t" by (simp add: n_def)
      have "store (buf_addrs t) (map m bs) m = store (buf_addrs t) (map m (take n bs)) m"
        using store_take_bytes [of "buf_addrs t" n "map m bs" m] by (simp add: n take_map)
      moreover have "set (buf_addrs t @ addrs ts) \<inter> set (drop n bs) = {}"
        using 2(3) set_drop_subset [of n bs] by auto
      moreover have "map m (take n bs) @ map m (drop n bs) = map m bs"
        by (metis append_take_drop_id map_append)
      ultimately show ?thesis
        using store_more [of "buf_addrs t" "map m (take n bs)" "addrs ts" "drop n bs" m] True lb n by simp
    next
      case False
      then have "store (buf_addrs t @ addrs ts) (map m bs) m = store (buf_addrs t) (map m bs) m"
        using store_take_addrs [of "map m bs" "buf_addrs t @ addrs ts" m] store_take_addrs [of "map m bs" "buf_addrs t" m] lb
        by simp
      then show ?thesis using False lb by (simp add: n_def)
    qed
    finally show ?thesis .
  qed
qed simp

text \<open>
  Copying between buffer sequences that do not overlap moves the bytes in order, as many as the
  smaller side has and the limit allows, however the sequences are cut into buffers; the
  versions over one sequence agree with it.
\<close>

theorem buffer_copy_moves_bytes:
  assumes "set (addrs ts) \<inter> set (addrs ss) = {}"
  shows "buffer_copy ts ss m = (min (buffers_size ts) (buffers_size ss), store (addrs ts) (gather ss m) m) \<and>
    buffer_copy_max ts ss limit m =
      (min limit (min (buffers_size ts) (buffers_size ss)), store (addrs ts) (take limit (gather ss m)) m) \<and>
    (length ts = 1 \<longrightarrow> copy_into_one (hd ts) ss 0 m = buffer_copy ts ss m) \<and>
    (length ss = 1 \<longrightarrow> copy_from_one ts (hd ss) 0 m = buffer_copy ts ss m)"
proof -
  have a: "buffer_copy ts ss m = (min (buffers_size ts) (buffers_size ss), store (addrs ts) (gather ss m) m)"
    using copy_loop_spec [OF assms, of 0 0 0 m] by (simp add: buffer_copy_def off_ok_def buffer_size_eq gather_def)
  have b: "buffer_copy_max ts ss limit m =
      (min limit (min (buffers_size ts) (buffers_size ss)), store (addrs ts) (take limit (gather ss m)) m)"
    using copy_max_loop_spec [OF assms, of 0 0 limit 0 m]
    by (simp add: buffer_copy_max_def off_ok_def buffer_size_eq gather_def take_map)
  have c: "copy_into_one (hd ts) ss 0 m = buffer_copy ts ss m" if "length ts = 1"
    using that assms a copy_into_one_spec [of "hd ts" "addrs ts" ss 0 m]
    by (cases ts) (simp_all add: buffer_size_eq gather_def)
  have d: "copy_from_one ts (hd ss) 0 m = buffer_copy ts ss m" if "length ss = 1"
    using that assms a copy_from_one_spec [of "hd ss" "addrs ss" ts 0 m]
    by (cases ss) (simp_all add: buffer_size_eq gather_def)
  show ?thesis using a b c d by blast
qed

theorem buffer_copy_moves_bytes_witness:
  "fst (buffer_copy [\<lparr>b_addr = 0, b_size = 2\<rparr>, \<lparr>b_addr = 10, b_size = 3\<rparr>] [\<lparr>b_addr = 20, b_size = 4\<rparr>] (\<lambda>a. of_nat a)) = 4 \<and>
   snd (buffer_copy [\<lparr>b_addr = 0, b_size = 2\<rparr>, \<lparr>b_addr = 10, b_size = 3\<rparr>] [\<lparr>b_addr = 20, b_size = 4\<rparr>] (\<lambda>a. of_nat a)) 11 = 23"
  using buffer_copy_moves_bytes [of "[\<lparr>b_addr = 0, b_size = 2\<rparr>, \<lparr>b_addr = 10, b_size = 3\<rparr>]" "[\<lparr>b_addr = 20, b_size = 4\<rparr>]"
      "\<lambda>a. of_nat a" 0]
  by (simp add: buf_addrs_def buffer_size_eq gather_def upt_rec numeral_2_eq_2 fun_upd_def)

end
