(* ===== verification/ConsumingBuffers.thy ===== *)
theory ConsumingBuffers
  imports Buffers
begin

text \<open>
  \<^verbatim>\<open>detail/consuming_buffers.hpp\<close>: the part of a buffer sequence that is still to be
  transferred, limited to a size for the next transfer, and its iterator. An iterator into the
  underlying sequence is the list of the buffers from there on; two of them into one sequence are equal
  when the lists have the same length. The specialisation for \<^verbatim>\<open>null_buffers\<close> does nothing.
\<close>

subsection \<open>The sequence and its iterator\<close>

definition size_t_max :: nat where
  "size_t_max = 2 ^ 64 - 1"

record consuming =
  cb_at_end :: bool
  cb_first :: buf
  cb_rest :: "buf list"
  cb_max :: nat

record cb_iterator =
  it_at_end :: bool
  it_first :: buf
  it_rest :: "buf list"
  it_offset :: nat
  it_max :: nat

definition cb_new :: "buf list \<Rightarrow> consuming" where
  "cb_new bs = (case bs of
     [] \<Rightarrow> \<lparr>cb_at_end = True, cb_first = null_buffer, cb_rest = [], cb_max = size_t_max\<rparr>
   | b # r \<Rightarrow> \<lparr>cb_at_end = False, cb_first = b, cb_rest = r, cb_max = size_t_max\<rparr>)"

definition it_new :: "bool \<Rightarrow> buf \<Rightarrow> buf list \<Rightarrow> nat \<Rightarrow> cb_iterator" where
  "it_new at_end first rest max_size =
     \<lparr>it_at_end = (if max_size > 0 then at_end else True), it_first = buffer_limit first max_size,
      it_rest = rest, it_offset = 0, it_max = max_size\<rparr>"

definition it_end :: cb_iterator where
  "it_end = \<lparr>it_at_end = True, it_first = null_buffer, it_rest = [], it_offset = 0, it_max = 0\<rparr>"

definition it_next :: "cb_iterator \<Rightarrow> cb_iterator" where
  "it_next it =
     (if it_at_end it then it
      else if it_rest it = [] \<or> it_offset it + b_size (it_first it) \<ge> it_max it then it\<lparr>it_at_end := True\<rparr>
      else let off = it_offset it + b_size (it_first it) in
           it\<lparr>it_offset := off, it_first := buffer_limit (hd (it_rest it)) (it_max it - off),
              it_rest := tl (it_rest it)\<rparr>)"

definition it_equal :: "cb_iterator \<Rightarrow> cb_iterator \<Rightarrow> bool" where
  "it_equal a b \<longleftrightarrow>
     (if it_at_end a \<and> it_at_end b then True
      else \<not> it_at_end a \<and> \<not> it_at_end b \<and> b_addr (it_first a) = b_addr (it_first b)
        \<and> b_size (it_first a) = b_size (it_first b) \<and> length (it_rest a) = length (it_rest b))"

definition cb_begin :: "consuming \<Rightarrow> cb_iterator" where
  "cb_begin cb = it_new (cb_at_end cb) (cb_first cb) (cb_rest cb) (cb_max cb)"

definition cb_prepare :: "nat \<Rightarrow> consuming \<Rightarrow> consuming" where
  "cb_prepare max_size cb = cb\<lparr>cb_max := max_size\<rparr>"

text \<open>\<^verbatim>\<open>consume\<close>: whole buffers from the front, part of one, and then the empty ones that follow.\<close>

definition cb_next :: "consuming \<Rightarrow> consuming" where
  "cb_next cb = (case cb_rest cb of
     [] \<Rightarrow> cb\<lparr>cb_at_end := True\<rparr>
   | b # r \<Rightarrow> cb\<lparr>cb_first := b, cb_rest := r\<rparr>)"

function consume_loop :: "nat \<Rightarrow> consuming \<Rightarrow> consuming" where
  "consume_loop n cb =
     (if n > 0 \<and> \<not> cb_at_end cb then
        if b_size (cb_first cb) \<le> n then consume_loop (n - b_size (cb_first cb)) (cb_next cb)
        else consume_loop 0 (cb\<lparr>cb_first := buffer_plus (cb_first cb) n\<rparr>)
      else cb)"
  by pat_completeness auto
termination
  by (relation "measures [\<lambda>(_, cb). if cb_at_end cb then 0 else Suc (length (cb_rest cb)), fst]")
    (auto simp: cb_next_def split: list.splits)

function drop_empty :: "consuming \<Rightarrow> consuming" where
  "drop_empty cb =
     (if \<not> cb_at_end cb \<and> b_size (cb_first cb) = 0 then drop_empty (cb_next cb) else cb)"
  by pat_completeness auto
termination
  by (relation "measure (\<lambda>cb. if cb_at_end cb then 0 else Suc (length (cb_rest cb)))")
    (auto simp: cb_next_def split: list.splits)

declare consume_loop.simps [simp del] drop_empty.simps [simp del]

definition cb_consume :: "nat \<Rightarrow> consuming \<Rightarrow> consuming" where
  "cb_consume n cb = drop_empty (consume_loop n cb)"

text \<open>The buffers a traversal from an iterator to the end meets.\<close>

function it_list :: "cb_iterator \<Rightarrow> buf list" where
  "it_list it = (if it_equal it it_end then [] else it_first it # it_list (it_next it))"
  by pat_completeness auto
termination
  by (relation "measure (\<lambda>it. if it_at_end it then 0 else Suc (length (it_rest it)))")
    (auto simp: it_next_def it_equal_def it_end_def Let_def neq_Nil_conv split: if_splits)

declare it_list.simps [simp del]

definition cb_buffers :: "consuming \<Rightarrow> buf list" where
  "cb_buffers cb = it_list (cb_begin cb)"

subsection \<open>The bytes left\<close>

definition cb_left :: "consuming \<Rightarrow> nat list" where
  "cb_left cb = (if cb_at_end cb then [] else buf_addrs (cb_first cb) @ addrs (cb_rest cb))"

definition cb_done :: "consuming \<Rightarrow> bool" where
  "cb_done cb \<longleftrightarrow> it_equal (cb_begin cb) it_end"

lemma it_equal_end [simp]: "it_equal it it_end \<longleftrightarrow> it_at_end it"
  by (simp add: it_equal_def it_end_def)

lemma cb_done_iff: "cb_done cb \<longleftrightarrow> cb_at_end cb \<or> cb_max cb = 0"
  by (auto simp: cb_done_def cb_begin_def it_new_def)

lemma cb_left_new: "cb_left (cb_new bs) = addrs bs" "cb_max (cb_new bs) = size_t_max"
  by (cases bs; simp add: cb_new_def cb_left_def)+

lemma cb_prepare_simps [simp]:
  "cb_left (cb_prepare k cb) = cb_left cb" "cb_max (cb_prepare k cb) = k" "cb_at_end (cb_prepare k cb) = cb_at_end cb"
  by (simp_all add: cb_prepare_def cb_left_def)

lemma cb_left_next: "\<not> cb_at_end cb \<Longrightarrow> cb_left (cb_next cb) = drop (b_size (cb_first cb)) (cb_left cb)"
  by (simp add: cb_next_def cb_left_def split: list.splits)

lemma cb_max_next [simp]: "cb_max (cb_next cb) = cb_max cb"
  by (simp add: cb_next_def split: list.splits)

lemma consume_loop_left: "cb_left (consume_loop n cb) = drop n (cb_left cb) \<and> cb_max (consume_loop n cb) = cb_max cb"
proof (induction n cb rule: consume_loop.induct)
  case (1 n cb)
  have "cb_left cb = []" if "cb_at_end cb" using that by (simp add: cb_left_def)
  moreover have "consume_loop 0 cb = cb" for cb by (simp add: consume_loop.simps)
  ultimately show ?case
    using 1 by (subst (1 2) consume_loop.simps) (auto simp: cb_left_next drop_drop, simp add: cb_left_def)
qed

lemma drop_empty_left:
  "cb_left (drop_empty cb) = cb_left cb \<and> cb_max (drop_empty cb) = cb_max cb \<and>
   (cb_at_end (drop_empty cb) \<longleftrightarrow> cb_left (drop_empty cb) = [])"
proof (induction cb rule: drop_empty.induct)
  case (1 cb)
  show ?case
  proof (cases "\<not> cb_at_end cb \<and> b_size (cb_first cb) = 0")
    case True
    with 1 show ?thesis by (subst (1 2 3 4) drop_empty.simps) (simp add: cb_left_next)
  next
    case False
    then have "drop_empty cb = cb" by (subst drop_empty.simps) auto
    moreover have "cb_at_end cb \<longleftrightarrow> cb_left cb = []"
      using False length_buf_addrs [of "cb_first cb"] by (auto simp: cb_left_def simp del: length_buf_addrs)
    ultimately show ?thesis by simp
  qed
qed

lemma cb_consume_left:
  "cb_left (cb_consume n cb) = drop n (cb_left cb)" "cb_max (cb_consume n cb) = cb_max cb"
  "cb_at_end (cb_consume n cb) \<longleftrightarrow> drop n (cb_left cb) = []"
  using consume_loop_left [of n cb] drop_empty_left [of "consume_loop n cb"] by (auto simp: cb_consume_def)

text \<open>A traversal covers the bytes left, up to the limit.\<close>

lemma it_list_addrs:
  "it_at_end it \<or> b_size (it_first it) \<le> it_max it - it_offset it \<Longrightarrow>
   it_offset it \<le> it_max it \<Longrightarrow>
   addrs (it_list it) =
     (if it_at_end it then []
      else buf_addrs (it_first it) @ take (it_max it - it_offset it - b_size (it_first it)) (addrs (it_rest it)))"
proof (induction it rule: it_list.induct)
  case (1 it)
  show ?case
  proof (cases "it_at_end it")
    case True
    then show ?thesis by (simp add: it_list.simps)
  next
    case False
    have eq: "it_list it = it_first it # it_list (it_next it)" using False by (subst it_list.simps) simp
    show ?thesis
    proof (cases "it_rest it = [] \<or> it_offset it + b_size (it_first it) \<ge> it_max it")
      case True
      then have "it_at_end (it_next it)" using False by (simp add: it_next_def)
      then have "it_list (it_next it) = []" by (simp add: it_list.simps)
      with True False show ?thesis unfolding eq by auto
    next
      case rest: False
      then obtain b r where r: "it_rest it = b # r" by (auto simp: neq_Nil_conv)
      have IH: "addrs (it_list (it_next it)) = buf_addrs (it_first (it_next it)) @
          take (it_max (it_next it) - it_offset (it_next it) - b_size (it_first (it_next it))) (addrs (it_rest (it_next it)))"
        using 1(1) False rest r by (simp add: it_next_def Let_def)
      then show ?thesis unfolding eq using False rest r by (simp add: it_next_def Let_def min_def)
    qed
  qed
qed

lemma addrs_cb_buffers: "addrs (cb_buffers cb) = take (cb_max cb) (cb_left cb)"
proof -
  have "addrs (it_list (cb_begin cb)) = (if it_at_end (cb_begin cb) then []
      else buf_addrs (it_first (cb_begin cb)) @
        take (it_max (cb_begin cb) - it_offset (cb_begin cb) - b_size (it_first (cb_begin cb))) (addrs (it_rest (cb_begin cb))))"
    by (rule it_list_addrs) (auto simp: cb_begin_def it_new_def)
  then show ?thesis
    by (simp add: cb_buffers_def cb_begin_def it_new_def cb_left_def min_def)
qed

text \<open>
  The part of a sequence still to be transferred behaves like its list of bytes: after any number of
  transfers what is left is the sequence without the bytes consumed, what is offered next is its
  beginning up to the limit, and it compares as empty exactly when nothing is left or the limit is zero.
\<close>

theorem consuming_buffers_drop:
  "addrs (cb_buffers (cb_prepare k (foldl (\<lambda>cb n. cb_consume n cb) (cb_new bs) ns))) =
     take k (drop (sum_list ns) (addrs bs)) \<and>
   (ns = [] \<or> cb_done (cb_prepare k (foldl (\<lambda>cb n. cb_consume n cb) (cb_new bs) ns)) =
     (k = 0 \<or> drop (sum_list ns) (addrs bs) = []))"
proof -
  let ?cb = "\<lambda>ns. foldl (\<lambda>cb n. cb_consume n cb) (cb_new bs) ns"
  have l: "cb_left (?cb ns) = drop (sum_list ns) (addrs bs)" for ns
  proof (induction ns rule: rev_induct)
    case (snoc n ns)
    then show ?case by (simp add: cb_consume_left(1) add.commute)
  qed (simp add: cb_left_new)
  have "cb_at_end (?cb ns) \<longleftrightarrow> drop (sum_list ns) (addrs bs) = []" if "ns \<noteq> []" for ns
  proof -
    from that obtain n ns' where "ns = ns' @ [n]" by (metis rev_exhaust)
    then show ?thesis by (simp add: cb_consume_left(3) l add.commute)
  qed
  with l show ?thesis by (auto simp: addrs_cb_buffers cb_done_iff)
qed

end
