(* ===== verification/ReadWrite.thy ===== *)
theory ReadWrite
  imports ConsumingBuffers
begin

text \<open>
  Composed reads and writes over buffer sequences (\<^verbatim>\<open>impl/read.hpp\<close>, \<^verbatim>\<open>impl/write.hpp\<close>,
  \<^verbatim>\<open>impl/read_at.hpp\<close>, \<^verbatim>\<open>impl/write_at.hpp\<close>) and the conditions that end them
  (\<^verbatim>\<open>completion_condition.hpp\<close>). The stream is a parameter: one transfer takes the buffers, and the
  number of bytes transferred before (a random access device adds it to its offset), and changes a
  state \<open>'w\<close> that contains memory; its result is the number of bytes and the error code. The four
  synchronous loops differ in the name of that operation only, and so do the four asynchronous
  operations, which are state machines resumed by each completion. A completion condition is a
  function of the error code and the bytes so far. A loop that never ends is \<open>None\<close>.
\<close>

subsection \<open>Completion conditions\<close>

type_synonym condition = "error_code \<Rightarrow> nat \<Rightarrow> nat"

definition default_max_transfer_size :: nat where
  "default_max_transfer_size = 65536"

definition adapt_condition :: "(error_code \<Rightarrow> nat \<Rightarrow> bool) \<Rightarrow> condition" where
  "adapt_condition cond = (\<lambda>err n. if cond err n then 0 else default_max_transfer_size)"

definition transfer_all :: condition where
  "transfer_all err n = (if is_error err then 0 else default_max_transfer_size)"

definition transfer_at_least :: "nat \<Rightarrow> condition" where
  "transfer_at_least minimum err n =
     (if is_error err \<or> n \<ge> minimum then 0 else default_max_transfer_size)"

definition transfer_exactly :: "nat \<Rightarrow> condition" where
  "transfer_exactly k err n =
     (if is_error err \<or> n \<ge> k then 0
      else if k - n < default_max_transfer_size then k - n else default_max_transfer_size)"

subsection \<open>Synchronous transfers\<close>

type_synonym 'w transfer = "nat \<Rightarrow> buf list \<Rightarrow> 'w \<Rightarrow> nat \<times> error_code \<times> 'w"

partial_function (option) io_loop ::
    "'w transfer \<Rightarrow> condition \<Rightarrow> consuming \<Rightarrow> error_code \<Rightarrow> nat \<Rightarrow> 'w \<Rightarrow> (nat \<times> error_code \<times> 'w) option" where
  "io_loop io cc tmp ec total_transferred w =
     (if it_equal (cb_begin tmp) it_end then Some (total_transferred, ec, w)
      else case io total_transferred (cb_buffers tmp) w of (n, ec, w) \<Rightarrow>
        io_loop io cc (cb_prepare (cc ec (total_transferred + n)) (cb_consume n tmp)) ec (total_transferred + n) w)"

definition io_sync :: "'w transfer \<Rightarrow> condition \<Rightarrow> buf list \<Rightarrow> 'w \<Rightarrow> (nat \<times> error_code \<times> 'w) option" where
  "io_sync io cc bs w = io_loop io cc (cb_prepare (cc no_error 0) (cb_new bs)) no_error 0 w"

definition read_sync ::
    "(buf list \<Rightarrow> 'w \<Rightarrow> nat \<times> error_code \<times> 'w) \<Rightarrow> buf list \<Rightarrow> condition \<Rightarrow> 'w \<Rightarrow> (nat \<times> error_code \<times> 'w) option" where
  "read_sync read_some bs cc w = io_sync (\<lambda>_. read_some) cc bs w"

definition write_sync ::
    "(buf list \<Rightarrow> 'w \<Rightarrow> nat \<times> error_code \<times> 'w) \<Rightarrow> buf list \<Rightarrow> condition \<Rightarrow> 'w \<Rightarrow> (nat \<times> error_code \<times> 'w) option" where
  "write_sync write_some bs cc w = io_sync (\<lambda>_. write_some) cc bs w"

definition read_at_sync ::
    "(64 word \<Rightarrow> buf list \<Rightarrow> 'w \<Rightarrow> nat \<times> error_code \<times> 'w) \<Rightarrow> 64 word \<Rightarrow> buf list \<Rightarrow> condition \<Rightarrow> 'w \<Rightarrow>
     (nat \<times> error_code \<times> 'w) option" where
  "read_at_sync read_some_at offset bs cc w = io_sync (\<lambda>n. read_some_at (offset + of_nat n)) cc bs w"

definition write_at_sync ::
    "(64 word \<Rightarrow> buf list \<Rightarrow> 'w \<Rightarrow> nat \<times> error_code \<times> 'w) \<Rightarrow> 64 word \<Rightarrow> buf list \<Rightarrow> condition \<Rightarrow> 'w \<Rightarrow>
     (nat \<times> error_code \<times> 'w) option" where
  "write_at_sync write_some_at offset bs cc w = io_sync (\<lambda>n. write_some_at (offset + of_nat n)) cc bs w"

text \<open>The versions without a condition transfer all, those without an error code throw it.\<close>

definition throwing :: "(nat \<times> error_code \<times> 'w) option \<Rightarrow> (exn + nat \<times> 'w) option" where
  "throwing r = map_option (\<lambda>(n, ec, w). case throw_error ec of Inl e \<Rightarrow> Inl e | Inr _ \<Rightarrow> Inr (n, w)) r"

definition read_all where "read_all read_some bs w = read_sync read_some bs transfer_all w"

definition read_all_throw where "read_all_throw read_some bs w = throwing (read_sync read_some bs transfer_all w)"

definition read_throw where "read_throw read_some bs cc w = throwing (read_sync read_some bs cc w)"

definition write_all where "write_all write_some bs w = write_sync write_some bs transfer_all w"

definition write_all_throw where "write_all_throw write_some bs w = throwing (write_sync write_some bs transfer_all w)"

definition write_throw where "write_throw write_some bs cc w = throwing (write_sync write_some bs cc w)"

definition read_at_all where
  "read_at_all read_some_at offset bs w = read_at_sync read_some_at offset bs transfer_all w"

definition read_at_all_throw where
  "read_at_all_throw read_some_at offset bs w = throwing (read_at_sync read_some_at offset bs transfer_all w)"

definition read_at_throw where
  "read_at_throw read_some_at offset bs cc w = throwing (read_at_sync read_some_at offset bs cc w)"

definition write_at_all where
  "write_at_all write_some_at offset bs w = write_at_sync write_some_at offset bs transfer_all w"

definition write_at_all_throw where
  "write_at_all_throw write_some_at offset bs w = throwing (write_at_sync write_some_at offset bs transfer_all w)"

definition write_at_throw where
  "write_at_throw write_some_at offset bs cc w = throwing (write_at_sync write_some_at offset bs cc w)"

subsection \<open>Asynchronous transfers\<close>

text \<open>
  An operation is started once and resumed by each completion. It then either starts another
  transfer (with the bytes so far, the buffers, and itself as the handler), or calls the user's
  handler.
\<close>

datatype 'op next_step = Async nat "buf list" 'op | Handler error_code nat

record rw_op =
  op_buffers :: consuming
  op_total :: nat

definition rw_start :: "condition \<Rightarrow> buf list \<Rightarrow> rw_op next_step" where
  "rw_start cc bs =
     (let b = cb_prepare (cc no_error 0) (cb_new bs) in
      Async 0 (cb_buffers b) \<lparr>op_buffers = b, op_total = 0\<rparr>)"

definition rw_resume :: "condition \<Rightarrow> rw_op \<Rightarrow> error_code \<Rightarrow> nat \<Rightarrow> rw_op next_step" where
  "rw_resume cc op ec n =
     (let t = op_total op + n;
          b = cb_prepare (cc ec t) (cb_consume n (op_buffers op)) in
      if (\<not> is_error ec \<and> n = 0) \<or> it_equal (cb_begin b) it_end then Handler ec t
      else Async t (cb_buffers b) \<lparr>op_buffers = b, op_total = t\<rparr>)"

text \<open>The specialisation for a single buffer.\<close>

record rw1_op =
  op1_buffer :: buf
  op1_total :: nat

definition rw1_start :: "condition \<Rightarrow> buf \<Rightarrow> rw1_op next_step" where
  "rw1_start cc b =
     Async 0 [buffer_limit (buffer_plus b 0) (cc no_error 0)] \<lparr>op1_buffer = b, op1_total = 0\<rparr>"

definition rw1_resume :: "condition \<Rightarrow> rw1_op \<Rightarrow> error_code \<Rightarrow> nat \<Rightarrow> rw1_op next_step" where
  "rw1_resume cc op ec bytes =
     (let t = op1_total op + bytes; n = cc ec t in
      if (\<not> is_error ec \<and> bytes = 0) \<or> n = 0 \<or> t = b_size (op1_buffer op) then Handler ec t
      else Async t [buffer_limit (buffer_plus (op1_buffer op) t) n] (op\<lparr>op1_total := t\<rparr>))"

text \<open>The specialisation for an array of two buffers.\<close>

record rw2_op =
  op2_buffers :: "buf \<times> buf"
  op2_total :: nat

definition two_buffers :: "buf \<times> buf \<Rightarrow> nat \<Rightarrow> nat \<Rightarrow> buf list" where
  "two_buffers bs t n =
     (let b0 = buffer_limit (buffer_plus (fst bs) t) n;
          b1 = buffer_limit (buffer_plus (snd bs) (if t < b_size (fst bs) then 0 else t - b_size (fst bs)))
                 (n - b_size b0) in
      [b0, b1])"

definition rw2_start :: "condition \<Rightarrow> buf \<times> buf \<Rightarrow> rw2_op next_step" where
  "rw2_start cc bs = Async 0 (two_buffers bs 0 (cc no_error 0)) \<lparr>op2_buffers = bs, op2_total = 0\<rparr>"

definition rw2_resume :: "condition \<Rightarrow> rw2_op \<Rightarrow> error_code \<Rightarrow> nat \<Rightarrow> rw2_op next_step" where
  "rw2_resume cc op ec bytes =
     (let t = op2_total op + bytes; n = cc ec t in
      if (\<not> is_error ec \<and> bytes = 0) \<or> n = 0 \<or>
         t = b_size (fst (op2_buffers op)) + b_size (snd (op2_buffers op)) then Handler ec t
      else Async t (two_buffers (op2_buffers op) t n) (op\<lparr>op2_total := t\<rparr>))"

text \<open>An operation on a stream: each transfer it starts completes with what the stream does.\<close>

partial_function (option) op_loop ::
    "'w transfer \<Rightarrow> ('op \<Rightarrow> error_code \<Rightarrow> nat \<Rightarrow> 'op next_step) \<Rightarrow> 'op next_step \<Rightarrow> 'w \<Rightarrow> (nat \<times> error_code \<times> 'w) option" where
  "op_loop io resume st w =
     (case st of
        Handler ec n \<Rightarrow> Some (n, ec, w)
      | Async t bs op \<Rightarrow> (case io t bs w of (n, ec, w) \<Rightarrow> op_loop io resume (resume op ec n) w))"

definition async_read ::
    "(buf list \<Rightarrow> 'w \<Rightarrow> nat \<times> error_code \<times> 'w) \<Rightarrow> buf list \<Rightarrow> condition \<Rightarrow> 'w \<Rightarrow> (nat \<times> error_code \<times> 'w) option" where
  "async_read read_some bs cc w = op_loop (\<lambda>_. read_some) (rw_resume cc) (rw_start cc bs) w"

definition async_write ::
    "(buf list \<Rightarrow> 'w \<Rightarrow> nat \<times> error_code \<times> 'w) \<Rightarrow> buf list \<Rightarrow> condition \<Rightarrow> 'w \<Rightarrow> (nat \<times> error_code \<times> 'w) option" where
  "async_write write_some bs cc w = op_loop (\<lambda>_. write_some) (rw_resume cc) (rw_start cc bs) w"

definition async_read_at ::
    "(64 word \<Rightarrow> buf list \<Rightarrow> 'w \<Rightarrow> nat \<times> error_code \<times> 'w) \<Rightarrow> 64 word \<Rightarrow> buf list \<Rightarrow> condition \<Rightarrow> 'w \<Rightarrow>
     (nat \<times> error_code \<times> 'w) option" where
  "async_read_at read_some_at offset bs cc w =
     op_loop (\<lambda>n. read_some_at (offset + of_nat n)) (rw_resume cc) (rw_start cc bs) w"

definition async_write_at ::
    "(64 word \<Rightarrow> buf list \<Rightarrow> 'w \<Rightarrow> nat \<times> error_code \<times> 'w) \<Rightarrow> 64 word \<Rightarrow> buf list \<Rightarrow> condition \<Rightarrow> 'w \<Rightarrow>
     (nat \<times> error_code \<times> 'w) option" where
  "async_write_at write_some_at offset bs cc w =
     op_loop (\<lambda>n. write_some_at (offset + of_nat n)) (rw_resume cc) (rw_start cc bs) w"

text \<open>The specialised operations of the four templates.\<close>

definition async_read_1 where
  "async_read_1 read_some b cc w = op_loop (\<lambda>_. read_some) (rw1_resume cc) (rw1_start cc b) w"

definition async_write_1 where
  "async_write_1 write_some b cc w = op_loop (\<lambda>_. write_some) (rw1_resume cc) (rw1_start cc b) w"

definition async_read_at_1 where
  "async_read_at_1 read_some_at offset b cc w =
     op_loop (\<lambda>n. read_some_at (offset + of_nat n :: 64 word)) (rw1_resume cc) (rw1_start cc b) w"

definition async_write_at_1 where
  "async_write_at_1 write_some_at offset b cc w =
     op_loop (\<lambda>n. write_some_at (offset + of_nat n :: 64 word)) (rw1_resume cc) (rw1_start cc b) w"

definition async_read_2 where
  "async_read_2 read_some bs cc w = op_loop (\<lambda>_. read_some) (rw2_resume cc) (rw2_start cc bs) w"

definition async_write_2 where
  "async_write_2 write_some bs cc w = op_loop (\<lambda>_. write_some) (rw2_resume cc) (rw2_start cc bs) w"

definition async_read_at_2 where
  "async_read_at_2 read_some_at offset bs cc w =
     op_loop (\<lambda>n. read_some_at (offset + of_nat n :: 64 word)) (rw2_resume cc) (rw2_start cc bs) w"

definition async_write_at_2 where
  "async_write_at_2 write_some_at offset bs cc w =
     op_loop (\<lambda>n. write_some_at (offset + of_nat n :: 64 word)) (rw2_resume cc) (rw2_start cc bs) w"

end
