(* ===== verification/Streambuf.thy ===== *)
theory Streambuf
  imports ReadWrite
begin

text \<open>
  \<^verbatim>\<open>basic_streambuf.hpp\<close>: a character array whose filled part is the input sequence and whose free
  part is the output sequence. The pointers of \<^verbatim>\<open>std::streambuf\<close> are offsets into the array. An
  operation that throws leaves the state it has reached. Allocation does not fail; the array grows
  as \<^verbatim>\<open>std::vector\<close> of libstdc++ does, to twice its size or what is needed, and new characters are
  zero. \<^verbatim>\<open>pbump\<close> and \<^verbatim>\<open>gbump\<close> take an \<^verbatim>\<open>int\<close>, so a distance is cut to 32 bits.
\<close>

subsection \<open>State\<close>

record streambuf =
  sb_max_size :: nat
  sb_chars :: "u8 list"
  sb_capacity :: nat
  g_back :: nat
  g_next :: nat
  g_end :: nat
  p_base :: nat
  p_next :: nat
  p_end :: nat

definition setg :: "nat \<Rightarrow> nat \<Rightarrow> nat \<Rightarrow> streambuf \<Rightarrow> streambuf" where
  "setg b n e sb = sb\<lparr>g_back := b, g_next := n, g_end := e\<rparr>"

definition setp :: "nat \<Rightarrow> nat \<Rightarrow> streambuf \<Rightarrow> streambuf" where
  "setp b e sb = sb\<lparr>p_base := b, p_next := b, p_end := e\<rparr>"

definition bump :: "nat \<Rightarrow> nat \<Rightarrow> nat" where
  "bump pos n = nat (int pos + sint (word_of_nat n :: 32 word))"

definition buffer_delta :: nat where "buffer_delta = 128"

definition resize_chars :: "nat \<Rightarrow> streambuf \<Rightarrow> streambuf" where
  "resize_chars n sb = sb\<lparr>sb_chars := take n (sb_chars sb) @ replicate (n - length (sb_chars sb)) 0,
     sb_capacity := (if n \<le> sb_capacity sb then sb_capacity sb else max (2 * length (sb_chars sb)) n)\<rparr>"

definition new_streambuf :: "nat \<Rightarrow> streambuf" where
  "new_streambuf maximum_size =
     (let e = min maximum_size buffer_delta;
          sb = resize_chars (max e 1) \<lparr>sb_max_size = maximum_size, sb_chars = [], sb_capacity = 0,
                 g_back = 0, g_next = 0, g_end = 0, p_base = 0, p_next = 0, p_end = 0\<rparr> in
      setp 0 e (setg 0 0 0 sb))"

definition sb_size :: "streambuf \<Rightarrow> nat" where
  "sb_size sb = p_next sb - g_next sb"

text \<open>The input sequence, which is also what \<^verbatim>\<open>data()\<close> describes.\<close>

definition sb_data :: "streambuf \<Rightarrow> u8 list" where
  "sb_data sb = take (p_next sb - g_next sb) (drop (g_next sb) (sb_chars sb))"

subsection \<open>Operations\<close>

definition sb_reserve :: "nat \<Rightarrow> streambuf \<Rightarrow> exn option \<times> streambuf" where
  "sb_reserve n sb =
     (let gnext = g_next sb; pnext = p_next sb; pend = p_end sb in
      if n \<le> pend - pnext then (None, sb)
      else
        let (pnext, sb) =
              (if gnext > 0
               then (pnext - gnext, sb\<lparr>sb_chars := take (pnext - gnext) (drop gnext (sb_chars sb))
                                        @ drop (pnext - gnext) (sb_chars sb)\<rparr>)
               else (pnext, sb)) in
        if n > pend - pnext then
          if n \<le> sb_max_size sb \<and> pnext \<le> sb_max_size sb - n
          then let pend = pnext + n in (None, setp pnext pend (setg 0 0 pnext (resize_chars (max pend 1) sb)))
          else (Some Length_error, sb)
        else (None, setp pnext pend (setg 0 0 pnext sb)))"

text \<open>\<^verbatim>\<open>prepare\<close> returns the first \<open>n\<close> characters of the output sequence, that is the offset \<^verbatim>\<open>pptr()\<close>.\<close>

definition sb_prepare :: "nat \<Rightarrow> streambuf \<Rightarrow> (exn + nat \<times> nat) \<times> streambuf" where
  "sb_prepare n sb = (case sb_reserve n sb of
     (None, sb) \<Rightarrow> (Inr (p_next sb, n), sb)
   | (Some e, sb) \<Rightarrow> (Inl e, sb))"

definition sb_commit :: "nat \<Rightarrow> streambuf \<Rightarrow> streambuf" where
  "sb_commit n sb =
     (let n = (if p_next sb + n > p_end sb then p_end sb - p_next sb else n);
          sb = sb\<lparr>p_next := bump (p_next sb) n\<rparr> in
      setg (g_back sb) (g_next sb) (p_next sb) sb)"

definition sb_consume :: "nat \<Rightarrow> streambuf \<Rightarrow> streambuf" where
  "sb_consume n sb =
     (let sb = (if g_end sb < p_next sb then setg 0 (g_next sb) (p_next sb) sb else sb);
          n = (if g_next sb + n > p_next sb then p_next sb - g_next sb else n) in
      sb\<lparr>g_next := bump (g_next sb) n\<rparr>)"

text \<open>The virtual functions of \<^verbatim>\<open>std::streambuf\<close>; \<open>None\<close> is end of file, and \<^verbatim>\<open>not_eof\<close> of it is zero.\<close>

definition sb_underflow :: "streambuf \<Rightarrow> u8 option \<times> streambuf" where
  "sb_underflow sb =
     (if g_next sb < p_next sb
      then (Some (sb_chars sb ! g_next sb), setg 0 (g_next sb) (p_next sb) sb)
      else (None, sb))"

definition sb_put :: "u8 \<Rightarrow> streambuf \<Rightarrow> streambuf" where
  "sb_put c sb = sb\<lparr>sb_chars := (sb_chars sb)[p_next sb := c], p_next := bump (p_next sb) 1\<rparr>"

definition sb_overflow :: "u8 option \<Rightarrow> streambuf \<Rightarrow> (exn + u8) \<times> streambuf" where
  "sb_overflow ch sb = (case ch of
     None \<Rightarrow> (Inr 0, sb)
   | Some c \<Rightarrow>
       if p_next sb = p_end sb then
         let n = p_next sb - g_next sb in
         case sb_reserve (if n < sb_max_size sb \<and> sb_max_size sb - n < buffer_delta
                          then sb_max_size sb - n else buffer_delta) sb of
           (None, sb) \<Rightarrow> (Inr c, sb_put c sb)
         | (Some e, sb) \<Rightarrow> (Inl e, sb)
       else (Inr c, sb_put c sb))"

definition read_size_helper :: "streambuf \<Rightarrow> nat \<Rightarrow> nat" where
  "read_size_helper sb max_size =
     min (max 512 (sb_capacity sb - sb_size sb)) (min max_size (sb_max_size sb - sb_size sb))"

text \<open>What a read into the prepared characters stores.\<close>

definition sb_fill :: "nat \<Rightarrow> u8 list \<Rightarrow> streambuf \<Rightarrow> streambuf" where
  "sb_fill pos bytes sb = sb\<lparr>sb_chars := take pos (sb_chars sb) @ bytes @ drop (pos + length bytes) (sb_chars sb)\<rparr>"

subsection \<open>Well-formed buffers\<close>

definition sb_ok :: "streambuf \<Rightarrow> bool" where
  "sb_ok sb \<longleftrightarrow> g_back sb = 0 \<and> g_next sb \<le> g_end sb \<and> g_end sb \<le> p_next sb \<and> p_next sb \<le> p_end sb \<and>
     p_end sb \<le> length (sb_chars sb) \<and> p_end sb \<le> sb_max_size sb \<and> sb_chars sb \<noteq> [] \<and>
     p_base sb \<le> p_next sb \<and> length (sb_chars sb) \<le> sb_capacity sb"

lemma bump_eq: "n < 2 ^ 31 \<Longrightarrow> bump pos n = pos + n"
proof -
  assume n: "n < 2 ^ 31"
  then have "sint (word_of_nat n :: 32 word) = int n"
    by (simp add: signed_of_nat signed_take_bit_int_eq_self)
  then show ?thesis by (simp add: bump_def nat_add_distrib)
qed

lemma new_streambuf_ok: "sb_ok (new_streambuf k) \<and> sb_data (new_streambuf k) = [] \<and> sb_max_size (new_streambuf k) = k"
  by (auto simp: new_streambuf_def Let_def sb_ok_def sb_data_def setp_def setg_def resize_chars_def buffer_delta_def)

lemma sb_size_data: "sb_ok sb \<Longrightarrow> length (sb_data sb) = sb_size sb"
  by (auto simp: sb_data_def sb_size_def sb_ok_def)

lemma sb_size_max: "sb_ok sb \<Longrightarrow> sb_size sb \<le> sb_max_size sb"
  by (auto simp: sb_size_def sb_ok_def)

lemma min_plus_diff: "min a b + (b - a) = (b :: nat)"
  by simp

lemma sb_reserve_ok:
  assumes "sb_ok sb" "sb_size sb + n \<le> sb_max_size sb" "sb_reserve n sb = (r, sb')"
  shows "r = None \<and> sb_ok sb' \<and> sb_data sb' = sb_data sb \<and> sb_max_size sb' = sb_max_size sb \<and>
    p_next sb' + n \<le> p_end sb' \<and> sb_size sb' = sb_size sb"
proof (cases "n \<le> p_end sb - p_next sb")
  case True
  then have "r = None" "sb' = sb" using assms(3) by (simp_all add: sb_reserve_def Let_def)
  moreover have "p_next sb + n \<le> p_end sb" using True assms(1) by (auto simp: sb_ok_def)
  ultimately show ?thesis using assms(1) by simp
next
  case False
  have g: "g_next sb \<le> p_next sb" "p_next sb \<le> p_end sb" "p_end sb \<le> length (sb_chars sb)" "sb_chars sb \<noteq> []"
    "p_end sb \<le> sb_max_size sb" "length (sb_chars sb) \<le> sb_capacity sb"
    using assms(1) by (auto simp: sb_ok_def)
  define k where "k = p_next sb - g_next sb"
  define xs where "xs = (if g_next sb > 0 then take k (drop (g_next sb) (sb_chars sb)) @ drop k (sb_chars sb) else sb_chars sb)"
  have lx: "length xs = length (sb_chars sb)" "take k xs = sb_data sb" using g by (auto simp: xs_def k_def sb_data_def)
  have sz: "sb_size sb = k" by (simp add: sb_size_def k_def)
  have k: "k \<le> p_end sb" using g by (simp add: k_def)
  have eq: "sb_reserve n sb = (let sb = sb\<lparr>sb_chars := xs\<rparr> in
      if n > p_end sb - k then
        if n \<le> sb_max_size sb \<and> k \<le> sb_max_size sb - n
        then (None, setp k (k + n) (setg 0 0 k (resize_chars (max (k + n) 1) sb)))
        else (Some Length_error, sb)
      else (None, setp k (p_end sb) (setg 0 0 k sb)))"
    using False by (simp add: sb_reserve_def Let_def xs_def k_def)
  show ?thesis
  proof (cases "n > p_end sb - k")
    case True
    have fits: "n \<le> sb_max_size sb \<and> k \<le> sb_max_size sb - n" using assms(2) sz by auto
    have e: "r = None" "sb' = setp k (k + n) (setg 0 0 k (resize_chars (max (k + n) 1) (sb\<lparr>sb_chars := xs\<rparr>)))"
      using assms(3) eq True fits by (simp_all add: Let_def)
    have "take k (take (max (k + n) 1) xs @ replicate (max (k + n) 1 - length xs) 0) = take k xs"
    proof -
      have "k \<le> max (k + n) 1" "k \<le> length xs" using lx k g by auto
      then show ?thesis by (simp add: min.absorb1)
    qed
    then show ?thesis using e g lx sz fits assms(1) k
      by (auto simp: setp_def setg_def resize_chars_def sb_ok_def sb_data_def sb_size_def min_plus_diff)
  next
    case enough: False
    then have e: "r = None" "sb' = setp k (p_end sb) (setg 0 0 k (sb\<lparr>sb_chars := xs\<rparr>))"
      using assms(3) eq by (simp_all add: Let_def)
    moreover have "xs \<noteq> []" using lx(1) g(4) by (metis length_0_conv)
    ultimately show ?thesis using e enough g lx sz assms(1) k
      by (auto simp: setp_def setg_def sb_ok_def sb_data_def sb_size_def)
  qed
qed

lemma sb_prepare_ok:
  assumes "sb_ok sb" "sb_size sb + n \<le> sb_max_size sb"
  shows "\<exists>sb'. sb_prepare n sb = (Inr (p_next sb', n), sb') \<and> sb_ok sb' \<and> sb_data sb' = sb_data sb \<and>
    sb_max_size sb' = sb_max_size sb \<and> p_next sb' + n \<le> p_end sb'"
proof -
  obtain r sb' where "sb_reserve n sb = (r, sb')" by (cases "sb_reserve n sb")
  with sb_reserve_ok [OF assms this] show ?thesis by (simp add: sb_prepare_def)
qed

lemma sb_prepare_too_long:
  assumes "sb_ok sb" "sb_size sb + n > sb_max_size sb"
  shows "fst (sb_prepare n sb) = Inl Length_error"
  using assms by (auto simp: sb_prepare_def sb_reserve_def Let_def sb_ok_def sb_size_def)

lemma sb_fill_commit:
  assumes "sb_ok sb" "p_next sb + length bytes \<le> p_end sb" "length bytes < 2 ^ 31"
  shows "sb_ok (sb_commit (length bytes) (sb_fill (p_next sb) bytes sb)) \<and>
    sb_data (sb_commit (length bytes) (sb_fill (p_next sb) bytes sb)) = sb_data sb @ bytes \<and>
    sb_max_size (sb_commit (length bytes) (sb_fill (p_next sb) bytes sb)) = sb_max_size sb"
proof -
  have g: "g_next sb \<le> p_next sb" "p_end sb \<le> length (sb_chars sb)" using assms(1) by (auto simp: sb_ok_def)
  have "sb_commit (length bytes) (sb_fill (p_next sb) bytes sb) =
      sb\<lparr>sb_chars := take (p_next sb) (sb_chars sb) @ bytes @ drop (p_next sb + length bytes) (sb_chars sb),
         p_next := p_next sb + length bytes, g_end := p_next sb + length bytes\<rparr>" (is "_ = ?sb")
    using assms by (simp add: sb_commit_def Let_def sb_fill_def setg_def bump_eq)
  moreover have "sb_data ?sb = sb_data sb @ bytes"
    using g assms(2) by (simp add: sb_data_def drop_take)
  moreover have "sb_ok ?sb" using assms(1,2) by (auto simp: sb_ok_def)
  ultimately show ?thesis by simp
qed

lemma sb_consume_ok:
  assumes "sb_ok sb" "sb_size sb < 2 ^ 31"
  shows "sb_ok (sb_consume n sb) \<and> sb_data (sb_consume n sb) = drop n (sb_data sb) \<and>
    sb_max_size (sb_consume n sb) = sb_max_size sb"
proof -
  let ?k = "if g_next sb + n > p_next sb then p_next sb - g_next sb else n"
  have g: "g_next sb \<le> p_next sb" "p_next sb \<le> length (sb_chars sb)" using assms(1) by (auto simp: sb_ok_def)
  have k: "?k \<le> p_next sb - g_next sb" using g by auto
  then have "bump (g_next sb) ?k = g_next sb + ?k" using assms(2) by (intro bump_eq) (auto simp: sb_size_def)
  moreover have "g_end sb \<le> p_next sb" using assms(1) by (simp add: sb_ok_def)
  ultimately have e: "sb_consume n sb = sb\<lparr>g_back := 0, g_end := p_next sb, g_next := g_next sb + ?k\<rparr>"
    using assms(1) by (auto simp: sb_consume_def Let_def setg_def sb_ok_def)
  have "sb_data (sb_consume n sb) = drop n (sb_data sb)" unfolding e
    using g by (auto simp: sb_data_def drop_take add.commute)
  moreover have "sb_ok (sb_consume n sb)" unfolding e using assms(1) k by (auto simp: sb_ok_def)
  ultimately show ?thesis by (simp add: e)
qed

lemma sb_put_ok:
  assumes "sb_ok sb" "p_next sb < p_end sb"
  shows "sb_ok (sb_put c sb) \<and> sb_data (sb_put c sb) = sb_data sb @ [c] \<and> sb_max_size (sb_put c sb) = sb_max_size sb"
proof -
  have p: "p_next sb < length (sb_chars sb)" "g_next sb \<le> p_next sb" using assms by (auto simp: sb_ok_def)
  have e: "sb_put c sb = sb\<lparr>sb_chars := (sb_chars sb)[p_next sb := c], p_next := Suc (p_next sb)\<rparr>"
    by (simp add: sb_put_def bump_eq)
  have "take (Suc (p_next sb) - g_next sb) (drop (g_next sb) ((sb_chars sb)[p_next sb := c])) =
      take (p_next sb - g_next sb) (drop (g_next sb) (sb_chars sb)) @ [c]"
    using p by (simp add: Suc_diff_le drop_update_swap take_Suc_conv_app_nth)
  then show ?thesis using assms unfolding e by (auto simp: sb_ok_def sb_data_def)
qed

lemma sb_overflow_ok:
  assumes "sb_ok sb"
  shows "if sb_size sb < sb_max_size sb
    then \<exists>sb'. sb_overflow (Some c) sb = (Inr c, sb') \<and> sb_ok sb' \<and> sb_data sb' = sb_data sb @ [c] \<and> sb_max_size sb' = sb_max_size sb
    else fst (sb_overflow (Some c) sb) = Inl Length_error"
proof (cases "p_next sb = p_end sb")
  case False
  then have "p_next sb < p_end sb" using assms by (simp add: sb_ok_def)
  moreover from this have "sb_size sb < sb_max_size sb" using assms by (auto simp: sb_ok_def sb_size_def)
  ultimately show ?thesis using sb_put_ok [OF assms] by (simp add: sb_overflow_def)
next
  case True
  let ?n = "if sb_size sb < sb_max_size sb \<and> sb_max_size sb - sb_size sb < buffer_delta
      then sb_max_size sb - sb_size sb else buffer_delta"
  have eq: "sb_overflow (Some c) sb = (case sb_reserve ?n sb of
      (None, sb) \<Rightarrow> (Inr c, sb_put c sb) | (Some e, sb) \<Rightarrow> (Inl e, sb))"
    using True by (simp add: sb_overflow_def Let_def sb_size_def)
  obtain r sb' where rs: "sb_reserve ?n sb = (r, sb')" by (cases "sb_reserve ?n sb")
  show ?thesis
  proof (cases "sb_size sb < sb_max_size sb")
    case fits: True
    then have "sb_size sb + ?n \<le> sb_max_size sb" "?n > 0" by (auto simp: buffer_delta_def)
    note pos = this(2) and res = sb_reserve_ok [OF assms this(1) rs]
    have "p_next sb' + ?n \<le> p_end sb'" using res by blast
    with pos have "p_next sb' < p_end sb'" by linarith
    with res have "r = None" "sb_ok sb'" "sb_data sb' = sb_data sb"
      "sb_max_size sb' = sb_max_size sb" "p_next sb' < p_end sb'" by blast+
    then show ?thesis using fits eq rs sb_put_ok [of sb' c] by simp
  next
    case False
    then have n: "?n = buffer_delta" "sb_size sb + buffer_delta > sb_max_size sb"
      using sb_size_max [OF assms] by (auto simp: buffer_delta_def)
    from sb_prepare_too_long [OF assms n(2)] rs n(1) have "r = Some Length_error"
      by (auto simp: sb_prepare_def split: option.splits)
    with False eq rs show ?thesis by simp
  qed
qed

subsection \<open>Properties\<close>

text \<open>
  C24. A streambuf is a queue of characters with a bound: preparing succeeds exactly when the new size
  stays within the maximum and does not change the content; storing bytes there and committing them
  appends them; consuming removes from the front; a character put at the end of the space is
  appended, or refused with \<^verbatim>\<open>length_error\<close> exactly when the buffer is full; and every operation that
  succeeds keeps the pointers in order.
\<close>

theorem streambuf_refines_queue:
  assumes "sb_ok sb"
  shows "((\<exists>pos. fst (sb_prepare (length bytes) sb) = Inr pos) \<longleftrightarrow> length (sb_data sb) + length bytes \<le> sb_max_size sb) \<and>
    (\<forall>sb' pos. sb_prepare (length bytes) sb = (Inr (pos, length bytes), sb') \<and> length bytes < 2 ^ 31 \<longrightarrow>
       sb_data sb' = sb_data sb \<and> sb_ok (sb_commit (length bytes) (sb_fill pos bytes sb')) \<and>
       sb_data (sb_commit (length bytes) (sb_fill pos bytes sb')) = sb_data sb @ bytes) \<and>
    (length (sb_data sb) < 2 ^ 31 \<longrightarrow> sb_ok (sb_consume n sb) \<and> sb_data (sb_consume n sb) = drop n (sb_data sb)) \<and>
    (length (sb_data sb) < sb_max_size sb \<longrightarrow>
       (\<exists>sb'. sb_overflow (Some c) sb = (Inr c, sb') \<and> sb_ok sb' \<and> sb_data sb' = sb_data sb @ [c])) \<and>
    (length (sb_data sb) = sb_max_size sb \<longrightarrow> fst (sb_overflow (Some c) sb) = Inl Length_error)"
proof (intro conjI allI impI)
  show "(\<exists>pos. fst (sb_prepare (length bytes) sb) = Inr pos) \<longleftrightarrow> length (sb_data sb) + length bytes \<le> sb_max_size sb"
    using sb_prepare_ok [OF assms, of "length bytes"] sb_prepare_too_long [OF assms, of "length bytes"]
    by (cases "sb_size sb + length bytes \<le> sb_max_size sb") (auto simp: sb_size_data [OF assms])
next
  fix sb' pos
  assume p: "sb_prepare (length bytes) sb = (Inr (pos, length bytes), sb') \<and> length bytes < 2 ^ 31"
  then have "sb_size sb + length bytes \<le> sb_max_size sb"
    using sb_prepare_too_long [OF assms, of "length bytes"] by (auto simp: not_less [symmetric])
  from sb_prepare_ok [OF assms this] p have q: "pos = p_next sb'" "sb_ok sb'" "sb_data sb' = sb_data sb"
    "p_next sb' + length bytes \<le> p_end sb'" by auto
  then show "sb_data sb' = sb_data sb" "sb_ok (sb_commit (length bytes) (sb_fill pos bytes sb'))"
    "sb_data (sb_commit (length bytes) (sb_fill pos bytes sb')) = sb_data sb @ bytes"
    using sb_fill_commit [OF q(2,4)] p by simp_all
next
  assume "length (sb_data sb) < 2 ^ 31"
  then show "sb_ok (sb_consume n sb)" "sb_data (sb_consume n sb) = drop n (sb_data sb)"
    using sb_consume_ok [OF assms] by (simp_all add: sb_size_data [OF assms])
next
  assume "length (sb_data sb) < sb_max_size sb"
  then show "\<exists>sb'. sb_overflow (Some c) sb = (Inr c, sb') \<and> sb_ok sb' \<and> sb_data sb' = sb_data sb @ [c]"
    using sb_overflow_ok [OF assms, of c] by (auto simp: sb_size_data [OF assms])
next
  assume "length (sb_data sb) = sb_max_size sb"
  then show "fst (sb_overflow (Some c) sb) = Inl Length_error"
    using sb_overflow_ok [OF assms, of c] by (simp add: sb_size_data [OF assms])
qed

theorem streambuf_refines_queue_witness:
  "\<exists>sb'. sb_overflow (Some 7) (new_streambuf 4) = (Inr 7, sb') \<and> sb_data sb' = [7]"
  using streambuf_refines_queue [of "new_streambuf 4" "[]" 0 7] new_streambuf_ok [of 4] by auto

definition sb_abcd :: streambuf where
  "sb_abcd = sb_commit 4 (sb_fill 0 [97, 98, 99, 100] (snd (sb_prepare 4 (new_streambuf 4))))"

text \<open>
  C33. A \<^verbatim>\<open>prepare\<close> that fails with \<^verbatim>\<open>length_error\<close> can corrupt the input sequence: it has moved the
  characters to the front of the array, but leaves the pointers where they were. When \<open>c\<close> characters have
  been consumed and at least as many are left, the first \<open>c\<close> of those are lost and the last \<open>c\<close> come twice, in
  any streambuf and for any size that does not fit; with nothing consumed, or less left than was
  consumed, the input sequence stays as it was.
\<close>

theorem failed_prepare_corrupts_input:
  assumes "sb_ok sb" "sb_size sb + n > sb_max_size sb"
  shows "fst (sb_prepare n sb) = Inl Length_error \<and>
    sb_data (snd (sb_prepare n sb)) =
      (if g_next sb \<le> sb_size sb
       then drop (g_next sb) (sb_data sb) @ drop (sb_size sb - g_next sb) (sb_data sb)
       else sb_data sb)"
proof -
  let ?c = "g_next sb" and ?p = "p_next sb" and ?a = "sb_chars sb"
  have le: "?c \<le> ?p" "?p \<le> length ?a" "?p \<le> p_end sb" "p_end sb \<le> sb_max_size sb" using assms(1) by (auto simp: sb_ok_def)
  define sb' where "sb' = (if ?c > 0 then sb\<lparr>sb_chars := take (?p - ?c) (drop ?c ?a) @ drop (?p - ?c) ?a\<rparr> else sb)"
  have p: "sb_prepare n sb = (Inl Length_error, sb')"
    using assms le by (auto simp: sb_prepare_def sb_reserve_def Let_def sb_size_def sb'_def)
  have "sb_data sb' = take (?p - ?c) (drop ?c (take (?p - ?c) (drop ?c ?a) @ drop (?p - ?c) ?a))"
    using le by (cases "?c > 0") (auto simp: sb'_def sb_data_def)
  also have "\<dots> = (if ?c \<le> ?p - ?c then drop ?c (sb_data sb) @ drop (?p - ?c - ?c) (sb_data sb) else sb_data sb)"
  proof (cases "?c \<le> ?p - ?c")
    case True
    have "take ?c (drop (?p - ?c) ?a) = drop (?p - ?c - ?c) (sb_data sb)"
      using True le by (intro nth_equalityI) (auto simp: sb_data_def algebra_simps)
    then show ?thesis using True le by (auto simp: sb_data_def min_def)
  next
    case False
    have "length (take (?p - ?c) (drop ?c ?a)) = ?p - ?c" using le by simp
    then have "drop ?c (take (?p - ?c) (drop ?c ?a) @ drop (?p - ?c) ?a) = drop ?c ?a"
      using False by (simp only: drop_append drop_drop) simp
    then show ?thesis using False by (simp add: sb_data_def)
  qed
  finally show ?thesis using p by (simp add: sb_size_def)
qed

text \<open>Of the three characters \<open>b c d\<close> left in a streambuf of four, a failing call makes \<open>c d d\<close>.\<close>

theorem failed_prepare_corrupts_input_witness:
  "sb_data (sb_consume 1 sb_abcd) = [98, 99, 100] \<and>
   sb_data (snd (sb_prepare 2 (sb_consume 1 sb_abcd))) = [99, 100, 100]"
proof -
  have n: "new_streambuf 4 = \<lparr>sb_max_size = 4, sb_chars = [0, 0, 0, 0], sb_capacity = 4,
      g_back = 0, g_next = 0, g_end = 0, p_base = 0, p_next = 0, p_end = 4\<rparr>"
    by (simp add: new_streambuf_def Let_def setp_def setg_def resize_chars_def buffer_delta_def numeral_eq_Suc)
  have e: "sb_abcd = \<lparr>sb_max_size = 4, sb_chars = [97, 98, 99, 100], sb_capacity = 4,
      g_back = 0, g_next = 0, g_end = 4, p_base = 0, p_next = 4, p_end = 4\<rparr>"
    by (simp add: sb_abcd_def n sb_prepare_def sb_reserve_def Let_def sb_fill_def sb_commit_def setg_def bump_eq)
  have "bump 0 (Suc 0) = Suc 0" using bump_eq [of 1 0] by simp
  then have c: "sb_consume 1 sb_abcd = \<lparr>sb_max_size = 4, sb_chars = [97, 98, 99, 100], sb_capacity = 4,
      g_back = 0, g_next = 1, g_end = 4, p_base = 0, p_next = 4, p_end = 4\<rparr>"
    by (simp add: e sb_consume_def Let_def)
  have "sb_ok (sb_consume 1 sb_abcd)" "sb_size (sb_consume 1 sb_abcd) + 2 > sb_max_size (sb_consume 1 sb_abcd)"
    unfolding c by (simp_all add: sb_ok_def sb_size_def)
  from failed_prepare_corrupts_input [OF this] show ?thesis
    unfolding c by (simp add: sb_data_def sb_size_def numeral_2_eq_2 numeral_3_eq_3)
qed

end
