(* ===== verification/ReadUntil.thy ===== *)
theory ReadUntil
  imports Streambuf "HOL-Library.Sublist"
begin

text \<open>
  Reading into a streambuf: until a condition is met (\<^verbatim>\<open>impl/read.hpp\<close>) and until a delimiter
  (\<^verbatim>\<open>impl/read_until.hpp\<close>), synchronous and asynchronous. The stream is a parameter: a read of at
  most \<open>k\<close> bytes returns the bytes it stored, the error code and its new state. An iterator into
  \<^verbatim>\<open>data()\<close> is an index of the input sequence. An asynchronous operation is shown with the stream
  that completes its reads: the handler's call is the recursive call. A loop that never ends
  is \<open>None\<close>. The versions for regular expressions, which call Boost, are left out.
\<close>

type_synonym 's reader = "nat \<Rightarrow> 's \<Rightarrow> u8 list \<times> error_code \<times> 's"

type_synonym 's sb_result = "(exn + nat \<times> error_code) \<times> streambuf \<times> 's"

text \<open>\<^verbatim>\<open>b.commit(s.read_some(b.prepare(n), ec))\<close>\<close>

definition sb_read_some :: "'s reader \<Rightarrow> nat \<Rightarrow> streambuf \<Rightarrow> 's \<Rightarrow> 's sb_result" where
  "sb_read_some rd n sb s = (case sb_prepare n sb of
     (Inl e, sb) \<Rightarrow> (Inl e, sb, s)
   | (Inr (pos, k), sb) \<Rightarrow> (case rd k s of (bytes, ec, s) \<Rightarrow>
       (Inr (length bytes, ec), sb_commit (length bytes) (sb_fill pos bytes sb), s)))"

subsection \<open>Reading until a condition is met\<close>

partial_function (option) read_sb_loop ::
    "'s reader \<Rightarrow> condition \<Rightarrow> nat \<Rightarrow> error_code \<Rightarrow> nat \<Rightarrow> streambuf \<Rightarrow> 's \<Rightarrow> 's sb_result option" where
  "read_sb_loop rd cc bytes_available ec total_transferred sb s =
     (if bytes_available > 0 then
        (case sb_read_some rd bytes_available sb s of
           (Inl e, sb, s) \<Rightarrow> Some (Inl e, sb, s)
         | (Inr (n, ec), sb, s) \<Rightarrow>
             read_sb_loop rd cc (read_size_helper sb (cc ec (total_transferred + n))) ec (total_transferred + n) sb s)
      else Some (Inr (total_transferred, ec), sb, s))"

definition read_sb :: "'s reader \<Rightarrow> condition \<Rightarrow> streambuf \<Rightarrow> 's \<Rightarrow> 's sb_result option" where
  "read_sb rd cc sb s = read_sb_loop rd cc (read_size_helper sb (cc no_error 0)) no_error 0 sb s"

text \<open>The asynchronous one starts with a read in any case, and ends on a read of nothing without error.\<close>

partial_function (option) async_read_sb_loop ::
    "'s reader \<Rightarrow> condition \<Rightarrow> nat \<Rightarrow> nat \<Rightarrow> streambuf \<Rightarrow> 's \<Rightarrow> 's sb_result option" where
  "async_read_sb_loop rd cc bytes_available total_transferred sb s =
     (case sb_read_some rd bytes_available sb s of
        (Inl e, sb, s) \<Rightarrow> Some (Inl e, sb, s)
      | (Inr (n, ec), sb, s) \<Rightarrow>
          let t = total_transferred + n; k = read_size_helper sb (cc ec t) in
          if (\<not> is_error ec \<and> n = 0) \<or> k = 0 then Some (Inr (t, ec), sb, s)
          else async_read_sb_loop rd cc k t sb s)"

definition async_read_sb :: "'s reader \<Rightarrow> condition \<Rightarrow> streambuf \<Rightarrow> 's \<Rightarrow> 's sb_result option" where
  "async_read_sb rd cc sb s = async_read_sb_loop rd cc (read_size_helper sb (cc no_error 0)) 0 sb s"

text \<open>A write from a streambuf whose array lies at \<open>base\<close> consumes what was written.\<close>

definition write_sb ::
    "(buf list \<Rightarrow> 'w \<Rightarrow> nat \<times> error_code \<times> 'w) \<Rightarrow> nat \<Rightarrow> condition \<Rightarrow> streambuf \<Rightarrow> 'w \<Rightarrow>
     (nat \<times> error_code \<times> streambuf \<times> 'w) option" where
  "write_sb write_some base cc sb w =
     map_option (\<lambda>(n, ec, w). (n, ec, sb_consume n sb, w))
       (write_sync write_some [\<lparr>b_addr = base + g_next sb, b_size = sb_size sb\<rparr>] cc w)"

definition async_write_sb ::
    "(buf list \<Rightarrow> 'w \<Rightarrow> nat \<times> error_code \<times> 'w) \<Rightarrow> nat \<Rightarrow> condition \<Rightarrow> streambuf \<Rightarrow> 'w \<Rightarrow>
     (nat \<times> error_code \<times> streambuf \<times> 'w) option" where
  "async_write_sb write_some base cc sb w =
     map_option (\<lambda>(n, ec, w). (n, ec, sb_consume n sb, w))
       (async_write_1 write_some \<lparr>b_addr = base + g_next sb, b_size = sb_size sb\<rparr> cc w)"

subsection \<open>Random access and throwing versions\<close>

text \<open>The versions for random access devices add the bytes so far to the offset of each transfer: the device
  is a stream whose state counts them.\<close>

definition at_offset :: "(64 word \<Rightarrow> 's reader) \<Rightarrow> 64 word \<Rightarrow> ('s \<times> nat) reader" where
  "at_offset rd offset k = (\<lambda>(s, total_transferred).
     case rd (offset + of_nat total_transferred) k s of (bytes, ec, s) \<Rightarrow>
       (bytes, ec, s, total_transferred + length bytes))"

definition uncount :: "('s \<times> nat) sb_result option \<Rightarrow> 's sb_result option" where
  "uncount r = map_option (\<lambda>(x, sb, s, _). (x, sb, s)) r"

definition read_at_sb :: "(64 word \<Rightarrow> 's reader) \<Rightarrow> 64 word \<Rightarrow> condition \<Rightarrow> streambuf \<Rightarrow> 's \<Rightarrow> 's sb_result option" where
  "read_at_sb rd offset cc sb s = uncount (read_sb (at_offset rd offset) cc sb (s, 0))"

definition async_read_at_sb :: "(64 word \<Rightarrow> 's reader) \<Rightarrow> 64 word \<Rightarrow> condition \<Rightarrow> streambuf \<Rightarrow> 's \<Rightarrow> 's sb_result option" where
  "async_read_at_sb rd offset cc sb s = uncount (async_read_sb (at_offset rd offset) cc sb (s, 0))"

definition write_at_sb ::
    "(64 word \<Rightarrow> buf list \<Rightarrow> 'w \<Rightarrow> nat \<times> error_code \<times> 'w) \<Rightarrow> nat \<Rightarrow> 64 word \<Rightarrow> condition \<Rightarrow> streambuf \<Rightarrow> 'w \<Rightarrow>
     (nat \<times> error_code \<times> streambuf \<times> 'w) option" where
  "write_at_sb write_some_at base offset cc sb w =
     map_option (\<lambda>(n, ec, w). (n, ec, sb_consume n sb, w))
       (write_at_sync write_some_at offset [\<lparr>b_addr = base + g_next sb, b_size = sb_size sb\<rparr>] cc w)"

definition async_write_at_sb ::
    "(64 word \<Rightarrow> buf list \<Rightarrow> 'w \<Rightarrow> nat \<times> error_code \<times> 'w) \<Rightarrow> nat \<Rightarrow> 64 word \<Rightarrow> condition \<Rightarrow> streambuf \<Rightarrow> 'w \<Rightarrow>
     (nat \<times> error_code \<times> streambuf \<times> 'w) option" where
  "async_write_at_sb write_some_at base offset cc sb w =
     map_option (\<lambda>(n, ec, w). (n, ec, sb_consume n sb, w))
       (async_write_at_1 write_some_at offset \<lparr>b_addr = base + g_next sb, b_size = sb_size sb\<rparr> cc w)"

text \<open>The versions without an error code throw it, those without a condition transfer all.\<close>

definition throwing_sb :: "'s sb_result option \<Rightarrow> ((exn + nat) \<times> streambuf \<times> 's) option" where
  "throwing_sb r = map_option (\<lambda>(x, sb, s).
     (case x of Inl e \<Rightarrow> Inl e
      | Inr (n, ec) \<Rightarrow> (case throw_error ec of Inl e \<Rightarrow> Inl e | Inr _ \<Rightarrow> Inr n), sb, s)) r"

definition read_sb_all where "read_sb_all rd sb s = read_sb rd transfer_all sb s"

definition read_sb_all_throw where "read_sb_all_throw rd sb s = throwing_sb (read_sb rd transfer_all sb s)"

definition read_sb_throw where "read_sb_throw rd cc sb s = throwing_sb (read_sb rd cc sb s)"

definition read_at_sb_all where "read_at_sb_all rd offset sb s = read_at_sb rd offset transfer_all sb s"

definition read_at_sb_all_throw where
  "read_at_sb_all_throw rd offset sb s = throwing_sb (read_at_sb rd offset transfer_all sb s)"

definition read_at_sb_throw where "read_at_sb_throw rd offset cc sb s = throwing_sb (read_at_sb rd offset cc sb s)"

definition throwing_write ::
    "(nat \<times> error_code \<times> streambuf \<times> 'w) option \<Rightarrow> ((exn + nat) \<times> streambuf \<times> 'w) option" where
  "throwing_write r = map_option (\<lambda>(n, ec, w). (case throw_error ec of Inl e \<Rightarrow> Inl e | Inr _ \<Rightarrow> Inr n, w)) r"

definition write_sb_all where "write_sb_all wr base sb w = write_sb wr base transfer_all sb w"

definition write_sb_all_throw where
  "write_sb_all_throw wr base sb w = throwing_write (write_sb wr base transfer_all sb w)"

definition write_sb_throw where "write_sb_throw wr base cc sb w = throwing_write (write_sb wr base cc sb w)"

definition write_at_sb_all where
  "write_at_sb_all wr base offset sb w = write_at_sb wr base offset transfer_all sb w"

definition write_at_sb_all_throw where
  "write_at_sb_all_throw wr base offset sb w = throwing_write (write_at_sb wr base offset transfer_all sb w)"

definition write_at_sb_throw where
  "write_at_sb_throw wr base offset cc sb w = throwing_write (write_at_sb wr base offset cc sb w)"

subsection \<open>Searching\<close>

text \<open>\<^verbatim>\<open>std::find\<close>, and \<^verbatim>\<open>partial_search\<close>: the inner loop compares from one position.\<close>

fun find_char :: "u8 list \<Rightarrow> u8 \<Rightarrow> nat" where
  "find_char [] d = 0"
| "find_char (x # xs) d = (if x = d then 0 else Suc (find_char xs d))"

datatype comparison = Full | Partial | Different

fun compare_at :: "u8 list \<Rightarrow> u8 list \<Rightarrow> bool \<Rightarrow> comparison" where
  "compare_at xs [] advanced = Full"
| "compare_at [] (p # ps) advanced = (if advanced then Partial else Different)"
| "compare_at (x # xs) (p # ps) advanced = (if x \<noteq> p then Different else compare_at xs ps True)"

fun partial_search :: "u8 list \<Rightarrow> u8 list \<Rightarrow> nat \<times> bool" where
  "partial_search [] p = (0, False)"
| "partial_search (x # xs) p =
     (case compare_at (x # xs) p False of
        Full \<Rightarrow> (0, True)
      | Partial \<Rightarrow> (0, False)
      | Different \<Rightarrow> (let (i, b) = partial_search xs p in (Suc i, b)))"

text \<open>What a search from a position says: the end of the match, or where the next search starts.\<close>

datatype found = Match nat | Resume nat

definition search_char :: "u8 \<Rightarrow> u8 list \<Rightarrow> nat \<Rightarrow> found" where
  "search_char delim xs search_position =
     (let i = search_position + find_char (drop search_position xs) delim in
      if i \<noteq> length xs then Match (i + 1) else Resume (length xs))"

definition search_string :: "u8 list \<Rightarrow> u8 list \<Rightarrow> nat \<Rightarrow> found" where
  "search_string delim xs search_position =
     (let (i, b) = partial_search (drop search_position xs) delim; i = search_position + i in
      if i \<noteq> length xs then if b then Match (i + length delim) else Resume i
      else Resume (length xs))"

definition search_cond :: "(u8 list \<Rightarrow> nat \<times> bool) \<Rightarrow> u8 list \<Rightarrow> nat \<Rightarrow> found" where
  "search_cond match_condition xs search_position =
     (let (i, b) = match_condition (drop search_position xs); i = search_position + i in
      if b then Match i else if i \<noteq> length xs then Resume i else Resume (length xs))"

subsection \<open>Reading until a match\<close>

partial_function (option) until_loop ::
    "'s reader \<Rightarrow> (u8 list \<Rightarrow> nat \<Rightarrow> found) \<Rightarrow> nat \<Rightarrow> streambuf \<Rightarrow> 's \<Rightarrow> 's sb_result option" where
  "until_loop rd search search_position sb s =
     (case search (sb_data sb) search_position of
        Match n \<Rightarrow> Some (Inr (n, no_error), sb, s)
      | Resume search_position \<Rightarrow>
          if sb_size sb = sb_max_size sb then Some (Inr (0, misc_error not_found), sb, s)
          else
            (case sb_read_some rd (read_size_helper sb 65536) sb s of
               (Inl e, sb, s) \<Rightarrow> Some (Inl e, sb, s)
             | (Inr (n, ec), sb, s) \<Rightarrow>
                 if is_error ec then Some (Inr (0, ec), sb, s)
                 else until_loop rd search search_position sb s))"

definition read_until_char :: "'s reader \<Rightarrow> u8 \<Rightarrow> streambuf \<Rightarrow> 's \<Rightarrow> 's sb_result option" where
  "read_until_char rd delim sb s = until_loop rd (search_char delim) 0 sb s"

definition read_until_string :: "'s reader \<Rightarrow> u8 list \<Rightarrow> streambuf \<Rightarrow> 's \<Rightarrow> 's sb_result option" where
  "read_until_string rd delim sb s = until_loop rd (search_string delim) 0 sb s"

definition read_until_cond :: "'s reader \<Rightarrow> (u8 list \<Rightarrow> nat \<times> bool) \<Rightarrow> streambuf \<Rightarrow> 's \<Rightarrow> 's sb_result option" where
  "read_until_cond rd match_condition sb s = until_loop rd (search_cond match_condition) 0 sb s"

text \<open>The versions without an error code.\<close>

definition read_until_char_throw where
  "read_until_char_throw rd delim sb s = throwing_sb (read_until_char rd delim sb s)"

definition read_until_string_throw where
  "read_until_string_throw rd delim sb s = throwing_sb (read_until_string rd delim sb s)"

definition read_until_cond_throw where
  "read_until_cond_throw rd match_condition sb s = throwing_sb (read_until_cond rd match_condition sb s)"

text \<open>The asynchronous operations: a search that ends the operation sets the number of bytes to read to
  zero; a position of \<open>size_t_max\<close> says that the buffer is full.\<close>

definition until_head :: "(u8 list \<Rightarrow> nat \<Rightarrow> found) \<Rightarrow> nat \<Rightarrow> streambuf \<Rightarrow> nat \<times> nat" where
  "until_head search search_position sb = (case search (sb_data sb) search_position of
     Match n \<Rightarrow> (n, 0)
   | Resume search_position \<Rightarrow>
       if sb_size sb = sb_max_size sb then (size_t_max, 0)
       else (search_position, read_size_helper sb 65536))"

definition until_result :: "error_code \<Rightarrow> nat \<Rightarrow> nat \<times> error_code" where
  "until_result ec search_position =
     (if is_error ec \<or> search_position = size_t_max then 0 else search_position,
      if search_position = size_t_max then misc_error not_found else ec)"

partial_function (option) async_until_loop ::
    "'s reader \<Rightarrow> (u8 list \<Rightarrow> nat \<Rightarrow> found) \<Rightarrow> bool \<Rightarrow> error_code \<Rightarrow> nat \<Rightarrow> streambuf \<Rightarrow> 's \<Rightarrow> 's sb_result option" where
  "async_until_loop rd search start ec search_position sb s =
     (case until_head search search_position sb of (search_position, bytes_to_read) \<Rightarrow>
        if \<not> start \<and> bytes_to_read = 0 then Some (Inr (until_result ec search_position), sb, s)
        else
          (case sb_read_some rd bytes_to_read sb s of
             (Inl e, sb, s) \<Rightarrow> Some (Inl e, sb, s)
           | (Inr (n, ec), sb, s) \<Rightarrow>
               if is_error ec \<or> n = 0 then Some (Inr (until_result ec search_position), sb, s)
               else async_until_loop rd search False ec search_position sb s))"

definition async_read_until_char :: "'s reader \<Rightarrow> u8 \<Rightarrow> streambuf \<Rightarrow> 's \<Rightarrow> 's sb_result option" where
  "async_read_until_char rd delim sb s = async_until_loop rd (search_char delim) True no_error 0 sb s"

definition async_read_until_string :: "'s reader \<Rightarrow> u8 list \<Rightarrow> streambuf \<Rightarrow> 's \<Rightarrow> 's sb_result option" where
  "async_read_until_string rd delim sb s = async_until_loop rd (search_string delim) True no_error 0 sb s"

definition async_read_until_cond ::
    "'s reader \<Rightarrow> (u8 list \<Rightarrow> nat \<times> bool) \<Rightarrow> streambuf \<Rightarrow> 's \<Rightarrow> 's sb_result option" where
  "async_read_until_cond rd match_condition sb s = async_until_loop rd (search_cond match_condition) True no_error 0 sb s"

end
