(* ===== verification/ReadWriteSpec.thy ===== *)
theory ReadWriteSpec
  imports ReadWrite
begin

text \<open>
  What composed transfers promise over a stream that makes progress: the bytes arrive in order at
  the addresses of the sequence (or leave from them), as many as the condition asks for or until an
  error; the asynchronous operations do what the loops do; and the specialised operations start
  the same transfers as the general one, whatever the completions are.
\<close>

subsection \<open>Streams\<close>

text \<open>A transfer never exceeds its buffers, and with room for a byte it moves one or fails.\<close>

definition bounded_io :: "'w transfer \<Rightarrow> bool" where
  "bounded_io io \<longleftrightarrow> (\<forall>t bs w. fst (io t bs w) \<le> buffers_size bs)"

definition progressing :: "'w transfer \<Rightarrow> bool" where
  "progressing io \<longleftrightarrow> (\<forall>t bs w. buffers_size bs > 0 \<longrightarrow> fst (io t bs w) > 0 \<or> is_error (fst (snd (io t bs w))))"

text \<open>A stream that reads: the bytes come from the front of what there is to read, and go to the first
  addresses of the sequence. One that writes appends the first bytes of the sequence.\<close>

definition reads :: "'w transfer \<Rightarrow> ('w \<Rightarrow> memory) \<Rightarrow> ('w \<Rightarrow> u8 list) \<Rightarrow> bool" where
  "reads io mem input \<longleftrightarrow> (\<forall>t bs w n ec w'. io t bs w = (n, ec, w') \<longrightarrow>
     n \<le> buffers_size bs \<and> n \<le> length (input w) \<and>
     mem w' = store (addrs bs) (take n (input w)) (mem w) \<and> input w' = drop n (input w))"

definition writes :: "'w transfer \<Rightarrow> ('w \<Rightarrow> memory) \<Rightarrow> ('w \<Rightarrow> u8 list) \<Rightarrow> bool" where
  "writes io mem output \<longleftrightarrow> (\<forall>t bs w n ec w'. io t bs w = (n, ec, w') \<longrightarrow>
     n \<le> buffers_size bs \<and> mem w' = mem w \<and> output w' = output w @ take n (gather bs (mem w)))"

definition stops_on_error :: "condition \<Rightarrow> bool" where
  "stops_on_error cc \<longleftrightarrow> (\<forall>ec n. is_error ec \<longrightarrow> cc ec n = 0)"

lemma stops_on_error_simps [simp]:
  "stops_on_error transfer_all" "stops_on_error (transfer_at_least k)" "stops_on_error (transfer_exactly k)"
  by (simp_all add: stops_on_error_def transfer_all_def transfer_at_least_def transfer_exactly_def)

lemma transfer_all_0 [simp]: "transfer_all ec n = 0 \<longleftrightarrow> is_error ec"
  by (simp add: transfer_all_def default_max_transfer_size_def)

lemma transfer_exactly_0 [simp]: "transfer_exactly k ec n = 0 \<longleftrightarrow> is_error ec \<or> n \<ge> k"
  by (auto simp: transfer_exactly_def default_max_transfer_size_def)

subsection \<open>The loop\<close>

definition work_left :: "consuming \<Rightarrow> nat" where
  "work_left cb = (if cb_done cb then 0 else Suc (length (cb_left cb)))"

lemma io_loop_done: "cb_done cb \<Longrightarrow> io_loop io cc cb ec t w = Some (t, ec, w)"
  by (subst io_loop.simps) (simp add: cb_done_def)

lemma io_loop_step:
  "\<not> cb_done cb \<Longrightarrow> io t (cb_buffers cb) w = (n, ec', w') \<Longrightarrow>
   io_loop io cc cb ec t w = io_loop io cc (cb_prepare (cc ec' (t + n)) (cb_consume n cb)) ec' (t + n) w'"
  by (subst io_loop.simps) (simp add: cb_done_def)

lemma work_left_step:
  assumes "\<not> cb_done cb" "io t (cb_buffers cb) w = (n, ec', w')" "bounded_io io" "progressing io" "stops_on_error cc"
  shows "work_left (cb_prepare (cc ec' (t + n)) (cb_consume n cb)) < work_left cb"
proof -
  let ?cb = "cb_prepare (cc ec' (t + n)) (cb_consume n cb)"
  have size: "buffers_size (cb_buffers cb) = min (cb_max cb) (length (cb_left cb))"
    by (simp add: buffer_size_eq addrs_cb_buffers min.commute)
  have max: "cb_max cb > 0" using assms(1) by (simp add: cb_done_iff)
  have lft: "cb_left ?cb = drop n (cb_left cb)" by (simp add: cb_consume_left)
  consider "n > 0" | "n = 0" "is_error ec'" | "n = 0" "buffers_size (cb_buffers cb) = 0"
    using assms(2,4) unfolding progressing_def by (metis fst_conv gr0I snd_conv)
  then show ?thesis
  proof cases
    case 1
    have "n \<le> length (cb_left cb)"
      using assms(2,3) size unfolding bounded_io_def by (metis fst_conv le_trans min.cobounded2)
    with 1 have "length (cb_left ?cb) < length (cb_left cb)" unfolding lft length_drop by linarith
    then show ?thesis using assms(1) by (auto simp: work_left_def)
  next
    case 2
    then have "cb_done ?cb" using assms(5) by (auto simp: cb_done_iff stops_on_error_def)
    then show ?thesis using assms(1) by (auto simp: work_left_def)
  next
    case 3
    then have "cb_left cb = []" using size max by (simp add: min_def split: if_splits)
    then have "cb_done ?cb" by (simp add: cb_done_iff cb_consume_left(3))
    then show ?thesis using assms(1) by (auto simp: work_left_def)
  qed
qed

text \<open>The loop ends, and whatever relation each transfer keeps between the bytes so far and the
  state holds at the end, where nothing is left or the condition is met.\<close>

lemma io_loop_rule:
  assumes io: "bounded_io io" "progressing io" and cc: "stops_on_error cc"
    and step: "\<And>cb t w n ec w'. P t cb w \<Longrightarrow> cb_max cb > 0 \<Longrightarrow> io t (cb_buffers cb) w = (n, ec, w') \<Longrightarrow>
      n \<le> cb_max cb \<Longrightarrow> n \<le> length (cb_left cb) \<Longrightarrow>
      P (t + n) (cb_prepare (cc ec (t + n)) (cb_consume n cb)) w'"
    and init: "P t cb w" "cb_max cb = cc ec t" "cb_at_end cb \<Longrightarrow> cb_left cb = []"
  shows "\<exists>n ec' w' cb'. io_loop io cc cb ec t w = Some (n, ec', w') \<and> P n cb' w' \<and> (cb_left cb' = [] \<or> cc ec' n = 0)"
  using init
proof (induction "work_left cb" arbitrary: cb ec t w rule: less_induct)
  case less
  show ?case
  proof (cases "cb_done cb")
    case True
    then have "cb_left cb = [] \<or> cc ec t = 0" using less.prems by (auto simp: cb_done_iff)
    with less.prems(1) io_loop_done [OF True, of io cc ec t w] show ?thesis by blast
  next
    case False
    obtain n ec' w' where tr: "io t (cb_buffers cb) w = (n, ec', w')" by (metis prod_cases3)
    let ?cb = "cb_prepare (cc ec' (t + n)) (cb_consume n cb)"
    have "n \<le> buffers_size (cb_buffers cb)" using io(1) tr unfolding bounded_io_def by (metis fst_conv)
    then have n: "n \<le> cb_max cb" "n \<le> length (cb_left cb)" by (simp_all add: buffer_size_eq addrs_cb_buffers)
    have "P (t + n) ?cb w'" using step [OF less.prems(1) _ tr n] False by (simp add: cb_done_iff)
    moreover have "cb_left ?cb = []" if "cb_at_end ?cb" using that by (simp add: cb_consume_left)
    ultimately show ?thesis
      using less.hyps [OF work_left_step [OF False tr io cc], of "t + n" w' ec'] io_loop_step [of cb io t w n ec' w' cc ec] False tr by simp
  qed
qed

lemma bounded_of_reads: "reads io mem input \<Longrightarrow> bounded_io io"
  unfolding reads_def bounded_io_def by (metis prod.collapse)

lemma bounded_of_writes: "writes io mem output \<Longrightarrow> bounded_io io"
  unfolding writes_def bounded_io_def by (metis prod.collapse)

lemma cb_at_end_new: "cb_at_end (cb_prepare k (cb_new bs)) \<Longrightarrow> cb_left (cb_prepare k (cb_new bs)) = []"
  by (simp add: cb_left_def cb_prepare_def)

text \<open>A condition that never asks for more than a limit is never exceeded.\<close>

definition asks_up_to :: "nat \<Rightarrow> condition \<Rightarrow> bool" where
  "asks_up_to k cc \<longleftrightarrow> (\<forall>ec n. n \<le> k \<longrightarrow> n + cc ec n \<le> k)"

lemma asks_up_to_exactly: "asks_up_to k (transfer_exactly k)"
  unfolding asks_up_to_def transfer_exactly_def by auto

lemma io_sync_reads:
  assumes "reads io mem input" "progressing io" "stops_on_error cc"
  shows "\<exists>n ec w'. io_sync io cc bs w = Some (n, ec, w') \<and> n \<le> buffers_size bs \<and>
    mem w' = store (addrs bs) (take n (input w)) (mem w) \<and> input w' = drop n (input w) \<and>
    (n = buffers_size bs \<or> cc ec n = 0) \<and> (\<forall>k. asks_up_to k cc \<longrightarrow> n \<le> k)"
proof -
  let ?P = "\<lambda>t cb w'. t \<le> length (addrs bs) \<and> t \<le> length (input w) \<and> cb_left cb = drop t (addrs bs) \<and>
    mem w' = store (addrs bs) (take t (input w)) (mem w) \<and> input w' = drop t (input w) \<and>
    (\<forall>k. asks_up_to k cc \<longrightarrow> t + cb_max cb \<le> k)"
  have "\<exists>n ec' w' cb'. io_loop io cc (cb_prepare (cc no_error 0) (cb_new bs)) no_error 0 w = Some (n, ec', w') \<and>
      ?P n cb' w' \<and> (cb_left cb' = [] \<or> cc ec' n = 0)"
  proof (rule io_loop_rule [OF bounded_of_reads [OF assms(1)] assms(2,3)])
    fix cb t w1 n ec w2
    assume P: "?P t cb w1" and tr: "io t (cb_buffers cb) w1 = (n, ec, w2)"
      and n: "n \<le> cb_max cb" "n \<le> length (cb_left cb)"
    from assms(1) tr have r: "n \<le> length (input w1)" "mem w2 = store (addrs (cb_buffers cb)) (take n (input w1)) (mem w1)"
      "input w2 = drop n (input w1)" by (auto simp: reads_def)
    have len: "t + n \<le> length (addrs bs)" "t + n \<le> length (input w)" using P n(2) r(1) by auto
    have a: "addrs (cb_buffers cb) = take (cb_max cb) (drop t (addrs bs))" using P by (simp add: addrs_cb_buffers)
    have "take n (take (cb_max cb) (drop t (addrs bs))) = take n (drop t (addrs bs))" using n(1) by (simp add: min_def)
    then have "mem w2 = store (drop t (addrs bs)) (take n (drop t (input w))) (mem w1)"
      unfolding r(2) a using P
      by (metis store_take_addrs r(1) length_take min.absorb2)
    also have "mem w1 = store (take t (addrs bs)) (take t (input w)) (mem w)"
      using P store_take_addrs [of "take t (input w)" "addrs bs" "mem w"] by simp
    also have "store (drop t (addrs bs)) (take n (drop t (input w))) \<dots> =
        store (addrs bs) (take t (input w) @ take n (drop t (input w))) (mem w)"
      using store_append [of "take t (addrs bs)" "take t (input w)" "drop t (addrs bs)"] P by simp
    also have "take t (input w) @ take n (drop t (input w)) = take (t + n) (input w)" by (simp add: take_add)
    finally have m: "mem w2 = store (addrs bs) (take (t + n) (input w)) (mem w)" .
    have "t + n + cc ec (t + n) \<le> k" if "asks_up_to k cc" for k
    proof -
      have "t + n \<le> k" using P n(1) that by (meson add_left_mono le_trans)
      then show ?thesis using that by (simp add: asks_up_to_def)
    qed
    with m P r(3) len show "?P (t + n) (cb_prepare (cc ec (t + n)) (cb_consume n cb)) w2"
      by (simp add: cb_consume_left add.commute)
  next
    have "cc no_error 0 \<le> k" if "asks_up_to k cc" for k
      using that unfolding asks_up_to_def by (metis add_0 le0)
    then show "?P 0 (cb_prepare (cc no_error 0) (cb_new bs)) w" by (simp add: cb_left_new)
  qed (simp_all add: cb_at_end_new cb_left_def)
  then obtain n ec' w' cb' where r: "io_sync io cc bs w = Some (n, ec', w')" "?P n cb' w'" "cb_left cb' = [] \<or> cc ec' n = 0"
    unfolding io_sync_def by blast
  have "n \<le> k" if "asks_up_to k cc" for k using r(2) that by (meson add_leD1)
  moreover have "n = length (addrs bs) \<or> cc ec' n = 0" using r(2,3) by auto
  ultimately show ?thesis using r by (auto simp: buffer_size_eq)
qed

lemma io_sync_writes:
  assumes "writes io mem output" "progressing io" "stops_on_error cc"
  shows "\<exists>n ec w'. io_sync io cc bs w = Some (n, ec, w') \<and> n \<le> buffers_size bs \<and>
    mem w' = mem w \<and> output w' = output w @ take n (gather bs (mem w)) \<and>
    (n = buffers_size bs \<or> cc ec n = 0) \<and> (\<forall>k. asks_up_to k cc \<longrightarrow> n \<le> k)"
proof -
  let ?P = "\<lambda>t cb w'. t \<le> length (addrs bs) \<and> cb_left cb = drop t (addrs bs) \<and>
    mem w' = mem w \<and> output w' = output w @ take t (gather bs (mem w)) \<and> (\<forall>k. asks_up_to k cc \<longrightarrow> t + cb_max cb \<le> k)"
  have "\<exists>n ec' w' cb'. io_loop io cc (cb_prepare (cc no_error 0) (cb_new bs)) no_error 0 w = Some (n, ec', w') \<and>
      ?P n cb' w' \<and> (cb_left cb' = [] \<or> cc ec' n = 0)"
  proof (rule io_loop_rule [OF bounded_of_writes [OF assms(1)] assms(2,3)])
    fix cb t w1 n ec w2
    assume P: "?P t cb w1" and tr: "io t (cb_buffers cb) w1 = (n, ec, w2)"
      and n: "n \<le> cb_max cb" "n \<le> length (cb_left cb)"
    from assms(1) tr have r: "mem w2 = mem w1" "output w2 = output w1 @ take n (gather (cb_buffers cb) (mem w1))"
      by (auto simp: writes_def)
    have "take n (gather (cb_buffers cb) (mem w1)) = take n (drop t (gather bs (mem w)))"
      using P n(1) by (simp add: gather_def addrs_cb_buffers take_map drop_map min_def)
    then have o: "output w2 = output w @ take (t + n) (gather bs (mem w))" using P r(2) by (simp add: take_add)
    have "t + n + cc ec (t + n) \<le> k" if "asks_up_to k cc" for k
    proof -
      have "t + n \<le> k" using P n(1) that by (meson add_left_mono le_trans)
      then show ?thesis using that by (simp add: asks_up_to_def)
    qed
    moreover have "t + n \<le> length (addrs bs)" using P n(2) by auto
    ultimately show "?P (t + n) (cb_prepare (cc ec (t + n)) (cb_consume n cb)) w2"
      using o P r(1) by (simp add: cb_consume_left add.commute)
  next
    have "cc no_error 0 \<le> k" if "asks_up_to k cc" for k
      using that unfolding asks_up_to_def by (metis add_0 le0)
    then show "?P 0 (cb_prepare (cc no_error 0) (cb_new bs)) w" by (simp add: cb_left_new)
  qed (simp_all add: cb_at_end_new cb_left_def)
  then obtain n ec' w' cb' where r: "io_sync io cc bs w = Some (n, ec', w')" "?P n cb' w'" "cb_left cb' = [] \<or> cc ec' n = 0"
    unfolding io_sync_def by blast
  have "n \<le> k" if "asks_up_to k cc" for k using r(2) that by (meson add_leD1)
  moreover have "n = length (addrs bs) \<or> cc ec' n = 0" using r(2,3) by auto
  ultimately show ?thesis using r by (auto simp: buffer_size_eq)
qed

subsection \<open>The asynchronous operations\<close>

lemma op_loop_Handler [simp]: "op_loop io resume (Handler ec n) w = Some (n, ec, w)"
  by (subst op_loop.simps) simp

lemma op_loop_Async:
  "io t bs w = (n, ec, w') \<Longrightarrow> op_loop io resume (Async t bs op) w = op_loop io resume (resume op ec n) w'"
  by (subst op_loop.simps) simp

text \<open>A resumed operation goes on where the loop would, unless a transfer without error moved nothing;
  a stream that makes progress does that only when there is nothing left.\<close>

lemma rw_loop_sync:
  assumes io: "bounded_io io" "progressing io" and cc: "stops_on_error cc" and nd: "\<not> cb_done cb"
  shows "op_loop io (rw_resume cc) (Async t (cb_buffers cb) \<lparr>op_buffers = cb, op_total = t\<rparr>) w = io_loop io cc cb ec0 t w"
  using nd
proof (induction "work_left cb" arbitrary: cb ec0 t w rule: less_induct)
  case less
  obtain n ec w' where tr: "io t (cb_buffers cb) w = (n, ec, w')" by (metis prod_cases3)
  let ?cb = "cb_prepare (cc ec (t + n)) (cb_consume n cb)"
  let ?next = "rw_resume cc \<lparr>op_buffers = cb, op_total = t\<rparr> ec n"
  have idle: "cb_done ?cb" if "\<not> is_error ec" "n = 0"
  proof -
    have "buffers_size (cb_buffers cb) = 0" using io(2) tr that unfolding progressing_def by (metis fst_conv gr0I less_irrefl snd_conv)
    then have "cb_left cb = []" using less.prems by (auto simp: buffer_size_eq addrs_cb_buffers cb_done_iff min_def split: if_splits)
    then show ?thesis by (simp add: cb_done_iff cb_consume_left(3))
  qed
  have nx: "?next = (if cb_done ?cb then Handler ec (t + n) else Async (t + n) (cb_buffers ?cb) \<lparr>op_buffers = ?cb, op_total = t + n\<rparr>)"
    using idle by (auto simp: rw_resume_def Let_def cb_done_def)
  have "op_loop io (rw_resume cc) ?next w' = io_loop io cc ?cb ec (t + n) w'"
  proof (cases "cb_done ?cb")
    case True
    then show ?thesis by (simp add: nx io_loop_done)
  next
    case False
    then show ?thesis using less.hyps [OF work_left_step [OF less.prems tr io cc] False, of "t + n" w' ec] by (simp add: nx)
  qed
  then show ?case using op_loop_Async [of io t "cb_buffers cb" w n ec w' "rw_resume cc"] io_loop_step [of cb io t w n ec w' cc ec0]
      tr less.prems by simp
qed

lemma async_is_sync:
  assumes "bounded_io io" "progressing io" "stops_on_error cc" "cc no_error 0 > 0" "bs \<noteq> []"
  shows "op_loop io (rw_resume cc) (rw_start cc bs) w = io_sync io cc bs w"
proof -
  have "\<not> cb_done (cb_prepare (cc no_error 0) (cb_new bs))"
    using assms(4,5) by (auto simp: cb_done_iff cb_prepare_def cb_new_def split: list.splits)
  from rw_loop_sync [OF assms(1-3) this, of 0 w no_error] show ?thesis
    by (simp add: rw_start_def io_sync_def Let_def)
qed

subsection \<open>The specialised operations\<close>

text \<open>What an operation asks for, and what it ends with, when completions arrive in turn.\<close>

fun op_trace :: "('op \<Rightarrow> error_code \<Rightarrow> nat \<Rightarrow> 'op next_step) \<Rightarrow> 'op next_step \<Rightarrow> (error_code \<times> nat) list \<Rightarrow>
    (nat \<times> nat list) list \<times> (error_code \<times> nat) option" where
  "op_trace resume (Handler ec n) cs = ([], Some (ec, n))"
| "op_trace resume (Async t bs op) [] = ([(t, addrs bs)], None)"
| "op_trace resume (Async t bs op) ((ec, n) # cs) =
     (let (tr, r) = op_trace resume (resume op ec n) cs in ((t, addrs bs) # tr, r))"

text \<open>Completions report no more than was asked for.\<close>

fun fitting :: "('op \<Rightarrow> error_code \<Rightarrow> nat \<Rightarrow> 'op next_step) \<Rightarrow> 'op next_step \<Rightarrow> (error_code \<times> nat) list \<Rightarrow> bool" where
  "fitting resume (Async t bs op) ((ec, n) # cs) \<longleftrightarrow> n \<le> buffers_size bs \<and> fitting resume (resume op ec n) cs"
| "fitting resume _ _ \<longleftrightarrow> True"

fun step_rel :: "(buf list \<Rightarrow> 'a \<Rightarrow> 'b \<Rightarrow> bool) \<Rightarrow> 'a next_step \<Rightarrow> 'b next_step \<Rightarrow> bool" where
  "step_rel R (Async t bs op) (Async t' bs' op') \<longleftrightarrow> t = t' \<and> addrs bs = addrs bs' \<and> R bs op op'"
| "step_rel R (Handler ec n) (Handler ec' n') \<longleftrightarrow> ec = ec' \<and> n = n'"
| "step_rel R _ _ \<longleftrightarrow> False"

lemma simulation_trace:
  assumes sim: "\<And>bs op op' ec n. R bs op op' \<Longrightarrow> n \<le> buffers_size bs \<Longrightarrow>
      step_rel R (resume op ec n) (resume' op' ec n)"
  shows "step_rel R st st' \<Longrightarrow> fitting resume st cs \<Longrightarrow> op_trace resume st cs = op_trace resume' st' cs"
proof (induction cs arbitrary: st st')
  case Nil
  then show ?case by (cases st; cases st') auto
next
  case (Cons c cs)
  obtain ec n where c: "c = (ec, n)" by (cases c)
  show ?case
  proof (cases st)
    case (Async t bs op)
    then obtain bs' op' where st': "st' = Async t bs' op'" "addrs bs = addrs bs'" "R bs op op'"
      using Cons.prems(1) by (cases st') auto
    have "step_rel R (resume op ec n) (resume' op' ec n)" "fitting resume (resume op ec n) cs"
      using Cons.prems(2) sim [OF st'(3)] by (simp_all add: Async c)
    from Cons.IH [OF this] show ?thesis by (simp add: Async st' c)
  next
    case (Handler e k)
    then show ?thesis using Cons.prems(1) by (cases st') auto
  qed
qed

text \<open>The state of the general operation in terms of the bytes so far.\<close>

definition at_byte :: "buf list \<Rightarrow> nat \<Rightarrow> nat \<Rightarrow> buf list \<Rightarrow> rw_op \<Rightarrow> bool" where
  "at_byte all t k bs op \<longleftrightarrow> op_total op = t \<and> t \<le> length (addrs all) \<and>
     cb_left (op_buffers op) = drop t (addrs all) \<and> addrs bs = take k (drop t (addrs all))"

lemma rw_start_at_byte:
  "rw_start cc all = Async 0 (cb_buffers (cb_prepare (cc no_error 0) (cb_new all)))
       \<lparr>op_buffers = cb_prepare (cc no_error 0) (cb_new all), op_total = 0\<rparr> \<and>
   at_byte all 0 (cc no_error 0) (cb_buffers (cb_prepare (cc no_error 0) (cb_new all)))
       \<lparr>op_buffers = cb_prepare (cc no_error 0) (cb_new all), op_total = 0\<rparr>"
  by (simp add: rw_start_def Let_def at_byte_def cb_left_new addrs_cb_buffers)

lemma rw_resume_at_byte:
  assumes "at_byte all t k bs op" "n \<le> buffers_size bs"
  shows "if (\<not> is_error ec \<and> n = 0) \<or> cc ec (t + n) = 0 \<or> t + n = length (addrs all)
    then rw_resume cc op ec n = Handler ec (t + n)
    else \<exists>bs' op'. rw_resume cc op ec n = Async (t + n) bs' op' \<and> at_byte all (t + n) (cc ec (t + n)) bs' op'"
proof -
  let ?cb = "cb_prepare (cc ec (t + n)) (cb_consume n (op_buffers op))"
  have len: "t + n \<le> length (addrs all)" using assms by (auto simp: at_byte_def buffer_size_eq)
  have l: "cb_left ?cb = drop (t + n) (addrs all)" using assms(1) by (simp add: at_byte_def cb_consume_left add.commute)
  have "cb_done ?cb \<longleftrightarrow> cc ec (t + n) = 0 \<or> t + n = length (addrs all)"
    using assms(1) len by (auto simp: cb_done_iff cb_consume_left(3) at_byte_def)
  moreover have "rw_resume cc op ec n = (if (\<not> is_error ec \<and> n = 0) \<or> cb_done ?cb then Handler ec (t + n)
      else Async (t + n) (cb_buffers ?cb) \<lparr>op_buffers = ?cb, op_total = t + n\<rparr>)"
    using assms(1) by (simp add: rw_resume_def Let_def cb_done_def at_byte_def)
  moreover have "at_byte all (t + n) (cc ec (t + n)) (cb_buffers ?cb) \<lparr>op_buffers = ?cb, op_total = t + n\<rparr>"
    using l len by (simp add: at_byte_def addrs_cb_buffers)
  ultimately show ?thesis by auto
qed

definition rel1 :: "buf \<Rightarrow> buf list \<Rightarrow> rw_op \<Rightarrow> rw1_op \<Rightarrow> bool" where
  "rel1 b bs op op1 \<longleftrightarrow> (\<exists>k. at_byte [b] (op1_total op1) k bs op) \<and> op1_buffer op1 = b"

lemma rel1_resume:
  assumes "rel1 b bs op op1" "n \<le> buffers_size bs"
  shows "step_rel (rel1 b) (rw_resume cc op ec n) (rw1_resume cc op1 ec n)"
proof -
  let ?t = "op1_total op1 + n"
  from assms(1) obtain k where a: "at_byte [b] (op1_total op1) k bs op" and b: "op1_buffer op1 = b"
    by (auto simp: rel1_def)
  from rw_resume_at_byte [OF a assms(2), of ec cc] show ?thesis
    by (auto simp: rw1_resume_def Let_def b rel1_def at_byte_def split: if_splits)
qed

lemma addrs_two_buffers:
  "t \<le> b_size b0 + b_size b1 \<Longrightarrow> addrs (two_buffers (b0, b1) t k) = take k (drop t (addrs [b0, b1]))"
  by (auto simp: two_buffers_def Let_def min_def)

definition rel2 :: "buf \<times> buf \<Rightarrow> buf list \<Rightarrow> rw_op \<Rightarrow> rw2_op \<Rightarrow> bool" where
  "rel2 b bs op op2 \<longleftrightarrow> (\<exists>k. at_byte [fst b, snd b] (op2_total op2) k bs op) \<and> op2_buffers op2 = b"

lemma rel2_resume:
  assumes "rel2 b bs op op2" "n \<le> buffers_size bs"
  shows "step_rel (rel2 b) (rw_resume cc op ec n) (rw2_resume cc op2 ec n)"
proof -
  obtain b0 b1 where bb: "b = (b0, b1)" by (cases b)
  from assms(1) obtain k where a: "at_byte [b0, b1] (op2_total op2) k bs op" and b: "op2_buffers op2 = (b0, b1)"
    by (auto simp: rel2_def bb)
  have "op2_total op2 + n \<le> b_size b0 + b_size b1" using a assms(2) by (auto simp: at_byte_def buffer_size_eq)
  note t = addrs_two_buffers [OF this]
  from rw_resume_at_byte [OF a assms(2), of ec cc] show ?thesis
    by (auto simp: rw2_resume_def Let_def b rel2_def bb at_byte_def t split: if_splits)
qed

subsection \<open>Streams of bytes in memory\<close>

text \<open>A stream that delivers at most two bytes at a time and then end of file, and one that takes at
  most three.\<close>

definition drip :: "buf list \<Rightarrow> memory \<times> u8 list \<Rightarrow> nat \<times> error_code \<times> memory \<times> u8 list" where
  "drip bs w = (let n = min 2 (min (buffers_size bs) (length (snd w))) in
     (n, if snd w = [] then misc_error eof else no_error, store (addrs bs) (take n (snd w)) (fst w), drop n (snd w)))"

definition soak :: "buf list \<Rightarrow> memory \<times> u8 list \<Rightarrow> nat \<times> error_code \<times> memory \<times> u8 list" where
  "soak bs w = (let n = min 3 (buffers_size bs) in (n, no_error, fst w, snd w @ take n (gather bs (fst w))))"

lemma drip_reads: "reads (\<lambda>_. drip) fst snd" "progressing (\<lambda>_. drip)" "bounded_io (\<lambda>_. drip)"
proof -
  show "reads (\<lambda>_. drip) fst snd" by (auto simp: reads_def drip_def Let_def)
  then show "bounded_io (\<lambda>_. drip)" by (rule bounded_of_reads)
  show "progressing (\<lambda>_. drip)" by (auto simp: progressing_def drip_def Let_def)
qed

lemma soak_writes: "writes (\<lambda>_. soak) fst snd" "progressing (\<lambda>_. soak)"
  by (auto simp: writes_def progressing_def soak_def Let_def)

lemma fitting_Nil [simp]: "fitting resume st []"
  by (cases st) simp_all

subsection \<open>Properties\<close>

text \<open>
  C27. A read into a buffer sequence returns, whatever sizes the stream delivers, as long as each
  transfer moves a byte or fails: the bytes are the next ones of the stream, in order, at the addresses of the
  sequence, and either the sequence is full or an error is reported; reading exactly \<open>k\<close> bytes takes
  no more than \<open>k\<close> from the stream, and fewer only on an error or in a smaller sequence.
\<close>

theorem read_fills_buffers:
  assumes "reads (\<lambda>_. read_some) mem input" "progressing (\<lambda>_. read_some)"
  shows "(\<exists>n ec w'. read_sync read_some bs transfer_all w = Some (n, ec, w') \<and>
      mem w' = store (addrs bs) (take n (input w)) (mem w) \<and> input w' = drop n (input w) \<and>
      n \<le> buffers_size bs \<and> (is_error ec \<or> n = buffers_size bs)) \<and>
    (\<exists>n ec w'. read_sync read_some bs (transfer_exactly k) w = Some (n, ec, w') \<and>
      mem w' = store (addrs bs) (take n (input w)) (mem w) \<and> input w' = drop n (input w) \<and>
      n \<le> min k (buffers_size bs) \<and> (is_error ec \<or> n = min k (buffers_size bs)))"
proof
  from io_sync_reads [OF assms, of transfer_all bs w]
  show "\<exists>n ec w'. read_sync read_some bs transfer_all w = Some (n, ec, w') \<and>
      mem w' = store (addrs bs) (take n (input w)) (mem w) \<and> input w' = drop n (input w) \<and>
      n \<le> buffers_size bs \<and> (is_error ec \<or> n = buffers_size bs)"
    by (auto simp: read_sync_def)
  from io_sync_reads [OF assms, of "transfer_exactly k" bs w] obtain n ec w' where
    r: "io_sync (\<lambda>_. read_some) (transfer_exactly k) bs w = Some (n, ec, w')" "n \<le> buffers_size bs"
      "mem w' = store (addrs bs) (take n (input w)) (mem w)" "input w' = drop n (input w)"
      "n = buffers_size bs \<or> transfer_exactly k ec n = 0" "n \<le> k"
    using asks_up_to_exactly by auto
  then show "\<exists>n ec w'. read_sync read_some bs (transfer_exactly k) w = Some (n, ec, w') \<and>
      mem w' = store (addrs bs) (take n (input w)) (mem w) \<and> input w' = drop n (input w) \<and>
      n \<le> min k (buffers_size bs) \<and> (is_error ec \<or> n = min k (buffers_size bs))"
    by (auto simp: read_sync_def)
qed

theorem read_fills_buffers_witness:
  "\<exists>n ec w'. read_sync drip [\<lparr>b_addr = 5, b_size = 3\<rparr>] transfer_all (\<lambda>_. 0, [7, 8, 9, 10]) = Some (n, ec, w') \<and>
     n \<le> 3 \<and> (is_error ec \<or> n = 3)"
  using read_fills_buffers [OF drip_reads(1,2), of "[\<lparr>b_addr = 5, b_size = 3\<rparr>]" "(\<lambda>_. 0, [7, 8, 9, 10])" 2]
  by (auto simp: buffer_size_eq)


text \<open>
  A write of a buffer sequence returns and sends the bytes of the sequence in order, each once:
  all of them, or a prefix when it reports an error; memory is not changed.
\<close>

theorem write_sends_all:
  assumes "writes (\<lambda>_. write_some) mem output" "progressing (\<lambda>_. write_some)"
  shows "\<exists>n ec w'. write_sync write_some bs transfer_all w = Some (n, ec, w') \<and> mem w' = mem w \<and>
      output w' = output w @ take n (gather bs (mem w)) \<and> n \<le> buffers_size bs \<and> (is_error ec \<or> n = buffers_size bs)"
  using io_sync_writes [OF assms, of transfer_all bs w] by (auto simp: write_sync_def)

theorem write_sends_all_witness:
  "\<exists>n ec w'. write_sync soak [\<lparr>b_addr = 5, b_size = 4\<rparr>] transfer_all (\<lambda>_. 1, []) = Some (n, ec, w') \<and>
     snd w' = take n [1, 1, 1, 1] \<and> (is_error ec \<or> n = 4)"
  using write_sends_all [OF soak_writes, of "[\<lparr>b_addr = 5, b_size = 4\<rparr>]" "(\<lambda>_. 1, [])"]
  by (auto simp: buffer_size_eq gather_def buf_addrs_def upt_rec)


text \<open>
  C28. An asynchronous read or write of a sequence that is not empty, driven by the same stream, ends with
  the same number of bytes, the same error and the same state as the synchronous one, for every
  condition that stops on an error and asks for something at first.
\<close>

theorem async_read_equals_sync:
  assumes "bounded_io (\<lambda>n. read_some_at (offset + of_nat n))" "progressing (\<lambda>n. read_some_at (offset + of_nat n))"
    "stops_on_error cc" "cc no_error 0 > 0" "bs \<noteq> []"
  shows "async_read_at read_some_at offset bs cc w = read_at_sync read_some_at offset bs cc w \<and>
    async_write_at read_some_at offset bs cc w = write_at_sync read_some_at offset bs cc w"
  unfolding async_read_at_def read_at_sync_def async_write_at_def write_at_sync_def
  using async_is_sync [OF assms] by simp

theorem async_read_equals_sync_witness:
  "async_read_at (\<lambda>_. drip) 3 [\<lparr>b_addr = 5, b_size = 3\<rparr>] transfer_all (\<lambda>_. 0, [7, 8, 9, 10]) =
   read_at_sync (\<lambda>_. drip) 3 [\<lparr>b_addr = 5, b_size = 3\<rparr>] transfer_all (\<lambda>_. 0, [7, 8, 9, 10])"
  using async_read_equals_sync [of "\<lambda>_. drip" 3 transfer_all "[\<lparr>b_addr = 5, b_size = 3\<rparr>]" "(\<lambda>_. 0, [7, 8, 9, 10])"] drip_reads
  by (simp add: transfer_all_def default_max_transfer_size_def)


text \<open>
  C29. The operations specialised for one buffer and for two start the same transfers, byte for byte,
  as the general one and end with the same result, for every condition and every course of
  completions that fit what was asked for.
\<close>

theorem specialised_ops_agree:
  assumes "fitting (rw_resume cc) (rw_start cc [b0]) cs" "fitting (rw_resume cc) (rw_start cc [b0, b1]) cs'"
  shows "op_trace (rw1_resume cc) (rw1_start cc b0) cs = op_trace (rw_resume cc) (rw_start cc [b0]) cs \<and>
    op_trace (rw2_resume cc) (rw2_start cc (b0, b1)) cs' = op_trace (rw_resume cc) (rw_start cc [b0, b1]) cs'"
proof
  have "step_rel (rel1 b0) (rw_start cc [b0]) (rw1_start cc b0)"
    using rw_start_at_byte [of cc "[b0]"] by (auto simp: rw1_start_def rel1_def at_byte_def)
  from simulation_trace [OF rel1_resume this assms(1)]
  show "op_trace (rw1_resume cc) (rw1_start cc b0) cs = op_trace (rw_resume cc) (rw_start cc [b0]) cs" by simp
  have "step_rel (rel2 (b0, b1)) (rw_start cc [b0, b1]) (rw2_start cc (b0, b1))"
    using rw_start_at_byte [of cc "[b0, b1]"] by (auto simp: rw2_start_def rel2_def at_byte_def addrs_two_buffers)
  from simulation_trace [OF rel2_resume this assms(2)]
  show "op_trace (rw2_resume cc) (rw2_start cc (b0, b1)) cs' = op_trace (rw_resume cc) (rw_start cc [b0, b1]) cs'" by simp
qed

theorem specialised_ops_agree_witness:
  "op_trace (rw2_resume transfer_all) (rw2_start transfer_all (\<lparr>b_addr = 0, b_size = 2\<rparr>, \<lparr>b_addr = 8, b_size = 2\<rparr>)) [(no_error, 3)] =
   op_trace (rw_resume transfer_all) (rw_start transfer_all [\<lparr>b_addr = 0, b_size = 2\<rparr>, \<lparr>b_addr = 8, b_size = 2\<rparr>]) [(no_error, 3)]"
proof -
  have "fitting (rw_resume transfer_all) (rw_start transfer_all [\<lparr>b_addr = 0, b_size = 2\<rparr>, \<lparr>b_addr = 8, b_size = 2\<rparr>]) [(no_error, 3)]"
    by (simp add: rw_start_def Let_def buffer_size_eq addrs_cb_buffers cb_left_new transfer_all_def default_max_transfer_size_def)
  from specialised_ops_agree [OF _ this, of "[]"] show ?thesis by simp
qed

end
