(* ===== verification/ReadUntilSpec.thy ===== *)
theory ReadUntilSpec
  imports ReadUntil ReadWriteSpec
begin

text \<open>
  What reading into a streambuf promises: the bytes taken from the stream are appended, nothing is
  thrown, and reading until a delimiter ends at its first occurrence, found although it may
  arrive in pieces; the asynchronous operations give the same, except that a read of nothing
  without error makes them report a match that is not there.
\<close>

subsection \<open>The stream\<close>

definition delivers :: "'s reader \<Rightarrow> ('s \<Rightarrow> u8 list) \<Rightarrow> bool" where
  "delivers rd input \<longleftrightarrow> (\<forall>k s bytes ec s'. rd k s = (bytes, ec, s') \<longrightarrow>
     length bytes \<le> k \<and> input s = bytes @ input s')"

definition rd_progress :: "'s reader \<Rightarrow> bool" where
  "rd_progress rd \<longleftrightarrow> (\<forall>k s. k > 0 \<longrightarrow> fst (rd k s) \<noteq> [] \<or> is_error (fst (snd (rd k s))))"

lemma sb_read_some_ok:
  assumes "sb_ok sb" "sb_size sb + k \<le> sb_max_size sb" "k < 2 ^ 31" "delivers rd input" "rd k s = (bytes, ec, s')"
  shows "\<exists>sb'. sb_read_some rd k sb s = (Inr (length bytes, ec), sb', s') \<and> sb_ok sb' \<and>
    sb_data sb' = sb_data sb @ bytes \<and> sb_max_size sb' = sb_max_size sb \<and> input s = bytes @ input s' \<and> length bytes \<le> k"
proof -
  from sb_prepare_ok [OF assms(1,2)] obtain sb1 where p: "sb_prepare k sb = (Inr (p_next sb1, k), sb1)" "sb_ok sb1"
    "sb_data sb1 = sb_data sb" "sb_max_size sb1 = sb_max_size sb" "p_next sb1 + k \<le> p_end sb1" by blast
  have b: "length bytes \<le> k" "input s = bytes @ input s'" using assms(4,5) by (auto simp: delivers_def)
  have "p_next sb1 + length bytes \<le> p_end sb1" "length bytes < 2 ^ 31" using p(5) b(1) assms(3) by linarith+
  from sb_fill_commit [OF p(2) this] show ?thesis
    using p b by (simp add: sb_read_some_def assms(5))
qed

lemma read_size_fits: "sb_ok sb \<Longrightarrow> sb_size sb + read_size_helper sb k \<le> sb_max_size sb"
  using sb_size_max [of sb] by (simp add: read_size_helper_def)

lemma read_size_le: "read_size_helper sb k \<le> k"
  by (simp add: read_size_helper_def)

lemma read_size_pos: "sb_ok sb \<Longrightarrow> sb_size sb \<noteq> sb_max_size sb \<Longrightarrow> k > 0 \<Longrightarrow> read_size_helper sb k > 0"
  using sb_size_max [of sb] by (simp add: read_size_helper_def)

lemma room_shrinks:
  assumes "sb_ok sb" "sb_ok sb'" "sb_data sb' = sb_data sb @ bytes" "bytes \<noteq> []" "sb_max_size sb' = sb_max_size sb"
  shows "sb_max_size sb' - sb_size sb' < sb_max_size sb - sb_size sb"
proof -
  have "length bytes > 0" using assms(4) by simp
  moreover have "sb_size sb' = sb_size sb + length bytes"
    using sb_size_data [OF assms(1)] sb_size_data [OF assms(2)] assms(3) by simp
  moreover have "sb_size sb' \<le> sb_max_size sb" using sb_size_max [OF assms(2)] assms(5) by simp
  ultimately show ?thesis unfolding assms(5) by linarith
qed

lemmas sb_read_size_ok = sb_read_some_ok [OF _ read_size_fits]

subsection \<open>Searching\<close>

text \<open>No continuation of the text makes the delimiter start here.\<close>

definition dead :: "u8 list \<Rightarrow> u8 list \<Rightarrow> bool" where
  "dead p u \<longleftrightarrow> (\<forall>ys. \<not> prefix p (u @ ys))"

lemma compare_at_prefix:
  "(case compare_at u p adv of
      Full \<Rightarrow> prefix p u
    | Partial \<Rightarrow> strict_prefix u p
    | Different \<Rightarrow> dead p u \<or> (u = [] \<and> p \<noteq> [] \<and> \<not> adv))"
proof (induction u p adv rule: compare_at.induct)
  case (3 x xs p ps adv)
  then show ?case by (auto simp: dead_def split: comparison.splits)
qed (auto simp: dead_def)

lemma not_prefix_shorter: "strict_prefix u p \<Longrightarrow> \<not> prefix p (drop j u)"
proof
  assume "strict_prefix u p" "prefix p (drop j u)"
  then have "length u < length p" "length p \<le> length (drop j u)"
    by (blast intro: prefix_length_less prefix_length_le)+
  then show False by simp
qed

lemma partial_search_spec:
  assumes "p \<noteq> []" "partial_search u p = (i, b)"
  shows "i \<le> length u \<and> (\<forall>j<i. dead p (drop j u)) \<and> (b \<longrightarrow> i < length u \<and> prefix p (drop i u)) \<and>
    (\<not> b \<longrightarrow> (\<forall>j. \<not> prefix p (drop j u)))"
  using assms(2)
proof (induction u arbitrary: i b)
  case Nil
  then show ?case using assms(1) by simp
next
  case (Cons x xs)
  show ?case
  proof (cases "compare_at (x # xs) p False")
    case Full
    then show ?thesis using Cons.prems compare_at_prefix [where u = "x # xs" and p = p and adv = False] by simp
  next
    case Partial
    then have "strict_prefix (x # xs) p" using compare_at_prefix [where u = "x # xs" and p = p and adv = False] by simp
    from not_prefix_shorter [OF this] show ?thesis using Partial Cons.prems by auto
  next
    case Different
    then have d: "dead p (x # xs)" using compare_at_prefix [where u = "x # xs" and p = p and adv = False] by simp
    obtain i' where i: "partial_search xs p = (i', b)" "i = Suc i'"
      using Different Cons.prems by (auto split: prod.splits)
    from Cons.IH [OF i(1)] have IH: "i' \<le> length xs" "\<forall>j<i'. dead p (drop j xs)"
      "b \<longrightarrow> i' < length xs \<and> prefix p (drop i' xs)" "\<not> b \<longrightarrow> (\<forall>j. \<not> prefix p (drop j xs))" by auto
    have "dead p (drop j (x # xs))" if "j < i" for j using that d IH(2) i(2) by (cases j) auto
    moreover have "\<not> prefix p (drop j (x # xs))" if "\<not> b" for j
    proof (cases j)
      case 0
      have "\<not> prefix p ((x # xs) @ [])" using d unfolding dead_def by blast
      with 0 show ?thesis by simp
    next
      case (Suc j')
      then show ?thesis using IH(4) that by simp
    qed
    ultimately show ?thesis using IH i(2) by auto
  qed
qed

text \<open>What a search is to say, given that no occurrence starts before the position.\<close>

definition first_at :: "u8 list \<Rightarrow> u8 list \<Rightarrow> nat \<Rightarrow> bool" where
  "first_at p xs i \<longleftrightarrow> prefix p (drop i xs) \<and> (\<forall>j<i. \<not> prefix p (drop j xs))"

definition search_ok :: "(u8 list \<Rightarrow> nat \<Rightarrow> found) \<Rightarrow> u8 list \<Rightarrow> bool" where
  "search_ok search p \<longleftrightarrow> (\<forall>xs pos. pos \<le> length xs \<and> (\<forall>j<pos. dead p (drop j xs)) \<longrightarrow>
     (case search xs pos of
        Match n \<Rightarrow> n \<le> length xs \<and> (\<exists>i. n = i + length p \<and> first_at p xs i)
      | Resume q \<Rightarrow> q \<le> length xs \<and> (\<forall>j<q. dead p (drop j xs)) \<and> (\<forall>j. \<not> prefix p (drop j xs))))"

lemma dead_not_prefix: "dead p u \<Longrightarrow> \<not> prefix p u"
  unfolding dead_def by (metis append_Nil2)

lemma dead_append: "j \<le> length xs \<Longrightarrow> dead p (drop j xs) \<Longrightarrow> dead p (drop j (xs @ ys))"
  by (simp add: dead_def)

lemma search_string_ok:
  assumes p: "p \<noteq> []"
  shows "search_ok (search_string p) p"
  unfolding search_ok_def
proof (intro allI impI, elim conjE)
  fix xs pos
  assume pos: "pos \<le> length xs" and before: "\<forall>j<pos. dead p (drop j xs)"
  obtain i b where s: "partial_search (drop pos xs) p = (i, b)" by fastforce
  from partial_search_spec [OF p s] have i: "i \<le> length (drop pos xs)" "\<forall>j<i. dead p (drop (pos + j) xs)"
    "b \<Longrightarrow> i < length (drop pos xs) \<and> prefix p (drop (pos + i) xs)"
    "\<not> b \<Longrightarrow> \<forall>j. \<not> prefix p (drop (pos + j) xs)" by (auto simp: add.commute)
  have d: "dead p (drop j xs)" if "j < pos + i" for j
  proof (cases "j < pos")
    case False
    then have "j = pos + (j - pos)" "j - pos < i" using that by auto
    then show ?thesis using i(2) by metis
  qed (use before in blast)
  have n: "\<not> prefix p (drop j xs)" if "\<not> b" for j
  proof (cases "j < pos")
    case False
    then have "j = pos + (j - pos)" by auto
    then show ?thesis using i(4) [OF that] by metis
  qed (use before dead_not_prefix in blast)
  show "case search_string p xs pos of
        Match n \<Rightarrow> n \<le> length xs \<and> (\<exists>i. n = i + length p \<and> first_at p xs i)
      | Resume q \<Rightarrow> q \<le> length xs \<and> (\<forall>j<q. dead p (drop j xs)) \<and> (\<forall>j. \<not> prefix p (drop j xs))"
  proof (cases b)
    case True
    with i(3) have f: "pos + i < length xs" "prefix p (drop (pos + i) xs)" by auto
    then have "length p \<le> length xs - (pos + i)" using prefix_length_le by fastforce
    then have "pos + i + length p \<le> length xs" using f(1) by linarith
    moreover have "first_at p xs (pos + i)" using f d dead_not_prefix by (auto simp: first_at_def)
    ultimately show ?thesis using f(1) True by (auto simp: search_string_def s Let_def)
  next
    case False
    have "pos + i \<le> length xs" using i(1) pos by simp
    with d n [OF False] show ?thesis by (simp add: search_string_def s Let_def False)
  qed
qed

lemma search_char_string: "pos \<le> length xs \<Longrightarrow> search_char d xs pos = search_string [d] xs pos"
proof -
  have "partial_search u [d] = (find_char u d, find_char u d < length u)" for u
    by (induction u) auto
  moreover have "find_char u d \<le> length u" for u by (induction u) auto
  note f = calculation this [of "drop pos xs"]
  assume "pos \<le> length xs"
  with f(2) have "pos + find_char (drop pos xs) d \<noteq> length xs \<longleftrightarrow> find_char (drop pos xs) d < length xs - pos"
    by auto
  then show ?thesis by (simp add: search_char_def search_string_def Let_def f(1))
qed

lemma search_char_ok: "search_ok (search_char d) [d]"
  using search_string_ok [of "[d]"] by (auto simp: search_ok_def search_char_string)

subsection \<open>Reading until a match\<close>

definition until_end :: "u8 list \<Rightarrow> 's reader \<Rightarrow> nat \<Rightarrow> error_code \<Rightarrow> streambuf \<Rightarrow> bool" where
  "until_end p rd n ec sb \<longleftrightarrow>
     (if is_error ec then n = 0 \<and>
        ((ec = misc_error not_found \<and> length (sb_data sb) = sb_max_size sb \<and> (\<forall>j. \<not> prefix p (drop j (sb_data sb)))) \<or>
         (\<exists>k s. ec = fst (snd (rd k s))))
      else \<exists>i. n = i + length p \<and> first_at p (sb_data sb) i)"

lemma until_loop_spec:
  assumes rd: "delivers rd input" "rd_progress rd" and search: "search_ok search p"
  shows "sb_ok sb \<Longrightarrow> pos \<le> length (sb_data sb) \<Longrightarrow> \<forall>j<pos. dead p (drop j (sb_data sb)) \<Longrightarrow>
    \<exists>n ec sb' s' bytes. until_loop rd search pos sb s = Some (Inr (n, ec), sb', s') \<and> sb_ok sb' \<and>
      sb_max_size sb' = sb_max_size sb \<and> sb_data sb' = sb_data sb @ bytes \<and> input s = bytes @ input s' \<and>
      until_end p rd n ec sb' \<and> ((\<exists>j. prefix p (drop j (sb_data sb))) \<longrightarrow> sb' = sb \<and> s' = s)"
proof (induction "sb_max_size sb - sb_size sb" arbitrary: sb pos s rule: less_induct)
  case less
  show ?case
  proof (cases "search (sb_data sb) pos")
    case (Match n)
    then have "\<exists>i. n = i + length p \<and> first_at p (sb_data sb) i"
      using search less.prems(2,3) by (fastforce simp: search_ok_def)
    moreover have "until_loop rd search pos sb s = Some (Inr (n, no_error), sb, s)"
      by (subst until_loop.simps) (simp add: Match)
    ultimately show ?thesis using less.prems(1) by (simp add: until_end_def)
  next
    case (Resume q)
    then have q: "q \<le> length (sb_data sb)" "\<forall>j<q. dead p (drop j (sb_data sb))" "\<forall>j. \<not> prefix p (drop j (sb_data sb))"
      using search less.prems(2,3) by (fastforce simp: search_ok_def)+
    show ?thesis
    proof (cases "sb_size sb = sb_max_size sb")
      case True
      then have "until_loop rd search pos sb s = Some (Inr (0, misc_error not_found), sb, s)"
        by (subst until_loop.simps) (simp add: Resume)
      then show ?thesis using less.prems(1) q(3) True sb_size_data [OF less.prems(1)] by (simp add: until_end_def)
    next
      case False
      let ?k = "read_size_helper sb 65536"
      obtain bytes ec s1 where r: "rd ?k s = (bytes, ec, s1)" by (metis prod_cases3)
      have k: "?k > 0" "?k < 2 ^ 31" using read_size_pos [OF less.prems(1) False] read_size_le [of sb 65536] by auto
      from sb_read_size_ok [OF less.prems(1,1) k(2) rd(1) r] obtain sb1 where
        b: "sb_read_some rd ?k sb s = (Inr (length bytes, ec), sb1, s1)" "sb_ok sb1" "sb_data sb1 = sb_data sb @ bytes"
          "sb_max_size sb1 = sb_max_size sb" "input s = bytes @ input s1" by blast
      show ?thesis
      proof (cases "is_error ec")
        case True
        then have "until_loop rd search pos sb s = Some (Inr (0, ec), sb1, s1)"
          by (subst until_loop.simps) (simp add: Resume False b(1))
        moreover have "\<exists>k s. ec = fst (snd (rd k s))" using r by (metis fst_conv snd_conv)
        ultimately show ?thesis using b q(3) True by (auto simp: until_end_def)
      next
        case ok: False
        then have eq: "until_loop rd search pos sb s = until_loop rd search q sb1 s1"
          by (subst until_loop.simps) (simp add: Resume False b(1))
        have "bytes \<noteq> []" using rd(2) k(1) r ok unfolding rd_progress_def by (metis fst_conv snd_conv)
        note lt = room_shrinks [OF less.prems(1) b(2,3) this b(4)]
        have "\<forall>j<q. dead p (drop j (sb_data sb1))" using q(1,2) by (auto simp: b(3) intro!: dead_append simp del: drop_append)
        moreover have "q \<le> length (sb_data sb1)" using q(1) by (simp add: b(3))
        ultimately show ?thesis using less.hyps [OF lt b(2), of q s1] b q(3) unfolding eq by fastforce
      qed
    qed
  qed
qed

subsection \<open>The asynchronous operations\<close>

text \<open>A read without error says so with the code zero of the system category, and a read into an empty
  buffer does nothing.\<close>

definition plain_reader :: "'s reader \<Rightarrow> bool" where
  "plain_reader rd \<longleftrightarrow> (\<forall>s. rd 0 s = ([], no_error, s)) \<and>
     (\<forall>k s. is_error (fst (snd (rd k s))) \<or> fst (snd (rd k s)) = no_error)"

definition search_bounded :: "(u8 list \<Rightarrow> nat \<Rightarrow> found) \<Rightarrow> bool" where
  "search_bounded search \<longleftrightarrow> (\<forall>xs pos. pos \<le> length xs \<longrightarrow>
     (case search xs pos of Match n \<Rightarrow> n \<le> length xs | Resume q \<Rightarrow> q \<le> length xs))"

lemma search_string_bounded: "p \<noteq> [] \<Longrightarrow> search_bounded (search_string p)"
  unfolding search_bounded_def
proof (intro allI impI)
  fix xs :: "u8 list" and pos
  assume p: "p \<noteq> []" and pos: "pos \<le> length xs"
  obtain i b where s: "partial_search (drop pos xs) p = (i, b)" by fastforce
  from partial_search_spec [OF p s] have i: "i \<le> length xs - pos" "b \<Longrightarrow> prefix p (drop (pos + i) xs)"
    by (auto simp: add.commute)
  have "b \<Longrightarrow> length p \<le> length xs - (pos + i)" using i(2) prefix_length_le by fastforce
  then show "case search_string p xs pos of Match n \<Rightarrow> n \<le> length xs | Resume q \<Rightarrow> q \<le> length xs"
    using i(1) pos by (auto simp: search_string_def s Let_def)
qed

lemma search_char_bounded: "search_bounded (search_char d)"
  using search_string_bounded [of "[d]"] by (simp add: search_bounded_def search_char_string)

lemma async_until_loop_eq:
  assumes rd: "delivers rd input" "rd_progress rd" "plain_reader rd" and search: "search_bounded search"
  shows "sb_ok sb \<Longrightarrow> pos \<le> length (sb_data sb) \<Longrightarrow> length (sb_data sb) + length (input s) < size_t_max \<Longrightarrow>
    async_until_loop rd search False no_error pos sb s = until_loop rd search pos sb s"
proof (induction "sb_max_size sb - sb_size sb" arbitrary: sb pos s rule: less_induct)
  case less
  show ?case
  proof (cases "search (sb_data sb) pos")
    case (Match n)
    then have "n \<le> length (sb_data sb)" using search less.prems(2) by (fastforce simp: search_bounded_def)
    then show ?thesis using less.prems(3)
      by (subst until_loop.simps, subst async_until_loop.simps) (simp add: Match until_head_def until_result_def)
  next
    case (Resume q)
    then have q: "q \<le> length (sb_data sb)" using search less.prems(2) by (fastforce simp: search_bounded_def)
    show ?thesis
    proof (cases "sb_size sb = sb_max_size sb")
      case True
      then show ?thesis
        by (subst until_loop.simps, subst async_until_loop.simps) (simp add: Resume until_head_def until_result_def)
    next
      case False
      let ?k = "read_size_helper sb 65536"
      obtain bytes ec s1 where r: "rd ?k s = (bytes, ec, s1)" by (metis prod_cases3)
      have k: "?k > 0" "?k < 2 ^ 31" using read_size_pos [OF less.prems(1) False] read_size_le [of sb 65536] by auto
      from sb_read_size_ok [OF less.prems(1,1) k(2) rd(1) r] obtain sb1 where
        b: "sb_read_some rd ?k sb s = (Inr (length bytes, ec), sb1, s1)" "sb_ok sb1" "sb_data sb1 = sb_data sb @ bytes"
          "sb_max_size sb1 = sb_max_size sb" "input s = bytes @ input s1" by blast
      have head: "until_head search pos sb = (q, ?k)" using Resume False by (simp add: until_head_def)
      show ?thesis
      proof (cases "is_error ec")
        case True
        have "q \<noteq> size_t_max" using q less.prems(3) by simp
        then show ?thesis using True k(1) False
          by (subst until_loop.simps, subst async_until_loop.simps) (simp add: Resume head b(1) until_result_def)
      next
        case ok: False
        have n: "bytes \<noteq> []" using rd(2) k(1) r ok unfolding rd_progress_def by (metis fst_conv snd_conv)
        have ec: "ec = no_error" using rd(3) ok r unfolding plain_reader_def by (metis fst_conv snd_conv)
        note lt = room_shrinks [OF less.prems(1) b(2,3) n b(4)]
        have "async_until_loop rd search False no_error q sb1 s1 = until_loop rd search q sb1 s1"
          by (rule less.hyps [OF lt b(2)]) (use q less.prems(3) b(3,5) in auto)
        then show ?thesis using ok n k(1) False
          by (subst until_loop.simps, subst async_until_loop.simps) (simp add: Resume head b(1) ec)
      qed
    qed
  qed
qed

text \<open>The first step differs: what is there already is reported after a read of nothing.\<close>

definition observed :: "'s sb_result option \<Rightarrow> ((exn + nat \<times> error_code) \<times> u8 list \<times> 's) option" where
  "observed r = map_option (\<lambda>(r, sb, s). (r, sb_data sb, s)) r"

lemma async_until_first:
  assumes rd: "delivers rd input" "rd_progress rd" "plain_reader rd" and search: "search_bounded search"
    and sb: "sb_ok sb" "length (sb_data sb) + length (input s) < size_t_max"
  shows "observed (async_until_loop rd search True no_error 0 sb s) = observed (until_loop rd search 0 sb s)"
proof (cases "snd (until_head search 0 sb) = 0")
  case True
  then obtain q where h: "until_head search 0 sb = (q, 0)" by (metis prod.collapse)
  have z: "rd 0 s = ([], no_error, s)" using rd(3) by (simp add: plain_reader_def)
  from sb_read_some_ok [OF sb(1) _ _ rd(1) z] sb_size_max [OF sb(1)] obtain sb1 where
    "sb_read_some rd 0 sb s = (Inr (0, no_error), sb1, s)" "sb_data sb1 = sb_data sb" by auto
  then have a: "observed (async_until_loop rd search True no_error 0 sb s) = Some (Inr (until_result no_error q), sb_data sb, s)"
    by (subst async_until_loop.simps) (simp add: h observed_def)
  have "observed (until_loop rd search 0 sb s) = Some (Inr (until_result no_error q), sb_data sb, s)"
  proof (cases "search (sb_data sb) 0")
    case (Match n)
    then have "n \<le> length (sb_data sb)" using search unfolding search_bounded_def by (metis found.simps(5) le0)
    then show ?thesis using h sb(2)
      by (subst until_loop.simps) (simp add: Match until_head_def until_result_def observed_def)
  next
    case (Resume r)
    have "sb_size sb = sb_max_size sb" using h Resume read_size_pos [OF sb(1), of 65536] by (auto simp: until_head_def split: if_splits)
    then show ?thesis using h
      by (subst until_loop.simps) (auto simp: Resume until_head_def until_result_def observed_def)
  qed
  with a show ?thesis by simp
next
  case False
  then have "async_until_loop rd search True no_error 0 sb s = async_until_loop rd search False no_error 0 sb s"
    by (subst (1 2) async_until_loop.simps) (auto split: prod.splits)
  then show ?thesis using async_until_loop_eq [OF rd search sb(1) _ sb(2), of 0] by simp
qed

subsection \<open>Reading until a condition is met\<close>

lemma read_sb_loop_spec:
  assumes rd: "delivers rd input" "rd_progress rd"
    and cc: "\<And>ec n. cc ec n \<le> default_max_transfer_size" "\<And>ec n. is_error ec \<Longrightarrow> cc ec n = 0"
  shows "sb_ok sb \<Longrightarrow> k = read_size_helper sb (cc ec t) \<Longrightarrow>
    \<exists>ec' sb' s' bytes. read_sb_loop rd cc k ec t sb s = Some (Inr (t + length bytes, ec'), sb', s') \<and> sb_ok sb' \<and>
      sb_data sb' = sb_data sb @ bytes \<and> sb_max_size sb' = sb_max_size sb \<and> input s = bytes @ input s' \<and>
      (cc ec' (t + length bytes) = 0 \<or> length (sb_data sb') = sb_max_size sb)"
proof (induction "if k = 0 then 0 else Suc (sb_max_size sb - sb_size sb)" arbitrary: k sb ec t s rule: less_induct)
  case less
  show ?case
  proof (cases "k = 0")
    case True
    then have "cc ec t = 0 \<or> sb_size sb = sb_max_size sb"
      using read_size_pos [OF less.prems(1), of "cc ec t"] less.prems(2) by auto
    moreover have "read_sb_loop rd cc k ec t sb s = Some (Inr (t, ec), sb, s)" using True by (subst read_sb_loop.simps) simp
    ultimately show ?thesis using less.prems(1) sb_size_data [OF less.prems(1)] by simp
  next
    case False
    obtain bytes ec1 s1 where r: "rd k s = (bytes, ec1, s1)" by (metis prod_cases3)
    have k: "k < 2 ^ 31" using less.prems(2) read_size_le [of sb "cc ec t"] cc(1) [of ec t]
      by (simp add: default_max_transfer_size_def)
    from sb_read_some_ok [OF less.prems(1) _ k rd(1) r] read_size_fits [OF less.prems(1), of "cc ec t"] less.prems(2)
    obtain sb1 where b: "sb_read_some rd k sb s = (Inr (length bytes, ec1), sb1, s1)" "sb_ok sb1"
      "sb_data sb1 = sb_data sb @ bytes" "sb_max_size sb1 = sb_max_size sb" "input s = bytes @ input s1" by auto
    let ?t = "t + length bytes" and ?k = "read_size_helper sb1 (cc ec1 (t + length bytes))"
    have eq: "read_sb_loop rd cc k ec t sb s = read_sb_loop rd cc ?k ec1 ?t sb1 s1"
      using False by (subst read_sb_loop.simps) (simp add: b(1))
    have lt: "(if ?k = 0 then 0 else Suc (sb_max_size sb1 - sb_size sb1)) < (if k = 0 then 0 else Suc (sb_max_size sb - sb_size sb))"
    proof (cases "bytes = []")
      case True
      then have "is_error ec1" using rd(2) False r unfolding rd_progress_def by (metis fst_conv snd_conv gr0I)
      then have "?k = 0" using cc(2) read_size_le [of sb1 0] by simp
      then show ?thesis using False by simp
    next
      case n: False
      show ?thesis using room_shrinks [OF less.prems(1) b(2,3) n b(4)] False by simp
    qed
    from less.hyps [OF lt b(2) refl, of s1] obtain ec' sb' s' more where
      "read_sb_loop rd cc ?k ec1 ?t sb1 s1 = Some (Inr (?t + length more, ec'), sb', s')" "sb_ok sb'"
      "sb_data sb' = sb_data sb1 @ more" "sb_max_size sb' = sb_max_size sb1" "input s1 = more @ input s'"
      "cc ec' (?t + length more) = 0 \<or> length (sb_data sb') = sb_max_size sb1" by blast
    then have "read_sb_loop rd cc k ec t sb s = Some (Inr (t + length (bytes @ more), ec'), sb', s') \<and> sb_ok sb' \<and>
      sb_data sb' = sb_data sb @ bytes @ more \<and> sb_max_size sb' = sb_max_size sb \<and> input s = (bytes @ more) @ input s' \<and>
      (cc ec' (t + length (bytes @ more)) = 0 \<or> length (sb_data sb') = sb_max_size sb)"
      using b eq by (simp add: add.assoc)
    then show ?thesis by blast
  qed
qed

text \<open>Writing from a streambuf sends its content and removes what was sent.\<close>

lemma write_sb_spec:
  assumes io: "writes (\<lambda>_. write_some) mem output" "progressing (\<lambda>_. write_some)"
    and sb: "sb_ok sb" "sb_size sb < 2 ^ 31" "map (\<lambda>i. mem w (base + i)) [0..<length (sb_chars sb)] = sb_chars sb"
  shows "\<exists>n ec sb' w'. write_sb write_some base transfer_all sb w = Some (n, ec, sb', w') \<and> sb_ok sb' \<and>
    output w' = output w @ take n (sb_data sb) \<and> sb_data sb' = drop n (sb_data sb) \<and> (is_error ec \<or> n = sb_size sb)"
proof -
  have at: "mem w (base + i) = sb_chars sb ! i" if "i < length (sb_chars sb)" for i
    using arg_cong [OF sb(3), of "\<lambda>l. l ! i"] that by simp
  have "gather [\<lparr>b_addr = base + g_next sb, b_size = sb_size sb\<rparr>] (mem w) = sb_data sb"
  proof (rule nth_equalityI)
    show "length (gather [\<lparr>b_addr = base + g_next sb, b_size = sb_size sb\<rparr>] (mem w)) = length (sb_data sb)"
      using sb_size_data [OF sb(1)] by (simp add: gather_def)
    fix i assume "i < length (gather [\<lparr>b_addr = base + g_next sb, b_size = sb_size sb\<rparr>] (mem w))"
    then have "i < p_next sb - g_next sb" by (simp add: gather_def sb_size_def)
    moreover from this have "g_next sb + i < length (sb_chars sb)" using sb(1) by (auto simp: sb_ok_def)
    ultimately show "gather [\<lparr>b_addr = base + g_next sb, b_size = sb_size sb\<rparr>] (mem w) ! i = sb_data sb ! i"
      using at [of "g_next sb + i"] by (simp add: gather_def buf_addrs_def sb_size_def sb_data_def add.assoc)
  qed
  with io_sync_writes [OF io, of transfer_all "[\<lparr>b_addr = base + g_next sb, b_size = sb_size sb\<rparr>]" w] sb_consume_ok [OF sb(1,2)]
  show ?thesis by (auto simp: write_sb_def write_sync_def buffer_size_eq)
qed

subsection \<open>Properties\<close>

text \<open>A stream that delivers its bytes one at a time and then end of file.\<close>

definition trickle :: "u8 list reader" where
  "trickle k s = (if k = 0 then ([], no_error, s)
     else case s of [] \<Rightarrow> ([], misc_error eof, []) | x # xs \<Rightarrow> ([x], no_error, xs))"

lemma trickle_ok: "delivers trickle id" "rd_progress trickle" "plain_reader trickle"
  by (auto simp: delivers_def rd_progress_def plain_reader_def trickle_def split: list.splits if_splits)

text \<open>
  C22. Reading until a delimiter (a character, or a string, which may arrive in pieces) returns: with the
  position just behind the first occurrence in the streambuf, or with an error, which is that of the stream or
  \<^verbatim>\<open>not_found\<close> for a full streambuf without one; the bytes taken from the stream are appended to the
  streambuf, and none are taken when an occurrence is there already.
\<close>

theorem read_until_finds_first:
  assumes "delivers rd input" "rd_progress rd" "sb_ok sb" "delim \<noteq> []"
  shows "(\<exists>n ec sb' s' bytes. read_until_string rd delim sb s = Some (Inr (n, ec), sb', s') \<and> sb_ok sb' \<and>
      sb_data sb' = sb_data sb @ bytes \<and> input s = bytes @ input s' \<and> until_end delim rd n ec sb' \<and>
      ((\<exists>j. prefix delim (drop j (sb_data sb))) \<longrightarrow> sb' = sb \<and> s' = s)) \<and>
    (\<exists>n ec sb' s' bytes. read_until_char rd d sb s = Some (Inr (n, ec), sb', s') \<and> sb_ok sb' \<and>
      sb_data sb' = sb_data sb @ bytes \<and> input s = bytes @ input s' \<and> until_end [d] rd n ec sb' \<and>
      ((\<exists>j. prefix [d] (drop j (sb_data sb))) \<longrightarrow> sb' = sb \<and> s' = s))"
proof
  from until_loop_spec [OF assms(1,2) search_string_ok [OF assms(4)] assms(3), of 0 s]
  show "\<exists>n ec sb' s' bytes. read_until_string rd delim sb s = Some (Inr (n, ec), sb', s') \<and> sb_ok sb' \<and>
      sb_data sb' = sb_data sb @ bytes \<and> input s = bytes @ input s' \<and> until_end delim rd n ec sb' \<and>
      ((\<exists>j. prefix delim (drop j (sb_data sb))) \<longrightarrow> sb' = sb \<and> s' = s)"
    unfolding read_until_string_def by auto
  from until_loop_spec [OF assms(1,2) search_char_ok assms(3), of 0 d s]
  show "\<exists>n ec sb' s' bytes. read_until_char rd d sb s = Some (Inr (n, ec), sb', s') \<and> sb_ok sb' \<and>
      sb_data sb' = sb_data sb @ bytes \<and> input s = bytes @ input s' \<and> until_end [d] rd n ec sb' \<and>
      ((\<exists>j. prefix [d] (drop j (sb_data sb))) \<longrightarrow> sb' = sb \<and> s' = s)"
    unfolding read_until_char_def by auto
qed

theorem read_until_finds_first_witness:
  "\<exists>n ec sb' s' bytes. read_until_string trickle [13, 10] (new_streambuf 16) [65, 13, 10, 66] = Some (Inr (n, ec), sb', s') \<and>
     sb_data sb' = bytes \<and> [65, 13, 10, 66] = bytes @ s' \<and> until_end [13, 10] trickle n ec sb'"
proof -
  have "sb_ok (new_streambuf 16)" "sb_data (new_streambuf 16) = []" using new_streambuf_ok [of 16] by auto
  with read_until_finds_first [OF trickle_ok(1,2), of "new_streambuf 16" "[13, 10]" "[65, 13, 10, 66]" 10]
  show ?thesis by (auto simp: id_def)
qed

text \<open>
  C23. Over a stream that moves bytes or fails, the asynchronous operations that read until a delimiter
  end with the result, the content and the rest of the stream that the synchronous functions end with.
\<close>

theorem async_read_until_equals_sync:
  assumes "delivers rd input" "rd_progress rd" "plain_reader rd" "sb_ok sb" "delim \<noteq> []"
    "length (sb_data sb) + length (input s) < size_t_max"
  shows "observed (async_read_until_string rd delim sb s) = observed (read_until_string rd delim sb s) \<and>
    observed (async_read_until_char rd d sb s) = observed (read_until_char rd d sb s)"
  unfolding async_read_until_string_def read_until_string_def async_read_until_char_def read_until_char_def
  using async_until_first [OF assms(1-3) search_string_bounded [OF assms(5)] assms(4,6)]
    async_until_first [OF assms(1-3) search_char_bounded assms(4,6)] by blast

theorem async_read_until_equals_sync_witness:
  "observed (async_read_until_string trickle [13, 10] (new_streambuf 16) [65, 13, 10, 66]) =
   observed (read_until_string trickle [13, 10] (new_streambuf 16) [65, 13, 10, 66])"
  using async_read_until_equals_sync [OF trickle_ok, of "new_streambuf 16" "[13, 10]" "[65, 13, 10, 66]" 10]
    new_streambuf_ok [of 16] by (simp add: size_t_max_def)

text \<open>A stream whose reads return nothing, without error.\<close>

definition idle :: "unit reader" where
  "idle k s = ([], no_error, s)"

text \<open>
  When a read completes without error and without bytes, the asynchronous operation takes it for
  the end of the search and reports success: for a delimiter that is not in the streambuf, with the number
  of bytes searched, here two.
\<close>

lemma empty_read_reported_as_match:
  "\<exists>sb. sb_data sb = [97, 98] \<and> \<not> prefix [10] (drop 0 (sb_data sb)) \<and> \<not> prefix [10] (drop 1 (sb_data sb)) \<and>
     observed (async_read_until_char idle 10 sb ()) = Some (Inr (2, no_error), [97, 98], ())"
proof -
  let ?sb = "sb_commit 2 (sb_fill 0 [97, 98] (new_streambuf 16))"
  have n: "sb_ok (new_streambuf 16)" "sb_data (new_streambuf 16) = []" "sb_max_size (new_streambuf 16) = 16"
    using new_streambuf_ok [of 16] by auto
  have p: "p_next (new_streambuf 16) = 0" "p_end (new_streambuf 16) = 16"
    by (simp_all add: new_streambuf_def Let_def setp_def setg_def buffer_delta_def)
  have len: "length [97, 98 :: u8] = 2" by simp
  have "p_next (new_streambuf 16) + 2 \<le> p_end (new_streambuf 16)" "(2 :: nat) < 2 ^ 31" by (simp_all add: p)
  then have sb: "sb_ok ?sb" "sb_data ?sb = [97, 98]" "sb_max_size ?sb = 16"
    using sb_fill_commit [OF n(1), of "[97, 98]", unfolded len] n(2,3) by (simp_all add: p)
  have size: "sb_size ?sb = 2" using sb_size_data [OF sb(1)] sb(2) by simp
  let ?k = "read_size_helper ?sb 65536"
  have del: "delivers idle (\<lambda>_. [])" by (simp add: delivers_def idle_def)
  have r: "idle ?k () = ([], no_error, ())" by (simp add: idle_def)
  have "?k < 2 ^ 31" using read_size_le [of ?sb 65536] by simp
  from sb_read_size_ok [OF sb(1,1) this del r] obtain sb1 where
    b: "sb_read_some idle ?k ?sb () = (Inr (0, no_error), sb1, ())" "sb_data sb1 = [97, 98]" using sb(2) by auto
  have k: "?k > 0" using read_size_pos [OF sb(1)] size sb(3) by simp
  have s: "search_char 10 [97, 98] 0 = Resume 2" by (simp add: search_char_def)
  have "until_head (search_char 10) 0 ?sb = (2, ?k)"
    using s size sb(2,3) unfolding until_head_def by simp
  then have "async_read_until_char idle 10 ?sb () = Some (Inr (2, no_error), sb1, ())"
    unfolding async_read_until_char_def using k
    by (subst async_until_loop.simps) (simp add: b(1) until_result_def size_t_max_def)
  then show ?thesis using sb(2) b(2) by (intro exI [of _ ?sb]) (simp add: observed_def)
qed

end
