(* ===== verification/BufferedStream.thy ===== *)
theory BufferedStream
  imports ReadUntilSpec
begin

text \<open>
  Buffered streams (\<^verbatim>\<open>detail/buffered_stream_storage.hpp\<close>, \<^verbatim>\<open>buffered_read_stream.hpp\<close>,
  \<^verbatim>\<open>buffered_write_stream.hpp\<close>): a stream on top of another that reads ahead, or holds back what is
  written. The next layer is a parameter. The user's buffer sequence, which the code fills or empties with
  \<^verbatim>\<open>buffer_copy\<close>, is given by its total size when reading and by its bytes when writing.
  The assertions of the storage, which only debug builds check, are left out.
\<close>

subsection \<open>The storage\<close>

record storage =
  begin_offset :: nat
  end_offset :: nat
  st_buffer :: "u8 list"

definition st_new :: "nat \<Rightarrow> storage" where
  "st_new buffer_capacity = \<lparr>begin_offset = 0, end_offset = 0, st_buffer = replicate buffer_capacity 0\<rparr>"

definition st_clear :: "storage \<Rightarrow> storage" where
  "st_clear st = st\<lparr>begin_offset := 0, end_offset := 0\<rparr>"

definition st_empty :: "storage \<Rightarrow> bool" where
  "st_empty st \<longleftrightarrow> begin_offset st = end_offset st"

definition st_size :: "storage \<Rightarrow> nat" where
  "st_size st = end_offset st - begin_offset st"

definition st_capacity :: "storage \<Rightarrow> nat" where
  "st_capacity st = length (st_buffer st)"

definition st_resize :: "nat \<Rightarrow> storage \<Rightarrow> storage" where
  "st_resize n st =
     (if begin_offset st + n \<le> st_capacity st then st\<lparr>end_offset := begin_offset st + n\<rparr>
      else st\<lparr>st_buffer := take (st_size st) (drop (begin_offset st) (st_buffer st)) @ drop (st_size st) (st_buffer st),
              end_offset := n, begin_offset := 0\<rparr>)"

definition st_consume :: "nat \<Rightarrow> storage \<Rightarrow> storage" where
  "st_consume count st =
     (let st = st\<lparr>begin_offset := begin_offset st + count\<rparr> in if st_empty st then st_clear st else st)"

text \<open>The unread data, from \<^verbatim>\<open>data()\<close> on, and storing bytes at an offset from there.\<close>

definition st_data :: "storage \<Rightarrow> u8 list" where
  "st_data st = take (st_size st) (drop (begin_offset st) (st_buffer st))"

definition st_store :: "nat \<Rightarrow> u8 list \<Rightarrow> storage \<Rightarrow> storage" where
  "st_store off bytes st =
     (let i = begin_offset st + off in
      st\<lparr>st_buffer := take i (st_buffer st) @ bytes @ drop (i + length bytes) (st_buffer st)\<rparr>)"

definition st_ok :: "storage \<Rightarrow> bool" where
  "st_ok st \<longleftrightarrow> begin_offset st \<le> end_offset st \<and> end_offset st \<le> length (st_buffer st)"

subsection \<open>Reading ahead\<close>

text \<open>\<^verbatim>\<open>fill\<close> with an error code; the throwing version, in which the guard restores the size.\<close>

definition brs_fill :: "'s reader \<Rightarrow> storage \<times> 's \<Rightarrow> nat \<times> error_code \<times> storage \<times> 's" where
  "brs_fill rd = (\<lambda>(st, s).
     let previous_size = st_size st;
         st = st_resize (st_capacity st) st in
     case rd (st_size st - previous_size) s of (bytes, ec, s) \<Rightarrow>
       let st = st_resize (previous_size + length bytes) (st_store previous_size bytes st) in
       (st_size st - previous_size, ec, st, s))"

definition brs_fill_throw :: "'s reader \<Rightarrow> storage \<times> 's \<Rightarrow> (exn + nat) \<times> storage \<times> 's" where
  "brs_fill_throw rd = (\<lambda>(st, s).
     let previous_size = st_size st;
         st = st_resize (st_capacity st) st in
     case rd (st_size st - previous_size) s of (bytes, ec, s) \<Rightarrow>
       let st = st_store previous_size bytes st in
       case throw_error ec of
         Inl e \<Rightarrow> (Inl e, st_resize previous_size st, s)
       | Inr _ \<Rightarrow> let st = st_resize (previous_size + length bytes) st in (Inr (st_size st - previous_size), st, s))"

definition brs_copy :: "nat \<Rightarrow> storage \<Rightarrow> u8 list \<times> storage" where
  "brs_copy k st = (let n = min k (st_size st) in (take n (st_data st), st_consume n st))"

definition brs_peek_copy :: "nat \<Rightarrow> storage \<Rightarrow> u8 list" where
  "brs_peek_copy k st = take (min k (st_size st)) (st_data st)"

definition brs_read_some :: "'s reader \<Rightarrow> nat \<Rightarrow> storage \<times> 's \<Rightarrow> u8 list \<times> error_code \<times> storage \<times> 's" where
  "brs_read_some rd k w =
     (if k = 0 then ([], no_error, w)
      else
        let (filled, ec, st, s) = (if st_empty (fst w) then brs_fill rd w else (1, no_error, w)) in
        if filled = 0 then ([], ec, st, s)
        else let (bytes, st) = brs_copy k st in (bytes, ec, st, s))"

definition brs_read_some_throw :: "'s reader \<Rightarrow> nat \<Rightarrow> storage \<times> 's \<Rightarrow> (exn + u8 list) \<times> storage \<times> 's" where
  "brs_read_some_throw rd k w =
     (if k = 0 then (Inr [], w)
      else case (if st_empty (fst w) then brs_fill_throw rd w else (Inr 0, w)) of
        (Inl e, w) \<Rightarrow> (Inl e, w)
      | (Inr _, st, s) \<Rightarrow> let (bytes, st) = brs_copy k st in (Inr bytes, st, s))"

definition brs_peek :: "'s reader \<Rightarrow> nat \<Rightarrow> storage \<times> 's \<Rightarrow> u8 list \<times> error_code \<times> storage \<times> 's" where
  "brs_peek rd k w =
     (let (filled, ec, st, s) = (if st_empty (fst w) then brs_fill rd w else (1, no_error, w)) in
      if filled = 0 then ([], ec, st, s) else (brs_peek_copy k st, ec, st, s))"

definition brs_peek_throw :: "'s reader \<Rightarrow> nat \<Rightarrow> storage \<times> 's \<Rightarrow> (exn + u8 list) \<times> storage \<times> 's" where
  "brs_peek_throw rd k w =
     (case (if st_empty (fst w) then brs_fill_throw rd w else (Inr 0, w)) of
        (Inl e, w) \<Rightarrow> (Inl e, w)
      | (Inr _, st, s) \<Rightarrow> (Inr (brs_peek_copy k st), st, s))"

definition brs_in_avail :: "storage \<times> 's \<Rightarrow> nat" where
  "brs_in_avail w = st_size (fst w)"

text \<open>The asynchronous read: its handler takes the completion of a fill, or of a read of nothing that only
  defers the handler.\<close>

definition brs_fill_handler :: "nat \<Rightarrow> nat \<Rightarrow> storage \<Rightarrow> storage" where
  "brs_fill_handler previous_size bytes_transferred st = st_resize (previous_size + bytes_transferred) st"

definition brs_async_fill :: "'s reader \<Rightarrow> storage \<times> 's \<Rightarrow> nat \<times> error_code \<times> storage \<times> 's" where
  "brs_async_fill rd = (\<lambda>(st, s).
     let previous_size = st_size st;
         st = st_resize (st_capacity st) st in
     case rd (st_size st - previous_size) s of (bytes, ec, s) \<Rightarrow>
       (length bytes, ec, brs_fill_handler previous_size (length bytes) (st_store previous_size bytes st), s))"

definition brs_read_some_handler :: "nat \<Rightarrow> error_code \<Rightarrow> storage \<Rightarrow> u8 list \<times> error_code \<times> storage" where
  "brs_read_some_handler k ec st =
     (if is_error ec \<or> st_empty st then ([], ec, st)
      else let (bytes, st) = brs_copy k st in (bytes, ec, st))"

definition brs_async_read_some :: "'s reader \<Rightarrow> nat \<Rightarrow> storage \<times> 's \<Rightarrow> u8 list \<times> error_code \<times> storage \<times> 's" where
  "brs_async_read_some rd k w =
     (let (ec, st, s) =
        (if k = 0 \<or> \<not> st_empty (fst w)
         then (case rd 0 (snd w) of (_, ec, s) \<Rightarrow> (ec, fst w, s))
         else (case brs_async_fill rd w of (_, ec, st, s) \<Rightarrow> (ec, st, s)));
        (bytes, ec, st) = brs_read_some_handler k ec st in
      (bytes, ec, st, s))"

subsection \<open>Holding back writes\<close>

text \<open>A write of the next layer takes the bytes of one buffer.\<close>

type_synonym 's byte_writer = "u8 list \<Rightarrow> 's \<Rightarrow> nat \<times> error_code \<times> 's"

definition on_memory :: "'s byte_writer \<Rightarrow> buf list \<Rightarrow> memory \<times> 's \<Rightarrow> nat \<times> error_code \<times> memory \<times> 's" where
  "on_memory wr bs w = (case wr (gather bs (fst w)) (snd w) of (n, ec, s) \<Rightarrow> (n, ec, fst w, s))"

definition bws_flush :: "'s byte_writer \<Rightarrow> storage \<times> 's \<Rightarrow> (nat \<times> error_code \<times> storage \<times> 's) option" where
  "bws_flush wr = (\<lambda>(st, s).
     map_option (\<lambda>(n, ec, w). (n, ec, st_consume n st, snd w))
       (write_sync (on_memory wr) [\<lparr>b_addr = begin_offset st, b_size = st_size st\<rparr>] transfer_all
          (\<lambda>a. st_buffer st ! a, s)))"

text \<open>The throwing flush consumes nothing when the write throws: the data written are sent again.\<close>

definition bws_flush_throw :: "'s byte_writer \<Rightarrow> storage \<times> 's \<Rightarrow> ((exn + nat) \<times> storage \<times> 's) option" where
  "bws_flush_throw wr = (\<lambda>(st, s).
     map_option (\<lambda>(n, ec, w). case throw_error ec of
         Inl e \<Rightarrow> (Inl e, st, snd w)
       | Inr _ \<Rightarrow> (Inr n, st_consume n st, snd w))
       (write_sync (on_memory wr) [\<lparr>b_addr = begin_offset st, b_size = st_size st\<rparr>] transfer_all
          (\<lambda>a. st_buffer st ! a, s)))"

definition bws_copy :: "u8 list \<Rightarrow> storage \<Rightarrow> nat \<times> storage" where
  "bws_copy bytes st =
     (let orig_size = st_size st;
          space_avail = st_capacity st - orig_size;
          n = (if length bytes < space_avail then length bytes else space_avail) in
      (n, st_store orig_size (take n bytes) (st_resize (orig_size + n) st)))"

definition bws_write_some ::
    "'s byte_writer \<Rightarrow> u8 list \<Rightarrow> storage \<times> 's \<Rightarrow> (nat \<times> error_code \<times> storage \<times> 's) option" where
  "bws_write_some wr bytes w =
     (if bytes = [] then Some (0, no_error, w)
      else Option.bind
        (if st_size (fst w) = st_capacity (fst w) then bws_flush wr w else Some (1, no_error, w))
        (\<lambda>(flushed, ec, st, s).
           if flushed = 0 then Some (0, ec, st, s)
           else let (n, st) = bws_copy bytes st in Some (n, ec, st, s)))"

definition bws_write_some_throw ::
    "'s byte_writer \<Rightarrow> u8 list \<Rightarrow> storage \<times> 's \<Rightarrow> ((exn + nat) \<times> storage \<times> 's) option" where
  "bws_write_some_throw wr bytes w =
     (if bytes = [] then Some (Inr 0, w)
      else Option.bind
        (if st_size (fst w) = st_capacity (fst w) then bws_flush_throw wr w else Some (Inr 0, w))
        (\<lambda>(r, st, s). case r of
             Inl e \<Rightarrow> Some (Inl e, st, s)
           | Inr _ \<Rightarrow> let (n, st) = bws_copy bytes st in Some (Inr n, st, s)))"

definition bws_write_some_handler :: "u8 list \<Rightarrow> error_code \<Rightarrow> storage \<Rightarrow> nat \<times> error_code \<times> storage" where
  "bws_write_some_handler bytes ec st =
     (if is_error ec then (0, ec, st) else let (n, st) = bws_copy bytes st in (n, ec, st))"

definition bws_async_flush :: "'s byte_writer \<Rightarrow> storage \<times> 's \<Rightarrow> (nat \<times> error_code \<times> storage \<times> 's) option" where
  "bws_async_flush wr = (\<lambda>(st, s).
     map_option (\<lambda>(n, ec, w). (n, ec, st_consume n st, snd w))
       (async_write_1 (on_memory wr) \<lparr>b_addr = begin_offset st, b_size = st_size st\<rparr> transfer_all
          (\<lambda>a. st_buffer st ! a, s)))"

definition bws_async_write_some ::
    "'s byte_writer \<Rightarrow> u8 list \<Rightarrow> storage \<times> 's \<Rightarrow> (nat \<times> error_code \<times> storage \<times> 's) option" where
  "bws_async_write_some wr bytes w =
     map_option (\<lambda>(ec, st, s). case bws_write_some_handler bytes ec st of (n, ec, st) \<Rightarrow> (n, ec, st, s))
       (if bytes = [] \<or> st_size (fst w) < st_capacity (fst w)
        then (case wr [] (snd w) of (_, ec, s) \<Rightarrow> Some (ec, fst w, s))
        else map_option (\<lambda>(_, ec, w). (ec, w)) (bws_async_flush wr w))"

subsection \<open>The storage keeps its data\<close>

lemma st_data_length: "st_ok st \<Longrightarrow> length (st_data st) = st_size st"
  by (auto simp: st_data_def st_size_def st_ok_def)

lemma st_empty_data: "st_ok st \<Longrightarrow> st_empty st \<longleftrightarrow> st_data st = []"
  by (auto simp: st_data_def st_size_def st_ok_def st_empty_def)

lemma st_new_ok: "st_ok (st_new k)" "st_data (st_new k) = []" "st_capacity (st_new k) = k"
  by (simp_all add: st_new_def st_ok_def st_data_def st_size_def st_capacity_def)

lemma st_consume_ok:
  assumes "st_ok st" "n \<le> st_size st"
  shows "st_ok (st_consume n st) \<and> st_data (st_consume n st) = drop n (st_data st) \<and> st_capacity (st_consume n st) = st_capacity st"
proof (cases "n = st_size st")
  case True
  then have "st_consume n st = st\<lparr>begin_offset := 0, end_offset := 0\<rparr>"
    using assms(1) by (simp add: st_consume_def Let_def st_empty_def st_clear_def st_ok_def st_size_def)
  then show ?thesis using True by (simp add: st_ok_def st_data_def st_size_def st_capacity_def)
next
  case False
  then have "st_consume n st = st\<lparr>begin_offset := begin_offset st + n\<rparr>"
    using assms by (auto simp: st_consume_def Let_def st_empty_def st_ok_def st_size_def)
  moreover have "take (end_offset st - (begin_offset st + n)) (drop (begin_offset st + n) (st_buffer st)) =
      drop n (take (end_offset st - begin_offset st) (drop (begin_offset st) (st_buffer st)))"
    by (simp add: drop_take ac_simps)
  ultimately show ?thesis using assms by (auto simp: st_ok_def st_data_def st_size_def st_capacity_def)
qed

text \<open>Changing the size keeps the data, with or without a move to the front; storing replaces bytes.\<close>

lemma st_grow:
  assumes "st_ok st" "st_size st \<le> n" "n \<le> st_capacity st"
  shows "st_ok (st_resize n st)" "st_size (st_resize n st) = n" "take (st_size st) (st_data (st_resize n st)) = st_data st"
    "st_capacity (st_resize n st) = st_capacity st"
proof -
  have b: "begin_offset st \<le> end_offset st" "end_offset st \<le> length (st_buffer st)" using assms(1) by (simp_all add: st_ok_def)
  show "st_size (st_resize n st) = n" by (simp add: st_resize_def st_size_def)
  show "st_capacity (st_resize n st) = st_capacity st"
    using b by (simp add: st_resize_def st_capacity_def st_size_def)
  show "st_ok (st_resize n st)"
    using b assms(3) by (simp add: st_resize_def st_ok_def st_capacity_def st_size_def)
  show "take (st_size st) (st_data (st_resize n st)) = st_data st"
  proof (cases "begin_offset st + n \<le> st_capacity st")
    case True
    then show ?thesis using assms(2) by (simp add: st_resize_def st_data_def st_size_def min_def)
  next
    case False
    define A where "A = st_data st"
    have A: "length A = st_size st" using st_data_length [OF assms(1)] by (simp add: A_def)
    have "st_data (st_resize n st) = take n (A @ drop (st_size st) (st_buffer st))"
      using False by (simp add: st_resize_def st_data_def [of "_ \<lparr>begin_offset := 0\<rparr>"] A_def)
        (simp add: st_data_def st_size_def)
    then have "take (st_size st) (st_data (st_resize n st)) = A" using A assms(2) by (simp add: min_def)
    then show ?thesis by (simp add: A_def)
  qed
qed

lemma st_shrink:
  assumes "st_ok st" "n \<le> st_size st"
  shows "st_ok (st_resize n st)" "st_data (st_resize n st) = take n (st_data st)" "st_capacity (st_resize n st) = st_capacity st"
proof -
  have b: "begin_offset st + n \<le> length (st_buffer st)" using assms unfolding st_ok_def st_size_def by linarith
  then have e: "st_resize n st = st\<lparr>end_offset := begin_offset st + n\<rparr>" by (simp add: st_resize_def st_capacity_def)
  show "st_ok (st_resize n st)" "st_data (st_resize n st) = take n (st_data st)" "st_capacity (st_resize n st) = st_capacity st"
    using assms b unfolding e by (simp_all add: st_ok_def st_size_def st_data_def st_capacity_def min_def)
qed

lemma st_store_ok:
  assumes "st_ok st" "off + length bytes \<le> st_size st"
  shows "st_ok (st_store off bytes st)" "st_size (st_store off bytes st) = st_size st"
    "st_data (st_store off bytes st) = take off (st_data st) @ bytes @ drop (off + length bytes) (st_data st)"
    "st_capacity (st_store off bytes st) = st_capacity st"
proof -
  let ?i = "begin_offset st + off"
  have b: "begin_offset st \<le> end_offset st" "end_offset st \<le> length (st_buffer st)" using assms(1) by (simp_all add: st_ok_def)
  have i: "?i + length bytes \<le> length (st_buffer st)" using b assms(2) by (simp add: st_size_def)
  show "st_ok (st_store off bytes st)" "st_size (st_store off bytes st) = st_size st"
    "st_capacity (st_store off bytes st) = st_capacity st"
    using b i by (simp_all add: st_store_def Let_def st_ok_def st_size_def st_capacity_def)
  have "drop (begin_offset st) (take ?i (st_buffer st) @ bytes @ drop (?i + length bytes) (st_buffer st)) =
      take off (drop (begin_offset st) (st_buffer st)) @ bytes @ drop (?i + length bytes) (st_buffer st)"
    using i by (simp add: drop_take)
  then have "st_data (st_store off bytes st) =
      take (st_size st) (take off (drop (begin_offset st) (st_buffer st)) @ bytes @ drop (?i + length bytes) (st_buffer st))"
    by (simp add: st_data_def st_store_def Let_def st_size_def)
  also have "\<dots> = take off (drop (begin_offset st) (st_buffer st)) @ bytes @
      take (st_size st - (off + length bytes)) (drop (?i + length bytes) (st_buffer st))"
    using i assms(2) by (simp add: diff_diff_left)
  also have "take off (drop (begin_offset st) (st_buffer st)) = take off (st_data st)"
    using assms(2) by (simp add: st_data_def min_def)
  also have "take (st_size st - (off + length bytes)) (drop (?i + length bytes) (st_buffer st)) = drop (off + length bytes) (st_data st)"
    by (simp add: st_data_def drop_take ac_simps)
  finally show "st_data (st_store off bytes st) = take off (st_data st) @ bytes @ drop (off + length bytes) (st_data st)" .
qed

lemma st_append:
  assumes "st_ok st" "st_size st + length bytes \<le> n" "n \<le> st_capacity st"
  defines "st1 \<equiv> st_store (st_size st) bytes (st_resize n st)"
  shows "st_ok (st_resize (st_size st + length bytes) st1)" "st_data (st_resize (st_size st + length bytes) st1) = st_data st @ bytes"
    "st_capacity (st_resize (st_size st + length bytes) st1) = st_capacity st"
proof -
  have n: "st_size st \<le> n" using assms(2) by simp
  note g = st_grow [OF assms(1) n assms(3)]
  have "st_size st + length bytes \<le> st_size (st_resize n st)" using g(2) assms(2) by simp
  note s = st_store_ok [OF g(1) this]
  have "st_size st + length bytes \<le> st_size st1" using s(2) g(2) assms(2) by (simp add: st1_def)
  note h = st_shrink [OF s(1) [folded st1_def] this]
  show "st_ok (st_resize (st_size st + length bytes) st1)" by (rule h(1))
  have "length (st_data st @ bytes) = st_size st + length bytes" using st_data_length [OF assms(1)] by simp
  then show "st_data (st_resize (st_size st + length bytes) st1) = st_data st @ bytes"
    unfolding h(2) using s(3) g(3) by (simp add: st1_def)
  show "st_capacity (st_resize (st_size st + length bytes) st1) = st_capacity st" using h(3) s(4) g(4) by (simp add: st1_def)
qed

lemma st_resize_store:
  assumes "st_ok st" "st_size st + length bytes = n" "n \<le> st_capacity st"
  shows "st_ok (st_store (st_size st) bytes (st_resize n st))" "st_data (st_store (st_size st) bytes (st_resize n st)) = st_data st @ bytes"
    "st_capacity (st_store (st_size st) bytes (st_resize n st)) = st_capacity st"
proof -
  have n: "st_size st \<le> n" using assms(2) by simp
  note g = st_grow [OF assms(1) n assms(3)]
  have "st_size st + length bytes \<le> st_size (st_resize n st)" using g(2) assms(2) by simp
  note s = st_store_ok [OF g(1) this]
  show "st_ok (st_store (st_size st) bytes (st_resize n st))" by (rule s(1))
  have "length (st_data (st_resize n st)) = n" using st_data_length [OF g(1)] g(2) by simp
  then show "st_data (st_store (st_size st) bytes (st_resize n st)) = st_data st @ bytes"
    unfolding s(3) using g(3) assms(2) by simp
  show "st_capacity (st_store (st_size st) bytes (st_resize n st)) = st_capacity st" using s(4) g(4) by simp
qed

lemma st_data_size: "st_ok st \<Longrightarrow> st_size st \<le> st_capacity st"
  by (auto simp: st_ok_def st_size_def st_capacity_def)

subsection \<open>Reading ahead is transparent\<close>

lemma brs_fill_ok:
  assumes "st_ok st" "delivers rd input" "rd (st_capacity st - st_size st) s = (bytes, ec, s')"
  shows "\<exists>st'. brs_fill rd (st, s) = (length bytes, ec, st', s') \<and> st_ok st' \<and> st_data st' = st_data st @ bytes \<and>
    st_capacity st' = st_capacity st \<and> input s = bytes @ input s' \<and> length bytes \<le> st_capacity st - st_size st"
proof -
  have b: "length bytes \<le> st_capacity st - st_size st" "input s = bytes @ input s'"
    using assms(2,3) by (auto simp: delivers_def)
  let ?st = "st_resize (st_size st + length bytes) (st_store (st_size st) bytes (st_resize (st_capacity st) st))"
  have "st_size st + length bytes \<le> st_capacity st" using b(1) st_data_size [OF assms(1)] by simp
  note a = st_append [OF assms(1) this le_refl]
  have "st_size ?st = st_size st + length bytes"
    using st_data_length [OF a(1)] st_data_length [OF assms(1)] a(2) by simp
  moreover have "st_size (st_resize (st_capacity st) st) = st_capacity st" using st_grow(2) [OF assms(1) st_data_size [OF assms(1)]] by simp
  ultimately have "brs_fill rd (st, s) = (length bytes, ec, ?st, s')" using assms(3) by (simp add: brs_fill_def Let_def)
  with a b show ?thesis by blast
qed

lemma brs_copy_ok:
  assumes "st_ok st" "brs_copy k st = (bytes, st')"
  shows "st_ok st' \<and> st_capacity st' = st_capacity st \<and> st_data st = bytes @ st_data st' \<and> bytes = take k (st_data st)"
proof -
  have m: "min k (st_size st) \<le> st_size st" by simp
  have "take (min k (st_size st)) (st_data st) = take k (st_data st)" using st_data_length [OF assms(1)] by (simp add: min_def)
  then show ?thesis using assms(2) st_consume_ok [OF assms(1) m] by (auto simp: brs_copy_def Let_def)
qed

lemma brs_read_some_spec:
  assumes rd: "delivers rd input" "rd_progress rd" and st: "st_ok st" "st_capacity st > 0"
    and r: "brs_read_some rd k (st, s) = (bytes, ec, st', s')"
  shows "st_ok st' \<and> st_capacity st' = st_capacity st \<and> st_data st @ input s = bytes @ st_data st' @ input s' \<and>
    length bytes \<le> k \<and> (k = 0 \<or> bytes \<noteq> [] \<or> is_error ec)"
proof (cases "k = 0")
  case True
  then show ?thesis using r st by (auto simp: brs_read_some_def)
next
  case k: False
  show ?thesis
  proof (cases "st_empty st")
    case True
    then have d: "st_data st = []" "st_size st = 0" using st_empty_data [OF st(1)] by (auto simp: st_empty_def st_size_def)
    obtain more e s1 where f: "rd (st_capacity st - st_size st) s = (more, e, s1)" by (metis prod_cases3)
    from brs_fill_ok [OF st(1) rd(1) f] obtain st1 where fill: "brs_fill rd (st, s) = (length more, e, st1, s1)"
      "st_ok st1" "st_data st1 = more" "st_capacity st1 = st_capacity st" "input s = more @ input s1" using d by auto
    show ?thesis
    proof (cases "more = []")
      case n: True
      have "is_error e" using rd(2) f st(2) n d(2) unfolding rd_progress_def by (metis fst_conv snd_conv diff_zero)
      moreover have "brs_read_some rd k (st, s) = ([], e, st1, s1)" using k True fill(1) n by (simp add: brs_read_some_def)
      ultimately show ?thesis using r fill n d by simp
    next
      case False
      obtain out st2 where c: "brs_copy k st1 = (out, st2)" by fastforce
      from brs_copy_ok [OF fill(2) c] have o: "st_ok st2" "st_capacity st2 = st_capacity st1" "more = out @ st_data st2"
        "out = take k more" unfolding fill(3) by blast+
      have "brs_read_some rd k (st, s) = (out, e, st2, s1)" using k True fill(1) False c by (simp add: brs_read_some_def)
      then have e: "bytes = out" "st' = st2" "s' = s1" using r by simp_all
      have "length out \<le> k" "out \<noteq> []" using o(4) False k by simp_all
      moreover have "input s = out @ st_data st2 @ input s1" using fill(5) o(3) by simp
      ultimately show ?thesis unfolding e using o(1,2) fill(4) d(1) by simp
    qed
  next
    case False
    then have d: "st_data st \<noteq> []" using st_empty_data [OF st(1)] by simp
    obtain out st2 where c: "brs_copy k st = (out, st2)" by fastforce
    from brs_copy_ok [OF st(1) c] have o: "st_ok st2" "st_capacity st2 = st_capacity st" "st_data st = out @ st_data st2"
      "out = take k (st_data st)" by blast+
    have "brs_read_some rd k (st, s) = (out, no_error, st2, s)" using k False c by (simp add: brs_read_some_def)
    then have e: "bytes = out" "st' = st2" "s' = s" using r by simp_all
    have "length out \<le> k" "out \<noteq> []" using o(4) d k by simp_all
    moreover have "st_data st @ input s = out @ st_data st2 @ input s" using o(3) by (metis append.assoc)
    ultimately show ?thesis unfolding e using o(1,2) by simp
  qed
qed

text \<open>A read that reports an error has stored nothing.\<close>

definition silent_errors :: "'s reader \<Rightarrow> bool" where
  "silent_errors rd \<longleftrightarrow> (\<forall>k s. is_error (fst (snd (rd k s))) \<longrightarrow> fst (rd k s) = [])"

lemma brs_async_fill_eq:
  assumes "st_ok st" "delivers rd input"
  shows "brs_async_fill rd (st, s) = brs_fill rd (st, s)"
proof -
  obtain bytes ec s' where r: "rd (st_capacity st - st_size st) s = (bytes, ec, s')" by (metis prod_cases3)
  have "st_size (st_resize (st_capacity st) st) = st_capacity st" using st_grow(2) [OF assms(1) st_data_size [OF assms(1)]] by simp
  with brs_fill_ok [OF assms r] r show ?thesis
    by (auto simp: brs_async_fill_def brs_fill_def brs_fill_handler_def Let_def)
qed

lemma brs_async_read_some_eq:
  assumes rd: "delivers rd input" "rd_progress rd" "plain_reader rd" "silent_errors rd"
    and st: "st_ok st" "st_capacity st > 0" "k > 0"
  shows "brs_async_read_some rd k (st, s) = brs_read_some rd k (st, s)"
proof (cases "st_empty st")
  case True
  then have d: "st_data st = []" using st_empty_data [OF st(1)] by simp
  obtain more e s1 where f: "rd (st_capacity st - st_size st) s = (more, e, s1)" by (metis prod_cases3)
  from brs_fill_ok [OF st(1) rd(1) f] obtain st1 where fill: "brs_fill rd (st, s) = (length more, e, st1, s1)"
    "st_ok st1" "st_data st1 = more" using d by auto
  have "st_empty st1 \<longleftrightarrow> more = []" using st_empty_data [OF fill(2)] fill(3) by simp
  moreover have "is_error e \<Longrightarrow> more = []" using rd(4) f unfolding silent_errors_def by (metis fst_conv snd_conv)
  ultimately show ?thesis using fill True st(3) brs_async_fill_eq [OF st(1) rd(1), of s]
    by (auto simp: brs_async_read_some_def brs_read_some_def brs_read_some_handler_def split: prod.splits)
next
  case False
  have "rd 0 s = ([], no_error, s)" using rd(3) by (simp add: plain_reader_def)
  then show ?thesis using False st(3)
    by (auto simp: brs_async_read_some_def brs_read_some_def brs_read_some_handler_def split: prod.splits)
qed

subsection \<open>Held-back writes keep their order\<close>

definition byte_writes :: "'s byte_writer \<Rightarrow> ('s \<Rightarrow> u8 list) \<Rightarrow> bool" where
  "byte_writes wr output \<longleftrightarrow> (\<forall>bytes s n ec s'. wr bytes s = (n, ec, s') \<longrightarrow>
     n \<le> length bytes \<and> output s' = output s @ take n bytes \<and> (bytes = [] \<or> n > 0 \<or> is_error ec))"

lemma on_memory_writes:
  assumes "byte_writes wr output"
  shows "writes (\<lambda>_. on_memory wr) fst (\<lambda>w. output (snd w))" "progressing (\<lambda>_. on_memory wr)"
proof -
  have len: "length (gather bs m) = buffers_size bs" for bs m by (simp add: gather_def buffer_size_eq)
  show "writes (\<lambda>_. on_memory wr) fst (\<lambda>w. output (snd w))" unfolding writes_def
  proof (intro allI impI)
    fix bs w n ec and w' :: "memory \<times> 'a"
    assume "on_memory wr bs w = (n, ec, w')"
    then have "wr (gather bs (fst w)) (snd w) = (n, ec, snd w')" "fst w' = fst w"
      by (auto simp: on_memory_def split: prod.splits)
    then show "n \<le> buffers_size bs \<and> fst w' = fst w \<and> output (snd w') = output (snd w) @ take n (gather bs (fst w))"
      using assms len unfolding byte_writes_def by metis
  qed
  show "progressing (\<lambda>_. on_memory wr)" unfolding progressing_def
  proof (intro allI impI)
    fix bs and w :: "memory \<times> 'a"
    assume b: "buffers_size bs > 0"
    obtain n ec s where wr: "wr (gather bs (fst w)) (snd w) = (n, ec, s)" by (metis prod_cases3)
    then have "n > 0 \<or> is_error ec" using assms len [of bs "fst w"] b unfolding byte_writes_def by (metis length_0_conv less_irrefl)
    then show "fst (on_memory wr bs w) > 0 \<or> is_error (fst (snd (on_memory wr bs w)))" by (simp add: on_memory_def wr)
  qed
qed

lemma gather_storage:
  assumes "st_ok st"
  shows "gather [\<lparr>b_addr = begin_offset st, b_size = st_size st\<rparr>] (\<lambda>a. st_buffer st ! a) = st_data st"
  using assms by (intro nth_equalityI)
    (auto simp: gather_def buf_addrs_def st_data_def st_size_def st_ok_def min_def)

lemma bws_flush_spec:
  assumes wr: "byte_writes wr output" and st: "st_ok st"
  shows "\<exists>n ec st' s'. bws_flush wr (st, s) = Some (n, ec, st', s') \<and> st_ok st' \<and> st_capacity st' = st_capacity st \<and>
    n \<le> st_size st \<and> output s' = output s @ take n (st_data st) \<and> st_data st' = drop n (st_data st) \<and>
    (is_error ec \<or> n = st_size st)"
proof -
  from io_sync_writes [OF on_memory_writes [OF wr], of transfer_all "[\<lparr>b_addr = begin_offset st, b_size = st_size st\<rparr>]"
      "(\<lambda>a. st_buffer st ! a, s)"] obtain n ec w' where
    r: "io_sync (\<lambda>_. on_memory wr) transfer_all [\<lparr>b_addr = begin_offset st, b_size = st_size st\<rparr>] (\<lambda>a. st_buffer st ! a, s) = Some (n, ec, w')"
      "n \<le> st_size st" "output (snd w') = output s @ take n (st_data st)" "n = st_size st \<or> is_error ec"
    by (auto simp: buffer_size_eq gather_storage [OF st])
  then have "bws_flush wr (st, s) = Some (n, ec, st_consume n st, snd w')" by (simp add: bws_flush_def write_sync_def)
  then show ?thesis using r st_consume_ok [OF st r(2)] by blast
qed

lemma bws_copy_spec:
  assumes "st_ok st"
  shows "\<exists>n st'. bws_copy bytes st = (n, st') \<and> n = min (length bytes) (st_capacity st - st_size st) \<and> st_ok st' \<and>
    st_data st' = st_data st @ take n bytes \<and> st_capacity st' = st_capacity st"
proof -
  let ?n = "min (length bytes) (st_capacity st - st_size st)"
  have c: "bws_copy bytes st = (?n, st_store (st_size st) (take ?n bytes) (st_resize (st_size st + ?n) st))"
    by (simp add: bws_copy_def Let_def min_def)
  have "st_size st + length (take ?n bytes) = st_size st + ?n" "st_size st + ?n \<le> st_capacity st"
    using st_data_size [OF assms] by simp_all
  from st_resize_store [OF assms this] c show ?thesis by blast
qed

lemma bws_write_some_spec:
  assumes wr: "byte_writes wr output" and st: "st_ok st" "st_capacity st > 0"
  shows "\<exists>n ec st' s'. bws_write_some wr bytes (st, s) = Some (n, ec, st', s') \<and> st_ok st' \<and> st_capacity st' = st_capacity st \<and>
    n \<le> length bytes \<and> output s' @ st_data st' = output s @ st_data st @ take n bytes \<and>
    (bytes = [] \<or> n > 0 \<or> is_error ec)"
proof (cases "bytes = []")
  case True
  then show ?thesis using st by (simp add: bws_write_some_def)
next
  case b: False
  show ?thesis
  proof (cases "st_size st = st_capacity st")
    case True
    from bws_flush_spec [OF wr st(1), of s] obtain n ec st1 s1 where
      f: "bws_flush wr (st, s) = Some (n, ec, st1, s1)" "st_ok st1" "st_capacity st1 = st_capacity st" "n \<le> st_size st"
        "output s1 = output s @ take n (st_data st)" "st_data st1 = drop n (st_data st)" "is_error ec \<or> n = st_size st" by blast
    have o: "output s1 @ st_data st1 = output s @ st_data st" by (simp add: f(5,6))
    show ?thesis
    proof (cases "n = 0")
      case z: True
      then have "bws_write_some wr bytes (st, s) = Some (0, ec, st1, s1)" using b True f(1) by (simp add: bws_write_some_def)
      moreover have "is_error ec" using z f(7) True st(2) by simp
      ultimately show ?thesis using f o by simp
    next
      case False
      from bws_copy_spec [OF f(2), of bytes] obtain k st2 where
        c: "bws_copy bytes st1 = (k, st2)" "k = min (length bytes) (st_capacity st1 - st_size st1)" "st_ok st2"
          "st_data st2 = st_data st1 @ take k bytes" "st_capacity st2 = st_capacity st1" by blast
      have "bws_write_some wr bytes (st, s) = Some (k, ec, st2, s1)" using b True f(1) False c(1) by (simp add: bws_write_some_def)
      moreover have "st_size st1 = st_size st - n" using st_data_length [OF f(2)] st_data_length [OF st(1)] f(6) by simp
      then have "k > 0" using c(2) False f(4) b True f(3) st(2) by simp
      moreover have "output s1 @ st_data st2 = output s @ st_data st @ take k bytes" using o c(4) by (metis append.assoc)
      ultimately show ?thesis using c f(3) by auto
    qed
  next
    case False
    from bws_copy_spec [OF st(1), of bytes] obtain k st2 where
      c: "bws_copy bytes st = (k, st2)" "k = min (length bytes) (st_capacity st - st_size st)" "st_ok st2"
        "st_data st2 = st_data st @ take k bytes" "st_capacity st2 = st_capacity st" by blast
    then have "bws_write_some wr bytes (st, s) = Some (k, no_error, st2, s)" using b False by (simp add: bws_write_some_def)
    moreover have "k > 0" using c(2) False b st_data_size [OF st(1)] by simp
    ultimately show ?thesis using c by auto
  qed
qed

subsection \<open>Properties\<close>

text \<open>A stream that takes one byte, and fails from then on.\<close>

definition faulty :: "(nat \<times> u8 list) byte_writer" where
  "faulty bytes s =
     (if fst s = 0 then (min 1 (length bytes), no_error, 1, snd s @ take (min 1 (length bytes)) bytes)
      else (0, basic_error broken_pipe, s))"

lemma faulty_writes: "byte_writes faulty snd"
  by (auto simp: byte_writes_def faulty_def Suc_le_eq split: if_splits)

lemma trickle_silent: "silent_errors trickle"
  by (auto simp: silent_errors_def trickle_def split: list.splits)

text \<open>
  C25. Reading through a buffered stream gives the bytes of the next layer in order and without loss: what
  a read returns, what stays in the storage and what the next layer has left are together what was
  there before, a read of something returns something or an error, and the asynchronous read
  gives the same as the synchronous one.
\<close>

theorem buffered_read_is_transparent:
  assumes "delivers rd input" "rd_progress rd" "plain_reader rd" "silent_errors rd"
    and "st_ok st" "st_capacity st > 0" "k > 0" "brs_read_some rd k (st, s) = (bytes, ec, st', s')"
  shows "st_ok st' \<and> st_capacity st' = st_capacity st \<and> st_data st @ input s = bytes @ st_data st' @ input s' \<and>
    length bytes \<le> k \<and> (bytes \<noteq> [] \<or> is_error ec) \<and>
    brs_async_read_some rd k (st, s) = (bytes, ec, st', s')"
  using brs_read_some_spec [OF assms(1,2,5,6,8)] brs_async_read_some_eq [OF assms(1-7), of s] assms(7,8) by simp

theorem buffered_read_is_transparent_witness:
  "brs_async_read_some trickle 3 (st_new 2, [5, 6]) = brs_read_some trickle 3 (st_new 2, [5, 6])"
proof -
  obtain bytes ec st' s' where r: "brs_read_some trickle 3 (st_new 2, [5, 6]) = (bytes, ec, st', s')"
    by (cases "brs_read_some trickle 3 (st_new 2, [5, 6])") auto
  have "st_capacity (st_new 2) > 0" "(3 :: nat) > 0" by (simp_all add: st_new_ok(3))
  from buffered_read_is_transparent [OF trickle_ok trickle_silent st_new_ok(1) this r] r show ?thesis by simp
qed

text \<open>
  C26. Writing through a buffered stream returns and keeps the bytes in order: what reached the next
  layer followed by what is held back is what was there before followed by the bytes accepted, of which
  there is at least one unless an error is reported; a flush that reports no error leaves nothing
  held back.
\<close>

theorem buffered_write_keeps_order:
  assumes "byte_writes wr output" "st_ok st" "st_capacity st > 0"
  shows "(\<exists>n ec st' s'. bws_write_some wr bytes (st, s) = Some (n, ec, st', s') \<and> st_ok st' \<and> st_capacity st' = st_capacity st \<and>
      n \<le> length bytes \<and> output s' @ st_data st' = output s @ st_data st @ take n bytes \<and>
      (bytes = [] \<or> n > 0 \<or> is_error ec)) \<and>
    (\<exists>n ec st' s'. bws_flush wr (st, s) = Some (n, ec, st', s') \<and> st_ok st' \<and>
      output s' @ st_data st' = output s @ st_data st \<and> (is_error ec \<or> st_data st' = []))"
proof
  show "\<exists>n ec st' s'. bws_write_some wr bytes (st, s) = Some (n, ec, st', s') \<and> st_ok st' \<and> st_capacity st' = st_capacity st \<and>
      n \<le> length bytes \<and> output s' @ st_data st' = output s @ st_data st @ take n bytes \<and>
      (bytes = [] \<or> n > 0 \<or> is_error ec)"
    by (rule bws_write_some_spec [OF assms])
  from bws_flush_spec [OF assms(1,2), of s] obtain n ec st' s' where
    f: "bws_flush wr (st, s) = Some (n, ec, st', s')" "st_ok st'" "output s' = output s @ take n (st_data st)"
      "st_data st' = drop n (st_data st)" "is_error ec \<or> n = st_size st" by blast
  have "output s' @ st_data st' = output s @ st_data st" by (simp add: f(3,4))
  moreover have "is_error ec \<or> st_data st' = []" using f(4,5) st_data_length [OF assms(2)] by auto
  ultimately show "\<exists>n ec st' s'. bws_flush wr (st, s) = Some (n, ec, st', s') \<and> st_ok st' \<and>
      output s' @ st_data st' = output s @ st_data st \<and> (is_error ec \<or> st_data st' = [])" using f(1,2) by blast
qed

theorem buffered_write_keeps_order_witness:
  "\<exists>n ec st' s'. bws_write_some faulty [7, 8] (st_new 1, (0, [])) = Some (n, ec, st', s') \<and>
     snd s' @ st_data st' = take n [7, 8] \<and> (n > 0 \<or> is_error ec)"
proof -
  have "st_capacity (st_new 1) > 0" by (simp add: st_new_ok(3))
  from buffered_write_keeps_order [OF faulty_writes st_new_ok(1) this, of "[7, 8]" "(0, [])"] show ?thesis
    by (auto simp: st_new_ok(2))
qed

text \<open>Two bytes held back in a storage of two.\<close>

definition st_full :: storage where
  "st_full = \<lparr>begin_offset = 0, end_offset = 2, st_buffer = [1, 2]\<rparr>"

text \<open>A stream that takes one byte, then fails once, and then takes all.\<close>

definition hiccup :: "(nat \<times> u8 list) byte_writer" where
  "hiccup bytes s =
     (if fst s = 0 then (min 1 (length bytes), no_error, 1, snd s @ take (min 1 (length bytes)) bytes)
      else if fst s = 1 then (0, basic_error broken_pipe, 2, snd s)
      else (length bytes, no_error, fst s, snd s @ bytes))"

lemma hiccup_writes: "byte_writes hiccup snd"
  by (auto simp: byte_writes_def hiccup_def Suc_le_eq split: if_splits)

lemma hiccup_write_sync:
  "write_sync (on_memory hiccup) [\<lparr>b_addr = 0, b_size = 2\<rparr>] transfer_all (\<lambda>a. [1, 2 :: u8] ! a, 0, []) =
     Some (1, basic_error broken_pipe, \<lambda>a. [1, 2] ! a, 2, [1])"
proof -
  let ?w = "\<lambda>a. [1, 2 :: u8] ! a"
  let ?cb = "cb_prepare 65536 (cb_new [\<lparr>b_addr = 0, b_size = 2\<rparr>])"
  let ?cb1 = "cb_prepare (transfer_all no_error (0 + 1)) (cb_consume 1 ?cb)"
  let ?cb2 = "cb_prepare (transfer_all (basic_error broken_pipe) (1 + 0)) (cb_consume 0 ?cb1)"
  have nd: "\<not> cb_done ?cb" "\<not> cb_done ?cb1" "cb_done ?cb2"
    by (simp_all add: cb_done_iff cb_consume_left cb_left_new buf_addrs_def transfer_all_def default_max_transfer_size_def
        cb_prepare_def cb_new_def cb_left_def)
  have g: "gather (cb_buffers ?cb) ?w = [1, 2]" "gather (cb_buffers ?cb1) ?w = [2]"
    by (simp_all add: gather_def addrs_cb_buffers cb_consume_left cb_left_new buf_addrs_def upt_rec
        transfer_all_def default_max_transfer_size_def)
  have io: "on_memory hiccup (cb_buffers ?cb) (?w, 0, []) = (1, no_error, ?w, 1, [1])"
    "on_memory hiccup (cb_buffers ?cb1) (?w, 1, [1]) = (0, basic_error broken_pipe, ?w, 2, [1])"
    by (simp_all add: on_memory_def g hiccup_def)
  show ?thesis
    using io_loop_step [OF nd(1), of "\<lambda>_. on_memory hiccup" 0 _ 1 no_error _ transfer_all no_error] io
      io_loop_step [OF nd(2), of "\<lambda>_. on_memory hiccup" 1 _ 0 "basic_error broken_pipe" _ transfer_all no_error]
      io_loop_done [OF nd(3), of "\<lambda>_. on_memory hiccup" transfer_all "basic_error broken_pipe" 1]
    by (simp add: write_sync_def io_sync_def transfer_all_def [of no_error 0] default_max_transfer_size_def)
qed

lemma hiccup_mended:
  "write_sync (on_memory hiccup) [\<lparr>b_addr = 0, b_size = 2\<rparr>] transfer_all (\<lambda>a. [1, 2 :: u8] ! a, 2, [1]) =
     Some (2, no_error, \<lambda>a. [1, 2] ! a, 2, [1, 1, 2])"
proof -
  let ?w = "\<lambda>a. [1, 2 :: u8] ! a"
  let ?cb = "cb_prepare 65536 (cb_new [\<lparr>b_addr = 0, b_size = 2\<rparr>])"
  let ?cb1 = "cb_prepare (transfer_all no_error (0 + 2)) (cb_consume 2 ?cb)"
  have nd: "\<not> cb_done ?cb" "cb_done ?cb1"
    by (simp_all add: cb_done_iff cb_consume_left cb_left_new buf_addrs_def transfer_all_def default_max_transfer_size_def
        cb_prepare_def cb_new_def cb_left_def)
  have "gather (cb_buffers ?cb) ?w = [1, 2]"
    by (simp add: gather_def addrs_cb_buffers cb_left_new buf_addrs_def upt_rec)
  then have io: "on_memory hiccup (cb_buffers ?cb) (?w, 2, [1]) = (2, no_error, ?w, 2, [1, 1, 2])"
    by (simp add: on_memory_def hiccup_def)
  show ?thesis
    using io_loop_step [OF nd(1), of "\<lambda>_. on_memory hiccup" 0 _ 2 no_error _ transfer_all no_error] io
      io_loop_done [OF nd(2), of "\<lambda>_. on_memory hiccup" transfer_all no_error 2]
    by (simp add: write_sync_def io_sync_def transfer_all_def [of no_error 0] default_max_transfer_size_def
        numeral_2_eq_2)
qed

text \<open>
  A write that has to flush first can report an error and bytes at once: the flush sends a part and
  fails, the room it made takes the new byte, and the call returns one together with the error,
  where the documentation has it return zero; the flush, too, returns what it wrote with the error.
\<close>

lemma write_reports_error_and_bytes:
  "bws_flush hiccup (st_full, (0, [])) =
     Some (1, basic_error broken_pipe, \<lparr>begin_offset = 1, end_offset = 2, st_buffer = [1, 2]\<rparr>, (2, [1])) \<and>
   (\<exists>st'. bws_write_some hiccup [9] (st_full, (0, [])) = Some (1, basic_error broken_pipe, st', (2, [1])) \<and> st_data st' = [2, 9])"
proof -
  have f: "bws_flush hiccup (st_full, (0, [])) =
     Some (1, basic_error broken_pipe, \<lparr>begin_offset = 1, end_offset = 2, st_buffer = [1, 2]\<rparr>, (2, [1]))"
    using hiccup_write_sync by (simp add: bws_flush_def st_full_def st_size_def st_consume_def Let_def st_empty_def)
  have "st_size st_full = st_capacity st_full" by (simp add: st_full_def st_size_def st_capacity_def)
  with f show ?thesis
    by (simp add: bws_write_some_def bws_copy_def Let_def st_size_def st_capacity_def st_store_def st_resize_def st_data_def
        numeral_2_eq_2)
qed

text \<open>
  C32. The throwing \<^verbatim>\<open>flush\<close> forgets its progress: when it throws, the bytes it has sent, those that the
  version with an error code returns and removes, are still in the buffer, so that the next flush that returns
  has sent them a second time, followed by the rest. This holds for any next layer that writes
  prefixes and any storage.
\<close>

theorem throwing_flush_sends_twice:
  assumes "byte_writes wr output" "st_ok st"
    and "bws_flush_throw wr (st, s) = Some (Inl e, st1, s1)"
    and "bws_flush_throw wr (st1, s1) = Some (Inr m, st2, s2)"
  shows "\<exists>n ec. bws_flush wr (st, s) = Some (n, ec, st_consume n st, s1) \<and> is_error ec \<and>
    output s2 = output s @ take n (st_data st) @ st_data st \<and> st_data st2 = []"
proof -
  have both: "bws_flush_throw wr (st, s) = (case bws_flush wr (st, s) of None \<Rightarrow> None
      | Some (n, ec, st', s') \<Rightarrow> Some (case throw_error ec of Inl e \<Rightarrow> (Inl e, st, s') | Inr _ \<Rightarrow> (Inr n, st', s')))" for st s
    by (auto simp: bws_flush_throw_def bws_flush_def map_option_case split: option.splits prod.splits sum.splits)
  from bws_flush_spec [OF assms(1,2), of s] obtain n ec st' s' where
    f: "bws_flush wr (st, s) = Some (n, ec, st', s')" "output s' = output s @ take n (st_data st)" by blast
  then have c: "st' = st_consume n st" by (auto simp: bws_flush_def)
  have one: "st1 = st" "s1 = s'" "is_error ec"
    using assms(3) f(1) by (auto simp: both throw_error_def split: sum.splits if_splits)
  from bws_flush_spec [OF assms(1,2), of s1] obtain k ec2 st'' s'' where
    g: "bws_flush wr (st, s1) = Some (k, ec2, st'', s'')" "output s'' = output s1 @ take k (st_data st)"
      "st_data st'' = drop k (st_data st)" "is_error ec2 \<or> k = st_size st" by blast
  have "st2 = st''" "s2 = s''" "\<not> is_error ec2"
    using assms(4) g(1) one by (auto simp: both throw_error_def split: sum.splits if_splits)
  then have "output s2 = output s @ take n (st_data st) @ st_data st" "st_data st2 = []"
    using f(2) g(2-4) one st_data_length [OF assms(2)] by simp_all
  then show ?thesis using f(1) c one by blast
qed

theorem throwing_flush_sends_twice_witness:
  "\<exists>e st2 s2. bws_flush_throw hiccup (st_full, (0, [])) = Some (Inl e, st_full, (2, [1])) \<and>
     bws_flush_throw hiccup (st_full, (2, [1])) = Some (Inr 2, st2, s2) \<and> snd s2 = [1, 1, 2]"
proof -
  have a: "\<exists>e. bws_flush_throw hiccup (st_full, (0, [])) = Some (Inl e, st_full, (2, [1]))"
    using hiccup_write_sync
    by (auto simp: bws_flush_throw_def st_full_def st_size_def throw_error_def is_error_def basic_error_def)
  have b: "\<exists>st2 s2. bws_flush_throw hiccup (st_full, (2, [1])) = Some (Inr 2, st2, s2)"
    using hiccup_mended
    by (auto simp: bws_flush_throw_def st_full_def st_size_def throw_error_def is_error_def no_error_def)
  have st: "st_ok st_full" "st_data st_full = [1, 2]" by (simp_all add: st_ok_def st_full_def st_data_def st_size_def)
  have w: "bws_flush hiccup (st_full, (0, [])) =
      Some (1, basic_error broken_pipe, \<lparr>begin_offset = 1, end_offset = 2, st_buffer = [1, 2]\<rparr>, (2, [1]))"
    using write_reports_error_and_bytes by blast
  from a b obtain e st2 s2 where r: "bws_flush_throw hiccup (st_full, (0, [])) = Some (Inl e, st_full, (2, [1]))"
    "bws_flush_throw hiccup (st_full, (2, [1])) = Some (Inr 2, st2, s2)" by blast
  from throwing_flush_sends_twice [OF hiccup_writes st(1) r] have "snd s2 = [1, 1, 2]" using w st(2) by auto
  then show ?thesis using r by blast
qed

end
