(* ===== verification/BuffersIterator.thy ===== *)
theory BuffersIterator
  imports Buffers
begin

text \<open>
  \<^verbatim>\<open>buffers_iterator.hpp\<close>: a random access iterator over the bytes of a buffer sequence. The iterators
  \<^verbatim>\<open>begin_\<close>, \<^verbatim>\<open>current_\<close> and \<^verbatim>\<open>end_\<close> into the sequence are the sequence and an index. The
  assertions are left out; a loop that an iterator out of bounds may not leave is \<open>None\<close>.
\<close>

record biter =
  bi_buffer :: buf
  bi_offset :: nat
  bi_seq :: "buf list"
  bi_current :: nat
  bi_position :: nat

subsection \<open>Construction\<close>

text \<open>The search for a buffer that is not empty, from an index on; the last one met is kept.\<close>

function bi_skip :: "biter \<Rightarrow> biter" where
  "bi_skip it =
     (if bi_current it < length (bi_seq it) then
        let it = it\<lparr>bi_buffer := bi_seq it ! bi_current it\<rparr> in
        if b_size (bi_buffer it) > 0 then it else bi_skip (it\<lparr>bi_current := bi_current it + 1\<rparr>)
      else it)"
  by pat_completeness auto
termination
  by (relation "measure (\<lambda>it. length (bi_seq it) - bi_current it)") (auto simp: Let_def)

declare bi_skip.simps [simp del]

definition bi_begin :: "buf list \<Rightarrow> biter" where
  "bi_begin bs = bi_skip \<lparr>bi_buffer = null_buffer, bi_offset = 0, bi_seq = bs, bi_current = 0, bi_position = 0\<rparr>"

fun end_loop :: "buf list \<Rightarrow> biter \<Rightarrow> biter" where
  "end_loop [] it = it"
| "end_loop (b # bs) it = end_loop bs (it\<lparr>bi_position := bi_position it + b_size b, bi_current := bi_current it + 1\<rparr>)"

definition bi_end :: "buf list \<Rightarrow> biter" where
  "bi_end bs = end_loop bs \<lparr>bi_buffer = null_buffer, bi_offset = 0, bi_seq = bs, bi_current = 0, bi_position = 0\<rparr>"

subsection \<open>Operations\<close>

definition bi_deref :: "biter \<Rightarrow> nat" where
  "bi_deref it = b_addr (bi_buffer it) + bi_offset it"

definition bi_equal :: "biter \<Rightarrow> biter \<Rightarrow> bool" where
  "bi_equal a b \<longleftrightarrow> bi_position a = bi_position b"

definition bi_distance :: "biter \<Rightarrow> biter \<Rightarrow> int" where
  "bi_distance a b = int (bi_position b) - int (bi_position a)"

definition bi_less :: "biter \<Rightarrow> biter \<Rightarrow> bool" where
  "bi_less a b \<longleftrightarrow> bi_distance a b > 0"

definition bi_increment :: "biter \<Rightarrow> biter" where
  "bi_increment it =
     (let it = it\<lparr>bi_position := bi_position it + 1, bi_offset := bi_offset it + 1\<rparr> in
      if bi_offset it \<noteq> b_size (bi_buffer it) then it
      else bi_skip (it\<lparr>bi_current := bi_current it + 1, bi_offset := 0\<rparr>))"

text \<open>The nearest buffer before an index that is not empty.\<close>

fun previous :: "buf list \<Rightarrow> nat \<Rightarrow> nat option" where
  "previous bs 0 = None"
| "previous bs (Suc i) = (if b_size (bs ! i) > 0 then Some i else previous bs i)"

definition bi_decrement :: "biter \<Rightarrow> biter" where
  "bi_decrement it =
     (let it = it\<lparr>bi_position := bi_position it - 1\<rparr> in
      if bi_offset it \<noteq> 0 then it\<lparr>bi_offset := bi_offset it - 1\<rparr>
      else (case previous (bi_seq it) (bi_current it) of
          None \<Rightarrow> it
        | Some i \<Rightarrow> it\<lparr>bi_current := i, bi_buffer := bi_seq it ! i, bi_offset := b_size (bi_seq it ! i) - 1\<rparr>))"

function bi_forward :: "nat \<Rightarrow> biter \<Rightarrow> biter" where
  "bi_forward n it =
     (let balance = b_size (bi_buffer it) - bi_offset it in
      if balance > n then it\<lparr>bi_position := bi_position it + n, bi_offset := bi_offset it + n\<rparr>
      else
        let n = n - balance; c = bi_current it + 1;
            it = it\<lparr>bi_position := bi_position it + balance, bi_current := c, bi_offset := 0\<rparr> in
        if c \<ge> length (bi_seq it) then it\<lparr>bi_buffer := null_buffer\<rparr>
        else bi_forward n (it\<lparr>bi_buffer := bi_seq it ! c\<rparr>))"
  by pat_completeness auto
termination
  by (relation "measure (\<lambda>(_, it). length (bi_seq it) - bi_current it)") (auto simp: Let_def)

declare bi_forward.simps [simp del]

partial_function (option) bi_backward :: "nat \<Rightarrow> biter \<Rightarrow> biter option" where
  "bi_backward n it =
     (if bi_offset it \<ge> n then Some (it\<lparr>bi_position := bi_position it - n, bi_offset := bi_offset it - n\<rparr>)
      else
        let n = n - bi_offset it; it = it\<lparr>bi_position := bi_position it - bi_offset it\<rparr> in
        if bi_current it = 0 then Some (it\<lparr>bi_offset := 0\<rparr>)
        else (case previous (bi_seq it) (bi_current it) of
            None \<Rightarrow> bi_backward n it
          | Some i \<Rightarrow> bi_backward n (it\<lparr>bi_current := i, bi_buffer := bi_seq it ! i, bi_offset := b_size (bi_seq it ! i)\<rparr>)))"

definition bi_advance :: "int \<Rightarrow> biter \<Rightarrow> biter option" where
  "bi_advance n it =
     (if n > 0 then Some (bi_forward (nat n) it)
      else if n < 0 then bi_backward (nat (- n)) it
      else Some it)"

definition bi_plus :: "biter \<Rightarrow> int \<Rightarrow> biter option" where
  "bi_plus it n = bi_advance n it"

definition bi_minus :: "biter \<Rightarrow> int \<Rightarrow> biter option" where
  "bi_minus it n = bi_advance (- n) it"

definition bi_index :: "biter \<Rightarrow> int \<Rightarrow> nat option" where
  "bi_index it n = map_option bi_deref (bi_advance n it)"

subsection \<open>Iterators as indices\<close>

text \<open>The iterator of an index: inside a buffer that is not empty, or at the end.\<close>

definition before :: "buf list \<Rightarrow> nat \<Rightarrow> nat" where
  "before bs i = length (addrs (take i bs))"

definition bi_at :: "buf list \<Rightarrow> nat \<Rightarrow> biter \<Rightarrow> bool" where
  "bi_at bs p it \<longleftrightarrow> bi_seq it = bs \<and> bi_position it = p \<and>
     (if bi_current it < length bs
      then bi_buffer it = bs ! bi_current it \<and> bi_offset it < b_size (bi_buffer it) \<and> p = before bs (bi_current it) + bi_offset it
      else bi_current it = length bs \<and> p = length (addrs bs) \<and> bi_offset it = 0)"

lemma before_0 [simp]: "before bs 0 = 0"
  by (simp add: before_def)

lemma before_Suc: "i < length bs \<Longrightarrow> before bs (Suc i) = before bs i + b_size (bs ! i)"
  by (simp add: before_def take_Suc_conv_app_nth)

lemma before_length: "before bs (length bs) = length (addrs bs)"
  by (simp add: before_def)

lemma before_le: "before bs i \<le> length (addrs bs)"
proof -
  have "addrs bs = addrs (take i bs) @ addrs (drop i bs)" by (metis addrs_simps(3) append_take_drop_id)
  then show ?thesis by (simp add: before_def)
qed

lemma addrs_nth:
  assumes "i < length bs" "k < b_size (bs ! i)"
  shows "addrs bs ! (before bs i + k) = b_addr (bs ! i) + k"
proof -
  have "addrs bs = addrs (take i bs) @ buf_addrs (bs ! i) @ addrs (drop (Suc i) bs)"
    using assms(1) by (metis Cons_nth_drop_Suc addrs_simps(2,3) append_take_drop_id)
  then show ?thesis using assms(2) by (simp add: before_def nth_append buf_addrs_def)
qed

lemma bi_skip_at:
  "bi_seq it = bs \<Longrightarrow> bi_current it \<le> length bs \<Longrightarrow> bi_offset it = 0 \<Longrightarrow>
   bi_position it = before bs (bi_current it) \<Longrightarrow> bi_at bs (bi_position it) (bi_skip it)"
proof (induction it rule: bi_skip.induct)
  case (1 it)
  show ?case
  proof (cases "bi_current it < length (bi_seq it)")
    case True
    show ?thesis
    proof (cases "b_size (bs ! bi_current it) > 0")
      case s: True
      then show ?thesis using 1 True by (subst bi_skip.simps) (simp add: bi_at_def Let_def)
    next
      case False
      then have "bi_skip it = bi_skip (it\<lparr>bi_buffer := bs ! bi_current it, bi_current := bi_current it + 1\<rparr>)"
        using 1(2) True by (subst bi_skip.simps) (simp add: Let_def)
      then show ?thesis using 1 True False by (simp add: before_Suc Let_def)
    qed
  next
    case False
    then show ?thesis using 1 by (subst bi_skip.simps) (simp add: bi_at_def before_length)
  qed
qed

lemma bi_begin_at: "bi_at bs 0 (bi_begin bs)"
  unfolding bi_begin_def using bi_skip_at [of "\<lparr>bi_buffer = null_buffer, bi_offset = 0, bi_seq = bs, bi_current = 0, bi_position = 0\<rparr>" bs]
  by simp

lemma end_loop_eq:
  "end_loop bs it = it\<lparr>bi_position := bi_position it + length (addrs bs), bi_current := bi_current it + length bs\<rparr>"
  by (induction bs it rule: end_loop.induct) auto

lemma bi_end_at: "bi_at bs (length (addrs bs)) (bi_end bs)"
  by (simp add: bi_end_def end_loop_eq bi_at_def)

lemma bi_deref_at: "bi_at bs p it \<Longrightarrow> p < length (addrs bs) \<Longrightarrow> bi_deref it = addrs bs ! p"
  by (auto simp: bi_at_def bi_deref_def addrs_nth split: if_splits)

lemma bi_increment_at:
  assumes "bi_at bs p it" "p < length (addrs bs)"
  shows "bi_at bs (Suc p) (bi_increment it)"
proof -
  have a: "bi_seq it = bs" "bi_position it = p" "bi_current it < length bs" "bi_buffer it = bs ! bi_current it"
    "bi_offset it < b_size (bs ! bi_current it)" "p = before bs (bi_current it) + bi_offset it"
    using assms by (auto simp: bi_at_def split: if_splits)
  show ?thesis
  proof (cases "Suc (bi_offset it) = b_size (bs ! bi_current it)")
    case True
    let ?it = "it\<lparr>bi_position := Suc p, bi_current := Suc (bi_current it), bi_offset := 0\<rparr>"
    have "bi_at bs (bi_position ?it) (bi_skip ?it)"
      by (rule bi_skip_at) (use a True in \<open>simp_all add: before_Suc\<close>)
    then show ?thesis using a True by (simp add: bi_increment_def Let_def)
  next
    case False
    then show ?thesis using a by (simp add: bi_increment_def Let_def bi_at_def)
  qed
qed

lemma previous_Some:
  "i \<le> length bs \<Longrightarrow> previous bs i = Some j \<Longrightarrow> j < i \<and> b_size (bs ! j) > 0 \<and> before bs i = before bs j + b_size (bs ! j)"
proof (induction bs i rule: previous.induct)
  case (2 bs i)
  then show ?case by (auto simp: before_Suc split: if_splits)
qed simp

lemma previous_None: "i \<le> length bs \<Longrightarrow> previous bs i = None \<Longrightarrow> before bs i = 0"
  by (induction bs i rule: previous.induct) (auto simp: before_Suc split: if_splits)

lemma bi_at_before: "bi_at bs p it \<Longrightarrow> p = before bs (bi_current it) + bi_offset it \<and> bi_current it \<le> length bs"
  by (auto simp: bi_at_def before_length split: if_splits)

lemma bi_decrement_at:
  assumes "bi_at bs (Suc p) it"
  shows "bi_at bs p (bi_decrement it)"
proof (cases "bi_offset it = 0")
  case False
  then show ?thesis using assms by (auto simp: bi_decrement_def Let_def bi_at_def split: if_splits)
next
  case True
  note b = bi_at_before [OF assms]
  have s: "bi_seq it = bs" "bi_position it = Suc p" using assms by (simp_all add: bi_at_def)
  show ?thesis
  proof (cases "previous bs (bi_current it)")
    case None
    with previous_None b True show ?thesis by fastforce
  next
    case (Some j)
    from previous_Some [OF _ this] b have j: "j < bi_current it" "b_size (bs ! j) > 0"
      "before bs (bi_current it) = before bs j + b_size (bs ! j)" by auto
    moreover have "p = before bs j + (b_size (bs ! j) - 1)" using j b True by linarith
    ultimately show ?thesis using b s True Some by (simp add: bi_decrement_def Let_def bi_at_def)
  qed
qed

text \<open>Moving by a distance passes buffers at their end, where the offset equals the size.\<close>

lemma bi_forward_at:
  "bi_seq it = bs \<Longrightarrow> bi_current it < length bs \<Longrightarrow> bi_buffer it = bs ! bi_current it \<Longrightarrow>
   bi_offset it \<le> b_size (bi_buffer it) \<Longrightarrow> bi_position it = before bs (bi_current it) + bi_offset it \<Longrightarrow>
   bi_position it + n \<le> length (addrs bs) \<Longrightarrow> bi_at bs (bi_position it + n) (bi_forward n it)"
proof (induction n it rule: bi_forward.induct)
  case (1 n it)
  define bal where "bal = b_size (bi_buffer it) - bi_offset it"
  show ?case
  proof (cases "bal > n")
    case True
    then show ?thesis using 1 by (subst bi_forward.simps) (auto simp: bal_def Let_def bi_at_def)
  next
    case False
    let ?it = "it\<lparr>bi_position := bi_position it + bal, bi_current := bi_current it + 1, bi_offset := 0\<rparr>"
    have pos: "bi_position it + bal = before bs (Suc (bi_current it))" using 1(3-6) by (simp add: before_Suc bal_def)
    show ?thesis
    proof (cases "bi_current it + 1 \<ge> length bs")
      case last: True
      then have l: "Suc (bi_current it) = length bs" using 1(3) by simp
      have "bi_forward n it = ?it\<lparr>bi_buffer := null_buffer\<rparr>"
        using False last 1(2) by (subst bi_forward.simps) (simp add: bal_def Let_def)
      moreover have "bi_position it + n = length (addrs bs)"
        using pos l 1(7) False before_length [of bs] by simp
      ultimately show ?thesis using l pos 1(2) before_length [of bs] by (simp add: bi_at_def)
    next
      case more: False
      have eq: "bi_forward n it = bi_forward (n - bal) (?it\<lparr>bi_buffer := bs ! (bi_current it + 1)\<rparr>)"
        using False more 1(2) by (subst bi_forward.simps) (simp add: bal_def Let_def)
      have "bi_at bs (bi_position it + bal + (n - bal)) (bi_forward (n - bal) (?it\<lparr>bi_buffer := bs ! (bi_current it + 1)\<rparr>))"
        using 1(1) [of bal "n - bal" "bi_current it + 1" ?it] False more 1(2-) pos by (simp add: bal_def add.assoc)
      then show ?thesis unfolding eq using False by simp
    qed
  qed
qed

lemma bi_backward_at:
  "bi_seq it = bs \<Longrightarrow> bi_current it \<le> length bs \<Longrightarrow>
   (bi_current it < length bs \<Longrightarrow> bi_buffer it = bs ! bi_current it \<and> bi_offset it \<le> b_size (bi_buffer it)) \<Longrightarrow>
   (bi_current it = length bs \<Longrightarrow> bi_offset it = 0) \<Longrightarrow> bi_position it = before bs (bi_current it) + bi_offset it \<Longrightarrow>
   0 < n \<Longrightarrow> n \<le> bi_position it \<Longrightarrow> \<exists>it'. bi_backward n it = Some it' \<and> bi_at bs (bi_position it - n) it'"
proof (induction "bi_current it" arbitrary: n it rule: less_induct)
  case less
  show ?case
  proof (cases "bi_offset it \<ge> n")
    case True
    then have "bi_current it < length bs" using less.prems by (metis le_neq_implies_less not_le)
    with True less.prems show ?thesis by (subst bi_backward.simps) (auto simp: bi_at_def)
  next
    case False
    let ?n = "n - bi_offset it"
    have cur: "bi_current it \<noteq> 0" using False less.prems(5,7) by (cases "bi_current it") auto
    have b: "?n \<le> before bs (bi_current it)" "?n > 0" using False less.prems(5,7) by auto
    obtain j where j: "previous bs (bi_current it) = Some j"
      using previous_None [OF less.prems(2)] b by (cases "previous bs (bi_current it)") auto
    from previous_Some [OF less.prems(2) j] have k: "j < bi_current it" "b_size (bs ! j) > 0"
      "before bs (bi_current it) = before bs j + b_size (bs ! j)" by auto
    let ?it = "it\<lparr>bi_position := bi_position it - bi_offset it, bi_current := j, bi_buffer := bs ! j, bi_offset := b_size (bs ! j)\<rparr>"
    have eq: "bi_backward n it = bi_backward ?n ?it"
      using False cur j less.prems(1) by (subst bi_backward.simps) (simp add: Let_def)
    have "\<exists>it'. bi_backward ?n ?it = Some it' \<and> bi_at bs (bi_position ?it - ?n) it'"
      by (rule less.hyps) (use less.prems b k in auto)
    moreover have "bi_position ?it - ?n = bi_position it - n" using False less.prems(5) by simp
    ultimately show ?thesis unfolding eq by simp
  qed
qed

text \<open>
  C30. An iterator over a buffer sequence is an index into its bytes, whatever empty buffers it has: begin is
  index zero and end the number of bytes; dereferencing gives the address of that byte;
  incrementing, decrementing and moving by any distance that stays in range change the index by that
  much and return; and comparison is that of the indices.
\<close>

theorem buffers_iterator_is_index:
  assumes "bi_at bs p it" "0 \<le> int p + n" "int p + n \<le> int (buffers_size bs)" "bi_at bs q it'"
  shows "bi_at bs 0 (bi_begin bs) \<and> bi_at bs (buffers_size bs) (bi_end bs) \<and>
    (p < buffers_size bs \<longrightarrow> bi_deref it = addrs bs ! p \<and> bi_at bs (p + 1) (bi_increment it)) \<and>
    (0 < p \<longrightarrow> bi_at bs (p - 1) (bi_decrement it)) \<and>
    (\<exists>it2. bi_advance n it = Some it2 \<and> bi_at bs (nat (int p + n)) it2) \<and>
    bi_distance it it' = int q - int p \<and> bi_equal it it' = (p = q) \<and> bi_less it it' = (p < q)"
proof -
  have l: "buffers_size bs = length (addrs bs)" by (rule buffer_size_eq)
  have at: "bi_seq it = bs" "bi_position it = p" using assms(1) by (simp_all add: bi_at_def)
  have "\<exists>it2. bi_advance n it = Some it2 \<and> bi_at bs (nat (int p + n)) it2"
  proof -
    consider "n = 0" | "n > 0" | "n < 0" by linarith
    then show ?thesis
    proof cases
      case 1
      then show ?thesis using assms(1) by (simp add: bi_advance_def)
    next
      case 2
      then have "p < length (addrs bs)" using assms(3) l by simp
      then have "bi_at bs (bi_position it + nat n) (bi_forward (nat n) it)"
        using assms(1,3) 2 l by (intro bi_forward_at) (auto simp: bi_at_def split: if_splits)
      then show ?thesis using 2 at by (simp add: bi_advance_def nat_add_distrib)
    next
      case 3
      have "\<exists>it'. bi_backward (nat (- n)) it = Some it' \<and> bi_at bs (bi_position it - nat (- n)) it'"
        using assms(1,2) 3 bi_at_before [OF assms(1)]
        by (intro bi_backward_at) (auto simp: bi_at_def split: if_splits)
      moreover have "p - nat (- n) = nat (int p + n)" using 3 assms(2) by linarith
      ultimately show ?thesis using 3 at by (simp add: bi_advance_def)
    qed
  qed
  moreover have "bi_at bs (p - 1) (bi_decrement it)" if "0 < p" using that assms(1) bi_decrement_at [of bs "p - 1" it] by simp
  moreover have "bi_position it' = q" using assms(4) by (simp add: bi_at_def)
  ultimately show ?thesis using bi_begin_at bi_end_at bi_deref_at [OF assms(1)] bi_increment_at [OF assms(1)] at
    by (simp add: l bi_distance_def bi_equal_def bi_less_def)
qed

theorem buffers_iterator_is_index_witness:
  "\<exists>it. bi_advance 3 (bi_begin [\<lparr>b_addr = 4, b_size = 2\<rparr>, null_buffer, \<lparr>b_addr = 9, b_size = 2\<rparr>]) = Some it \<and>
     bi_at [\<lparr>b_addr = 4, b_size = 2\<rparr>, null_buffer, \<lparr>b_addr = 9, b_size = 2\<rparr>] 3 it"
proof -
  let ?bs = "[\<lparr>b_addr = 4, b_size = 2\<rparr>, null_buffer, \<lparr>b_addr = 9, b_size = 2\<rparr>]"
  have "int 0 + 3 \<le> int (buffers_size ?bs)" by (simp add: buffers_size_def null_buffer_def)
  from buffers_iterator_is_index [OF bi_begin_at [of ?bs] _ this bi_begin_at [of ?bs]] show ?thesis by simp
qed

end
