(* ===== verification/Connect.thy ===== *)
theory Connect
  imports SocketService
begin

text \<open>
  Composed connects (\<^verbatim>\<open>impl/connect.hpp\<close>): a socket is closed and connected to each endpoint of a
  sequence in turn. Iterators are indices, the number of endpoints is the end; the service of the socket is
  a state \<open>'w\<close> with the calls \<open>is_open\<close>, \<open>close\<close>, \<open>open\<close> (for the protocol of an endpoint) and
  \<open>connect\<close>, an asynchronous connect standing for what it completes with. They are parameters, given
  by \<open>SocketService\<close> in \<open>service_connector\<close>, as is the condition that picks the next endpoint. Moving or using an iterator past the end is the fault \<open>OutOfBounds\<close>; a condition
  that goes back for ever makes the loop \<open>None\<close>.
\<close>

type_synonym connect_condition = "error_code \<Rightarrow> nat \<Rightarrow> nat"

record 'w connector =
  c_close :: "'w \<Rightarrow> error_code \<times> 'w"
  c_open :: "nat \<Rightarrow> 'w \<Rightarrow> error_code \<times> 'w"
  c_connect :: "nat \<Rightarrow> 'w \<Rightarrow> error_code \<times> 'w"
  c_is_open :: "'w \<Rightarrow> bool"

text \<open>\<^verbatim>\<open>basic_socket::connect\<close> and \<^verbatim>\<open>basic_socket::async_connect\<close>, with what the
  latter completes with: a socket that is closed is opened first.\<close>

definition basic_connect :: "'w connector \<Rightarrow> nat \<Rightarrow> 'w \<Rightarrow> error_code \<times> 'w" where
  "basic_connect s i w =
     (if \<not> c_is_open s w
      then (let (ec, w) = c_open s i w in if is_error ec then (ec, w) else c_connect s i w)
      else c_connect s i w)"

definition basic_async_connect :: "'w connector \<Rightarrow> nat \<Rightarrow> 'w \<Rightarrow> error_code \<times> 'w" where
  "basic_async_connect s i w =
     (if \<not> c_is_open s w
      then (let (ec, w) = c_open s i w in if is_error ec then (ec, w) else c_connect s i w)
      else c_connect s i w)"

definition default_connect_condition :: connect_condition where
  "default_connect_condition ec i = i"

subsection \<open>The synchronous function\<close>

text \<open>Endpoints are given by their index: \<^verbatim>\<open>*iter\<close> is \<open>iter\<close> when it is less than \<open>end\<close>.\<close>

partial_function (option) connect_loop ::
    "'w connector \<Rightarrow> connect_condition \<Rightarrow> nat \<Rightarrow> nat \<Rightarrow> error_code \<Rightarrow> 'w \<Rightarrow> (fault + nat \<times> error_code \<times> 'w) option" where
  "connect_loop s cond fin iter ec w =
     (if iter = fin then
        Some (Inr (fin, if is_error ec then ec else misc_error not_found, w))
      else
        let iter = cond ec iter in
        if iter \<ge> fin then Some (Inl OutOfBounds)
        else
          let (_, w) = c_close s w; (ec, w) = basic_connect s iter w in
          if \<not> is_error ec then Some (Inr (iter, ec, w))
          else connect_loop s cond fin (iter + 1) ec w)"

definition connect_range ::
    "'w connector \<Rightarrow> connect_condition \<Rightarrow> nat \<Rightarrow> nat \<Rightarrow> 'w \<Rightarrow> (fault + nat \<times> error_code \<times> 'w) option" where
  "connect_range s cond begin_iter end_iter w = connect_loop s cond end_iter begin_iter no_error w"

definition connect_default :: "'w connector \<Rightarrow> nat \<Rightarrow> nat \<Rightarrow> 'w \<Rightarrow> (fault + nat \<times> error_code \<times> 'w) option" where
  "connect_default s begin_iter end_iter w = connect_range s default_connect_condition begin_iter end_iter w"

definition connect_throw ::
    "'w connector \<Rightarrow> connect_condition \<Rightarrow> nat \<Rightarrow> nat \<Rightarrow> 'w \<Rightarrow> (fault + (exn + nat) \<times> 'w) option" where
  "connect_throw s cond begin_iter end_iter w =
     map_option (map_sum id (\<lambda>(i, ec, w). (case throw_error ec of Inl e \<Rightarrow> Inl e | Inr _ \<Rightarrow> Inr i, w)))
       (connect_range s cond begin_iter end_iter w)"

subsection \<open>The asynchronous operation\<close>

text \<open>What the operation does next: wait for a connect, post itself with an error, or call the handler. A
  resumption checks the state of the socket, which the user may have closed.\<close>

datatype connect_next = Connecting nat | Posted error_code nat | Connected error_code nat

definition check_condition :: "connect_condition \<Rightarrow> error_code \<Rightarrow> nat \<Rightarrow> nat \<Rightarrow> nat" where
  "check_condition cond ec iter fin = (if iter \<noteq> fin then cond ec iter else iter)"

definition connect_op_start :: "'w connector \<Rightarrow> connect_condition \<Rightarrow> nat \<Rightarrow> nat \<Rightarrow> 'w \<Rightarrow> connect_next \<times> 'w" where
  "connect_op_start s cond iter fin w =
     (let iter = check_condition cond no_error iter fin in
      if iter \<noteq> fin then (Connecting iter, snd (c_close s w))
      else (Posted (misc_error not_found) iter, w))"

definition connect_op_resume ::
    "'w connector \<Rightarrow> connect_condition \<Rightarrow> nat \<Rightarrow> nat \<Rightarrow> error_code \<Rightarrow> 'w \<Rightarrow> connect_next \<times> 'w" where
  "connect_op_resume s cond iter fin ec w =
     (if iter = fin then (Connected ec iter, w)
      else if \<not> c_is_open s w then (Connected (basic_error operation_aborted) iter, w)
      else if \<not> is_error ec then (Connected ec iter, w)
      else
        let iter = check_condition cond ec (iter + 1) fin in
        if iter \<noteq> fin then (Connecting iter, snd (c_close s w))
        else (Connected ec iter, w))"

partial_function (option) connect_op_loop ::
    "'w connector \<Rightarrow> connect_condition \<Rightarrow> nat \<Rightarrow> connect_next \<Rightarrow> 'w \<Rightarrow> (nat \<times> error_code \<times> 'w) option" where
  "connect_op_loop s cond fin st w = (case st of
     Connected ec iter \<Rightarrow> Some (iter, ec, w)
   | Posted ec iter \<Rightarrow> (case connect_op_resume s cond iter fin ec w of (st, w) \<Rightarrow> connect_op_loop s cond fin st w)
   | Connecting iter \<Rightarrow> (case basic_async_connect s iter w of (ec, w) \<Rightarrow>
       case connect_op_resume s cond iter fin ec w of (st, w) \<Rightarrow> connect_op_loop s cond fin st w))"

definition async_connect :: "'w connector \<Rightarrow> connect_condition \<Rightarrow> nat \<Rightarrow> nat \<Rightarrow> 'w \<Rightarrow> (nat \<times> error_code \<times> 'w) option" where
  "async_connect s cond begin_iter end_iter w =
     (case connect_op_start s cond begin_iter end_iter w of (st, w) \<Rightarrow> connect_op_loop s cond end_iter st w)"

subsection \<open>Trying in order\<close>

text \<open>What the service of the socket does to its state: closing closes, opening opens unless it reports an
  error, and connecting leaves it open.\<close>

definition reopens :: "'w connector \<Rightarrow> bool" where
  "reopens s \<longleftrightarrow>
     (\<forall>w. \<not> c_is_open s (snd (c_close s w))) \<and>
     (\<forall>i w. \<not> c_is_open s w \<longrightarrow> (c_is_open s (snd (c_open s i w)) \<longleftrightarrow> \<not> is_error (fst (c_open s i w)))) \<and>
     (\<forall>i w. c_is_open s w \<longrightarrow> c_is_open s (snd (c_connect s i w)))"

text \<open>A system that answers for each endpoint in one way.\<close>

definition answers :: "'w connector \<Rightarrow> (nat \<Rightarrow> error_code) \<Rightarrow> (nat \<Rightarrow> error_code) \<Rightarrow> bool" where
  "answers s opens outcome \<longleftrightarrow>
     (\<forall>i w. \<not> c_is_open s w \<longrightarrow> fst (c_open s i w) = opens i) \<and>
     (\<forall>i w. c_is_open s w \<longrightarrow> fst (c_connect s i w) = outcome i)"

definition attempt :: "(nat \<Rightarrow> error_code) \<Rightarrow> (nat \<Rightarrow> error_code) \<Rightarrow> nat \<Rightarrow> error_code" where
  "attempt opens outcome i = (if is_error (opens i) then opens i else outcome i)"

text \<open>The same service with a log of the endpoints it was opened for.\<close>

definition logged :: "'w connector \<Rightarrow> ('w \<times> nat list) connector" where
  "logged s = \<lparr>c_close = \<lambda>(w, l). (let (ec, w) = c_close s w in (ec, w, l)),
     c_open = \<lambda>i (w, l). (let (ec, w) = c_open s i w in (ec, w, l @ [i])),
     c_connect = \<lambda>i (w, l). (let (ec, w) = c_connect s i w in (ec, w, l)), c_is_open = \<lambda>(w, l). c_is_open s w\<rparr>"

text \<open>The first index of a range with a property, or the end.\<close>

fun first_from :: "(nat \<Rightarrow> bool) \<Rightarrow> nat \<Rightarrow> nat \<Rightarrow> nat" where
  "first_from P i 0 = i"
| "first_from P i (Suc n) = (if P i then i else first_from P (Suc i) n)"

lemma first_from_bounds: "i \<le> first_from P i n \<and> first_from P i n \<le> i + n"
proof (induction n arbitrary: i)
  case (Suc n)
  then show ?case using Suc.IH [of "Suc i"] by (auto dest: Suc_leD)
qed simp

text \<open>An attempt on a socket that has just been closed.\<close>

lemma logged_close:
  assumes "reopens s" "c_close (logged s) (w, l) = (e, w1)"
  shows "\<exists>w'. w1 = (w', l) \<and> \<not> c_is_open s w'"
  using assms by (auto simp: logged_def reopens_def split: prod.splits) (metis snd_conv)

lemma logged_attempt:
  assumes "reopens s" "answers s opens outcome" "\<not> c_is_open s w"
  shows "\<exists>w'. basic_connect (logged s) i (w, l) = (attempt opens outcome i, w', l @ [i]) \<and>
    basic_async_connect (logged s) i (w, l) = (attempt opens outcome i, w', l @ [i]) \<and>
    (c_is_open s w' \<longleftrightarrow> \<not> is_error (opens i))"
proof -
  obtain e1 w1 where o: "c_open s i w = (e1, w1)" by force
  then have e1: "e1 = opens i" "c_is_open s w1 \<longleftrightarrow> \<not> is_error (opens i)"
    using assms unfolding reopens_def answers_def by (metis fst_conv snd_conv)+
  obtain e2 w2 where c: "c_connect s i w1 = (e2, w2)" by force
  have "\<not> is_error (opens i) \<Longrightarrow> e2 = outcome i \<and> c_is_open s w2"
    using assms e1(2) c unfolding reopens_def answers_def by (metis fst_conv snd_conv)
  then show ?thesis using assms(3) o c e1 by (auto simp: basic_connect_def basic_async_connect_def logged_def attempt_def)
qed

lemma connect_loop_default:
  assumes "reopens s" "answers s opens outcome"
  defines "att \<equiv> attempt opens outcome"
  defines "k \<equiv> first_from (\<lambda>j. \<not> is_error (att j))"
  shows "fin = i + n \<Longrightarrow>
    \<exists>w'. connect_loop (logged s) default_connect_condition fin i ec (w, l) =
        Some (Inr (k i n, if k i n < fin then att (k i n) else if n > 0 then att (fin - 1)
          else if is_error ec then ec else misc_error not_found, w', l @ [i ..< min fin (Suc (k i n))]))"
proof (induction n arbitrary: i ec w l)
  case 0
  then show ?case by (subst connect_loop.simps) (simp add: k_def)
next
  case (Suc n)
  obtain e1 w1 where c: "c_close (logged s) (w, l) = (e1, w1, l)" "\<not> c_is_open s w1"
    using logged_close [OF assms(1)] by (metis prod.exhaust)
  obtain w2 where d: "basic_connect (logged s) i (w1, l) = (att i, w2, l @ [i])"
    using logged_attempt [OF assms(1,2) c(2)] unfolding att_def by blast
  show ?case
  proof (cases "is_error (att i)")
    case False
    then have "connect_loop (logged s) default_connect_condition fin i ec (w, l) = Some (Inr (i, att i, w2, l @ [i]))"
      using Suc.prems c d by (subst connect_loop.simps) (simp add: default_connect_condition_def)
    then show ?thesis using False Suc.prems by (simp add: k_def)
  next
    case True
    then have eq: "connect_loop (logged s) default_connect_condition fin i ec (w, l) =
        connect_loop (logged s) default_connect_condition fin (Suc i) (att i) (w2, l @ [i])"
      using Suc.prems c d by (subst connect_loop.simps) (simp add: default_connect_condition_def)
    have "fin = Suc i + n" using Suc.prems by simp
    from Suc.IH [OF this, of "att i" w2 "l @ [i]"] first_from_bounds [of "Suc i" "\<lambda>j. \<not> is_error (att j)" n]
    show ?thesis using True Suc.prems unfolding eq by (auto simp: upt_conv_Cons k_def)
  qed
qed

lemma connect_op_loop_default:
  assumes "reopens s" "answers s opens outcome"
  defines "att \<equiv> attempt opens outcome"
  defines "k \<equiv> first_from (\<lambda>j. is_error (opens j) \<or> \<not> is_error (att j))"
  shows "\<lbrakk>fin = i + Suc n; \<not> c_is_open s w\<rbrakk> \<Longrightarrow>
    \<exists>w'. connect_op_loop (logged s) default_connect_condition fin (Connecting i) (w, l) =
        Some (k i (Suc n), if k i (Suc n) = fin then att (fin - 1)
          else if is_error (opens (k i (Suc n))) then basic_error operation_aborted else att (k i (Suc n)),
          w', l @ [i ..< min fin (Suc (k i (Suc n)))])"
proof (induction n arbitrary: i w l)
  case 0
  obtain w1 where d: "basic_async_connect (logged s) i (w, l) = (att i, w1, l @ [i])" "c_is_open s w1 \<longleftrightarrow> \<not> is_error (opens i)"
    using logged_attempt [OF assms(1,2) 0(2)] unfolding att_def by blast
  have o: "c_is_open (logged s) (w1, l @ [i]) \<longleftrightarrow> \<not> is_error (opens i)" using d(2) by (simp add: logged_def)
  show ?case using 0 d(1) o
    by (subst connect_op_loop.simps)
      (simp add: connect_op_resume_def check_condition_def connect_op_loop.simps Let_def k_def att_def attempt_def)
next
  case (Suc n)
  obtain w1 where d: "basic_async_connect (logged s) i (w, l) = (att i, w1, l @ [i])" "c_is_open s w1 \<longleftrightarrow> \<not> is_error (opens i)"
    using logged_attempt [OF assms(1,2) Suc.prems(2)] unfolding att_def by blast
  have o: "c_is_open (logged s) (w1, l @ [i]) \<longleftrightarrow> \<not> is_error (opens i)" using d(2) by (simp add: logged_def)
  show ?case
  proof (cases "is_error (opens i) \<or> \<not> is_error (att i)")
    case True
    then have "connect_op_loop (logged s) default_connect_condition fin (Connecting i) (w, l) =
        Some (i, if is_error (opens i) then basic_error operation_aborted else att i, w1, l @ [i])"
      using Suc.prems d(1) o by (subst connect_op_loop.simps) (auto simp: connect_op_resume_def connect_op_loop.simps)
    moreover have "k i (Suc (Suc n)) = i" using True unfolding k_def by simp
    ultimately show ?thesis using Suc.prems by simp
  next
    case False
    obtain e2 w2 where c: "c_close (logged s) (w1, l @ [i]) = (e2, w2, l @ [i])" "\<not> c_is_open s w2"
      using logged_close [OF assms(1)] by (metis prod.exhaust)
    have eq: "connect_op_loop (logged s) default_connect_condition fin (Connecting i) (w, l) =
        connect_op_loop (logged s) default_connect_condition fin (Connecting (Suc i)) (w2, l @ [i])"
      using Suc.prems d(1) o False c(1)
      by (subst connect_op_loop.simps) (simp add: connect_op_resume_def check_condition_def default_connect_condition_def Let_def)
    have "fin = Suc i + Suc n" using Suc.prems by simp
    let ?k = "k (Suc i) (Suc n)"
    have k: "k i (Suc (Suc n)) = ?k" using False unfolding k_def by (subst first_from.simps) simp
    have "Suc i \<le> ?k" using first_from_bounds unfolding k_def by blast
    then have "i < min fin (Suc ?k)" using Suc.prems by simp
    then have u: "[i ..< min fin (Suc ?k)] = i # [Suc i ..< min fin (Suc ?k)]" by (rule upt_conv_Cons)
    from Suc.IH [OF \<open>fin = Suc i + Suc n\<close> c(2), of "l @ [i]"] show ?thesis unfolding eq k u by simp
  qed
qed

subsection \<open>The modelled service\<close>

text \<open>The service of \<open>SocketService\<close>: a socket, the reactor and the system. Endpoint \<open>i\<close> has the protocol
  \<open>protocol i\<close> and the address \<open>addr i\<close>.\<close>

definition service_connector ::
    "('m, 'w) sys \<Rightarrow> 'w epoll_ctl \<Rightarrow> (reactor \<Rightarrow> ptr) \<Rightarrow> (nat \<Rightarrow> int \<times> int \<times> int) \<Rightarrow> (nat \<Rightarrow> u8 list) \<Rightarrow>
     (socket_impl \<times> reactor \<times> 'w) connector" where
  "service_connector os ctl fresh protocol addr =
     \<lparr>c_close = \<lambda>(impl, r, w). (let (_, (ec, impl), r, w) = ss_close os ctl impl no_error r w in (ec, impl, r, w)),
      c_open = \<lambda>i (impl, r, w). (let (af, type, proto) = protocol i;
          ((ec, impl), r, w) = do_open os ctl (fresh r) af type proto impl r w in (ec, impl, r, w)),
      c_connect = \<lambda>i (impl, r, w). (let (ec, w) = sync_connect os (si_socket impl) (addr i) w in (ec, impl, r, w)),
      c_is_open = \<lambda>(impl, _, _). is_open impl\<rparr>"

text \<open>It closes and opens as required, when a failing \<^verbatim>\<open>socket(2)\<close> sets \<^verbatim>\<open>errno\<close>.\<close>

lemma service_connector_reopens:
  assumes "\<And>af type proto w. fst (fst (sys_socket os af type proto w)) = - 1 \<Longrightarrow> snd (fst (sys_socket os af type proto w)) \<noteq> 0"
  shows "reopens (service_connector os ctl fresh protocol addr)"
proof -
  have "\<not> is_open impl'" if "ss_close os ctl impl ec r w = (calls, (ec', impl'), r', w')" for impl ec r w calls ec' impl' r' w'
    using that by (auto simp: ss_close_def ss_construct_def is_open_def Let_def split: prod.splits if_splits)
  moreover have "is_open impl' \<longleftrightarrow> \<not> is_error ec" if "\<not> is_open impl" "do_open os ctl f af type proto impl r w = ((ec, impl'), r', w')"
    for impl f af type proto r w ec impl' r' w'
    using that assms [of af type proto w]
    by (auto simp: do_open_def so_socket_def checked_def error_wrapper_def is_open_def invalid_socket_def is_error_def no_error_def
        Let_def split: prod.splits if_splits)
  ultimately show ?thesis
    unfolding reopens_def service_connector_def by (auto split: prod.splits)
qed

subsection \<open>Properties\<close>

text \<open>
  C31. Connecting to a sequence of endpoints returns. The synchronous function opens the socket for each
  endpoint in order and connects it, each once, up to the first that accepts, whose iterator it returns; when
  none does it returns the end with the error of the last attempt, and \<^verbatim>\<open>not_found\<close> for an empty
  sequence. The asynchronous operation does the same as long as the socket can be opened: at the first
  endpoint for which it cannot, it ends with \<^verbatim>\<open>operation_aborted\<close>, and tries no other, where the
  synchronous function goes on. \<open>service_connector_reopens\<close> shows the first hypothesis for the socket service.
\<close>

theorem connect_tries_in_order:
  fixes s :: "'w connector" and opens outcome :: "nat \<Rightarrow> error_code"
  defines "att \<equiv> attempt opens outcome"
  defines "k \<equiv> \<lambda>i fin. first_from (\<lambda>j. \<not> is_error (att j)) i (fin - i)"
    and "a \<equiv> \<lambda>i fin. first_from (\<lambda>j. is_error (opens j) \<or> \<not> is_error (att j)) i (fin - i)"
  assumes "reopens s" "answers s opens outcome" "i \<le> fin"
  shows "\<exists>w' w''. connect_default (logged s) i fin (w, []) =
      Some (Inr (k i fin, if k i fin < fin then att (k i fin) else if i < fin then att (fin - 1) else misc_error not_found,
        w', [i ..< min fin (Suc (k i fin))])) \<and>
    async_connect (logged s) default_connect_condition i fin (w, []) =
      Some (a i fin, if a i fin = fin then if i < fin then att (fin - 1) else misc_error not_found
        else if is_error (opens (a i fin)) then basic_error operation_aborted else att (a i fin),
        w'', [i ..< min fin (Suc (a i fin))])"
proof -
  have l: "fin = i + (fin - i)" using assms(6) by simp
  note c = connect_loop_default [OF assms(4,5) l, of no_error w "[]", folded att_def]
  show ?thesis
  proof (cases "i = fin")
    case True
    then have "async_connect (logged s) default_connect_condition i fin (w, []) = Some (fin, misc_error not_found, w, [])"
      by (simp add: async_connect_def connect_op_start_def check_condition_def connect_op_resume_def connect_op_loop.simps Let_def)
    then show ?thesis using c True by (auto simp: connect_default_def connect_range_def k_def a_def is_error_def no_error_def)
  next
    case False
    then obtain n where n: "fin - i = Suc n" using assms(6) by (cases "fin - i") auto
    then have l2: "fin = i + Suc n" using l by simp
    obtain e w1 where cl: "c_close (logged s) (w, []) = (e, w1, [])" "\<not> c_is_open s w1"
      using logged_close [OF assms(4)] by (metis prod.exhaust)
    have "async_connect (logged s) default_connect_condition i fin (w, []) =
        connect_op_loop (logged s) default_connect_condition fin (Connecting i) (w1, [])"
      using False cl(1) by (simp add: async_connect_def connect_op_start_def check_condition_def default_connect_condition_def Let_def)
    with connect_op_loop_default [OF assms(4,5) l2 cl(2), of "[]", folded att_def] c False assms(6) n show ?thesis
      by (auto simp: connect_default_def connect_range_def k_def a_def is_error_def no_error_def simp del: first_from.simps)
  qed
qed

text \<open>A host without IPv6 and three endpoints: one for IPv6, one that refuses and one that accepts.\<close>

definition host_sys :: "(unit, nat) sys" where
  "host_sys = sample_sys\<lparr>sys_socket := \<lambda>af _ _ n. (if af = 10 then ((- 1, 97), n) else ((3, 0), n)),
     sys_connect := \<lambda>_ addr n. (if addr = [1] then ((- 1, 111), n) else ((0, 0), n))\<rparr>"

definition host_connector :: "(socket_impl \<times> reactor \<times> nat) connector" where
  "host_connector = service_connector host_sys (\<lambda>_ _ _ _ w. (0, w)) (\<lambda>_. 0)
     (\<lambda>i. if i = 0 then (10, SOCK_STREAM, 6) else (2, SOCK_STREAM, 6)) (\<lambda>i. [of_nat i])"

lemma host_connector_laws:
  "reopens host_connector"
  "answers host_connector (\<lambda>i. if i = 0 then Error_code 97 system_category else no_error)
     (\<lambda>i. if (of_nat i :: u8) = 1 then Error_code 111 system_category else no_error)"
proof -
  show "reopens host_connector" unfolding host_connector_def
    by (rule service_connector_reopens) (auto simp: host_sys_def split: if_splits)
  show "answers host_connector (\<lambda>i. if i = 0 then Error_code 97 system_category else no_error)
     (\<lambda>i. if (of_nat i :: u8) = 1 then Error_code 111 system_category else no_error)"
    unfolding answers_def host_connector_def service_connector_def
    by (auto simp: do_open_def so_socket_def checked_def error_wrapper_def host_sys_def sample_sys_def invalid_socket_def
        register_descriptor_def sync_connect_def so_connect_def is_open_def basic_error_def no_error_def Let_def
        split: prod.splits if_splits)
qed

theorem connect_tries_in_order_witness:
  "(\<exists>ec w'. connect_default (logged host_connector) 0 3 ((closed_impl, open_reactor, 0), []) = Some (Inr (2, ec, w', [0, 1, 2]))) \<and>
   (\<exists>w''. async_connect (logged host_connector) default_connect_condition 0 3 ((closed_impl, open_reactor, 0), []) =
      Some (0, basic_error operation_aborted, w'', [0]))"
  using connect_tries_in_order [OF host_connector_laws, of 0 3 "(closed_impl, open_reactor, 0)"]
  by (auto simp: numeral_3_eq_3 attempt_def upt_rec is_error_def no_error_def)

text \<open>
  The documentation allows a condition to skip endpoints. One that skips all there are returns the
  end: the synchronous function then increments the end iterator, which is undefined, where
  the asynchronous operation reports that no endpoint was found.
\<close>

lemma skipping_moves_past_end:
  assumes "i < fin" "cond no_error i = fin"
  shows "connect_range s cond i fin w = Some (Inl OutOfBounds)"
    and "async_connect s cond i fin w = Some (fin, misc_error not_found, w)"
  using assms
  by (simp_all add: connect_range_def connect_loop.simps async_connect_def connect_op_start_def check_condition_def
      connect_op_resume_def connect_op_loop.simps Let_def)

end
