(* ===== verification/HostVerify.thy ===== *)
theory HostVerify
  imports IpAddressText
begin

text \<open>
  Checking a certificate against a host name (\<^verbatim>\<open>ssl/impl/rfc2818_verification.ipp\<close>). The pattern matcher
  is modelled in full; of the certificate, which OpenSSL keeps, the definitions take the alternate
  names and the common names in the order the library lists them, a name without data or of an
  unexpected string type being \<open>None\<close>. \<^verbatim>\<open>tolower\<close> is that of the C locale.
\<close>

definition tolower :: "char \<Rightarrow> char" where
  "tolower c = (if 65 \<le> (of_char c :: nat) \<and> (of_char c :: nat) \<le> 90 then char_of ((of_char c :: nat) + 32) else c)"

definition c_str :: "string \<Rightarrow> string" where
  "c_str s = takeWhile (\<lambda>c. c \<noteq> CHR 0x00) s"

subsection \<open>The pattern matcher\<close>

text \<open>The inner loop at a star tries the rest of the pattern at each character up to the next dot; when
  none fits, the outer loop goes on from there.\<close>

function match_pattern :: "string \<Rightarrow> string \<Rightarrow> bool"
  and match_star :: "string \<Rightarrow> string \<Rightarrow> bool" where
  "match_pattern p h =
     (case (p, h) of
        (c # p', x # h') \<Rightarrow>
          if c = CHR ''*'' then match_star p' h
          else if tolower c = tolower x then match_pattern p' h'
          else False
      | _ \<Rightarrow> p = [] \<and> h = [])"
| "match_star p h =
     (case h of
        x # h' \<Rightarrow>
          if x \<noteq> CHR ''.'' then if match_pattern p h then True else match_star p h'
          else match_pattern p h
      | [] \<Rightarrow> match_pattern p h)"
  by pat_completeness auto
termination
  by (relation "measures [\<lambda>x. case x of Inl (p, h) \<Rightarrow> length p | Inr (p, h) \<Rightarrow> length p,
      \<lambda>x. case x of Inl _ \<Rightarrow> 0 | Inr (p, h) \<Rightarrow> Suc (length h)]") auto

declare match_pattern.simps [simp del] match_star.simps [simp del]

subsection \<open>The certificate\<close>

datatype general_name = Gen_DNS "string option" | Gen_IPADD "u8 list option" | Gen_other

definition name_matches :: "address option \<Rightarrow> string \<Rightarrow> general_name \<Rightarrow> bool" where
  "name_matches addr host gen = (case gen of
     Gen_DNS (Some pattern) \<Rightarrow> addr = None \<and> pattern \<noteq> [] \<and> match_pattern pattern (c_str host)
   | Gen_IPADD (Some bytes) \<Rightarrow> (case addr of
         None \<Rightarrow> False
       | Some a \<Rightarrow>
           if addr_type a = ipv4 \<and> length bytes = 4 then v4_to_bytes (ipv4_address a) = bytes
           else if addr_type a = ipv6 \<and> length bytes = 16 then v6_to_bytes (ipv6_address a) = bytes
           else False)
   | _ \<Rightarrow> False)"

text \<open>The common name used is the one listed last.\<close>

definition rfc2818_verify ::
    "os_net \<Rightarrow> string \<Rightarrow> bool \<Rightarrow> int \<Rightarrow> general_name list \<Rightarrow> string option list \<Rightarrow> bool" where
  "rfc2818_verify os host preverified depth alt_names common_names =
     (if \<not> preverified then False
      else if depth > 0 then True
      else
        let (address, ec) = address_from_string_ec os host;
            addr = (if is_error ec then None else Some address) in
        if list_ex (name_matches addr host) alt_names then True
        else (case rev common_names of
            Some pattern # _ \<Rightarrow> pattern \<noteq> [] \<and> match_pattern pattern (c_str host)
          | _ \<Rightarrow> False))"

subsection \<open>What a pattern stands for\<close>

text \<open>A star stands for characters other than dots, possibly none, but not at the end of the host name.\<close>

inductive stands_for :: "string \<Rightarrow> string \<Rightarrow> bool" where
  sf_nil: "stands_for [] []"
| sf_char: "c \<noteq> CHR ''*'' \<Longrightarrow> tolower c = tolower x \<Longrightarrow> stands_for p h \<Longrightarrow> stands_for (c # p) (x # h)"
| sf_star: "CHR ''.'' \<notin> set w \<Longrightarrow> w @ h \<noteq> [] \<Longrightarrow> stands_for p h \<Longrightarrow> stands_for (CHR ''*'' # p) (w @ h)"

inductive_cases sf_nilE: "stands_for [] h"
inductive_cases sf_consE: "stands_for (c # p) h"

lemma match_star_iff:
  "match_star p h \<longleftrightarrow> (\<exists>w h'. h = w @ h' \<and> CHR ''.'' \<notin> set w \<and> match_pattern p h')"
proof (induction h)
  case Nil
  then show ?case by (simp add: match_star.simps [of p "[]"])
next
  case (Cons x h)
  have "(\<exists>w h'. x # h = w @ h' \<and> CHR ''.'' \<notin> set w \<and> match_pattern p h') \<longleftrightarrow>
      match_pattern p (x # h) \<or> x \<noteq> CHR ''.'' \<and> (\<exists>w h'. h = w @ h' \<and> CHR ''.'' \<notin> set w \<and> match_pattern p h')"
    (is "?l \<longleftrightarrow> ?a \<or> ?b")
  proof
    assume ?l
    then obtain w h' where w: "x # h = w @ h'" "CHR ''.'' \<notin> set w" "match_pattern p h'" by blast
    then show "?a \<or> ?b" by (cases w) auto
  next
    assume "?a \<or> ?b"
    then show ?l
    proof
      assume ?a
      then have "x # h = [] @ (x # h) \<and> CHR ''.'' \<notin> set [] \<and> match_pattern p (x # h)" by simp
      then show ?l by blast
    next
      assume ?b
      then obtain w h' where "x \<noteq> CHR ''.''" "h = w @ h'" "CHR ''.'' \<notin> set w" "match_pattern p h'" by blast
      then have "x # h = (x # w) @ h' \<and> CHR ''.'' \<notin> set (x # w) \<and> match_pattern p h'" by simp
      then show ?l by blast
    qed
  qed
  then show ?case using Cons by (simp add: match_star.simps [of p "x # h"])
qed

lemma match_pattern_simps [simp]:
  "match_pattern [] h \<longleftrightarrow> h = []"
  "match_pattern (c # p) [] \<longleftrightarrow> False"
  "match_pattern (c # p) (x # h) \<longleftrightarrow>
     (if c = CHR ''*'' then match_star p (x # h) else tolower c = tolower x \<and> match_pattern p h)"
  by (simp_all add: match_pattern.simps split: list.split)

lemma match_pattern_iff: "match_pattern p h \<longleftrightarrow> stands_for p h"
proof (induction p arbitrary: h)
  case Nil
  show ?case by (auto intro: sf_nil elim: sf_nilE)
next
  case (Cons c p)
  show ?case
  proof (cases h)
    case Nil
    then show ?thesis by (auto elim: sf_consE)
  next
    case h: (Cons x h')
    show ?thesis
    proof (cases "c = CHR ''*''")
      case True
      have "match_star p h \<longleftrightarrow> stands_for (CHR ''*'' # p) h"
      proof
        assume "match_star p h"
        then obtain w t where "h = w @ t" "CHR ''.'' \<notin> set w" "stands_for p t"
          unfolding match_star_iff Cons.IH by blast
        moreover from this h have "w @ t \<noteq> []" by auto
        ultimately show "stands_for (CHR ''*'' # p) h" by (auto intro: sf_star)
      next
        assume "stands_for (CHR ''*'' # p) h"
        then show "match_star p h" unfolding match_star_iff Cons.IH by (elim sf_consE) auto
      qed
      then show ?thesis using True h by simp
    next
      case False
      then show ?thesis using h Cons.IH by (auto intro: sf_char elim: sf_consE)
    qed
  qed
qed

subsection \<open>Labels\<close>

fun labels :: "string \<Rightarrow> string list" where
  "labels [] = [[]]"
| "labels (c # s) = (if c = CHR ''.'' then [] # labels s else (c # hd (labels s)) # tl (labels s))"

definition label_fits :: "string \<Rightarrow> string \<Rightarrow> bool" where
  "label_fits l m \<longleftrightarrow> CHR ''*'' \<in> set l \<or> map tolower l = map tolower m"

lemma labels_ne [simp]: "labels s \<noteq> []"
  by (induction s) auto

lemma labels_hd_tl: "labels s = hd (labels s) # tl (labels s)"
  by simp

lemma labels_append:
  "CHR ''.'' \<notin> set w \<Longrightarrow> labels (w @ s) = (w @ hd (labels s)) # tl (labels s)"
  by (induction w) auto

lemma tolower_dot: "tolower c = tolower CHR ''.'' \<longleftrightarrow> c = CHR ''.''"
proof
  assume "tolower c = tolower CHR ''.''"
  moreover have "tolower CHR ''.'' = CHR ''.''" by (simp add: tolower_def)
  ultimately have e: "tolower c = CHR ''.''" by simp
  show "c = CHR ''.''"
  proof (rule ccontr)
    assume n: "c \<noteq> CHR ''.''"
    with e have u: "65 \<le> (of_char c :: nat)" "(of_char c :: nat) \<le> 90" "char_of ((of_char c :: nat) + 32) = CHR ''.''"
      by (auto simp: tolower_def split: if_splits)
    then have "of_char (char_of ((of_char c :: nat) + 32) :: char) = (of_char CHR ''.'' :: nat)" by simp
    then have "((of_char c :: nat) + 32) mod 256 = 46" by simp
    with u(1,2) show False by simp
  qed
qed simp

lemma stands_for_labels:
  "stands_for p h \<Longrightarrow> list_all2 label_fits (labels p) (labels h)"
proof (induction rule: stands_for.induct)
  case sf_nil
  then show ?case by (simp add: label_fits_def)
next
  case (sf_char c x p h)
  have dot: "c = CHR ''.'' \<longleftrightarrow> x = CHR ''.''"
    using sf_char(2) tolower_dot [of c] tolower_dot [of x] by metis
  obtain lp tp lh th where "labels p = lp # tp" "labels h = lh # th" by (meson labels_hd_tl)
  then show ?case using dot sf_char(2,4) by (auto simp: label_fits_def)
next
  case (sf_star w h p)
  obtain lp tp lh th where "labels p = lp # tp" "labels h = lh # th" by (meson labels_hd_tl)
  then show ?case using sf_star(1,4) by (simp add: labels_append label_fits_def)
qed

text \<open>
  C36. The pattern matcher, with its nested loops and recursion, accepts exactly the host names a
  pattern stands for: other characters match regardless of case, and a star stands for characters
  other than dots. So a star never reaches into another label: pattern and host have the same number
  of labels, and those without a star are equal up to case.
\<close>

theorem match_pattern_stays_in_label:
  "(match_pattern p h \<longleftrightarrow> stands_for p h) \<and>
   (match_pattern p h \<longrightarrow> list_all2 label_fits (labels p) (labels h))"
  using match_pattern_iff stands_for_labels by blast

theorem match_pattern_stays_in_label_witness:
  "list_all2 label_fits (labels ''*.b'') (labels ''a.B'')"
proof -
  have "tolower CHR ''b'' = tolower CHR ''B''" by code_simp
  then have "match_pattern ''*.b'' ''a.B''" by (simp add: match_star.simps)
  then show ?thesis using match_pattern_stays_in_label [of "''*.b''" "''a.B''"] by blast
qed

text \<open>
  The check falls back to the common name in cases RFC 2818 rules out: when the certificate lists
  alternate names that do not match, and when the host is an IP address, which a wildcard in the
  common name then matches.
\<close>

theorem common_name_used_despite_alt_names:
  "rfc2818_verify os ''10.0.0.1'' True 0 [Gen_IPADD (Some [9, 9, 9, 9])] [Some ''*.*.0.1''] \<and>
   rfc2818_verify os ''a.org'' True 0 [Gen_DNS (Some ''b.org'')] [Some ''a.org'']"
proof -
  have "match_pattern ''*.*.0.1'' ''10.0.0.1''" "match_pattern ''a.org'' ''a.org''"
    by (simp_all add: match_star.simps)
  then show ?thesis
    by (auto simp: rfc2818_verify_def Let_def c_str_def split: prod.split)
qed

end
