(* ===== verification/SignalSet.thy ===== *)
theory SignalSet
  imports OpQueue
begin

text \<open>
  Signal sets (\<^verbatim>\<open>detail/signal_set_service.hpp\<close> and \<^verbatim>\<open>detail/impl/signal_set_service.ipp\<close>, the POSIX
  branches). The handler of a signal writes its number to a pipe, which the reactor of every service
  watches; whoever reads it delivers the signal to all sets registered for it, whose waiting
  operations complete, or which remember it. The functions are what the code does under the global
  mutex. Services and sets are numbers, \<open>owner\<close> gives the service of a set; registrations are
  addresses. A linked list is the list of its elements: unlinking one from the doubly linked
  table is that of theory \<open>Links\<close>. The system is a record of calls on a state \<open>'w\<close>; calls of the reactor and
  of the scheduler are collected in a list.
\<close>

subsection \<open>State\<close>

definition max_signal_number :: int where "max_signal_number = 65"

record registration =
  signal_number :: int
  rg_queue :: nat
  undelivered :: nat

text \<open>The global state, the services with their tables, and the sets with their queues.\<close>

record signal_state =
  read_descriptor :: int
  write_descriptor :: int
  fork_prepared :: bool
  service_list :: "nat list"
  registration_count :: "int \<Rightarrow> nat"
  regs :: "ptr \<Rightarrow> registration"
  registrations :: "nat \<Rightarrow> int \<Rightarrow> ptr list"
  set_signals :: "nat \<Rightarrow> ptr list"
  set_queue :: "nat \<Rightarrow> ptr list"

definition initial_signal_state :: signal_state where
  "initial_signal_state =
     \<lparr>read_descriptor = - 1, write_descriptor = - 1, fork_prepared = False, service_list = [],
      registration_count = (\<lambda>_. 0), regs = (\<lambda>_. \<lparr>signal_number = 0, rg_queue = 0, undelivered = 0\<rparr>),
      registrations = (\<lambda>_ _. []), set_signals = (\<lambda>_. []), set_queue = (\<lambda>_. [])\<rparr>"

text \<open>Calls return \<^verbatim>\<open>errno\<close>, or 0 for a success; \<open>sg_sigaction n handle\<close> sets the handler of the library, or the
  default; a read of the pipe gives a signal number while there is one.\<close>

record 'w signal_sys =
  sg_sigaction :: "int \<Rightarrow> bool \<Rightarrow> 'w \<Rightarrow> int \<times> 'w"
  sg_pipe :: "'w \<Rightarrow> (int + int \<times> int) \<times> 'w"
  sg_fcntl :: "int \<Rightarrow> 'w \<Rightarrow> 'w"
  sg_close_fd :: "int \<Rightarrow> 'w \<Rightarrow> 'w"
  sg_write :: "int \<Rightarrow> int \<Rightarrow> 'w \<Rightarrow> 'w"
  sg_read :: "int \<Rightarrow> 'w \<Rightarrow> int option \<times> 'w"

text \<open>What is asked of a service's scheduler and reactor: a posted operation comes with its error code and the
  number of the signal.\<close>

datatype signal_call =
    Started nat
  | Posted_ops nat "(ptr \<times> error_code \<times> int) list"
  | Abandoned nat "ptr list"
  | Watch nat int
  | Unwatch nat int

subsection \<open>The pipe and the services\<close>

definition open_descriptors :: "'w signal_sys \<Rightarrow> signal_state \<Rightarrow> 'w \<Rightarrow> (exn + unit) \<times> signal_state \<times> 'w" where
  "open_descriptors os g w =
     (case sg_pipe os w of
        (Inr (r, wr), w) \<Rightarrow>
          (Inr (), g\<lparr>read_descriptor := r, write_descriptor := wr\<rparr>, sg_fcntl os wr (sg_fcntl os r w))
      | (Inl e, w) \<Rightarrow> (throw_error (Error_code e system_category), g, w))"

definition close_descriptors :: "'w signal_sys \<Rightarrow> signal_state \<Rightarrow> 'w \<Rightarrow> signal_state \<times> 'w" where
  "close_descriptors os g w =
     (let w = (if read_descriptor g \<noteq> - 1 then sg_close_fd os (read_descriptor g) w else w);
          w = (if write_descriptor g \<noteq> - 1 then sg_close_fd os (write_descriptor g) w else w) in
      (g\<lparr>read_descriptor := - 1, write_descriptor := - 1\<rparr>, w))"

definition add_service ::
    "'w signal_sys \<Rightarrow> nat \<Rightarrow> signal_state \<Rightarrow> 'w \<Rightarrow> (exn + signal_call list) \<times> signal_state \<times> 'w" where
  "add_service os v g w =
     (let (r, g, w) = (if service_list g = [] then open_descriptors os g w else (Inr (), g, w)) in
      case r of
        Inl e \<Rightarrow> (Inl e, g, w)
      | Inr _ \<Rightarrow> (Inr [Watch v (read_descriptor g)], g\<lparr>service_list := v # service_list g\<rparr>, w))"

definition remove_service :: "'w signal_sys \<Rightarrow> nat \<Rightarrow> signal_state \<Rightarrow> 'w \<Rightarrow> signal_call list \<times> signal_state \<times> 'w" where
  "remove_service os v g w =
     (if v \<in> set (service_list g) then
        let calls = [Unwatch v (read_descriptor g)];
            g = g\<lparr>service_list := remove1 v (service_list g)\<rparr>;
            (g, w) = (if service_list g = [] then close_descriptors os g w else (g, w)) in
        (calls, g, w)
      else ([], g, w))"

definition new_signal_service ::
    "'w signal_sys \<Rightarrow> nat \<Rightarrow> signal_state \<Rightarrow> 'w \<Rightarrow> (exn + signal_call list) \<times> signal_state \<times> 'w" where
  "new_signal_service os v g w = add_service os v (g\<lparr>registrations := (registrations g)(v := \<lambda>_. [])\<rparr>) w"

text \<open>Shutting down takes the waiting operations of all registered sets, in the order of the table.\<close>

fun take_queues :: "ptr list \<Rightarrow> signal_state \<Rightarrow> ptr list \<times> signal_state" where
  "take_queues [] g = ([], g)"
| "take_queues (reg # rest) g =
     (let s = rg_queue (regs g reg);
          (ops, g') = take_queues rest (g\<lparr>set_queue := (set_queue g)(s := [])\<rparr>) in
      (set_queue g s @ ops, g'))"

definition signal_shutdown :: "'w signal_sys \<Rightarrow> nat \<Rightarrow> signal_state \<Rightarrow> 'w \<Rightarrow> signal_call list \<times> signal_state \<times> 'w" where
  "signal_shutdown os v g w =
     (let (calls, g, w) = remove_service os v g w;
          (ops, g) = take_queues (concat (map (registrations g v) [0..max_signal_number - 1])) g in
      (calls @ [Abandoned v ops], g, w))"

definition fork_prepare :: "nat \<Rightarrow> signal_state \<Rightarrow> signal_call list \<times> signal_state" where
  "fork_prepare v g = ([Unwatch v (read_descriptor g)], g\<lparr>fork_prepared := True\<rparr>)"

definition fork_parent :: "nat \<Rightarrow> signal_state \<Rightarrow> signal_call list \<times> signal_state" where
  "fork_parent v g =
     (if fork_prepared g then ([Watch v (read_descriptor g)], g\<lparr>fork_prepared := False\<rparr>) else ([], g))"

definition fork_child ::
    "'w signal_sys \<Rightarrow> nat \<Rightarrow> signal_state \<Rightarrow> 'w \<Rightarrow> (exn + signal_call list) \<times> signal_state \<times> 'w" where
  "fork_child os v g w =
     (if fork_prepared g then
        let (g, w) = close_descriptors os g w; (r, g, w) = open_descriptors os g w in
        case r of
          Inl e \<Rightarrow> (Inl e, g, w)
        | Inr _ \<Rightarrow> (Inr [Watch v (read_descriptor g)], g\<lparr>fork_prepared := False\<rparr>, w)
      else (Inr [], g, w))"

subsection \<open>Registering\<close>

definition signal_construct :: "nat \<Rightarrow> signal_state \<Rightarrow> signal_state" where
  "signal_construct s g = g\<lparr>set_signals := (set_signals g)(s := [])\<rparr>"

text \<open>A set lists its registrations in the order of their numbers; the first registration for a number
  installs the handler. \<open>reg\<close> is the address of a new registration.\<close>

definition signal_add ::
    "'w signal_sys \<Rightarrow> (nat \<Rightarrow> nat) \<Rightarrow> nat \<Rightarrow> int \<Rightarrow> ptr \<Rightarrow> signal_state \<Rightarrow> 'w \<Rightarrow> error_code \<times> signal_state \<times> 'w" where
  "signal_add os owner s n reg g w =
     (if n < 0 \<or> n \<ge> max_signal_number then (basic_error invalid_argument, g, w)
      else
        let smaller = (\<lambda>r. signal_number (regs g r) < n);
            before = takeWhile smaller (set_signals g s);
            next = dropWhile smaller (set_signals g s) in
        if next = [] \<or> signal_number (regs g (hd next)) \<noteq> n then
          let (e, w) = (if registration_count g n = 0 then sg_sigaction os n True w else (0, w)) in
          if e \<noteq> 0 then (Error_code e system_category, g, w)
          else
            (no_error,
             g\<lparr>regs := (regs g)(reg := \<lparr>signal_number = n, rg_queue = s, undelivered = 0\<rparr>),
               set_signals := (set_signals g)(s := before @ reg # next),
               registrations := (registrations g)
                 (owner s := (registrations g (owner s))(n := reg # registrations g (owner s) n)),
               registration_count := (registration_count g)(n := registration_count g n + 1)\<rparr>, w)
        else (no_error, g, w))"

definition unregister :: "nat \<Rightarrow> ptr \<Rightarrow> signal_state \<Rightarrow> signal_state" where
  "unregister v reg g =
     (let n = signal_number (regs g reg) in
      g\<lparr>registrations := (registrations g)(v := (registrations g v)(n := remove1 reg (registrations g v n))),
        registration_count := (registration_count g)(n := registration_count g n - 1)\<rparr>)"

definition signal_remove ::
    "'w signal_sys \<Rightarrow> (nat \<Rightarrow> nat) \<Rightarrow> nat \<Rightarrow> int \<Rightarrow> signal_state \<Rightarrow> 'w \<Rightarrow> error_code \<times> signal_state \<times> 'w" where
  "signal_remove os owner s n g w =
     (if n < 0 \<or> n \<ge> max_signal_number then (basic_error invalid_argument, g, w)
      else
        let smaller = (\<lambda>r. signal_number (regs g r) < n);
            before = takeWhile smaller (set_signals g s);
            next = dropWhile smaller (set_signals g s) in
        if next \<noteq> [] \<and> signal_number (regs g (hd next)) = n then
          let (e, w) = (if registration_count g n = 1 then sg_sigaction os n False w else (0, w)) in
          if e \<noteq> 0 then (Error_code e system_category, g, w)
          else (no_error, (unregister (owner s) (hd next) g)\<lparr>set_signals := (set_signals g)(s := before @ tl next)\<rparr>, w)
        else (no_error, g, w))"

text \<open>Clearing removes the registrations from the front, until one cannot be removed.\<close>

fun clear_loop ::
    "'w signal_sys \<Rightarrow> nat \<Rightarrow> nat \<Rightarrow> ptr list \<Rightarrow> signal_state \<Rightarrow> 'w \<Rightarrow> error_code \<times> signal_state \<times> 'w" where
  "clear_loop os v s [] g w = (no_error, g, w)"
| "clear_loop os v s (reg # rest) g w =
     (let n = signal_number (regs g reg);
          (e, w) = (if registration_count g n = 1 then sg_sigaction os n False w else (0, w)) in
      if e \<noteq> 0 then (Error_code e system_category, g, w)
      else clear_loop os v s rest ((unregister v reg g)\<lparr>set_signals := (set_signals g)(s := rest)\<rparr>) w)"

definition signal_clear ::
    "'w signal_sys \<Rightarrow> (nat \<Rightarrow> nat) \<Rightarrow> nat \<Rightarrow> signal_state \<Rightarrow> 'w \<Rightarrow> error_code \<times> signal_state \<times> 'w" where
  "signal_clear os owner s g w = clear_loop os (owner s) s (set_signals g s) g w"

definition signal_cancel :: "(nat \<Rightarrow> nat) \<Rightarrow> nat \<Rightarrow> signal_state \<Rightarrow> signal_call list \<times> signal_state" where
  "signal_cancel owner s g =
     ([Posted_ops (owner s) (map (\<lambda>op. (op, basic_error operation_aborted, 0)) (set_queue g s))],
      g\<lparr>set_queue := (set_queue g)(s := [])\<rparr>)"

definition signal_destroy ::
    "'w signal_sys \<Rightarrow> (nat \<Rightarrow> nat) \<Rightarrow> nat \<Rightarrow> signal_state \<Rightarrow> 'w \<Rightarrow> signal_call list \<times> signal_state \<times> 'w" where
  "signal_destroy os owner s g w =
     (let (_, g, w) = signal_clear os owner s g w; (calls, g) = signal_cancel owner s g in (calls, g, w))"

subsection \<open>Waiting and delivering\<close>

definition start_wait_op :: "(nat \<Rightarrow> nat) \<Rightarrow> nat \<Rightarrow> ptr \<Rightarrow> signal_state \<Rightarrow> signal_call list \<times> signal_state" where
  "start_wait_op owner s op g =
     (case find (\<lambda>r. undelivered (regs g r) > 0) (set_signals g s) of
        Some reg \<Rightarrow>
          ([Started (owner s), Posted_ops (owner s) [(op, no_error, signal_number (regs g reg))]],
           g\<lparr>regs := (regs g)(reg := (regs g reg)\<lparr>undelivered := undelivered (regs g reg) - 1\<rparr>)\<rparr>)
      | None \<Rightarrow> ([Started (owner s)], g\<lparr>set_queue := (set_queue g)(s := set_queue g s @ [op])\<rparr>))"

text \<open>The loops over the registrations of a service, and over the services.\<close>

fun deliver_regs :: "int \<Rightarrow> ptr list \<Rightarrow> signal_state \<Rightarrow> (ptr \<times> error_code \<times> int) list \<times> signal_state" where
  "deliver_regs n [] g = ([], g)"
| "deliver_regs n (reg # rest) g =
     (let s = rg_queue (regs g reg) in
      if set_queue g s = [] then
        deliver_regs n rest (g\<lparr>regs := (regs g)(reg := (regs g reg)\<lparr>undelivered := undelivered (regs g reg) + 1\<rparr>)\<rparr>)
      else
        let (ops, g') = deliver_regs n rest (g\<lparr>set_queue := (set_queue g)(s := [])\<rparr>) in
        (map (\<lambda>op. (op, no_error, n)) (set_queue g s) @ ops, g'))"

fun deliver_services :: "int \<Rightarrow> nat list \<Rightarrow> signal_state \<Rightarrow> signal_call list \<times> signal_state" where
  "deliver_services n [] g = ([], g)"
| "deliver_services n (v # vs) g =
     (let (ops, g) = deliver_regs n (registrations g v n) g; (calls, g) = deliver_services n vs g in
      (Posted_ops v ops # calls, g))"

definition deliver_signal :: "int \<Rightarrow> signal_state \<Rightarrow> signal_call list \<times> signal_state" where
  "deliver_signal n g = deliver_services n (service_list g) g"

text \<open>The signal handler, and the operation the reactor performs when the pipe is ready to read; it never
  completes. A loop that never ends is \<open>None\<close>.\<close>

definition asio_signal_handler :: "'w signal_sys \<Rightarrow> int \<Rightarrow> signal_state \<Rightarrow> 'w \<Rightarrow> 'w" where
  "asio_signal_handler os n g w = sg_write os (write_descriptor g) n w"

partial_function (option) pipe_read_perform ::
    "'w signal_sys \<Rightarrow> signal_state \<Rightarrow> 'w \<Rightarrow> (signal_call list \<times> signal_state \<times> 'w) option" where
  "pipe_read_perform os g w =
     (case sg_read os (read_descriptor g) w of
        (None, w) \<Rightarrow> Some ([], g, w)
      | (Some n, w) \<Rightarrow>
          let (calls, g) = (if 0 \<le> n \<and> n < max_signal_number then deliver_signal n g else ([], g)) in
          Option.bind (pipe_read_perform os g w) (\<lambda>(more, r). Some (calls @ more, r)))"

subsection \<open>The registrations agree\<close>

definition live :: "signal_state \<Rightarrow> ptr set" where
  "live g = (\<Union>s. set (set_signals g s))"

definition number_of :: "signal_state \<Rightarrow> ptr \<Rightarrow> int" where
  "number_of g r = signal_number (regs g r)"

definition signals_ok :: "(nat \<Rightarrow> nat) \<Rightarrow> signal_state \<Rightarrow> bool" where
  "signals_ok owner g \<longleftrightarrow>
     finite (live g) \<and>
     (\<forall>s. (\<forall>r \<in> set (set_signals g s). rg_queue (regs g r) = s \<and> 0 \<le> number_of g r \<and> number_of g r < max_signal_number) \<and>
        sorted_wrt (<) (map (number_of g) (set_signals g s))) \<and>
     (\<forall>v n. distinct (registrations g v n) \<and>
        set (registrations g v n) = {r \<in> live g. owner (rg_queue (regs g r)) = v \<and> number_of g r = n}) \<and>
     (\<forall>n. registration_count g n = card {r \<in> live g. number_of g r = n})"

lemma signals_okD:
  assumes "signals_ok owner g"
  shows "finite (live g)"
    and "r \<in> set (set_signals g s) \<Longrightarrow> rg_queue (regs g r) = s"
    and "r \<in> set (set_signals g s) \<Longrightarrow> 0 \<le> number_of g r \<and> number_of g r < max_signal_number"
    and "sorted_wrt (<) (map (number_of g) (set_signals g s))"
    and "distinct (registrations g v n)"
    and "set (registrations g v n) = {r \<in> live g. owner (rg_queue (regs g r)) = v \<and> number_of g r = n}"
    and "registration_count g n = card {r \<in> live g. number_of g r = n}"
  using assms by (auto simp: signals_ok_def)

lemma live_iff: "signals_ok owner g \<Longrightarrow> r \<in> live g \<longleftrightarrow> r \<in> set (set_signals g (rg_queue (regs g r)))"
  by (auto simp: live_def dest: signals_okD(2))

lemma signals_frame:
  assumes "signals_ok owner g"
    and "set_signals g' = set_signals g" "registrations g' = registrations g" "registration_count g' = registration_count g"
    and "\<And>r. signal_number (regs g' r) = signal_number (regs g r) \<and> rg_queue (regs g' r) = rg_queue (regs g r)"
  shows "signals_ok owner g'"
proof -
  have l: "live g' = live g" "number_of g' = number_of g"
    by (auto simp: live_def number_of_def assms)
  show ?thesis using assms(1) unfolding signals_ok_def l assms(2-4) using assms(5) by simp
qed

lemma initial_signals_ok: "signals_ok owner initial_signal_state"
  by (simp add: signals_ok_def initial_signal_state_def live_def)

text \<open>Removing a registration from its set and from the table.\<close>

lemma unregister_ok:
  assumes ok: "signals_ok owner g" and s: "set_signals g s = before @ reg # rest"
  shows "signals_ok owner ((unregister (owner s) reg g)\<lparr>set_signals := (set_signals g)(s := before @ rest)\<rparr>)"
    (is "signals_ok owner ?g")
proof -
  have sor: "sorted_wrt (<) (map (number_of g) (before @ reg # rest))" using signals_okD(4) [OF ok, of s] s by simp
  have q: "rg_queue (regs g reg) = s" using signals_okD(2) [OF ok, of reg s] s by simp
  have out: "reg \<notin> set (before @ rest)" using sor by (auto simp: sorted_wrt_append)
  have sg: "set_signals ?g = (set_signals g)(s := before @ rest)" by simp
  have "x \<in> live ?g \<longleftrightarrow> x \<in> live g - {reg}" for x
  proof -
    have "x \<in> set (set_signals ?g t) \<longleftrightarrow> x \<in> set (set_signals g t) \<and> x \<noteq> reg" for t
    proof (cases "t = s")
      case True
      then show ?thesis unfolding sg using out s by auto
    next
      case False
      then have "reg \<notin> set (set_signals g t)" using signals_okD(2) [OF ok, of reg t] q by auto
      then show ?thesis unfolding sg using False by auto
    qed
    then show ?thesis by (auto simp: live_def)
  qed
  then have l: "live ?g = live g - {reg}" by blast
  have n: "number_of ?g = number_of g" "regs ?g = regs g" by (simp_all add: number_of_def unregister_def Let_def fun_eq_iff)
  have "reg \<in> set (set_signals g s)" using s by simp
  then have inl: "reg \<in> live g" by (auto simp: live_def)
  show ?thesis unfolding signals_ok_def l n
  proof (intro conjI allI ballI)
    show "finite (live g - {reg})" using signals_okD(1) [OF ok] by simp
  next
    fix t r assume "r \<in> set (set_signals ?g t)"
    then have "r \<in> set (set_signals g t)" using s by (auto simp: unregister_def Let_def split: if_splits)
    then show "rg_queue (regs g r) = t" "0 \<le> number_of g r" "number_of g r < max_signal_number"
      using signals_okD(2,3) [OF ok] by blast+
  next
    fix t
    show "sorted_wrt (<) (map (number_of g) (set_signals ?g t))"
      using sor signals_okD(4) [OF ok, of t] by (auto simp: unregister_def Let_def sorted_wrt_append)
  next
    fix v n
    show "distinct (registrations ?g v n)"
      using signals_okD(5) [OF ok] by (auto simp: unregister_def Let_def)
    show "set (registrations ?g v n) = {r \<in> live g - {reg}. owner (rg_queue (regs g r)) = v \<and> number_of g r = n}"
      using signals_okD(5,6) [OF ok, of v n] signals_okD(5,6) [OF ok, of "owner s" "number_of g reg"] q
      by (auto simp: unregister_def Let_def number_of_def)
  next
    fix n
    have "{r \<in> live g - {reg}. number_of g r = n} =
        (if n = number_of g reg then {r \<in> live g. number_of g r = n} - {reg} else {r \<in> live g. number_of g r = n})" by auto
    then show "registration_count ?g n = card {r \<in> live g - {reg}. number_of g r = n}"
      using signals_okD(1,7) [OF ok] inl by (auto simp: unregister_def Let_def number_of_def)
  qed
qed

lemma split_sorted:
  fixes f :: "'a \<Rightarrow> int"
  assumes "sorted_wrt (<) (map f xs)"
  shows "xs = takeWhile (\<lambda>r. f r < n) xs @ dropWhile (\<lambda>r. f r < n) xs"
    and "r \<in> set (takeWhile (\<lambda>r. f r < n) xs) \<Longrightarrow> f r < n"
    and "r \<in> set (dropWhile (\<lambda>r. f r < n) xs) \<Longrightarrow>
      (if r = hd (dropWhile (\<lambda>r. f r < n) xs) then n \<le> f r else n < f r)"
proof -
  show "xs = takeWhile (\<lambda>r. f r < n) xs @ dropWhile (\<lambda>r. f r < n) xs" by simp
  show "r \<in> set (takeWhile (\<lambda>r. f r < n) xs) \<Longrightarrow> f r < n" by (auto dest: set_takeWhileD)
  let ?d = "dropWhile (\<lambda>r. f r < n) xs"
  assume "r \<in> set ?d"
  then obtain y ys where d: "?d = y # ys" "r = y \<or> r \<in> set ys" by (cases ?d) auto
  have "n \<le> f y" using d(1) hd_dropWhile [of "\<lambda>r. f r < n" xs] by (metis list.distinct(1) list.sel(1) not_less)
  moreover have "sorted_wrt (<) (map f ?d)"
    using assms takeWhile_dropWhile_id [of "\<lambda>r. f r < n" xs] by (metis map_append sorted_wrt_append)
  ultimately show "if r = hd ?d then n \<le> f r else n < f r" using d by auto
qed

lemma signal_add_ok:
  assumes ok: "signals_ok owner g" and fresh: "reg \<notin> live g" and add: "signal_add os owner s n reg g w = (ec, g', w')"
  shows "signals_ok owner g'"
proof (cases "g' = g")
  case False
  let ?sm = "\<lambda>r. signal_number (regs g r) < n"
  define before where "before = takeWhile ?sm (set_signals g s)"
  define rest where "rest = dropWhile ?sm (set_signals g s)"
  have n: "0 \<le> n" "n < max_signal_number" and ne: "rest = [] \<or> signal_number (regs g (hd rest)) \<noteq> n"
    using add False by (auto simp: signal_add_def Let_def rest_def split: if_splits prod.splits)
  have g': "g' = g\<lparr>regs := (regs g)(reg := \<lparr>signal_number = n, rg_queue = s, undelivered = 0\<rparr>),
      set_signals := (set_signals g)(s := before @ reg # rest),
      registrations := (registrations g)
        (owner s := (registrations g (owner s))(n := reg # registrations g (owner s) n)),
      registration_count := (registration_count g)(n := registration_count g n + 1)\<rparr>"
    using add False by (auto simp: signal_add_def Let_def rest_def before_def split: if_splits prod.splits)
  note sor = signals_okD(4) [OF ok, of s]
  have s: "set_signals g s = before @ rest" by (simp add: before_def rest_def)
  have b: "\<forall>r \<in> set before. number_of g r < n"
    using split_sorted(2) [OF sor, of _ n] by (simp add: before_def number_of_def)
  have r: "\<forall>r \<in> set rest. n < number_of g r"
  proof
    fix x assume x: "x \<in> set rest"
    then have "rest \<noteq> []" by auto
    with ne have "number_of g (hd rest) \<noteq> n" by (simp add: number_of_def)
    moreover have "if x = hd rest then n \<le> number_of g x else n < number_of g x"
      using split_sorted(3) [OF sor, of x n] x by (simp add: rest_def number_of_def)
    ultimately show "n < number_of g x" by (auto split: if_splits)
  qed
  have out: "reg \<notin> set (set_signals g t)" for t using fresh by (auto simp: live_def)
  have l: "live g' = insert reg (live g)"
  proof -
    have "set (set_signals g' t) = (if t = s then insert reg (set (set_signals g s)) else set (set_signals g t))" for t
      unfolding s by (simp add: g')
    then have "x \<in> set (set_signals g' t) \<longleftrightarrow> x \<in> set (set_signals g t) \<or> x = reg \<and> t = s" for x t by auto
    then show ?thesis by (auto simp: live_def)
  qed
  have num: "number_of g' reg = n" "\<And>x. x \<noteq> reg \<Longrightarrow> number_of g' x = number_of g x \<and> rg_queue (regs g' x) = rg_queue (regs g x)"
    by (simp_all add: number_of_def g')
  have q: "rg_queue (regs g' reg) = s" by (simp add: g')
  have same: "number_of g' x = number_of g x" "rg_queue (regs g' x) = rg_queue (regs g x)" if "x \<in> live g" for x
    using that fresh num(2) by metis+
  have m: "map (number_of g') xs = map (number_of g) xs" if "reg \<notin> set xs" for xs
    using that num(2) by (intro map_cong refl) metis
  show ?thesis unfolding signals_ok_def l
  proof (intro conjI allI ballI)
    show "finite (insert reg (live g))" using signals_okD(1) [OF ok] by simp
  next
    fix t x assume x: "x \<in> set (set_signals g' t)"
    have "rg_queue (regs g' x) = t \<and> 0 \<le> number_of g' x \<and> number_of g' x < max_signal_number"
    proof (cases "x = reg")
      case True
      then have "t = s" using x out [of t] by (auto simp: g' split: if_splits)
      then show ?thesis using True q num(1) n by simp
    next
      case False
      then have "x \<in> set (set_signals g t)" using x s by (auto simp: g' split: if_splits)
      then show ?thesis using False num(2) signals_okD(2,3) [OF ok, of x t] by simp
    qed
    then show "rg_queue (regs g' x) = t" "0 \<le> number_of g' x" "number_of g' x < max_signal_number" by simp_all
  next
    fix t
    show "sorted_wrt (<) (map (number_of g') (set_signals g' t))"
    proof (cases "t = s")
      case True
      have "set_signals g' t = before @ reg # rest" using True by (simp add: g')
      moreover have "reg \<notin> set before" "reg \<notin> set rest" using out [of s] s by auto
      ultimately have "map (number_of g') (set_signals g' t) = map (number_of g) before @ n # map (number_of g) rest"
        using num(1) m [of before] m [of rest] by simp
      then show ?thesis using sor s b r by (auto simp: sorted_wrt_append)
    next
      case False
      then have "set_signals g' t = set_signals g t" by (simp add: g')
      then show ?thesis using signals_okD(4) [OF ok, of t] by (simp only: m [OF out [of t]])
    qed
  next
    fix v k
    have in_live: "reg \<notin> set (registrations g v k)" for v k using signals_okD(6) [OF ok, of v k] fresh by auto
    show "distinct (registrations g' v k)" using signals_okD(5) [OF ok] in_live by (auto simp: g')
    have "registrations g' v k = (if v = owner s \<and> k = n then reg # registrations g v k else registrations g v k)" by (simp add: g')
    moreover have "{x \<in> insert reg (live g). owner (rg_queue (regs g' x)) = v \<and> number_of g' x = k} =
        (if v = owner s \<and> k = n then {reg} else {}) \<union>
        {x \<in> live g. owner (rg_queue (regs g' x)) = v \<and> number_of g' x = k}"
      using q num(1) by auto
    moreover have "{x \<in> live g. owner (rg_queue (regs g' x)) = v \<and> number_of g' x = k} =
        {x \<in> live g. owner (rg_queue (regs g x)) = v \<and> number_of g x = k}"
      by (intro Collect_cong conj_cong refl) (simp_all add: same)
    ultimately show "set (registrations g' v k) =
        {x \<in> insert reg (live g). owner (rg_queue (regs g' x)) = v \<and> number_of g' x = k}"
      using signals_okD(6) [OF ok, of v k] by auto
  next
    fix k
    have "{x \<in> insert reg (live g). number_of g' x = k} =
        (if k = n then insert reg {x \<in> live g. number_of g x = k} else {x \<in> live g. number_of g x = k})"
      using num(1) same by auto
    then show "registration_count g' k = card {x \<in> insert reg (live g). number_of g' x = k}"
      using signals_okD(1,7) [OF ok] fresh by (simp add: g')
  qed
qed (use ok in simp)

subsection \<open>Delivering\<close>

lemma deliver_regs_spec:
  assumes "distinct (map (\<lambda>r. rg_queue (regs g r)) rs)" "deliver_regs n rs g = (ops, g')"
  shows "ops = concat (map (\<lambda>r. map (\<lambda>op. (op, no_error, n)) (set_queue g (rg_queue (regs g r)))) rs) \<and>
    set_queue g' = (\<lambda>s. if s \<in> (\<lambda>r. rg_queue (regs g r)) ` set rs then [] else set_queue g s) \<and>
    (\<forall>r. regs g' r = (regs g r)\<lparr>undelivered := undelivered (regs g r) +
       (if r \<in> set rs \<and> set_queue g (rg_queue (regs g r)) = [] then 1 else 0)\<rparr>) \<and>
    set_signals g' = set_signals g \<and> registrations g' = registrations g \<and>
    registration_count g' = registration_count g \<and> service_list g' = service_list g"
  using assms
proof (induction rs arbitrary: g ops g')
  case Nil
  then show ?case by simp
next
  case (Cons r rs)
  let ?s = "rg_queue (regs g r)"
  have dis: "?s \<notin> (\<lambda>r. rg_queue (regs g r)) ` set rs" "distinct (map (\<lambda>r. rg_queue (regs g r)) rs)"
    using Cons.prems(1) by auto
  have rnot: "r \<notin> set rs" using dis(1) by auto
  show ?case
  proof (cases "set_queue g ?s = []")
    case True
    define g1 where "g1 = g\<lparr>regs := (regs g)(r := (regs g r)\<lparr>undelivered := undelivered (regs g r) + 1\<rparr>)\<rparr>"
    have q: "rg_queue (regs g1 x) = rg_queue (regs g x)" for x by (simp add: g1_def)
    have d: "deliver_regs n rs g1 = (ops, g')" using Cons.prems(2) True by (simp add: g1_def Let_def)
    have "distinct (map (\<lambda>r. rg_queue (regs g1 r)) rs)" using dis(2) by (simp add: q)
    from Cons.IH [OF this d] have ih: "ops = concat (map (\<lambda>r. map (\<lambda>op. (op, no_error, n)) (set_queue g1 (rg_queue (regs g1 r)))) rs)"
      "set_queue g' = (\<lambda>s. if s \<in> (\<lambda>r. rg_queue (regs g1 r)) ` set rs then [] else set_queue g1 s)"
      "\<forall>x. regs g' x = (regs g1 x)\<lparr>undelivered := undelivered (regs g1 x) +
         (if x \<in> set rs \<and> set_queue g1 (rg_queue (regs g1 x)) = [] then 1 else 0)\<rparr>"
      "set_signals g' = set_signals g1" "registrations g' = registrations g1"
      "registration_count g' = registration_count g1" "service_list g' = service_list g1" by simp_all
    have g1: "set_queue g1 = set_queue g" "set_signals g1 = set_signals g" "registrations g1 = registrations g"
      "registration_count g1 = registration_count g" "service_list g1 = service_list g" by (simp_all add: g1_def)
    have "ops = concat (map (\<lambda>r. map (\<lambda>op. (op, no_error, n)) (set_queue g (rg_queue (regs g r)))) (r # rs))"
      using ih(1) True by (simp add: q g1)
    moreover have "set_queue g' = (\<lambda>s. if s \<in> (\<lambda>r. rg_queue (regs g r)) ` set (r # rs) then [] else set_queue g s)"
      using ih(2) True by (auto simp: q g1 fun_eq_iff)
    moreover have "regs g' x = (regs g x)\<lparr>undelivered := undelivered (regs g x) +
         (if x \<in> set (r # rs) \<and> set_queue g (rg_queue (regs g x)) = [] then 1 else 0)\<rparr>" for x
      using ih(3) [rule_format, of x] True rnot by (cases "x = r") (auto simp: q g1(1), simp_all add: g1_def)
    ultimately show ?thesis using ih(4-7) g1(2-5) by simp
  next
    case False
    define g1 where "g1 = g\<lparr>set_queue := (set_queue g)(?s := [])\<rparr>"
    obtain ops1 where d: "deliver_regs n rs g1 = (ops1, g')"
      and o: "ops = map (\<lambda>op. (op, no_error, n)) (set_queue g ?s) @ ops1"
      using Cons.prems(2) False by (auto simp: g1_def Let_def split: prod.splits)
    have g1: "regs g1 = regs g" "set_queue g1 = (set_queue g)(?s := [])" "set_signals g1 = set_signals g"
      "registrations g1 = registrations g" "registration_count g1 = registration_count g" "service_list g1 = service_list g"
      by (simp_all add: g1_def)
    have q: "set_queue g1 (rg_queue (regs g x)) = set_queue g (rg_queue (regs g x))" if "x \<in> set rs" for x
    proof -
      have "rg_queue (regs g x) \<noteq> ?s" using that dis(1) by (metis image_eqI)
      then show ?thesis by (simp add: g1)
    qed
    have "distinct (map (\<lambda>r. rg_queue (regs g1 r)) rs)" using dis(2) by (simp add: g1)
    from Cons.IH [OF this d] have ih: "ops1 = concat (map (\<lambda>r. map (\<lambda>op. (op, no_error, n)) (set_queue g1 (rg_queue (regs g1 r)))) rs)"
      "set_queue g' = (\<lambda>s. if s \<in> (\<lambda>r. rg_queue (regs g1 r)) ` set rs then [] else set_queue g1 s)"
      "\<forall>x. regs g' x = (regs g1 x)\<lparr>undelivered := undelivered (regs g1 x) +
         (if x \<in> set rs \<and> set_queue g1 (rg_queue (regs g1 x)) = [] then 1 else 0)\<rparr>"
      "set_signals g' = set_signals g1" "registrations g' = registrations g1"
      "registration_count g' = registration_count g1" "service_list g' = service_list g1" by simp_all
    have "map (\<lambda>r. map (\<lambda>op. (op, no_error, n)) (set_queue g1 (rg_queue (regs g1 r)))) rs =
        map (\<lambda>r. map (\<lambda>op. (op, no_error, n)) (set_queue g (rg_queue (regs g r)))) rs"
      using q by (simp add: g1(1))
    then have "ops = concat (map (\<lambda>r. map (\<lambda>op. (op, no_error, n)) (set_queue g (rg_queue (regs g r)))) (r # rs))"
      unfolding o ih(1) by (simp only: list.map concat.simps)
    moreover have "set_queue g' = (\<lambda>s. if s \<in> (\<lambda>r. rg_queue (regs g r)) ` set (r # rs) then [] else set_queue g s)"
      using ih(2) by (auto simp: g1 fun_eq_iff)
    moreover have "regs g' x = (regs g x)\<lparr>undelivered := undelivered (regs g x) +
         (if x \<in> set (r # rs) \<and> set_queue g (rg_queue (regs g x)) = [] then 1 else 0)\<rparr>" for x
      using ih(3) [rule_format, of x] False rnot q by (cases "x = r") (auto simp: g1(1))
    ultimately show ?thesis using ih(4-7) g1(3-6) by simp
  qed
qed

lemma table_queues_distinct:
  assumes "signals_ok owner g"
  shows "distinct (map (\<lambda>r. rg_queue (regs g r)) (registrations g v n))"
proof -
  have "inj_on (\<lambda>r. rg_queue (regs g r)) (set (registrations g v n))"
  proof (rule inj_onI)
    fix x y assume x: "x \<in> set (registrations g v n)" and y: "y \<in> set (registrations g v n)"
      and q: "rg_queue (regs g x) = rg_queue (regs g y)"
    let ?l = "set_signals g (rg_queue (regs g x))"
    have n: "number_of g x = number_of g y" "x \<in> set ?l" "y \<in> set ?l"
      using x y q signals_okD(6) [OF assms, of v n] live_iff [OF assms] by auto
    have "distinct (map (number_of g) ?l)"
      using signals_okD(4) [OF assms] strict_sorted_iff by blast
    then show "x = y" using n by (auto simp: distinct_map inj_on_def)
  qed
  then show ?thesis using signals_okD(5) [OF assms] by (simp add: distinct_map)
qed

text \<open>Whether a set is registered for a number with one of some services.\<close>

definition hit :: "(nat \<Rightarrow> nat) \<Rightarrow> signal_state \<Rightarrow> nat list \<Rightarrow> int \<Rightarrow> nat \<Rightarrow> bool" where
  "hit owner g vs n s \<longleftrightarrow> owner s \<in> set vs \<and> n \<in> number_of g ` set (set_signals g s)"

lemma table_queues:
  assumes "signals_ok owner g"
  shows "(\<lambda>r. rg_queue (regs g r)) ` set (registrations g v n) = {s. hit owner g [v] n s}"
proof -
  have "s \<in> (\<lambda>r. rg_queue (regs g r)) ` set (registrations g v n) \<longleftrightarrow> hit owner g [v] n s" for s
    unfolding signals_okD(6) [OF assms] hit_def
    using live_iff [OF assms] signals_okD(2) [OF assms, of _ s] by (auto simp: image_iff)
  then show ?thesis by blast
qed

lemma deliver_services_spec:
  assumes "signals_ok owner g" "distinct vs" "deliver_services n vs g = (calls, g')"
  shows "calls = map (\<lambda>v. Posted_ops v (concat (map (\<lambda>r. map (\<lambda>op. (op, no_error, n)) (set_queue g (rg_queue (regs g r))))
      (registrations g v n)))) vs \<and>
    set_queue g' = (\<lambda>s. if hit owner g vs n s then [] else set_queue g s) \<and>
    (\<forall>r \<in> live g. regs g' r = (regs g r)\<lparr>undelivered := undelivered (regs g r) +
       (if number_of g r = n \<and> owner (rg_queue (regs g r)) \<in> set vs \<and> set_queue g (rg_queue (regs g r)) = [] then 1 else 0)\<rparr>) \<and>
    signals_ok owner g' \<and> set_signals g' = set_signals g \<and> service_list g' = service_list g \<and>
    registration_count g' = registration_count g"
  using assms
proof (induction vs arbitrary: g calls g')
  case Nil
  then show ?case by (simp add: hit_def)
next
  case (Cons v vs)
  obtain ops g1 where d: "deliver_regs n (registrations g v n) g = (ops, g1)" by (metis prod.exhaust)
  obtain more where e: "deliver_services n vs g1 = (more, g')" "calls = Posted_ops v ops # more"
    using Cons.prems(3) d by (auto split: prod.splits)
  note D = deliver_regs_spec [OF table_queues_distinct [OF Cons.prems(1)] d]
  have q1: "set_queue g1 = (\<lambda>s. if hit owner g [v] n s then [] else set_queue g s)"
    using D table_queues [OF Cons.prems(1), of v n] by simp
  have r1: "regs g1 r = (regs g r)\<lparr>undelivered := undelivered (regs g r) +
      (if r \<in> set (registrations g v n) \<and> set_queue g (rg_queue (regs g r)) = [] then 1 else 0)\<rparr>" for r
    using D by blast
  have same: "set_signals g1 = set_signals g" "registrations g1 = registrations g" "service_list g1 = service_list g"
    "registration_count g1 = registration_count g" using D by simp_all
  have keep: "signal_number (regs g1 r) = signal_number (regs g r) \<and> rg_queue (regs g1 r) = rg_queue (regs g r)" for r
    by (simp add: r1)
  have ok1: "signals_ok owner g1" by (rule signals_frame [OF Cons.prems(1) same(1,2,4) keep])
  have l: "live g1 = live g" "number_of g1 = number_of g" using same(1) keep by (auto simp: live_def number_of_def)
  have h: "hit owner g1 ws n s = hit owner g ws n s" for ws s by (simp add: hit_def l same)
  from Cons.prems(2) have vs: "distinct vs" "v \<notin> set vs" by simp_all
  note IH = Cons.IH [OF ok1 vs(1) e(1)]
  have tab: "set (registrations g u n) = {r \<in> live g. owner (rg_queue (regs g r)) = u \<and> number_of g r = n}" for u
    by (rule signals_okD(6) [OF Cons.prems(1)])
  have "map (\<lambda>u. Posted_ops u (concat (map (\<lambda>r. map (\<lambda>op. (op, no_error, n)) (set_queue g1 (rg_queue (regs g1 r))))
      (registrations g1 u n)))) vs =
    map (\<lambda>u. Posted_ops u (concat (map (\<lambda>r. map (\<lambda>op. (op, no_error, n)) (set_queue g (rg_queue (regs g r))))
      (registrations g u n)))) vs"
  proof (rule map_cong [OF refl])
    fix u assume u: "u \<in> set vs"
    have "set_queue g1 (rg_queue (regs g1 r)) = set_queue g (rg_queue (regs g r))" if "r \<in> set (registrations g u n)" for r
      using that tab [of u] u vs(2) by (auto simp: q1 keep hit_def)
    then have "map (\<lambda>r. map (\<lambda>op. (op, no_error, n)) (set_queue g1 (rg_queue (regs g1 r)))) (registrations g u n) =
        map (\<lambda>r. map (\<lambda>op. (op, no_error, n)) (set_queue g (rg_queue (regs g r)))) (registrations g u n)"
      by (intro map_cong refl) (simp add: keep)
    then show "Posted_ops u (concat (map (\<lambda>r. map (\<lambda>op. (op, no_error, n)) (set_queue g1 (rg_queue (regs g1 r)))) (registrations g1 u n))) =
        Posted_ops u (concat (map (\<lambda>r. map (\<lambda>op. (op, no_error, n)) (set_queue g (rg_queue (regs g r)))) (registrations g u n)))"
      unfolding same(2) by (simp only:)
  qed
  then have calls: "calls = map (\<lambda>v. Posted_ops v (concat (map (\<lambda>r. map (\<lambda>op. (op, no_error, n)) (set_queue g (rg_queue (regs g r))))
      (registrations g v n)))) (v # vs)" using IH D e(2) by simp
  have "set_queue g' = (\<lambda>s. if hit owner g vs n s then [] else set_queue g1 s)" using IH h by simp
  then have queue: "set_queue g' = (\<lambda>s. if hit owner g (v # vs) n s then [] else set_queue g s)"
    by (auto simp: q1 hit_def fun_eq_iff)
  have "regs g' r = (regs g r)\<lparr>undelivered := undelivered (regs g r) +
       (if number_of g r = n \<and> owner (rg_queue (regs g r)) \<in> set (v # vs) \<and> set_queue g (rg_queue (regs g r)) = [] then 1 else 0)\<rparr>"
    if r: "r \<in> live g" for r
  proof -
    have a: "regs g' r = (regs g1 r)\<lparr>undelivered := undelivered (regs g1 r) +
       (if number_of g r = n \<and> owner (rg_queue (regs g r)) \<in> set vs \<and> set_queue g1 (rg_queue (regs g r)) = [] then 1 else 0)\<rparr>"
      using IH r keep by (simp add: l)
    show ?thesis
    proof (cases "owner (rg_queue (regs g r)) = v")
      case True
      then show ?thesis using a r1 [of r] vs(2) tab [of v] r by simp
    next
      case False
      then have "set_queue g1 (rg_queue (regs g r)) = set_queue g (rg_queue (regs g r))" by (simp add: q1 hit_def)
      then show ?thesis using False a r1 [of r] tab [of v] by simp
    qed
  qed
  then show ?case using calls queue IH same by simp
qed

subsection \<open>Services and sets, in any order\<close>

text \<open>A service is created before the sets it owns, and its constructor adds it once; it is shut down, and its
  destructor removes it, at any time. A set is constructed once; a registration is a new object. Forks may fail
  to open the pipe again. The system's calls change the disposition of a signal when they succeed, and the
  calls on descriptors do not.\<close>

inductive signal_step ::
    "'w signal_sys \<Rightarrow> (nat \<Rightarrow> nat) \<Rightarrow> signal_state \<times> 'w \<Rightarrow> signal_state \<times> 'w \<Rightarrow> bool"
  for os owner where
  step_construct: "set_signals g s = [] \<Longrightarrow> signal_step os owner (g, w) (signal_construct s g, w)"
| step_add: "reg \<notin> live g \<Longrightarrow> signal_add os owner s n reg g w = (ec, g', w') \<Longrightarrow> signal_step os owner (g, w) (g', w')"
| step_remove: "signal_remove os owner s n g w = (ec, g', w') \<Longrightarrow> signal_step os owner (g, w) (g', w')"
| step_clear: "signal_clear os owner s g w = (ec, g', w') \<Longrightarrow> signal_step os owner (g, w) (g', w')"
| step_destroy: "signal_destroy os owner s g w = (calls, g', w') \<Longrightarrow> signal_step os owner (g, w) (g', w')"
| step_cancel: "signal_cancel owner s g = (calls, g') \<Longrightarrow> signal_step os owner (g, w) (g', w)"
| step_wait: "start_wait_op owner s op g = (calls, g') \<Longrightarrow> signal_step os owner (g, w) (g', w)"
| step_deliver: "deliver_signal n g = (calls, g') \<Longrightarrow> signal_step os owner (g, w) (g', w)"
| step_service: "\<lbrakk>v \<notin> set (service_list g); \<And>s. owner s = v \<Longrightarrow> set_signals g s = []; new_signal_service os v g w = (res, g', w')\<rbrakk>
    \<Longrightarrow> signal_step os owner (g, w) (g', w')"
| step_shutdown: "signal_shutdown os v g w = (calls, g', w') \<Longrightarrow> signal_step os owner (g, w) (g', w')"
| step_destructor: "remove_service os v g w = (calls, g', w') \<Longrightarrow> signal_step os owner (g, w) (g', w')"
| step_fork_prepare: "fork_prepare v g = (calls, g') \<Longrightarrow> signal_step os owner (g, w) (g', w)"
| step_fork_parent: "fork_parent v g = (calls, g') \<Longrightarrow> signal_step os owner (g, w) (g', w)"
| step_fork_child: "fork_child os v g w = (res, g', w') \<Longrightarrow> signal_step os owner (g, w) (g', w')"

definition handler_law :: "'w signal_sys \<Rightarrow> ('w \<Rightarrow> int \<Rightarrow> bool) \<Rightarrow> bool" where
  "handler_law os handled \<longleftrightarrow> (\<forall>n b w. case sg_sigaction os n b w of (e, w') \<Rightarrow>
     handled w' = (if e = 0 then (handled w)(n := b) else handled w)) \<and>
   (\<forall>fd w. handled (snd (sg_pipe os w)) = handled w \<and> handled (sg_fcntl os fd w) = handled w \<and> handled (sg_close_fd os fd w) = handled w)"

definition handlers_ok :: "('w \<Rightarrow> int \<Rightarrow> bool) \<Rightarrow> signal_state \<Rightarrow> 'w \<Rightarrow> bool" where
  "handlers_ok handled g w \<longleftrightarrow> (\<forall>n. handled w n \<longleftrightarrow> registration_count g n > 0)"

lemma handler_lawD:
  "handler_law os handled \<Longrightarrow> sg_sigaction os n b w = (e, w') \<Longrightarrow>
   handled w' = (if e = 0 then (handled w)(n := b) else handled w)"
  unfolding handler_law_def by (metis (mono_tags, lifting) case_prod_conv)

lemma signal_add_effect:
  assumes "signal_add os owner s n reg g w = (ec, g', w')"
  shows "(registration_count g' = registration_count g \<and> (w' = w \<or> (\<exists>e. e \<noteq> 0 \<and> sg_sigaction os n True w = (e, w')))) \<or>
    (registration_count g' = (registration_count g)(n := registration_count g n + 1) \<and>
      (if registration_count g n = 0 then sg_sigaction os n True w = (0, w') else w' = w))"
proof (cases "sg_sigaction os n True w")
  case (Pair e w1)
  then show ?thesis using assms by (auto simp: signal_add_def Let_def split: if_splits)
qed

lemma add_handlers:
  assumes law: "handler_law os handled" and h: "handlers_ok handled g w"
    and add: "signal_add os owner s n reg g w = (ec, g', w')"
  shows "handlers_ok handled g' w'"
  using signal_add_effect [OF add]
proof
  assume "registration_count g' = registration_count g \<and> (w' = w \<or> (\<exists>e. e \<noteq> 0 \<and> sg_sigaction os n True w = (e, w')))"
  moreover from this have "handled w' = handled w" using handler_lawD [OF law] by metis
  ultimately show ?thesis using h by (simp add: handlers_ok_def)
next
  assume a: "registration_count g' = (registration_count g)(n := registration_count g n + 1) \<and>
      (if registration_count g n = 0 then sg_sigaction os n True w = (0, w') else w' = w)"
  have "handled w' = (if registration_count g n = 0 then (handled w)(n := True) else handled w)"
    using a handler_lawD [OF law, of n True w 0 w'] by (cases "registration_count g n = 0") simp_all
  then show ?thesis using a h by (simp add: handlers_ok_def)
qed

text \<open>Taking one registration out, after the system was asked when it was the last.\<close>

lemma unregister_handlers:
  assumes law: "handler_law os handled" and h: "handlers_ok handled g w"
    and e: "(if registration_count g n = 1 then sg_sigaction os n False w else (0, w)) = (e, w')"
    and n: "n = signal_number (regs g reg)"
  shows "e \<noteq> 0 \<Longrightarrow> handlers_ok handled g w'"
    and "e = 0 \<Longrightarrow> registration_count g n > 0 \<Longrightarrow> handlers_ok handled ((unregister v reg g)\<lparr>set_signals := x\<rparr>) w'"
proof -
  have hw: "handled w' = (if registration_count g n = 1 \<and> e = 0 then (handled w)(n := False) else handled w)"
    using e handler_lawD [OF law, of n False w e w'] by (cases "registration_count g n = 1") auto
  show "handlers_ok handled g w'" if "e \<noteq> 0" using hw that h by (simp add: handlers_ok_def)
  have c: "registration_count ((unregister v reg g)\<lparr>set_signals := x\<rparr>) = (registration_count g)(n := registration_count g n - 1)"
    by (simp add: unregister_def Let_def n)
  show "handlers_ok handled ((unregister v reg g)\<lparr>set_signals := x\<rparr>) w'" if "e = 0" "registration_count g n > 0"
    unfolding handlers_ok_def c hw using h that by (auto simp: handlers_ok_def)
qed

lemma registered_counted:
  assumes "signals_ok owner g" "reg \<in> set (set_signals g s)"
  shows "registration_count g (signal_number (regs g reg)) > 0"
proof -
  have "reg \<in> {r \<in> live g. number_of g r = signal_number (regs g reg)}"
    using assms(2) by (auto simp: live_def number_of_def)
  moreover have "finite {r \<in> live g. number_of g r = signal_number (regs g reg)}" using signals_okD(1) [OF assms(1)] by simp
  ultimately have "card {r \<in> live g. number_of g r = signal_number (regs g reg)} > 0" unfolding card_gt_0_iff by blast
  then show ?thesis by (simp only: signals_okD(7) [OF assms(1)])
qed

lemma remove_ok:
  assumes ok: "signals_ok owner g" and law: "handler_law os handled" and h: "handlers_ok handled g w"
    and rem: "signal_remove os owner s n g w = (ec, g', w')"
  shows "signals_ok owner g' \<and> handlers_ok handled g' w'"
proof -
  let ?sm = "\<lambda>r. signal_number (regs g r) < n"
  define before where "before = takeWhile ?sm (set_signals g s)"
  define rest where "rest = dropWhile ?sm (set_signals g s)"
  show ?thesis
  proof (cases "n < 0 \<or> n \<ge> max_signal_number \<or> rest = [] \<or> signal_number (regs g (hd rest)) \<noteq> n")
    case True
    then have "g' = g" "w' = w" using rem by (auto simp: signal_remove_def Let_def rest_def split: if_splits)
    then show ?thesis using ok h by simp
  next
    case False
    then obtain reg more where r: "rest = reg # more" "signal_number (regs g reg) = n" by (cases rest) auto
    have s: "set_signals g s = before @ reg # more" using r(1) by (metis before_def rest_def takeWhile_dropWhile_id)
    obtain e w1 where e: "(if registration_count g n = 1 then sg_sigaction os n False w else (0, w)) = (e, w1)" by fastforce
    have "signal_remove os owner s n g w =
        (let (e, w) = (if registration_count g n = 1 then sg_sigaction os n False w else (0, w)) in
         if e \<noteq> 0 then (Error_code e system_category, g, w)
         else (no_error, (unregister (owner s) (hd rest) g)\<lparr>set_signals := (set_signals g)(s := before @ tl rest)\<rparr>, w))"
      using False unfolding signal_remove_def before_def rest_def Let_def
      by (cases "sg_sigaction os n False w") (simp del: dropWhile_eq_Nil_conv)
    with rem e have g': "(g', w') = (if e \<noteq> 0 then (g, w1)
        else ((unregister (owner s) reg g)\<lparr>set_signals := (set_signals g)(s := before @ more)\<rparr>, w1))"
      using r by (auto split: if_splits)
    have "reg \<in> set (set_signals g s)" using s by simp
    then have c: "registration_count g n > 0" using registered_counted [OF ok] r(2) by blast
    show ?thesis
      using g' ok unregister_ok [OF ok s] unregister_handlers [OF law h e r(2) [symmetric]] c by (auto split: if_splits)
  qed
qed

lemma clear_ok:
  assumes "handler_law os handled"
  shows "\<lbrakk>signals_ok owner g; handlers_ok handled g w; set_signals g s = l; clear_loop os (owner s) s l g w = (ec, g', w')\<rbrakk> \<Longrightarrow>
    signals_ok owner g' \<and> handlers_ok handled g' w'"
proof (induction l arbitrary: g w)
  case (Cons reg rest)
  let ?n = "signal_number (regs g reg)"
  obtain e w1 where e: "(if registration_count g ?n = 1 then sg_sigaction os ?n False w else (0, w)) = (e, w1)" by fastforce
  have "reg \<in> set (set_signals g s)" using Cons.prems(3) by simp
  note c = registered_counted [OF Cons.prems(1) this]
  note u = unregister_handlers [OF assms Cons.prems(2) e refl]
  show ?case
  proof (cases "e = 0")
    case False
    then have "g' = g" "w' = w1" using Cons.prems(4) e by (auto simp: Let_def)
    then show ?thesis using Cons.prems(1) u(1) False by simp
  next
    case True
    let ?g = "(unregister (owner s) reg g)\<lparr>set_signals := (set_signals g)(s := rest)\<rparr>"
    have "signals_ok owner ?g" using unregister_ok [OF Cons.prems(1), of s "[]"] Cons.prems(3) by simp
    moreover have "handlers_ok handled ?g w1" using u(2) True c by simp
    moreover have "clear_loop os (owner s) s rest ?g w1 = (ec, g', w')" using Cons.prems(4) e True by (simp add: Let_def)
    ultimately show ?thesis by (intro Cons.IH) simp_all
  qed
qed simp

lemma wait_frame:
  assumes "start_wait_op owner s op g = (calls, g')"
  shows "set_signals g' = set_signals g \<and> registrations g' = registrations g \<and> registration_count g' = registration_count g \<and>
    (\<forall>r. signal_number (regs g' r) = signal_number (regs g r) \<and> rg_queue (regs g' r) = rg_queue (regs g r))"
  using assms by (auto simp: start_wait_op_def split: option.splits)

text \<open>The descriptors of the pipe and the list of services are the only parts of the state that the rest of the
  operations change, apart from the queues.\<close>

definition same_books :: "signal_state \<Rightarrow> signal_state \<Rightarrow> bool" where
  "same_books g g' \<longleftrightarrow> set_signals g' = set_signals g \<and> registrations g' = registrations g \<and>
     registration_count g' = registration_count g \<and> regs g' = regs g \<and>
     (\<forall>s. set_queue g' s = set_queue g s \<or> set_queue g' s = [])"

lemma same_books_ok: "\<lbrakk>same_books g g'; signals_ok owner g; handlers_ok handled g w; handled w' = handled w\<rbrakk> \<Longrightarrow>
    signals_ok owner g' \<and> handlers_ok handled g' w'"
  by (auto simp: same_books_def handlers_ok_def intro: signals_frame)

lemma same_books_trans: "same_books g g1 \<Longrightarrow> same_books g1 g2 \<Longrightarrow> same_books g g2"
  unfolding same_books_def by metis

lemma descriptors_frame:
  assumes law: "handler_law os handled"
  shows "open_descriptors os g w = (res, g', w') \<Longrightarrow> same_books g g' \<and> service_list g' = service_list g \<and> handled w' = handled w"
    and "close_descriptors os g w = (g', w') \<Longrightarrow> same_books g g' \<and> service_list g' = service_list g \<and> handled w' = handled w"
proof -
  have l: "handled (snd (sg_pipe os w)) = handled w" "handled (sg_fcntl os fd w) = handled w" "handled (sg_close_fd os fd w) = handled w" for fd w
    using law unfolding handler_law_def by blast+
  show "open_descriptors os g w = (res, g', w') \<Longrightarrow> same_books g g' \<and> service_list g' = service_list g \<and> handled w' = handled w"
    using l(1) [of w] by (auto simp: open_descriptors_def same_books_def l(2) split: prod.splits sum.splits)
  show "close_descriptors os g w = (g', w') \<Longrightarrow> same_books g g' \<and> service_list g' = service_list g \<and> handled w' = handled w"
    by (auto simp: close_descriptors_def same_books_def l(3) Let_def)
qed

lemma add_service_frame:
  assumes law: "handler_law os handled" and a: "add_service os v g w = (res, g', w')" and v: "v \<notin> set (service_list g)"
  shows "same_books g g' \<and> handled w' = handled w \<and> (distinct (service_list g) \<longrightarrow> distinct (service_list g'))"
proof -
  obtain r g1 w1 where o: "(if service_list g = [] then open_descriptors os g w else (Inr (), g, w)) = (r, g1, w1)" by (metis prod.exhaust)
  then have f: "same_books g g1" "service_list g1 = service_list g" "handled w1 = handled w"
    using descriptors_frame(1) [OF law, of g w r g1 w1] by (auto simp: same_books_def split: if_splits)
  have "same_books g1 g'" "w' = w1" "service_list g' = service_list g1 \<or> service_list g' = v # service_list g1"
    using a o by (auto simp: add_service_def same_books_def split: sum.splits)
  then show ?thesis using f v same_books_trans by auto
qed

lemma remove_service_frame:
  assumes law: "handler_law os handled" and r: "remove_service os v g w = (calls, g', w')"
  shows "same_books g g' \<and> handled w' = handled w \<and> (distinct (service_list g) \<longrightarrow> distinct (service_list g'))"
proof (cases "v \<in> set (service_list g)")
  case True
  let ?g = "g\<lparr>service_list := remove1 v (service_list g)\<rparr>"
  have "same_books ?g g' \<and> service_list g' = service_list ?g \<and> handled w' = handled w"
    using r True descriptors_frame(2) [OF law, of ?g w g' w']
    by (auto simp: remove_service_def same_books_def Let_def split: if_splits prod.splits)
  then show ?thesis by (simp add: same_books_def)
qed (use r in \<open>auto simp: remove_service_def same_books_def\<close>)

lemma take_queues_frame: "take_queues rs g = (ops, g') \<Longrightarrow> same_books g g' \<and> service_list g' = service_list g"
proof (induction rs arbitrary: g ops)
  case (Cons reg rs)
  let ?g = "g\<lparr>set_queue := (set_queue g)(rg_queue (regs g reg) := [])\<rparr>"
  obtain more where "take_queues rs ?g = (more, g')" using Cons.prems by (auto simp: Let_def split: prod.splits)
  from Cons.IH [OF this] have "same_books ?g g'" "service_list g' = service_list ?g" by simp_all
  moreover have "same_books g ?g" by (simp add: same_books_def)
  ultimately show ?case using same_books_trans by fastforce
qed (simp add: same_books_def)

lemma fork_child_frame:
  assumes law: "handler_law os handled" and f: "fork_child os v g w = (res, g', w')"
  shows "same_books g g' \<and> service_list g' = service_list g \<and> handled w' = handled w"
proof (cases "fork_prepared g")
  case True
  obtain g1 w1 where c: "close_descriptors os g w = (g1, w1)" by force
  obtain r g2 w2 where o: "open_descriptors os g1 w1 = (r, g2, w2)" by (metis prod.exhaust)
  have "same_books g2 g' \<and> service_list g' = service_list g2 \<and> w' = w2"
    using f True c o by (auto simp: fork_child_def same_books_def split: sum.splits)
  then show ?thesis using descriptors_frame(2) [OF law c] descriptors_frame(1) [OF law o] same_books_trans by metis
qed (use f in \<open>simp add: fork_child_def same_books_def\<close>)

text \<open>The operations on sets leave the services alone.\<close>

lemma clear_loop_services: "clear_loop os v s rs g w = (ec, g', w') \<Longrightarrow> service_list g' = service_list g"
proof (induction rs arbitrary: g w)
  case (Cons r rs)
  then show ?case by (fastforce simp: unregister_def Let_def split: if_splits prod.splits)
qed simp

lemma set_operation_services:
  shows "signal_add os owner s n reg g w = (ec, g', w') \<Longrightarrow> service_list g' = service_list g"
    and "signal_remove os owner s n g w = (ec, g', w') \<Longrightarrow> service_list g' = service_list g"
    and "signal_clear os owner s g w = (ec, g', w') \<Longrightarrow> service_list g' = service_list g"
    and "signal_cancel owner s g = (calls, g') \<Longrightarrow> service_list g' = service_list g"
    and "start_wait_op owner s op g = (calls, g') \<Longrightarrow> service_list g' = service_list g"
  by (auto simp: signal_add_def signal_remove_def signal_clear_def signal_cancel_def start_wait_op_def unregister_def Let_def
      dest: clear_loop_services split: if_splits prod.splits option.splits)

lemma shutdown_frame:
  assumes law: "handler_law os handled" and r: "signal_shutdown os v g w = (calls, g', w')"
  shows "same_books g g' \<and> handled w' = handled w \<and> (distinct (service_list g) \<longrightarrow> distinct (service_list g'))"
proof -
  obtain c1 g1 w1 where a: "remove_service os v g w = (c1, g1, w1)" by (metis prod.exhaust)
  obtain ops g2 where b: "take_queues (concat (map (registrations g1 v) [0..max_signal_number - 1])) g1 = (ops, g2)"
    by (metis prod.exhaust)
  have "g' = g2" "w' = w1" using r a b by (auto simp: signal_shutdown_def)
  then show ?thesis using remove_service_frame [OF law a] take_queues_frame [OF b] same_books_trans by metis
qed

lemma new_service_frame:
  assumes ok: "signals_ok owner g" and law: "handler_law os handled" and r: "new_signal_service os v g w = (res, g', w')"
    and v: "v \<notin> set (service_list g)" and own: "\<And>s. owner s = v \<Longrightarrow> set_signals g s = []"
  shows "same_books g g' \<and> handled w' = handled w \<and> (distinct (service_list g) \<longrightarrow> distinct (service_list g'))"
proof -
  have "set (registrations g v n) = {}" for n
    unfolding signals_okD(6) [OF ok] using live_iff [OF ok] own by fastforce
  then have "(registrations g)(v := \<lambda>_. []) = registrations g" by (auto simp: fun_eq_iff)
  then have "add_service os v g w = (res, g', w')" using r by (simp add: new_signal_service_def)
  then show ?thesis using add_service_frame [OF law _ v] by blast
qed

lemma fork_frame:
  shows "fork_prepare v g = (calls, g') \<Longrightarrow> same_books g g' \<and> service_list g' = service_list g"
    and "fork_parent v g = (calls, g') \<Longrightarrow> same_books g g' \<and> service_list g' = service_list g"
  by (auto simp: fork_prepare_def fork_parent_def same_books_def split: if_splits)

lemma set_operations_ok:
  assumes law: "handler_law os handled" and ok: "signals_ok owner g" and h: "handlers_ok handled g w"
  shows "signal_clear os owner s g w = (ec, g', w') \<Longrightarrow> signals_ok owner g' \<and> handlers_ok handled g' w'"
    and "signal_destroy os owner s g w = (calls, g', w') \<Longrightarrow> signals_ok owner g' \<and> handlers_ok handled g' w' \<and> service_list g' = service_list g"
proof -
  have clear: "signals_ok owner g1 \<and> handlers_ok handled g1 w1" if "signal_clear os owner s g w = (ec, g1, w1)" for ec g1 w1
    using clear_ok [OF law ok h] that by (simp add: signal_clear_def)
  then show "signal_clear os owner s g w = (ec, g', w') \<Longrightarrow> signals_ok owner g' \<and> handlers_ok handled g' w'" by blast
  assume d: "signal_destroy os owner s g w = (calls, g', w')"
  obtain ec g1 w1 where c: "signal_clear os owner s g w = (ec, g1, w1)" by (metis prod.exhaust)
  have g': "g' = g1\<lparr>set_queue := (set_queue g1)(s := [])\<rparr>" "w' = w1"
    using d c by (auto simp: signal_destroy_def signal_cancel_def)
  have "signals_ok owner g'" unfolding g' using clear [OF c] by (auto intro: signals_frame)
  then show "signals_ok owner g' \<and> handlers_ok handled g' w' \<and> service_list g' = service_list g"
    using clear [OF c] set_operation_services(3) [OF c] by (simp add: g' handlers_ok_def)
qed

text \<open>A set with waiting operations has no signal it remembers.\<close>

definition none_missed :: "signal_state \<Rightarrow> bool" where
  "none_missed g \<longleftrightarrow> (\<forall>s. set_queue g s \<noteq> [] \<longrightarrow> (\<forall>r \<in> set (set_signals g s). undelivered (regs g r) = 0))"

lemma none_missed_frame:
  assumes "none_missed g" "\<And>s. set_queue g' s = set_queue g s \<or> set_queue g' s = []"
    and "\<And>s. set (set_signals g' s) \<subseteq> set (set_signals g s)" "\<And>r. undelivered (regs g' r) = undelivered (regs g r)"
  shows "none_missed g'"
  using assms unfolding none_missed_def by (metis subsetD)

lemma clear_loop_shrinks:
  "\<lbrakk>set_signals g s = rs; clear_loop os v s rs g w = (ec, g', w')\<rbrakk> \<Longrightarrow>
   regs g' = regs g \<and> set_queue g' = set_queue g \<and> (\<forall>t. set (set_signals g' t) \<subseteq> set (set_signals g t))"
proof (induction rs arbitrary: g w)
  case (Cons r rs)
  let ?n = "signal_number (regs g r)"
  obtain e w1 where e: "(if registration_count g ?n = 1 then sg_sigaction os ?n False w else (0, w)) = (e, w1)" by fastforce
  show ?case
  proof (cases "e = 0")
    case True
    let ?g = "(unregister v r g)\<lparr>set_signals := (set_signals g)(s := rs)\<rparr>"
    have "clear_loop os v s rs ?g w1 = (ec, g', w')" using Cons.prems(2) e True by (simp add: Let_def)
    from Cons.IH [OF _ this] have i: "regs g' = regs ?g" "set_queue g' = set_queue ?g" "\<And>t. set (set_signals g' t) \<subseteq> set (set_signals ?g t)"
      by simp_all
    have "regs ?g = regs g" "set_queue ?g = set_queue g" "\<And>t. set (set_signals ?g t) \<subseteq> set (set_signals g t)"
      using Cons.prems(1) by (auto simp: unregister_def Let_def)
    then show ?thesis using i by (metis subset_trans)
  qed (use Cons.prems e in \<open>auto simp: Let_def\<close>)
qed simp

lemma set_without: "set (takeWhile P xs @ tl (dropWhile P xs)) \<subseteq> set xs"
  by (induction xs) auto

lemma none_missed_sets:
  assumes m: "none_missed g"
  shows "reg \<notin> live g \<Longrightarrow> signal_add os owner s n reg g w = (ec, g', w') \<Longrightarrow> none_missed g'"
    and "signal_remove os owner s n g w = (ec, g', w') \<Longrightarrow> none_missed g'"
    and "signal_clear os owner s g w = (ec, g', w') \<Longrightarrow> none_missed g'"
    and "signal_destroy os owner s g w = (calls, g', w') \<Longrightarrow> none_missed g'"
    and "start_wait_op owner s op g = (calls, g') \<Longrightarrow> none_missed g'"
proof -
  assume fresh: "reg \<notin> live g" and add: "signal_add os owner s n reg g w = (ec, g', w')"
  let ?l = "takeWhile (\<lambda>r. signal_number (regs g r) < n) (set_signals g s) @ reg # dropWhile (\<lambda>r. signal_number (regs g r) < n) (set_signals g s)"
  have l: "set ?l = insert reg (set (set_signals g s))"
    by (metis Un_insert_right list.simps(15) set_append takeWhile_dropWhile_id)
  have "g' = g \<or> (set_queue g' = set_queue g \<and> undelivered (regs g' reg) = 0 \<and> (\<forall>r. r \<noteq> reg \<longrightarrow> regs g' r = regs g r) \<and>
      set_signals g' = (set_signals g)(s := ?l))"
    using add by (auto simp: signal_add_def Let_def split: if_splits prod.splits)
  then show "none_missed g'"
  proof
    assume a: "set_queue g' = set_queue g \<and> undelivered (regs g' reg) = 0 \<and> (\<forall>r. r \<noteq> reg \<longrightarrow> regs g' r = regs g r) \<and>
      set_signals g' = (set_signals g)(s := ?l)"
    have "undelivered (regs g' r) = 0" if r: "set_queue g t \<noteq> []" "r \<in> set (set_signals g' t)" for r t
    proof (cases "r = reg")
      case False
      then have "r \<in> set (set_signals g t)" using r(2) a l by (auto split: if_splits)
      then show ?thesis using m r(1) a False by (simp add: none_missed_def)
    qed (use a in simp)
    then show ?thesis using a by (simp add: none_missed_def)
  qed (use m in simp)
next
  assume rem: "signal_remove os owner s n g w = (ec, g', w')"
  have "regs g' = regs g \<and> set_queue g' = set_queue g \<and> (\<forall>t. set (set_signals g' t) \<subseteq> set (set_signals g t))"
    using rem set_without [of "\<lambda>r. signal_number (regs g r) < n" "set_signals g s"]
    by (auto simp: signal_remove_def unregister_def Let_def split: if_splits prod.splits)
  then show "none_missed g'" using none_missed_frame [OF m, of g'] by simp
next
  have clear: "regs g1 = regs g \<and> set_queue g1 = set_queue g \<and> (\<forall>t. set (set_signals g1 t) \<subseteq> set (set_signals g t))"
    if "signal_clear os owner s g w = (ec, g1, w1)" for ec g1 w1
    using clear_loop_shrinks [OF refl] that by (metis signal_clear_def)
  show "none_missed g'" if "signal_clear os owner s g w = (ec, g', w')"
    using none_missed_frame [OF m, of g'] clear [OF that] by simp
  assume d: "signal_destroy os owner s g w = (calls, g', w')"
  obtain ec g1 w1 where c: "signal_clear os owner s g w = (ec, g1, w1)" by (metis prod.exhaust)
  have "g' = g1\<lparr>set_queue := (set_queue g1)(s := [])\<rparr>" using d c by (auto simp: signal_destroy_def signal_cancel_def)
  then show "none_missed g'" using none_missed_frame [OF m, of g'] clear [OF c] by simp
next
  assume "start_wait_op owner s op g = (calls, g')"
  then show "none_missed g'" using m by (auto simp: start_wait_op_def none_missed_def find_None_iff split: option.splits if_splits)
qed

lemma none_missed_deliver:
  assumes ok: "signals_ok owner g" and d: "distinct (service_list g)" and m: "none_missed g" and r: "deliver_signal n g = (calls, g')"
  shows "none_missed g'"
proof -
  have D: "set_queue g' = (\<lambda>s. if hit owner g (service_list g) n s then [] else set_queue g s)" "set_signals g' = set_signals g"
    "\<And>x. x \<in> live g \<Longrightarrow> regs g' x = (regs g x)\<lparr>undelivered := undelivered (regs g x) +
       (if number_of g x = n \<and> owner (rg_queue (regs g x)) \<in> set (service_list g) \<and> set_queue g (rg_queue (regs g x)) = [] then 1 else 0)\<rparr>"
    using deliver_services_spec [OF ok d, of n calls g'] r by (simp_all add: deliver_signal_def)
  have "undelivered (regs g' x) = 0" if q: "set_queue g' s \<noteq> []" and x: "x \<in> set (set_signals g s)" for s x
  proof -
    have "x \<in> live g" using x by (auto simp: live_def)
    moreover have "rg_queue (regs g x) = s" by (rule signals_okD(2) [OF ok x])
    moreover have "set_queue g s \<noteq> []" using q D(1) by (auto split: if_splits)
    ultimately show ?thesis using D(3) [of x] m x by (simp add: none_missed_def)
  qed
  then show ?thesis by (simp add: none_missed_def D(2))
qed

definition signal_inv :: "(nat \<Rightarrow> nat) \<Rightarrow> ('w \<Rightarrow> int \<Rightarrow> bool) \<Rightarrow> signal_state \<Rightarrow> 'w \<Rightarrow> bool" where
  "signal_inv owner handled g w \<longleftrightarrow> signals_ok owner g \<and> handlers_ok handled g w \<and> distinct (service_list g) \<and> none_missed g"

lemma signal_invI:
  assumes "signal_inv owner handled g w"
  shows "\<lbrakk>same_books g g'; handled w' = handled w; distinct (service_list g) \<longrightarrow> distinct (service_list g')\<rbrakk> \<Longrightarrow> signal_inv owner handled g' w'"
    and "\<lbrakk>signals_ok owner g'; handlers_ok handled g' w'; service_list g' = service_list g; none_missed g'\<rbrakk> \<Longrightarrow> signal_inv owner handled g' w'"
proof -
  assume b: "same_books g g'" "handled w' = handled w" "distinct (service_list g) \<longrightarrow> distinct (service_list g')"
  have "none_missed g'" using assms b(1) by (intro none_missed_frame [of g g']) (auto simp: signal_inv_def same_books_def)
  then show "signal_inv owner handled g' w'"
    using assms b same_books_ok [of g g' owner handled w w'] by (simp add: signal_inv_def)
qed (use assms in \<open>simp add: signal_inv_def\<close>)

lemma signal_step_ok:
  assumes "signal_step os owner x y" and law: "handler_law os handled" and "signal_inv owner handled (fst x) (snd x)"
  shows "signal_inv owner handled (fst y) (snd y)"
  using assms(1,3)
proof (induction rule: signal_step.induct)
  case (step_construct g s w)
  then have "(set_signals g)(s := []) = set_signals g" using fun_upd_triv [of "set_signals g" s] by simp
  then have "signal_construct s g = g" by (simp add: signal_construct_def)
  then show ?case using step_construct by simp
next
  case (step_add reg g s n w ec g' w')
  then have i: "signal_inv owner handled g w" by simp
  then have "signals_ok owner g' \<and> handlers_ok handled g' w'"
    using signal_add_ok [OF _ step_add(1,2)] add_handlers [OF law _ step_add(2)] by (simp add: signal_inv_def)
  then show ?case using signal_invI(2) [OF i] set_operation_services(1) [OF step_add(2)]
      none_missed_sets(1) [OF _ step_add(1,2)] i by (simp add: signal_inv_def)
next
  case (step_remove s n g w ec g' w')
  then have i: "signal_inv owner handled g w" by simp
  then have "signals_ok owner g' \<and> handlers_ok handled g' w'"
    using remove_ok [OF _ law _ step_remove(1)] by (simp add: signal_inv_def)
  then show ?case using signal_invI(2) [OF i] set_operation_services(2) [OF step_remove(1)]
      none_missed_sets(2) [OF _ step_remove(1)] i by (simp add: signal_inv_def)
next
  case (step_clear s g w ec g' w')
  then have i: "signal_inv owner handled g w" by simp
  then have "signals_ok owner g' \<and> handlers_ok handled g' w'"
    using set_operations_ok(1) [OF law _ _ step_clear(1)] by (simp add: signal_inv_def)
  then show ?case using signal_invI(2) [OF i] set_operation_services(3) [OF step_clear(1)]
      none_missed_sets(3) [OF _ step_clear(1)] i by (simp add: signal_inv_def)
next
  case (step_destroy s g w calls g' w')
  then have i: "signal_inv owner handled g w" by simp
  then show ?case
    using set_operations_ok(2) [OF law _ _ step_destroy(1)] signal_invI(2) [OF i, of g' w']
      none_missed_sets(4) [OF _ step_destroy(1)] by (simp add: signal_inv_def)
next
  case (step_cancel s g calls g' w)
  then have i: "signal_inv owner handled g w" by simp
  have "same_books g g'" using step_cancel(1) by (auto simp: signal_cancel_def same_books_def)
  then show ?case using signal_invI(1) [OF i] set_operation_services(4) [OF step_cancel(1)] by simp
next
  case (step_wait s op g calls g' w)
  then have i: "signal_inv owner handled g w" by simp
  then have "signals_ok owner g'" using wait_frame [OF step_wait(1)] by (auto intro: signals_frame simp: signal_inv_def)
  then show ?case
    using i signal_invI(2) [OF i, of g' w] wait_frame [OF step_wait(1)] set_operation_services(5) [OF step_wait(1)]
      none_missed_sets(5) [OF _ step_wait(1)]
    by (simp add: handlers_ok_def signal_inv_def)
next
  case (step_deliver n g calls g' w)
  then have i: "signal_inv owner handled g w" by simp
  then have "signals_ok owner g' \<and> service_list g' = service_list g \<and> registration_count g' = registration_count g"
    using deliver_services_spec [of owner g "service_list g" n calls g'] step_deliver(1)
    by (simp add: deliver_signal_def signal_inv_def)
  then show ?case using i signal_invI(2) [OF i, of g' w] none_missed_deliver [OF _ _ _ step_deliver(1), of owner]
    by (simp add: handlers_ok_def signal_inv_def)
next
  case (step_service v g w res g' w')
  then have i: "signal_inv owner handled g w" by simp
  then have ok: "signals_ok owner g" by (simp add: signal_inv_def)
  show ?case using new_service_frame [OF ok law step_service(3,1)] step_service(2) signal_invI(1) [OF i] by simp
next
  case (step_shutdown v g w calls g' w')
  then have i: "signal_inv owner handled g w" by simp
  show ?case using shutdown_frame [OF law step_shutdown(1)] signal_invI(1) [OF i] by simp
next
  case (step_destructor v g w calls g' w')
  then have i: "signal_inv owner handled g w" by simp
  show ?case using remove_service_frame [OF law step_destructor(1)] signal_invI(1) [OF i] by simp
next
  case (step_fork_prepare v g calls g' w)
  then have i: "signal_inv owner handled g w" by simp
  show ?case using fork_frame(1) [OF step_fork_prepare(1)] signal_invI(1) [OF i] by simp
next
  case (step_fork_parent v g calls g' w)
  then have i: "signal_inv owner handled g w" by simp
  show ?case using fork_frame(2) [OF step_fork_parent(1)] signal_invI(1) [OF i] by simp
next
  case (step_fork_child v g w res g' w')
  then have i: "signal_inv owner handled g w" by simp
  show ?case using fork_child_frame [OF law step_fork_child(1)] signal_invI(1) [OF i] by simp
qed

text \<open>
  C35. Whatever is done to services and signal sets, in any order, with forks, deliveries and any failures of
  the system, the books agree: each set lists its registrations by ascending number and each once, the table
  of a service lists exactly the registrations of its sets for a number, the count of a signal is the number
  of its registrations, the library's handler is installed exactly while there is one, no service is
  listed twice, so that none is given a signal twice, and a set on which an operation waits has no
  signal it remembers.
\<close>

theorem signal_registrations_agree:
  assumes "handler_law os handled" "\<And>n. \<not> handled w0 n"
    and "(signal_step os owner)\<^sup>*\<^sup>* (initial_signal_state, w0) (g, w)"
  shows "signals_ok owner g \<and> (\<forall>n. handled w n \<longleftrightarrow> (\<exists>s. n \<in> number_of g ` set (set_signals g s))) \<and>
    distinct (service_list g) \<and>
    (\<forall>s. set_queue g s \<noteq> [] \<longrightarrow> (\<forall>r \<in> set (set_signals g s). undelivered (regs g r) = 0))"
proof -
  have "signal_inv owner handled (fst y) (snd y)"
    if "(signal_step os owner)\<^sup>*\<^sup>* (initial_signal_state, w0) y" for y
    using that
  proof (induction rule: rtranclp_induct)
    case base
    then show ?case using assms(2) initial_signals_ok
      by (simp add: signal_inv_def handlers_ok_def none_missed_def initial_signal_state_def)
  next
    case (step y z)
    then show ?case using signal_step_ok [OF step(2) assms(1)] by blast
  qed
  from this [OF assms(3)] have i: "signal_inv owner handled g w" by simp
  then have ok: "signals_ok owner g" and h: "handlers_ok handled g w" by (simp_all add: signal_inv_def)
  have "registration_count g n > 0 \<longleftrightarrow> (\<exists>s. n \<in> number_of g ` set (set_signals g s))" for n
  proof -
    have "finite {r \<in> live g. number_of g r = n}" using signals_okD(1) [OF ok] by simp
    then have "registration_count g n > 0 \<longleftrightarrow> {r \<in> live g. number_of g r = n} \<noteq> {}"
      unfolding signals_okD(7) [OF ok] card_gt_0_iff by simp
    then show ?thesis by (auto simp: live_def)
  qed
  then show ?thesis using i h by (simp add: handlers_ok_def signal_inv_def none_missed_def)
qed

text \<open>A system that keeps the dispositions and the bytes in the pipe.\<close>

definition plain_signals :: "((int \<Rightarrow> bool) \<times> int list) signal_sys" where
  "plain_signals = \<lparr>sg_sigaction = (\<lambda>n b (h, p). (0, h(n := b), p)), sg_pipe = (\<lambda>w. (Inr (5, 6), w)),
     sg_fcntl = (\<lambda>_ w. w), sg_close_fd = (\<lambda>_ w. w), sg_write = (\<lambda>_ n (h, p). (h, p @ [n])),
     sg_read = (\<lambda>_ (h, p). case p of [] \<Rightarrow> (None, h, p) | n # p \<Rightarrow> (Some n, h, p))\<rparr>"

lemma plain_law: "handler_law plain_signals fst"
  by (auto simp: handler_law_def plain_signals_def)

definition one_registered :: signal_state where
  "one_registered = fst (snd (signal_add plain_signals (\<lambda>_. 0) 1 15 7 (initial_signal_state\<lparr>service_list := [0]\<rparr>) (\<lambda>_. False, [])))"

definition delivered_once :: "signal_state \<times> (int \<Rightarrow> bool) \<times> int list" where
  "delivered_once =
     (let (_, g, w) = new_signal_service plain_signals 0 initial_signal_state (\<lambda>_. False, []);
          (_, g, w) = signal_add plain_signals (\<lambda>_. 0) 1 15 7 g w;
          (_, g) = deliver_signal 15 g in (g, w))"

lemma delivered_once_reached:
  "(signal_step plain_signals (\<lambda>_. 0))\<^sup>*\<^sup>* (initial_signal_state, (\<lambda>_. False, [])) delivered_once"
proof -
  let ?step = "signal_step plain_signals (\<lambda>_. 0)"
  obtain r1 g1 w1 where a: "new_signal_service plain_signals 0 initial_signal_state (\<lambda>_. False, []) = (r1, g1, w1)"
    by (metis prod.exhaust)
  obtain e g2 w2 where b: "signal_add plain_signals (\<lambda>_. 0) 1 15 7 g1 w1 = (e, g2, w2)" by (metis prod.exhaust)
  obtain calls g3 where c: "deliver_signal 15 g2 = (calls, g3)" by (metis prod.exhaust)
  have "?step (initial_signal_state, (\<lambda>_. False, [])) (g1, w1)"
    by (rule step_service [OF _ _ a]) (simp_all add: initial_signal_state_def)
  moreover have "7 \<notin> live g1"
    using a by (auto simp: new_signal_service_def add_service_def open_descriptors_def plain_signals_def initial_signal_state_def live_def)
  then have "?step (g1, w1) (g2, w2)" by (rule step_add [OF _ b])
  moreover have "?step (g2, w2) (g3, w2)" by (rule step_deliver [OF c])
  ultimately have "?step\<^sup>*\<^sup>* (initial_signal_state, (\<lambda>_. False, [])) (g3, w2)"
    by (meson rtranclp.rtrancl_into_rtrancl rtranclp.rtrancl_refl)
  then show ?thesis using a b c by (simp add: delivered_once_def)
qed

theorem signal_registrations_agree_witness:
  "\<exists>g w. (signal_step plain_signals (\<lambda>_. 0))\<^sup>*\<^sup>* (initial_signal_state, (\<lambda>_. False, [])) (g, w) \<and>
     service_list g = [0] \<and> set_signals g 1 = [7] \<and> undelivered (regs g 7) = 1 \<and> signals_ok (\<lambda>_. 0) g \<and> fst w 15"
proof -
  obtain g w where d: "delivered_once = (g, w)" by (metis prod.exhaust)
  have g: "service_list g = [0]" "set_signals g 1 = [7]" "undelivered (regs g 7) = 1" "number_of g 7 = 15"
    using d by (auto simp: delivered_once_def new_signal_service_def add_service_def open_descriptors_def signal_add_def
        deliver_signal_def plain_signals_def initial_signal_state_def max_signal_number_def number_of_def Let_def)
  have r: "(signal_step plain_signals (\<lambda>_. 0))\<^sup>*\<^sup>* (initial_signal_state, (\<lambda>_. False, [])) (g, w)"
    using delivered_once_reached d by simp
  have "\<And>n. \<not> fst ((\<lambda>_. False) :: int \<Rightarrow> bool, [] :: int list) n" by simp
  from signal_registrations_agree [OF plain_law this r] have "signals_ok (\<lambda>_. 0) g"
    "fst w 15 \<longleftrightarrow> (\<exists>s. 15 \<in> number_of g ` set (set_signals g s))" by simp_all
  moreover have "15 \<in> number_of g ` set (set_signals g 1)" using g by simp
  ultimately show ?thesis using r g by blast
qed

text \<open>
  C34. No signal that is delivered is lost. Each set registered for it with a living service has all its
  waiting operations completed with the number of the signal, by its service and in order, or, when none waits,
  remembers it: the next wait on that set completes at once, with a number that is pending. Other
  sets are left alone.
\<close>

theorem delivered_signals_are_kept:
  assumes "signals_ok owner g" "distinct (service_list g)" "deliver_signal n g = (calls, g')"
  shows "calls = map (\<lambda>v. Posted_ops v (concat (map (\<lambda>r. map (\<lambda>op. (op, no_error, n)) (set_queue g (rg_queue (regs g r))))
      (registrations g v n)))) (service_list g) \<and>
    (\<forall>s. set_queue g' s = (if hit owner g (service_list g) n s then [] else set_queue g s)) \<and>
    (\<forall>s. hit owner g (service_list g) n s \<and> set_queue g s = [] \<longrightarrow>
       (\<exists>m. fst (start_wait_op owner s op g') = [Started (owner s), Posted_ops (owner s) [(op, no_error, m)]] \<and> m \<le> n \<and>
          (\<exists>r \<in> set (set_signals g s). number_of g r = m \<and> (m = n \<or> undelivered (regs g r) > 0))))"
proof -
  from assms(3) have d: "deliver_services n (service_list g) g = (calls, g')" by (simp add: deliver_signal_def)
  note D = deliver_services_spec [OF assms(1,2) d]
  have r': "regs g' r = (regs g r)\<lparr>undelivered := undelivered (regs g r) +
       (if number_of g r = n \<and> owner (rg_queue (regs g r)) \<in> set (service_list g) \<and> set_queue g (rg_queue (regs g r)) = [] then 1 else 0)\<rparr>"
    if "r \<in> live g" for r using D that by blast
  have "\<exists>m. fst (start_wait_op owner s op g') = [Started (owner s), Posted_ops (owner s) [(op, no_error, m)]] \<and> m \<le> n \<and>
      (\<exists>r \<in> set (set_signals g s). number_of g r = m \<and> (m = n \<or> undelivered (regs g r) > 0))"
    if h: "hit owner g (service_list g) n s" "set_queue g s = []" for s
  proof -
    let ?p = "\<lambda>r. undelivered (regs g' r) > 0"
    have l: "set_signals g' s = set_signals g s" using D by simp
    have inl: "r \<in> live g" "rg_queue (regs g r) = s" if "r \<in> set (set_signals g s)" for r
      using that signals_okD(2) [OF assms(1)] by (auto simp: live_def)
    obtain x where x: "x \<in> set (set_signals g s)" "number_of g x = n" using h(1) by (auto simp: hit_def)
    have px: "?p x" using r' [OF inl(1) [OF x(1)]] h x inl(2) by (simp add: hit_def)
    then obtain r where r: "find ?p (set_signals g s) = Some r"
      using x(1) by (cases "find ?p (set_signals g s)") (auto simp: find_None_iff)
    then obtain i where i: "i < length (set_signals g s)" "?p (set_signals g s ! i)" "r = set_signals g s ! i"
      "\<And>j. j < i \<Longrightarrow> \<not> ?p (set_signals g s ! j)" by (auto simp: find_Some_iff)
    obtain k where k: "k < length (set_signals g s)" "x = set_signals g s ! k" using x(1) by (metis in_set_conv_nth)
    have "i \<le> k" using i(4) [of k] px k(2) by (meson not_le)
    have "number_of g r \<le> n"
    proof (cases "i = k")
      case False
      then have "i < k" using \<open>i \<le> k\<close> by simp
      then have "number_of g (set_signals g s ! i) < number_of g (set_signals g s ! k)"
        using signals_okD(4) [OF assms(1), of s] k(1) by (simp add: sorted_wrt_iff_nth_less)
      then show ?thesis using i(3) k(2) x(2) by simp
    qed (use i(3) k(2) x(2) in simp)
    moreover have "r \<in> set (set_signals g s)" using i(1,3) by simp
    moreover have "number_of g r = n \<or> undelivered (regs g r) > 0"
      using i(2,3) r' [OF inl(1) [OF \<open>r \<in> set (set_signals g s)\<close>]] by (auto split: if_splits)
    moreover have "fst (start_wait_op owner s op g') =
        [Started (owner s), Posted_ops (owner s) [(op, no_error, number_of g r)]]"
      using r r' [OF inl(1) [OF \<open>r \<in> set (set_signals g s)\<close>]] by (simp add: start_wait_op_def l number_of_def)
    ultimately show ?thesis by blast
  qed
  then show ?thesis using D by simp
qed

theorem delivered_signals_are_kept_witness:
  "\<exists>g'. deliver_signal 15 one_registered = ([Posted_ops 0 []], g') \<and>
     (\<exists>m. fst (start_wait_op (\<lambda>_. 0) 1 9 g') = [Started 0, Posted_ops 0 [(9, no_error, m)]] \<and> m \<le> 15)"
proof -
  let ?g0 = "initial_signal_state\<lparr>service_list := [0]\<rparr>"
  obtain ec g w where a: "signal_add plain_signals (\<lambda>_. 0) 1 15 7 ?g0 (\<lambda>_. False, []) = (ec, g, w)"
    by (metis prod.exhaust)
  have o: "one_registered = g" using a by (simp add: one_registered_def)
  have "signals_ok (\<lambda>_. 0 :: nat) ?g0"
    by (rule signals_frame [OF initial_signals_ok]) simp_all
  moreover have "7 \<notin> live ?g0" by (simp add: live_def initial_signal_state_def)
  ultimately have ok: "signals_ok (\<lambda>_. 0) g" by (rule signal_add_ok [OF _ _ a])
  have g: "set_signals g 1 = [7]" "number_of g 7 = 15" "service_list g = [0]" "registrations g 0 15 = [7]" "set_queue g 1 = []"
    "rg_queue (regs g 7) = 1"
    using a by (auto simp: signal_add_def initial_signal_state_def max_signal_number_def plain_signals_def number_of_def)
  obtain calls g' where d: "deliver_signal 15 g = (calls, g')" by (metis prod.exhaust)
  have "distinct (service_list g)" by (simp add: g)
  from delivered_signals_are_kept [OF ok this d, of 9] g have
    "calls = [Posted_ops 0 []]"
    "hit (\<lambda>_. 0) g [0] 15 1 \<longrightarrow> (\<exists>m. fst (start_wait_op (\<lambda>_. 0) 1 9 g') = [Started 0, Posted_ops 0 [(9, no_error, m)]] \<and> m \<le> 15)"
    by auto
  moreover have "hit (\<lambda>_. 0) g [0] 15 1" using g by (simp add: hit_def)
  ultimately show ?thesis using d o by auto
qed

text \<open>Signals raised one after another reach their sets in that order when the pipe is read.\<close>

fun deliver_all :: "int list \<Rightarrow> signal_state \<Rightarrow> signal_call list \<times> signal_state" where
  "deliver_all [] g = ([], g)"
| "deliver_all (n # ns) g =
     (let (calls, g) = deliver_signal n g; (more, g) = deliver_all ns g in (calls @ more, g))"

lemma raised_signals_are_delivered:
  assumes "list_all (\<lambda>n. 0 \<le> n \<and> n < max_signal_number) ns"
  shows "pipe_read_perform plain_signals g (foldl (\<lambda>w n. asio_signal_handler plain_signals n g w) (h, []) ns) =
    (case deliver_all ns g of (calls, g') \<Rightarrow> Some (calls, g', h, []))"
proof -
  have "foldl (\<lambda>w n. asio_signal_handler plain_signals n g w) (h, p) ns = (h, p @ ns)" for p
    by (induction ns arbitrary: p) (simp_all add: asio_signal_handler_def plain_signals_def)
  moreover have "pipe_read_perform plain_signals g (h, ns) = (case deliver_all ns g of (calls, g') \<Rightarrow> Some (calls, g', h, []))"
    using assms
  proof (induction ns arbitrary: g)
    case Nil
    then show ?case by (subst pipe_read_perform.simps) (simp add: plain_signals_def)
  next
    case (Cons n ns)
    have r: "sg_read plain_signals d (h, n # ns) = (Some n, h, ns)" for d by (simp add: plain_signals_def)
    show ?case using Cons by (subst pipe_read_perform.simps) (simp add: r split: prod.splits)
  qed
  ultimately show ?thesis by simp
qed

text \<open>
  After a fork only one of several io_services watches the pipe again: the flag that a fork was prepared
  is global, and the first service to resume clears it. The second has given up its
  registration with its reactor before the fork and does not get it back.
\<close>

lemma fork_restores_one_service:
  "fst (fork_prepare v1 g) = [Unwatch v1 (read_descriptor g)] \<and>
   fst (fork_prepare v2 (snd (fork_prepare v1 g))) = [Unwatch v2 (read_descriptor g)] \<and>
   fst (fork_parent v1 (snd (fork_prepare v2 (snd (fork_prepare v1 g))))) = [Watch v1 (read_descriptor g)] \<and>
   fst (fork_parent v2 (snd (fork_parent v1 (snd (fork_prepare v2 (snd (fork_prepare v1 g))))))) = []"
  by (simp add: fork_prepare_def fork_parent_def)

end
