(* ===== verification/Spec2Isabelle.thy ===== *)
theory Spec2Isabelle
  imports ArenaShow ArenaRuns HostMain EndToEnd LargeDigit NeoPixel RingBuffer FirmwareSpec Receiver Simulator IpEndpoint DeadlineTimer Strand SchedulerLive SocketReactor ReactorOpQueue BufferedStream BuffersIterator Connect HostVerify SignalSet
begin

text \<open>
  A verification library of the arena controller: the program that runs the lights and clocks of a robot
  fight, the sketch of the display controller it talks to, and the parts of the networking library
  asio, kept in the same repository, that a program of this kind rests on.

  \<^bold>\<open>The program and its parts.\<close>
  A single thread, \<^verbatim>\<open>main.cpp\<close>, reads four buttons, passes them to a state machine
  (\<^verbatim>\<open>ArenaStates.cpp\<close>) and, each time round, sends what the current state shows to the lights of the two team
  buttons, to three 7-segment digits on an I2C bus, and to a field of WS2812 LEDs on an SPI bus
  (\<^verbatim>\<open>LedSegment.h\<close>). The digits belong to a microcontroller of their own, which runs
  \<^verbatim>\<open>large_segment_controller.ino\<close>: an interrupt receives bytes into a ring buffer, a timer
  interrupt takes one byte at a time through a command interpreter, and a display routine
  shifts the glyphs into a chain of registers. \<^verbatim>\<open>LargeDigitDriver.cpp\<close> is an older driver that
  shifts the same glyphs from the host, \<^verbatim>\<open>test.cpp\<close> a simulator of the field, and \<^verbatim>\<open>ReceiverComms.cpp\<close> a
  side channel over UDP. That channel uses asio: sockets belong to a service, which registers their
  descriptors with a reactor around epoll; the reactor and the user hand operations to a scheduler, whose
  threads run them; timers, strands, composed operations and buffered streams are built on top.

  \<^bold>\<open>Which theory models which part.\<close>
  Each definition has the name it has in the source, with a prefix where several classes use it.

  \<^item> Shared: \<open>Prelude\<close> (faults and the result type of operations that may meet one), \<open>Loops\<close> (loops whose
    end is not obvious), \<open>Float32\<close> (binary32 arithmetic as rounding of exact rationals), \<open>Chrono\<close> (the
    steady clock and its conversion to float), \<open>Fifo\<close> (the contract of a queue), \<open>Links\<close> (lists
    linked through maps), \<open>CText\<close> (numbers and text as the C library converts them), \<open>ByteOrder\<close>.
  \<^item> The arena: \<open>Color\<close> (\<^verbatim>\<open>ColorTriplet.h\<close>), \<open>Animation\<close>, \<open>Staging\<close>, \<open>Match\<close>, \<open>Particles\<close> (the animations
    of \<^verbatim>\<open>ArenaStates.cpp\<close> with their constructors, display functions and state), \<open>Arena\<close>
    (\<^verbatim>\<open>StateMachine\<close>, \<^verbatim>\<open>ChangeState\<close> and every \<^verbatim>\<open>Tick\<close>), \<open>SegmentFont\<close>
    (\<^verbatim>\<open>SegmentLedState.cpp\<close>), \<open>NeoPixel\<close> (\<^verbatim>\<open>LedSegment.h\<close>), \<open>ShiftRegister\<close> and \<open>LargeDigit\<close>
    (\<^verbatim>\<open>LargeDigitDriver.cpp\<close>), \<open>Receiver\<close> (\<^verbatim>\<open>ReceiverComms.cpp\<close>), \<open>Simulator\<close> (\<^verbatim>\<open>test.cpp\<close>), \<open>HostMain\<close>
    (\<^verbatim>\<open>main.cpp\<close>).
  \<^item> The display controller: \<open>RingBuffer\<close> (\<^verbatim>\<open>settings.h\<close> and the buffer of the sketch), \<open>Firmware\<close> (the
    interpreter and the display routine).
  \<^item> asio, values: \<open>AsioError\<close> (error codes), \<open>IpAddress\<close>, \<open>IpAddress6\<close>, \<open>IpAddressText\<close>, \<open>IpEndpoint\<close> (\<^verbatim>\<open>ip/\<close>).
  \<^item> asio, the engine: \<open>OpQueue\<close>, \<open>ObjectPool\<close>, \<open>TimerQueue\<close> (\<^verbatim>\<open>detail/op_queue.hpp\<close>, \<^verbatim>\<open>object_pool.hpp\<close>,
    \<^verbatim>\<open>timer_queue.hpp\<close>), \<open>TimeTraits\<close> and \<open>DeadlineTimer\<close> (time traits, the wait of the reactor, the service of
    timers), \<open>Scheduler\<close> (\<^verbatim>\<open>detail/impl/task_io_service.ipp\<close>), \<open>EpollReactor\<close>
    (\<^verbatim>\<open>detail/impl/epoll_reactor.ipp\<close>), \<open>Strand\<close> (\<^verbatim>\<open>detail/impl/strand_service.ipp\<close>), \<open>SocketOps\<close>
    (\<^verbatim>\<open>detail/impl/socket_ops.ipp\<close>), \<open>SocketService\<close> (\<^verbatim>\<open>detail/impl/reactive_socket_service_base.ipp\<close>),
    \<open>SocketReactor\<close> (the operations the service gives to the reactor, \<^verbatim>\<open>detail/reactive_socket_*_op.hpp\<close>),
    \<open>HashMap\<close> and \<open>ReactorOpQueue\<close> (\<^verbatim>\<open>detail/hash_map.hpp\<close>, \<^verbatim>\<open>detail/reactor_op_queue.hpp\<close>, the queues of
    operations in the reactors without epoll).
  \<^item> asio, streams: \<open>Buffers\<close> (\<^verbatim>\<open>buffer.hpp\<close>), \<open>ConsumingBuffers\<close> (\<^verbatim>\<open>detail/consuming_buffers.hpp\<close>),
    \<open>BuffersIterator\<close> (\<^verbatim>\<open>buffers_iterator.hpp\<close>), \<open>ReadWrite\<close> (\<^verbatim>\<open>impl/read.hpp\<close>, \<^verbatim>\<open>write.hpp\<close>, \<^verbatim>\<open>read_at.hpp\<close>,
    \<^verbatim>\<open>write_at.hpp\<close>, \<^verbatim>\<open>completion_condition.hpp\<close>), \<open>Streambuf\<close> (\<^verbatim>\<open>basic_streambuf.hpp\<close>), \<open>ReadUntil\<close>
    (\<^verbatim>\<open>impl/read_until.hpp\<close> and the operations on streambufs), \<open>BufferedStream\<close>
    (\<^verbatim>\<open>buffered_read_stream.hpp\<close>, \<^verbatim>\<open>buffered_write_stream.hpp\<close>), \<open>Connect\<close> (\<^verbatim>\<open>impl/connect.hpp\<close>, with the connects
    of \<^verbatim>\<open>basic_socket.hpp\<close>).
  \<^item> asio, further services: \<open>SignalSet\<close> (\<^verbatim>\<open>detail/impl/signal_set_service.ipp\<close>), \<open>HostVerify\<close>
    (\<^verbatim>\<open>ssl/impl/rfc2818_verification.ipp\<close>).

  \<^bold>\<open>What the lemmas show.\<close>

  \<^item> \<open>ArenaSpec\<close>: when a tick is undefined, exactly; otherwise every tick is a step of an abstract
    machine over phases and nanoseconds. \<open>ArenaRuns\<close> follows whole runs: no fight starts
    before both teams are ready and the countdown has passed, and every frame can be drawn
    within the power budget. \<open>ArenaShow\<close> says what the spectators see in each phase.
  \<^item> \<open>FirmwareSpec\<close>: the interpreter, fed byte by byte, is a parser of the protocol followed by serving its
    requests; when it leaves the digit array, exactly. \<open>EndToEnd\<close> joins host and controller: a pass of
    the main loop during a fight ends with the remaining seconds on the outputs.
  \<^item> \<open>TimerQueueSpec\<close>, \<open>DeadlineTimer\<close>: the heap, its indices and the list of timers agree; timers fire when
    due, in order, and cancelling aborts exactly what waits.
  \<^item> \<open>SchedulerSpec\<close>, \<open>SchedulerLive\<close>: invariants of the interleaved steps of any number of threads: no
    operation is lost or run twice, the count of outstanding work is right, no wake-up is lost,
    stopping reaches everyone. \<open>Strand\<close>: handlers of a strand run one at a time, in order, and are
    never stuck.
  \<^item> \<open>EpollReactorSpec\<close>, \<open>SocketReactor\<close>, \<open>SocketService\<close>: with edge-triggered events no readiness is missed by the
    operations of the socket service, from what the system promises of its calls, except after a failed
    \<^verbatim>\<open>epoll_ctl\<close> that the code does not check and after an accept that met an aborted connection; an open socket
    has a live registration of its own; closing it aborts what waits.
  \<^item> \<open>HashMap\<close>, \<open>ReactorOpQueue\<close>: the hash map is a finite map through rehashing and recycling, and the queues
    kept in it are a list of operations per descriptor.
  \<^item> \<open>ReadWriteSpec\<close>, \<open>ReadUntilSpec\<close>, \<open>BufferedStream\<close>: the composed operations return, move the bytes of the
    stream in order and without loss whatever pieces they come in, stop at the first match, and the
    asynchronous state machines end as the synchronous loops do. \<open>Connect\<close>: endpoints are tried in order; here the
    asynchronous operation gives up where the loop goes on, when a socket cannot be opened.
  \<^item> \<open>SignalSet\<close>: the books of registrations agree whatever is done to services and sets, deliveries and forks
    included, and no delivered signal is lost.
    \<open>HostVerify\<close>: the matcher of host names accepts what a pattern stands for, label by label.

  \<^bold>\<open>Interfaces.\<close>
  Contracts between parts are locales that are interpreted on the model: \<^verbatim>\<open>bounded_fifo\<close> (the ring
  buffer), \<^verbatim>\<open>operation_queue\<close> (the intrusive queue), \<^verbatim>\<open>object_store\<close> (the pool of descriptor states),
  \<^verbatim>\<open>bit_sender\<close> (the host and the sketch shift bits alike), \<^verbatim>\<open>rounding\<close> (binary32), \<^verbatim>\<open>cpp_order\<close> (the
  comparison operators of addresses and endpoints).

  \<^bold>\<open>How the code is read.\<close>
  Machine integers are words where their width matters. Times of the clock are unbounded
  integers: the overflow of 64 bits of nanoseconds, after 292 years, is not modelled. Floats are rationals, each operation rounded once: no fused
  multiply-add. Undefined behaviour is a value of type \<^verbatim>\<open>fault\<close>; errors and exceptions are values of sum types;
  functions that may loop for ever give \<^verbatim>\<open>Diverges\<close> or \<^verbatim>\<open>None\<close>. Parts under a mutex are
  functions on the state it guards, and what runs concurrently is a relation between states whose steps are those parts and the
  accesses between them. Of asio the POSIX branches of a Linux build with 64 bit longs, little-endian
  order and epoll are modelled. Outside code is a parameter: mraa's pins and buses, the EEPROM
  library, the system calls, epoll, the streams under composed operations, the user's handlers.

  \<^bold>\<open>Bounds.\<close>
  Particle animations are shown to end for frames drawn within \<^verbatim>\<open>2 ^ 13\<close> seconds of their start, beyond
  which adding a step to a float time may not change it; the main loop draws each frame right after the tick
  that ends an animation of seconds. The display of remaining time is exact for differences below
  \<^verbatim>\<open>2 ^ 37\<close> nanoseconds, more than two minutes. Shutting down and forking walk the list of live descriptors with
  as many steps as there are live descriptors, which is all of them. The reactor sleeps at most five minutes. Reads into a streambuf and
  its counters are shown for less than \<^verbatim>\<open>2 ^ 31\<close> bytes, where the code's conversion to int is exact. The loops of
  composed operations have no fuel: they are partial functions, and the theorems say that they
  return when each transfer of the stream moves a byte or fails.

  \<^bold>\<open>Not modelled.\<close>
  In the program: the window loop of the simulator, which uses an interface of the state machine
  that no longer exists and does not compile, and \<^verbatim>\<open>setupTimer\<close> of the sketch, which sets
  timer registers. In asio:

  \<^item> the parts for other systems and build options: Windows (I/O completion ports, \<^verbatim>\<open>win_*\<close>, WinRT), the reactors around
    select, kqueue and \<^verbatim>\<open>/dev/poll\<close>, TLS but for the check of host names (it calls OpenSSL), descriptors and
    serial ports, and Boost (regular expressions, date and time, coroutines);
  \<^item> the resolver and the emulations of \<^verbatim>\<open>getaddrinfo\<close>, which serve systems without it;
  \<^item> classes that only forward: the \<^verbatim>\<open>basic_*\<close> wrappers, socket streams, \<^verbatim>\<open>io_service\<close> and its services, and the
    registries that find a service by its type;
  \<^item> the glue of the language: configuration macros, type requirements, allocation and invocation hooks of handlers, mutexes,
    threads and memory fences, whose meaning the steps of the models assume; memory order is
    sequential;
  \<^item> exceptions that leave a handler, and destroying a service while threads run it;
  \<^item> the documentation, examples and tests.
\<close>

end
